(* ===== verification/Prelude.thy ===== *)
theory Prelude
  imports Main "HOL-Library.Word" "HOL-Library.Char_ord" "HOL-Library.List_Lexorder"
begin

text \<open>
  Shared vocabulary of the development: Go strings as byte lists with the functions of Go's
  \<open>strings\<close> package the program calls, association lists as JSON objects, and the lemmas on
  lists and maps that several components use. \<open>go_str\<close> collects the equations that
  evaluate the string functions on concrete arguments.
\<close>

named_theorems go_str "evaluation of the modelled functions of package strings"

type_synonym bytes = "8 word list"
type_synonym u64 = "64 word"

section \<open>Package strings\<close>

definition has_prefix :: "string \<Rightarrow> string \<Rightarrow> bool" where
  "has_prefix s p \<longleftrightarrow> take (length p) s = p"

definition has_suffix :: "string \<Rightarrow> string \<Rightarrow> bool" where
  "has_suffix s p \<longleftrightarrow> length p \<le> length s \<and> drop (length s - length p) s = p"

definition trim_prefix :: "string \<Rightarrow> string \<Rightarrow> string" where
  "trim_prefix s p = (if has_prefix s p then drop (length p) s else s)"

definition trim_suffix :: "string \<Rightarrow> string \<Rightarrow> string" where
  "trim_suffix s p = (if has_suffix s p then take (length s - length p) s else s)"

text \<open>\<open>strings.Contains\<close> and \<open>strings.Cut\<close>: the first occurrence of a separator.\<close>

fun contains_str :: "string \<Rightarrow> string \<Rightarrow> bool" where
  "contains_str [] p \<longleftrightarrow> p = []"
| "contains_str (c # s) p \<longleftrightarrow> has_prefix (c # s) p \<or> contains_str s p"

fun cut_str :: "string \<Rightarrow> string \<Rightarrow> string \<times> string \<times> bool" where
  "cut_str [] p = (if p = [] then ([], [], True) else ([], [], False))"
| "cut_str (c # s) p =
     (if has_prefix (c # s) p then ([], drop (length p) (c # s), True)
      else (case cut_str s p of (a, b, f) \<Rightarrow> (c # a, b, f)))"

text \<open>\<open>strings.Split\<close> with a one-byte separator; the result is never empty.\<close>

fun split_char :: "char \<Rightarrow> string \<Rightarrow> string list" where
  "split_char d [] = [[]]"
| "split_char d (c # s) =
     (if c = d then [] # split_char d s
      else (case split_char d s of [] \<Rightarrow> [[c]] | w # ws \<Rightarrow> (c # w) # ws))"

fun join_str :: "string \<Rightarrow> string list \<Rightarrow> string" where
  "join_str sep [] = []"
| "join_str sep [w] = w"
| "join_str sep (w # ws) = w @ sep @ join_str sep ws"

text \<open>\<open>unicode.IsSpace\<close> on the ASCII range, as \<open>strings.TrimSpace\<close> and \<open>strings.Fields\<close> use it.\<close>

definition is_space :: "char \<Rightarrow> bool" where
  "is_space c \<longleftrightarrow> c \<in> {CHR '' '', CHR 0x09, CHR 0x0A, CHR 0x0B, CHR 0x0C, CHR 0x0D}"

definition trim_space :: "string \<Rightarrow> string" where
  "trim_space s = rev (dropWhile is_space (rev (dropWhile is_space s)))"

lemmas [go_str] = has_prefix_def has_suffix_def trim_prefix_def trim_suffix_def is_space_def
  trim_space_def

lemma has_prefix_append [simp]: "has_prefix (p @ s) p"
  by (simp add: has_prefix_def)

lemma has_prefix_Nil [simp]: "has_prefix s []"
  by (simp add: has_prefix_def)

lemma has_prefix_self [simp]: "has_prefix p p"
  by (simp add: has_prefix_def)

lemma has_prefix_iff: "has_prefix s p \<longleftrightarrow> (\<exists>t. s = p @ t)"
  by (auto simp: has_prefix_def) (metis append_take_drop_id)

lemma has_suffix_iff: "has_suffix s p \<longleftrightarrow> (\<exists>t. s = t @ p)"
  by (auto simp: has_suffix_def) (metis append_take_drop_id)

lemma has_prefix_Cons [simp]: "has_prefix (c # s) (d # p) \<longleftrightarrow> c = d \<and> has_prefix s p"
  by (auto simp: has_prefix_def)

lemma has_prefix_Nil_Cons [simp]: "\<not> has_prefix [] (d # p)"
  by (simp add: has_prefix_def)

lemma trim_prefix_append [simp]: "trim_prefix (p @ s) p = s"
  by (simp add: trim_prefix_def)

lemma trim_suffix_append [simp]: "trim_suffix (s @ p) p = s"
  by (simp add: trim_suffix_def has_suffix_def)

lemma contains_str_iff: "contains_str s p \<longleftrightarrow> (\<exists>a b. s = a @ p @ b)"
proof (induction s)
  case Nil
  then show ?case by auto
next
  case (Cons c s)
  show ?case
  proof
    assume "contains_str (c # s) p"
    then consider "has_prefix (c # s) p" | "contains_str s p" by auto
    then show "\<exists>a b. c # s = a @ p @ b"
    proof cases
      case 1
      then obtain t where "c # s = [] @ p @ t" by (auto simp: has_prefix_iff)
      then show ?thesis by blast
    next
      case 2
      then obtain a b where "s = a @ p @ b" using Cons.IH by blast
      then have "c # s = (c # a) @ p @ b" by simp
      then show ?thesis by blast
    qed
  next
    assume "\<exists>a b. c # s = a @ p @ b"
    then obtain a b where ab: "c # s = a @ p @ b" by blast
    show "contains_str (c # s) p"
    proof (cases a)
      case Nil
      with ab have "has_prefix (c # s) p" by (simp add: has_prefix_iff)
      then show ?thesis by simp
    next
      case (Cons x a')
      with ab have "s = a' @ p @ b" by simp
      with Cons.IH show ?thesis by auto
    qed
  qed
qed

lemma cut_str_found: "cut_str s p = (a, b, True) \<Longrightarrow> s = a @ p @ b"
proof (induction s arbitrary: a b)
  case Nil
  then show ?case by (auto split: if_splits)
next
  case (Cons c s)
  show ?case
  proof (cases "has_prefix (c # s) p")
    case True
    then have "c # s = p @ drop (length p) (c # s)" by (metis append_take_drop_id has_prefix_def)
    moreover from True Cons.prems have "a = []" "b = drop (length p) (c # s)" by auto
    ultimately show ?thesis by simp
  next
    case False
    then show ?thesis using Cons by (auto split: prod.splits)
  qed
qed

lemma cut_str_not_found: "cut_str s p = (a, b, False) \<Longrightarrow> a = s \<and> b = [] \<and> \<not> contains_str s p"
  by (induction s arbitrary: a b) (auto split: if_splits prod.splits)

lemma cut_char_append [simp]:
  "c \<notin> set a \<Longrightarrow> cut_str (a @ c # b) [c] = (a, b, True)"
  by (induction a) (auto simp: has_prefix_def)

lemma cut_char_fst: "cut_str s [c] = (a, b, f) \<Longrightarrow> c \<notin> set a"
  by (induction s arbitrary: a b f) (auto simp: has_prefix_def split: if_splits prod.splits)

lemma split_char_not_Nil [simp]: "split_char d s \<noteq> []"
  by (induction s) (auto split: list.splits)

lemma split_char_no_sep: "d \<notin> set s \<Longrightarrow> split_char d s = [s]"
  by (induction s) auto

lemma split_char_append: "d \<notin> set w \<Longrightarrow> split_char d (w @ d # s) = w # split_char d s"
  by (induction w) (auto split: list.splits)

lemma split_char_join:
  "\<forall>w \<in> set ws. d \<notin> set w \<Longrightarrow> ws \<noteq> [] \<Longrightarrow> split_char d (join_str [d] ws) = ws"
proof (induction "[d]" ws rule: join_str.induct)
  case (3 w v vs)
  then show ?case by (simp add: split_char_append)
qed (auto simp: split_char_no_sep)

lemma split_char_sep: "split_char d (a @ d # b) = split_char d a @ split_char d b"
proof (induction a)
  case (Cons c a)
  then show ?case by (cases "split_char d a") auto
qed simp

section \<open>Numbers as text\<close>

text \<open>\<open>strconv.FormatUint(n, 10)\<close> and the digit part of \<open>strconv.ParseUint(s, 10, 64)\<close>.\<close>

definition digit_char :: "nat \<Rightarrow> char" where
  "digit_char d = char_of (48 + d)"

definition is_digit :: "char \<Rightarrow> bool" where
  "is_digit c \<longleftrightarrow> 48 \<le> (of_char c :: nat) \<and> (of_char c :: nat) \<le> 57"

definition digit_val :: "char \<Rightarrow> nat" where
  "digit_val c = of_char c - 48"

fun format_nat :: "nat \<Rightarrow> string" where
  "format_nat n = (if n < 10 then [digit_char n] else format_nat (n div 10) @ [digit_char (n mod 10)])"

declare format_nat.simps [simp del]

fun parse_digits :: "nat \<Rightarrow> string \<Rightarrow> nat option" where
  "parse_digits acc [] = Some acc"
| "parse_digits acc (c # s) = (if is_digit c then parse_digits (10 * acc + digit_val c) s else None)"

text \<open>\<open>strconv.ParseUint(s, 10, 64)\<close>: no sign, at least one digit, at most \<open>2^64 - 1\<close>.\<close>

definition parse_uint64 :: "string \<Rightarrow> nat option" where
  "parse_uint64 s = (if s = [] then None else
     (case parse_digits 0 s of None \<Rightarrow> None | Some n \<Rightarrow> if n < 2 ^ 64 then Some n else None))"

text \<open>\<open>strconv.ParseInt(s, 10, bits)\<close>: an optional sign, digits, and the range of the size.\<close>

definition parse_int :: "nat \<Rightarrow> string \<Rightarrow> int option" where
  "parse_int bits s =
     (let (neg, ds) = (case s of [] \<Rightarrow> (False, [])
                       | c # r \<Rightarrow> if c = CHR ''-'' then (True, r) else if c = CHR ''+'' then (False, r) else (False, s))
      in if ds = [] then None else
         (case parse_digits 0 ds of None \<Rightarrow> None
          | Some n \<Rightarrow> if neg then (if n \<le> 2 ^ (bits - 1) then Some (- int n) else None)
                      else (if n < 2 ^ (bits - 1) then Some (int n) else None)))"

lemma of_char_digit_char: "d < 10 \<Longrightarrow> (of_char (digit_char d) :: nat) = 48 + d"
  by (simp add: digit_char_def)

lemma is_digit_digit_char [simp]: "d < 10 \<Longrightarrow> is_digit (digit_char d)"
  by (simp add: is_digit_def of_char_digit_char)

lemma digit_val_digit_char [simp]: "d < 10 \<Longrightarrow> digit_val (digit_char d) = d"
  by (simp add: digit_val_def of_char_digit_char)

lemma parse_digits_append:
  "parse_digits acc (s @ t) = (case parse_digits acc s of None \<Rightarrow> None | Some n \<Rightarrow> parse_digits n t)"
  by (induction s arbitrary: acc) auto

lemma format_nat_not_Nil [simp]: "format_nat n \<noteq> []"
  by (subst format_nat.simps) simp

lemma format_nat_digits: "c \<in> set (format_nat n) \<Longrightarrow> is_digit c"
proof (induction n rule: format_nat.induct)
  case (1 n)
  then show ?case by (subst (asm) (2) format_nat.simps) (auto split: if_splits)
qed

lemma parse_digits_format_nat: "parse_digits 0 (format_nat n) = Some n"
proof (induction n rule: format_nat.induct)
  case (1 n)
  show ?case
  proof (cases "n < 10")
    case True
    then show ?thesis by (subst format_nat.simps) simp
  next
    case False
    with 1 have "parse_digits 0 (format_nat (n div 10)) = Some (n div 10)" by simp
    with False show ?thesis by (subst format_nat.simps) (simp add: parse_digits_append)
  qed
qed

lemma parse_uint64_format_nat: "n < 2 ^ 64 \<Longrightarrow> parse_uint64 (format_nat n) = Some n"
  by (simp add: parse_uint64_def parse_digits_format_nat)

lemma parse_int_range:
  assumes "parse_int bits s = Some n"
  shows "- (2 ^ (bits - 1)) \<le> n \<and> n < 2 ^ (bits - 1)"
proof -
  have pos: "(0::int) < 2 ^ (bits - 1)" by simp
  obtain m where m: "(n = - int m \<and> 0 < m \<and> m \<le> 2 ^ (bits - 1)) \<or> (n = int m \<and> m < 2 ^ (bits - 1))"
    using assms unfolding parse_int_def Let_def
    by (auto split: prod.splits option.splits if_splits list.splits) fastforce+
  have "int m \<le> 2 ^ (bits - 1)" if "m \<le> 2 ^ (bits - 1)"
    using that by (metis of_nat_le_iff of_nat_numeral of_nat_power)
  moreover have "int m < 2 ^ (bits - 1)" if "m < 2 ^ (bits - 1)"
    using that by (metis of_nat_less_iff of_nat_numeral of_nat_power)
  ultimately show ?thesis using m pos by (elim disjE conjE) linarith+
qed

text \<open>Go's \<open>int\<close> and \<open>int64\<close>: sums wrap around at 64 bits, in two's complement.\<close>

definition to_i64 :: "int \<Rightarrow> int" where
  "to_i64 x = signed_take_bit 63 x"

lemma to_i64_id: "- (2 ^ 63) \<le> x \<Longrightarrow> x < 2 ^ 63 \<Longrightarrow> to_i64 x = x"
  by (simp add: to_i64_def signed_take_bit_int_eq_self)

lemma to_i64_range: "- (2 ^ 63) \<le> to_i64 x \<and> to_i64 x < 2 ^ 63"
  using signed_take_bit_int_greater_eq_minus_exp [of 63 x] signed_take_bit_int_less_exp [of 63 x]
  by (simp add: to_i64_def)

section \<open>Invariants of step relations\<close>

text \<open>
  What every state machine of the development shares: a predicate that holds at the start and that
  every step keeps holds in every reachable state.
\<close>

locale step_invariant =
  fixes step :: "'s \<Rightarrow> 's \<Rightarrow> bool" and init :: "'s \<Rightarrow> bool" and inv :: "'s \<Rightarrow> bool"
  assumes init_inv: "init s \<Longrightarrow> inv s"
    and step_inv: "step s s' \<Longrightarrow> inv s \<Longrightarrow> inv s'"
begin

lemma steps_inv: "step\<^sup>*\<^sup>* s s' \<Longrightarrow> inv s \<Longrightarrow> inv s'"
  by (induction rule: rtranclp_induct) (auto intro: step_inv)

lemma reachable_inv: "init s0 \<Longrightarrow> step\<^sup>*\<^sup>* s0 s \<Longrightarrow> inv s"
  by (blast intro: init_inv steps_inv)

end

end
