(* ===== verification/Glob.thy ===== *)
theory Glob
  imports Prelude
begin

text \<open>
  The glob matcher of \<open>src/server/oidc/claims.go\<close> (\<open>GlobMatch\<close>, \<open>GlobMatchAny\<close>), which decides
  whether a token claim, a subject, a pin name or a certificate identity is allowed. The Go loop
  is modelled step by step, with its two indices and the last \<open>*\<close> it can fall back to, and
  compared with the recursive meaning of a glob pattern, \<open>glob_spec\<close>.
\<close>

section \<open>The matcher\<close>

record glob_state =
  p_idx :: nat
  s_idx :: nat
  star_idx :: "nat option"
  match_idx :: nat

text \<open>One iteration of the loop body; \<open>None\<close> is the \<open>return false\<close> of the default case.\<close>

definition glob_step :: "string \<Rightarrow> string \<Rightarrow> glob_state \<Rightarrow> glob_state option" where
  "glob_step pat str st =
     (let p = p_idx st; s = s_idx st in
      if p < length pat \<and> (pat ! p = CHR ''?'' \<or> pat ! p = str ! s)
      then Some (st\<lparr>p_idx := p + 1, s_idx := s + 1\<rparr>)
      else if p < length pat \<and> pat ! p = CHR ''*''
      then Some (st\<lparr>star_idx := Some p, match_idx := s, p_idx := p + 1\<rparr>)
      else (case star_idx st of
              Some sp \<Rightarrow> Some (st\<lparr>p_idx := sp + 1, match_idx := match_idx st + 1, s_idx := match_idx st + 1\<rparr>)
            | None \<Rightarrow> None))"

text \<open>The last loop and the final test: what is left of the pattern is all \<open>*\<close>.\<close>

definition glob_tail :: "string \<Rightarrow> nat \<Rightarrow> bool" where
  "glob_tail pat p \<longleftrightarrow> dropWhile (\<lambda>c. c = CHR ''*'') (drop p pat) = []"

partial_function (option) glob_loop :: "string \<Rightarrow> string \<Rightarrow> glob_state \<Rightarrow> bool option" where
  "glob_loop pat str st =
     (if s_idx st < length str
      then (case glob_step pat str st of
              None \<Rightarrow> Some False
            | Some st' \<Rightarrow> glob_loop pat str st')
      else Some (glob_tail pat (p_idx st)))"

declare glob_loop.simps [code]

definition glob_init :: glob_state where
  "glob_init = \<lparr>p_idx = 0, s_idx = 0, star_idx = None, match_idx = 0\<rparr>"

definition GlobMatch :: "string \<Rightarrow> string \<Rightarrow> bool option" where
  "GlobMatch pat str =
     (if pat = [] then Some (str = [])
      else if pat = ''*'' then Some True
      else glob_loop pat str glob_init)"

text \<open>\<open>GlobMatchAny\<close>, through the value the total matcher returns.\<close>

definition glob_match :: "string \<Rightarrow> string \<Rightarrow> bool" where
  "glob_match pat str \<longleftrightarrow> GlobMatch pat str = Some True"

definition GlobMatchAny :: "string list \<Rightarrow> string \<Rightarrow> bool" where
  "GlobMatchAny pats str \<longleftrightarrow> list_ex (\<lambda>p. glob_match p str) pats"

section \<open>The meaning of a pattern\<close>

fun glob_spec :: "string \<Rightarrow> string \<Rightarrow> bool" where
  "glob_spec [] s \<longleftrightarrow> s = []"
| "glob_spec (p # ps) [] \<longleftrightarrow> p = CHR ''*'' \<and> glob_spec ps []"
| "glob_spec (p # ps) (c # s) \<longleftrightarrow>
     (if p = CHR ''*'' then glob_spec ps (c # s) \<or> glob_spec (p # ps) s
      else (p = CHR ''?'' \<or> p = c) \<and> glob_spec ps s)"

lemma glob_spec_star: "glob_spec (CHR ''*'' # ps) s \<longleftrightarrow> (\<exists>k \<le> length s. glob_spec ps (drop k s))"
proof (induction s)
  case (Cons c s)
  have "(\<exists>k \<le> length (c # s). glob_spec ps (drop k (c # s)))
        \<longleftrightarrow> glob_spec ps (c # s) \<or> (\<exists>k \<le> length s. glob_spec ps (drop k s))"
    (is "?L \<longleftrightarrow> ?R")
  proof
    assume ?L
    then obtain k where k: "k \<le> length (c # s)" "glob_spec ps (drop k (c # s))" by blast
    then show ?R by (cases k) auto
  next
    assume ?R
    then show ?L
    proof
      assume "glob_spec ps (c # s)"
      then show ?L by (intro exI [of _ 0]) simp
    next
      assume "\<exists>k \<le> length s. glob_spec ps (drop k s)"
      then obtain k where "k \<le> length s" "glob_spec ps (drop k s)" by blast
      then show ?L by (intro exI [of _ "Suc k"]) simp
    qed
  qed
  with Cons.IH show ?case by simp
qed simp

lemma glob_spec_tail: "glob_spec (drop p pat) [] \<longleftrightarrow> glob_tail pat p"
proof -
  have "glob_spec ps [] \<longleftrightarrow> dropWhile (\<lambda>c. c = CHR ''*'') ps = []" for ps
    by (induction ps) auto
  then show ?thesis by (simp add: glob_tail_def)
qed

text \<open>A segment without \<open>*\<close> consumes exactly its length of the subject.\<close>

lemma glob_spec_segment:
  "glob_spec (drop i pat) (drop k s) \<Longrightarrow> i + n \<le> length pat \<Longrightarrow> k \<le> length s \<Longrightarrow>
   \<forall>j. i \<le> j \<and> j < i + n \<longrightarrow> pat ! j \<noteq> CHR ''*'' \<Longrightarrow>
   k + n \<le> length s \<and> glob_spec (drop (i + n) pat) (drop (k + n) s)"
proof (induction n arbitrary: i k)
  case (Suc n)
  from Suc.prems(2) have i: "drop i pat = pat ! i # drop (Suc i) pat"
    by (simp add: Cons_nth_drop_Suc)
  from Suc.prems(4) have ns: "pat ! i \<noteq> CHR ''*''" by simp
  with Suc.prems(1) i have "drop k s \<noteq> []" by (metis glob_spec.simps(2))
  then have k: "k < length s" by simp
  then have "drop k s = s ! k # drop (Suc k) s" by (simp add: Cons_nth_drop_Suc)
  with Suc.prems(1) i ns have "glob_spec (drop (Suc i) pat) (drop (Suc k) s)" by simp
  from Suc.IH [OF this] Suc.prems k show ?case by simp
qed simp

section \<open>The loop invariant and termination\<close>

definition glob_inv :: "string \<Rightarrow> string \<Rightarrow> glob_state \<Rightarrow> bool" where
  "glob_inv pat str st \<longleftrightarrow> p_idx st \<le> length pat \<and> s_idx st \<le> length str \<and>
     (case star_idx st of
        None \<Rightarrow> match_idx st = 0
      | Some sp \<Rightarrow> sp < p_idx st \<and> pat ! sp = CHR ''*'' \<and> match_idx st \<le> s_idx st)"

definition glob_measure :: "string \<Rightarrow> string \<Rightarrow> (glob_state \<times> glob_state) set" where
  "glob_measure pat str = inv_image (less_than <*lex*> less_than <*lex*> less_than)
     (\<lambda>st. (Suc (length str) - match_idx st,
            length pat - (case star_idx st of None \<Rightarrow> 0 | Some sp \<Rightarrow> Suc sp),
            length str - s_idx st))"

lemma wf_glob_measure: "wf (glob_measure pat str)"
  by (auto simp: glob_measure_def)

lemma glob_inv_init [simp]: "glob_inv pat str glob_init"
  by (simp add: glob_inv_def glob_init_def)

lemma glob_step_inv:
  "glob_step pat str st = Some st' \<Longrightarrow> glob_inv pat str st \<Longrightarrow> s_idx st < length str \<Longrightarrow>
   glob_inv pat str st'"
  by (auto simp: glob_step_def glob_inv_def Let_def split: if_splits option.splits)

lemma glob_step_measure:
  "glob_step pat str st = Some st' \<Longrightarrow> glob_inv pat str st \<Longrightarrow> s_idx st < length str \<Longrightarrow>
   (st', st) \<in> glob_measure pat str"
  by (auto simp: glob_step_def glob_inv_def glob_measure_def Let_def split: if_splits option.splits)

text \<open>
  The rule the proofs about the loop use: what every step keeps while the loop runs and the
  two exits establish holds of its result, and there is one.
\<close>

lemma glob_loop_rule:
  assumes "glob_inv pat str st" and "I st"
    and step: "\<And>st st'. glob_inv pat str st \<Longrightarrow> I st \<Longrightarrow> s_idx st < length str \<Longrightarrow>
                 glob_step pat str st = Some st' \<Longrightarrow> I st'"
    and fail: "\<And>st. glob_inv pat str st \<Longrightarrow> I st \<Longrightarrow> s_idx st < length str \<Longrightarrow>
                 glob_step pat str st = None \<Longrightarrow> Q False"
    and fin: "\<And>st. glob_inv pat str st \<Longrightarrow> I st \<Longrightarrow> s_idx st = length str \<Longrightarrow>
                 Q (glob_tail pat (p_idx st))"
  shows "\<exists>b. glob_loop pat str st = Some b \<and> Q b"
  using wf_glob_measure [of pat str] assms(1,2)
proof (induction st rule: wf_induct_rule)
  case (less st)
  show ?case
  proof (cases "s_idx st < length str")
    case False
    with less.prems have "s_idx st = length str" by (simp add: glob_inv_def)
    with False fin less.prems show ?thesis by (subst glob_loop.simps) simp
  next
    case True
    show ?thesis
    proof (cases "glob_step pat str st")
      case None
      with True fail less.prems have "Q False" by blast
      with True None show ?thesis by (subst glob_loop.simps) (auto intro!: exI [of _ False])
    next
      case (Some st')
      with True less.prems have "(st', st) \<in> glob_measure pat str" "glob_inv pat str st'" "I st'"
        by (auto intro: glob_step_measure glob_step_inv step)
      from less.IH [OF this] Some True show ?thesis by (subst glob_loop.simps) simp
    qed
  qed
qed

lemma GlobMatch_total: "\<exists>b. GlobMatch pat str = Some b"
  using glob_loop_rule [of pat str glob_init "\<lambda>_. True" "\<lambda>_. True"]
  by (auto simp: GlobMatch_def)

section \<open>Soundness and completeness of the loop\<close>

text \<open>What is left to match would make the whole match, from either resumption point.\<close>

definition glob_sound :: "string \<Rightarrow> string \<Rightarrow> glob_state \<Rightarrow> bool" where
  "glob_sound pat str st \<longleftrightarrow>
     (glob_spec (drop (p_idx st) pat) (drop (s_idx st) str) \<longrightarrow> glob_spec pat str) \<and>
     (\<forall>sp. star_idx st = Some sp \<longrightarrow>
        glob_spec (drop sp pat) (drop (match_idx st) str) \<longrightarrow> glob_spec pat str)"

lemma drop_nth: "i < length xs \<Longrightarrow> drop i xs = xs ! i # drop (Suc i) xs"
  by (simp add: Cons_nth_drop_Suc)

lemma glob_spec_star_skip:
  "i < length s \<Longrightarrow> glob_spec ps (drop (Suc i) s) \<Longrightarrow> glob_spec (CHR ''*'' # ps) (drop i s)"
  unfolding glob_spec_star by (intro exI [of _ 1]) simp

lemma glob_sound_step:
  assumes "glob_inv pat str st" "glob_sound pat str st" "s_idx st < length str"
    and "glob_step pat str st = Some st'"
  shows "glob_sound pat str st'"
proof -
  consider (eq) "p_idx st < length pat" "pat ! p_idx st = CHR ''?'' \<or> pat ! p_idx st = str ! s_idx st"
      "st' = st\<lparr>p_idx := p_idx st + 1, s_idx := s_idx st + 1\<rparr>"
    | (star) "p_idx st < length pat" "pat ! p_idx st = CHR ''*''"
      "st' = st\<lparr>star_idx := Some (p_idx st), match_idx := s_idx st, p_idx := p_idx st + 1\<rparr>"
    | (bt) sp where "star_idx st = Some sp"
      "st' = st\<lparr>p_idx := sp + 1, match_idx := match_idx st + 1, s_idx := match_idx st + 1\<rparr>"
    using assms(4) by (auto simp: glob_step_def Let_def split: if_splits option.splits)
  then show ?thesis
  proof cases
    case eq
    have "glob_spec (drop (p_idx st) pat) (drop (s_idx st) str)"
      if "glob_spec (drop (Suc (p_idx st)) pat) (drop (Suc (s_idx st)) str)"
    proof (cases "pat ! p_idx st = CHR ''*''")
      case True
      from glob_spec_star_skip [OF assms(3) that]
      show ?thesis using True eq by (simp add: drop_nth)
    next
      case False
      with that eq assms(3) show ?thesis by (auto simp: drop_nth)
    qed
    with eq assms(2) show ?thesis by (auto simp: glob_sound_def)
  next
    case star
    have "glob_spec (drop (p_idx st) pat) (drop (s_idx st) str)"
      if "glob_spec (drop (Suc (p_idx st)) pat) (drop (s_idx st) str)"
      using that star assms(3) by (simp add: drop_nth)
    with star assms(2) show ?thesis by (auto simp: glob_sound_def)
  next
    case (bt sp)
    from assms(1,3) bt(1) have sp: "sp < length pat" "pat ! sp = CHR ''*''" "match_idx st < length str"
      by (auto simp: glob_inv_def)
    from glob_spec_star_skip [OF sp(3)] sp
    have 1: "glob_spec (drop sp pat) (drop (match_idx st) str)"
      if "glob_spec (drop (Suc sp) pat) (drop (Suc (match_idx st)) str)"
      using that by (simp add: drop_nth)
    have 2: "glob_spec (drop sp pat) (drop (match_idx st) str)"
      if "glob_spec (drop sp pat) (drop (Suc (match_idx st)) str)"
      using that sp by (simp add: drop_nth)
    from bt 1 2 assms(2) show ?thesis by (auto simp: glob_sound_def)
  qed
qed

lemma glob_match_sound: "glob_match pat str \<Longrightarrow> glob_spec pat str"
proof -
  assume m: "glob_match pat str"
  have "\<exists>b. glob_loop pat str glob_init = Some b \<and> (b \<longrightarrow> glob_spec pat str)"
  proof (rule glob_loop_rule [where I = "glob_sound pat str"])
    show "glob_sound pat str glob_init" by (simp add: glob_sound_def glob_init_def)
  next
    fix st assume "glob_sound pat str st" "s_idx st = length str"
    then show "glob_tail pat (p_idx st) \<longrightarrow> glob_spec pat str"
      by (simp add: glob_sound_def glob_spec_tail)
  qed (auto intro: glob_sound_step)
  moreover have "glob_spec ''*'' str" by (auto simp: glob_spec_star intro: exI [of _ "length str"])
  ultimately show "glob_spec pat str"
    using m by (auto simp: glob_match_def GlobMatch_def split: if_splits)
qed

text \<open>
  Completeness holds for subjects without a \<open>*\<close>. The matcher only remembers the last star: the
  invariant says that a match is still reachable from the current position or from a later
  start of the last star, and that the pattern since that star is a plain segment aligned with
  the subject, which is why the older stars need not be remembered.
\<close>

definition glob_compl :: "string \<Rightarrow> string \<Rightarrow> glob_state \<Rightarrow> bool" where
  "glob_compl pat str st \<longleftrightarrow>
     (case star_idx st of
        None \<Rightarrow> glob_spec (drop (p_idx st) pat) (drop (s_idx st) str)
      | Some sp \<Rightarrow>
          s_idx st + Suc sp = p_idx st + match_idx st \<and>
          (\<forall>j. sp < j \<and> j < p_idx st \<longrightarrow> pat ! j \<noteq> CHR ''*'') \<and>
          (glob_spec (drop (p_idx st) pat) (drop (s_idx st) str) \<or>
           (\<exists>k. match_idx st < k \<and> k \<le> length str \<and> glob_spec (drop (Suc sp) pat) (drop k str))))"

text \<open>A later start of the last star carries over the plain segment that follows it.\<close>

lemma glob_compl_later:
  assumes "glob_inv pat str st" "glob_compl pat str st" "star_idx st = Some sp"
    and "match_idx st < k" "k \<le> length str" "glob_spec (drop (Suc sp) pat) (drop k str)"
  shows "\<exists>k'. s_idx st < k' \<and> k' \<le> length str \<and> glob_spec (drop (p_idx st) pat) (drop k' str)"
proof -
  define n where "n = p_idx st - Suc sp"
  with assms(1-3) have n: "Suc sp + n = p_idx st" "s_idx st = match_idx st + n"
    by (auto simp: glob_inv_def glob_compl_def)
  with assms have "k + n \<le> length str \<and> glob_spec (drop (Suc sp + n) pat) (drop (k + n) str)"
    by (intro glob_spec_segment) (auto simp: glob_inv_def glob_compl_def)
  with n assms(4) show ?thesis by (intro exI [of _ "k + n"]) auto
qed

lemma glob_compl_step:
  assumes inv: "glob_inv pat str st" and compl: "glob_compl pat str st" and s: "s_idx st < length str"
    and plain: "CHR ''*'' \<notin> set str" and step: "glob_step pat str st = Some st'"
  shows "glob_compl pat str st'"
proof -
  have sc: "str ! s_idx st \<noteq> CHR ''*''" using plain s by (metis nth_mem)
  consider (eq) "p_idx st < length pat" "pat ! p_idx st = CHR ''?'' \<or> pat ! p_idx st = str ! s_idx st"
      "st' = st\<lparr>p_idx := p_idx st + 1, s_idx := s_idx st + 1\<rparr>"
    | (star) "p_idx st < length pat" "pat ! p_idx st = CHR ''*''"
      "st' = st\<lparr>star_idx := Some (p_idx st), match_idx := s_idx st, p_idx := p_idx st + 1\<rparr>"
    | (bt) sp where "star_idx st = Some sp"
      "p_idx st < length pat \<longrightarrow> pat ! p_idx st \<noteq> CHR ''*'' \<and> pat ! p_idx st \<noteq> CHR ''?'' \<and> pat ! p_idx st \<noteq> str ! s_idx st"
      "st' = st\<lparr>p_idx := sp + 1, match_idx := match_idx st + 1, s_idx := match_idx st + 1\<rparr>"
    using step by (auto simp: glob_step_def Let_def split: if_splits option.splits)
  then show ?thesis
  proof cases
    case eq
    with sc have ns: "pat ! p_idx st \<noteq> CHR ''*''" by auto
    with eq s have "glob_spec (drop (Suc (p_idx st)) pat) (drop (Suc (s_idx st)) str)"
      if "glob_spec (drop (p_idx st) pat) (drop (s_idx st) str)"
      using that by (simp add: drop_nth)
    with eq ns compl show ?thesis by (auto simp: glob_compl_def less_Suc_eq split: option.splits)
  next
    case star
    have "glob_spec (drop (p_idx st) pat) (drop (s_idx st) str) \<or>
          (\<exists>k. s_idx st < k \<and> k \<le> length str \<and> glob_spec (drop (p_idx st) pat) (drop k str))"
      using glob_compl_later [OF inv compl] compl
      by (auto simp: glob_compl_def split: option.splits)
    then obtain k where "s_idx st \<le> k" "k \<le> length str" "glob_spec (drop (p_idx st) pat) (drop k str)"
      using s by (metis less_imp_le order_refl)
    moreover from this star obtain k' where "k' \<le> length str - k"
      "glob_spec (drop (Suc (p_idx st)) pat) (drop (k' + k) str)"
      by (auto simp: drop_nth glob_spec_star)
    ultimately have "\<exists>k. s_idx st \<le> k \<and> k \<le> length str \<and> glob_spec (drop (Suc (p_idx st)) pat) (drop k str)"
      by (intro exI [of _ "k' + k"]) auto
    with star show ?thesis by (auto simp: glob_compl_def le_less)
  next
    case (bt sp)
    have "\<not> glob_spec (drop (p_idx st) pat) (drop (s_idx st) str)"
    proof (cases "p_idx st < length pat")
      case True
      with bt(2) s show ?thesis by (simp add: drop_nth)
    next
      case False
      with s show ?thesis by simp
    qed
    with compl bt(1) obtain k where "Suc (match_idx st) \<le> k" "k \<le> length str"
      "glob_spec (drop (Suc sp) pat) (drop k str)"
      by (auto simp: glob_compl_def Suc_le_eq)
    with bt show ?thesis by (auto simp: glob_compl_def le_less)
  qed
qed

lemma glob_match_complete:
  assumes "CHR ''*'' \<notin> set str" "glob_spec pat str"
  shows "glob_match pat str"
proof -
  have "\<exists>b. glob_loop pat str glob_init = Some b \<and> b"
  proof (rule glob_loop_rule [where I = "glob_compl pat str"])
    show "glob_compl pat str glob_init" using assms(2) by (simp add: glob_compl_def glob_init_def)
  next
    fix st assume inv: "glob_inv pat str st" and compl: "glob_compl pat str st"
      and s: "s_idx st < length str" and none: "glob_step pat str st = None"
    then have "star_idx st = None" "\<not> glob_spec (drop (p_idx st) pat) (drop (s_idx st) str)"
      by (auto simp: glob_step_def Let_def drop_nth split: if_splits option.splits)
        (cases "p_idx st < length pat"; simp add: drop_nth)
    with compl show False by (simp add: glob_compl_def)
  next
    fix st assume inv: "glob_inv pat str st" and compl: "glob_compl pat str st" and s: "s_idx st = length str"
    then have "glob_spec (drop (p_idx st) pat) []"
      using glob_compl_later [OF inv compl] compl
      by (auto simp: glob_compl_def split: option.splits) (meson leD)
    then show "glob_tail pat (p_idx st)" by (simp add: glob_spec_tail)
  qed (simp, blast intro: glob_compl_step [OF _ _ _ assms(1)])
  with assms show ?thesis by (auto simp: glob_match_def GlobMatch_def)
qed


section \<open>Properties\<close>

text \<open>
  C31: \<open>GlobMatch\<close> returns for every pattern and subject. It never accepts a subject outside the
  meaning of the pattern, where \<open>*\<close> stands for any string and \<open>?\<close> for any byte, and for a subject that holds
  no \<open>*\<close> the iterative matcher with its one remembered star decides exactly that meaning.
\<close>
theorem GlobMatch_correct:
  "\<exists>b. GlobMatch pat str = Some b \<and> (b \<longrightarrow> glob_spec pat str) \<and> (CHR ''*'' \<notin> set str \<longrightarrow> b = glob_spec pat str)"
  using GlobMatch_total [of pat str] glob_match_sound [of pat str] glob_match_complete [of str pat]
  by (auto simp: glob_match_def)

theorem GlobMatch_correct_witness: "GlobMatch ''repo:*/niks?:*'' ''repo:a/b/niks3:ref'' = Some True"
  using GlobMatch_correct [of "''repo:*/niks?:*''" "''repo:a/b/niks3:ref''"] by auto

text \<open>
  The matcher never accepts a subject outside the pattern, whatever bytes the subject holds:
  an access decision taken from a match is one the pattern's author allowed.
\<close>
theorem GlobMatch_sound:
  assumes "GlobMatchAny pats str"
  shows "\<exists>pat \<in> set pats. glob_spec pat str"
  using assms glob_match_sound by (auto simp: GlobMatchAny_def list_ex_iff)

theorem GlobMatch_sound_witness: "\<exists>pat \<in> set [''b'', ''ab?'']. glob_spec pat ''abc''"
proof -
  have "glob_match ''ab?'' ''abc''" by (rule glob_match_complete) auto
  then have "GlobMatchAny [''b'', ''ab?''] ''abc''" by (simp add: GlobMatchAny_def)
  from GlobMatch_sound [OF this] show ?thesis .
qed

text \<open>
  A \<open>*\<close> in the subject breaks completeness. The loop tests for an equal byte before it tests
  for the wildcard, so a \<open>*\<close> of the pattern facing a \<open>*\<close> of the subject is consumed as a literal
  and is no longer a wildcard: the pattern \<open>*a\<close> rejects \<open>*xa\<close>, and \<open>*?\<close> rejects \<open>*\<close>.
\<close>
theorem GlobMatch_literal_star:
  "GlobMatch ''*a'' ''*xa'' = Some False \<and> glob_spec ''*a'' ''*xa'' \<and>
   GlobMatch ''*?'' ''*'' = Some False \<and> glob_spec ''*?'' ''*''"
  by (simp add: GlobMatch_def glob_init_def glob_step_def glob_loop.simps glob_tail_def)

end
