(* ===== verification/Nixbase32.thy ===== *)
theory Nixbase32
  imports Prelude
begin

text \<open>
  Nix's base-32 digest encoding (\<open>src/api/nixbase32.go\<close>) and the conversion of a digest from the
  SRI form with base 64 to the Nix form (\<open>src/client/nixbase32.go\<close>). The encoder cuts 5-bit
  groups out of a byte slice with shifts; it is compared with the arithmetic meaning of the
  format: the base-32 digits of the little-endian number the bytes denote, highest first.
\<close>

unbundle bit_operations_syntax

section \<open>The encoder\<close>

definition NixBase32Alphabet :: string where
  "NixBase32Alphabet = ''0123456789abcdfghijklmnpqrsvwxyz''"

text \<open>The body of the loop: five bits at bit position \<open>5 n\<close>, possibly across two bytes.\<close>

definition nix32_group :: "bytes \<Rightarrow> nat \<Rightarrow> 8 word" where
  "nix32_group input n =
     (let b = n * 5; i = b div 8; j = b mod 8;
          c = (if i < length input then drop_bit j (input ! i) else 0)
      in if i + 1 < length input then c OR push_bit (8 - j) (input ! (i + 1)) else c)"

definition EncodeNixBase32 :: "bytes \<Rightarrow> string" where
  "EncodeNixBase32 input =
     (if input = [] then ''''
      else map (\<lambda>n. NixBase32Alphabet ! unat (nix32_group input n AND 0x1f))
             (rev [0 ..< (length input * 8 - 1) div 5 + 1]))"

section \<open>The number a byte string denotes\<close>

fun le_value :: "bytes \<Rightarrow> nat" where
  "le_value [] = 0"
| "le_value (x # xs) = unat x + 256 * le_value xs"

lemma le_value_less: "le_value xs < 256 ^ length xs"
proof (induction xs)
  case (Cons x xs)
  have "unat x < 256" using unsigned_less [of x, where 'a = nat] by simp
  with Cons show ?case by simp
qed simp

lemma bit_le_value: "bit (le_value xs) k \<longleftrightarrow> k div 8 < length xs \<and> bit (xs ! (k div 8)) (k mod 8)"
proof (induction xs arbitrary: k)
  case (Cons x xs)
  have eq: "le_value (x # xs) = take_bit 8 (unat x) + push_bit 8 (le_value xs)"
    using unsigned_less [of x, where 'a = nat] by (simp add: take_bit_eq_mod push_bit_eq_mult)
  have "bit (le_value (x # xs)) k \<longleftrightarrow> bit (take_bit 8 (unat x) OR push_bit 8 (le_value xs)) k"
    unfolding eq by (subst disjunctive_add) (auto simp: bit_simps)
  also have "\<dots> \<longleftrightarrow> (k < 8 \<and> bit x k) \<or> (8 \<le> k \<and> bit (le_value xs) (k - 8))"
    by (auto simp: bit_simps)
  also have "\<dots> \<longleftrightarrow> k div 8 < length (x # xs) \<and> bit ((x # xs) ! (k div 8)) (k mod 8)"
  proof (cases "k < 8")
    case False
    then have "k div 8 = Suc ((k - 8) div 8)" "k mod 8 = (k - 8) mod 8"
      by (simp_all add: le_div_geq le_mod_geq)
    with False Cons.IH show ?thesis by simp
  qed simp
  finally show ?case .
qed simp

lemma div_mod_8: "(r :: nat) < 8 \<Longrightarrow> (8 * i + r) div 8 = i \<and> (8 * i + r) mod 8 = r"
  by simp

lemma bit_nix32_group:
  assumes "k < 5"
  shows "bit (nix32_group xs n) k \<longleftrightarrow> bit (le_value xs) (5 * n + k)"
proof -
  define i where "i = n * 5 div 8"
  define j where "j = n * 5 mod 8"
  have nj: "5 * n = 8 * i + j" and j: "j < 8" by (simp_all add: i_def j_def mult.commute)
  have out: "\<not> bit (x :: 8 word) m" if "8 \<le> m" for x m
    using that bit_imp_le_length [of x m] by auto
  have g: "bit (nix32_group xs n) k \<longleftrightarrow>
        (i < length xs \<and> bit (xs ! i) (j + k)) \<or>
        (i + 1 < length xs \<and> 8 - j \<le> k \<and> bit (xs ! (i + 1)) (k - (8 - j)))"
    using assms by (auto simp: nix32_group_def Let_def bit_simps i_def [symmetric] j_def [symmetric] add.commute)
  show ?thesis
  proof (cases "j + k < 8")
    case True
    have eq: "5 * n + k = 8 * i + (j + k)" using nj by simp
    have "(5 * n + k) div 8 = i" "(5 * n + k) mod 8 = j + k"
      unfolding eq using div_mod_8 [OF True] by blast+
    with g True show ?thesis by (auto simp: bit_le_value)
  next
    case False
    have "5 * n + k = 8 * (i + 1) + (k - (8 - j))" "k - (8 - j) < 8"
      using nj j False assms by auto
    then have "(5 * n + k) div 8 = i + 1" "(5 * n + k) mod 8 = k - (8 - j)"
      using div_mod_8 [of "k - (8 - j)" "i + 1"] by simp_all
    with g False out show ?thesis by (auto simp: bit_le_value)
  qed
qed

lemma nix32_digit: "unat (nix32_group xs n AND 0x1f) = le_value xs div 32 ^ n mod 32"
proof -
  have "unat (nix32_group xs n AND 0x1f) = take_bit 5 (unat (nix32_group xs n))"
    by (rule bit_eqI) (auto simp: bit_simps numeral_eq_Suc less_Suc_eq)
  also have "\<dots> = take_bit 5 (drop_bit (5 * n) (le_value xs))"
    by (rule bit_eqI) (auto simp: bit_simps bit_nix32_group)
  finally show ?thesis
    by (simp add: take_bit_eq_mod drop_bit_eq_div power_mult)
qed


section \<open>Reading a digest back\<close>

text \<open>
  The inverse the format promises: the digits denote a number, and the length of the text gives
  the number of bytes.
\<close>

fun index_of :: "'a \<Rightarrow> 'a list \<Rightarrow> nat" where
  "index_of x [] = 0"
| "index_of x (y # ys) = (if x = y then 0 else Suc (index_of x ys))"

definition nix32_number :: "string \<Rightarrow> nat" where
  "nix32_number s = foldl (\<lambda>acc c. 32 * acc + index_of c NixBase32Alphabet) 0 s"

definition nix32_decode :: "string \<Rightarrow> bytes" where
  "nix32_decode s = map (\<lambda>i. of_nat (nix32_number s div 256 ^ i)) [0 ..< length s * 5 div 8]"

lemma index_of_nth: "distinct xs \<Longrightarrow> i < length xs \<Longrightarrow> index_of (xs ! i) xs = i"
  by (induction xs arbitrary: i) (auto simp: nth_Cons split: nat.splits)

lemma index_alphabet: "d < 32 \<Longrightarrow> index_of (NixBase32Alphabet ! d) NixBase32Alphabet = d"
  by (rule index_of_nth) (simp_all add: NixBase32Alphabet_def)

lemma foldl_digits:
  "(\<And>n. f n < 32) \<Longrightarrow>
   foldl (\<lambda>acc c. 32 * acc + index_of c NixBase32Alphabet) a
     (map (\<lambda>n. NixBase32Alphabet ! f n) (rev [0 ..< m])) = a * 32 ^ m + (\<Sum>n < m. f n * 32 ^ n)"
  by (induction m arbitrary: a) (simp_all add: index_alphabet algebra_simps)

lemma digits_sum: "(\<Sum>n < m. (v div 32 ^ n mod 32) * 32 ^ n) = (v :: nat) mod 32 ^ m"
proof (induction m)
  case (Suc m)
  have "v mod 32 ^ Suc m = 32 ^ m * (v div 32 ^ m mod 32) + v mod 32 ^ m"
    using mod_mult2_eq [of v "32 ^ m" 32] by (simp add: mult.commute)
  with Suc show ?case by simp
qed simp

lemma encode_as_digits:
  "xs \<noteq> [] \<Longrightarrow> EncodeNixBase32 xs =
     map (\<lambda>n. NixBase32Alphabet ! (le_value xs div 32 ^ n mod 32)) (rev [0 ..< (length xs * 8 - 1) div 5 + 1])"
  by (simp add: EncodeNixBase32_def nix32_digit)

lemma length_encode: "length (EncodeNixBase32 xs) = (length xs * 8 + 4) div 5"
  by (cases xs) (simp_all add: EncodeNixBase32_def)

lemma nix32_number_encode: "nix32_number (EncodeNixBase32 xs) = le_value xs"
proof (cases "xs = []")
  case True
  then show ?thesis by (simp add: EncodeNixBase32_def nix32_number_def)
next
  case False
  define m where "m = (length xs * 8 - 1) div 5 + 1"
  from False have "8 * length xs \<le> 5 * m" by (cases xs) (auto simp: m_def)
  then have "(2::nat) ^ (8 * length xs) \<le> 2 ^ (5 * m)" by simp
  then have "le_value xs < 32 ^ m"
    using le_value_less [of xs] by (simp add: power_mult)
  moreover have "nix32_number (EncodeNixBase32 xs) = (\<Sum>n < m. (le_value xs div 32 ^ n mod 32) * 32 ^ n)"
    unfolding nix32_number_def encode_as_digits [OF False] m_def [symmetric]
    by (subst foldl_digits) simp_all
  ultimately show ?thesis by (simp add: digits_sum)
qed

lemma le_value_nth: "i < length xs \<Longrightarrow> of_nat (le_value xs div 256 ^ i) = xs ! i"
proof (induction xs arbitrary: i)
  case (Cons x xs)
  have x: "unat x < 256" using unsigned_less [of x, where 'a = nat] by simp
  show ?case
  proof (cases i)
    case 0
    have "(of_nat (256 * le_value xs) :: 8 word) = 0"
    proof -
      have "(256 :: 8 word) = 0" by simp
      then show ?thesis by (simp only: of_nat_mult of_nat_numeral mult_zero_left)
    qed
    with 0 show ?thesis by simp
  next
    case (Suc k)
    have "le_value (x # xs) div 256 ^ i = le_value xs div 256 ^ k"
      using x Suc by (simp add: div_mult2_eq)
    with Suc Cons show ?thesis by simp
  qed
qed simp

lemma nix32_decode_encode: "nix32_decode (EncodeNixBase32 xs) = xs"
proof (rule nth_equalityI)
  have "(length xs * 8 + 4) div 5 * 5 div 8 = length xs" by linarith
  then show len: "length (nix32_decode (EncodeNixBase32 xs)) = length xs"
    by (simp add: nix32_decode_def length_encode)
  show "nix32_decode (EncodeNixBase32 xs) ! i = xs ! i" if "i < length (nix32_decode (EncodeNixBase32 xs))" for i
    using that len by (simp add: nix32_decode_def nix32_number_encode le_value_nth)
qed

lemma set_encode: "set (EncodeNixBase32 xs) \<subseteq> set NixBase32Alphabet"
proof (cases "xs = []")
  case False
  have "length NixBase32Alphabet = 32" by (simp add: NixBase32Alphabet_def)
  then have "NixBase32Alphabet ! (v mod 32) \<in> set NixBase32Alphabet" for v by simp
  with False show ?thesis by (auto simp: encode_as_digits)
qed (simp add: EncodeNixBase32_def)


section \<open>Base 64 and the conversion of SRI hashes\<close>

text \<open>
  \<open>base64.StdEncoding.DecodeString\<close>: line breaks are skipped, padding is required, and nothing
  may follow it. \<open>b64_encode\<close> is the encoder whose output Nix prints after \<open>sha256-\<close>.
\<close>

definition b64_alphabet :: string where
  "b64_alphabet = ''ABCDEFGHIJKLMNOPQRSTUVWXYZabcdefghijklmnopqrstuvwxyz0123456789+/''"

definition b64_val :: "char \<Rightarrow> nat option" where
  "b64_val c = (let i = index_of c b64_alphabet in if i < 64 then Some i else None)"

definition b64_byte0 :: "nat \<Rightarrow> nat \<Rightarrow> 8 word" where
  "b64_byte0 x y = of_nat (x * 4 + y div 16)"

definition b64_byte1 :: "nat \<Rightarrow> nat \<Rightarrow> 8 word" where
  "b64_byte1 y z = of_nat (y mod 16 * 16 + z div 4)"

definition b64_byte2 :: "nat \<Rightarrow> nat \<Rightarrow> 8 word" where
  "b64_byte2 z w = of_nat (z mod 4 * 64 + w)"

fun b64_quanta :: "string \<Rightarrow> bytes option" where
  "b64_quanta [] = Some []"
| "b64_quanta (a # b # c # d # s) =
     (if c = CHR ''='' \<and> d = CHR ''='' then
        (case (b64_val a, b64_val b) of
           (Some x, Some y) \<Rightarrow> if s = [] then Some [b64_byte0 x y] else None
         | _ \<Rightarrow> None)
      else if d = CHR ''='' then
        (case (b64_val a, b64_val b, b64_val c) of
           (Some x, Some y, Some z) \<Rightarrow>
             if s = [] then Some [b64_byte0 x y, b64_byte1 y z] else None
         | _ \<Rightarrow> None)
      else
        (case (b64_val a, b64_val b, b64_val c, b64_val d) of
           (Some x, Some y, Some z, Some w) \<Rightarrow>
             map_option (\<lambda>r. b64_byte0 x y # b64_byte1 y z # b64_byte2 z w # r)
               (b64_quanta s)
         | _ \<Rightarrow> None))"
| "b64_quanta _ = None"

definition b64_decode :: "string \<Rightarrow> bytes option" where
  "b64_decode s = b64_quanta (filter (\<lambda>c. c \<noteq> CHR 0x0A \<and> c \<noteq> CHR 0x0D) s)"

definition b64_char :: "nat \<Rightarrow> char" where
  "b64_char n = b64_alphabet ! n"

fun b64_encode :: "bytes \<Rightarrow> string" where
  "b64_encode [] = []"
| "b64_encode [x] = [b64_char (unat x div 4), b64_char (unat x mod 4 * 16), CHR ''='', CHR ''='']"
| "b64_encode [x, y] = [b64_char (unat x div 4), b64_char (unat x mod 4 * 16 + unat y div 16),
                        b64_char (unat y mod 16 * 4), CHR ''='']"
| "b64_encode (x # y # z # s) =
     b64_char (unat x div 4) # b64_char (unat x mod 4 * 16 + unat y div 16) #
     b64_char (unat y mod 16 * 4 + unat z div 64) # b64_char (unat z mod 64) # b64_encode s"

lemma b64_val_char [simp]: "n < 64 \<Longrightarrow> b64_val (b64_char n) = Some n"
proof -
  assume "n < 64"
  then have "index_of (b64_alphabet ! n) b64_alphabet = n"
    by (intro index_of_nth) (simp_all add: b64_alphabet_def)
  with \<open>n < 64\<close> show ?thesis by (simp add: b64_val_def b64_char_def)
qed

lemma b64_char_plain:
  assumes "n < 64"
  shows "b64_char n \<noteq> CHR ''='' \<and> b64_char n \<noteq> CHR 0x0A \<and> b64_char n \<noteq> CHR 0x0D"
proof -
  have "length b64_alphabet = 64" by (simp add: b64_alphabet_def)
  with assms have "b64_char n \<in> set b64_alphabet" by (simp add: b64_char_def)
  then show ?thesis by (auto simp: b64_alphabet_def)
qed

lemma unat_byte: "unat (x :: 8 word) < 256"
  using unsigned_less [of x, where 'a = nat] by simp

lemma b64_bounds:
  "unat (x :: 8 word) div 4 < 64" "unat (x :: 8 word) mod 4 * 16 + unat (y :: 8 word) div 16 < 64"
  "unat (x :: 8 word) mod 4 * 16 < 64"
  "unat (x :: 8 word) mod 16 * 4 + unat (y :: 8 word) div 64 < 64" "unat (x :: 8 word) mod 16 * 4 < 64"
  "unat (x :: 8 word) mod 64 < 64"
  using unat_byte [of x] unat_byte [of y] by linarith+

lemma split_16: "r < 16 \<Longrightarrow> (a * 16 + r) div 16 = (a :: nat) \<and> (a * 16 + r) mod 16 = r" by simp

lemma split_4: "r < 4 \<Longrightarrow> (a * 4 + r) div 4 = (a :: nat) \<and> (a * 4 + r) mod 4 = r" by simp

lemma byte_nibbles: "(y :: nat) < 256 \<Longrightarrow> y div 16 < 16 \<and> y div 64 < 4"  by (simp add: div_less_iff_less_mult)

lemma join_first: "(y::nat) < 256 \<Longrightarrow> x div 4 * 4 + (x mod 4 * 16 + y div 16) div 16 = x"
  using split_16[of "y div 16" "x mod 4"] byte_nibbles[of y] div_mult_mod_eq[of x 4] by simp

lemma join_first_pad: "x div 4 * 4 + x mod 4 * 16 div 16 = (x::nat)" using div_mult_mod_eq[of x 4] by simp

lemma join_second: "(y::nat) < 256 \<Longrightarrow> z < 256 \<Longrightarrow> (x mod 4 * 16 + y div 16) mod 16 * 16 +  (y mod 16 * 4 + z div 64) div 4 = y" 
  using split_16[of "y div 16" "x mod 4"] split_4[of "z div 64" "y mod 16"] byte_nibbles[of y] byte_nibbles[of z] div_mult_mod_eq[of y 16] by simp

lemma join_second_pad: "(y::nat) < 256 \<Longrightarrow>  (x mod 4 * 16 + y div 16) mod 16 * 16 +  (y mod 16 * 4) div 4 = y" 
  using split_16[of "y div 16" "x mod 4"]  byte_nibbles[of y]  div_mult_mod_eq[of y 16] by simp

lemma join_third: "(z::nat) < 256 \<Longrightarrow>  (y mod 16 * 4 + z div 64) mod 4 * 64 + z mod 64 = z" 
  using split_4[of "z div 64" "y mod 16"]  byte_nibbles[of z]  div_mult_mod_eq[of z 64] by simp

lemma b64_byte0_join:
  "b64_byte0 (unat x div 4) (unat x mod 4 * 16 + unat (y :: 8 word) div 16) = x"
  "b64_byte0 (unat x div 4) (unat x mod 4 * 16) = x"
  unfolding b64_byte0_def join_first [OF unat_byte] join_first_pad by simp_all

lemma b64_byte1_join:
  "b64_byte1 (unat x mod 4 * 16 + unat y div 16) (unat y mod 16 * 4 + unat (z :: 8 word) div 64) = y"
  "b64_byte1 (unat x mod 4 * 16 + unat y div 16) (unat y mod 16 * 4) = y"
  unfolding b64_byte1_def join_second [OF unat_byte unat_byte] join_second_pad [OF unat_byte] by simp_all

lemma b64_byte2_join: "b64_byte2 (unat y mod 16 * 4 + unat z div 64) (unat z mod 64) = z"
  unfolding b64_byte2_def join_third [OF unat_byte] by simp

lemmas b64_join = b64_byte0_join b64_byte1_join b64_byte2_join

lemma b64_quanta_encode: "b64_quanta (b64_encode bs) = Some bs"
  by (induction bs rule: b64_encode.induct) (simp_all add: b64_bounds b64_char_plain b64_join)

lemma b64_encode_no_newline: "c \<in> set (b64_encode bs) \<Longrightarrow> c \<noteq> CHR 0x0A \<and> c \<noteq> CHR 0x0D"
  by (induction bs rule: b64_encode.induct) (auto simp: b64_bounds b64_char_plain)

lemma b64_decode_encode: "b64_decode (b64_encode bs) = Some bs"
proof -
  have "filter (\<lambda>c. c \<noteq> CHR 0x0A \<and> c \<noteq> CHR 0x0D) (b64_encode bs) = b64_encode bs"
    using b64_encode_no_newline by (simp add: filter_id_conv)
  then show ?thesis by (simp add: b64_decode_def b64_quanta_encode)
qed

datatype hash_error = UnsupportedHashFormat | BadBase64

definition ConvertHashToNix32 :: "string \<Rightarrow> hash_error + string" where
  "ConvertHashToNix32 hash =
     (if has_prefix hash ''sha256:'' \<and> \<not> contains_str hash ''-'' \<and> \<not> contains_str hash ''+'' \<and>
         \<not> contains_str hash ''/'' \<and> \<not> contains_str hash ''=''
      then Inr hash
      else if \<not> has_prefix hash ''sha256-'' then Inl UnsupportedHashFormat
      else (case b64_decode (trim_prefix hash ''sha256-'') of
              None \<Rightarrow> Inl BadBase64
            | Some hashBytes \<Rightarrow> Inr (''sha256:'' @ EncodeNixBase32 hashBytes)))"

lemma contains_char: "contains_str s [c] \<longleftrightarrow> c \<in> set s"
  by (induction s) (auto simp: has_prefix_def)

lemma alphabet_no_b64_marks:
  "c \<in> set (EncodeNixBase32 bs) \<Longrightarrow> c \<notin> {CHR ''-'', CHR ''+'', CHR ''/'', CHR ''=''}"
  using set_encode [of bs] by (auto simp: NixBase32Alphabet_def)

lemma ConvertHashToNix32_nix32:
  "ConvertHashToNix32 (''sha256:'' @ EncodeNixBase32 bs) = Inr (''sha256:'' @ EncodeNixBase32 bs)"
  using alphabet_no_b64_marks [of _ bs]
  by (auto simp: ConvertHashToNix32_def contains_char has_prefix_def)

section \<open>Properties\<close>

text \<open>
  The shift-and-mask encoder is injective and loses nothing: reading the text back as a
  base-32 number, with the byte count its length determines, gives the bytes for every input.
\<close>
theorem EncodeNixBase32_roundtrip: "nix32_decode (EncodeNixBase32 input) = input"
  by (rule nix32_decode_encode)

text \<open>
  Digit \<open>n\<close> of the text, counted from its end, is the base-32 digit \<open>n\<close> of the little-endian
  number the bytes denote, for every input and every position, so the cuts across a byte
  boundary and the missing high byte of the last group are right.
\<close>
theorem EncodeNixBase32_digits:
  assumes "n < length (EncodeNixBase32 input)"
  shows "rev (EncodeNixBase32 input) ! n = NixBase32Alphabet ! (le_value input div 32 ^ n mod 32)"
proof -
  from assms have ne: "input \<noteq> []" by (auto simp: EncodeNixBase32_def)
  with assms show ?thesis
    by (subst encode_as_digits [OF ne]) (simp add: length_encode rev_map EncodeNixBase32_def del: upt_Suc)
qed

theorem EncodeNixBase32_digits_witness:
  "rev (EncodeNixBase32 [0xff, 0x01]) ! 1 = NixBase32Alphabet ! (511 div 32 mod 32)"
  using EncodeNixBase32_digits [of 1 "[0xff, 0x01]"] by (simp add: length_encode)

text \<open>
  Converting an SRI hash keeps the digest. Whatever bytes Nix put after \<open>sha256-\<close> in base 64
  are the bytes the Nix-32 text of the result denotes, and converting the result again changes
  nothing.
\<close>
theorem ConvertHashToNix32_digest:
  "\<exists>t. ConvertHashToNix32 (''sha256-'' @ b64_encode bs) = Inr (''sha256:'' @ t) \<and> nix32_decode t = bs \<and>
       ConvertHashToNix32 (''sha256:'' @ t) = Inr (''sha256:'' @ t)"
proof -
  have "\<not> has_prefix (''sha256-'' @ b64_encode bs) ''sha256:''" by (simp add: has_prefix_def)
  then have "ConvertHashToNix32 (''sha256-'' @ b64_encode bs) = Inr (''sha256:'' @ EncodeNixBase32 bs)"
    using b64_decode_encode [of bs] trim_prefix_append [of "''sha256-''" "b64_encode bs"]
      has_prefix_append [of "''sha256-''" "b64_encode bs"]
    by (simp only: ConvertHashToNix32_def) simp
  then show ?thesis using nix32_decode_encode ConvertHashToNix32_nix32 by blast
qed

end
