(* ===== verification/Keys.thy ===== *)
theory Keys
  imports Nixbase32
begin

text \<open>
  Which S3 keys the server reads and lets clients write: \<open>IsValidUploadKey\<close>
  (\<open>src/server/upload_key.go\<close>), \<open>IsValidCachePath\<close> and the five key patterns
  (\<open>src/server/proxy.go\<close>). The regular expressions are terms of a small datatype with the
  usual language and a matcher by derivatives.
\<close>

section \<open>Regular expressions\<close>

datatype re =
    RNone
  | REps
  | RCls string
  | RSeq re re
  | RAlt re re
  | RStar re

inductive_set star_lang :: "string set \<Rightarrow> string set" for L where
  nil: "[] \<in> star_lang L"
| app: "u \<in> L \<Longrightarrow> v \<in> star_lang L \<Longrightarrow> u @ v \<in> star_lang L"

fun lang :: "re \<Rightarrow> string set" where
  "lang RNone = {}"
| "lang REps = {[]}"
| "lang (RCls cs) = {[c] |c. c \<in> set cs}"
| "lang (RSeq r s) = {u @ v |u v. u \<in> lang r \<and> v \<in> lang s}"
| "lang (RAlt r s) = lang r \<union> lang s"
| "lang (RStar r) = star_lang (lang r)"

fun nullable :: "re \<Rightarrow> bool" where
  "nullable RNone = False"
| "nullable REps = True"
| "nullable (RCls cs) = False"
| "nullable (RSeq r s) = (nullable r \<and> nullable s)"
| "nullable (RAlt r s) = (nullable r \<or> nullable s)"
| "nullable (RStar r) = True"

fun deriv :: "char \<Rightarrow> re \<Rightarrow> re" where
  "deriv c RNone = RNone"
| "deriv c REps = RNone"
| "deriv c (RCls cs) = (if c \<in> set cs then REps else RNone)"
| "deriv c (RSeq r s) =
     (if nullable r then RAlt (RSeq (deriv c r) s) (deriv c s) else RSeq (deriv c r) s)"
| "deriv c (RAlt r s) = RAlt (deriv c r) (deriv c s)"
| "deriv c (RStar r) = RSeq (deriv c r) (RStar r)"

text \<open>\<open>MatchString\<close> of a pattern anchored at both ends.\<close>

fun MatchString :: "re \<Rightarrow> string \<Rightarrow> bool" where
  "MatchString r [] = nullable r"
| "MatchString r (c # s) = MatchString (deriv c r) s"

lemma nullable_lang: "nullable r \<longleftrightarrow> [] \<in> lang r"
  by (induction r) (auto intro: star_lang.nil)

lemma star_lang_Cons:
  "c # w \<in> star_lang L \<longleftrightarrow> (\<exists>u v. w = u @ v \<and> c # u \<in> L \<and> v \<in> star_lang L)"
proof
  assume "c # w \<in> star_lang L"
  then show "\<exists>u v. w = u @ v \<and> c # u \<in> L \<and> v \<in> star_lang L"
  proof (induction "c # w" arbitrary: w rule: star_lang.induct)
    case (app u v)
    then show ?case by (cases u) auto
  qed
next
  assume "\<exists>u v. w = u @ v \<and> c # u \<in> L \<and> v \<in> star_lang L"
  then show "c # w \<in> star_lang L" by (auto dest: star_lang.app)
qed

lemma deriv_lang: "w \<in> lang (deriv c r) \<longleftrightarrow> c # w \<in> lang r"
proof (induction r arbitrary: w)
  case (RSeq r s)
  have "c # w \<in> lang (RSeq r s) \<longleftrightarrow>
        (\<exists>u v. w = u @ v \<and> c # u \<in> lang r \<and> v \<in> lang s) \<or> ([] \<in> lang r \<and> c # w \<in> lang s)"
    by (auto simp: Cons_eq_append_conv)
  then show ?case using RSeq by (auto simp: nullable_lang)
qed (auto simp: star_lang_Cons)

lemma MatchString_lang: "MatchString r s \<longleftrightarrow> s \<in> lang r"
  by (induction s arbitrary: r) (simp_all add: nullable_lang deriv_lang)

text \<open>The abbreviations of the pattern syntax.\<close>

fun RLit :: "string \<Rightarrow> re" where
  "RLit [] = REps"
| "RLit (c # s) = RSeq (RCls [c]) (RLit s)"

fun RTimes :: "nat \<Rightarrow> re \<Rightarrow> re" where
  "RTimes 0 r = REps"
| "RTimes (Suc n) r = RSeq r (RTimes n r)"

definition RPlus :: "re \<Rightarrow> re" where
  "RPlus r = RSeq r (RStar r)"

definition ROpt :: "re \<Rightarrow> re" where
  "ROpt r = RAlt REps r"

lemma lang_RLit [simp]: "lang (RLit s) = {s}"
  by (induction s) auto

lemma head_in_class:
  "(\<exists>u v. x = u @ v \<and> (\<exists>c. u = [c] \<and> c \<in> S) \<and> P v) \<longleftrightarrow> (\<exists>c v. x = c # v \<and> c \<in> S \<and> P v)"
  (is "?L = ?R")
proof
  show ?R if ?L using that by auto
  show ?L if ?R
  proof -
    from that obtain c v where "x = [c] @ v" "c \<in> S" "P v" by auto
    then show ?L by blast
  qed
qed

lemma lang_RTimes_RCls [simp]: "lang (RTimes n (RCls cs)) = {s. length s = n \<and> set s \<subseteq> set cs}"
proof (induction n)
  case (Suc n)
  show ?case
  proof (intro set_eqI)
    show "x \<in> lang (RTimes (Suc n) (RCls cs)) \<longleftrightarrow> x \<in> {s. length s = Suc n \<and> set s \<subseteq> set cs}" for x
      using Suc by (cases x) (auto simp: head_in_class)
  qed
qed auto

lemma star_lang_RCls: "s \<in> star_lang {[c] |c. c \<in> set cs} \<longleftrightarrow> set s \<subseteq> set cs"
  by (induction s) (auto simp: star_lang_Cons intro: star_lang.nil)

lemma lang_RPlus_RCls [simp]: "lang (RPlus (RCls cs)) = {s. s \<noteq> [] \<and> set s \<subseteq> set cs}"
proof (intro set_eqI)
  show "x \<in> lang (RPlus (RCls cs)) \<longleftrightarrow> x \<in> {s. s \<noteq> [] \<and> set s \<subseteq> set cs}" for x
    by (cases x) (auto simp: RPlus_def star_lang_RCls head_in_class)
qed

lemma lang_ROpt [simp]: "lang (ROpt r) = insert [] (lang r)"
  by (simp add: ROpt_def)

lemma mem_lang_RSeq: "x \<in> lang (RSeq r s) \<longleftrightarrow> (\<exists>u v. x = u @ v \<and> u \<in> lang r \<and> v \<in> lang s)"
  by simp

section \<open>The key patterns\<close>

definition lower_chars :: string where
  "lower_chars = ''abcdefghijklmnopqrstuvwxyz''"

definition upper_chars :: string where
  "upper_chars = ''ABCDEFGHIJKLMNOPQRSTUVWXYZ''"

definition digit_chars :: string where
  "digit_chars = ''0123456789''"

definition name_chars :: string where
  "name_chars = lower_chars @ upper_chars @ digit_chars @ ''+._?=-''"

definition narinfoRe :: re where
  "narinfoRe = RSeq (RTimes 32 (RCls NixBase32Alphabet)) (RLit ''.narinfo'')"

definition narRe :: re where
  "narRe = RSeq (RLit ''nar/'') (RSeq (RTimes 52 (RCls NixBase32Alphabet)) (RSeq (RLit ''.nar'')
     (ROpt (RAlt (RLit ''.zst'') (RAlt (RLit ''.xz'') (RLit ''.bz2''))))))"

definition lsRe :: re where
  "lsRe = RSeq (RTimes 32 (RCls NixBase32Alphabet)) (RLit ''.ls'')"

definition logRe :: re where
  "logRe = RSeq (RLit ''log/'') (RSeq (RPlus (RCls name_chars)) (RLit ''.drv''))"

definition realisationsRe :: re where
  "realisationsRe = RSeq (RLit ''realisations/'') (RSeq (RPlus (RCls (lower_chars @ digit_chars)))
     (RSeq (RLit '':'') (RSeq (RPlus (RCls (lower_chars @ upper_chars @ digit_chars @ ''+/='')))
       (RSeq (RLit ''!'') (RSeq (RPlus (RCls name_chars)) (RLit ''.doi''))))))"

definition IsValidCachePath :: "string \<Rightarrow> bool" where
  "IsValidCachePath path \<longleftrightarrow>
     (if path = '''' then False
      else if has_prefix path ''/'' then False
      else if has_prefix path ''../'' \<or> has_suffix path ''/..'' \<or> contains_str path ''/../'' \<or> path = ''..''
      then False
      else if path = ''nix-cache-info'' \<or> path = ''index.html'' then True
      else if MatchString narinfoRe path then True
      else if MatchString narRe path then True
      else if MatchString lsRe path then True
      else if MatchString logRe path then True
      else MatchString realisationsRe path)"

definition IsValidUploadKey :: "string \<Rightarrow> string \<Rightarrow> bool" where
  "IsValidUploadKey key objType \<longleftrightarrow>
     (if key = '''' then False
      else if has_prefix key ''/'' \<or> has_prefix key ''../'' \<or> has_suffix key ''/..'' \<or> contains_str key ''/../''
      then False
      else if objType = ''narinfo'' then MatchString narinfoRe key
      else if objType = ''nar'' then MatchString narRe key
      else if objType = ''listing'' then MatchString lsRe key
      else if objType = ''build_log'' then MatchString logRe key
      else if objType = ''realisation'' then MatchString realisationsRe key
      else False)"

section \<open>What the patterns say\<close>

lemma narinfoRe_iff:
  "MatchString narinfoRe k \<longleftrightarrow>
   (\<exists>h. k = h @ ''.narinfo'' \<and> length h = 32 \<and> set h \<subseteq> set NixBase32Alphabet)"
  by (auto simp: MatchString_lang narinfoRe_def)

lemma narRe_iff:
  "MatchString narRe k \<longleftrightarrow>
   (\<exists>h e. k = ''nar/'' @ h @ ''.nar'' @ e \<and> length h = 52 \<and> set h \<subseteq> set NixBase32Alphabet \<and>
          e \<in> {'''', ''.zst'', ''.xz'', ''.bz2''})"
  by (auto simp: MatchString_lang narRe_def)

lemma lsRe_iff:
  "MatchString lsRe k \<longleftrightarrow>
   (\<exists>h. k = h @ ''.ls'' \<and> length h = 32 \<and> set h \<subseteq> set NixBase32Alphabet)"
  by (auto simp: MatchString_lang lsRe_def)

lemma logRe_iff:
  "MatchString logRe k \<longleftrightarrow> (\<exists>n. k = ''log/'' @ n @ ''.drv'' \<and> n \<noteq> [] \<and> set n \<subseteq> set name_chars)"
  by (auto simp: MatchString_lang logRe_def)

lemma realisationsRe_iff:
  "MatchString realisationsRe k \<longleftrightarrow>
   (\<exists>a h n. k = ''realisations/'' @ a @ '':'' @ h @ ''!'' @ n @ ''.doi'' \<and> a \<noteq> [] \<and> h \<noteq> [] \<and> n \<noteq> [] \<and>
      set a \<subseteq> set (lower_chars @ digit_chars) \<and>
      set h \<subseteq> set (lower_chars @ upper_chars @ digit_chars @ ''+/='') \<and> set n \<subseteq> set name_chars)"
  unfolding MatchString_lang realisationsRe_def mem_lang_RSeq lang_RLit lang_RPlus_RCls mem_Collect_eq singleton_iff
  by (rule iffI; elim exE conjE; hypsubst; (intro exI conjI)?; (rule refl)?; assumption?)

lemmas key_patterns = narinfoRe_iff narRe_iff lsRe_iff logRe_iff realisationsRe_iff

section \<open>Path segments\<close>

lemma split_char_segment:
  "w \<in> set (split_char d s) \<Longrightarrow>
   s = w \<or> (\<exists>b. s = w @ d # b) \<or> (\<exists>a. s = a @ d # w) \<or> (\<exists>a b. s = a @ d # w @ d # b)"
proof (induction s arbitrary: w)
  case (Cons c s)
  show ?case
  proof (cases "c = d")
    case True
    with Cons.prems consider "w = []" | "w \<in> set (split_char d s)" by auto
    then show ?thesis
    proof cases
      case 2
      from Cons.IH [OF this] True show ?thesis by (metis append_Cons append_Nil)
    qed (use True in auto)
  next
    case False
    obtain u us where us: "split_char d s = u # us" by (cases "split_char d s") auto
    with False Cons.prems consider "w = c # u" | "w \<in> set us" by auto
    then show ?thesis
    proof cases
      case 1
      have "s = u \<or> (\<exists>b. s = u @ d # b)"
        using us by (induction s arbitrary: u us) (auto split: if_splits list.splits)
      with 1 show ?thesis by auto
    next
      case 2
      have "s = a @ d # join \<Longrightarrow> c # s = (c # a) @ d # join" for a join by simp
      moreover have "\<exists>a b. s = a @ d # w \<or> s = a @ d # w @ d # b"
        using us 2
      proof (induction s arbitrary: u us)
        case (Cons x s)
        obtain v vs where vs: "split_char d s = v # vs" by (cases "split_char d s") auto
        show ?case
        proof (cases "x = d")
          case True
          with Cons.prems vs have us': "us = v # vs" by simp
          have "s = v \<or> (\<exists>b. s = v @ d # b)"
            using vs by (induction s arbitrary: v vs) (auto split: if_splits list.splits)
          with us' True Cons.prems Cons.IH [OF vs] show ?thesis
            by (auto intro: exI [of _ "[]"]) (metis append_Cons)+
        next
          case False
          with Cons.prems vs have "us = vs" by simp
          with Cons.IH [OF vs] Cons.prems show ?thesis by (metis append_Cons)
        qed
      qed simp
      ultimately show ?thesis by (metis append_Cons)
    qed
  qed
qed simp

lemma no_dotdot_segment:
  assumes "\<not> has_prefix p ''../''" "\<not> has_suffix p ''/..''" "\<not> contains_str p ''/../''" "p \<noteq> ''..''"
  shows "''..'' \<notin> set (split_char CHR ''/'' p)"
proof
  assume "''..'' \<in> set (split_char CHR ''/'' p)"
  from split_char_segment [OF this] consider "p = ''..''" | b where "p = ''../'' @ b" | a where "p = a @ ''/..''"
    | a b where "p = a @ ''/../'' @ b" by auto
  then show False
    using assms by cases (auto simp: has_suffix_iff contains_str_iff simp del: append_Cons)
qed

lemma upload_key_not_dotdot: "IsValidUploadKey key t \<Longrightarrow> key \<noteq> ''..''"
  by (auto simp: IsValidUploadKey_def key_patterns has_prefix_def append_eq_Cons_conv split: if_splits)

lemma upload_key_readable:
  assumes "IsValidUploadKey key t"
  shows "IsValidCachePath key"
  using assms upload_key_not_dotdot [OF assms]
  by (auto simp: IsValidUploadKey_def IsValidCachePath_def split: if_splits)

lemma alphabet_no_slash: "CHR ''/'' \<notin> set NixBase32Alphabet"
  by (simp add: NixBase32Alphabet_def)

lemma upload_key_cases:
  assumes "IsValidUploadKey key t"
  obtains (narinfo) "t = ''narinfo''" "MatchString narinfoRe key"
  | (nar) "t = ''nar''" "MatchString narRe key"
  | (listing) "t = ''listing''" "MatchString lsRe key"
  | (build_log) "t = ''build_log''" "MatchString logRe key"
  | (realisation) "t = ''realisation''" "MatchString realisationsRe key"
  using assms by (auto simp: IsValidUploadKey_def split: if_splits)

text \<open>The classes are told apart by whether there is a slash, the first byte and the length.\<close>

lemma pattern_shape:
  "MatchString narinfoRe k \<Longrightarrow> CHR ''/'' \<notin> set k \<and> length k = 40"
  "MatchString lsRe k \<Longrightarrow> CHR ''/'' \<notin> set k \<and> length k = 35"
  "MatchString narRe k \<Longrightarrow> CHR ''/'' \<in> set k \<and> take 1 k = ''n''"
  "MatchString logRe k \<Longrightarrow> CHR ''/'' \<in> set k \<and> take 1 k = ''l''"
  "MatchString realisationsRe k \<Longrightarrow> CHR ''/'' \<in> set k \<and> take 1 k = ''r''"
  using alphabet_no_slash by (auto simp: key_patterns)

section \<open>Properties\<close>

text \<open>
  Every key a client can obtain an upload URL for is one the read side serves, is not a file
  the server owns (\<open>nix-cache-info\<close>, \<open>index.html\<close>), is not absolute, and no segment of it is
  \<open>..\<close>.
\<close>
theorem IsValidUploadKey_safe:
  assumes "IsValidUploadKey key objType"
  shows "IsValidCachePath key \<and> key \<noteq> ''nix-cache-info'' \<and> key \<noteq> ''index.html'' \<and>
         hd key \<noteq> CHR ''/'' \<and> ''..'' \<notin> set (split_char CHR ''/'' key)"
proof (intro conjI)
  show "IsValidCachePath key" by (rule upload_key_readable [OF assms])
  show "key \<noteq> ''nix-cache-info''" "key \<noteq> ''index.html''"
    using assms by (auto elim!: upload_key_cases dest!: pattern_shape)
  show "hd key \<noteq> CHR ''/''"
    using assms by (cases key) (auto simp: IsValidUploadKey_def split: if_splits)
  show "''..'' \<notin> set (split_char CHR ''/'' key)"
    using assms upload_key_not_dotdot [OF assms]
    by (intro no_dotdot_segment) (auto simp: IsValidUploadKey_def split: if_splits)
qed

theorem IsValidUploadKey_safe_witness: "IsValidCachePath ''log/a..b.drv''"
proof -
  have "MatchString logRe ''log/a..b.drv''"
    unfolding logRe_iff
    by (intro exI [of _ "''a..b''"]) (simp add: name_chars_def lower_chars_def)
  then have "IsValidUploadKey ''log/a..b.drv'' ''build_log''"
    by (simp add: IsValidUploadKey_def has_suffix_def)
  from IsValidUploadKey_safe [OF this] show ?thesis by simp
qed

text \<open>
  A key is valid for at most one declared object type, so the type a client declares, which
  selects the upload strategy, is forced by the key it asks for.
\<close>
theorem IsValidUploadKey_type_unique:
  assumes "IsValidUploadKey key t" "IsValidUploadKey key u"
  shows "t = u"
  using assms by (elim upload_key_cases) (auto dest!: pattern_shape)

theorem IsValidUploadKey_type_unique_witness: "\<not> IsValidUploadKey ''log/a.drv'' ''nar''"
proof
  assume nar: "IsValidUploadKey ''log/a.drv'' ''nar''"
  have "MatchString logRe ''log/a.drv''"
    unfolding logRe_iff by (intro exI [of _ "''a''"]) (simp add: name_chars_def lower_chars_def)
  then have "IsValidUploadKey ''log/a.drv'' ''build_log''"
    by (simp add: IsValidUploadKey_def has_suffix_def)
  from IsValidUploadKey_type_unique [OF nar this] show False by simp
qed

end
