(* ===== verification/RateLimit.thy ===== *)
theory RateLimit
  imports Complex_Main Prelude
begin

text \<open>
  The adaptive rate limiter of \<open>src/ratelimit/adaptive.go\<close>, which the server puts in front of
  S3 and the client in front of the server. Rates are float64 values: a product is the exact
  rational product rounded to 53 bits, to nearest with ties to even, as IEEE 754 prescribes.
  The limiter of \<open>golang.org/x/time/rate\<close> is the pair of the limit and the burst it was given.
\<close>

section \<open>Products of float64 values\<close>

fun ilog2 :: "nat \<Rightarrow> nat" where
  "ilog2 n = (if n \<le> 1 then 0 else Suc (ilog2 (n div 2)))"

declare ilog2.simps [simp del]

definition round_half_even :: "rat \<Rightarrow> int" where
  "round_half_even z =
     (let f = \<lfloor>z\<rfloor>; d = z - of_int f in
      if d < 1 / 2 then f else if 1 / 2 < d then f + 1 else if even f then f else f + 1)"

text \<open>Rounding for values of at least 1, the only ones the limiter computes.\<close>

definition f64_scale :: "rat \<Rightarrow> rat" where
  "f64_scale x = 2 ^ ilog2 (nat \<lfloor>x\<rfloor>) / 2 ^ 52"

definition f64_round :: "rat \<Rightarrow> rat" where
  "f64_round x = of_int (round_half_even (x / f64_scale x)) * f64_scale x"

definition f64_mul :: "rat \<Rightarrow> rat \<Rightarrow> rat" where
  "f64_mul a b = f64_round (a * b)"

lemma ilog2_bounds: "1 \<le> n \<Longrightarrow> 2 ^ ilog2 n \<le> n \<and> n < 2 ^ Suc (ilog2 n)"
proof (induction n rule: ilog2.induct)
  case (1 n)
  show ?case
  proof (cases "n \<le> 1")
    case True
    with "1.prems" have "n = 1" by simp
    then show ?thesis by (simp add: ilog2.simps)
  next
    case False
    with 1 have "2 ^ ilog2 (n div 2) \<le> n div 2 \<and> n div 2 < 2 ^ Suc (ilog2 (n div 2))" by simp
    moreover have "2 * (n div 2) \<le> n" "n < 2 * (n div 2) + 2" by presburger+
    ultimately have "2 * 2 ^ ilog2 (n div 2) \<le> n \<and> n < 2 * (2 * 2 ^ ilog2 (n div 2))" by auto
    then show ?thesis using False by (simp add: ilog2.simps [of n])
  qed
qed

lemma round_half_even_near: "\<bar>of_int (round_half_even z) - z\<bar> \<le> 1 / 2"
  unfolding round_half_even_def Let_def by (simp add: abs_if) linarith

lemma f64_scale_pos: "0 < f64_scale x"
  by (simp add: f64_scale_def)

lemma f64_scale_le:
  assumes "1 \<le> x"
  shows "f64_scale x * 2 ^ 52 \<le> x"
proof -
  have "1 \<le> nat \<lfloor>x\<rfloor>" using assms by linarith
  from ilog2_bounds [OF this] have "2 ^ ilog2 (nat \<lfloor>x\<rfloor>) \<le> nat \<lfloor>x\<rfloor>" by simp
  then have "(of_nat (2 ^ ilog2 (nat \<lfloor>x\<rfloor>)) :: rat) \<le> of_nat (nat \<lfloor>x\<rfloor>)" by (simp only: of_nat_le_iff)
  also have "\<dots> \<le> x" using assms by (simp add: of_nat_nat)
  finally show ?thesis by (simp add: f64_scale_def)
qed

text \<open>The standard model of rounding: a relative error of at most \<open>2^-53\<close>.\<close>

lemma f64_round_error:
  assumes "1 \<le> x"
  shows "\<bar>f64_round x - x\<bar> \<le> x / 2 ^ 53"
proof -
  let ?s = "f64_scale x"
  have "f64_round x - x = (of_int (round_half_even (x / ?s)) - x / ?s) * ?s"
    using f64_scale_pos [of x] by (simp add: f64_round_def field_simps)
  then have "\<bar>f64_round x - x\<bar> = \<bar>of_int (round_half_even (x / ?s)) - x / ?s\<bar> * ?s"
    using f64_scale_pos [of x] by (simp add: abs_mult)
  also have "\<dots> \<le> 1 / 2 * ?s"
    using round_half_even_near [of "x / ?s"] f64_scale_pos [of x] by (intro mult_right_mono) auto
  also have "\<dots> \<le> x / 2 ^ 53" using f64_scale_le [OF assms] by simp
  finally show ?thesis .
qed

section \<open>The limiter\<close>

definition RateMin :: rat where "RateMin = 5"
definition RateMax :: rat where "RateMax = 500"

text \<open>The float64 values nearest to 0.7 and 1.1.\<close>

definition RateBackoffFactor :: rat where "RateBackoffFactor = 3152519739159347 / 2 ^ 52"
definition RateRecoveryFactor :: rat where "RateRecoveryFactor = 2476979795053773 / 2 ^ 51"
definition RateRecoveryAfter :: nat where "RateRecoveryAfter = 10"

record rate_limiter =
  rl_limit :: rat
  rl_burst :: int

record AdaptiveRateLimiter =
  limiter :: "rate_limiter option"
  enabled :: bool
  currentRate :: rat
  successCount :: nat

definition new_limiter :: "rat \<Rightarrow> rate_limiter" where
  "new_limiter r = \<lparr>rl_limit = r, rl_burst = \<lfloor>r\<rfloor>\<rparr>"

definition set_limiter :: "rat \<Rightarrow> rate_limiter \<Rightarrow> rate_limiter" where
  "set_limiter r l = l\<lparr>rl_limit := r, rl_burst := \<lfloor>r\<rfloor>\<rparr>"

definition NewAdaptiveRateLimiter :: "rat \<Rightarrow> AdaptiveRateLimiter" where
  "NewAdaptiveRateLimiter initialRate =
     (let a = \<lparr>limiter = None, enabled = False, currentRate = 0, successCount = 0\<rparr> in
      if 0 < initialRate then
        (let r = (if initialRate < RateMin then RateMin else initialRate);
             r = (if RateMax < r then RateMax else r)
         in a\<lparr>enabled := True, currentRate := r, limiter := Some (new_limiter r)\<rparr>)
      else a)"

text \<open>\<open>Wait\<close>: what the library's \<open>Wait\<close> answers for the limiter read under the lock.\<close>

definition Wait :: "(rate_limiter \<Rightarrow> 'e option) \<Rightarrow> AdaptiveRateLimiter \<Rightarrow> 'e option" where
  "Wait lib_wait a =
     (if \<not> enabled a then None
      else (case limiter a of None \<Rightarrow> None | Some l \<Rightarrow> lib_wait l))"

definition RecordSuccess :: "AdaptiveRateLimiter \<Rightarrow> AdaptiveRateLimiter" where
  "RecordSuccess a =
     (if \<not> enabled a then a
      else (let a = a\<lparr>successCount := successCount a + 1\<rparr> in
            if RateRecoveryAfter \<le> successCount a then
              (let a = a\<lparr>successCount := 0\<rparr>;
                   newRate = f64_mul (currentRate a) RateRecoveryFactor;
                   newRate = (if RateMax < newRate then RateMax else newRate)
               in if newRate \<noteq> currentRate a
                  then a\<lparr>currentRate := newRate, limiter := map_option (set_limiter newRate) (limiter a)\<rparr>
                  else a)
            else a))"

definition RecordThrottle :: "AdaptiveRateLimiter \<Rightarrow> AdaptiveRateLimiter" where
  "RecordThrottle a =
     (let a = a\<lparr>successCount := 0\<rparr> in
      if \<not> enabled a
      then a\<lparr>enabled := True, currentRate := RateMin, limiter := Some (new_limiter RateMin)\<rparr>
      else (let newRate = f64_mul (currentRate a) RateBackoffFactor;
                newRate = (if newRate < RateMin then RateMin else newRate)
            in a\<lparr>currentRate := newRate, limiter := map_option (set_limiter newRate) (limiter a)\<rparr>))"

definition IsEnabled :: "AdaptiveRateLimiter \<Rightarrow> bool" where
  "IsEnabled a = enabled a"

definition CurrentRate :: "AdaptiveRateLimiter \<Rightarrow> rat" where
  "CurrentRate a = (if \<not> enabled a then 0 else currentRate a)"

text \<open>What callers report, in the order in which they take the lock.\<close>

datatype rate_event = Success | Throttle

fun record_event :: "rate_event \<Rightarrow> AdaptiveRateLimiter \<Rightarrow> AdaptiveRateLimiter" where
  "record_event Success = RecordSuccess"
| "record_event Throttle = RecordThrottle"

section \<open>The invariant\<close>

definition limiter_inv :: "AdaptiveRateLimiter \<Rightarrow> bool" where
  "limiter_inv a \<longleftrightarrow> successCount a < RateRecoveryAfter \<and>
     (if enabled a
      then RateMin \<le> currentRate a \<and> currentRate a \<le> RateMax \<and>
           limiter a = Some \<lparr>rl_limit = currentRate a, rl_burst = \<lfloor>currentRate a\<rfloor>\<rparr>
      else limiter a = None)"

text \<open>
  All the limiter needs of float64 multiplication is the standard error bound.
\<close>

locale rounded_mul =
  fixes mul :: "rat \<Rightarrow> rat \<Rightarrow> rat"
  assumes mul_error: "1 \<le> a * b \<Longrightarrow> \<bar>mul a b - a * b\<bar> \<le> a * b / 2 ^ 53"
begin

lemma recovery_product:
  assumes "RateMin \<le> r"
  shows "r * (10999 / 10000) \<le> mul r RateRecoveryFactor"
proof -
  have "1 \<le> r * RateRecoveryFactor" using assms by (simp add: RateMin_def RateRecoveryFactor_def)
  from mul_error [OF this]
  have "r * RateRecoveryFactor - r * RateRecoveryFactor / 2 ^ 53 \<le> mul r RateRecoveryFactor" by linarith
  moreover have "r * (10999 / 10000) \<le> r * RateRecoveryFactor - r * RateRecoveryFactor / 2 ^ 53"
    using assms by (simp add: RateRecoveryFactor_def RateMin_def)
  ultimately show ?thesis by linarith
qed

lemma backoff_product:
  assumes "RateMin \<le> r"
  shows "mul r RateBackoffFactor \<le> r * (7001 / 10000)"
proof -
  have "1 \<le> r * RateBackoffFactor" using assms by (simp add: RateMin_def RateBackoffFactor_def)
  from mul_error [OF this]
  have "mul r RateBackoffFactor \<le> r * RateBackoffFactor + r * RateBackoffFactor / 2 ^ 53" by linarith
  moreover have "r * RateBackoffFactor + r * RateBackoffFactor / 2 ^ 53 \<le> r * (7001 / 10000)"
    using assms by (simp add: RateBackoffFactor_def RateMin_def)
  ultimately show ?thesis by linarith
qed

end

interpretation f64: rounded_mul f64_mul
  by unfold_locales (unfold f64_mul_def, rule f64_round_error)

lemma NewAdaptiveRateLimiter_inv: "limiter_inv (NewAdaptiveRateLimiter r)"
  by (simp add: limiter_inv_def NewAdaptiveRateLimiter_def Let_def RateMin_def RateMax_def
      RateRecoveryAfter_def new_limiter_def)

lemma RecordSuccess_inv: "limiter_inv a \<Longrightarrow> limiter_inv (RecordSuccess a)"
  using f64.recovery_product [of "currentRate a"]
  by (auto simp: limiter_inv_def RecordSuccess_def Let_def set_limiter_def RateMin_def RateMax_def RateRecoveryAfter_def)

lemma RecordThrottle_inv: "limiter_inv a \<Longrightarrow> limiter_inv (RecordThrottle a)"
  using f64.backoff_product [of "currentRate a"]
  by (auto simp: limiter_inv_def RecordThrottle_def Let_def set_limiter_def new_limiter_def RateMin_def RateMax_def RateRecoveryAfter_def)

lemma record_event_inv: "limiter_inv a \<Longrightarrow> limiter_inv (record_event e a)"
  by (cases e) (simp_all add: RecordSuccess_inv RecordThrottle_inv)

lemma fold_events_inv: "limiter_inv a \<Longrightarrow> limiter_inv (fold record_event es a)"
  by (induction es arbitrary: a) (simp_all add: record_event_inv)

section \<open>Convergence\<close>

lemma RecordThrottle_rate:
  assumes "limiter_inv a"
  shows "enabled (RecordThrottle a)"
    and "currentRate (RecordThrottle a) \<le> max RateMin (currentRate a * (7001 / 10000))"
  using assms f64.backoff_product [of "currentRate a"]
  by (auto simp: limiter_inv_def RecordThrottle_def Let_def max_def)

lemma throttles_inv: "limiter_inv a \<Longrightarrow> limiter_inv ((RecordThrottle ^^ n) a)"
  by (induction n) (simp_all add: RecordThrottle_inv)

lemma throttles_bound:
  assumes "limiter_inv a" "0 < n"
  shows "enabled ((RecordThrottle ^^ n) a) \<and>
         currentRate ((RecordThrottle ^^ n) a) \<le> max RateMin (RateMax * (7001 / 10000) ^ n)"
  using assms(2)
proof (induction n)
  case (Suc n)
  define b where "b = (RecordThrottle ^^ n) a"
  have inv: "limiter_inv b" unfolding b_def using assms(1) by (rule throttles_inv)
  have "enabled (RecordThrottle b) \<and>
        currentRate (RecordThrottle b) \<le> max RateMin (RateMax * (7001 / 10000) ^ Suc n)"
  proof (cases "enabled b")
    case False
    then show ?thesis by (simp add: RecordThrottle_def Let_def)
  next
    case True
    have "currentRate b \<le> max RateMin (RateMax * (7001 / 10000) ^ n)"
    proof (cases n)
      case 0
      with True assms(1) show ?thesis by (simp add: b_def limiter_inv_def max_def)
    qed (use Suc in \<open>simp add: b_def\<close>)
    then have "currentRate b * (7001 / 10000) \<le> max RateMin (RateMax * (7001 / 10000) ^ Suc n)"
      by (auto simp: le_max_iff_disj RateMin_def)
    with RecordThrottle_rate [OF inv] show ?thesis by (auto simp: max_def split: if_splits)
  qed
  then show ?case by (simp add: b_def)
qed simp

lemma count_mod: "c < RateRecoveryAfter \<Longrightarrow> (c + 1) mod RateRecoveryAfter = (if 9 \<le> c then 0 else c + 1)"
  by (cases "c = 9") (auto simp: RateRecoveryAfter_def)

lemma RecordSuccess_step:
  assumes "limiter_inv a" "enabled a"
  shows "enabled (RecordSuccess a)"
    and "successCount (RecordSuccess a) = (successCount a + 1) mod RateRecoveryAfter"
    and "successCount a + 1 = RateRecoveryAfter \<Longrightarrow>
           min RateMax (currentRate a * (10999 / 10000)) \<le> currentRate (RecordSuccess a)"
    and "currentRate a \<le> currentRate (RecordSuccess a)"
  using assms f64.recovery_product [of "currentRate a"]
     count_mod [of "successCount a"]
  by (auto simp: limiter_inv_def RecordSuccess_def Let_def RateRecoveryAfter_def min_def RateMin_def)

lemma min_grow:
  assumes "(1 :: rat) \<le> q" "0 \<le> m" "min m x \<le> r"
  shows "min m (x * q) \<le> min m (r * q)"
proof (cases "m \<le> x")
  case True
  with assms have "0 \<le> r" "m \<le> r" by auto
  with assms mult_left_mono [of 1 q r] show ?thesis by simp
next
  case False
  with assms mult_right_mono [of x r q] show ?thesis by (simp add: min.coboundedI2)
qed

lemma successes_bound:
  assumes "limiter_inv a" "enabled a"
  shows "let b = (RecordSuccess ^^ n) a; c = successCount a + n in
         limiter_inv b \<and> enabled b \<and> successCount b = c mod 10 \<and>
         min RateMax (RateMin * (10999 / 10000) ^ (c div 10)) \<le> currentRate b"
proof (induction n)
  case 0
  from assms have "successCount a < 10" by (simp add: limiter_inv_def RateRecoveryAfter_def)
  with assms show ?case by (simp add: limiter_inv_def)
next
  case (Suc n)
  define b where "b = (RecordSuccess ^^ n) a"
  define c where "c = successCount a + n"
  from Suc have b: "limiter_inv b" "enabled b" "successCount b = c mod 10"
    "min RateMax (RateMin * (10999 / 10000) ^ (c div 10)) \<le> currentRate b"
    by (simp_all add: b_def c_def Let_def)
  note step = RecordSuccess_step [OF b(1,2)]
  have "min RateMax (RateMin * (10999 / 10000) ^ (Suc c div 10)) \<le> currentRate (RecordSuccess b)"
  proof (cases "c mod 10 = 9")
    case True
    then have "Suc c div 10 = Suc (c div 10)" by (simp add: div_Suc mod_Suc)
    moreover have "min RateMax (currentRate b * (10999 / 10000)) \<le> currentRate (RecordSuccess b)"
      using step(3) b(3) True by (simp add: RateRecoveryAfter_def)
    moreover have "min RateMax (RateMin * (10999 / 10000) ^ Suc (c div 10)) \<le> min RateMax (currentRate b * (10999 / 10000))"
      unfolding power_Suc2 mult.assoc [symmetric]
      by (rule min_grow [OF _ _ b(4)]) (simp_all add: RateMax_def)
    ultimately show ?thesis by simp
  next
    case False
    then have "Suc c div 10 = c div 10" by (simp add: div_Suc mod_Suc)
    with b(4) step(4) show ?thesis by simp
  qed
  moreover have "successCount (RecordSuccess b) = Suc c mod 10"
    using step(2) b(3) by (simp add: RateRecoveryAfter_def mod_Suc_eq)
  ultimately show ?case
    using RecordSuccess_inv [OF b(1)] step(1) by (simp add: b_def c_def Let_def)
qed

section \<open>Properties\<close>

text \<open>
  C32: whatever initial rate is configured and in whatever order successes and throttles are
  reported, an enabled limiter stays between the floor and the ceiling, the library's limiter
  carries exactly the current rate and its integer part as burst (so at least 5 requests may
  pass at once), and the success counter stays below its threshold.
\<close>
theorem limiter_always_in_bounds:
  "limiter_inv (fold record_event es (NewAdaptiveRateLimiter initialRate))"
  by (intro fold_events_inv NewAdaptiveRateLimiter_inv)

text \<open>
  The limiter converges in both directions. From any state it can reach, 13 throttles in a
  row bring it to the floor, and while enabled 490 successes in a row bring it to the ceiling,
  rounding of the products included.
\<close>
theorem limiter_converges:
  assumes "limiter_inv a"
  shows "currentRate ((RecordThrottle ^^ 13) a) = RateMin \<and>
         (enabled a \<longrightarrow> currentRate ((RecordSuccess ^^ 490) a) = RateMax)"
proof (intro conjI impI)
  have "RateMax * (7001 / 10000) ^ 13 \<le> RateMin" by (simp add: RateMax_def RateMin_def power_divide)
  with throttles_bound [OF assms, of 13] throttles_inv [OF assms, of 13]
  show "currentRate ((RecordThrottle ^^ 13) a) = RateMin"
    by (simp only: limiter_inv_def) (simp add: max_def split: if_splits)
next
  assume en: "enabled a"
  define b where "b = (RecordSuccess ^^ 490) a"
  have "(49::nat) \<le> (successCount a + 490) div 10" by simp
  then have "RateMin * (10999 / 10000) ^ 49 \<le> RateMin * (10999 / 10000) ^ ((successCount a + 490) div 10)"
    by (intro mult_left_mono power_increasing) (auto simp: RateMin_def)
  moreover have "RateMax \<le> RateMin * (10999 / 10000) ^ 49" by (simp add: RateMax_def RateMin_def power_divide)
  ultimately have "RateMax \<le> RateMin * (10999 / 10000) ^ ((successCount a + 490) div 10)"
    by linarith
  with successes_bound [OF assms en, of 490] show "currentRate ((RecordSuccess ^^ 490) a) = RateMax"
    unfolding b_def [symmetric] by (auto simp: Let_def limiter_inv_def)
qed

theorem limiter_converges_witness:
  "currentRate ((RecordThrottle ^^ 13) (NewAdaptiveRateLimiter 100)) = RateMin \<and>
   currentRate ((RecordSuccess ^^ 490) (NewAdaptiveRateLimiter 100)) = RateMax"
proof -
  have "enabled (NewAdaptiveRateLimiter 100)" by (simp add: NewAdaptiveRateLimiter_def)
  with limiter_converges [OF NewAdaptiveRateLimiter_inv [of 100]] show ?thesis by blast
qed

end
