(* ===== verification/Db.thy ===== *)
theory Db
  imports Prelude "HOL-Library.AList"
begin

text \<open>
  The server's PostgreSQL database: the tables of \<open>src/server/pg/migrations\<close>, the statement level
  triggers of \<open>src/server/pg/functions/2_object_stats_trigger.sql\<close>, and the statements of
  \<open>src/server/pg/query.sql\<close>, whose text \<open>src/server/pg/query.sql.go\<close> holds and runs. A table is an
  association list with distinct primary keys, a statement is a function of the database, of its
  arguments and, where it calls \<open>now()\<close>, of the time. Rows that other sessions hold locked are an
  argument of the statements that skip or wait for them.
\<close>

section \<open>Tables\<close>

type_synonym time = int

record object_row =
  o_refs :: "string list"
  o_size :: "int option"
  o_deleted_at :: "time option"
  o_first_deleted_at :: "time option"

record pending_closure_row =
  pc_key :: string
  pc_started_at :: time
  pc_roots :: "string list"

record pending_object_row =
  po_refs :: "string list"
  po_size :: "int option"

record multipart_row =
  mu_pending_closure_id :: int
  mu_object_key :: string
  mu_upload_id :: string

record pin_row =
  pin_narinfo_key :: string
  pin_store_path :: string
  pin_created_at :: time
  pin_updated_at :: time

record db =
  objects :: "(string \<times> object_row) list"
  closures :: "(string \<times> time) list"
  pending_closures :: "(int \<times> pending_closure_row) list"
  pending_objects :: "((int \<times> string) \<times> pending_object_row) list"
  multipart_uploads :: "multipart_row list"
  pins :: "(string \<times> pin_row) list"
  next_id :: int
  object_count :: int
  total_bytes :: int

definition empty_db :: db where
  "empty_db = \<lparr>objects = [], closures = [], pending_closures = [], pending_objects = [],
     multipart_uploads = [], pins = [], next_id = 1, object_count = 0, total_bytes = 0\<rparr>"

abbreviation object_of :: "db \<Rightarrow> string \<Rightarrow> object_row option" where
  "object_of d \<equiv> map_of (objects d)"

text \<open>A row is alive while it has no tombstone.\<close>

definition alive :: "object_row \<Rightarrow> bool" where
  "alive r \<longleftrightarrow> o_deleted_at r = None"

definition live :: "db \<Rightarrow> string \<Rightarrow> bool" where
  "live d k \<longleftrightarrow> (case object_of d k of None \<Rightarrow> False | Some r \<Rightarrow> alive r)"

definition tombstoned :: "db \<Rightarrow> string \<Rightarrow> bool" where
  "tombstoned d k \<longleftrightarrow> (case object_of d k of None \<Rightarrow> False | Some r \<Rightarrow> \<not> alive r)"

definition pending_key :: "db \<Rightarrow> string \<Rightarrow> bool" where
  "pending_key d k \<longleftrightarrow> list_ex (\<lambda>((i, k'), r). k' = k) (pending_objects d)"

section \<open>The triggers on objects\<close>

definition live_count :: "object_row list \<Rightarrow> int" where
  "live_count rows = int (length (filter alive rows))"

definition live_bytes :: "object_row list \<Rightarrow> int" where
  "live_bytes rows = sum_list (List.map (\<lambda>r. case o_size r of None \<Rightarrow> 0 | Some n \<Rightarrow> n) (filter alive rows))"

definition object_stats_insert :: "object_row list \<Rightarrow> db \<Rightarrow> db" where
  "object_stats_insert new_rows d = d\<lparr>object_count := object_count d + live_count new_rows,
     total_bytes := total_bytes d + live_bytes new_rows\<rparr>"

definition object_stats_delete :: "object_row list \<Rightarrow> db \<Rightarrow> db" where
  "object_stats_delete old_rows d = d\<lparr>object_count := object_count d - live_count old_rows,
     total_bytes := total_bytes d - live_bytes old_rows\<rparr>"

definition object_stats_update :: "object_row list \<Rightarrow> object_row list \<Rightarrow> db \<Rightarrow> db" where
  "object_stats_update old_rows new_rows d =
     d\<lparr>object_count := object_count d + live_count new_rows - live_count old_rows,
       total_bytes := total_bytes d + live_bytes new_rows - live_bytes old_rows\<rparr>"

text \<open>
  The three kinds of change of the table, each with its trigger. An update is a function that
  answers the new row for the rows it touches.
\<close>

definition obj_insert :: "(string \<times> object_row) list \<Rightarrow> db \<Rightarrow> db" where
  "obj_insert rows d = object_stats_insert (List.map snd rows) (d\<lparr>objects := objects d @ rows\<rparr>)"

definition obj_update :: "(string \<Rightarrow> object_row \<Rightarrow> object_row option) \<Rightarrow> db \<Rightarrow> db" where
  "obj_update f d =
     (let touched = filter (\<lambda>(k, r). f k r \<noteq> None) (objects d) in
      object_stats_update (List.map snd touched) (List.map (\<lambda>(k, r). the (f k r)) touched)
        (d\<lparr>objects := List.map (\<lambda>(k, r). (k, case f k r of None \<Rightarrow> r | Some r' \<Rightarrow> r')) (objects d)\<rparr>))"

definition obj_delete :: "(string \<Rightarrow> bool) \<Rightarrow> db \<Rightarrow> db" where
  "obj_delete p d =
     object_stats_delete (List.map snd (filter (\<lambda>(k, r). p k) (objects d)))
       (d\<lparr>objects := filter (\<lambda>(k, r). \<not> p k) (objects d)\<rparr>)"

text \<open>
  \<open>INSERT ... ON CONFLICT (key) DO UPDATE\<close> over rows with distinct keys: the conflict action
  answers \<open>None\<close> where its \<open>WHERE\<close> clause rejects the existing row.
\<close>

definition obj_upsert ::
  "(object_row \<Rightarrow> object_row \<Rightarrow> object_row option) \<Rightarrow> (string \<times> object_row) list \<Rightarrow> db \<Rightarrow> db" where
  "obj_upsert conflict rows d =
     obj_insert (filter (\<lambda>(k, r). object_of d k = None) rows)
       (obj_update (\<lambda>k r. case map_of rows k of None \<Rightarrow> None | Some new \<Rightarrow> conflict r new) d)"

section \<open>Lookups after a change\<close>

lemma map_of_map_value:
  "map_of (List.map (\<lambda>(k, r). (k, f k r)) xs) k = map_option (f k) (map_of xs k)"
  by (induction xs) auto

lemma map_of_filter_key:
  "map_of (filter (\<lambda>(k, r). p k) xs) k = (if p k then map_of xs k else None)"
  by (induction xs) auto

lemma obj_insert_lookup:
  "object_of (obj_insert rows d) k = (case object_of d k of None \<Rightarrow> map_of rows k | Some r \<Rightarrow> Some r)"
  by (simp add: obj_insert_def object_stats_insert_def map_add_def map_of_append split: option.splits)

lemma obj_update_lookup:
  "object_of (obj_update f d) k =
   map_option (\<lambda>r. case f k r of None \<Rightarrow> r | Some r' \<Rightarrow> r') (object_of d k)"
  by (simp add: obj_update_def object_stats_update_def Let_def map_of_map_value)

lemma obj_delete_lookup:
  "object_of (obj_delete p d) k = (if p k then None else object_of d k)"
  by (simp add: obj_delete_def object_stats_delete_def map_of_filter_key [where p = "\<lambda>k. \<not> p k"])

lemma obj_upsert_lookup:
  "object_of (obj_upsert conflict rows d) k =
   (case map_of rows k of
      None \<Rightarrow> object_of d k
    | Some new \<Rightarrow> (case object_of d k of
                    None \<Rightarrow> Some new
                  | Some old \<Rightarrow> Some (case conflict old new of None \<Rightarrow> old | Some r \<Rightarrow> r)))"
  by (simp add: obj_upsert_def obj_insert_lookup obj_update_lookup
      map_of_filter_key [where p = "\<lambda>k. object_of d k = None"] split: option.splits)

lemmas object_lookup = obj_insert_lookup obj_update_lookup obj_delete_lookup obj_upsert_lookup

text \<open>The other tables are untouched by a change of objects.\<close>

lemma obj_change_frame [simp]:
  "closures (obj_insert rows d) = closures d" "closures (obj_update f d) = closures d"
  "closures (obj_delete p d) = closures d" "closures (obj_upsert c rows d) = closures d"
  "pending_closures (obj_insert rows d) = pending_closures d"
  "pending_closures (obj_update f d) = pending_closures d"
  "pending_closures (obj_delete p d) = pending_closures d"
  "pending_closures (obj_upsert c rows d) = pending_closures d"
  "pending_objects (obj_insert rows d) = pending_objects d"
  "pending_objects (obj_update f d) = pending_objects d"
  "pending_objects (obj_delete p d) = pending_objects d"
  "pending_objects (obj_upsert c rows d) = pending_objects d"
  "pins (obj_insert rows d) = pins d" "pins (obj_update f d) = pins d"
  "pins (obj_delete p d) = pins d" "pins (obj_upsert c rows d) = pins d"
  "multipart_uploads (obj_insert rows d) = multipart_uploads d"
  "multipart_uploads (obj_update f d) = multipart_uploads d"
  "multipart_uploads (obj_delete p d) = multipart_uploads d"
  "multipart_uploads (obj_upsert c rows d) = multipart_uploads d"
  "next_id (obj_insert rows d) = next_id d" "next_id (obj_update f d) = next_id d"
  "next_id (obj_delete p d) = next_id d" "next_id (obj_upsert c rows d) = next_id d"
  by (simp_all add: obj_insert_def obj_update_def obj_delete_def obj_upsert_def
      object_stats_insert_def object_stats_update_def object_stats_delete_def Let_def)

section \<open>The invariant of the tables\<close>

definition stats_ok :: "db \<Rightarrow> bool" where
  "stats_ok d \<longleftrightarrow> object_count d = live_count (List.map snd (objects d)) \<and>
     total_bytes d = live_bytes (List.map snd (objects d))"

text \<open>Tombstone times come in pairs, as every statement writes them.\<close>

definition tombs_ok :: "db \<Rightarrow> bool" where
  "tombs_ok d \<longleftrightarrow> (\<forall>(k, r) \<in> set (objects d). (o_deleted_at r = None) = (o_first_deleted_at r = None))"

text \<open>Primary keys, foreign keys with their cascades, and fresh identities.\<close>

definition pc_ids :: "db \<Rightarrow> int set" where
  "pc_ids d = fst ` set (pending_closures d)"

definition po_ids :: "db \<Rightarrow> int set" where
  "po_ids d = (fst \<circ> fst) ` set (pending_objects d)"

definition mu_ids :: "db \<Rightarrow> int set" where
  "mu_ids d = mu_pending_closure_id ` set (multipart_uploads d)"

definition closure_keys :: "db \<Rightarrow> string set" where
  "closure_keys d = fst ` set (closures d)"

definition pin_targets :: "db \<Rightarrow> string set" where
  "pin_targets d = (pin_narinfo_key \<circ> snd) ` set (pins d)"

definition unique_keys :: "db \<Rightarrow> bool" where
  "unique_keys d \<longleftrightarrow> distinct (List.map fst (objects d)) \<and> distinct (List.map fst (closures d)) \<and>
     distinct (List.map fst (pending_closures d)) \<and> distinct (List.map fst (pending_objects d)) \<and>
     distinct (List.map fst (pins d)) \<and>
     distinct (List.map (\<lambda>m. (mu_pending_closure_id m, mu_object_key m)) (multipart_uploads d))"

definition foreign_keys :: "db \<Rightarrow> bool" where
  "foreign_keys d \<longleftrightarrow> pc_ids d \<subseteq> {..<next_id d} \<and> po_ids d \<subseteq> pc_ids d \<and> mu_ids d \<subseteq> pc_ids d \<and>
     pin_targets d \<subseteq> closure_keys d"

definition db_inv :: "db \<Rightarrow> bool" where
  "db_inv d \<longleftrightarrow> stats_ok d \<and> tombs_ok d \<and> unique_keys d \<and> foreign_keys d"

lemma live_count_append [simp]: "live_count (xs @ ys) = live_count xs + live_count ys"
  by (simp add: live_count_def)

lemma live_bytes_append [simp]: "live_bytes (xs @ ys) = live_bytes xs + live_bytes ys"
  by (simp add: live_bytes_def)

lemma live_count_Cons [simp]: "live_count (r # rs) = (if alive r then 1 else 0) + live_count rs"
  by (simp add: live_count_def)

lemma live_bytes_Cons [simp]:
  "live_bytes (r # rs) = (if alive r then (case o_size r of None \<Rightarrow> 0 | Some n \<Rightarrow> n) else 0) + live_bytes rs"
  by (simp add: live_bytes_def)

lemma live_Nil [simp]: "live_count [] = 0" "live_bytes [] = 0"
  by (simp_all add: live_count_def live_bytes_def)

lemma live_update_delta:
  "live_count (List.map snd (List.map (\<lambda>(k, r). (k, case f k r of None \<Rightarrow> r | Some r' \<Rightarrow> r')) xs)) =
     live_count (List.map snd xs) + live_count (List.map (\<lambda>(k, r). the (f k r)) (filter (\<lambda>(k, r). f k r \<noteq> None) xs))
     - live_count (List.map snd (filter (\<lambda>(k, r). f k r \<noteq> None) xs))"
  "live_bytes (List.map snd (List.map (\<lambda>(k, r). (k, case f k r of None \<Rightarrow> r | Some r' \<Rightarrow> r')) xs)) =
     live_bytes (List.map snd xs) + live_bytes (List.map (\<lambda>(k, r). the (f k r)) (filter (\<lambda>(k, r). f k r \<noteq> None) xs))
     - live_bytes (List.map snd (filter (\<lambda>(k, r). f k r \<noteq> None) xs))"
  by (induction xs) (auto split: option.splits)

lemma live_delete_delta:
  "live_count (List.map snd (filter (\<lambda>(k, r). \<not> p k) xs)) =
     live_count (List.map snd xs) - live_count (List.map snd (filter (\<lambda>(k, r). p k) xs))"
  "live_bytes (List.map snd (filter (\<lambda>(k, r). \<not> p k) xs)) =
     live_bytes (List.map snd xs) - live_bytes (List.map snd (filter (\<lambda>(k, r). p k) xs))"
  by (induction xs) auto

lemma stats_ok_insert: "stats_ok d \<Longrightarrow> stats_ok (obj_insert rows d)"
  by (simp add: stats_ok_def obj_insert_def object_stats_insert_def)

lemma stats_ok_update: "stats_ok d \<Longrightarrow> stats_ok (obj_update f d)"
  by (simp add: stats_ok_def obj_update_def object_stats_update_def Let_def live_update_delta del: map_map)

lemma stats_ok_delete: "stats_ok d \<Longrightarrow> stats_ok (obj_delete p d)"
  by (simp add: stats_ok_def obj_delete_def object_stats_delete_def live_delete_delta)

lemma stats_ok_upsert: "stats_ok d \<Longrightarrow> stats_ok (obj_upsert c rows d)"
  by (simp add: obj_upsert_def stats_ok_insert stats_ok_update)

lemmas stats_ok_change = stats_ok_insert stats_ok_update stats_ok_delete stats_ok_upsert

end
