(* ===== verification/Statements.thy ===== *)
theory Statements
  imports Db
begin

text \<open>
  The statements of \<open>src/server/pg/query.sql\<close> (run by \<open>src/server/pg/query.sql.go\<close>) and the two
  commit functions of \<open>src/server/pg/functions\<close>. The recursive ones are in theory Mark.
\<close>

datatype db_error =
    ClosureDoesNotExist int
  | PushDoesNotExist int
  | PushObjectMissing string
  | ForeignKeyViolation
  | UniqueViolation
  | NoRows
  | ConnectionError

type_synonym 'a answer = "db_error + 'a"

definition minute :: time where
  "minute = 60 * 1000000"

definition seconds :: "int \<Rightarrow> time" where
  "seconds n = n * 1000000"

section \<open>Pending closures\<close>

definition InsertPush :: "time \<Rightarrow> string \<Rightarrow> string list \<Rightarrow> db \<Rightarrow> (int \<times> pending_closure_row) \<times> db" where
  "InsertPush now key roots d =
     (let row = \<lparr>pc_key = key, pc_started_at = now, pc_roots = roots\<rparr> in
      ((next_id d, row),
       d\<lparr>pending_closures := pending_closures d @ [(next_id d, row)], next_id := next_id d + 1\<rparr>))"

text \<open>The column default of \<open>roots\<close> is the empty array.\<close>

definition InsertPendingClosure :: "time \<Rightarrow> string \<Rightarrow> db \<Rightarrow> (int \<times> pending_closure_row) \<times> db" where
  "InsertPendingClosure now key d = InsertPush now key [] d"

definition InsertPendingObjects :: "int \<Rightarrow> (string \<times> pending_object_row) list \<Rightarrow> db \<Rightarrow> db answer" where
  "InsertPendingObjects i rows d =
     (if rows \<noteq> [] \<and> map_of (pending_closures d) i = None then Inl ForeignKeyViolation
      else if \<not> distinct (List.map fst rows) \<or> list_ex (\<lambda>(k, r). map_of (pending_objects d) (i, k) \<noteq> None) rows
      then Inl UniqueViolation
      else Inr (d\<lparr>pending_objects := pending_objects d @ List.map (\<lambda>(k, r). ((i, k), r)) rows\<rparr>))"

text \<open>Deleting a pending closure cascades to its pending objects and multipart uploads.\<close>

definition delete_pending_where :: "(int \<Rightarrow> bool) \<Rightarrow> db \<Rightarrow> db" where
  "delete_pending_where p d =
     d\<lparr>pending_closures := filter (\<lambda>(i, r). \<not> p i) (pending_closures d),
       pending_objects := filter (\<lambda>((i, k), r). \<not> p i) (pending_objects d),
       multipart_uploads := filter (\<lambda>m. \<not> p (mu_pending_closure_id m)) (multipart_uploads d)\<rparr>"

definition DeletePendingClosure :: "int \<Rightarrow> db \<Rightarrow> db" where
  "DeletePendingClosure i = delete_pending_where (\<lambda>j. j = i)"

definition CountPendingClosures :: "db \<Rightarrow> nat" where
  "CountPendingClosures d = length (pending_closures d)"

definition pending_rows :: "db \<Rightarrow> int \<Rightarrow> (string \<times> pending_object_row) list" where
  "pending_rows d i = List.map (\<lambda>((j, k), r). (k, r)) (filter (\<lambda>((j, k), r). j = i) (pending_objects d))"

definition GetPendingObjectKeys :: "int \<Rightarrow> db \<Rightarrow> string list" where
  "GetPendingObjectKeys i d = List.map fst (pending_rows d i)"

definition GetPendingObject :: "int \<Rightarrow> string \<Rightarrow> db \<Rightarrow> pending_object_row answer" where
  "GetPendingObject i key d =
     (case map_of (pending_objects d) (i, key) of None \<Rightarrow> Inl NoRows | Some r \<Rightarrow> Inr r)"

definition GetPendingObjectByKey :: "string \<Rightarrow> db \<Rightarrow> pending_object_row answer" where
  "GetPendingObjectByKey key d =
     (case filter (\<lambda>((i, k), r). k = key) (pending_objects d) of
        [] \<Rightarrow> Inl NoRows
      | row # _ \<Rightarrow> Inr (snd row))"

section \<open>Objects\<close>

text \<open>The age of the tombstone, \<open>NULL\<close> for a live row.\<close>

definition GetExistingObjects :: "time \<Rightarrow> string list \<Rightarrow> db \<Rightarrow> (string \<times> time option) list" where
  "GetExistingObjects now keys d =
     List.map (\<lambda>(k, r). (k, map_option (\<lambda>t. now - t) (o_first_deleted_at r)))
       (filter (\<lambda>(k, r). k \<in> set keys) (objects d))"

definition GetPresentObjects :: "string list \<Rightarrow> db \<Rightarrow> string list" where
  "GetPresentObjects keys d =
     List.map fst (filter (\<lambda>(k, r). k \<in> set keys \<and> o_deleted_at r = None) (objects d))"

text \<open>The new value of an existing row: merged references, a kept size, no tombstone.\<close>

definition merge_row :: "object_row \<Rightarrow> object_row \<Rightarrow> object_row" where
  "merge_row old new = \<lparr>o_refs = remdups (o_refs old @ o_refs new),
     o_size = (case o_size old of None \<Rightarrow> o_size new | Some n \<Rightarrow> Some n),
     o_deleted_at = None, o_first_deleted_at = None\<rparr>"

definition RegisterCompletedObject :: "string \<Rightarrow> string list \<Rightarrow> int option \<Rightarrow> db \<Rightarrow> db" where
  "RegisterCompletedObject key refs sz d =
     (if pending_key d key
      then obj_upsert (\<lambda>old new. Some (merge_row old new))
             [(key, \<lparr>o_refs = refs, o_size = sz, o_deleted_at = None, o_first_deleted_at = None\<rparr>)] d
      else d)"

definition DeleteObjects :: "string list \<Rightarrow> db \<Rightarrow> db" where
  "DeleteObjects keys = obj_delete (\<lambda>k. k \<in> set keys)"

definition GetKeysNotPending :: "string list \<Rightarrow> db \<Rightarrow> string list" where
  "GetKeysNotPending keys d =
     List.map fst (filter (\<lambda>(k, r). k \<in> set keys \<and> \<not> pending_key d k) (objects d))"

text \<open>
  The sweep's candidates: tombstones past the grace period that no push has pending, after the
  last key of the previous batch, in key order, at most \<open>limit_count\<close>; rows that other sessions
  hold locked are skipped.
\<close>

definition LockObjectsReadyForDeletion ::
  "(string \<Rightarrow> bool) \<Rightarrow> time \<Rightarrow> int \<Rightarrow> string \<Rightarrow> nat \<Rightarrow> db \<Rightarrow> string list" where
  "LockObjectsReadyForDeletion locked now grace after_key limit_count d =
     take limit_count (sort (List.map fst
       (filter (\<lambda>(k, r). (case o_first_deleted_at r of None \<Rightarrow> False | Some t \<Rightarrow> t \<le> now - seconds grace) \<and>
                         o_deleted_at r \<noteq> None \<and> after_key < k \<and> \<not> pending_key d k \<and> \<not> locked k)
         (objects d))))"

definition GetObjectStats :: "db \<Rightarrow> int \<times> int" where
  "GetObjectStats d = (object_count d, total_bytes d)"

section \<open>Commit\<close>

text \<open>
  The conflict action of \<open>commit_pending_closure\<close>, with the \<open>WHERE\<close> clause that leaves a live row
  alone when the pending row adds nothing to it.
\<close>

definition commit_conflict :: "object_row \<Rightarrow> object_row \<Rightarrow> object_row option" where
  "commit_conflict old new =
     (if o_deleted_at old \<noteq> None \<or> \<not> set (o_refs new) \<subseteq> set (o_refs old) \<or>
         (o_size old = None \<and> o_size new \<noteq> None)
      then Some (merge_row old new) else None)"

definition new_object :: "pending_object_row \<Rightarrow> object_row" where
  "new_object r = \<lparr>o_refs = po_refs r, o_size = po_size r, o_deleted_at = None, o_first_deleted_at = None\<rparr>"

definition upsert_closures :: "time \<Rightarrow> string list \<Rightarrow> db \<Rightarrow> db" where
  "upsert_closures now keys d = d\<lparr>closures := fold (\<lambda>k. AList.update k now) (remdups keys) (closures d)\<rparr>"

definition commit_pending_closure :: "time \<Rightarrow> int \<Rightarrow> db \<Rightarrow> (nat \<times> db) answer" where
  "commit_pending_closure now closure_id d =
     (case map_of (pending_closures d) closure_id of
        None \<Rightarrow> Inl (ClosureDoesNotExist closure_id)
      | Some pc \<Rightarrow>
          (let d = upsert_closures now [pc_key pc] d;
               rows = pending_rows d closure_id;
               d = obj_upsert commit_conflict (List.map (\<lambda>(k, r). (k, new_object r)) rows) d
           in Inr (length rows, DeletePendingClosure closure_id d)))"

text \<open>
  \<open>commit_push\<close>: the roots and the references of the push's own rows that are not own rows
  themselves must be live, or the commit fails naming one of them.
\<close>

definition commit_push_missing :: "string list \<Rightarrow> (string \<times> pending_object_row) list \<Rightarrow> db \<Rightarrow> string list" where
  "commit_push_missing roots own d =
     filter (\<lambda>k. k \<notin> fst ` set own \<and> \<not> live d k) (remdups (roots @ concat (List.map (po_refs \<circ> snd) own)))"

definition commit_push :: "time \<Rightarrow> int \<Rightarrow> db \<Rightarrow> (nat \<times> db) answer" where
  "commit_push now push_id d =
     (case map_of (pending_closures d) push_id of
        None \<Rightarrow> Inl (PushDoesNotExist push_id)
      | Some pc \<Rightarrow>
          (case commit_push_missing (pc_roots pc) (pending_rows d push_id) d of
             missing # _ \<Rightarrow> Inl (PushObjectMissing missing)
           | [] \<Rightarrow> commit_pending_closure now push_id (upsert_closures now (pc_roots pc) d)))"

definition CommitPendingClosure :: "time \<Rightarrow> int \<Rightarrow> db \<Rightarrow> (nat \<times> db) answer" where
  "CommitPendingClosure = commit_pending_closure"

definition CommitPush :: "time \<Rightarrow> int \<Rightarrow> db \<Rightarrow> (nat \<times> db) answer" where
  "CommitPush = commit_push"

section \<open>Cleanup of expired pending closures\<close>

definition expired_ids :: "(int \<Rightarrow> bool) \<Rightarrow> time \<Rightarrow> int list \<Rightarrow> db \<Rightarrow> int list" where
  "expired_ids locked cutoff keep d =
     List.map fst (filter (\<lambda>(i, r). pc_started_at r < cutoff \<and> i \<notin> set keep \<and> \<not> locked i) (pending_closures d))"

text \<open>Of several expired rows for one key the first is inserted, the others conflict with it.\<close>

definition CleanupPendingClosures :: "(int \<Rightarrow> bool) \<Rightarrow> time \<Rightarrow> int list \<Rightarrow> db \<Rightarrow> nat \<times> db" where
  "CleanupPendingClosures locked cutoff keep d =
     (let ids = expired_ids locked cutoff keep d;
          expired = List.map (\<lambda>((i, k), r). (k, \<lparr>o_refs = po_refs r, o_size = None,
                      o_deleted_at = Some cutoff, o_first_deleted_at = Some cutoff\<rparr>))
                    (filter (\<lambda>((i, k), r). i \<in> set ids) (pending_objects d));
          d = obj_upsert (\<lambda>old new. None) (AList.clearjunk expired) d
      in (length ids, delete_pending_where (\<lambda>i. i \<in> set ids) d))"

section \<open>Closures and pins\<close>

definition GetClosure :: "string \<Rightarrow> db \<Rightarrow> time answer" where
  "GetClosure key d = (case map_of (closures d) key of None \<Rightarrow> Inl NoRows | Some t \<Rightarrow> Inr t)"

definition GetClosureForShare :: "string \<Rightarrow> db \<Rightarrow> time answer" where
  "GetClosureForShare key d = GetClosure key d"

definition TouchPresentClosures :: "time \<Rightarrow> string list \<Rightarrow> db \<Rightarrow> string list \<times> db" where
  "TouchPresentClosures now keys d =
     (let live_rows = filter (\<lambda>(k, t). k \<in> set keys \<and> live d k) (closures d) in
      (sort (List.map fst live_rows),
       d\<lparr>closures := List.map (\<lambda>(k, t). (k, if k \<in> set keys \<and> live d k \<and> t < now - 10 * minute then now else t))
                       (closures d)\<rparr>))"

definition LockOldClosures :: "(string \<Rightarrow> bool) \<Rightarrow> time \<Rightarrow> db \<Rightarrow> string list" where
  "LockOldClosures locked cutoff d =
     sort (List.map fst (filter (\<lambda>(k, t). t < cutoff \<and> k \<notin> (pin_narinfo_key \<circ> snd) ` set (pins d) \<and> \<not> locked k)
       (closures d)))"

definition DeleteUnpinnedClosures :: "string list \<Rightarrow> db \<Rightarrow> nat \<times> db" where
  "DeleteUnpinnedClosures keys d =
     (let gone = (\<lambda>(k, t). k \<in> set keys \<and> k \<notin> (pin_narinfo_key \<circ> snd) ` set (pins d)) in
      (length (filter gone (closures d)), d\<lparr>closures := filter (\<lambda>x. \<not> gone x) (closures d)\<rparr>))"

definition UpsertPin :: "time \<Rightarrow> string \<Rightarrow> string \<Rightarrow> string \<Rightarrow> db \<Rightarrow> db answer" where
  "UpsertPin now name narinfo_key store_path d =
     (if map_of (closures d) narinfo_key = None then Inl ForeignKeyViolation
      else Inr (d\<lparr>pins := AList.update name
        (case map_of (pins d) name of
           None \<Rightarrow> \<lparr>pin_narinfo_key = narinfo_key, pin_store_path = store_path, pin_created_at = now, pin_updated_at = now\<rparr>
         | Some p \<Rightarrow> p\<lparr>pin_narinfo_key := narinfo_key, pin_store_path := store_path, pin_updated_at := now\<rparr>)
        (pins d)\<rparr>))"

definition GetPin :: "string \<Rightarrow> db \<Rightarrow> pin_row answer" where
  "GetPin name d = (case map_of (pins d) name of None \<Rightarrow> Inl NoRows | Some p \<Rightarrow> Inr p)"

definition DeletePin :: "string \<Rightarrow> db \<Rightarrow> db" where
  "DeletePin name d = d\<lparr>pins := AList.delete name (pins d)\<rparr>"

definition ListPins :: "db \<Rightarrow> (string \<times> pin_row) list" where
  "ListPins d = sort_key fst (pins d)"

section \<open>Multipart uploads\<close>

definition InsertMultipartUpload :: "int \<Rightarrow> string \<Rightarrow> string \<Rightarrow> db \<Rightarrow> db answer" where
  "InsertMultipartUpload i object_key upload_id d =
     (if map_of (pending_closures d) i = None then Inl ForeignKeyViolation
      else if list_ex (\<lambda>m. mu_pending_closure_id m = i \<and> mu_object_key m = object_key) (multipart_uploads d)
      then Inl UniqueViolation
      else Inr (d\<lparr>multipart_uploads := multipart_uploads d @
        [\<lparr>mu_pending_closure_id = i, mu_object_key = object_key, mu_upload_id = upload_id\<rparr>]\<rparr>))"

definition GetOldMultipartUploads :: "time \<Rightarrow> db \<Rightarrow> multipart_row list" where
  "GetOldMultipartUploads cutoff d =
     filter (\<lambda>m. case map_of (pending_closures d) (mu_pending_closure_id m) of
                   None \<Rightarrow> False | Some r \<Rightarrow> pc_started_at r < cutoff) (multipart_uploads d)"

definition DeleteMultipartUpload :: "string \<Rightarrow> db \<Rightarrow> db" where
  "DeleteMultipartUpload upload_id d =
     d\<lparr>multipart_uploads := filter (\<lambda>m. mu_upload_id m \<noteq> upload_id) (multipart_uploads d)\<rparr>"

definition GetRedundantMultipartUploads :: "string \<Rightarrow> string \<Rightarrow> db \<Rightarrow> string list" where
  "GetRedundantMultipartUploads object_key upload_id d =
     List.map mu_upload_id (filter (\<lambda>m. mu_object_key m = object_key \<and> mu_upload_id m \<noteq> upload_id)
       (multipart_uploads d))"

definition GetMultipartUpload :: "string \<Rightarrow> string \<Rightarrow> db \<Rightarrow> multipart_row answer" where
  "GetMultipartUpload upload_id object_key d =
     (case filter (\<lambda>m. mu_upload_id m = upload_id \<and> mu_object_key m = object_key) (multipart_uploads d) of
        [] \<Rightarrow> Inl NoRows
      | m # _ \<Rightarrow> Inr m)"

section \<open>Which objects are live after a statement\<close>

lemma upsert_closures_objects [simp]:
  "objects (upsert_closures now ks d) = objects d" "pending_objects (upsert_closures now ks d) = pending_objects d"
  "pending_closures (upsert_closures now ks d) = pending_closures d" "pins (upsert_closures now ks d) = pins d"
  "multipart_uploads (upsert_closures now ks d) = multipart_uploads d" "next_id (upsert_closures now ks d) = next_id d"
  by (simp_all add: upsert_closures_def)

lemma delete_pending_objects [simp]:
  "objects (delete_pending_where p d) = objects d" "closures (delete_pending_where p d) = closures d"
  "pins (delete_pending_where p d) = pins d" "next_id (delete_pending_where p d) = next_id d"
  by (simp_all add: delete_pending_where_def)

lemma live_cong: "objects d = objects e \<Longrightarrow> live d k = live e k"
  by (simp add: live_def)

lemma live_delete_pending [simp]: "live (delete_pending_where p d) k = live d k"
  by (simp add: live_def)

lemma live_upsert_closures [simp]: "live (upsert_closures now ks d) k = live d k"
  by (simp add: live_def)

lemma pending_rows_keys: "k \<in> fst ` set (pending_rows d i) \<longleftrightarrow> (i, k) \<in> fst ` set (pending_objects d)"
  by (force simp: pending_rows_def)

lemma pending_key_iff: "pending_key d k \<longleftrightarrow> (\<exists>i. (i, k) \<in> fst ` set (pending_objects d))"
  by (force simp: pending_key_def list_ex_iff)

lemma pending_rows_upsert_closures [simp]: "pending_rows (upsert_closures now ks d) i = pending_rows d i"
  by (simp add: pending_rows_def)

lemma map_of_new_object:
  "map_of (List.map (\<lambda>(k, r). (k, f r)) rows) k = map_option f (map_of rows k)"
  by (induction rows) auto

lemma map_of_None_iff: "map_of xs k = None \<longleftrightarrow> k \<notin> fst ` set xs"
  by (induction xs) auto

lemma map_of_Some_keys: "map_of xs k = Some r \<Longrightarrow> k \<in> fst ` set xs"
  by (metis map_of_None_iff option.distinct(1))

lemma live_upsert:
  assumes "\<And>old new r. conflict old new = Some r \<Longrightarrow> alive r"
    and "\<And>old new. \<not> alive old \<Longrightarrow> conflict old new \<noteq> None"
    and "\<forall>(k, r) \<in> set rows. alive r"
  shows "live (obj_upsert conflict rows d) k \<longleftrightarrow> live d k \<or> k \<in> fst ` set rows"
proof (cases "map_of rows k")
  case None
  then show ?thesis using map_of_None_iff [of rows k] by (simp add: live_def obj_upsert_lookup)
next
  case (Some new)
  from assms(3) map_of_SomeD [OF Some] have "alive new" by auto
  moreover have "alive (case conflict old new of None \<Rightarrow> old | Some r \<Rightarrow> r)" for old
    using assms(1) [of old new] assms(2) [of old new] by (cases "conflict old new") auto
  ultimately show ?thesis using Some map_of_Some_keys [OF Some]
    by (simp add: live_def obj_upsert_lookup split: option.splits)
qed

lemma alive_merge [simp]: "alive (merge_row old new)"
  by (simp add: alive_def merge_row_def)

lemma alive_new_object [simp]: "alive (new_object r)"
  by (simp add: alive_def new_object_def)

lemma new_object_refs [simp]: "o_refs (new_object r) = po_refs r"
  by (simp add: new_object_def)

lemma live_commit_upsert:
  "live (obj_upsert commit_conflict (List.map (\<lambda>(k, r). (k, new_object r)) rows) d) k
     \<longleftrightarrow> live d k \<or> k \<in> fst ` set rows"
  by (subst live_upsert) (auto simp: commit_conflict_def image_image case_prod_beta alive_def merge_row_def new_object_def split: if_splits)

lemma live_register:
  "live (RegisterCompletedObject key refs sz d) k \<longleftrightarrow> live d k \<or> (k = key \<and> pending_key d key)"
  unfolding RegisterCompletedObject_def by (simp, subst live_upsert) (auto simp: alive_def merge_row_def)

lemma live_DeleteObjects: "live (DeleteObjects keys d) k \<longleftrightarrow> live d k \<and> k \<notin> set keys"
  by (simp add: live_def DeleteObjects_def obj_delete_lookup)

lemma live_Cleanup: "live (snd (CleanupPendingClosures locked cutoff keep d)) k \<longleftrightarrow> live d k"
proof -
  have *: "live (obj_upsert (\<lambda>old new. None) rows d) k \<longleftrightarrow> live d k"
    if "\<And>r. map_of rows k = Some r \<Longrightarrow> \<not> alive r" for rows
    using that by (simp add: live_def obj_upsert_lookup split: option.splits)
  show ?thesis
    unfolding CleanupPendingClosures_def Let_def snd_conv live_delete_pending
    by (rule *) (auto simp: map_of_clearjunk alive_def dest!: map_of_SomeD)
qed

text \<open>\<open>commit_pending_closure\<close> and \<open>commit_push\<close>, seen from their result.\<close>

lemma commit_pending_closureE:
  assumes "commit_pending_closure now i d = Inr (n, d')"
  obtains pc where "map_of (pending_closures d) i = Some pc" "n = length (pending_rows d i)"
    "d' = DeletePendingClosure i (obj_upsert commit_conflict
            (List.map (\<lambda>(k, r). (k, new_object r)) (pending_rows d i)) (upsert_closures now [pc_key pc] d))"
  using assms by (auto simp: commit_pending_closure_def Let_def split: option.splits)

lemma commit_pushE:
  assumes "commit_push now i d = Inr (n, d')"
  obtains pc where "map_of (pending_closures d) i = Some pc"
    "commit_push_missing (pc_roots pc) (pending_rows d i) d = []"
    "commit_pending_closure now i (upsert_closures now (pc_roots pc) d) = Inr (n, d')"
  using assms by (auto simp: commit_push_def split: option.splits list.splits)

lemma live_commit_pending_closure:
  "commit_pending_closure now i d = Inr (n, d') \<Longrightarrow>
   live d' k \<longleftrightarrow> live d k \<or> (i, k) \<in> fst ` set (pending_objects d)"
  by (elim commit_pending_closureE) (simp add: DeletePendingClosure_def live_commit_upsert pending_rows_keys)

lemma live_commit_push:
  "commit_push now i d = Inr (n, d') \<Longrightarrow>
   live d' k \<longleftrightarrow> live d k \<or> (i, k) \<in> fst ` set (pending_objects d)"
  by (elim commit_pushE) (simp add: live_commit_pending_closure)

lemma commit_pending_objects:
  "commit_pending_closure now i d = Inr (n, d') \<Longrightarrow>
   pending_objects d' = filter (\<lambda>((j, k), r). j \<noteq> i) (pending_objects d)"
  by (elim commit_pending_closureE) (simp add: DeletePendingClosure_def delete_pending_where_def)

lemma commit_push_pending_objects:
  "commit_push now i d = Inr (n, d') \<Longrightarrow>
   pending_objects d' = filter (\<lambda>((j, k), r). j \<noteq> i) (pending_objects d)"
  by (elim commit_pushE) (simp add: commit_pending_objects)

end
