(* ===== verification/StatementInv.thy ===== *)
theory StatementInv
  imports Statements
begin

text \<open>
  Every statement keeps the invariant of the tables: unique keys, foreign keys, paired tombstone
  times, and running totals that equal the totals of the live rows. \<open>db_inv\<close> collects the facts.
\<close>

named_theorems db_inv "statements that preserve the invariant of the tables"

section \<open>Changes of objects\<close>

lemma obj_keys:
  "List.map fst (objects (obj_insert rows d)) = List.map fst (objects d) @ List.map fst rows"
  "List.map fst (objects (obj_update f d)) = List.map fst (objects d)"
  "objects (obj_delete p d) = filter (\<lambda>(k, r). \<not> p k) (objects d)"
  by (simp_all add: obj_insert_def obj_update_def obj_delete_def object_stats_insert_def
      object_stats_update_def object_stats_delete_def Let_def comp_def case_prod_beta)

lemma distinct_filter_keys: "distinct (List.map fst xs) \<Longrightarrow> distinct (List.map fst (filter P xs))"
  by (induction xs) auto

lemma obj_change_inv:
  assumes "db_inv d" "distinct (List.map fst (objects d'))" "stats_ok d'" "tombs_ok d'"
    and "closures d' = closures d" "pending_closures d' = pending_closures d" "pins d' = pins d"
    "pending_objects d' = pending_objects d" "multipart_uploads d' = multipart_uploads d" "next_id d' = next_id d"
  shows "db_inv d'"
  using assms by (simp add: db_inv_def unique_keys_def foreign_keys_def pc_ids_def po_ids_def mu_ids_def
      closure_keys_def pin_targets_def)

lemma tombs_ok_update:
  assumes "tombs_ok d" "\<And>k r r'. f k r = Some r' \<Longrightarrow> (o_deleted_at r = None) = (o_first_deleted_at r = None) \<Longrightarrow>
    (o_deleted_at r' = None) = (o_first_deleted_at r' = None)"
  shows "tombs_ok (obj_update f d)"
proof -
  have "(o_deleted_at r' = None) = (o_first_deleted_at r' = None)"
    if "(k, r) \<in> set (objects d)" "r' = (case f k r of None \<Rightarrow> r | Some x \<Rightarrow> x)" for k r r'
    using assms(1) that assms(2) [of k r r'] by (auto simp: tombs_ok_def split: option.splits)
  then show ?thesis
    by (simp add: tombs_ok_def obj_update_def object_stats_update_def Let_def case_prod_beta)
qed

lemma tombs_ok_insert:
  "tombs_ok d \<Longrightarrow> \<forall>(k, r) \<in> set rows. (o_deleted_at r = None) = (o_first_deleted_at r = None) \<Longrightarrow>
   tombs_ok (obj_insert rows d)"
  by (auto simp: tombs_ok_def obj_insert_def object_stats_insert_def)

lemma obj_delete_inv: "db_inv d \<Longrightarrow> db_inv (obj_delete p d)"
  by (rule obj_change_inv, assumption)
    (auto simp: db_inv_def unique_keys_def obj_keys distinct_filter_keys stats_ok_delete tombs_ok_def)

lemma obj_update_inv:
  assumes "db_inv d" "\<And>k r r'. f k r = Some r' \<Longrightarrow> (o_deleted_at r = None) = (o_first_deleted_at r = None) \<Longrightarrow>
    (o_deleted_at r' = None) = (o_first_deleted_at r' = None)"
  shows "db_inv (obj_update f d)"
proof -
  have "tombs_ok (obj_update f d)"
    by (rule tombs_ok_update) (use assms(1) in \<open>simp add: db_inv_def\<close>, rule assms(2))
  with assms(1) show ?thesis
    by (intro obj_change_inv [OF assms(1)]) (auto simp: db_inv_def unique_keys_def obj_keys stats_ok_update)
qed

lemma obj_upsert_inv:
  assumes "db_inv d" "distinct (List.map fst rows)"
    and "\<forall>(k, r) \<in> set rows. (o_deleted_at r = None) = (o_first_deleted_at r = None)"
    and "\<And>old new r. c old new = Some r \<Longrightarrow> (o_deleted_at r = None) = (o_first_deleted_at r = None)"
  shows "db_inv (obj_upsert c rows d)"
proof -
  have "fst ` set (objects d) \<inter> fst ` set (filter (\<lambda>(k, r). object_of d k = None) rows) = {}"
    by (force simp: map_of_None_iff)
  moreover have "distinct (List.map fst (filter (\<lambda>(k, r). object_of d k = None) rows))"
    using assms(2) by (rule distinct_filter_keys)
  moreover have "distinct (List.map fst (objects d))" using assms(1) by (simp add: db_inv_def unique_keys_def)
  ultimately have "distinct (List.map fst (objects (obj_upsert c rows d)))"
    by (simp add: obj_upsert_def obj_keys)
  moreover have "tombs_ok (obj_upsert c rows d)"
    unfolding obj_upsert_def
  proof (rule tombs_ok_insert)
    show "tombs_ok (obj_update (\<lambda>k r. case map_of rows k of None \<Rightarrow> None | Some new \<Rightarrow> c r new) d)"
      using assms(1) by (intro tombs_ok_update) (auto simp: db_inv_def split: option.splits dest: assms(4))
  qed (use assms(3) in auto)
  ultimately show ?thesis
    using assms(1) by (intro obj_change_inv [OF assms(1)]) (simp_all add: db_inv_def stats_ok_upsert)
qed

lemma db_inv_empty: "db_inv empty_db"
  by (simp add: db_inv_def stats_ok_def tombs_ok_def unique_keys_def foreign_keys_def pc_ids_def po_ids_def
      mu_ids_def closure_keys_def pin_targets_def empty_db_def)

section \<open>The statements\<close>

lemma other_tables_inv:
  assumes "db_inv d" "objects d' = objects d" "object_count d' = object_count d" "total_bytes d' = total_bytes d"
    and "unique_keys d'" "foreign_keys d'"
  shows "db_inv d'"
  using assms by (simp add: db_inv_def stats_ok_def tombs_ok_def)

lemma InsertPush_inv [db_inv]: "db_inv d \<Longrightarrow> db_inv (snd (InsertPush now key roots d))"
  by (rule other_tables_inv, assumption)
    (auto simp: InsertPush_def Let_def db_inv_def unique_keys_def foreign_keys_def pc_ids_def po_ids_def
      mu_ids_def closure_keys_def pin_targets_def)

lemma InsertPendingClosure_inv [db_inv]: "db_inv d \<Longrightarrow> db_inv (snd (InsertPendingClosure now key d))"
  by (simp add: InsertPendingClosure_def InsertPush_inv)

lemma distinct_with_id:
  "distinct (List.map fst rows) \<Longrightarrow> distinct (List.map fst (List.map (\<lambda>(k, r). ((i, k), r)) rows))"
  by (induction rows) (auto, force)

lemma InsertPendingObjects_inv [db_inv]:
  assumes "db_inv d" "InsertPendingObjects i rows d = Inr d'"
  shows "db_inv d'"
proof -
  let ?new = "List.map (\<lambda>(k, r). ((i, k), r)) rows"
  from assms(2) have d': "d' = d\<lparr>pending_objects := pending_objects d @ ?new\<rparr>"
    and own: "rows = [] \<or> i \<in> pc_ids d"
    and dist: "distinct (List.map fst rows)" and fresh: "list_all (\<lambda>(k, r). (i, k) \<notin> fst ` set (pending_objects d)) rows"
    by (auto simp: InsertPendingObjects_def list_ex_iff list_all_iff map_of_None_iff pc_ids_def split: if_splits)
  have "(i, k) \<notin> fst ` set (pending_objects d)" if new: "(i, k) \<in> fst ` set ?new" for k
  proof -
    from new obtain r where "(k, r) \<in> set rows" by auto
    with fresh show ?thesis unfolding list_all_iff by blast
  qed
  then have "set (List.map fst (pending_objects d)) \<inter> set (List.map fst ?new) = {}" by force
  moreover have "distinct (List.map fst ?new)" using dist by (rule distinct_with_id)
  moreover have "(fst \<circ> fst) ` set ?new \<subseteq> pc_ids d" using own by auto
  ultimately show ?thesis
    using assms(1) by (intro other_tables_inv [OF assms(1)])
      (simp_all add: d' db_inv_def unique_keys_def foreign_keys_def pc_ids_def po_ids_def
        mu_ids_def closure_keys_def pin_targets_def image_Un del: set_map map_map)
qed

lemma delete_pending_sets:
  "pc_ids (delete_pending_where p d) = {i \<in> pc_ids d. \<not> p i}"
  "po_ids (delete_pending_where p d) = {i \<in> po_ids d. \<not> p i}"
  "mu_ids (delete_pending_where p d) = {i \<in> mu_ids d. \<not> p i}"
proof -
  show "pc_ids (delete_pending_where p d) = {i \<in> pc_ids d. \<not> p i}"
    unfolding pc_ids_def delete_pending_where_def by (simp, rule sym) (induction "pending_closures d", auto)
  show "po_ids (delete_pending_where p d) = {i \<in> po_ids d. \<not> p i}"
    unfolding po_ids_def delete_pending_where_def by (simp, rule sym) (induction "pending_objects d", auto)
  show "mu_ids (delete_pending_where p d) = {i \<in> mu_ids d. \<not> p i}"
    unfolding mu_ids_def delete_pending_where_def by (simp, rule sym) (induction "multipart_uploads d", auto)
qed

lemma delete_pending_where_inv [db_inv]:
  assumes "db_inv d"
  shows "db_inv (delete_pending_where p d)"
proof (rule other_tables_inv [OF assms])
  show "unique_keys (delete_pending_where p d)"
    using assms by (simp add: db_inv_def unique_keys_def delete_pending_where_def distinct_filter_keys distinct_map_filter)
  show "foreign_keys (delete_pending_where p d)"
    using assms unfolding db_inv_def foreign_keys_def delete_pending_sets
    by (auto simp: closure_keys_def pin_targets_def)
qed (simp_all add: delete_pending_where_def)

lemma DeletePendingClosure_inv [db_inv]: "db_inv d \<Longrightarrow> db_inv (DeletePendingClosure i d)"
  by (simp add: DeletePendingClosure_def delete_pending_where_inv)

lemma closures_change_inv:
  assumes "db_inv d" "distinct (List.map fst cs)" "pin_targets d \<subseteq> fst ` set cs"
  shows "db_inv (d\<lparr>closures := cs\<rparr>)"
  using assms by (intro other_tables_inv [OF assms(1)])
    (simp_all add: db_inv_def unique_keys_def foreign_keys_def pc_ids_def po_ids_def mu_ids_def
      closure_keys_def pin_targets_def)

lemma fold_update_keys:
  "fst ` set (fold (\<lambda>k. AList.update k v) ks xs) = fst ` set xs \<union> set ks"
  by (induction ks arbitrary: xs) (auto simp: dom_update)

lemma fold_update_distinct:
  "distinct (List.map fst xs) \<Longrightarrow> distinct (List.map fst (fold (\<lambda>k. AList.update k v) ks xs))"
  by (induction ks arbitrary: xs) (auto simp: distinct_update)

lemma upsert_closures_keys: "closure_keys (upsert_closures now ks d) = closure_keys d \<union> set ks"
  by (simp add: closure_keys_def upsert_closures_def fold_update_keys)

lemma upsert_closures_inv [db_inv]: "db_inv d \<Longrightarrow> db_inv (upsert_closures now ks d)"
  unfolding upsert_closures_def
  by (rule closures_change_inv, assumption)
    (auto simp: fold_update_distinct fold_update_keys db_inv_def unique_keys_def foreign_keys_def closure_keys_def)

lemma distinct_rows_of:
  "distinct (List.map fst xs) \<Longrightarrow>
   distinct (List.map fst (List.map (\<lambda>((j, k), r). (k, r)) (filter (\<lambda>((j, k), r). j = i) xs)))"
proof (induction xs)
  case (Cons a xs)
  obtain j k r where a: "a = ((j, k), r)" by (metis surj_pair)
  define ys where "ys = List.map (\<lambda>((j, k), r). (k, r)) (filter (\<lambda>((j, k), r). j = i) xs)"
  have "k \<in> fst ` set ys \<Longrightarrow> (i, k) \<in> fst ` set xs"
    by (force simp: ys_def)
  with Cons have "k \<notin> fst ` set ys" if "j = i" using that by (auto simp: a)
  moreover have "distinct (List.map fst ys)" using Cons by (simp add: ys_def)
  moreover have "List.map (\<lambda>((j, k), r). (k, r)) (filter (\<lambda>((j, k), r). j = i) (a # xs))
      = (if j = i then (k, r) # ys else ys)"
    by (simp add: a ys_def)
  ultimately show ?case by simp
qed simp

lemma distinct_pending_rows: "db_inv d \<Longrightarrow> distinct (List.map fst (pending_rows d i))"
  unfolding pending_rows_def db_inv_def unique_keys_def by (intro distinct_rows_of) simp

lemma map_fst_new_object: "List.map fst (List.map (\<lambda>(k, r). (k, f r)) rows) = List.map fst rows"
  by (induction rows) auto

lemma commit_pending_closure_inv [db_inv]:
  assumes "db_inv d" "commit_pending_closure now i d = Inr (n, d')"
  shows "db_inv d'"
  using assms(2)
proof (cases rule: commit_pending_closureE)
  case (1 pc)
  let ?d = "upsert_closures now [pc_key pc] d"
  have "db_inv ?d" using assms(1) by (rule upsert_closures_inv)
  moreover have "distinct (List.map fst (List.map (\<lambda>(k, r). (k, new_object r)) (pending_rows d i)))"
    using assms(1) by (simp only: map_fst_new_object) (rule distinct_pending_rows)
  ultimately have "db_inv (obj_upsert commit_conflict (List.map (\<lambda>(k, r). (k, new_object r)) (pending_rows d i)) ?d)"
    by (rule obj_upsert_inv) (auto simp: new_object_def commit_conflict_def merge_row_def split: if_splits)
  with 1 show ?thesis by (simp add: DeletePendingClosure_inv)
qed

lemma commit_push_inv [db_inv]: "db_inv d \<Longrightarrow> commit_push now i d = Inr (n, d') \<Longrightarrow> db_inv d'"
  by (elim commit_pushE) (blast intro: commit_pending_closure_inv upsert_closures_inv)

lemma RegisterCompletedObject_inv [db_inv]: "db_inv d \<Longrightarrow> db_inv (RegisterCompletedObject key rs sz d)"
  by (auto simp: RegisterCompletedObject_def merge_row_def intro!: obj_upsert_inv)

lemma DeleteObjects_inv [db_inv]: "db_inv d \<Longrightarrow> db_inv (DeleteObjects keys d)"
  by (simp add: DeleteObjects_def obj_delete_inv)

lemma CleanupPendingClosures_inv [db_inv]:
  assumes "db_inv d"
  shows "db_inv (snd (CleanupPendingClosures locked cutoff keep d))"
proof -
  have sub: "set (AList.clearjunk xs) \<subseteq> set xs" for xs :: "(string \<times> object_row) list"
    by (induction xs rule: AList.clearjunk.induct) (auto simp: AList.delete_eq)
  show ?thesis
    unfolding CleanupPendingClosures_def Let_def snd_conv
    by (intro delete_pending_where_inv obj_upsert_inv assms) (auto dest!: subsetD [OF sub] simp: AList.distinct_clearjunk)
qed

lemma TouchPresentClosures_inv [db_inv]:
  assumes "db_inv d"
  shows "db_inv (snd (TouchPresentClosures now keys d))"
proof -
  have *: "List.map fst (List.map (\<lambda>(k, t). (k, f k t)) xs) = List.map fst xs" for f and xs :: "(string \<times> time) list"
    by (induction xs) auto
  have **: "fst ` set (List.map (\<lambda>(k, t). (k, f k t)) xs) = fst ` set xs" for f and xs :: "(string \<times> time) list"
    by (induction xs) auto
  show ?thesis
    unfolding TouchPresentClosures_def Let_def snd_conv
    by (rule closures_change_inv [OF assms])
      (use assms in \<open>simp_all only: * ** db_inv_def unique_keys_def foreign_keys_def closure_keys_def\<close>)
qed

lemma DeleteUnpinnedClosures_inv [db_inv]:
  assumes "db_inv d"
  shows "db_inv (snd (DeleteUnpinnedClosures keys d))"
proof -
  have "k \<in> fst ` set (filter (\<lambda>x. \<not> (case x of (k, t) \<Rightarrow> k \<in> set keys \<and> k \<notin> pin_targets d)) (closures d))"
    if "k \<in> pin_targets d" for k
  proof -
    from that assms have "k \<in> closure_keys d" unfolding db_inv_def foreign_keys_def by blast
    then obtain t where "(k, t) \<in> set (closures d)" by (auto simp: closure_keys_def)
    with that show ?thesis by force
  qed
  then show ?thesis
    unfolding DeleteUnpinnedClosures_def Let_def snd_conv pin_targets_def [symmetric]
    by (intro closures_change_inv [OF assms])
      (use assms in \<open>auto simp: db_inv_def unique_keys_def distinct_filter_keys simp del: set_filter\<close>)
qed

lemma update_values: "f ` set (AList.update k v xs) \<subseteq> insert (f (k, v)) (f ` set xs)"
  by (induction xs) auto

lemma pins_change_inv:
  assumes "db_inv d" "distinct (List.map fst ps)" "(pin_narinfo_key \<circ> snd) ` set ps \<subseteq> closure_keys d"
  shows "db_inv (d\<lparr>pins := ps\<rparr>)"
  using assms by (intro other_tables_inv [OF assms(1)])
    (simp_all add: db_inv_def unique_keys_def foreign_keys_def pc_ids_def po_ids_def mu_ids_def
      closure_keys_def pin_targets_def)

lemma UpsertPin_inv [db_inv]:
  assumes "db_inv d" "UpsertPin now name nk sp d = Inr d'"
  shows "db_inv d'"
proof -
  obtain p where d': "d' = d\<lparr>pins := AList.update name p (pins d)\<rparr>" and p: "pin_narinfo_key p = nk"
    and nk: "nk \<in> closure_keys d"
    using assms(2) by (auto simp: UpsertPin_def map_of_None_iff closure_keys_def split: if_splits option.splits)
  have "(pin_narinfo_key \<circ> snd) ` set (AList.update name p (pins d)) \<subseteq> insert nk (pin_targets d)"
    using update_values [of "pin_narinfo_key \<circ> snd" name p "pins d"] p by (simp add: pin_targets_def)
  moreover have "pin_targets d \<subseteq> closure_keys d" using assms(1) by (simp add: db_inv_def foreign_keys_def)
  ultimately have "(pin_narinfo_key \<circ> snd) ` set (AList.update name p (pins d)) \<subseteq> closure_keys d"
    using nk by blast
  moreover have "distinct (List.map fst (AList.update name p (pins d)))"
    using assms(1) by (simp add: db_inv_def unique_keys_def distinct_update)
  ultimately show ?thesis unfolding d' using pins_change_inv [OF assms(1)] by blast
qed

lemma DeletePin_inv [db_inv]:
  assumes "db_inv d"
  shows "db_inv (DeletePin name d)"
proof -
  have "(pin_narinfo_key \<circ> snd) ` set (AList.delete name (pins d)) \<subseteq> pin_targets d"
    unfolding pin_targets_def AList.delete_eq by (intro image_mono) auto
  with assms show ?thesis
    unfolding DeletePin_def
    by (intro pins_change_inv [OF assms]) (auto simp: db_inv_def unique_keys_def foreign_keys_def AList.delete_eq distinct_filter_keys)
qed

lemma multipart_change_inv:
  assumes "db_inv d" "distinct (List.map (\<lambda>m. (mu_pending_closure_id m, mu_object_key m)) ms)"
    "mu_pending_closure_id ` set ms \<subseteq> pc_ids d"
  shows "db_inv (d\<lparr>multipart_uploads := ms\<rparr>)"
  using assms by (intro other_tables_inv [OF assms(1)])
    (simp_all add: db_inv_def unique_keys_def foreign_keys_def pc_ids_def po_ids_def mu_ids_def
      closure_keys_def pin_targets_def)

lemma InsertMultipartUpload_inv [db_inv]:
  assumes "db_inv d" "InsertMultipartUpload i k u d = Inr d'"
  shows "db_inv d'"
proof -
  let ?m = "\<lparr>mu_pending_closure_id = i, mu_object_key = k, mu_upload_id = u\<rparr>"
  from assms(2) have d': "d' = d\<lparr>multipart_uploads := multipart_uploads d @ [?m]\<rparr>" and i: "i \<in> pc_ids d"
    and fresh: "(i, k) \<notin> (\<lambda>m. (mu_pending_closure_id m, mu_object_key m)) ` set (multipart_uploads d)"
    by (auto simp: InsertMultipartUpload_def map_of_None_iff pc_ids_def list_ex_iff split: if_splits)
  show ?thesis
    unfolding d' by (rule multipart_change_inv [OF assms(1)])
      (use assms(1) i fresh in \<open>simp_all add: db_inv_def unique_keys_def foreign_keys_def mu_ids_def\<close>)
qed

lemma DeleteMultipartUpload_inv [db_inv]:
  assumes "db_inv d"
  shows "db_inv (DeleteMultipartUpload u d)"
proof -
  have "mu_pending_closure_id ` set (filter P (multipart_uploads d)) \<subseteq> mu_ids d" for P
    unfolding mu_ids_def by (intro image_mono) auto
  moreover have "mu_ids d \<subseteq> pc_ids d" using assms by (simp add: db_inv_def foreign_keys_def)
  ultimately have "mu_pending_closure_id ` set (filter P (multipart_uploads d)) \<subseteq> pc_ids d" for P
    by blast
  with assms show ?thesis
    unfolding DeleteMultipartUpload_def
    by (intro multipart_change_inv [OF assms]) (simp_all add: db_inv_def unique_keys_def distinct_map_filter)
qed

end
