(* ===== verification/Mark.thy ===== *)
theory Mark
  imports StatementInv
begin

text \<open>
  The recursive statements of \<open>src/server/pg/query.sql\<close>: \<open>GetClosureObjects\<close> and
  \<open>MarkStaleObjects\<close>. The recursive common table expression is the loop PostgreSQL runs (a
  working table joined with the objects until it yields nothing new); it is proved equal to
  reachability over the references.
\<close>

section \<open>The recursive query\<close>

definition refs_of :: "db \<Rightarrow> string \<Rightarrow> string list" where
  "refs_of d k = (case object_of d k of None \<Rightarrow> [] | Some r \<Rightarrow> o_refs r)"

definition cte_next :: "db \<Rightarrow> string list \<Rightarrow> string list \<Rightarrow> string list" where
  "cte_next d res work =
     filter (\<lambda>k. k \<notin> set res \<and> list_ex (\<lambda>w. k \<in> set (refs_of d w)) work) (List.map fst (objects d))"

lemma cte_next_progress:
  assumes "cte_next d res work \<noteq> []"
  shows "card (set (List.map fst (objects d)) - set (res @ cte_next d res work))
       < card (set (List.map fst (objects d)) - set res)"
proof -
  obtain k where "k \<in> set (cte_next d res work)" using assms by (cases "cte_next d res work") auto
  then have "k \<in> set (List.map fst (objects d)) - set res" "k \<in> set (res @ cte_next d res work)"
    by (auto simp: cte_next_def)
  then show ?thesis by (intro psubset_card_mono) auto
qed

function cte_loop :: "db \<Rightarrow> string list \<Rightarrow> string list \<Rightarrow> string list" where
  "cte_loop d res work =
     (if work = [] then res
      else (let new = cte_next d res work in cte_loop d (res @ new) new))"
  by pat_completeness auto
termination
proof (relation "measure (\<lambda>(d, res, work). card (set (List.map fst (objects d)) - set res) + (if work = [] then 0 else 1))")
  fix d :: db and res work x
  assume "work \<noteq> []" "x = cte_next d res work"
  then show "((d, res @ x, x), (d, res, work))
      \<in> measure (\<lambda>(d, res, work). card (set (List.map fst (objects d)) - set res) + (if work = [] then 0 else 1))"
    using cte_next_progress [of d res work] by (cases "x = []") auto
qed simp

declare cte_loop.simps [simp del]

lemma cte_loop_Nil [simp]: "cte_loop d res [] = res"
  by (simp add: cte_loop.simps)

lemma cte_loop_work:
  "work \<noteq> [] \<Longrightarrow> cte_loop d res work = cte_loop d (res @ cte_next d res work) (cte_next d res work)"
  by (subst cte_loop.simps) (simp add: Let_def)

definition closure_reach :: "db \<Rightarrow> string list \<Rightarrow> string list" where
  "closure_reach d starts =
     (let work = filter (\<lambda>k. k \<in> set starts) (List.map fst (objects d)) in cte_loop d work work)"

definition GetClosureObjects :: "string \<Rightarrow> db \<Rightarrow> string list" where
  "GetClosureObjects key d = closure_reach d [key]"

definition stale :: "db \<Rightarrow> string list \<Rightarrow> string \<Rightarrow> object_row \<Rightarrow> bool" where
  "stale d reach k r \<longleftrightarrow> k \<notin> set reach \<and> \<not> pending_key d k \<and> o_deleted_at r = None"

definition MarkStaleObjects :: "time \<Rightarrow> db \<Rightarrow> nat \<times> db" where
  "MarkStaleObjects now d =
     (let reach = closure_reach d (List.map fst (closures d)) in
      (length (filter (\<lambda>(k, r). stale d reach k r) (objects d)),
       obj_update (\<lambda>k r. if stale d reach k r
                         then Some (r\<lparr>o_deleted_at := Some now,
                                      o_first_deleted_at := (case o_first_deleted_at r of None \<Rightarrow> Some now | Some t \<Rightarrow> Some t)\<rparr>)
                         else None) d))"

section \<open>Reachability\<close>

inductive reachable :: "db \<Rightarrow> string set \<Rightarrow> string \<Rightarrow> bool" for d S where
  start: "k \<in> S \<Longrightarrow> object_of d k \<noteq> None \<Longrightarrow> reachable d S k"
| step: "reachable d S w \<Longrightarrow> k \<in> set (refs_of d w) \<Longrightarrow> object_of d k \<noteq> None \<Longrightarrow> reachable d S k"

inductive_cases reachableE: "reachable d S k"

lemma object_key_iff: "k \<in> set (List.map fst (objects d)) \<longleftrightarrow> object_of d k \<noteq> None"
  by (simp add: map_of_None_iff)

lemma reachable_row: "reachable d S k \<Longrightarrow> object_of d k \<noteq> None"
  by (induction rule: reachable.induct) auto

lemma set_cte_next:
  "k \<in> set (cte_next d res work) \<longleftrightarrow>
   object_of d k \<noteq> None \<and> k \<notin> set res \<and> (\<exists>w \<in> set work. k \<in> set (refs_of d w))"
  using object_key_iff [of k d] by (auto simp: cte_next_def list_ex_iff)

lemma cte_loop_sound:
  "\<forall>k \<in> set res \<union> set work. reachable d S k \<Longrightarrow> k \<in> set (cte_loop d res work) \<Longrightarrow> reachable d S k"
proof (induction d res work arbitrary: k rule: cte_loop.induct)
  case (1 d res work)
  show ?case
  proof (cases "work = []")
    case True
    with 1 show ?thesis by simp
  next
    case False
    have "\<forall>k \<in> set (cte_next d res work). reachable d S k"
    proof
      fix k assume "k \<in> set (cte_next d res work)"
      then obtain w where "w \<in> set work" "k \<in> set (refs_of d w)" "object_of d k \<noteq> None"
        unfolding set_cte_next by blast
      with "1.prems"(1) show "reachable d S k" by (intro reachable.step [of d S w k]) auto
    qed
    with "1.prems"(1) have "\<forall>k \<in> set (res @ cte_next d res work) \<union> set (cte_next d res work). reachable d S k"
      by auto
    from "1.IH" [OF False refl this] "1.prems"(2) False show ?thesis by (simp add: cte_loop_work)
  qed
qed

lemma cte_loop_grows: "set res \<subseteq> set (cte_loop d res work)"
proof (induction d res work rule: cte_loop.induct)
  case (1 d res work)
  then show ?case by (cases "work = []") (auto simp: cte_loop_work)
qed

lemma cte_loop_closed:
  "\<forall>w \<in> set res - set work. \<forall>k \<in> set (refs_of d w). object_of d k \<noteq> None \<longrightarrow> k \<in> set res \<Longrightarrow>
   w \<in> set (cte_loop d res work) \<Longrightarrow> k \<in> set (refs_of d w) \<Longrightarrow> object_of d k \<noteq> None \<Longrightarrow>
   k \<in> set (cte_loop d res work)"
proof (induction d res work rule: cte_loop.induct)
  case (1 d res work)
  show ?case
  proof (cases "work = []")
    case True
    with 1 show ?thesis by auto
  next
    case False
    have closed: "\<forall>w \<in> set (res @ cte_next d res work) - set (cte_next d res work).
        \<forall>k \<in> set (refs_of d w). object_of d k \<noteq> None \<longrightarrow> k \<in> set (res @ cte_next d res work)"
    proof (intro ballI impI)
      fix w k assume w: "w \<in> set (res @ cte_next d res work) - set (cte_next d res work)"
        and k: "k \<in> set (refs_of d w)" "object_of d k \<noteq> None"
      show "k \<in> set (res @ cte_next d res work)"
      proof (cases "w \<in> set work \<and> k \<notin> set res")
        case True
        with k have "k \<in> set (cte_next d res work)" by (auto simp: set_cte_next)
        then show ?thesis by simp
      next
        case False
        with w k "1.prems"(1) show ?thesis by auto
      qed
    qed
    from 1(1) [OF False refl closed] "1.prems" False show ?thesis
      by (simp add: cte_loop_work)
  qed
qed

lemma closure_reach_iff: "k \<in> set (closure_reach d starts) \<longleftrightarrow> reachable d (set starts) k"
proof
  let ?work = "filter (\<lambda>k. k \<in> set starts) (List.map fst (objects d))"
  have work: "w \<in> set ?work \<longleftrightarrow> w \<in> set starts \<and> object_of d w \<noteq> None" for w
    using object_key_iff [of w d] by auto
  show "reachable d (set starts) k" if "k \<in> set (closure_reach d starts)"
    using that cte_loop_sound [of ?work ?work d "set starts" k] work
    by (auto simp: closure_reach_def Let_def intro: reachable.start)
  assume "reachable d (set starts) k"
  then have "k \<in> set (cte_loop d ?work ?work)"
  proof (induction rule: reachable.induct)
    case (start k)
    then have "k \<in> set ?work" using work by blast
    then show ?case using cte_loop_grows by blast
  next
    case (step w k)
    show ?case by (rule cte_loop_closed [OF _ step.IH step.hyps(2,3)]) simp
  qed
  then show "k \<in> set (closure_reach d starts)" by (simp add: closure_reach_def Let_def)
qed

abbreviation protected :: "db \<Rightarrow> string \<Rightarrow> bool" where
  "protected d k \<equiv> reachable d (closure_keys d) k"

lemma mark_reach: "k \<in> set (closure_reach d (List.map fst (closures d))) \<longleftrightarrow> protected d k"
  by (simp add: closure_reach_iff closure_keys_def)

lemma MarkStaleObjects_lookup:
  "object_of (snd (MarkStaleObjects now d)) k =
   map_option (\<lambda>r. if \<not> protected d k \<and> \<not> pending_key d k \<and> alive r
                   then r\<lparr>o_deleted_at := Some now,
                          o_first_deleted_at := (case o_first_deleted_at r of None \<Rightarrow> Some now | Some t \<Rightarrow> Some t)\<rparr>
                   else r) (object_of d k)"
  by (cases "object_of d k") (simp_all add: MarkStaleObjects_def Let_def obj_update_lookup stale_def mark_reach alive_def)

lemma live_Mark: "live (snd (MarkStaleObjects now d)) k \<longleftrightarrow> live d k \<and> (protected d k \<or> pending_key d k)"
  by (cases "object_of d k") (auto simp: live_def MarkStaleObjects_lookup alive_def)

lemma MarkStaleObjects_inv [db_inv]: "db_inv d \<Longrightarrow> db_inv (snd (MarkStaleObjects now d))"
  unfolding MarkStaleObjects_def Let_def snd_conv
  by (erule obj_update_inv) (auto split: if_splits option.splits)

lemma Mark_frame [simp]:
  "closures (snd (MarkStaleObjects now d)) = closures d"
  "pending_objects (snd (MarkStaleObjects now d)) = pending_objects d"
  "pending_closures (snd (MarkStaleObjects now d)) = pending_closures d"
  by (simp_all add: MarkStaleObjects_def Let_def)

text \<open>Reachability looks at keys and references only, which tombstones do not change.\<close>

lemma reachable_cong:
  assumes "\<And>k. map_option o_refs (object_of d' k) = map_option o_refs (object_of d k)"
  shows "reachable d' S k \<longleftrightarrow> reachable d S k"
proof -
  have row: "object_of d' k = None \<longleftrightarrow> object_of d k = None" for k
    using assms [of k] by (metis option.map_disc_iff)
  have refs: "refs_of d' k = refs_of d k" for k
    using assms [of k] by (auto simp: refs_of_def split: option.splits)
  show ?thesis
  proof
    show "reachable d S k" if "reachable d' S k"
      using that by induction (auto simp: row refs intro: reachable.intros)
    show "reachable d' S k" if "reachable d S k"
      using that by induction (auto simp: row [symmetric] refs [symmetric] intro: reachable.intros)
  qed
qed

end
