(* ===== verification/World.thy ===== *)
theory World
  imports Mark RateLimit
begin

text \<open>
  What the server's operations act on besides the database: the S3 bucket with its open multipart
  uploads, the rate limiter in front of it (\<open>src/server/s3_rate_limiter.go\<close>), and the answers of
  the outside world. An \<open>env\<close> says which calls fail and how; every definition of the server takes
  it as an argument, so a theorem about an operation covers all of its error paths.
\<close>

section \<open>Errors\<close>

text \<open>A \<open>minio.ErrorResponse\<close>: the code S3 answers and the HTTP status.\<close>

record s3_error =
  err_code :: string
  err_status :: int

datatype go_error =
    S3Error s3_error
  | DbError db_error
  | OtherError string

text \<open>\<open>minio.ToErrorResponse\<close> of an error that is none has the code of an internal error.\<close>

definition ToErrorResponse :: "go_error \<Rightarrow> s3_error" where
  "ToErrorResponse e = (case e of S3Error r \<Rightarrow> r | _ \<Rightarrow> \<lparr>err_code = ''InternalError'', err_status = 0\<rparr>)"

definition isMinioRateLimitError :: "s3_error \<Rightarrow> bool" where
  "isMinioRateLimitError r \<longleftrightarrow>
     (if err_code r \<in> set [''SlowDown'', ''SlowDownRead'', ''SlowDownWrite'', ''Throttling'',
           ''ThrottlingException'', ''RequestThrottled'', ''RequestLimitExceeded''] then True
      else err_status r = 429)"

text \<open>A wrapped error unwraps to the error it carries.\<close>

definition isRateLimitError :: "go_error \<Rightarrow> bool" where
  "isRateLimitError e \<longleftrightarrow> isMinioRateLimitError (ToErrorResponse e)"

definition NoSuchKey :: s3_error where
  "NoSuchKey = \<lparr>err_code = ''NoSuchKey'', err_status = 404\<rparr>"

section \<open>State and environment\<close>

record world =
  w_db :: db
  bucket :: "string list"
  uploads :: "(string \<times> string) list"
  s3_limiter :: AdaptiveRateLimiter

text \<open>The answer of the bucket to the deletion of one key of a batch.\<close>

datatype remove_answer = Removed | RemoveFailed s3_error | NoAnswer

record env =
  now :: time
  db_fault :: "string \<Rightarrow> bool"
  wait_fault :: "string \<Rightarrow> bool"
  stat_fault :: "string \<Rightarrow> s3_error option"
  presign :: "string \<Rightarrow> s3_error + string"
  presign_part :: "string \<Rightarrow> string \<Rightarrow> int \<Rightarrow> s3_error + string"
  new_multipart :: "string \<Rightarrow> s3_error + string"
  complete_fault :: "string \<Rightarrow> (s3_error \<times> bool) option"
  put_fault :: "string \<Rightarrow> s3_error option"
  remove_fault :: "string \<Rightarrow> s3_error option"
  abort_fault :: "string \<Rightarrow> s3_error option"
  abort_canceled :: "string \<Rightarrow> bool"
  remove_answer :: "string \<Rightarrow> remove_answer"
  locked_object :: "string \<Rightarrow> bool"
  locked_closure :: "string \<Rightarrow> bool"
  locked_pending :: "int \<Rightarrow> bool"

text \<open>
  The completion of a multipart upload may fail with or without having taken effect, as when its
  answer is lost. \<open>quiet\<close> is an environment in which nothing fails, for concrete runs.
\<close>

definition quiet :: "time \<Rightarrow> env" where
  "quiet t = \<lparr>now = t, db_fault = (\<lambda>_. False), wait_fault = (\<lambda>_. False), stat_fault = (\<lambda>_. None),
     presign = (\<lambda>k. Inr (''https://s3/'' @ k)), presign_part = (\<lambda>k u n. Inr (''https://s3/'' @ k)),
     new_multipart = (\<lambda>k. Inr ''upload''), complete_fault = (\<lambda>_. None), put_fault = (\<lambda>_. None),
     remove_fault = (\<lambda>_. None), abort_fault = (\<lambda>_. None), abort_canceled = (\<lambda>_. False),
     remove_answer = (\<lambda>_. Removed), locked_object = (\<lambda>_. False), locked_closure = (\<lambda>_. False),
     locked_pending = (\<lambda>_. False)\<rparr>"

definition empty_world :: world where
  "empty_world = \<lparr>w_db = empty_db, bucket = [], uploads = [], s3_limiter = NewAdaptiveRateLimiter 0\<rparr>"

section \<open>Calls\<close>

definition record_success :: "world \<Rightarrow> world" where
  "record_success w = w\<lparr>s3_limiter := RecordSuccess (s3_limiter w)\<rparr>"

definition record_throttle :: "world \<Rightarrow> world" where
  "record_throttle w = w\<lparr>s3_limiter := RecordThrottle (s3_limiter w)\<rparr>"

text \<open>\<open>if isRateLimitError(err) { s.S3RateLimiter.RecordThrottle() }\<close>\<close>

definition note_error :: "s3_error \<Rightarrow> world \<Rightarrow> world" where
  "note_error r w = (if isMinioRateLimitError r then record_throttle w else w)"

definition StatObject :: "env \<Rightarrow> world \<Rightarrow> string \<Rightarrow> s3_error option" where
  "StatObject e w key =
     (case stat_fault e key of
        Some r \<Rightarrow> Some r
      | None \<Rightarrow> if key \<in> set (bucket w) then None else Some NoSuchKey)"

definition isAbsent :: "env \<Rightarrow> world \<Rightarrow> string \<Rightarrow> bool" where
  "isAbsent e w key \<longleftrightarrow>
     (case StatObject e w key of None \<Rightarrow> False | Some r \<Rightarrow> err_code r = ''NoSuchKey'')"

definition objectExistsInS3 :: "env \<Rightarrow> string \<Rightarrow> world \<Rightarrow> (go_error + bool) \<times> world" where
  "objectExistsInS3 e key w =
     (if wait_fault e key then (Inl (OtherError ''rate limiter''), w)
      else (case StatObject e w key of
              None \<Rightarrow> (Inr True, record_success w)
            | Some r \<Rightarrow>
                (let w = note_error r w in
                 if err_code r = ''NoSuchKey'' then (Inr False, record_success w)
                 else (Inl (S3Error r), w))))"

text \<open>Aborting an upload that does not exist answers \<open>NoSuchUpload\<close>.\<close>

definition AbortMultipartUpload :: "env \<Rightarrow> string \<Rightarrow> string \<Rightarrow> world \<Rightarrow> s3_error option \<times> world" where
  "AbortMultipartUpload e key upload_id w =
     (case abort_fault e upload_id of
        Some r \<Rightarrow> (Some r, w)
      | None \<Rightarrow>
          if (key, upload_id) \<in> set (uploads w)
          then (None, w\<lparr>uploads := filter (\<lambda>u. u \<noteq> (key, upload_id)) (uploads w)\<rparr>)
          else (Some \<lparr>err_code = ''NoSuchUpload'', err_status = 404\<rparr>, w))"

definition abortMultipartUpload :: "env \<Rightarrow> string \<Rightarrow> string \<Rightarrow> world \<Rightarrow> world" where
  "abortMultipartUpload e key upload_id w = snd (AbortMultipartUpload e key upload_id w)"

text \<open>Completing an open upload closes it and creates its object.\<close>

definition finish_upload :: "string \<Rightarrow> string \<Rightarrow> world \<Rightarrow> world" where
  "finish_upload key upload_id w =
     w\<lparr>uploads := filter (\<lambda>u. u \<noteq> (key, upload_id)) (uploads w),
       bucket := (if key \<in> set (bucket w) then bucket w else key # bucket w)\<rparr>"

definition CompleteMultipartUpload :: "env \<Rightarrow> string \<Rightarrow> string \<Rightarrow> world \<Rightarrow> s3_error option \<times> world" where
  "CompleteMultipartUpload e key upload_id w =
     (if (key, upload_id) \<notin> set (uploads w) then (Some \<lparr>err_code = ''NoSuchUpload'', err_status = 404\<rparr>, w)
      else (case complete_fault e upload_id of
              None \<Rightarrow> (None, finish_upload key upload_id w)
            | Some (r, done_anyway) \<Rightarrow> (Some r, if done_anyway then finish_upload key upload_id w else w)))"

definition PutObject :: "env \<Rightarrow> string \<Rightarrow> world \<Rightarrow> s3_error option \<times> world" where
  "PutObject e key w =
     (case put_fault e key of
        Some r \<Rightarrow> (Some r, w)
      | None \<Rightarrow> (None, w\<lparr>bucket := (if key \<in> set (bucket w) then bucket w else key # bucket w)\<rparr>))"

definition RemoveObject :: "env \<Rightarrow> string \<Rightarrow> world \<Rightarrow> s3_error option \<times> world" where
  "RemoveObject e key w =
     (case remove_fault e key of
        Some r \<Rightarrow> (Some r, w)
      | None \<Rightarrow> (None, w\<lparr>bucket := filter (\<lambda>k. k \<noteq> key) (bucket w)\<rparr>))"

text \<open>
  Request bodies as \<open>json.Decoder\<close> and \<open>http.MaxBytesReader\<close> leave them to \<open>decodeJSONBody\<close>.
\<close>

datatype 'a body = TooLarge | Malformed | Decoded 'a

definition decodeJSONBody :: "'a body \<Rightarrow> (nat \<times> string) + 'a" where
  "decodeJSONBody b =
     (case b of
        TooLarge \<Rightarrow> Inl (413, ''request body exceeds limit'')
      | Malformed \<Rightarrow> Inl (400, ''failed to decode request'')
      | Decoded x \<Rightarrow> Inr x)"

text \<open>
  Replies of the handlers. \<open>handleS3Error\<close> answers 429 to a throttled request, after adapting the
  limiter, and leaves every other error to its caller.
\<close>

datatype 'a reply = HttpError nat string | HttpOk nat 'a

definition handleS3Error :: "go_error \<Rightarrow> world \<Rightarrow> ('a reply \<times> world) option" where
  "handleS3Error err w =
     (if isRateLimitError err
      then Some (HttpError 429 ''S3 rate limit exceeded, please retry'', record_throttle w)
      else None)"

section \<open>What the calls leave alone\<close>

lemma limiter_frame [simp]:
  "w_db (record_success w) = w_db w" "bucket (record_success w) = bucket w" "uploads (record_success w) = uploads w"
  "w_db (record_throttle w) = w_db w" "bucket (record_throttle w) = bucket w" "uploads (record_throttle w) = uploads w"
  "w_db (note_error r w) = w_db w" "bucket (note_error r w) = bucket w" "uploads (note_error r w) = uploads w"
  by (simp_all add: record_success_def record_throttle_def note_error_def)

lemma objectExistsInS3_frame [simp]:
  "w_db (snd (objectExistsInS3 e key w)) = w_db w" "bucket (snd (objectExistsInS3 e key w)) = bucket w"
  "uploads (snd (objectExistsInS3 e key w)) = uploads w"
  by (auto simp: objectExistsInS3_def Let_def split: option.splits)

lemma abort_frame [simp]:
  "w_db (snd (AbortMultipartUpload e key u w)) = w_db w"
  "bucket (snd (AbortMultipartUpload e key u w)) = bucket w"
  "w_db (abortMultipartUpload e key u w) = w_db w" "bucket (abortMultipartUpload e key u w) = bucket w"
  by (auto simp: AbortMultipartUpload_def abortMultipartUpload_def split: option.splits)

text \<open>
  \<open>stat_fault\<close> may answer anything, a \<open>NoSuchKey\<close> for an object that exists included; a bucket
  that answers truthfully does not.
\<close>

definition stat_honest :: "env \<Rightarrow> bool" where
  "stat_honest e \<longleftrightarrow> (\<forall>k r. stat_fault e k = Some r \<longrightarrow> err_code r \<noteq> ''NoSuchKey'')"

lemma objectExistsInS3_true:
  "fst (objectExistsInS3 e key w) = Inr True \<Longrightarrow> key \<in> set (bucket w)"
  by (auto simp: objectExistsInS3_def StatObject_def Let_def split: if_splits option.splits)

lemma isAbsent_honest: "stat_honest e \<Longrightarrow> isAbsent e w key \<Longrightarrow> key \<notin> set (bucket w)"
  by (auto simp: isAbsent_def StatObject_def stat_honest_def split: option.splits if_splits)

lemma PutObject_effect:
  assumes "PutObject e k w = (x, w')"
  shows "w_db w' = w_db w" "x \<noteq> None \<Longrightarrow> w' = w" "x = None \<Longrightarrow> set (bucket w') = insert k (set (bucket w))"
  using assms by (auto simp: PutObject_def split: option.splits if_splits)

lemma RemoveObject_effect:
  assumes "RemoveObject e k w = (x, w')"
  shows "w_db w' = w_db w" "x \<noteq> None \<Longrightarrow> w' = w" "x = None \<Longrightarrow> set (bucket w') = set (bucket w) - {k}"
  using assms by (auto simp: RemoveObject_def split: option.splits if_splits)

end
