(* ===== verification/Multipart.thy ===== *)
theory Multipart
  imports Keys World
begin

text \<open>
  Multipart uploads on the server: how many parts an upload gets (\<open>src/server/pending_multipart.go\<close>)
  and the checks on a request for more parts (\<open>src/server/uploads.go\<close>). Sizes are \<open>uint64\<close> words; part
  numbers are of type \<open>int\<close>, 64 bits wide in Go, with the wrap of each sum written out.
\<close>

definition multipartPartSize :: u64 where
  "multipartPartSize = 10 * 1024 * 1024"

definition useSimpleUpload :: "u64 \<Rightarrow> bool" where
  "useSimpleUpload narSize \<longleftrightarrow> 0 < narSize \<and> narSize \<le> multipartPartSize"

definition estimatePartsNeeded :: "u64 \<Rightarrow> int" where
  "estimatePartsNeeded narSize =
     (if narSize = 0 then 10
      else (let partsU64 = (narSize + multipartPartSize - 1) div multipartPartSize;
                partsU64 = partsU64 + partsU64 div 5
            in if 100 < partsU64 then 100
               else (let parts = uint partsU64 in if parts < 2 then 2 else parts)))"

text \<open>\<open>generatePartURLs\<close>: one presigned URL per part, numbered from the start part.\<close>

fun generatePartURLs_from ::
  "env \<Rightarrow> string \<Rightarrow> string \<Rightarrow> int \<Rightarrow> nat \<Rightarrow> nat \<Rightarrow> world \<Rightarrow> (go_error + string list) \<times> world" where
  "generatePartURLs_from e key upload_id startPart i 0 w = (Inr [], w)"
| "generatePartURLs_from e key upload_id startPart i (Suc n) w =
     (let partNumber = to_i64 (startPart + int i) in
      if wait_fault e key then (Inl (OtherError ''rate limiter''), w)
      else (case presign_part e key upload_id partNumber of
              Inl r \<Rightarrow> (Inl (S3Error r), note_error r w)
            | Inr url \<Rightarrow>
                (case generatePartURLs_from e key upload_id startPart (i + 1) n (record_success w) of
                   (Inl err, w) \<Rightarrow> (Inl err, w)
                 | (Inr urls, w) \<Rightarrow> (Inr (url # urls), w))))"

definition generatePartURLs ::
  "env \<Rightarrow> string \<Rightarrow> string \<Rightarrow> int \<Rightarrow> nat \<Rightarrow> world \<Rightarrow> (go_error + string list) \<times> world" where
  "generatePartURLs e key upload_id startPart numParts = generatePartURLs_from e key upload_id startPart 0 numParts"

record MultipartUploadInfo =
  mi_upload_id :: string
  mi_part_urls :: "string list"

record PendingObject =
  po_type :: string
  po_presigned_url :: string
  po_multipart :: "MultipartUploadInfo option"

definition createMultipartUpload ::
  "env \<Rightarrow> int \<Rightarrow> string \<Rightarrow> u64 \<Rightarrow> world \<Rightarrow> (go_error + PendingObject) \<times> world" where
  "createMultipartUpload e pending_id objectKey narSize w =
     (let numParts = estimatePartsNeeded narSize in
      if wait_fault e objectKey then (Inl (OtherError ''rate limiter''), w)
      else (case new_multipart e objectKey of
              Inl r \<Rightarrow> (Inl (S3Error r), note_error r w)
            | Inr uploadID \<Rightarrow>
                (let w = record_success (w\<lparr>uploads := (objectKey, uploadID) # uploads w\<rparr>) in
                 case (if db_fault e ''InsertMultipartUpload'' then Inl ConnectionError
                       else InsertMultipartUpload pending_id objectKey uploadID (w_db w)) of
                   Inl err \<Rightarrow> (Inl (DbError err), abortMultipartUpload e objectKey uploadID w)
                 | Inr d \<Rightarrow>
                     (let w = w\<lparr>w_db := d\<rparr> in
                      case generatePartURLs e objectKey uploadID 1 (nat numParts) w of
                        (Inl err, w) \<Rightarrow> (Inl err, abortMultipartUpload e objectKey uploadID w)
                      | (Inr urls, w) \<Rightarrow>
                          (Inr \<lparr>po_type = '''', po_presigned_url = '''',
                                po_multipart = Some \<lparr>mi_upload_id = uploadID, mi_part_urls = urls\<rparr>\<rparr>, w)))))"

text \<open>Looking up the tracked upload a request names.\<close>

definition getValidMultipartUpload :: "env \<Rightarrow> string \<Rightarrow> string \<Rightarrow> world \<Rightarrow> (nat \<times> string) + multipart_row" where
  "getValidMultipartUpload e objectKey uploadID w =
     (if objectKey = '''' then Inl (400, ''missing object_key'')
      else if \<not> IsValidUploadKey objectKey ''nar'' then Inl (400, ''invalid object key'')
      else if uploadID = '''' then Inl (400, ''missing upload_id'')
      else (case (if db_fault e ''GetMultipartUpload'' then Inl ConnectionError
                  else GetMultipartUpload uploadID objectKey (w_db w)) of
              Inl _ \<Rightarrow> Inl (404, ''multipart upload not found'')
            | Inr m \<Rightarrow> Inr m))"

record requestPartsRequest =
  rp_object_key :: string
  rp_upload_id :: string
  rp_start :: int
  rp_num :: int

definition RequestMorePartsHandler ::
  "env \<Rightarrow> requestPartsRequest \<Rightarrow> world \<Rightarrow> (string list \<times> int) reply \<times> world" where
  "RequestMorePartsHandler e req w =
     (if rp_start req \<le> 0 then (HttpError 400 ''start_part_number must be positive'', w)
      else if rp_num req \<le> 0 \<or> 1000 < rp_num req then (HttpError 400 ''num_parts must be between 1 and 1000'', w)
      else (let endPart = to_i64 (to_i64 (rp_start req + rp_num req) - 1) in
            if 10000 < endPart then (HttpError 400 ''requested parts exceed S3 maximum of 10000'', w)
            else (case getValidMultipartUpload e (rp_object_key req) (rp_upload_id req) w of
                    Inl (code, msg) \<Rightarrow> (HttpError code msg, w)
                  | Inr m \<Rightarrow>
                      (case generatePartURLs e (rp_object_key req) (rp_upload_id req) (rp_start req)
                              (nat (rp_num req)) w of
                         (Inl err, w) \<Rightarrow>
                           (case handleS3Error err w of
                              Some reply \<Rightarrow> reply
                            | None \<Rightarrow> (HttpError 500 ''failed to generate part URLs'', w))
                       | (Inr urls, w) \<Rightarrow> (HttpOk 200 (urls, rp_start req), w)))))"

text \<open>
  The client's part size (\<open>src/client/multipart.go\<close>): 9000 parts cover the uncompressed size, in
  steps of 16 MiB, between 10 MiB and the 5 GiB S3 allows.
\<close>

definition targetMaxParts :: u64 where
  "targetMaxParts = 9000"

definition maxPartSize :: u64 where
  "maxPartSize = 5 * 1024 * 1024 * 1024"

definition partSizeForNAR :: "u64 \<Rightarrow> int" where
  "partSizeForNAR narSize =
     (let step = 16 * 1024 * 1024;
          size = (narSize + targetMaxParts - 1) div targetMaxParts
      in if size \<le> multipartPartSize then uint multipartPartSize
         else (let size = (size + step - 1) div step * step in
               if maxPartSize < size then uint maxPartSize else uint size))"

section \<open>The part estimate\<close>

lemma uint_size_sum:
  assumes "uint narSize \<le> 2 ^ 64 - 10485760"
  shows "uint (narSize + multipartPartSize - 1) = uint narSize + 10485759"
proof -
  have "uint (narSize + 10485759) = uint narSize + 10485759"
    using assms by (subst uint_plus_if') simp
  moreover have "narSize + multipartPartSize - 1 = narSize + 10485759"
    by (simp add: multipartPartSize_def)
  ultimately show ?thesis by (simp only:)
qed

lemma uint_parts:
  assumes "uint narSize \<le> 2 ^ 64 - 10485760"
  defines "p \<equiv> (narSize + multipartPartSize - 1) div multipartPartSize"
  shows "uint p = (uint narSize + 10485759) div 10485760"
    and "uint (p + p div 5) = uint p + uint p div 5"
proof -
  show p: "uint p = (uint narSize + 10485759) div 10485760"
    using uint_size_sum [OF assms(1)] by (simp add: p_def uint_div multipartPartSize_def)
  have "uint p \<le> 2 ^ 41"
  proof -
    have "(uint narSize + 10485759) div 10485760 \<le> 2 ^ 64 div 10485760"
      using assms(1) by (intro zdiv_mono1) auto
    with p show ?thesis by simp
  qed
  moreover from this have "uint p div 5 \<le> 2 ^ 41" using pos_imp_zdiv_nonneg_iff [of 5 "uint p"] by simp
  ultimately have "uint p + uint (p div 5) < 2 ^ 64" by (simp add: uint_div)
  then show "uint (p + p div 5) = uint p + uint p div 5"
    by (simp add: uint_plus_if' uint_div)
qed

lemma estimate_value:
  assumes "0 < uint narSize" "uint narSize \<le> 2 ^ 64 - 10485760"
  defines "c \<equiv> (uint narSize + 10485759) div 10485760"
  shows "estimatePartsNeeded narSize = min 100 (max 2 (c + c div 5))"
proof -
  have nz: "narSize \<noteq> 0" using assms(1) by auto
  define p where "p = (narSize + multipartPartSize - 1) div multipartPartSize"
  have p: "uint (p + p div 5) = c + c div 5"
    using uint_parts [OF assms(2)] by (simp add: p_def c_def)
  have "100 < p + p div 5 \<longleftrightarrow> 100 < c + c div 5"
    using p by (simp add: word_less_def)
  then show ?thesis
    using nz p unfolding estimatePartsNeeded_def Let_def p_def [symmetric] by auto
qed

lemma uint_part_size:
  assumes "uint narSize \<le> 9000 * 5368709120"
  defines "q \<equiv> (narSize + targetMaxParts - 1) div targetMaxParts"
  shows "uint q = (uint narSize + 8999) div 9000" and "uint q \<le> 5368709120"
proof -
  have "uint (narSize + 8999) = uint narSize + 8999"
    using assms(1) by (subst uint_plus_if') simp
  moreover have "narSize + targetMaxParts - 1 = narSize + 8999"
    by (simp add: targetMaxParts_def)
  ultimately have "uint (narSize + targetMaxParts - 1) = uint narSize + 8999" by (simp only:)
  then show q: "uint q = (uint narSize + 8999) div 9000"
    by (simp add: q_def uint_div targetMaxParts_def)
  show "uint q \<le> 5368709120" unfolding q using assms(1) by linarith
qed

lemma uint_round_up:
  assumes "uint (q :: u64) \<le> 5368709120"
  shows "uint ((q + 16777216 - 1) div 16777216 * 16777216) = (uint q + 16777215) div 16777216 * 16777216"
proof -
  have s: "uint (16777215 + q) = 16777215 + uint q"
    using assms by (subst uint_plus_if') simp
  have "(uint q + 16777215) div 16777216 * 16777216 \<le> uint q + 16777215"
    by (simp flip: minus_mod_eq_div_mult)
  moreover have "0 \<le> (uint q + 16777215) div 16777216 * 16777216"
    by (simp add: pos_imp_zdiv_nonneg_iff)
  ultimately have "(uint q + 16777215) div 16777216 * 16777216 mod 2 ^ LENGTH(64)
      = (uint q + 16777215) div 16777216 * 16777216"
    using assms by (intro mod_pos_pos_trivial) auto
  moreover have "uint ((q + 16777216 - 1) div 16777216 * 16777216)
      = uint ((16777215 + q) div 16777216) * uint (16777216 :: u64) mod 2 ^ LENGTH(64)"
    by (subst uint_word_ariths(3)) simp
  moreover have "uint ((16777215 + q) div 16777216) = (uint q + 16777215) div 16777216"
  proof -
    have n: "uint (16777216 :: u64) = 16777216" by simp
    show ?thesis unfolding uint_div s n by (simp only: add.commute)
  qed
  ultimately show ?thesis by simp
qed

section \<open>Properties\<close>

text \<open>
  The parts a new upload gets up front are between 2 and 100 for every reported size, and for
  a size up to 100 parts' worth, short of the wrap of the 64-bit sum, they hold the whole NAR.
\<close>
theorem estimatePartsNeeded_bounds:
  assumes "useSimpleUpload narSize = False" "0 < narSize"
  shows "2 \<le> estimatePartsNeeded narSize \<and> estimatePartsNeeded narSize \<le> 100 \<and>
         (uint narSize \<le> 100 * 10485760 \<longrightarrow> uint narSize \<le> estimatePartsNeeded narSize * 10485760)"
proof (intro conjI impI)
  show "2 \<le> estimatePartsNeeded narSize"
    by (auto simp: estimatePartsNeeded_def Let_def)
  show "estimatePartsNeeded narSize \<le> 100"
    by (auto simp: estimatePartsNeeded_def Let_def word_less_def)
next
  assume small: "uint narSize \<le> 100 * 10485760"
  from assms(2) have pos: "0 < uint narSize" by (simp add: word_less_def)
  define c where "c = (uint narSize + 10485759) div 10485760"
  have "c \<le> 100" "uint narSize \<le> c * 10485760" using small by (simp_all add: c_def)
  moreover have "estimatePartsNeeded narSize = min 100 (max 2 (c + c div 5))"
    unfolding c_def using pos small by (intro estimate_value) auto
  moreover have "0 \<le> c div 5" using calculation(2) pos by (simp add: pos_imp_zdiv_nonneg_iff c_def)
  ultimately have "c \<le> estimatePartsNeeded narSize" by simp
  with \<open>uint narSize \<le> c * 10485760\<close> show "uint narSize \<le> estimatePartsNeeded narSize * 10485760"
    by linarith
qed

theorem estimatePartsNeeded_bounds_witness:
  "2 \<le> estimatePartsNeeded 20000000 \<and> 20000000 \<le> estimatePartsNeeded 20000000 * 10485760"
  using estimatePartsNeeded_bounds [of 20000000] by (simp add: useSimpleUpload_def multipartPartSize_def)

text \<open>
  For every NAR S3 can hold in 9000 parts of 5 GiB the client's part size is between 10 MiB
  and 5 GiB and cuts the NAR into at most 9000 parts, 1000 below the limit of S3.
\<close>
theorem partSizeForNAR_fits:
  assumes "uint narSize \<le> 9000 * 5368709120"
  shows "10485760 \<le> partSizeForNAR narSize \<and> partSizeForNAR narSize \<le> 5368709120 \<and>
         (uint narSize + partSizeForNAR narSize - 1) div partSizeForNAR narSize \<le> 9000"
proof -
  define q where "q = (narSize + targetMaxParts - 1) div targetMaxParts"
  have q: "uint q = (uint narSize + 8999) div 9000" "uint q \<le> 5368709120"
    unfolding q_def by (rule uint_part_size [OF assms])+
  define p where "p = partSizeForNAR narSize"
  have "10485760 \<le> p \<and> p \<le> 5368709120 \<and> uint q \<le> p"
  proof (cases "q \<le> multipartPartSize")
    case True
    then have "p = 10485760" "uint q \<le> 10485760"
      by (simp_all add: p_def partSizeForNAR_def q_def [symmetric] Let_def multipartPartSize_def word_le_def)
    then show ?thesis by simp
  next
    case False
    then have big: "10485760 < uint q" by (simp add: multipartPartSize_def word_le_def)
    let ?r = "(uint q + 16777215) div 16777216 * 16777216"
    have "(uint q + 16777215) mod 16777216 \<le> 16777215" using pos_mod_bound [of 16777216] by simp
    then have r1: "uint q \<le> ?r" by (simp flip: minus_mod_eq_div_mult)
    have "(uint q + 16777215) div 16777216 \<le> (5368709120 + 16777215) div 16777216"
      using q(2) by (intro zdiv_mono1) auto
    with r1 have r: "uint q \<le> ?r" "?r \<le> 5368709120" by simp_all
    have "uint ((q + 16777216 - 1) div 16777216 * 16777216) = ?r" by (rule uint_round_up [OF q(2)])
    moreover from this r have "\<not> maxPartSize < (q + 16777216 - 1) div 16777216 * 16777216"
      by (simp add: word_less_def maxPartSize_def)
    ultimately have "p = ?r"
      using False by (simp add: p_def partSizeForNAR_def q_def [symmetric] Let_def)
    with r big show ?thesis by simp
  qed
  moreover from this q have "uint narSize \<le> 9000 * p" by linarith
  moreover from this calculation have "(uint narSize + p - 1) div p \<le> (9000 * p + p - 1) div p"
    by (intro zdiv_mono1) auto
  moreover have "(9000 * p + p - 1) div p = 9000" if "10485760 \<le> p"
    using that by (intro int_div_pos_eq [of _ _ _ "p - 1"]) auto
  ultimately show ?thesis by (simp add: p_def)
qed

theorem partSizeForNAR_fits_witness:
  "(uint (200000000000 :: u64) + partSizeForNAR 200000000000 - 1) div partSizeForNAR 200000000000 \<le> 9000"
proof -
  have "uint (200000000000 :: u64) \<le> 9000 * 5368709120" by simp
  from partSizeForNAR_fits [OF this] show ?thesis by blast
qed

lemma generatePartURLs_from_ok:
  "generatePartURLs_from e key u s i n w = (Inr urls, w') \<Longrightarrow>
   length urls = n \<and> (\<forall>j < n. presign_part e key u (to_i64 (s + int (i + j))) = Inr (urls ! j))"
proof (induction n arbitrary: i w urls w')
  case (Suc n)
  from Suc.prems obtain url rest where u: "presign_part e key u (to_i64 (s + int i)) = Inr url"
    "generatePartURLs_from e key u s (i + 1) n (record_success w) = (Inr rest, w')" "urls = url # rest"
    by (auto simp: Let_def split: if_splits sum.splits prod.splits)
  from Suc.IH [OF u(2)] u(1,3) show ?case
    by (auto simp: less_Suc_eq_0_disj add.assoc add.left_commute)
qed simp

lemma GetMultipartUpload_row:
  "GetMultipartUpload u k d = Inr m \<Longrightarrow> m \<in> set (multipart_uploads d) \<and> mu_upload_id m = u \<and> mu_object_key m = k"
  by (auto simp: GetMultipartUpload_def split: list.splits dest: filter_eq_ConsD)

lemma getValidMultipartUpload_row:
  "getValidMultipartUpload e k u w = Inr m \<Longrightarrow>
   IsValidUploadKey k ''nar'' \<and> m \<in> set (multipart_uploads (w_db w)) \<and> mu_upload_id m = u \<and> mu_object_key m = k"
  using GetMultipartUpload_row [of u k "w_db w" m]
  by (auto simp: getValidMultipartUpload_def split: if_splits sum.splits)

text \<open>
  A request for more parts that succeeds names a tracked NAR upload and gets as many URLs as
  it asked for, one per consecutive part number. Short of the wrap of the 64-bit sum these are
  numbers S3 accepts, from 1 to 10000.
\<close>
theorem RequestMorePartsHandler_parts:
  assumes "RequestMorePartsHandler e req w = (HttpOk code (urls, start), w')"
    and "rp_start req \<le> 2 ^ 63 - 1 - 1000"
  shows "(\<exists>m \<in> set (multipart_uploads (w_db w)).
            mu_object_key m = rp_object_key req \<and> mu_upload_id m = rp_upload_id req \<and>
            IsValidUploadKey (mu_object_key m) ''nar'') \<and>
         int (length urls) = rp_num req \<and>
         (\<forall>j < length urls. 1 \<le> rp_start req + int j \<and> rp_start req + int j \<le> 10000 \<and>
            presign_part e (rp_object_key req) (rp_upload_id req) (rp_start req + int j) = Inr (urls ! j))"
proof -
  let ?s = "rp_start req" and ?n = "rp_num req"
  from assms(1) obtain m where lim: "0 < ?s" "0 < ?n" "?n \<le> 1000" "to_i64 (to_i64 (?s + ?n) - 1) \<le> 10000"
    and m: "getValidMultipartUpload e (rp_object_key req) (rp_upload_id req) w = Inr m"
    and gen: "generatePartURLs e (rp_object_key req) (rp_upload_id req) ?s (nat ?n) w = (Inr urls, w')"
    by (auto simp: RequestMorePartsHandler_def Let_def handleS3Error_def not_le
        split: if_splits sum.splits prod.splits option.splits)
  from assms(2) lim have "to_i64 (?s + ?n) = ?s + ?n" "to_i64 (?s + ?n - 1) = ?s + ?n - 1"
    by (auto intro!: to_i64_id)
  with lim have end_part: "?s + ?n - 1 \<le> 10000" by simp
  from generatePartURLs_from_ok [OF gen [unfolded generatePartURLs_def]]
  have urls: "length urls = nat ?n"
    "\<And>j. j < nat ?n \<Longrightarrow> presign_part e (rp_object_key req) (rp_upload_id req) (to_i64 (?s + int j)) = Inr (urls ! j)"
    by auto
  have "to_i64 (?s + int j) = ?s + int j" if "j < nat ?n" for j
    using that lim end_part by (intro to_i64_id) auto
  with urls have "\<forall>j < length urls. presign_part e (rp_object_key req) (rp_upload_id req) (?s + int j) = Inr (urls ! j)"
    by simp
  moreover have "\<forall>j < length urls. 1 \<le> ?s + int j \<and> ?s + int j \<le> 10000"
    using lim end_part urls(1) by auto
  ultimately show ?thesis using getValidMultipartUpload_row [OF m] lim urls(1) by auto
qed

text \<open>A world with one tracked upload, for the witness and the overflow below.\<close>

definition nar_key_example :: string where
  "nar_key_example = ''nar/'' @ replicate 52 CHR ''0'' @ ''.nar.zst''"

lemma nar_key_example_valid: "IsValidUploadKey nar_key_example ''nar''"
proof -
  have "MatchString narRe nar_key_example"
    unfolding narRe_iff nar_key_example_def
    by (intro exI [of _ "replicate 52 CHR ''0''"] exI [of _ "''.zst''"]) (simp add: NixBase32Alphabet_def)
  moreover have "\<not> contains_str nar_key_example ''/../''" "\<not> has_suffix nar_key_example ''/..''"
    by (simp_all add: nar_key_example_def has_suffix_def numeral_eq_Suc)
  ultimately show ?thesis by (simp add: IsValidUploadKey_def nar_key_example_def)
qed

definition tracked_world :: world where
  "tracked_world = empty_world\<lparr>w_db := empty_db\<lparr>multipart_uploads :=
     [\<lparr>mu_pending_closure_id = 1, mu_object_key = nar_key_example, mu_upload_id = ''u''\<rparr>]\<rparr>\<rparr>"

lemma tracked_upload:
  "getValidMultipartUpload (quiet 0) nar_key_example ''u'' tracked_world =
   Inr \<lparr>mu_pending_closure_id = 1, mu_object_key = nar_key_example, mu_upload_id = ''u''\<rparr>"
  using nar_key_example_valid
  by (simp add: getValidMultipartUpload_def quiet_def GetMultipartUpload_def tracked_world_def nar_key_example_def)

theorem RequestMorePartsHandler_parts_witness:
  "presign_part (quiet 0) nar_key_example ''u'' 42 = Inr (''https://s3/'' @ nar_key_example)"
proof -
  define req where "req = \<lparr>rp_object_key = nar_key_example, rp_upload_id = ''u'', rp_start = 42, rp_num = 1\<rparr>"
  have "RequestMorePartsHandler (quiet 0) req tracked_world
      = (HttpOk 200 ([''https://s3/'' @ nar_key_example], 42), record_success tracked_world)"
    using tracked_upload
    by (simp add: RequestMorePartsHandler_def req_def generatePartURLs_def to_i64_id quiet_def Let_def)
  from RequestMorePartsHandler_parts [OF this] show ?thesis by (simp add: req_def)
qed

text \<open>
  The check against the limit of 10000 parts can be passed with numbers far above it. The sum
  of the first part and the count wraps, so a first part near \<open>2^63\<close> makes the last part negative,
  and the server signs the parts \<open>2^63 - 1\<close> and \<open>-2^63\<close>.
\<close>
theorem RequestMorePartsHandler_overflow:
  "\<exists>urls w'. RequestMorePartsHandler (quiet 0)
       \<lparr>rp_object_key = nar_key_example, rp_upload_id = ''u'', rp_start = 2 ^ 63 - 1, rp_num = 2\<rparr> tracked_world
     = (HttpOk 200 (urls, 2 ^ 63 - 1), w') \<and> length urls = 2"
proof -
  have "to_i64 (2 ^ 63 - 1 + 2) = - (2 ^ 63) + 1" "to_i64 (- (2 ^ 63) + 1 - 1) = - (2 ^ 63)"
    by (simp_all add: to_i64_def)
  with tracked_upload show ?thesis
    by (simp add: RequestMorePartsHandler_def generatePartURLs_def quiet_def Let_def numeral_2_eq_2)
qed

end
