(* ===== verification/Pending.thy ===== *)
theory Pending
  imports Multipart
begin

text \<open>
  Starting and committing a push: \<open>src/server/pending_closure.go\<close>. The pending rows are written
  first, so that they shield every object from the collector, and only then the server decides
  what the client still has to upload. Where Go runs S3 calls in a worker pool the model runs them
  in list order.
\<close>

section \<open>Starting a push\<close>

record objectWithRefs =
  ow_key :: string
  ow_type :: string
  ow_refs :: "string list"
  ow_nar_size :: "u64 option"

record PendingClosure =
  pcl_id :: int
  pcl_started_at :: time
  pcl_pending :: "(string \<times> pending_object_row) list"

record PendingClosureResponse =
  pr_id :: string
  pr_started_at :: time
  pr_pending_objects :: "(string \<times> PendingObject) list"

text \<open>A size beyond \<open>int64\<close> does not fit the column and is unknown.\<close>

definition optionalSize :: "u64 option \<Rightarrow> int option" where
  "optionalSize sz = (case sz of None \<Rightarrow> None | Some n \<Rightarrow> if 2 ^ 63 - 1 < uint n then None else Some (uint n))"

text \<open>
  \<open>checkS3ObjectsExist\<close>: the keys S3 lacks; the first error other than \<open>NoSuchKey\<close> ends it.
\<close>

fun checkS3ObjectsExist :: "env \<Rightarrow> string list \<Rightarrow> world \<Rightarrow> (go_error + string list) \<times> world" where
  "checkS3ObjectsExist e [] w = (Inr [], w)"
| "checkS3ObjectsExist e (key # keys) w =
     (if wait_fault e key then (Inl (OtherError ''rate limiter''), w)
      else (case StatObject e w key of
              None \<Rightarrow> checkS3ObjectsExist e keys (record_success w)
            | Some r \<Rightarrow>
                (let w = note_error r w in
                 if err_code r = ''NoSuchKey''
                 then (case checkS3ObjectsExist e keys (record_success w) of
                         (Inl err, w) \<Rightarrow> (Inl err, w)
                       | (Inr missing, w) \<Rightarrow> (Inr (key # missing), w))
                 else (Inl (S3Error r), w))))"

definition dropMissingFromS3 :: "env \<Rightarrow> string list \<Rightarrow> world \<Rightarrow> (go_error + string list) \<times> world" where
  "dropMissingFromS3 e present w =
     (if present = [] then (Inr [], w)
      else (case checkS3ObjectsExist e present w of
              (Inl err, w) \<Rightarrow> (Inl err, w)
            | (Inr missing, w) \<Rightarrow> (Inr (filter (\<lambda>k. k \<notin> set missing) present), w)))"

text \<open>What the client must upload: rows not live in the database, and with \<open>verifyS3\<close> those S3 lacks.\<close>

definition objectsToUpload ::
  "env \<Rightarrow> (string \<times> pending_object_row) list \<Rightarrow> bool \<Rightarrow> world \<Rightarrow>
   (go_error + (string \<times> pending_object_row) list) \<times> world" where
  "objectsToUpload e allObjects verifyS3 w =
     (if db_fault e ''GetExistingObjects'' then (Inl (DbError ConnectionError), w)
      else (let existing = GetExistingObjects (now e) (List.map fst allObjects) (w_db w);
                present = List.map fst (filter (\<lambda>(k, deleted). deleted = None) existing)
            in case (if verifyS3 then dropMissingFromS3 e present w else (Inr present, w)) of
                 (Inl err, w) \<Rightarrow> (Inl err, w)
               | (Inr present, w) \<Rightarrow> (Inr (filter (\<lambda>(k, r). k \<notin> set present) allObjects), w)))"

definition pending_row :: "objectWithRefs \<Rightarrow> pending_object_row" where
  "pending_row obj = \<lparr>po_refs = ow_refs obj, po_size = optionalSize (ow_nar_size obj)\<rparr>"

text \<open>One transaction: the closure row and a pending row for each object, or nothing.\<close>

definition insertPendingClosure ::
  "env \<Rightarrow> string \<Rightarrow> string list option \<Rightarrow> (string \<times> objectWithRefs) list \<Rightarrow> world \<Rightarrow>
   (go_error + (int \<times> pending_closure_row) \<times> (string \<times> pending_object_row) list) \<times> world" where
  "insertPendingClosure e closureKey roots objectsMap w =
     (if db_fault e ''Begin'' then (Inl (DbError ConnectionError), w)
      else if db_fault e ''InsertPush'' then (Inl (DbError ConnectionError), w)
      else (let ((i, row), d) = (case roots of
                  Some rs \<Rightarrow> InsertPush (now e) closureKey rs (w_db w)
                | None \<Rightarrow> InsertPendingClosure (now e) closureKey (w_db w));
                allObjects = List.map (\<lambda>(k, obj). (k, pending_row obj)) objectsMap
            in case (if db_fault e ''InsertPendingObjects'' then Inl ConnectionError
                     else InsertPendingObjects i allObjects d) of
                 Inl err \<Rightarrow> (Inl (DbError err), w)
               | Inr d \<Rightarrow>
                   if db_fault e ''Commit'' then (Inl (DbError ConnectionError), w)
                   else (Inr ((i, row), allObjects), w\<lparr>w_db := d\<rparr>)))"

definition createPendingClosureInner ::
  "env \<Rightarrow> string \<Rightarrow> string list option \<Rightarrow> (string \<times> objectWithRefs) list \<Rightarrow> bool \<Rightarrow> world \<Rightarrow>
   (go_error + PendingClosure) \<times> world" where
  "createPendingClosureInner e closureKey roots objectsMap verifyS3 w =
     (if \<not> has_suffix closureKey ''.narinfo''
      then (Inl (OtherError ''closure key must end with .narinfo''), w)
      else (case insertPendingClosure e closureKey roots objectsMap w of
              (Inl err, w) \<Rightarrow> (Inl err, w)
            | (Inr ((i, row), allObjects), w) \<Rightarrow>
                (case objectsToUpload e allObjects verifyS3 w of
                   (Inl err, w) \<Rightarrow>
                     (Inl err, if db_fault e ''DeletePendingClosure'' then w
                               else w\<lparr>w_db := DeletePendingClosure i (w_db w)\<rparr>)
                 | (Inr upload, w) \<Rightarrow>
                     (Inr \<lparr>pcl_id = i, pcl_started_at = pc_started_at row, pcl_pending = upload\<rparr>, w))))"

definition makePresignedURL :: "env \<Rightarrow> string \<Rightarrow> string \<Rightarrow> world \<Rightarrow> (go_error + PendingObject) \<times> world" where
  "makePresignedURL e objectKey objectType w =
     (if wait_fault e objectKey then (Inl (OtherError ''rate limiter''), w)
      else (case presign e objectKey of
              Inl r \<Rightarrow> (Inl (S3Error r), note_error r w)
            | Inr url \<Rightarrow>
                (Inr \<lparr>po_type = objectType, po_presigned_url = url, po_multipart = None\<rparr>, record_success w)))"

definition needs_multipart :: "objectWithRefs \<Rightarrow> bool" where
  "needs_multipart obj \<longleftrightarrow> ow_type obj = ''nar'' \<and>
     \<not> useSimpleUpload (case ow_nar_size obj of None \<Rightarrow> 0 | Some n \<Rightarrow> n)"

text \<open>First the presigned URLs of the small objects, then the multipart uploads of large NARs.\<close>

fun presign_all ::
  "env \<Rightarrow> (string \<times> objectWithRefs) list \<Rightarrow> world \<Rightarrow> (go_error + (string \<times> PendingObject) list) \<times> world" where
  "presign_all e [] w = (Inr [], w)"
| "presign_all e ((k, obj) # objs) w =
     (case makePresignedURL e k (ow_type obj) w of
        (Inl err, w) \<Rightarrow> (Inl err, w)
      | (Inr po, w) \<Rightarrow>
          (case presign_all e objs w of
             (Inl err, w) \<Rightarrow> (Inl err, w)
           | (Inr pos, w) \<Rightarrow> (Inr ((k, po) # pos), w)))"

fun multipart_all ::
  "env \<Rightarrow> int \<Rightarrow> (string \<times> objectWithRefs) list \<Rightarrow> world \<Rightarrow> (go_error + (string \<times> PendingObject) list) \<times> world" where
  "multipart_all e i [] w = (Inr [], w)"
| "multipart_all e i ((k, obj) # objs) w =
     (case createMultipartUpload e i k (case ow_nar_size obj of None \<Rightarrow> 0 | Some n \<Rightarrow> n) w of
        (Inl err, w) \<Rightarrow> (Inl err, w)
      | (Inr po, w) \<Rightarrow>
          (case multipart_all e i objs w of
             (Inl err, w) \<Rightarrow> (Inl err, w)
           | (Inr pos, w) \<Rightarrow> (Inr ((k, po\<lparr>po_type := ''nar''\<rparr>) # pos), w)))"

definition createPendingObjects ::
  "env \<Rightarrow> int \<Rightarrow> (string \<times> pending_object_row) list \<Rightarrow> (string \<times> objectWithRefs) list \<Rightarrow> world \<Rightarrow>
   (go_error + (string \<times> PendingObject) list) \<times> world" where
  "createPendingObjects e i params objectsMap w =
     (let objs = List.map (\<lambda>(k, r). (k, the (map_of objectsMap k))) params in
      case presign_all e (filter (\<lambda>(k, obj). \<not> needs_multipart obj) objs) w of
        (Inl err, w) \<Rightarrow> (Inl err, w)
      | (Inr small, w) \<Rightarrow>
          (case multipart_all e i (filter (\<lambda>(k, obj). needs_multipart obj) objs) w of
             (Inl err, w) \<Rightarrow> (Inl err, w)
           | (Inr large, w) \<Rightarrow> (Inr (small @ large), w)))"

definition format_int :: "int \<Rightarrow> string" where
  "format_int n = (if n < 0 then CHR ''-'' # format_nat (nat (- n)) else format_nat (nat n))"

definition createPendingClosure ::
  "env \<Rightarrow> string \<Rightarrow> string list option \<Rightarrow> (string \<times> objectWithRefs) list \<Rightarrow> bool \<Rightarrow> world \<Rightarrow>
   (go_error + PendingClosureResponse) \<times> world" where
  "createPendingClosure e closureKey roots objectsMap verifyS3 w =
     (case createPendingClosureInner e closureKey roots objectsMap verifyS3 w of
        (Inl err, w) \<Rightarrow> (Inl err, w)
      | (Inr pc, w) \<Rightarrow>
          (case createPendingObjects e (pcl_id pc) (pcl_pending pc) objectsMap w of
             (Inl err, w) \<Rightarrow> (Inl err, w)
           | (Inr pos, w) \<Rightarrow>
               (Inr \<lparr>pr_id = format_int (pcl_id pc), pr_started_at = pcl_started_at pc,
                     pr_pending_objects = pos\<rparr>, w)))"

section \<open>Commit\<close>

text \<open>The error of a commit, with the not-found case singled out by the database's message.\<close>

definition commitPendingClosure :: "env \<Rightarrow> int \<Rightarrow> world \<Rightarrow> (go_error + nat) \<times> world" where
  "commitPendingClosure e i w =
     (case (if db_fault e ''CommitPendingClosure'' then Inl ConnectionError
            else CommitPendingClosure (now e) i (w_db w)) of
        Inl (ClosureDoesNotExist j) \<Rightarrow> (Inl (OtherError ''not found''), w)
      | Inl err \<Rightarrow> (Inl (DbError err), w)
      | Inr (folded, d) \<Rightarrow> (Inr folded, w\<lparr>w_db := d\<rparr>))"

section \<open>What starting a push establishes\<close>

lemma GetExistingObjects_keys:
  "(k, deleted) \<in> set (GetExistingObjects t keys d) \<Longrightarrow> k \<in> set keys \<and> k \<in> fst ` set (objects d)"
  by (force simp: GetExistingObjects_def)

lemma existing_live:
  assumes "db_inv d"
  shows "k \<in> set (List.map fst (filter (\<lambda>(k, deleted). deleted = None) (GetExistingObjects t keys d)))
         \<longleftrightarrow> k \<in> set keys \<and> live d k"
proof -
  have uniq: "(k, r) \<in> set (objects d) \<longleftrightarrow> object_of d k = Some r" for r
    using assms by (simp add: db_inv_def unique_keys_def)
  have "k \<in> set (List.map fst (filter (\<lambda>(k, deleted). deleted = None) (GetExistingObjects t keys d)))
        \<longleftrightarrow> k \<in> set keys \<and> (\<exists>r. (k, r) \<in> set (objects d) \<and> o_first_deleted_at r = None)"
    by (force simp: GetExistingObjects_def)
  also have "\<dots> \<longleftrightarrow> k \<in> set keys \<and> (\<exists>r. (k, r) \<in> set (objects d) \<and> alive r)"
    using assms by (auto simp: db_inv_def tombs_ok_def alive_def)
  also have "\<dots> \<longleftrightarrow> k \<in> set keys \<and> live d k"
    using uniq by (auto simp: live_def split: option.splits)
  finally show ?thesis .
qed

lemma checkS3_frame:
  "w_db (snd (checkS3ObjectsExist e keys w)) = w_db w \<and> bucket (snd (checkS3ObjectsExist e keys w)) = bucket w"
proof (induction keys arbitrary: w)
  case (Cons key keys)
  have "w_db w' = w_db w \<and> bucket w' = bucket w"
    if "checkS3ObjectsExist e keys (record_success (note_error r w)) = (x, w')" for r x w'
    using Cons.IH [of "record_success (note_error r w)"] that by simp
  with Cons.IH [of "record_success w"] show ?case
    by (auto simp: Let_def split: option.splits sum.splits prod.splits)
qed simp

lemma StatObject_note [simp]:
  "StatObject e (note_error r w) k = StatObject e w k" "StatObject e (record_success w) k = StatObject e w k"
  by (simp_all add: StatObject_def)

lemma checkS3_missing:
  "checkS3ObjectsExist e keys w = (Inr missing, w') \<Longrightarrow>
   k \<in> set keys \<Longrightarrow> k \<notin> set missing \<Longrightarrow> StatObject e w k = None"
proof (induction keys arbitrary: w missing w')
  case (Cons key keys)
  show ?case
  proof (cases "StatObject e w key")
    case None
    with Cons.prems have "checkS3ObjectsExist e keys (record_success w) = (Inr missing, w')"
      by (simp split: if_splits)
    from Cons.IH [OF this] Cons.prems None show ?thesis by auto
  next
    case (Some r)
    with Cons.prems obtain rest where
      "checkS3ObjectsExist e keys (record_success (note_error r w)) = (Inr rest, w')" "missing = key # rest"
      by (auto simp: Let_def split: if_splits sum.splits prod.splits)
    from Cons.IH [OF this(1)] this(2) Cons.prems show ?thesis by auto
  qed
qed simp

lemma dropMissing_frame:
  assumes "dropMissingFromS3 e present w = (res, w')"
  shows "w_db w' = w_db w \<and> bucket w' = bucket w"
proof (cases "present = []")
  case True
  with assms show ?thesis by (simp add: dropMissingFromS3_def)
next
  case False
  obtain x w'' where x: "checkS3ObjectsExist e present w = (x, w'')" by (cases "checkS3ObjectsExist e present w")
  with False assms have "w' = w''" by (simp add: dropMissingFromS3_def split: sum.splits)
  with x checkS3_frame [of e present w] show ?thesis by simp
qed

lemma objectsToUpload_frame:
  assumes "objectsToUpload e rows verify w = (res, w')"
  shows "w_db w' = w_db w \<and> bucket w' = bucket w"
proof -
  define present where "present = List.map fst (filter (\<lambda>(k, deleted). deleted = None)
    (GetExistingObjects (now e) (List.map fst rows) (w_db w)))"
  obtain p w'' where p: "dropMissingFromS3 e present w = (p, w'')" by (cases "dropMissingFromS3 e present w")
  have "w' = w \<or> w' = w''"
    using assms p unfolding objectsToUpload_def Let_def present_def [symmetric]
    by (cases verify) (simp_all split: if_splits sum.splits)
  with dropMissing_frame [OF p] show ?thesis by auto
qed

lemma objectsToUpload_skips_live:
  assumes "db_inv (w_db w)" "objectsToUpload e rows verify w = (Inr upload, w')"
    and "(k, r) \<in> set rows" "(k, r) \<notin> set upload"
  shows "live (w_db w) k" and "verify \<Longrightarrow> StatObject e w k = None"
proof -
  define present where "present = List.map fst (filter (\<lambda>(k, deleted). deleted = None)
    (GetExistingObjects (now e) (List.map fst rows) (w_db w)))"
  obtain p w'' where res: "(if verify then dropMissingFromS3 e present w else (Inr present, w)) = (Inr p, w'')"
    "upload = filter (\<lambda>(k, r). k \<notin> set p) rows"
    using assms(2)
    by (auto simp: objectsToUpload_def Let_def present_def [symmetric] split: if_splits sum.splits prod.splits)
  then have "set p \<subseteq> set present"
    by (auto simp: dropMissingFromS3_def split: if_splits sum.splits prod.splits)
  moreover have k: "k \<in> set p" using res(2) assms(3,4) by auto
  ultimately have "k \<in> set present" by blast
  then show "live (w_db w) k" unfolding present_def existing_live [OF assms(1)] by simp
  show "StatObject e w k = None" if verify
    using res(1) that k
    by (auto simp: dropMissingFromS3_def split: if_splits sum.splits prod.splits dest!: checkS3_missing)
qed

lemma insertPendingClosure_ok:
  assumes "insertPendingClosure e closureKey roots objectsMap w = (Inr ((i, row), rows), w')"
  shows "i = next_id (w_db w)" and "rows = List.map (\<lambda>(k, obj). (k, pending_row obj)) objectsMap"
    and "row = \<lparr>pc_key = closureKey, pc_started_at = now e, pc_roots = (case roots of None \<Rightarrow> [] | Some rs \<Rightarrow> rs)\<rparr>"
    and "w' = w\<lparr>w_db := (w_db w)\<lparr>pending_closures := pending_closures (w_db w) @ [(i, row)], next_id := i + 1,
           pending_objects := pending_objects (w_db w) @ List.map (\<lambda>(k, r). ((i, k), r)) rows\<rparr>\<rparr>"
proof -
  define rs where "rs = (case roots of None \<Rightarrow> [] | Some rs \<Rightarrow> rs)"
  have ins: "(case roots of Some rs \<Rightarrow> InsertPush (now e) closureKey rs (w_db w)
      | None \<Rightarrow> InsertPendingClosure (now e) closureKey (w_db w)) = InsertPush (now e) closureKey rs (w_db w)"
    by (simp add: rs_def InsertPendingClosure_def split: option.splits)
  define r where "r = \<lparr>pc_key = closureKey, pc_started_at = now e, pc_roots = rs\<rparr>"
  define d1 where "d1 = (w_db w)\<lparr>pending_closures := pending_closures (w_db w) @ [(next_id (w_db w), r)],
    next_id := next_id (w_db w) + 1\<rparr>"
  have push: "InsertPush (now e) closureKey rs (w_db w) = ((next_id (w_db w), r), d1)"
    by (simp add: InsertPush_def Let_def r_def d1_def)
  obtain d2 where d2: "InsertPendingObjects (next_id (w_db w)) (List.map (\<lambda>(k, obj). (k, pending_row obj)) objectsMap) d1 = Inr d2"
    and res: "((i, row), rows) = ((next_id (w_db w), r), List.map (\<lambda>(k, obj). (k, pending_row obj)) objectsMap)"
    and w': "w' = w\<lparr>w_db := d2\<rparr>"
  proof (cases "InsertPendingObjects (next_id (w_db w)) (List.map (\<lambda>(k, obj). (k, pending_row obj)) objectsMap) d1")
    case (Inl err)
    then show ?thesis
      using assms unfolding insertPendingClosure_def ins push Let_def prod.case
      by (cases "db_fault e ''Begin''"; cases "db_fault e ''InsertPush''"; cases "db_fault e ''InsertPendingObjects''") simp_all
  next
    case (Inr d2)
    then show ?thesis
      using assms that unfolding insertPendingClosure_def ins push Let_def prod.case
      by (cases "db_fault e ''Begin''"; cases "db_fault e ''InsertPush''"; cases "db_fault e ''InsertPendingObjects''";
          cases "db_fault e ''Commit''") simp_all
  qed
  have "d2 = d1\<lparr>pending_objects := pending_objects d1 @ List.map (\<lambda>(k, r). ((next_id (w_db w), k), r))
      (List.map (\<lambda>(k, obj). (k, pending_row obj)) objectsMap)\<rparr>"
    using d2 unfolding InsertPendingObjects_def by (simp del: map_map split: if_split_asm)
  with res w' show "i = next_id (w_db w)" "rows = List.map (\<lambda>(k, obj). (k, pending_row obj)) objectsMap"
    "row = \<lparr>pc_key = closureKey, pc_started_at = now e, pc_roots = (case roots of None \<Rightarrow> [] | Some rs \<Rightarrow> rs)\<rparr>"
    "w' = w\<lparr>w_db := (w_db w)\<lparr>pending_closures := pending_closures (w_db w) @ [(i, row)], next_id := i + 1,
       pending_objects := pending_objects (w_db w) @ List.map (\<lambda>(k, r). ((i, k), r)) rows\<rparr>\<rparr>"
    by (simp_all add: d1_def r_def rs_def del: map_map)
qed

lemma insertPendingClosure_inv:
  assumes "db_inv (w_db w)" "insertPendingClosure e closureKey roots objectsMap w = (res, w')"
  shows "db_inv (w_db w')"
proof (cases res)
  case (Inl err)
  with assms show ?thesis
    by (auto simp: insertPendingClosure_def Let_def split: if_splits sum.splits prod.splits)
next
  case (Inr x)
  let ?p = "case roots of Some rs \<Rightarrow> InsertPush (now e) closureKey rs (w_db w)
    | None \<Rightarrow> InsertPendingClosure (now e) closureKey (w_db w)"
  have "db_inv (snd ?p)" using assms(1) by (simp add: InsertPush_inv InsertPendingClosure_inv split: option.splits)
  moreover have "InsertPendingObjects (fst (fst ?p)) (List.map (\<lambda>(k, obj). (k, pending_row obj)) objectsMap) (snd ?p)
      = Inr (w_db w')"
    using assms(2) Inr
    by (auto simp: insertPendingClosure_def Let_def case_prod_beta split: if_splits sum.splits)
  ultimately show ?thesis by (rule InsertPendingObjects_inv)
qed

lemma insertPendingClosure_error:
  "insertPendingClosure e closureKey roots objectsMap w = (Inl err, w') \<Longrightarrow> w' = w"
  by (auto simp: insertPendingClosure_def Let_def case_prod_beta split: if_splits sum.splits)

lemma createPendingClosureInner_ok:
  assumes "createPendingClosureInner e closureKey roots objectsMap verify w = (Inr pc, w')"
  obtains row rows w1 where
    "insertPendingClosure e closureKey roots objectsMap w = (Inr ((pcl_id pc, row), rows), w1)"
    "objectsToUpload e rows verify w1 = (Inr (pcl_pending pc), w')"
    "has_suffix closureKey ''.narinfo''"
  using assms by (auto simp: createPendingClosureInner_def split: if_splits sum.splits prod.splits)

lemma fst_map_pair: "fst ` set (List.map (\<lambda>(k, x). (k, f x)) xs) = fst ` set xs"
  by (induction xs) auto

section \<open>Properties\<close>

text \<open>
  C6: a push that starts is shielded from the collector before it is told what to skip. When
  starting succeeds, every object of the push has a pending row under the new id, and an object the
  client is not asked to upload is live in the database and, with \<open>verify_s3\<close>, was answered present
  by S3. When starting fails, the tables are as before the call unless dropping the rows failed too.
\<close>
theorem createPendingClosure_shields:
  assumes "db_inv (w_db w)"
    and "createPendingClosureInner e closureKey roots objectsMap verify w = (res, w')"
  shows "(case res of
            Inr pc \<Rightarrow>
              pcl_id pc \<notin> pc_ids (w_db w) \<and> pcl_id pc \<in> pc_ids (w_db w') \<and>
              (\<forall>k \<in> fst ` set objectsMap. (pcl_id pc, k) \<in> fst ` set (pending_objects (w_db w'))) \<and>
              (\<forall>k \<in> fst ` set objectsMap. k \<notin> fst ` set (pcl_pending pc) \<longrightarrow>
                 live (w_db w') k \<and> (verify \<longrightarrow> StatObject e w k = None))
          | Inl err \<Rightarrow>
              \<not> db_fault e ''DeletePendingClosure'' \<longrightarrow>
                objects (w_db w') = objects (w_db w) \<and> closures (w_db w') = closures (w_db w) \<and>
                pending_closures (w_db w') = pending_closures (w_db w) \<and>
                pending_objects (w_db w') = pending_objects (w_db w))"
proof (cases res)
  case (Inr pc)
  with assms(2) obtain row rows w1 where
    ins: "insertPendingClosure e closureKey roots objectsMap w = (Inr ((pcl_id pc, row), rows), w1)"
    and up: "objectsToUpload e rows verify w1 = (Inr (pcl_pending pc), w')"
    by (auto elim: createPendingClosureInner_ok)
  note ok = insertPendingClosure_ok [OF ins]
  have inv: "db_inv (w_db w1)" by (rule insertPendingClosure_inv [OF assms(1) ins])
  have db: "w_db w' = w_db w1" using objectsToUpload_frame [OF up] by simp
  have fresh: "pcl_id pc \<notin> pc_ids (w_db w)"
    using assms(1) ok(1) by (auto simp: db_inv_def foreign_keys_def)
  have id: "pcl_id pc \<in> pc_ids (w_db w')" by (simp add: db ok(4) pc_ids_def)
  have keys: "fst ` set rows = fst ` set objectsMap"
    unfolding ok(2) by (rule fst_map_pair)
  have pend: "(pcl_id pc, k) \<in> fst ` set (pending_objects (w_db w'))" if "k \<in> fst ` set objectsMap" for k
    using that keys unfolding db ok(4) by force
  have skipped: "live (w_db w') k \<and> (verify \<longrightarrow> StatObject e w k = None)"
    if "k \<in> fst ` set objectsMap" "k \<notin> fst ` set (pcl_pending pc)" for k
  proof -
    from that(1) keys obtain r where r: "(k, r) \<in> set rows" by force
    with that(2) have "(k, r) \<notin> set (pcl_pending pc)" by force
    moreover have "StatObject e w1 k = StatObject e w k" by (simp add: StatObject_def ok(4))
    ultimately show ?thesis using objectsToUpload_skips_live [OF inv up r] db by auto
  qed
  show ?thesis using Inr fresh id pend skipped by auto
next
  case (Inl err)
  have drop: "filter (\<lambda>(i, r). i \<noteq> n) xs = xs" if "\<forall>(i, r) \<in> set xs. i < n" for n :: int and xs :: "(int \<times> pending_closure_row) list"
    using that by (induction xs) auto
  have drop2: "filter (\<lambda>((i, k), r). i \<noteq> n) xs = xs" if "\<forall>((i, k), r) \<in> set xs. i < n"
    for n :: int and xs :: "((int \<times> string) \<times> pending_object_row) list"
    using that by (induction xs) auto
  have below: "\<forall>(i, r) \<in> set (pending_closures (w_db w)). i < next_id (w_db w)"
    "\<forall>((i, k), r) \<in> set (pending_objects (w_db w)). i < next_id (w_db w)"
    using assms(1) by (fastforce simp: db_inv_def foreign_keys_def pc_ids_def po_ids_def image_subset_iff)+
  show ?thesis
  proof (cases "insertPendingClosure e closureKey roots objectsMap w")
    case (Pair r w1)
    show ?thesis
    proof (cases r)
      case (Inl err')
      with Pair insertPendingClosure_error have "w1 = w" by blast
      with Pair Inl assms(2) \<open>res = Inl err\<close> show ?thesis
        by (auto simp: createPendingClosureInner_def split: if_splits)
    next
      case (Inr x)
      then obtain i row rows where x: "r = Inr ((i, row), rows)" by (cases x) auto
      note ok = insertPendingClosure_ok [OF Pair [unfolded x]]
      obtain u w2 where u: "objectsToUpload e rows verify w1 = (u, w2)" by (cases "objectsToUpload e rows verify w1")
      have "w_db w2 = w_db w1" using objectsToUpload_frame [OF u] by simp
      then have "w' = (if db_fault e ''DeletePendingClosure'' then w2 else w2\<lparr>w_db := DeletePendingClosure i (w_db w1)\<rparr>) \<or> w' = w"
        using assms(2) Pair x u \<open>res = Inl err\<close>
        by (auto simp: createPendingClosureInner_def split: if_splits sum.splits)
      moreover have "filter (\<lambda>((j, k), r). j \<noteq> i) (List.map (\<lambda>(k, r). ((i, k), r)) rows) = []"
        by (auto simp: filter_empty_conv)
      ultimately show ?thesis
        using \<open>res = Inl err\<close> below drop drop2
        by (auto simp: DeletePendingClosure_def delete_pending_where_def ok(4) ok(1))
    qed
  qed
qed

definition one_object :: "(string \<times> objectWithRefs) list" where
  "one_object = [(''a.narinfo'', \<lparr>ow_key = ''a.narinfo'', ow_type = ''narinfo'', ow_refs = [], ow_nar_size = None\<rparr>)]"

lemma start_one_object:
  "fst (createPendingClosureInner (quiet 5) ''a.narinfo'' (Some [''a.narinfo'']) one_object False empty_world)
     = Inr \<lparr>pcl_id = 1, pcl_started_at = 5, pcl_pending = [(''a.narinfo'', \<lparr>po_refs = [], po_size = None\<rparr>)]\<rparr>"
  by code_simp

theorem createPendingClosure_shields_witness:
  "\<exists>pc w'. createPendingClosureInner (quiet 5) ''a.narinfo'' (Some [''a.narinfo'']) one_object False empty_world = (Inr pc, w') \<and>
     (pcl_id pc, ''a.narinfo'') \<in> fst ` set (pending_objects (w_db w'))"
proof -
  obtain pc w' where run: "createPendingClosureInner (quiet 5) ''a.narinfo'' (Some [''a.narinfo'']) one_object False empty_world
      = (Inr pc, w')" using start_one_object by (metis prod.collapse)
  have "db_inv (w_db empty_world)" by (simp add: empty_world_def db_inv_empty)
  from createPendingClosure_shields [OF this run] have "(pcl_id pc, ''a.narinfo'') \<in> fst ` set (pending_objects (w_db w'))"
    by (simp add: one_object_def)
  with run show ?thesis by blast
qed

text \<open>
  C3: completing a push publishes it as a whole. After \<open>commit_push\<close> every root is a live object and
  has a closure row of the commit's time, every object of the push is live and keeps at least the
  references the push reported, everything those objects refer to directly is live, no object that
  was live is lost, and the push has no pending rows left.
\<close>
theorem commit_push_publishes:
  assumes "db_inv d" "commit_push t i d = Inr (n, d')" "map_of (pending_closures d) i = Some pc"
  shows "(\<forall>k \<in> set (pc_roots pc). live d' k \<and> (k, t) \<in> set (closures d')) \<and>
         (\<forall>(k, r) \<in> set (pending_rows d i). live d' k \<and> set (po_refs r) \<subseteq> set (refs_of d' k) \<and>
            (\<forall>k' \<in> set (po_refs r). live d' k')) \<and>
         (\<forall>k. live d k \<longrightarrow> live d' k) \<and> (\<forall>k. (i, k) \<notin> fst ` set (pending_objects d')) \<and>
         n = length (pending_rows d i)"
proof -
  from assms(2,3) have miss: "commit_push_missing (pc_roots pc) (pending_rows d i) d = []"
    and com: "commit_pending_closure t i (upsert_closures t (pc_roots pc) d) = Inr (n, d')"
    by (auto elim: commit_pushE)
  note live' = live_commit_push [OF assms(2)]
  have own: "k \<in> fst ` set (pending_rows d i) \<longleftrightarrow> (i, k) \<in> fst ` set (pending_objects d)" for k
    by (rule pending_rows_keys)
  have covered: "live d' k" if "k \<in> set (pc_roots pc) \<or> (\<exists>(k', r) \<in> set (pending_rows d i). k \<in> set (po_refs r))" for k
    using miss that own live' unfolding commit_push_missing_def by (force simp: filter_empty_conv)
  have update: "(k, t) \<in> set (fold (\<lambda>k. AList.update k t) ks xs)" if "k \<in> set ks" for k ks and xs :: "(string \<times> time) list"
  proof -
    have "map_of (fold (\<lambda>k. AList.update k t) ks xs) k = Some t"
      using that by (induction ks arbitrary: xs rule: rev_induct) (auto simp: update_conv')
    then show ?thesis by (rule map_of_SomeD)
  qed
  from com obtain d'': "closures d' = fold (\<lambda>k. AList.update k t) (remdups [pc_key pc])
      (fold (\<lambda>k. AList.update k t) (remdups (pc_roots pc)) (closures d))"
    using assms(3) by (auto elim!: commit_pending_closureE simp: DeletePendingClosure_def upsert_closures_def)
  have roots: "(k, t) \<in> set (closures d')" if "k \<in> set (pc_roots pc)" for k
  proof -
    have eq: "closures d' = fold (\<lambda>k. AList.update k t) (remdups (pc_roots pc) @ [pc_key pc]) (closures d)"
      using d'' by simp
    show ?thesis unfolding eq using that by (intro update) simp
  qed
  have refs: "set (po_refs r) \<subseteq> set (refs_of d' k)" if "(k, r) \<in> set (pending_rows d i)" for k r
  proof -
    have dist: "distinct (List.map fst (pending_rows d i))" by (rule distinct_pending_rows [OF assms(1)])
    then have "map_of (pending_rows d i) k = Some r" using that by simp
    then have row: "map_of (List.map (\<lambda>(k, r). (k, new_object r)) (pending_rows d i)) k = Some (new_object r)"
      by (simp add: map_of_new_object)
    have "objects d' = objects (obj_upsert commit_conflict (List.map (\<lambda>(k, r). (k, new_object r)) (pending_rows d i))
        (upsert_closures t [pc_key pc] (upsert_closures t (pc_roots pc) d)))"
      using com assms(3) by (auto elim!: commit_pending_closureE simp: DeletePendingClosure_def)
    then show ?thesis
      by (auto simp: refs_of_def obj_upsert_lookup row commit_conflict_def merge_row_def split: option.splits)
  qed
  have gone: "(i, k) \<notin> fst ` set (pending_objects d')" for k
    by (auto simp: commit_push_pending_objects [OF assms(2)])
  have len: "n = length (pending_rows d i)"
    using com by (auto elim!: commit_pending_closureE)
  show ?thesis
  proof (intro conjI)
    show "\<forall>k \<in> set (pc_roots pc). live d' k \<and> (k, t) \<in> set (closures d')" using covered roots by blast
    have "live d' k \<and> set (po_refs r) \<subseteq> set (refs_of d' k) \<and> (\<forall>k' \<in> set (po_refs r). live d' k')"
      if kr: "(k, r) \<in> set (pending_rows d i)" for k r
    proof (intro conjI ballI)
      from kr have "k \<in> fst ` set (pending_rows d i)" by force
      then show "live d' k" using live' own by blast
      show "set (po_refs r) \<subseteq> set (refs_of d' k)" by (rule refs [OF kr])
      show "live d' k'" if "k' \<in> set (po_refs r)" for k' using covered kr that by blast
    qed
    then show "\<forall>(k, r) \<in> set (pending_rows d i). live d' k \<and> set (po_refs r) \<subseteq> set (refs_of d' k) \<and>
        (\<forall>k' \<in> set (po_refs r). live d' k')" by blast
    show "\<forall>k. live d k \<longrightarrow> live d' k" using live' by blast
    show "\<forall>k. (i, k) \<notin> fst ` set (pending_objects d')" using gone by blast
    show "n = length (pending_rows d i)" by (rule len)
  qed
qed

definition push_db :: db where
  "push_db = empty_db\<lparr>pending_closures := [(1, \<lparr>pc_key = ''r'', pc_started_at = 0, pc_roots = [''r'']\<rparr>)],
     pending_objects := [((1, ''r''), \<lparr>po_refs = [''n''], po_size = None\<rparr>), ((1, ''n''), \<lparr>po_refs = [], po_size = Some 7\<rparr>)],
     next_id := 2\<rparr>"

lemma push_db_inv: "db_inv push_db"
  by (simp add: db_inv_def stats_ok_def tombs_ok_def unique_keys_def foreign_keys_def pc_ids_def po_ids_def
      mu_ids_def closure_keys_def pin_targets_def push_db_def empty_db_def)

theorem commit_push_publishes_witness:
  "\<exists>n d'. commit_push 9 1 push_db = Inr (n, d') \<and> live d' ''r'' \<and> live d' ''n'' \<and> (''r'', 9) \<in> set (closures d')"
proof -
  have "commit_push 9 1 push_db \<noteq> Inl e" for e
    by (simp add: commit_push_def commit_push_missing_def pending_rows_def push_db_def empty_db_def
        commit_pending_closure_def Let_def)
  then obtain n d' where run: "commit_push 9 1 push_db = Inr (n, d')" by (cases "commit_push 9 1 push_db") auto
  have "map_of (pending_closures push_db) 1 = Some \<lparr>pc_key = ''r'', pc_started_at = 0, pc_roots = [''r'']\<rparr>"
    by (simp add: push_db_def)
  from commit_push_publishes [OF push_db_inv run this] run show ?thesis
    by (auto simp: pending_rows_def push_db_def)
qed

end
