(* ===== verification/Sweep.thy ===== *)
theory Sweep
  imports Pending
begin

text \<open>
  The collector's last phase, \<open>src/server/objects_model.go\<close>: \<open>sweepBatch\<close> deletes a batch of
  tombstoned objects from S3 and then their rows, \<open>cleanupOrphanObjects\<close> marks what no closure
  reaches and sweeps batch after batch until none is left.
\<close>

definition DeletionBatchSize :: nat where
  "DeletionBatchSize = 1000"

record ObjectCleanupStats =
  marked_count :: nat
  deleted_count :: nat
  failed_count :: nat

definition no_stats :: ObjectCleanupStats where
  "no_stats = \<lparr>marked_count = 0, deleted_count = 0, failed_count = 0\<rparr>"

section \<open>One batch\<close>

text \<open>
  The results of \<open>RemoveObjectsWithResult\<close>, consumed one by one: the keys whose rows can go, the
  errors, and the keys that got no answer.
\<close>

record removal =
  rm_deleted :: "string list"
  rm_errors :: "go_error list"
  rm_unanswered :: "string list"
  rm_world :: world

definition remove_one :: "env \<Rightarrow> string \<Rightarrow> removal \<Rightarrow> removal" where
  "remove_one e key r =
     (case remove_answer e key of
        Removed \<Rightarrow> r\<lparr>rm_deleted := rm_deleted r @ [key],
                     rm_world := record_success ((rm_world r)\<lparr>bucket := filter (\<lambda>k. k \<noteq> key) (bucket (rm_world r))\<rparr>)\<rparr>
      | RemoveFailed err \<Rightarrow>
          (let r = r\<lparr>rm_world := note_error err (rm_world r)\<rparr> in
           if err_code err \<noteq> ''NoSuchKey'' then r\<lparr>rm_errors := rm_errors r @ [S3Error err]\<rparr>
           else r\<lparr>rm_deleted := rm_deleted r @ [key]\<rparr>)
      | NoAnswer \<Rightarrow> r\<lparr>rm_unanswered := rm_unanswered r @ [key]\<rparr>)"

definition remove_all :: "env \<Rightarrow> string list \<Rightarrow> world \<Rightarrow> removal" where
  "remove_all e keys w =
     fold (remove_one e) keys \<lparr>rm_deleted = [], rm_errors = [], rm_unanswered = [], rm_world = w\<rparr>"

record batch_result =
  br_last :: string
  br_errors :: "go_error list"
  br_error :: "go_error option"
  br_stats :: ObjectCleanupStats
  br_world :: world

definition sweepBatch :: "env \<Rightarrow> int \<Rightarrow> string \<Rightarrow> ObjectCleanupStats \<Rightarrow> world \<Rightarrow> batch_result" where
  "sweepBatch e grace afterKey stats w =
     (let failed = \<lparr>br_last = '''', br_errors = [], br_error = Some (DbError ConnectionError), br_stats = stats, br_world = w\<rparr> in
      if db_fault e ''BeginSweep'' then failed
      else if db_fault e ''LockObjectsReadyForDeletion'' then failed
      else (let keys = LockObjectsReadyForDeletion (locked_object e) (now e) grace afterKey DeletionBatchSize (w_db w) in
            if keys = [] then failed\<lparr>br_error := None\<rparr>
            else if db_fault e ''GetKeysNotPending'' then failed
            else (let unpending = GetKeysNotPending keys (w_db w);
                      r = remove_all e unpending w;
                      stats = stats\<lparr>failed_count := failed_count stats + length (rm_errors r)\<rparr>;
                      deleted = rm_deleted r @ filter (isAbsent e (rm_world r)) (rm_unanswered r);
                      failed = \<lparr>br_last = '''', br_errors = rm_errors r, br_error = Some (DbError ConnectionError),
                                br_stats = stats, br_world = rm_world r\<rparr>
                  in if db_fault e ''DeleteObjects'' then failed
                     else if db_fault e ''CommitSweep'' then failed
                     else \<lparr>br_last = last keys, br_errors = rm_errors r, br_error = None,
                            br_stats = stats\<lparr>deleted_count := deleted_count stats + length deleted\<rparr>,
                            br_world = (rm_world r)\<lparr>w_db := DeleteObjects deleted (w_db (rm_world r))\<rparr>\<rparr>)))"

section \<open>What one batch does\<close>

definition sweepable :: "env \<Rightarrow> int \<Rightarrow> db \<Rightarrow> string \<Rightarrow> bool" where
  "sweepable e grace d k \<longleftrightarrow>
     (case object_of d k of
        None \<Rightarrow> False
      | Some r \<Rightarrow> (case o_first_deleted_at r of None \<Rightarrow> False | Some t \<Rightarrow> t \<le> now e - seconds grace) \<and>
                  o_deleted_at r \<noteq> None \<and> \<not> pending_key d k \<and> \<not> locked_object e k)"

definition candidates :: "env \<Rightarrow> int \<Rightarrow> string \<Rightarrow> db \<Rightarrow> string list" where
  "candidates e grace afterKey d = sort (filter (\<lambda>k. sweepable e grace d k \<and> afterKey < k) (List.map fst (objects d)))"

lemma candidates_iff: "k \<in> set (candidates e grace a d) \<longleftrightarrow> sweepable e grace d k \<and> a < k"
  using object_key_iff [of k d] by (auto simp: candidates_def sweepable_def split: option.splits)

lemma LockObjects_candidates:
  assumes "db_inv d"
  shows "LockObjectsReadyForDeletion (locked_object e) (now e) grace a n d = take n (candidates e grace a d)"
proof -
  have uniq: "(k, r) \<in> set (objects d) \<longleftrightarrow> object_of d k = Some r" for k r
    using assms by (simp add: db_inv_def unique_keys_def)
  have "List.map fst (filter (\<lambda>(k, r). (case o_first_deleted_at r of None \<Rightarrow> False | Some t \<Rightarrow> t \<le> now e - seconds grace) \<and>
          o_deleted_at r \<noteq> None \<and> a < k \<and> \<not> pending_key d k \<and> \<not> locked_object e k) xs)
      = filter (\<lambda>k. sweepable e grace d k \<and> a < k) (List.map fst xs)"
    if "\<forall>(k, r) \<in> set xs. object_of d k = Some r" for xs
    using that by (induction xs) (auto simp: sweepable_def split: option.splits)
  moreover have "\<forall>(k, r) \<in> set (objects d). object_of d k = Some r" using uniq by blast
  ultimately show ?thesis
    unfolding LockObjectsReadyForDeletion_def candidates_def by presburger
qed

lemma GetKeysNotPending_candidates:
  "k \<in> set (GetKeysNotPending keys d) \<longleftrightarrow> k \<in> set keys \<and> \<not> pending_key d k \<and> object_of d k \<noteq> None"
  using object_key_iff [of k d] by (auto simp: GetKeysNotPending_def)

lemma remove_all_snoc: "remove_all e (keys @ [k]) w = remove_one e k (remove_all e keys w)"
  by (simp add: remove_all_def)

lemma remove_all_facts:
  "w_db (rm_world (remove_all e keys w)) = w_db w \<and>
   set (bucket (rm_world (remove_all e keys w))) \<subseteq> set (bucket w) \<and>
   set (bucket w) - set keys \<subseteq> set (bucket (rm_world (remove_all e keys w))) \<and>
   set (rm_deleted (remove_all e keys w)) \<subseteq> set keys \<and> set (rm_unanswered (remove_all e keys w)) \<subseteq> set keys"
proof (induction keys rule: rev_induct)
  case (snoc k keys)
  then show ?case
    by (auto simp: remove_all_snoc remove_one_def Let_def split: remove_answer.splits)
qed (simp add: remove_all_def)

text \<open>
  The bucket answers truthfully when a \<open>NoSuchKey\<close>, to a deletion or to a stat, is only given for
  an object it does not hold.
\<close>

definition honest :: "env \<Rightarrow> world \<Rightarrow> bool" where
  "honest e w \<longleftrightarrow> stat_honest e \<and>
     (\<forall>k r. remove_answer e k = RemoveFailed r \<and> err_code r = ''NoSuchKey'' \<longrightarrow> k \<notin> set (bucket w))"

lemma remove_all_deleted:
  "honest e w \<Longrightarrow> k \<in> set (rm_deleted (remove_all e keys w)) \<Longrightarrow>
   k \<notin> set (bucket (rm_world (remove_all e keys w)))"
proof (induction keys rule: rev_induct)
  case (snoc x keys)
  have "set (bucket (rm_world (remove_all e keys w))) \<subseteq> set (bucket w)" using remove_all_facts by blast
  with snoc show ?case
    by (auto simp: remove_all_snoc remove_one_def Let_def honest_def split: remove_answer.splits if_splits)
qed (simp add: remove_all_def)

lemma sweepBatch_world:
  assumes "db_inv (w_db w)"
  obtains removed where
    "set removed \<subseteq> set (candidates e grace a (w_db w))"
    "w_db (br_world (sweepBatch e grace a stats w)) = w_db w \<or>
     w_db (br_world (sweepBatch e grace a stats w)) = DeleteObjects removed (w_db w)"
    "set (bucket (br_world (sweepBatch e grace a stats w))) \<subseteq> set (bucket w)"
    "set (bucket w) - set (candidates e grace a (w_db w)) \<subseteq> set (bucket (br_world (sweepBatch e grace a stats w)))"
    "honest e w \<Longrightarrow> set removed \<inter> set (bucket (br_world (sweepBatch e grace a stats w))) = {}"
proof -
  define keys where "keys = take DeletionBatchSize (candidates e grace a (w_db w))"
  define unp where "unp = GetKeysNotPending keys (w_db w)"
  define r where "r = remove_all e unp w"
  define deleted where "deleted = rm_deleted r @ filter (isAbsent e (rm_world r)) (rm_unanswered r)"
  have unp: "set unp \<subseteq> set (candidates e grace a (w_db w))"
    using set_take_subset [of DeletionBatchSize "candidates e grace a (w_db w)"]
    by (auto simp: unp_def keys_def GetKeysNotPending_candidates)
  note facts = remove_all_facts [of e unp w, folded r_def]
  have del: "set deleted \<subseteq> set (candidates e grace a (w_db w))"
    using facts unp by (auto simp: deleted_def)
  have gone: "k \<notin> set (bucket (rm_world r))" if "honest e w" "k \<in> set deleted" for k
    using that remove_all_deleted [of e w k unp, folded r_def] isAbsent_honest [of e "rm_world r" k]
    by (auto simp: deleted_def honest_def)
  let ?res = "sweepBatch e grace a stats w"
  have "br_world ?res = w \<or> br_world ?res = rm_world r \<or>
        br_world ?res = (rm_world r)\<lparr>w_db := DeleteObjects deleted (w_db (rm_world r))\<rparr>"
    by (simp add: sweepBatch_def LockObjects_candidates [OF assms] Let_def flip: keys_def unp_def r_def deleted_def)
  then consider "br_world ?res = w" | "br_world ?res = rm_world r"
    | "br_world ?res = (rm_world r)\<lparr>w_db := DeleteObjects deleted (w_db (rm_world r))\<rparr>" by blast
  then show thesis
  proof cases
    case 1
    show thesis by (rule that [of "[]"]) (auto simp: 1)
  next
    case 2
    show thesis by (rule that [of "[]"]) (use facts unp in \<open>auto simp: 2\<close>)
  next
    case 3
    show thesis by (rule that [of deleted]) (use facts unp del gone in \<open>auto simp: 3\<close>)
  qed
qed

lemma sweepBatch_inv:
  assumes "db_inv (w_db w)"
  shows "db_inv (w_db (br_world (sweepBatch e grace a stats w)))"
proof (rule sweepBatch_world [OF assms, of e grace a stats])
  fix removed
  assume "w_db (br_world (sweepBatch e grace a stats w)) = w_db w \<or>
    w_db (br_world (sweepBatch e grace a stats w)) = DeleteObjects removed (w_db w)"
  then show ?thesis using assms DeleteObjects_inv [OF assms] by auto
qed

lemma sweepBatch_last:
  assumes "db_inv (w_db w)" "br_last (sweepBatch e grace a stats w) \<noteq> ''''"
  shows "br_last (sweepBatch e grace a stats w) \<in> set (candidates e grace a (w_db w))"
proof -
  define keys where "keys = take DeletionBatchSize (candidates e grace a (w_db w))"
  have "br_last (sweepBatch e grace a stats w) = last keys \<and> keys \<noteq> []"
    using assms(2)
    by (auto simp: sweepBatch_def LockObjects_candidates [OF assms(1)] Let_def keys_def [symmetric] split: if_splits)
  then have "br_last (sweepBatch e grace a stats w) \<in> set keys" by simp
  then show ?thesis using set_take_subset [of DeletionBatchSize "candidates e grace a (w_db w)"] by (auto simp: keys_def)
qed

lemma sweepableD:
  "sweepable e grace d k \<Longrightarrow> \<not> pending_key d k \<and> object_of d k \<noteq> None \<and> tombstoned d k"
  by (auto simp: sweepable_def tombstoned_def alive_def split: option.splits)

lemma sweepable_cong:
  assumes "object_of d' k = object_of d k" "pending_objects d' = pending_objects d"
  shows "sweepable e grace d' k = sweepable e grace d k"
proof -
  have "pending_key d' k = pending_key d k" by (simp add: pending_key_def assms(2))
  with assms(1) show ?thesis by (simp only: sweepable_def)
qed

section \<open>All batches\<close>

lemma sweepable_delete:
  "sweepable e grace (DeleteObjects ks d) k \<longleftrightarrow> sweepable e grace d k \<and> k \<notin> set ks"
  by (simp add: sweepable_def DeleteObjects_def obj_delete_lookup pending_key_def split: option.splits)

text \<open>Every batch but the last one ends at a later key, so fewer keys are left after it.\<close>

definition keys_after :: "string \<Rightarrow> db \<Rightarrow> string set" where
  "keys_after a d = {k \<in> fst ` set (objects d). a < k}"

lemma objects_DeleteObjects: "set (objects (DeleteObjects ks d)) \<subseteq> set (objects d)"
  by (auto simp: DeleteObjects_def obj_delete_def object_stats_delete_def)

lemma sweepBatch_cases:
  obtains (kept) "br_last (sweepBatch e grace a stats w) = ''''"
    "w_db (br_world (sweepBatch e grace a stats w)) = w_db w"
  | (swept) keys deleted where
    "keys = LockObjectsReadyForDeletion (locked_object e) (now e) grace a DeletionBatchSize (w_db w)" "keys \<noteq> []"
    "br_last (sweepBatch e grace a stats w) = last keys"
    "w_db (br_world (sweepBatch e grace a stats w)) = DeleteObjects deleted (w_db w)"
proof (cases "br_last (sweepBatch e grace a stats w) = ''''")
  case True
  with remove_all_facts kept show thesis
    by (cases "w_db (br_world (sweepBatch e grace a stats w)) = w_db w")
      (auto simp: sweepBatch_def Let_def split: if_splits intro: swept)
next
  case False
  with swept remove_all_facts show thesis by (auto simp: sweepBatch_def Let_def split: if_splits)
qed

lemma keys_after_decreases:
  assumes "br_last (sweepBatch e grace a stats w) \<noteq> ''''"
  shows "card (keys_after (br_last (sweepBatch e grace a stats w)) (w_db (br_world (sweepBatch e grace a stats w))))
       < card (keys_after a (w_db w))"
proof (rule sweepBatch_cases [of e grace a stats w])
  fix keys deleted
  assume keys: "keys = LockObjectsReadyForDeletion (locked_object e) (now e) grace a DeletionBatchSize (w_db w)" "keys \<noteq> []"
    and last: "br_last (sweepBatch e grace a stats w) = last keys"
    and db: "w_db (br_world (sweepBatch e grace a stats w)) = DeleteObjects deleted (w_db w)"
  have "last keys \<in> set keys" using keys(2) by simp
  then have l: "last keys \<in> keys_after a (w_db w)"
    unfolding keys(1) LockObjectsReadyForDeletion_def keys_after_def by (force dest: in_set_takeD)
  have "keys_after (last keys) (DeleteObjects deleted (w_db w)) \<subseteq> keys_after a (w_db w) - {last keys}"
    using l objects_DeleteObjects [of deleted "w_db w"] by (force simp: keys_after_def)
  with l have "keys_after (last keys) (DeleteObjects deleted (w_db w)) \<subset> keys_after a (w_db w)" by blast
  then show ?thesis unfolding last db by (rule psubset_card_mono [rotated]) (simp add: keys_after_def)
qed (use assms in simp)

function sweep_loop ::
  "env \<Rightarrow> int \<Rightarrow> string \<Rightarrow> ObjectCleanupStats \<Rightarrow> go_error list \<Rightarrow> world \<Rightarrow>
   ObjectCleanupStats \<times> go_error list \<times> world" where
  "sweep_loop e grace afterKey stats errs w =
     (let r = sweepBatch e grace afterKey stats w;
          errs = errs @ br_errors r
      in case br_error r of
           Some err \<Rightarrow> (br_stats r, errs @ [err], br_world r)
         | None \<Rightarrow> if br_last r = '''' then (br_stats r, errs, br_world r)
                   else sweep_loop e grace (br_last r) (br_stats r) errs (br_world r))"
  by pat_completeness auto
termination
  by (relation "measure (\<lambda>(e, grace, a, stats, errs, w). card (keys_after a (w_db w)))")
    (auto intro: keys_after_decreases)

declare sweep_loop.simps [simp del]

text \<open>\<open>cleanupOrphanObjects\<close>: the errors of all batches are joined into one.\<close>

definition cleanupOrphanObjects ::
  "env \<Rightarrow> int \<Rightarrow> world \<Rightarrow> ObjectCleanupStats \<times> go_error list \<times> world" where
  "cleanupOrphanObjects e grace w =
     (if db_fault e ''MarkStaleObjects'' then (no_stats, [DbError ConnectionError], w)
      else (let (marked, d) = MarkStaleObjects (now e) (w_db w) in
            sweep_loop e grace '''' (no_stats\<lparr>marked_count := marked\<rparr>) [] (w\<lparr>w_db := d\<rparr>)))"

section \<open>What the sweep leaves alone\<close>

definition sweeps_to :: "env \<Rightarrow> int \<Rightarrow> world \<Rightarrow> world \<Rightarrow> bool" where
  "sweeps_to e grace w w' \<longleftrightarrow>
     db_inv (w_db w') \<and> closures (w_db w') = closures (w_db w) \<and>
     pending_objects (w_db w') = pending_objects (w_db w) \<and> pins (w_db w') = pins (w_db w) \<and>
     (\<forall>k. \<not> sweepable e grace (w_db w) k \<longrightarrow>
        object_of (w_db w') k = object_of (w_db w) k \<and> (k \<in> set (bucket w) \<longrightarrow> k \<in> set (bucket w'))) \<and>
     (\<forall>k. sweepable e grace (w_db w') k \<longrightarrow> sweepable e grace (w_db w) k) \<and>
     set (bucket w') \<subseteq> set (bucket w) \<and>
     (honest e w \<longrightarrow> (\<forall>k. object_of (w_db w) k \<noteq> None \<and> object_of (w_db w') k = None \<longrightarrow> k \<notin> set (bucket w')))"

lemma sweeps_to_refl: "db_inv (w_db w) \<Longrightarrow> sweeps_to e grace w w"
  by (auto simp: sweeps_to_def)

lemma honest_mono: "honest e w \<Longrightarrow> set (bucket w') \<subseteq> set (bucket w) \<Longrightarrow> honest e w'"
  by (auto simp: honest_def)

lemma sweeps_to_trans: "sweeps_to e grace w w1 \<Longrightarrow> sweeps_to e grace w1 w2 \<Longrightarrow> sweeps_to e grace w w2"
  unfolding sweeps_to_def by (intro conjI allI impI; (elim conjE)?) (metis honest_mono subset_iff)+

lemma DeleteObjects_frame [simp]:
  "closures (DeleteObjects ks d) = closures d" "pending_objects (DeleteObjects ks d) = pending_objects d"
  "pins (DeleteObjects ks d) = pins d" "pending_closures (DeleteObjects ks d) = pending_closures d"
  by (simp_all add: DeleteObjects_def)

lemma sweepBatch_sweeps:
  assumes "db_inv (w_db w)"
  shows "sweeps_to e grace w (br_world (sweepBatch e grace a stats w))"
proof (rule sweepBatch_world [OF assms, of e grace a stats])
  fix removed
  let ?w' = "br_world (sweepBatch e grace a stats w)"
  assume sub: "set removed \<subseteq> set (candidates e grace a (w_db w))"
    and db: "w_db ?w' = w_db w \<or> w_db ?w' = DeleteObjects removed (w_db w)"
    and shrink: "set (bucket ?w') \<subseteq> set (bucket w)"
    and keep: "set (bucket w) - set (candidates e grace a (w_db w)) \<subseteq> set (bucket ?w')"
    and gone: "honest e w \<Longrightarrow> set removed \<inter> set (bucket ?w') = {}"
  have look: "object_of (DeleteObjects removed (w_db w)) k = (if k \<in> set removed then None else object_of (w_db w) k)" for k
    by (simp add: DeleteObjects_def obj_delete_lookup)
  have cand: "k \<in> set (candidates e grace a (w_db w)) \<Longrightarrow> sweepable e grace (w_db w) k" for k
    by (simp add: candidates_iff)
  show "sweeps_to e grace w ?w'"
    unfolding sweeps_to_def
  proof (intro conjI allI impI)
    show "db_inv (w_db ?w')" by (rule sweepBatch_inv [OF assms])
    show "set (bucket ?w') \<subseteq> set (bucket w)" by (rule shrink)
    show "closures (w_db ?w') = closures (w_db w)" "pending_objects (w_db ?w') = pending_objects (w_db w)"
      "pins (w_db ?w') = pins (w_db w)"
      using db by auto
    fix k
    show "object_of (w_db ?w') k = object_of (w_db w) k" if "\<not> sweepable e grace (w_db w) k"
      using db that sub cand look by auto
    show "k \<in> set (bucket ?w')" if "\<not> sweepable e grace (w_db w) k" "k \<in> set (bucket w)"
      using keep that cand by auto
    show "sweepable e grace (w_db w) k" if "sweepable e grace (w_db ?w') k"
      using db that by (auto simp: sweepable_delete)
    show "k \<notin> set (bucket ?w')" if "honest e w" "object_of (w_db w) k \<noteq> None \<and> object_of (w_db ?w') k = None"
      using db that gone [OF that(1)] look [of k] by (auto split: if_splits)
  qed
qed

lemma sweep_loop_sweeps:
  "db_inv (w_db w) \<Longrightarrow> sweep_loop e grace a stats errs w = (stats', errs', w') \<Longrightarrow> sweeps_to e grace w w'"
proof (induction e grace a stats errs w arbitrary: stats' errs' w' rule: sweep_loop.induct)
  case (1 e grace a stats errs w)
  let ?r = "sweepBatch e grace a stats w"
  have batch: "sweeps_to e grace w (br_world ?r)" by (rule sweepBatch_sweeps [OF "1.prems"(1)])
  show ?case
  proof (cases "br_error ?r = None \<and> br_last ?r \<noteq> ''''")
    case False
    with "1.prems"(2) have "w' = br_world ?r"
      by (auto simp: sweep_loop.simps [of e grace a stats errs w] Let_def split: option.splits if_splits)
    with batch show ?thesis by simp
  next
    case True
    with "1.prems"(2) have "sweep_loop e grace (br_last ?r) (br_stats ?r) (errs @ br_errors ?r) (br_world ?r) = (stats', errs', w')"
      by (simp add: sweep_loop.simps [of e grace a stats errs w] Let_def)
    moreover have "db_inv (w_db (br_world ?r))" using batch by (simp add: sweeps_to_def)
    ultimately have "sweeps_to e grace (br_world ?r) w'" using "1.IH" True by blast
    with batch show ?thesis by (rule sweeps_to_trans)
  qed
qed

section \<open>What the sweep gets rid of\<close>

text \<open>An environment in which the collector's calls succeed.\<close>

definition calm :: "env \<Rightarrow> bool" where
  "calm e \<longleftrightarrow> (\<forall>k. remove_answer e k = Removed) \<and>
     \<not> db_fault e ''MarkStaleObjects'' \<and> \<not> db_fault e ''BeginSweep'' \<and> \<not> db_fault e ''LockObjectsReadyForDeletion'' \<and>
     \<not> db_fault e ''GetKeysNotPending'' \<and> \<not> db_fault e ''DeleteObjects'' \<and> \<not> db_fault e ''CommitSweep''"

lemma remove_all_calm:
  "calm e \<Longrightarrow> rm_deleted (remove_all e keys w) = keys \<and> rm_unanswered (remove_all e keys w) = [] \<and>
   set (bucket (rm_world (remove_all e keys w))) = set (bucket w) - set keys"
proof (induction keys rule: rev_induct)
  case (snoc k keys)
  then show ?case by (auto simp: remove_all_snoc remove_one_def calm_def)
qed (simp add: remove_all_def)

lemma sweepBatch_calm:
  fixes grace :: int and a :: string
  assumes "calm e" "db_inv (w_db w)"
  defines "keys \<equiv> take DeletionBatchSize (candidates e grace a (w_db w))"
  shows "br_error (sweepBatch e grace a stats w) = None"
    and "br_last (sweepBatch e grace a stats w) = (if keys = [] then '''' else last keys)"
    and "w_db (br_world (sweepBatch e grace a stats w)) = w_db w \<or> keys \<noteq> []"
    and "object_of (w_db (br_world (sweepBatch e grace a stats w))) k
           = (if k \<in> set keys then None else object_of (w_db w) k)"
    and "set (bucket (br_world (sweepBatch e grace a stats w))) = set (bucket w) - set keys"
proof -
  have lock: "LockObjectsReadyForDeletion (locked_object e) (now e) grace a DeletionBatchSize (w_db w) = keys"
    by (simp add: LockObjects_candidates [OF assms(2)] keys_def)
  have unp: "set (GetKeysNotPending keys (w_db w)) = set keys"
  proof -
    have "\<not> pending_key (w_db w) k \<and> object_of (w_db w) k \<noteq> None" if "k \<in> set keys" for k
      using in_set_takeD [OF that [unfolded keys_def]] sweepableD by (auto simp: candidates_iff)
    then show ?thesis by (auto simp only: GetKeysNotPending_candidates)
  qed
  note rem = remove_all_calm [OF assms(1), of "GetKeysNotPending keys (w_db w)" w]
  note facts = remove_all_facts [of e "GetKeysNotPending keys (w_db w)" w]
  show "br_error (sweepBatch e grace a stats w) = None"
    "br_last (sweepBatch e grace a stats w) = (if keys = [] then '''' else last keys)"
    "w_db (br_world (sweepBatch e grace a stats w)) = w_db w \<or> keys \<noteq> []"
    using assms(1) by (auto simp: sweepBatch_def lock Let_def calm_def)
  show "object_of (w_db (br_world (sweepBatch e grace a stats w))) k
      = (if k \<in> set keys then None else object_of (w_db w) k)"
    "set (bucket (br_world (sweepBatch e grace a stats w))) = set (bucket w) - set keys"
    using assms(1) rem facts unp
    by (auto simp: sweepBatch_def lock Let_def calm_def DeleteObjects_def obj_delete_lookup)
qed

lemma sorted_take_last:
  assumes "sorted xs" "x \<in> set xs" "take n xs \<noteq> []" "x \<le> last (take n xs)"
  shows "x \<in> set (take n xs)"
proof (rule ccontr)
  assume out: "x \<notin> set (take n xs)"
  have "x \<in> set (take n xs) \<union> set (drop n xs)" using assms(2) by (metis append_take_drop_id set_append)
  with out have "x \<in> set (drop n xs)" by blast
  moreover have "sorted (take n xs @ drop n xs)" using assms(1) by simp
  ultimately have "last (take n xs) \<le> x"
    using assms(3) unfolding sorted_append by (meson last_in_set)
  with assms(3,4) out show False by (metis last_in_set order.antisym)
qed

lemma sweep_loop_clears:
  "calm e \<Longrightarrow> db_inv (w_db w) \<Longrightarrow> sweep_loop e grace a stats errs w = (stats', errs', w') \<Longrightarrow>
   a < k \<Longrightarrow> sweepable e grace (w_db w) k \<Longrightarrow> object_of (w_db w') k = None \<and> k \<notin> set (bucket w')"
proof (induction e grace a stats errs w arbitrary: stats' errs' w' rule: sweep_loop.induct)
  case (1 e grace a stats errs w)
  let ?r = "sweepBatch e grace a stats w"
  define keys where "keys = take DeletionBatchSize (candidates e grace a (w_db w))"
  note batch = sweepBatch_calm [OF "1.prems"(1,2), where grace = grace and a = a and stats = stats, folded keys_def]
  have cand: "k \<in> set (candidates e grace a (w_db w))" using "1.prems"(4,5) by (simp add: candidates_iff)
  then have ne: "keys \<noteq> []" by (cases "candidates e grace a (w_db w)") (auto simp: keys_def DeletionBatchSize_def)
  moreover from this have "last keys \<in> set (candidates e grace a (w_db w))"
    using set_take_subset [of DeletionBatchSize "candidates e grace a (w_db w)"] last_in_set [OF ne]
    by (auto simp: keys_def)
  ultimately have last: "br_last ?r = last keys" "last keys \<noteq> ''''"
    using batch(2) by (auto simp: candidates_iff)
  with "1.prems"(3) batch(1) have loop:
    "sweep_loop e grace (last keys) (br_stats ?r) (errs @ br_errors ?r) (br_world ?r) = (stats', errs', w')"
    by (simp add: sweep_loop.simps [of e grace a stats errs w] Let_def)
  have inv: "db_inv (w_db (br_world ?r))" by (rule sweepBatch_inv [OF "1.prems"(2)])
  have rest: "sweeps_to e grace (br_world ?r) w'" by (rule sweep_loop_sweeps [OF inv loop])
  show ?case
  proof (cases "k \<in> set keys")
    case True
    then have "object_of (w_db (br_world ?r)) k = None" "k \<notin> set (bucket (br_world ?r))" using batch(4,5) by auto
    moreover from this have "\<not> sweepable e grace (w_db (br_world ?r)) k" by (simp add: sweepable_def)
    ultimately show ?thesis using rest by (auto simp: sweeps_to_def)
  next
    case False
    have "sorted (candidates e grace a (w_db w))" by (simp add: candidates_def)
    with sorted_take_last cand ne False have later: "last keys < k"
      unfolding keys_def by (meson leI)
    from False batch(4) have same: "object_of (w_db (br_world ?r)) k = object_of (w_db w) k" by simp
    have "pending_objects (w_db (br_world ?r)) = pending_objects (w_db w)"
      using sweepBatch_sweeps [OF "1.prems"(2)] by (simp add: sweeps_to_def)
    from sweepable_cong [OF same this] "1.prems"(5) have "sweepable e grace (w_db (br_world ?r)) k"
      by blast
    from last have ne': "br_last ?r \<noteq> ''''" by simp
    show ?thesis
      by (rule "1.IH" [OF refl refl batch(1) ne' "1.prems"(1) inv loop [folded last(1)] later [folded last(1)]]) fact
  qed
qed

section \<open>Properties\<close>

lemma cleanup_sweeps:
  assumes "db_inv (w_db w)" "cleanupOrphanObjects e grace w = (stats, errs, w')"
  shows "w' = w \<or> sweeps_to e grace (w\<lparr>w_db := snd (MarkStaleObjects (now e) (w_db w))\<rparr>) w'"
proof (cases "db_fault e ''MarkStaleObjects''")
  case True
  with assms(2) show ?thesis by (simp add: cleanupOrphanObjects_def)
next
  case False
  let ?w1 = "w\<lparr>w_db := snd (MarkStaleObjects (now e) (w_db w))\<rparr>"
  have "sweep_loop e grace '''' (no_stats\<lparr>marked_count := fst (MarkStaleObjects (now e) (w_db w))\<rparr>) [] ?w1 = (stats, errs, w')"
    using assms(2) False by (simp add: cleanupOrphanObjects_def case_prod_beta)
  moreover have "db_inv (w_db ?w1)" using assms(1) by (simp add: MarkStaleObjects_inv)
  ultimately show ?thesis using sweep_loop_sweeps by blast
qed

text \<open>What closures reach or a push has pending stays, in the tables and in the bucket.\<close>

lemma cleanup_keeps:
  assumes "db_inv (w_db w)" "cleanupOrphanObjects e grace w = (stats, errs, w')"
    and "live (w_db w) k" "protected (w_db w) k \<or> pending_key (w_db w) k"
  shows "object_of (w_db w') k = object_of (w_db w) k \<and> (k \<in> set (bucket w) \<longrightarrow> k \<in> set (bucket w'))"
proof -
  let ?w1 = "w\<lparr>w_db := snd (MarkStaleObjects (now e) (w_db w))\<rparr>"
  have look: "object_of (w_db ?w1) k = object_of (w_db w) k"
    using assms(3,4) by (auto simp: MarkStaleObjects_lookup live_def split: option.splits)
  then have "\<not> sweepable e grace (w_db ?w1) k"
    using assms(3) by (auto simp: sweepable_def live_def alive_def split: option.splits)
  with look cleanup_sweeps [OF assms(1,2)] show ?thesis by (auto simp: sweeps_to_def)
qed

lemma cleanup_frame:
  assumes "db_inv (w_db w)" "cleanupOrphanObjects e grace w = (stats, errs, w')"
  shows "db_inv (w_db w') \<and> closures (w_db w') = closures (w_db w) \<and>
    pending_objects (w_db w') = pending_objects (w_db w) \<and> pins (w_db w') = pins (w_db w)"
  using cleanup_sweeps [OF assms] assms(1)
  by (auto simp: sweeps_to_def MarkStaleObjects_def Let_def)

lemma in_use_not_sweepable:
  assumes "pending_key (w_db w) k \<or> live (w_db w) k \<and> protected (w_db w) k \<or> object_of (w_db w) k = None"
  shows "object_of (snd (MarkStaleObjects t (w_db w))) k = object_of (w_db w) k \<and>
    \<not> sweepable e grace (snd (MarkStaleObjects t (w_db w))) k"
proof
  show look: "object_of (snd (MarkStaleObjects t (w_db w))) k = object_of (w_db w) k"
    using assms by (auto simp: MarkStaleObjects_lookup live_def split: option.splits)
  have "pending_key (snd (MarkStaleObjects t (w_db w))) k = pending_key (w_db w) k" by (simp add: pending_key_def)
  then show "\<not> sweepable e grace (snd (MarkStaleObjects t (w_db w))) k"
    using assms look by (auto simp: sweepable_def live_def alive_def split: option.splits)
qed

text \<open>
  C10: garbage collection never takes what is in use, whatever calls fail on the way. The row of a
  key that some push has pending, marked for deletion or not, and the row of a live object that a closure
  reaches are the same afterwards, and if the bucket held the object of such a key, or of a key that has
  no row, it holds it still. A row that is dropped was pending in no push, and either it was marked for
  deletion before or no closure reached it, and its S3 object is gone, given that the bucket does not deny
  having an object it holds. A row that is marked already when a closure comes to reach it has no such
  protection: it goes when its grace period is over.
\<close>
theorem cleanupOrphanObjects_safe:
  assumes "db_inv (w_db w)" "cleanupOrphanObjects e grace w = (stats, errs, w')"
  shows "db_inv (w_db w') \<and>
    (\<forall>k. pending_key (w_db w) k \<or> live (w_db w) k \<and> protected (w_db w) k \<or> object_of (w_db w) k = None \<longrightarrow>
       object_of (w_db w') k = object_of (w_db w) k \<and> (k \<in> set (bucket w) \<longrightarrow> k \<in> set (bucket w'))) \<and>
    (\<forall>k. object_of (w_db w) k \<noteq> None \<and> object_of (w_db w') k = None \<longrightarrow>
       \<not> (live (w_db w) k \<and> protected (w_db w) k) \<and> \<not> pending_key (w_db w) k \<and>
       (honest e w \<longrightarrow> k \<notin> set (bucket w')))"
proof -
  let ?d = "w_db w" and ?w1 = "w\<lparr>w_db := snd (MarkStaleObjects (now e) (w_db w))\<rparr>"
  consider "w' = w" | "sweeps_to e grace ?w1 w'" using cleanup_sweeps [OF assms] by blast
  then show ?thesis
  proof cases
    case 1
    with assms(1) show ?thesis by auto
  next
    case 2
    note keep = in_use_not_sweepable [where t = "now e" and e = e and grace = grace]
    have row: "object_of (w_db ?w1) k = None \<longleftrightarrow> object_of ?d k = None" for k
      by (simp add: MarkStaleObjects_lookup)
    show ?thesis
    proof (intro conjI allI impI)
      show "db_inv (w_db w')" using 2 by (simp add: sweeps_to_def)
      fix k
      show "k \<in> set (bucket w')"
        if "pending_key ?d k \<or> live ?d k \<and> protected ?d k \<or> object_of ?d k = None" "k \<in> set (bucket w)"
        using 2 keep [OF that(1)] that(2) by (auto simp: sweeps_to_def)
      show "object_of (w_db w') k = object_of ?d k"
        if "pending_key ?d k \<or> live ?d k \<and> protected ?d k \<or> object_of ?d k = None"
        using 2 keep [OF that] by (auto simp: sweeps_to_def)
      assume gone: "object_of ?d k \<noteq> None \<and> object_of (w_db w') k = None"
      with 2 row have sw: "sweepable e grace (w_db ?w1) k" by (auto simp: sweeps_to_def)
      show "\<not> pending_key ?d k" "\<not> (live ?d k \<and> protected ?d k)" using keep [of w k] sw by auto
      show "k \<notin> set (bucket w')" if "honest e w"
      proof -
        have "honest e ?w1" using that by (simp add: honest_def)
        moreover have "object_of (w_db ?w1) k \<noteq> None" using gone row [of k] by (metis (no_types))
        ultimately show ?thesis using 2 gone unfolding sweeps_to_def by blast
      qed
    qed
  qed
qed

definition gc_world :: world where
  "gc_world = empty_world\<lparr>w_db := empty_db\<lparr>
     objects := [(''r'', \<lparr>o_refs = [''n''], o_size = None, o_deleted_at = None, o_first_deleted_at = None\<rparr>),
                 (''n'', \<lparr>o_refs = [], o_size = Some 7, o_deleted_at = None, o_first_deleted_at = None\<rparr>),
                 (''x'', \<lparr>o_refs = [], o_size = None, o_deleted_at = None, o_first_deleted_at = None\<rparr>)],
     closures := [(''r'', 0)], object_count := 3, total_bytes := 7\<rparr>, bucket := [''r'', ''n'', ''x'']\<rparr>"

lemma gc_world_inv: "db_inv (w_db gc_world)"
  by (simp add: gc_world_def empty_db_def db_inv_def stats_ok_def tombs_ok_def unique_keys_def foreign_keys_def
      pc_ids_def po_ids_def mu_ids_def closure_keys_def pin_targets_def alive_def)

lemma gc_world_protected: "protected (w_db gc_world) ''n''"
proof -
  have "reachable (w_db gc_world) (closure_keys (w_db gc_world)) ''r''"
    by (rule reachable.start) (simp_all add: gc_world_def closure_keys_def)
  then show ?thesis by (rule reachable.step) (simp_all add: gc_world_def refs_of_def)
qed

theorem cleanupOrphanObjects_safe_witness:
  "''n'' \<in> set (bucket (snd (snd (cleanupOrphanObjects (quiet 5) 0 gc_world))))"
proof -
  obtain stats errs w' where run: "cleanupOrphanObjects (quiet 5) 0 gc_world = (stats, errs, w')"
    by (metis prod.collapse)
  have "live (w_db gc_world) ''n''" "''n'' \<in> set (bucket gc_world)"
    by (simp_all add: live_def gc_world_def alive_def)
  with cleanupOrphanObjects_safe [OF gc_world_inv run] gc_world_protected have "''n'' \<in> set (bucket w')" by blast
  then show ?thesis by (simp only: run snd_conv)
qed

text \<open>
  C25: garbage collection is complete. When its calls succeed, the batches together reach every
  object that no closure reaches and no push has pending and whose tombstone is past the grace
  period (with no grace period, also those marked by this very run): its row and its S3 object are
  gone, whatever number of batches that takes.
\<close>
theorem cleanupOrphanObjects_complete:
  assumes "db_inv (w_db w)" "calm e" "cleanupOrphanObjects e grace w = (stats, errs, w')"
    and "object_of (w_db w) k = Some r" "\<not> protected (w_db w) k" "\<not> pending_key (w_db w) k" "\<not> locked_object e k"
    and "k \<noteq> ''''"
    and "(case o_first_deleted_at r of None \<Rightarrow> grace \<le> 0 | Some t \<Rightarrow> t \<le> now e - seconds grace)"
  shows "object_of (w_db w') k = None \<and> k \<notin> set (bucket w')"
proof -
  let ?w1 = "w\<lparr>w_db := snd (MarkStaleObjects (now e) (w_db w))\<rparr>"
  have loop: "sweep_loop e grace '''' (no_stats\<lparr>marked_count := fst (MarkStaleObjects (now e) (w_db w))\<rparr>) [] ?w1 = (stats, errs, w')"
    using assms(2,3) by (simp add: cleanupOrphanObjects_def calm_def case_prod_beta)
  have inv: "db_inv (w_db ?w1)" using assms(1) by (simp add: MarkStaleObjects_inv)
  have "(k, r) \<in> set (objects (w_db w))" using assms(4) by (rule map_of_SomeD)
  then have pair: "(o_deleted_at r = None) = (o_first_deleted_at r = None)"
    using assms(1) by (auto simp: db_inv_def tombs_ok_def)
  have "pending_key (w_db ?w1) k = pending_key (w_db w) k" by (simp add: pending_key_def)
  then have pend: "\<not> pending_key (w_db ?w1) k" using assms(6) by simp
  have "sweepable e grace (w_db ?w1) k"
  proof (cases "o_first_deleted_at r")
    case None
    with pair assms(4-6) have "object_of (w_db ?w1) k = Some (r\<lparr>o_deleted_at := Some (now e), o_first_deleted_at := Some (now e)\<rparr>)"
      by (simp add: MarkStaleObjects_lookup alive_def)
    with None assms(7,9) pend show ?thesis by (simp add: sweepable_def seconds_def)
  next
    case (Some t)
    with pair assms(4) have "object_of (w_db ?w1) k = Some r"
      by (auto simp: MarkStaleObjects_lookup alive_def)
    with Some pair assms(7,9) pend show ?thesis by (simp add: sweepable_def)
  qed
  moreover have "'''' < k" using assms(8) by (cases k) auto
  ultimately show ?thesis using sweep_loop_clears [OF assms(2) inv loop] by blast
qed

theorem cleanupOrphanObjects_complete_witness:
  "''x'' \<notin> set (bucket (snd (snd (cleanupOrphanObjects (quiet 5) 0 gc_world))))"
proof -
  obtain stats errs w' where run: "cleanupOrphanObjects (quiet 5) 0 gc_world = (stats, errs, w')"
    by (metis prod.collapse)
  have calm: "calm (quiet 5)" by (simp add: calm_def quiet_def)
  have row: "object_of (w_db gc_world) ''x'' =
      Some \<lparr>o_refs = [], o_size = None, o_deleted_at = None, o_first_deleted_at = None\<rparr>"
    by (simp add: gc_world_def)
  have "k \<in> {''r'', ''n''}" if "protected (w_db gc_world) k" for k
    using that
    by induction (auto simp: gc_world_def closure_keys_def refs_of_def split: if_splits)
  then have "\<not> protected (w_db gc_world) ''x''" by auto
  moreover have "\<not> pending_key (w_db gc_world) ''x''" by (simp add: gc_world_def pending_key_def empty_db_def)
  moreover have "\<not> locked_object (quiet 5) ''x''" by (simp add: quiet_def)
  ultimately have "''x'' \<notin> set (bucket w')"
    using cleanupOrphanObjects_complete [OF gc_world_inv calm run row] by simp
  then show ?thesis by (simp only: run snd_conv not_False_eq_True)
qed

end
