(* ===== verification/GcTasks.thy ===== *)
theory GcTasks
  imports Db
begin

text \<open>
  The bookkeeping of garbage collections: \<open>src/server/gc_tasks.go\<close>. Runs happen in goroutines of
  their own, so the store and the goroutines that still run are the state of a step relation, in
  which requests and the progress of runs interleave.
\<close>

section \<open>The record of runs\<close>

datatype GCTaskState = Running | Succeeded | Failed

datatype GCTaskPhase =
    NoPhase
  | CleanupPendingUploads
  | CleanupOldClosures
  | CleanupOrphanObjects
  | VacuumTables
  | OtherReplica

record GCTaskParams =
  gp_older_than :: string
  gp_failed_uploads_older_than :: string
  gp_force :: bool

record GCStats =
  failed_uploads_deleted :: nat
  old_closures_deleted :: nat
  objects_marked :: nat
  objects_deleted :: nat
  objects_failed :: nat

definition zero_stats :: GCStats where
  "zero_stats = \<lparr>failed_uploads_deleted = 0, old_closures_deleted = 0, objects_marked = 0,
     objects_deleted = 0, objects_failed = 0\<rparr>"

record GCTaskStatus =
  ts_state :: GCTaskState
  ts_phase :: GCTaskPhase
  ts_params :: GCTaskParams
  ts_stats :: GCStats
  ts_error :: string
  ts_started_at :: time
  ts_updated_at :: time
  ts_finished_at :: "time option"

definition setPhase :: "time \<Rightarrow> GCTaskPhase \<Rightarrow> GCTaskStatus \<Rightarrow> GCTaskStatus" where
  "setPhase t phase s = s\<lparr>ts_phase := phase, ts_updated_at := t\<rparr>"

definition updateStats :: "time \<Rightarrow> GCStats \<Rightarrow> GCTaskStatus \<Rightarrow> GCTaskStatus" where
  "updateStats t stats s = s\<lparr>ts_stats := stats, ts_updated_at := t\<rparr>"

definition succeed :: "time \<Rightarrow> GCStats \<Rightarrow> GCTaskStatus \<Rightarrow> GCTaskStatus" where
  "succeed t stats s = s\<lparr>ts_state := Succeeded, ts_stats := stats, ts_phase := NoPhase, ts_updated_at := t,
     ts_finished_at := Some t\<rparr>"

definition fail_task :: "time \<Rightarrow> GCStats \<Rightarrow> string \<Rightarrow> GCTaskStatus \<Rightarrow> GCTaskStatus" where
  "fail_task t stats msg s = s\<lparr>ts_state := Failed, ts_stats := stats, ts_error := msg, ts_updated_at := t,
     ts_finished_at := Some t\<rparr>"

text \<open>
  The store points to the most recent task; runs keep their own pointer. Tasks live at the indices
  of a list, in the order in which they were created.
\<close>

record GCTaskStore =
  tasks :: "GCTaskStatus list"
  current :: "nat option"

definition NewGCTaskStore :: GCTaskStore where
  "NewGCTaskStore = \<lparr>tasks = [], current = None\<rparr>"

record StartResult =
  sr_task :: "nat option"
  sr_status :: GCTaskStatus
  sr_is_new :: bool
  sr_conflict :: bool

definition new_task :: "time \<Rightarrow> GCTaskParams \<Rightarrow> GCTaskStore \<Rightarrow> StartResult \<times> GCTaskStore" where
  "new_task t params s =
     (let status = \<lparr>ts_state = Running, ts_phase = NoPhase, ts_params = params, ts_stats = zero_stats,
            ts_error = '''', ts_started_at = t, ts_updated_at = t, ts_finished_at = None\<rparr>;
          i = length (tasks s)
      in (\<lparr>sr_task = Some i, sr_status = status, sr_is_new = True, sr_conflict = False\<rparr>,
          \<lparr>tasks = tasks s @ [status], current = Some i\<rparr>))"

definition Start :: "time \<Rightarrow> GCTaskParams \<Rightarrow> GCTaskStore \<Rightarrow> StartResult \<times> GCTaskStore" where
  "Start t params s =
     (case current s of
        None \<Rightarrow> new_task t params s
      | Some i \<Rightarrow>
          (let snap = tasks s ! i in
           if ts_state snap = Running
           then (if ts_params snap = params
                 then (\<lparr>sr_task = Some i, sr_status = snap, sr_is_new = False, sr_conflict = False\<rparr>, s)
                 else (\<lparr>sr_task = None, sr_status = snap, sr_is_new = False, sr_conflict = True\<rparr>, s))
           else new_task t params s))"

definition Get :: "GCTaskStore \<Rightarrow> GCTaskStatus option" where
  "Get s = map_option (\<lambda>i. tasks s ! i) (current s)"

definition on_task :: "nat \<Rightarrow> (GCTaskStatus \<Rightarrow> GCTaskStatus) \<Rightarrow> GCTaskStore \<Rightarrow> GCTaskStore" where
  "on_task i f s = s\<lparr>tasks := (tasks s)[i := f (tasks s ! i)]\<rparr>"

section \<open>Requests and runs\<close>

record gc_server =
  gs_store :: GCTaskStore
  gs_running :: "nat list"

text \<open>What a goroutine may do with its task before it ends it.\<close>

datatype task_change = SetPhase GCTaskPhase | UpdateStats GCStats
datatype task_outcome = Succeed GCStats | Fail GCStats string

definition update_task :: "time \<Rightarrow> task_change \<Rightarrow> GCTaskStatus \<Rightarrow> GCTaskStatus" where
  "update_task t u = (case u of SetPhase p \<Rightarrow> setPhase t p | UpdateStats st \<Rightarrow> updateStats t st)"

definition end_task :: "time \<Rightarrow> task_outcome \<Rightarrow> GCTaskStatus \<Rightarrow> GCTaskStatus" where
  "end_task t u = (case u of Succeed st \<Rightarrow> succeed t st | Fail st msg \<Rightarrow> fail_task t st msg)"

inductive gc_step :: "gc_server \<Rightarrow> gc_server \<Rightarrow> bool" where
  request: "Start t params (gs_store s) = (r, store') \<Longrightarrow>
    gc_step s \<lparr>gs_store = store', gs_running = (if sr_is_new r then [the (sr_task r)] else []) @ gs_running s\<rparr>"
| progress: "i \<in> set (gs_running s) \<Longrightarrow>
    gc_step s (s\<lparr>gs_store := on_task i (update_task t u) (gs_store s)\<rparr>)"
| ending: "i \<in> set (gs_running s) \<Longrightarrow>
    gc_step s (s\<lparr>gs_store := on_task i (end_task t v) (gs_store s), gs_running := remove1 i (gs_running s)\<rparr>)"

inductive_cases gc_stepE: "gc_step s s'"

definition gc_start :: gc_server where
  "gc_start = \<lparr>gs_store = NewGCTaskStore, gs_running = []\<rparr>"

definition gc_inv :: "gc_server \<Rightarrow> bool" where
  "gc_inv s \<longleftrightarrow>
     (case current (gs_store s) of
        None \<Rightarrow> tasks (gs_store s) = [] \<and> gs_running s = []
      | Some i \<Rightarrow> Suc i = length (tasks (gs_store s)) \<and>
          gs_running s = (if ts_state (tasks (gs_store s) ! i) = Running then [i] else [])) \<and>
     (\<forall>i < length (tasks (gs_store s)).
        (ts_state (tasks (gs_store s) ! i) = Running) = (ts_finished_at (tasks (gs_store s) ! i) = None) \<and>
        (ts_state (tasks (gs_store s) ! i) = Running \<longrightarrow> current (gs_store s) = Some i))"

lemma update_task_state [simp]:
  "ts_state (update_task t u st) = ts_state st" "ts_finished_at (update_task t u st) = ts_finished_at st"
  by (simp_all add: update_task_def setPhase_def updateStats_def split: task_change.splits)

lemma end_task_state [simp]:
  "ts_state (end_task t v st) \<noteq> Running" "ts_finished_at (end_task t v st) = Some t"
  by (simp_all add: end_task_def succeed_def fail_task_def split: task_outcome.splits)

lemma Start_cases:
  assumes "Start t params s = (r, s')"
  obtains (fresh) "\<forall>i. current s = Some i \<longrightarrow> ts_state (tasks s ! i) \<noteq> Running" "(r, s') = new_task t params s"
  | (busy) i where "current s = Some i" "ts_state (tasks s ! i) = Running" "s' = s" "\<not> sr_is_new r"
      "sr_status r = tasks s ! i" "sr_conflict r \<longleftrightarrow> ts_params (tasks s ! i) \<noteq> params"
  using assms by (auto simp: Start_def Let_def split: option.splits if_splits)

lemma gc_inv_running:
  assumes "gc_inv s" "i \<in> set (gs_running s)"
  shows "current (gs_store s) = Some i" "Suc i = length (tasks (gs_store s))" "gs_running s = [i]"
    "ts_state (tasks (gs_store s) ! i) = Running"
  using assms by (auto simp: gc_inv_def split: option.splits if_splits)

lemma gc_inv_on_task:
  assumes inv: "gc_inv s" "i \<in> set (gs_running s)"
    and f: "(ts_state (f (tasks (gs_store s) ! i)) = Running) = (ts_finished_at (f (tasks (gs_store s) ! i)) = None)"
  shows "gc_inv \<lparr>gs_store = on_task i f (gs_store s),
    gs_running = (if ts_state (f (tasks (gs_store s) ! i)) = Running then gs_running s else remove1 i (gs_running s))\<rparr>"
proof -
  note run = gc_inv_running [OF inv]
  from inv(1) have old: "\<forall>j < length (tasks (gs_store s)).
      (ts_state (tasks (gs_store s) ! j) = Running) = (ts_finished_at (tasks (gs_store s) ! j) = None) \<and>
      (ts_state (tasks (gs_store s) ! j) = Running \<longrightarrow> j = i)"
    by (auto simp: gc_inv_def run(1))
  then show ?thesis using f run(2) by (simp add: gc_inv_def on_task_def run(1,3) nth_list_update)
qed

lemma gc_step_inv: "gc_step s s' \<Longrightarrow> gc_inv s \<Longrightarrow> gc_inv s'"
proof (elim gc_stepE)
  fix t params r store'
  assume inv: "gc_inv s" and start: "Start t params (gs_store s) = (r, store')"
    and s': "s' = \<lparr>gs_store = store', gs_running = (if sr_is_new r then [the (sr_task r)] else []) @ gs_running s\<rparr>"
  from start show "gc_inv s'"
  proof (cases rule: Start_cases)
    case fresh
    let ?st = "gs_store s"
    have idle: "gs_running s = []" using inv fresh(1) by (auto simp: gc_inv_def split: option.splits)
    have old: "ts_state (tasks ?st ! i) \<noteq> Running \<and> ts_finished_at (tasks ?st ! i) \<noteq> None" if "i < length (tasks ?st)" for i
      using inv fresh(1) that by (auto simp: gc_inv_def)
    have new: "current store' = Some (length (tasks ?st))" "sr_is_new r" "sr_task r = Some (length (tasks ?st))"
      "\<exists>status. tasks store' = tasks ?st @ [status] \<and> ts_state status = Running \<and> ts_finished_at status = None"
      using fresh(2) by (auto simp: new_task_def Let_def)
    then obtain status where status: "tasks store' = tasks ?st @ [status]" "ts_state status = Running"
      "ts_finished_at status = None" by blast
    show ?thesis
      unfolding gc_inv_def s' using old by (auto simp: idle new(1-3) status nth_append less_Suc_eq)
  next
    case (busy i)
    with inv s' show ?thesis by (simp add: gc_inv_def)
  qed
next
  fix i t u
  assume inv: "gc_inv s" "i \<in> set (gs_running s)"
    and s': "s' = s\<lparr>gs_store := on_task i (update_task t u) (gs_store s)\<rparr>"
  from gc_inv_running(4) [OF inv] inv(1) gc_inv_running(2) [OF inv]
  have "ts_finished_at (tasks (gs_store s) ! i) = None" by (simp add: gc_inv_def)
  with gc_inv_on_task [OF inv, of "update_task t u"] gc_inv_running(4) [OF inv] show "gc_inv s'"
    by (cases s) (simp add: s')
next
  fix i t v
  assume inv: "gc_inv s" "i \<in> set (gs_running s)"
    and s': "s' = s\<lparr>gs_store := on_task i (end_task t v) (gs_store s), gs_running := remove1 i (gs_running s)\<rparr>"
  from gc_inv_on_task [OF inv, of "end_task t v"] show "gc_inv s'" by (cases s) (simp add: s')
qed

interpretation gc_tasks: step_invariant gc_step "(=) gc_start" gc_inv
proof unfold_locales
  show "gc_inv s" if "gc_start = s" for s
    using that [symmetric] by (simp add: gc_start_def NewGCTaskStore_def gc_inv_def)
  show "gc_inv s'" if "gc_step s s'" "gc_inv s" for s s'
    using that by (rule gc_step_inv)
qed

lemma gc_step_history:
  assumes "gc_inv s" "gc_step s s'" "i < length (tasks (gs_store s))" "ts_state (tasks (gs_store s) ! i) \<noteq> Running"
  shows "i < length (tasks (gs_store s')) \<and> tasks (gs_store s') ! i = tasks (gs_store s) ! i"
  using assms(2)
proof cases
  case (request t params r store')
  then show ?thesis using assms(3)
    by (auto elim!: Start_cases simp: new_task_def Let_def nth_append)
next
  case (progress j t u)
  have "j \<noteq> i" using gc_inv_running(4) [OF assms(1) progress(2)] assms(4) by auto
  with progress(1) assms(3) show ?thesis by (simp add: on_task_def)
next
  case (ending j t v)
  have "j \<noteq> i" using gc_inv_running(4) [OF assms(1) ending(2)] assms(4) by auto
  with ending(1) assms(3) show ?thesis by (simp add: on_task_def)
qed

section \<open>Properties\<close>

text \<open>
  C12: however requests and runs interleave, at most one run is in progress on a server, it is the
  task that \<open>Get\<close> shows, exactly the running tasks have no end time, and a new step never changes
  the record of a run that ended.
\<close>
theorem gc_one_run_at_a_time:
  assumes "gc_step\<^sup>*\<^sup>* gc_start s"
  shows "length (gs_running s) \<le> 1 \<and>
    (\<forall>i < length (tasks (gs_store s)).
       (ts_state (tasks (gs_store s) ! i) = Running) = (i \<in> set (gs_running s)) \<and>
       (ts_state (tasks (gs_store s) ! i) = Running) = (ts_finished_at (tasks (gs_store s) ! i) = None) \<and>
       (i \<in> set (gs_running s) \<longrightarrow> Get (gs_store s) = Some (tasks (gs_store s) ! i)) \<and>
       (i \<notin> set (gs_running s) \<longrightarrow> (\<forall>s'. gc_step s s' \<longrightarrow> tasks (gs_store s') ! i = tasks (gs_store s) ! i)))"
proof -
  have inv: "gc_inv s" by (rule gc_tasks.reachable_inv [OF refl assms])
  then have run: "i < length (tasks (gs_store s)) \<Longrightarrow>
      (ts_state (tasks (gs_store s) ! i) = Running) = (i \<in> set (gs_running s))" for i
    by (auto simp: gc_inv_def split: option.splits if_splits)
  have "length (gs_running s) \<le> 1" using inv by (auto simp: gc_inv_def split: option.splits)
  moreover have "(ts_state (tasks (gs_store s) ! i) = Running) = (ts_finished_at (tasks (gs_store s) ! i) = None)"
    if "i < length (tasks (gs_store s))" for i using inv that by (simp add: gc_inv_def)
  moreover have "Get (gs_store s) = Some (tasks (gs_store s) ! i)"
    if "i < length (tasks (gs_store s))" "i \<in> set (gs_running s)" for i
    using inv that run by (simp add: gc_inv_def Get_def)
  moreover have "tasks (gs_store s') ! i = tasks (gs_store s) ! i"
    if "i < length (tasks (gs_store s))" "i \<notin> set (gs_running s)" "gc_step s s'" for i s'
    using gc_step_history [OF inv that(3,1)] that(2) run [OF that(1)] by simp
  ultimately show ?thesis using run by blast
qed

theorem gc_one_run_at_a_time_witness:
  "\<exists>s. gc_step gc_start s \<and> tasks (gs_store s) \<noteq> [] \<and> length (gs_running s) \<le> 1"
proof -
  define p where "p = \<lparr>gp_older_than = ''1h'', gp_failed_uploads_older_than = ''6h'', gp_force = False\<rparr>"
  obtain r st where start: "Start 5 p (gs_store gc_start) = (r, st)" by fastforce
  then have st: "tasks st \<noteq> []" by (auto simp: Start_def gc_start_def NewGCTaskStore_def new_task_def Let_def)
  note step = gc_step.request [OF start]
  from gc_one_run_at_a_time [OF r_into_rtranclp [where r = gc_step, OF step]] step st
  show ?thesis by (metis gc_server.select_convs(1))
qed

end
