(* ===== verification/Gc.thy ===== *)
theory Gc
  imports Sweep GcTasks
begin

text \<open>
  The whole garbage collection: expiry of stale pushes (\<open>src/server/pending_cleanup.go\<close>), deletion
  of old closures (\<open>src/server/closure_model.go\<close>), and the run with its handlers
  (\<open>src/server/closure.go\<close>).
  Durations are in nanoseconds, database times in microseconds.
\<close>

definition micros :: "int \<Rightarrow> time" where
  "micros ns = ns div 1000"

section \<open>Expiry of stale pushes\<close>

text \<open>Abort the uploads one by one; closures whose upload could not be aborted are kept.\<close>

fun abort_old_uploads :: "env \<Rightarrow> multipart_row list \<Rightarrow> world \<Rightarrow> (go_error + int list) \<times> world" where
  "abort_old_uploads e [] w = (Inr [], w)"
| "abort_old_uploads e (m # ms) w =
     (if wait_fault e (mu_object_key m) then (Inl (OtherError ''rate limiter''), w)
      else (case AbortMultipartUpload e (mu_object_key m) (mu_upload_id m) w of
              (None, w) \<Rightarrow> abort_old_uploads e ms (record_success w)
            | (Some r, w) \<Rightarrow>
                (let w = note_error r w in
                 if abort_canceled e (mu_upload_id m) then (Inl (OtherError ''context canceled''), w)
                 else if err_code r \<noteq> ''NoSuchUpload''
                 then (case abort_old_uploads e ms w of
                         (Inl err, w) \<Rightarrow> (Inl err, w)
                       | (Inr keep, w) \<Rightarrow> (Inr (mu_pending_closure_id m # keep), w))
                 else abort_old_uploads e ms w)))"

definition cleanupPendingClosures :: "env \<Rightarrow> int \<Rightarrow> world \<Rightarrow> (go_error + nat) \<times> world" where
  "cleanupPendingClosures e duration w =
     (let cutoff = now e - micros duration in
      if db_fault e ''GetOldMultipartUploads'' then (Inl (DbError ConnectionError), w)
      else (case abort_old_uploads e (GetOldMultipartUploads cutoff (w_db w)) w of
              (Inl err, w) \<Rightarrow> (Inl err, w)
            | (Inr keep, w) \<Rightarrow>
                if db_fault e ''CleanupPendingClosures'' then (Inl (DbError ConnectionError), w)
                else (let (n, d) = CleanupPendingClosures (locked_pending e) cutoff keep (w_db w) in
                      (Inr n, w\<lparr>w_db := d\<rparr>))))"

section \<open>Deletion of old closures\<close>

definition deleteClosuresBefore :: "env \<Rightarrow> time \<Rightarrow> world \<Rightarrow> (go_error + nat) \<times> world" where
  "deleteClosuresBefore e cutoff w =
     (if db_fault e ''BeginDeleteClosures'' then (Inl (DbError ConnectionError), w)
      else if db_fault e ''LockOldClosures'' then (Inl (DbError ConnectionError), w)
      else (let keys = LockOldClosures (locked_closure e) cutoff (w_db w) in
            if db_fault e ''DeleteUnpinnedClosures'' then (Inl (DbError ConnectionError), w)
            else (let (n, d) = DeleteUnpinnedClosures keys (w_db w) in
                  if db_fault e ''CommitDeleteClosures'' then (Inl (DbError ConnectionError), w)
                  else (Inr n, w\<lparr>w_db := d\<rparr>))))"

definition getClosure :: "env \<Rightarrow> string \<Rightarrow> world \<Rightarrow> go_error + string \<times> time \<times> string list" where
  "getClosure e key w =
     (if db_fault e ''Acquire'' then Inl (DbError ConnectionError)
      else if db_fault e ''GetClosure'' then Inl (DbError ConnectionError)
      else (case GetClosure key (w_db w) of
              Inl err \<Rightarrow> Inl (DbError err)
            | Inr updated_at \<Rightarrow>
                if db_fault e ''GetClosureObjects'' then Inl (DbError ConnectionError)
                else Inr (key, updated_at, GetClosureObjects key (w_db w))))"

definition GetClosureHandler :: "env \<Rightarrow> string \<Rightarrow> world \<Rightarrow> (string \<times> time \<times> string list) reply" where
  "GetClosureHandler e key w =
     (if key = '''' then HttpError 400 ''missing key''
      else (case getClosure e key w of
              Inl (DbError NoRows) \<Rightarrow> HttpError 404 ''closure not found''
            | Inl _ \<Rightarrow> HttpError 500 ''failed to get closure objects''
            | Inr c \<Rightarrow> HttpOk 200 c))"

section \<open>One run\<close>

text \<open>
  The grace period is the age for pending uploads in whole seconds as an \<open>int32\<close>; the conversion
  of a larger value is left to the implementation by the language, here a field of the environment.
\<close>

record gc_env = env +
  lock_error :: bool
  lock_free :: bool
  int32_overflow :: int

definition gracePeriod :: "('a gc_env_scheme) \<Rightarrow> int \<Rightarrow> bool \<Rightarrow> int" where
  "gracePeriod e pendingAge force =
     (if force then 0
      else (let s = pendingAge div 1000000000 in if s < 2 ^ 31 then s else int32_overflow e))"

definition with_objects :: "ObjectCleanupStats \<Rightarrow> GCStats \<Rightarrow> GCStats" where
  "with_objects o_stats stats = stats\<lparr>objects_marked := marked_count o_stats,
     objects_deleted := deleted_count o_stats, objects_failed := failed_count o_stats\<rparr>"

definition runGarbageCollection ::
  "gc_env \<Rightarrow> int \<Rightarrow> int \<Rightarrow> bool \<Rightarrow> GCTaskStatus \<Rightarrow> world \<Rightarrow> GCTaskStatus \<times> world" where
  "runGarbageCollection e age pendingAge force task w =
     (let t = now e; ee = env.truncate e; stats = zero_stats in
      if lock_error e then (fail_task t stats ''failed to acquire GC lock'' task, w)
      else if \<not> lock_free e
      then (fail_task t stats ''another garbage collection is already running on this database'' task, w)
      else (let task = setPhase t CleanupPendingUploads task in
            case cleanupPendingClosures ee pendingAge w of
              (Inl err, w) \<Rightarrow> (fail_task t stats ''failed to cleanup pending closures'' task, w)
            | (Inr n, w) \<Rightarrow>
                (let stats = stats\<lparr>failed_uploads_deleted := n\<rparr>;
                     task = setPhase t CleanupOldClosures (updateStats t stats task)
                 in case deleteClosuresBefore ee (t - micros age) w of
                      (Inl err, w) \<Rightarrow> (fail_task t stats ''failed to cleanup old closures'' task, w)
                    | (Inr m, w) \<Rightarrow>
                        (let stats = stats\<lparr>old_closures_deleted := m\<rparr>;
                             task = setPhase t CleanupOrphanObjects (updateStats t stats task)
                         in case cleanupOrphanObjects ee (gracePeriod e pendingAge force) w of
                              (o_stats, errs, w) \<Rightarrow>
                                (let stats = with_objects o_stats stats in
                                 if errs \<noteq> [] then (fail_task t stats ''failed to cleanup orphan objects'' task, w)
                                 else (succeed t stats (setPhase t VacuumTables task), w))))))"

text \<open>
  The handler: the ages are parsed by \<open>time.ParseDuration\<close>, given as a parameter. It answers with
  the status and, for a new task, what to run in the background.
\<close>

record gc_query =
  gq_older_than :: string
  gq_failed_uploads_older_than :: string
  gq_pending_older_than :: string
  gq_force :: string

datatype gc_answer =
    GcBadRequest string
  | GcConflict GCTaskStatus
  | GcAccepted GCTaskStatus "(nat \<times> int \<times> int \<times> bool) option"

definition CleanupClosuresOlder ::
  "(string \<Rightarrow> int option) \<Rightarrow> time \<Rightarrow> gc_query \<Rightarrow> GCTaskStore \<Rightarrow> gc_answer \<times> GCTaskStore" where
  "CleanupClosuresOlder parse_duration t q s =
     (if gq_older_than q = '''' then (GcBadRequest ''missing age'', s)
      else (case parse_duration (gq_older_than q) of
        None \<Rightarrow> (GcBadRequest ''failed to parse age'', s)
      | Some age \<Rightarrow>
          if age < 0 then (GcBadRequest ''older-than must not be negative'', s)
          else (let failed = gq_failed_uploads_older_than q;
                    failed = (if failed = '''' then gq_pending_older_than q else failed);
                    failed = (if failed = '''' then ''6h'' else failed)
                in case parse_duration failed of
                     None \<Rightarrow> (GcBadRequest ''failed to parse failed-uploads-older-than'', s)
                   | Some pendingAge \<Rightarrow>
                       if pendingAge < 0 then (GcBadRequest ''failed-uploads-older-than must not be negative'', s)
                       else (let force = (gq_force q = ''true'');
                                 (r, s') = Start t \<lparr>gp_older_than = gq_older_than q,
                                              gp_failed_uploads_older_than = failed, gp_force = force\<rparr> s
                             in if sr_conflict r then (GcConflict (sr_status r), s')
                                else (GcAccepted (sr_status r)
                                        (if sr_is_new r then Some (the (sr_task r), age, pendingAge, force) else None), s')))))"

definition GCStatusHandler :: "time \<Rightarrow> (go_error + bool) \<Rightarrow> GCTaskStore \<Rightarrow> GCTaskStatus reply" where
  "GCStatusHandler t lock_held s =
     (case Get s of
        Some status \<Rightarrow> HttpOk 200 status
      | None \<Rightarrow>
          (case lock_held of
             Inl err \<Rightarrow> HttpError 503 ''could not check for a garbage collection on another replica''
           | Inr held \<Rightarrow>
               if \<not> held then HttpError 404 ''no garbage collection has run yet''
               else HttpOk 200 \<lparr>ts_state = Running, ts_phase = OtherReplica,
                      ts_params = \<lparr>gp_older_than = '''', gp_failed_uploads_older_than = '''', gp_force = False\<rparr>,
                      ts_stats = zero_stats, ts_error = '''', ts_started_at = t, ts_updated_at = t, ts_finished_at = None\<rparr>))"

definition CleanupPendingClosuresHandler ::
  "(string \<Rightarrow> int option) \<Rightarrow> env \<Rightarrow> string \<Rightarrow> world \<Rightarrow> unit reply \<times> world" where
  "CleanupPendingClosuresHandler parse_duration e older_than w =
     (case parse_duration (if older_than = '''' then ''1h'' else older_than) of
        None \<Rightarrow> (HttpError 400 ''invalid duration'', w)
      | Some d \<Rightarrow>
          (case cleanupPendingClosures e d w of
             (Inl err, w) \<Rightarrow> (HttpError 500 ''cleanup failed'', w)
           | (Inr n, w) \<Rightarrow> (HttpOk 204 (), w)))"

section \<open>Expiry\<close>

lemma abort_uploads_mono:
  "set (uploads (snd (AbortMultipartUpload e key u w))) \<subseteq> set (uploads w)"
  by (auto simp: AbortMultipartUpload_def split: option.splits)

lemma abort_old_uploads_frame:
  "abort_old_uploads e ms w = (res, w') \<Longrightarrow>
   w_db w' = w_db w \<and> bucket w' = bucket w \<and> set (uploads w') \<subseteq> set (uploads w)"
proof (induction ms arbitrary: w res w')
  case (Cons m ms)
  obtain x w1 where ab: "AbortMultipartUpload e (mu_object_key m) (mu_upload_id m) w = (x, w1)"
    by (cases "AbortMultipartUpload e (mu_object_key m) (mu_upload_id m) w")
  have w1: "w_db w1 = w_db w" "bucket w1 = bucket w" "set (uploads w1) \<subseteq> set (uploads w)"
    using abort_frame(1,2) [of e "mu_object_key m" "mu_upload_id m" w]
      abort_uploads_mono [of e "mu_object_key m" "mu_upload_id m" w] by (simp_all add: ab)
  have rest: "w_db w2 = w_db w \<and> bucket w2 = bucket w \<and> set (uploads w2) \<subseteq> set (uploads w)"
    if "abort_old_uploads e ms (note_error r w1) = (y, w2) \<or> abort_old_uploads e ms (record_success w1) = (y, w2)"
    for r y w2
    using that w1 Cons.IH [of "note_error r w1" y w2] Cons.IH [of "record_success w1" y w2] by auto
  show ?case
  proof (cases "wait_fault e (mu_object_key m)")
    case True
    with Cons.prems show ?thesis by simp
  next
    case wait: False
    show ?thesis
    proof (cases x)
      case None
      with Cons.prems wait ab have "abort_old_uploads e ms (record_success w1) = (res, w')" by simp
      with rest show ?thesis by blast
    next
      case (Some r)
      with Cons.prems wait ab
      have "w' = note_error r w1 \<or> (\<exists>y. abort_old_uploads e ms (note_error r w1) = (y, w'))"
        by (auto simp: Let_def split: if_splits sum.splits prod.splits)
      with rest w1 show ?thesis by auto
    qed
  qed
qed simp

text \<open>S3 answers \<open>NoSuchUpload\<close> of its own accord only, as \<open>AbortMultipartUpload\<close> has it.\<close>

definition abort_honest :: "env \<Rightarrow> bool" where
  "abort_honest e \<longleftrightarrow> (\<forall>u r. abort_fault e u = Some r \<longrightarrow> err_code r \<noteq> ''NoSuchUpload'')"

lemma AbortMultipartUpload_gone:
  assumes "abort_honest e" "AbortMultipartUpload e key u w = (x, w')"
    and "x = None \<or> (\<exists>r. x = Some r \<and> err_code r = ''NoSuchUpload'')"
  shows "(key, u) \<notin> set (uploads w')"
  using assms by (auto simp: AbortMultipartUpload_def abort_honest_def split: option.splits if_splits)

lemma abort_old_uploads_gone:
  "abort_honest e \<Longrightarrow> abort_old_uploads e ms w = (Inr keep, w') \<Longrightarrow> m \<in> set ms \<Longrightarrow>
   mu_pending_closure_id m \<notin> set keep \<Longrightarrow> (mu_object_key m, mu_upload_id m) \<notin> set (uploads w')"
proof (induction ms arbitrary: w keep w')
  case (Cons x ms)
  obtain y w1 where ab: "AbortMultipartUpload e (mu_object_key x) (mu_upload_id x) w = (y, w1)"
    by (cases "AbortMultipartUpload e (mu_object_key x) (mu_upload_id x) w")
  note head = AbortMultipartUpload_gone [OF Cons.prems(1) ab]
  from Cons.prems(2) ab obtain w2 keep' where
    tail: "abort_old_uploads e ms w2 = (Inr keep', w')" and w2: "uploads w2 = uploads w1"
    and keep: "keep = keep' \<and> (y = None \<or> (\<exists>r. y = Some r \<and> err_code r = ''NoSuchUpload'')) \<or>
               keep = mu_pending_closure_id x # keep'"
    by (cases y) (auto simp: Let_def split: if_splits sum.splits prod.splits)
  show ?case
  proof (cases "m \<in> set ms")
    case True
    with Cons.IH [OF Cons.prems(1) tail] Cons.prems(4) keep show ?thesis by auto
  next
    case False
    with Cons.prems(3) have m: "m = x" by simp
    with Cons.prems(4) keep head have "(mu_object_key m, mu_upload_id m) \<notin> set (uploads w1)" by auto
    with w2 abort_old_uploads_frame [OF tail] show ?thesis by auto
  qed
qed simp

lemma cleanupPendingClosures_cases:
  assumes "cleanupPendingClosures e duration w = (res, w')"
  obtains (failed) err where "res = Inl err" "w_db w' = w_db w" "bucket w' = bucket w"
  | (done_) keep w1 n where "res = Inr n" "w_db w1 = w_db w" "bucket w' = bucket w" "uploads w' = uploads w1"
    "abort_old_uploads e (GetOldMultipartUploads (now e - micros duration) (w_db w)) w = (Inr keep, w1)"
    "(n, w_db w') = CleanupPendingClosures (locked_pending e) (now e - micros duration) keep (w_db w)"
proof -
  obtain x w1 where x: "abort_old_uploads e (GetOldMultipartUploads (now e - micros duration) (w_db w)) w = (x, w1)"
    by (cases "abort_old_uploads e (GetOldMultipartUploads (now e - micros duration) (w_db w)) w")
  note frame = abort_old_uploads_frame [OF x]
  show thesis
  proof (cases x)
    case (Inl err)
    with assms x frame failed show thesis by (auto simp: cleanupPendingClosures_def Let_def split: if_splits)
  next
    case (Inr keep)
    obtain n d where n: "CleanupPendingClosures (locked_pending e) (now e - micros duration) keep (w_db w) = (n, d)"
      by (cases "CleanupPendingClosures (locked_pending e) (now e - micros duration) keep (w_db w)")
    with assms x Inr frame
    have "(\<exists>err. res = Inl err \<and> w_db w' = w_db w \<and> bucket w' = bucket w) \<or> (res = Inr n \<and> w' = w1\<lparr>w_db := d\<rparr>)"
      by (auto simp: cleanupPendingClosures_def Let_def split: if_splits)
    then show thesis
    proof
      assume "\<exists>err. res = Inl err \<and> w_db w' = w_db w \<and> bucket w' = bucket w"
      with failed show thesis by blast
    next
      assume "res = Inr n \<and> w' = w1\<lparr>w_db := d\<rparr>"
      with done_ [of n w1 keep] x Inr frame n show thesis by simp
    qed
  qed
qed

text \<open>Expiry keeps every row of objects and adds tombstones for what expired pushes may have uploaded.\<close>

lemma Cleanup_lookup:
  assumes "CleanupPendingClosures locked cutoff keep d = (n, d')"
  shows "object_of d k = Some r \<Longrightarrow> object_of d' k = Some r"
    and "object_of d k = None \<Longrightarrow> object_of d' k = Some r \<Longrightarrow> \<not> alive r"
    and "i \<in> set (expired_ids locked cutoff keep d) \<Longrightarrow> (i, k) \<in> fst ` set (pending_objects d) \<Longrightarrow>
         object_of d' k \<noteq> None"
proof -
  define rows where "rows = List.map (\<lambda>((i, k), r). (k, \<lparr>o_refs = po_refs r, o_size = None,
      o_deleted_at = Some cutoff, o_first_deleted_at = Some cutoff\<rparr>))
    (filter (\<lambda>((i, k), r). i \<in> set (expired_ids locked cutoff keep d)) (pending_objects d))"
  have d': "d' = delete_pending_where (\<lambda>i. i \<in> set (expired_ids locked cutoff keep d))
      (obj_upsert (\<lambda>old new. None) (AList.clearjunk rows) d)"
    using assms by (simp add: CleanupPendingClosures_def Let_def rows_def)
  have look: "object_of d' k = (case map_of rows k of None \<Rightarrow> object_of d k
      | Some new \<Rightarrow> (case object_of d k of None \<Rightarrow> Some new | Some old \<Rightarrow> Some old))"
    by (simp add: d' obj_upsert_lookup map_of_clearjunk split: option.splits)
  show "object_of d' k = Some r" if "object_of d k = Some r" using that look by (auto split: option.splits)
  show "\<not> alive r" if "object_of d k = None" "object_of d' k = Some r"
    using that look by (auto simp: rows_def alive_def split: option.splits dest!: map_of_SomeD)
  show "object_of d' k \<noteq> None"
    if "i \<in> set (expired_ids locked cutoff keep d)" "(i, k) \<in> fst ` set (pending_objects d)"
  proof -
    from that have "k \<in> fst ` set rows" by (force simp: rows_def)
    then have "map_of rows k \<noteq> None" by (simp add: map_of_None_iff)
    with look show ?thesis by (auto split: option.splits)
  qed
qed

lemma Cleanup_tables:
  assumes "CleanupPendingClosures locked cutoff keep d = (n, d')"
  shows "closures d' = closures d" "pins d' = pins d"
    "pending_closures d' = filter (\<lambda>(i, r). i \<notin> set (expired_ids locked cutoff keep d)) (pending_closures d)"
    "pending_objects d' = filter (\<lambda>((i, k), r). i \<notin> set (expired_ids locked cutoff keep d)) (pending_objects d)"
    "multipart_uploads d' =
       filter (\<lambda>m. mu_pending_closure_id m \<notin> set (expired_ids locked cutoff keep d)) (multipart_uploads d)"
  using assms by (auto simp: CleanupPendingClosures_def Let_def delete_pending_where_def)

lemma expired_young:
  assumes "unique_keys d" "map_of (pending_closures d) i = Some r"
  shows "i \<in> set (expired_ids locked cutoff keep d) \<longleftrightarrow> pc_started_at r < cutoff \<and> i \<notin> set keep \<and> \<not> locked i"
proof -
  have "distinct (List.map fst (pending_closures d))" using assms(1) by (simp add: unique_keys_def)
  note row = map_of_eq_Some_iff [OF this, symmetric]
  have "(i, r') \<in> set (pending_closures d) \<longleftrightarrow> r' = r" for r' unfolding row assms(2) by auto
  then show ?thesis by (force simp: expired_ids_def)
qed

lemma reachable_mono:
  assumes "\<And>k r. object_of d k = Some r \<Longrightarrow> object_of d' k = Some r" "S \<subseteq> S'"
  shows "reachable d S k \<Longrightarrow> reachable d' S' k"
proof (induction rule: reachable.induct)
  case (start k)
  with assms show ?case by (auto intro: reachable.start)
next
  case (step w k)
  from reachable_row [OF step.hyps(1)] obtain r where "object_of d w = Some r" by auto
  with assms(1) have "refs_of d' w = refs_of d w" by (simp add: refs_of_def)
  with step assms(1) show ?case by (auto intro: reachable.step)
qed

section \<open>Properties of expiry\<close>

text \<open>
  Expiry of stale pushes is safe and leaks nothing. It never changes which objects are live, the
  bucket or the closures; a push younger than the limit keeps its rows; a key that loses its pending
  row has a row among the objects, so the collector knows of it; and a multipart upload whose row
  goes is no longer open in S3, since a push whose upload could not be aborted is kept.
\<close>
theorem cleanupPendingClosures_safe:
  assumes "db_inv (w_db w)" "cleanupPendingClosures e duration w = (res, w')"
  shows "db_inv (w_db w') \<and> bucket w' = bucket w \<and> closures (w_db w') = closures (w_db w) \<and>
    (\<forall>k. live (w_db w') k = live (w_db w) k) \<and>
    (\<forall>(i, r) \<in> set (pending_closures (w_db w)). now e - micros duration \<le> pc_started_at r \<longrightarrow>
       (i, r) \<in> set (pending_closures (w_db w')) \<and> pending_rows (w_db w') i = pending_rows (w_db w) i) \<and>
    (\<forall>k. pending_key (w_db w) k \<and> \<not> pending_key (w_db w') k \<longrightarrow> object_of (w_db w') k \<noteq> None) \<and>
    (abort_honest e \<longrightarrow> (\<forall>m \<in> set (multipart_uploads (w_db w)).
       m \<notin> set (multipart_uploads (w_db w')) \<longrightarrow> (mu_object_key m, mu_upload_id m) \<notin> set (uploads w')))"
  using assms(2)
proof (cases rule: cleanupPendingClosures_cases)
  case (failed err)
  with assms(1) show ?thesis by auto
next
  case (done_ keep w1 n)
  let ?d = "w_db w" and ?cut = "now e - micros duration"
  have run: "CleanupPendingClosures (locked_pending e) ?cut keep ?d = (n, w_db w')" using done_ by simp
  note tabs = Cleanup_tables [OF run]
  have uniq: "unique_keys ?d" using assms(1) by (simp add: db_inv_def)
  have inv: "db_inv (w_db w')" using CleanupPendingClosures_inv [OF assms(1)] by (metis run snd_conv)
  have liv: "live (w_db w') k = live ?d k" for k using live_Cleanup by (metis run snd_conv)
  have young: "i \<notin> set (expired_ids (locked_pending e) ?cut keep ?d)"
    if "(i, r) \<in> set (pending_closures ?d)" "?cut \<le> pc_started_at r" for i r
  proof -
    have "map_of (pending_closures ?d) i = Some r" using that(1) uniq by (simp add: unique_keys_def)
    from expired_young [OF uniq this] that(2) show ?thesis by simp
  qed
  have keep_young: "\<forall>(i, r) \<in> set (pending_closures ?d). ?cut \<le> pc_started_at r \<longrightarrow>
       (i, r) \<in> set (pending_closures (w_db w')) \<and> pending_rows (w_db w') i = pending_rows ?d i"
  proof (clarify, intro conjI)
    fix i r assume ir: "(i, r) \<in> set (pending_closures ?d)" "?cut \<le> pc_started_at r"
    then show "(i, r) \<in> set (pending_closures (w_db w'))" using young by (simp add: tabs)
    show "pending_rows (w_db w') i = pending_rows ?d i"
      using young [OF ir] unfolding pending_rows_def tabs filter_filter
      by (intro arg_cong [where f = "List.map _"] filter_cong) auto
  qed
  have known: "object_of (w_db w') k \<noteq> None" if "pending_key ?d k" "\<not> pending_key (w_db w') k" for k
  proof -
    from that obtain i where i: "(i, k) \<in> fst ` set (pending_objects ?d)" unfolding pending_key_iff by blast
    with that(2) have "i \<in> set (expired_ids (locked_pending e) ?cut keep ?d)"
      unfolding pending_key_iff tabs by force
    from Cleanup_lookup(3) [OF run this i] show ?thesis .
  qed
  have gone: "(mu_object_key m, mu_upload_id m) \<notin> set (uploads w')"
    if "abort_honest e" "m \<in> set (multipart_uploads ?d)" "m \<notin> set (multipart_uploads (w_db w'))" for m
  proof -
    from that(2,3) have ex: "mu_pending_closure_id m \<in> set (expired_ids (locked_pending e) ?cut keep ?d)"
      by (simp add: tabs)
    then obtain r where r: "(mu_pending_closure_id m, r) \<in> set (pending_closures ?d)" "pc_started_at r < ?cut"
      and nk: "mu_pending_closure_id m \<notin> set keep" by (auto simp: expired_ids_def)
    from r(1) uniq have "map_of (pending_closures ?d) (mu_pending_closure_id m) = Some r"
      by (simp add: unique_keys_def)
    with r(2) that(2) have "m \<in> set (GetOldMultipartUploads ?cut ?d)" by (simp add: GetOldMultipartUploads_def)
    from abort_old_uploads_gone [OF that(1) done_(5) this nk] show ?thesis by (simp add: done_(4))
  qed
  show ?thesis using inv done_(3) tabs(1) liv keep_young known gone by blast
qed

definition expiry_world :: world where
  "expiry_world = empty_world\<lparr>w_db := empty_db\<lparr>
     pending_closures := [(1, \<lparr>pc_key = ''p.narinfo'', pc_started_at = 0, pc_roots = []\<rparr>)],
     pending_objects := [((1, ''p''), \<lparr>po_refs = [], po_size = None\<rparr>)],
     multipart_uploads := [\<lparr>mu_pending_closure_id = 1, mu_object_key = ''p'', mu_upload_id = ''u''\<rparr>],
     next_id := 2\<rparr>, uploads := [(''p'', ''u'')]\<rparr>"

lemma expiry_world_inv: "db_inv (w_db expiry_world)"
  by (simp add: expiry_world_def empty_db_def db_inv_def stats_ok_def tombs_ok_def unique_keys_def foreign_keys_def
      pc_ids_def po_ids_def mu_ids_def closure_keys_def pin_targets_def)

lemma abort_honest_quiet: "abort_honest (quiet t)"
  by (simp add: abort_honest_def quiet_def)

theorem cleanupPendingClosures_safe_witness:
  "(''p'', ''u'') \<notin> set (uploads (snd (cleanupPendingClosures (quiet 10) 1000 expiry_world)))"
proof -
  obtain res w' where run: "cleanupPendingClosures (quiet 10) 1000 expiry_world = (res, w')" by fastforce
  have "multipart_uploads (w_db (snd (cleanupPendingClosures (quiet 10) 1000 expiry_world))) = []" by code_simp
  with run have gone: "multipart_uploads (w_db w') = []" by simp
  have row: "\<lparr>mu_pending_closure_id = 1, mu_object_key = ''p'', mu_upload_id = ''u''\<rparr>
      \<in> set (multipart_uploads (w_db expiry_world))" by (simp add: expiry_world_def)
  from cleanupPendingClosures_safe [OF expiry_world_inv run] abort_honest_quiet row gone
  have "(''p'', ''u'') \<notin> set (uploads w')" by fastforce
  then show ?thesis by (simp only: run snd_conv not_False_eq_True)
qed

section \<open>A whole run\<close>

lemma deleteClosuresBefore_facts:
  assumes "db_inv (w_db w)" "deleteClosuresBefore e cutoff w = (res, w')"
  shows "db_inv (w_db w') \<and> objects (w_db w') = objects (w_db w) \<and> bucket w' = bucket w \<and>
    pending_objects (w_db w') = pending_objects (w_db w) \<and> pins (w_db w') = pins (w_db w) \<and>
    set (closures (w_db w')) \<subseteq> set (closures (w_db w)) \<and>
    (\<forall>(k, t) \<in> set (closures (w_db w)). cutoff \<le> t \<or> k \<in> pin_targets (w_db w) \<longrightarrow> (k, t) \<in> set (closures (w_db w')))"
proof -
  let ?keys = "LockOldClosures (locked_closure e) cutoff (w_db w)"
  let ?d = "snd (DeleteUnpinnedClosures ?keys (w_db w))"
  have cases: "w' = w \<or> w' = w\<lparr>w_db := ?d\<rparr>"
    using assms(2) by (auto simp: deleteClosuresBefore_def Let_def case_prod_beta split: if_splits)
  have uniq: "distinct (List.map fst (closures (w_db w)))" using assms(1) by (simp add: db_inv_def unique_keys_def)
  have "db_inv ?d" using assms(1) by (rule DeleteUnpinnedClosures_inv)
  moreover have "(k, t) \<in> set (closures ?d)"
    if kt: "(k, t) \<in> set (closures (w_db w))" "cutoff \<le> t \<or> k \<in> pin_targets (w_db w)" for k t
  proof -
    have "k \<notin> set ?keys" if "k \<notin> pin_targets (w_db w)"
    proof
      assume "k \<in> set ?keys"
      then obtain t' where t': "(k, t') \<in> set (closures (w_db w))" "t' < cutoff" by (auto simp: LockOldClosures_def)
      from eq_key_imp_eq_value [OF uniq kt(1) t'(1)] t'(2) kt(2) that show False by simp
    qed
    with kt have "\<not> (k \<in> set ?keys \<and> k \<notin> pin_targets (w_db w))" by blast
    with kt(1) show ?thesis by (simp add: DeleteUnpinnedClosures_def Let_def pin_targets_def)
  qed
  moreover have "objects ?d = objects (w_db w)" "pending_objects ?d = pending_objects (w_db w)"
    "pins ?d = pins (w_db w)" "set (closures ?d) \<subseteq> set (closures (w_db w))"
    by (auto simp: DeleteUnpinnedClosures_def Let_def)
  ultimately have done_: "db_inv ?d \<and> objects ?d = objects (w_db w) \<and> pending_objects ?d = pending_objects (w_db w) \<and>
    pins ?d = pins (w_db w) \<and> set (closures ?d) \<subseteq> set (closures (w_db w)) \<and>
    (\<forall>(k, t) \<in> set (closures (w_db w)). cutoff \<le> t \<or> k \<in> pin_targets (w_db w) \<longrightarrow> (k, t) \<in> set (closures ?d))"
    by blast
  from cases show ?thesis
  proof
    assume "w' = w"
    with assms(1) show ?thesis by auto
  next
    assume "w' = w\<lparr>w_db := ?d\<rparr>"
    with done_ show ?thesis by simp
  qed
qed

lemmas task_simps = setPhase_def updateStats_def succeed_def fail_task_def

text \<open>A run either stops before the sweep, or is expiry, deletion and sweep one after the other.\<close>

lemma runGarbageCollection_cases:
  assumes "runGarbageCollection e age pendingAge force task w = (task', w')"
  obtains (idle) "w' = w"
  | (expired) res where "cleanupPendingClosures (env.truncate e) pendingAge w = (res, w')"
  | (deleted) n w1 res where "cleanupPendingClosures (env.truncate e) pendingAge w = (Inr n, w1)"
      "deleteClosuresBefore (env.truncate e) (now e - micros age) w1 = (res, w')"
  | (swept) n w1 m w2 stats errs where "cleanupPendingClosures (env.truncate e) pendingAge w = (Inr n, w1)"
      "deleteClosuresBefore (env.truncate e) (now e - micros age) w1 = (Inr m, w2)"
      "cleanupOrphanObjects (env.truncate e) (gracePeriod e pendingAge force) w2 = (stats, errs, w')"
proof -
  let ?e = "env.truncate e"
  obtain r1 w1 where 1: "cleanupPendingClosures ?e pendingAge w = (r1, w1)" by fastforce
  obtain r2 w2 where 2: "deleteClosuresBefore ?e (now e - micros age) w1 = (r2, w2)" by fastforce
  obtain stats errs w3 where 3: "cleanupOrphanObjects ?e (gracePeriod e pendingAge force) w2 = (stats, errs, w3)"
    by (metis prod.collapse)
  note run = assms [unfolded runGarbageCollection_def Let_def 1 prod.case]
  show thesis
  proof (cases "lock_error e \<or> \<not> lock_free e")
    case True
    with run idle show thesis by (auto split: if_split_asm)
  next
    case lock: False
    show thesis
    proof (cases r1)
      case (Inl err)
      with run lock 1 expired show thesis by simp
    next
      case r1: (Inr n)
      show thesis
      proof (cases r2)
        case (Inl err)
        with run lock r1 2 have "w' = w2" by simp
        with deleted 1 2 r1 show thesis by blast
      next
        case (Inr m)
        with run lock r1 2 3 have "w' = w3" by (simp split: if_split_asm)
        with swept 1 2 3 r1 Inr show thesis by blast
      qed
    qed
  qed
qed

lemma runGarbageCollection_ends:
  "runGarbageCollection e age pendingAge force task w = (task', w') \<Longrightarrow>
   ts_state task' \<noteq> Running \<and> ts_finished_at task' = Some (now e)"
  unfolding runGarbageCollection_def Let_def
  by (auto simp: task_simps split: if_splits sum.splits prod.splits)

text \<open>What a later collection still protects: reached by a closure that stays, or pending in a push that is not expired.\<close>

definition spared :: "env \<Rightarrow> int \<Rightarrow> world \<Rightarrow> db \<Rightarrow> string \<Rightarrow> bool" where
  "spared e duration w d' k \<longleftrightarrow> reachable (w_db w) (closure_keys d') k \<or>
     (\<exists>(i, r) \<in> set (pending_closures (w_db w)). now e - micros duration \<le> pc_started_at r \<and>
        (i, k) \<in> fst ` set (pending_objects (w_db w)))"

lemma expiry_spares:
  assumes "db_inv (w_db w)" "cleanupPendingClosures e duration w = (res, w')"
  shows "db_inv (w_db w')" "bucket w' = bucket w" "closures (w_db w') = closures (w_db w)" "pins (w_db w') = pins (w_db w)"
    and "object_of (w_db w) k = Some r \<Longrightarrow> object_of (w_db w') k = Some r"
    and "(i, c) \<in> set (pending_closures (w_db w)) \<Longrightarrow> now e - micros duration \<le> pc_started_at c \<Longrightarrow>
         (i, k) \<in> fst ` set (pending_objects (w_db w)) \<Longrightarrow> pending_key (w_db w') k"
proof -
  let ?cut = "now e - micros duration"
  consider "w_db w' = w_db w" "bucket w' = bucket w"
    | keep n where "CleanupPendingClosures (locked_pending e) ?cut keep (w_db w) = (n, w_db w')" "bucket w' = bucket w"
    using assms(2)
  proof (cases rule: cleanupPendingClosures_cases)
    case (failed err)
    then show thesis by (intro that(1))
  next
    case (done_ keep w1 n)
    then show thesis by (intro that(2) [of keep n]) simp_all
  qed
  then have *: "db_inv (w_db w') \<and> bucket w' = bucket w \<and> closures (w_db w') = closures (w_db w) \<and>
    pins (w_db w') = pins (w_db w) \<and> (object_of (w_db w) k = Some r \<longrightarrow> object_of (w_db w') k = Some r) \<and>
    ((i, c) \<in> set (pending_closures (w_db w)) \<and> ?cut \<le> pc_started_at c \<and>
       (i, k) \<in> fst ` set (pending_objects (w_db w)) \<longrightarrow> pending_key (w_db w') k)"
  proof cases
    case 1
    then show ?thesis using assms(1) by (auto simp: pending_key_iff)
  next
    case (2 keep n)
    note tabs = Cleanup_tables [OF 2(1)]
    have inv: "db_inv (w_db w')" using CleanupPendingClosures_inv [OF assms(1)] by (metis 2(1) snd_conv)
    have uniq: "unique_keys (w_db w)" using assms(1) by (simp add: db_inv_def)
    have "pending_key (w_db w') k" if "(i, c) \<in> set (pending_closures (w_db w))" "?cut \<le> pc_started_at c"
      "(i, k) \<in> fst ` set (pending_objects (w_db w))"
    proof -
      have "map_of (pending_closures (w_db w)) i = Some c" using that(1) uniq by (simp add: unique_keys_def)
      from expired_young [OF uniq this] that(2)
      have "i \<notin> set (expired_ids (locked_pending e) ?cut keep (w_db w))" by simp
      with that(3) show ?thesis unfolding pending_key_iff tabs by force
    qed
    with inv 2(2) tabs Cleanup_lookup(1) [OF 2(1)] show ?thesis by blast
  qed
  from * show "db_inv (w_db w')" "bucket w' = bucket w" "closures (w_db w') = closures (w_db w)" "pins (w_db w') = pins (w_db w)"
    by simp_all
  from * show "object_of (w_db w) k = Some r \<Longrightarrow> object_of (w_db w') k = Some r"
    "(i, c) \<in> set (pending_closures (w_db w)) \<Longrightarrow> ?cut \<le> pc_started_at c \<Longrightarrow>
     (i, k) \<in> fst ` set (pending_objects (w_db w)) \<Longrightarrow> pending_key (w_db w') k" by blast+
qed

lemma truncate_now [simp]: "now (env.truncate e) = now e"
  by (simp add: env.truncate_def)

lemma run_keeps:
  assumes inv: "db_inv (w_db w)" and run: "runGarbageCollection e age pendingAge force task w = (task', w')"
  shows "db_inv (w_db w')" "pins (w_db w') = pins (w_db w)" "set (closures (w_db w')) \<subseteq> set (closures (w_db w))"
    and "(k, t) \<in> set (closures (w_db w)) \<Longrightarrow> now e - micros age \<le> t \<or> k \<in> pin_targets (w_db w) \<Longrightarrow>
         (k, t) \<in> set (closures (w_db w'))"
    and "live (w_db w) k \<Longrightarrow> spared (env.truncate e) pendingAge w (w_db w') k \<Longrightarrow>
         object_of (w_db w') k = object_of (w_db w) k \<and> (k \<in> set (bucket w) \<longrightarrow> k \<in> set (bucket w'))"
proof -
  let ?e = "env.truncate e"
  have all: "db_inv (w_db w') \<and> pins (w_db w') = pins (w_db w) \<and> set (closures (w_db w')) \<subseteq> set (closures (w_db w)) \<and>
    ((k, t) \<in> set (closures (w_db w)) \<and> (now e - micros age \<le> t \<or> k \<in> pin_targets (w_db w)) \<longrightarrow>
       (k, t) \<in> set (closures (w_db w'))) \<and>
    (live (w_db w) k \<and> spared ?e pendingAge w (w_db w') k \<longrightarrow>
       object_of (w_db w') k = object_of (w_db w) k \<and> (k \<in> set (bucket w) \<longrightarrow> k \<in> set (bucket w')))"
    using run
  proof (cases rule: runGarbageCollection_cases)
    case idle
    with inv show ?thesis by simp
  next
    case (expired res)
    note x = expiry_spares [OF inv expired]
    from x(5) [of k] have "live (w_db w) k \<longrightarrow> object_of (w_db w') k = object_of (w_db w) k"
      by (auto simp: live_def split: option.splits)
    with x(1-4) show ?thesis by simp
  next
    case (deleted n w1 res)
    note x = expiry_spares [OF inv deleted(1)]
    note y = deleteClosuresBefore_facts [OF x(1) deleted(2)]
    from x(5) [of k] y have "live (w_db w) k \<longrightarrow> object_of (w_db w') k = object_of (w_db w) k"
      by (auto simp: live_def split: option.splits)
    with x(1-4) y show ?thesis by (auto simp: pin_targets_def)
  next
    case (swept n w1 m w2 stats errs)
    note x = expiry_spares [OF inv swept(1)]
    note y = deleteClosuresBefore_facts [OF x(1) swept(2)]
    from y have inv2: "db_inv (w_db w2)" by simp
    note z = cleanup_frame [OF inv2 swept(3)]
    have row: "object_of (w_db w2) k = Some r" if "object_of (w_db w) k = Some r" for k r
      using x(5) [OF that] y by simp
    have "object_of (w_db w') k = object_of (w_db w) k \<and> (k \<in> set (bucket w) \<longrightarrow> k \<in> set (bucket w'))"
      if "live (w_db w) k" "spared ?e pendingAge w (w_db w') k"
    proof -
      have same: "object_of (w_db w2) k = object_of (w_db w) k"
        using that(1) row by (auto simp: live_def split: option.splits)
      then have "live (w_db w2) k" using that(1) by (simp add: live_def)
      moreover have "closure_keys (w_db w') = closure_keys (w_db w2)" using z by (simp add: closure_keys_def)
      then have "reachable (w_db w) (closure_keys (w_db w')) k \<Longrightarrow> protected (w_db w2) k"
        using reachable_mono [of "w_db w" "w_db w2" "closure_keys (w_db w2)", OF row order_refl, of k] by simp
      with that(2) x(6) have "protected (w_db w2) k \<or> pending_key (w_db w1) k"
        unfolding spared_def truncate_now by blast
      then have "protected (w_db w2) k \<or> pending_key (w_db w2) k" using y by (simp add: pending_key_def)
      ultimately show ?thesis using cleanup_keeps [OF inv2 swept(3)] same x(2) y by simp
    qed
    with x(3,4) y z show ?thesis by (auto simp: pin_targets_def)
  qed
  from all show "db_inv (w_db w')" "pins (w_db w') = pins (w_db w)" "set (closures (w_db w')) \<subseteq> set (closures (w_db w))"
    by blast+
  from all show "(k, t) \<in> set (closures (w_db w)) \<Longrightarrow> now e - micros age \<le> t \<or> k \<in> pin_targets (w_db w) \<Longrightarrow>
      (k, t) \<in> set (closures (w_db w'))"
    "live (w_db w) k \<Longrightarrow> spared ?e pendingAge w (w_db w') k \<Longrightarrow>
      object_of (w_db w') k = object_of (w_db w) k \<and> (k \<in> set (bucket w) \<longrightarrow> k \<in> set (bucket w'))"
    by blast+
qed

text \<open>
  C2: a whole garbage collection, whatever fails on its way, always ends its task and never takes
  what is in use. Pins are untouched; a closure that is pinned or younger than the limit stays; and
  a live object that a closure which stays reaches, or that a push within its time has pending,
  keeps its row, and its S3 object if it had one.
\<close>
theorem runGarbageCollection_safe:
  assumes "db_inv (w_db w)" "runGarbageCollection e age pendingAge force task w = (task', w')"
  shows "db_inv (w_db w') \<and> ts_state task' \<noteq> Running \<and> ts_finished_at task' = Some (now e) \<and>
    pins (w_db w') = pins (w_db w) \<and>
    (\<forall>(k, t) \<in> set (closures (w_db w)). now e - micros age \<le> t \<or> k \<in> pin_targets (w_db w) \<longrightarrow>
       (k, t) \<in> set (closures (w_db w'))) \<and>
    (\<forall>k. live (w_db w) k \<and> spared (env.truncate e) pendingAge w (w_db w') k \<longrightarrow>
       object_of (w_db w') k = object_of (w_db w) k \<and> (k \<in> set (bucket w) \<longrightarrow> k \<in> set (bucket w')))"
proof -
  note keeps = run_keeps [OF assms]
  show ?thesis using runGarbageCollection_ends [OF assms(2)] keeps(1,2) keeps(4,5) by auto
qed

definition pinned_world :: world where
  "pinned_world = gc_world\<lparr>w_db := (w_db gc_world)\<lparr>
     pins := [(''latest'', \<lparr>pin_narinfo_key = ''r'', pin_store_path = ''/nix/store/r'', pin_created_at = 0, pin_updated_at = 0\<rparr>)]\<rparr>\<rparr>"

definition gc_quiet :: "time \<Rightarrow> gc_env" where
  "gc_quiet t = env.extend (quiet t) \<lparr>lock_error = False, lock_free = True, int32_overflow = 0\<rparr>"

lemma pinned_world_inv: "db_inv (w_db pinned_world)"
  using gc_world_inv
  by (simp add: pinned_world_def gc_world_def empty_db_def db_inv_def stats_ok_def tombs_ok_def unique_keys_def
      foreign_keys_def pc_ids_def po_ids_def mu_ids_def closure_keys_def pin_targets_def)

definition new_status :: GCTaskStatus where
  "new_status = sr_status (fst (new_task 0 \<lparr>gp_older_than = ''1us'', gp_failed_uploads_older_than = ''6h'', gp_force = True\<rparr>
     NewGCTaskStore))"

theorem runGarbageCollection_safe_witness:
  "''n'' \<in> set (bucket (snd (runGarbageCollection (gc_quiet 5000000) 1000 1000 True new_status pinned_world)))"
proof -
  obtain task' w' where run: "runGarbageCollection (gc_quiet 5000000) 1000 1000 True new_status pinned_world = (task', w')"
    by fastforce
  note safe = runGarbageCollection_safe [OF pinned_world_inv run]
  have "(''r'', 0) \<in> set (closures (w_db pinned_world))" "''r'' \<in> pin_targets (w_db pinned_world)"
    by (simp_all add: pinned_world_def gc_world_def pin_targets_def)
  with safe have "''r'' \<in> closure_keys (w_db w')" by (force simp: closure_keys_def)
  then have "reachable (w_db pinned_world) (closure_keys (w_db w')) ''r''"
    by (intro reachable.start) (simp_all add: pinned_world_def gc_world_def)
  then have "reachable (w_db pinned_world) (closure_keys (w_db w')) ''n''"
    by (rule reachable.step) (simp_all add: pinned_world_def gc_world_def refs_of_def)
  moreover have "live (w_db pinned_world) ''n''" "''n'' \<in> set (bucket pinned_world)"
    by (simp_all add: live_def pinned_world_def gc_world_def alive_def)
  ultimately have "''n'' \<in> set (bucket w')" using safe by (simp add: spared_def)
  then show ?thesis by (simp only: run snd_conv)
qed

end
