(* ===== verification/Oidc.thy ===== *)
theory Oidc
  imports Glob Keys
begin

text \<open>
  Authorization of OIDC tokens: the rules of \<open>src/server/oidc/config.go\<close> with their validation, the
  matching of claims in \<open>src/server/oidc/claims.go\<close>, and the validator of
  \<open>src/server/oidc/validator.go\<close>. Claims are JSON values; Go maps are association lists, in any order.
  Parameters are the library's verifier of signatures, the parser of URLs, and the text \<open>%v\<close> gives a
  claim that is neither a string nor a list.
\<close>

datatype json =
    JNull
  | JBool bool
  | JNumber string
  | JString string
  | JArray "json list"
  | JObject "(string \<times> json) list"

type_synonym claim_map = "(string \<times> json) list"
type_synonym Scope = string

definition ScopeRead :: Scope where "ScopeRead = ''read''"
definition ScopeWrite :: Scope where "ScopeWrite = ''write''"
definition ScopeAdmin :: Scope where "ScopeAdmin = ''admin''"

lemmas scope_names = ScopeRead_def ScopeWrite_def ScopeAdmin_def

definition valid_scope :: "Scope \<Rightarrow> bool" where
  "valid_scope s \<longleftrightarrow> s = ScopeRead \<or> s = ScopeWrite \<or> s = ScopeAdmin"

section \<open>Rules\<close>

record Rule =
  BoundClaims :: "(string \<times> string list) list"
  BoundSubject :: "string list"
  Scopes :: "Scope list"
  Pins :: "string list"

record ProviderConfig =
  Issuer :: string
  JWKSURL :: string
  Audience :: string
  pc_claims :: "(string \<times> string list) list"
  pc_subject :: "string list"
  pc_scopes :: "Scope list"
  pc_pins :: "string list"
  pc_rules :: "Rule list"
  provider_name :: string

record Config =
  Providers :: "(string \<times> ProviderConfig) list"
  AllowInsecure :: bool

definition effectiveRules :: "ProviderConfig \<Rightarrow> Rule list" where
  "effectiveRules p =
     (if pc_rules p \<noteq> [] then pc_rules p
      else (let scopes = (if pc_scopes p = [] then [ScopeWrite] else pc_scopes p)
            in [\<lparr>BoundClaims = pc_claims p, BoundSubject = pc_subject p, Scopes = scopes, Pins = pc_pins p\<rparr>]))"

definition pinPatternRegex :: re where
  "pinPatternRegex = RPlus (RCls (lower_chars @ upper_chars @ digit_chars @ ''._*?-''))"

text \<open>Validation answers the first error, \<open>None\<close> when there is none.\<close>

definition validate_rule :: "Rule \<Rightarrow> string option" where
  "validate_rule r =
     (if Scopes r = [] then Some ''scopes must not be empty''
      else if list_ex (\<lambda>s. \<not> valid_scope s) (Scopes r) then Some ''unknown scope''
      else if list_ex (\<lambda>p. \<not> MatchString pinPatternRegex p) (Pins r) then Some ''invalid pin pattern''
      else if Pins r \<noteq> [] \<and> ScopeWrite \<notin> set (Scopes r) \<and> ScopeAdmin \<notin> set (Scopes r)
      then Some ''pins need the write or admin scope''
      else None)"

fun first_error :: "('a \<Rightarrow> string option) \<Rightarrow> 'a list \<Rightarrow> string option" where
  "first_error f [] = None"
| "first_error f (x # xs) = (case f x of Some err \<Rightarrow> Some err | None \<Rightarrow> first_error f xs)"

definition validateRules :: "ProviderConfig \<Rightarrow> string option" where
  "validateRules p =
     (if pc_rules p \<noteq> [] \<and> (pc_claims p \<noteq> [] \<or> pc_subject p \<noteq> [] \<or> pc_scopes p \<noteq> [] \<or> pc_pins p \<noteq> [])
      then Some ''rules cannot be combined with top-level bound_claims/bound_subject/scopes/pins''
      else first_error validate_rule (effectiveRules p))"

text \<open>\<open>url.Parse\<close>, a parameter, answers the scheme and the host.\<close>

definition validate_provider ::
  "(string \<Rightarrow> (string \<times> string) option) \<Rightarrow> bool \<Rightarrow> string list \<Rightarrow> ProviderConfig \<Rightarrow> string option" where
  "validate_provider parse_url insecure issuers p =
     (if Issuer p = '''' then Some ''missing issuer (or bearer_token_file to detect it from)''
      else if JWKSURL p \<noteq> '''' \<and>
              (case parse_url (JWKSURL p) of
                 None \<Rightarrow> True
               | Some (scheme, host) \<Rightarrow> (scheme \<noteq> ''https'' \<and> \<not> insecure) \<or> host = '''')
      then Some ''jwks_url must be an absolute HTTPS URL''
      else (case parse_url (Issuer p) of
              None \<Rightarrow> Some ''invalid issuer URL''
            | Some (scheme, host) \<Rightarrow>
                if scheme = '''' \<or> host = '''' then Some ''issuer URL must be absolute with scheme and host''
                else if scheme \<noteq> ''https'' \<and> \<not> insecure then Some ''issuer URL must use HTTPS''
                else if Audience p = '''' then Some ''missing audience''
                else (case validateRules p of
                        Some err \<Rightarrow> Some err
                      | None \<Rightarrow> if Issuer p \<in> set issuers then Some ''duplicate issuer'' else None)))"

fun validate_providers ::
  "(string \<Rightarrow> (string \<times> string) option) \<Rightarrow> bool \<Rightarrow> string list \<Rightarrow> (string \<times> ProviderConfig) list \<Rightarrow> string option" where
  "validate_providers parse_url insecure issuers [] = None"
| "validate_providers parse_url insecure issuers ((name, p) # ps) =
     (case validate_provider parse_url insecure issuers p of
        Some err \<Rightarrow> Some err
      | None \<Rightarrow> validate_providers parse_url insecure (Issuer p # issuers) ps)"

definition validate_config :: "(string \<Rightarrow> (string \<times> string) option) \<Rightarrow> Config \<Rightarrow> string option" where
  "validate_config parse_url c =
     (if Providers c = [] then Some ''no providers configured''
      else validate_providers parse_url (AllowInsecure c) [] (Providers c))"

section \<open>Claims\<close>

text \<open>A claim by its name, or by the path its dots spell.\<close>

fun claim_path :: "json \<Rightarrow> string list \<Rightarrow> json option" where
  "claim_path current [] = Some current"
| "claim_path current (part # parts) =
     (case current of
        JObject m \<Rightarrow> (case map_of m part of None \<Rightarrow> None | Some v \<Rightarrow> claim_path v parts)
      | _ \<Rightarrow> None)"

definition getClaim :: "claim_map \<Rightarrow> string \<Rightarrow> json option" where
  "getClaim claims name =
     (case map_of claims name of
        Some v \<Rightarrow> Some v
      | None \<Rightarrow>
          (let parts = split_char (CHR ''.'') name in
           if length parts = 1 then None else claim_path (JObject claims) parts))"

definition normalizeToStringSlice :: "(json \<Rightarrow> string) \<Rightarrow> json \<Rightarrow> string list" where
  "normalizeToStringSlice sprint v =
     (case v of
        JString s \<Rightarrow> [s]
      | JArray items \<Rightarrow> concat (List.map (\<lambda>i. case i of JString s \<Rightarrow> [s] | _ \<Rightarrow> []) items)
      | _ \<Rightarrow> [sprint v])"

definition validate_bound_claim :: "(json \<Rightarrow> string) \<Rightarrow> claim_map \<Rightarrow> string \<times> string list \<Rightarrow> string option" where
  "validate_bound_claim sprint claims = (\<lambda>(name, patterns).
     case getClaim claims name of
       None \<Rightarrow> Some (''required claim '' @ name @ '' not found'')
     | Some value \<Rightarrow>
         (let values = normalizeToStringSlice sprint value in
          if values = [] then Some (''claim '' @ name @ '' has no value'')
          else if list_ex (\<lambda>v. list_ex (\<lambda>p. glob_match p v) patterns) values then None
          else Some (''claim '' @ name @ '' not in allowed patterns'')))"

definition validateBoundClaims :: "(json \<Rightarrow> string) \<Rightarrow> claim_map \<Rightarrow> (string \<times> string list) list \<Rightarrow> string option" where
  "validateBoundClaims sprint claims bound = first_error (validate_bound_claim sprint claims) bound"

definition validateBoundSubject :: "claim_map \<Rightarrow> string list \<Rightarrow> string option" where
  "validateBoundSubject claims bound =
     (if bound = [] then None
      else (case map_of claims ''sub'' of
              Some (JString sub) \<Rightarrow>
                if sub = '''' then Some ''token missing 'sub' claim''
                else if list_ex (\<lambda>p. glob_match p sub) bound then None
                else Some ''subject not in allowed patterns''
            | _ \<Rightarrow> Some ''token missing 'sub' claim''))"

text \<open>The loop of \<open>matchRules\<close> over scopes, pin patterns and the first mismatch.\<close>

definition add_scopes :: "Scope list \<Rightarrow> Scope list \<Rightarrow> Scope list" where
  "add_scopes new scopes = fold (\<lambda>s acc. if s \<in> set acc then acc else acc @ [s]) new scopes"

definition rule_mismatch :: "(json \<Rightarrow> string) \<Rightarrow> claim_map \<Rightarrow> Rule \<Rightarrow> string option" where
  "rule_mismatch sprint claims r =
     (case validateBoundClaims sprint claims (BoundClaims r) of
        Some err \<Rightarrow> Some err
      | None \<Rightarrow> validateBoundSubject claims (BoundSubject r))"

fun match_loop ::
  "(json \<Rightarrow> string) \<Rightarrow> claim_map \<Rightarrow> Rule list \<Rightarrow> Scope list \<Rightarrow> string list \<Rightarrow> string option \<Rightarrow>
   Scope list \<times> string list \<times> string option" where
  "match_loop sprint claims [] scopes pins firstErr = (scopes, pins, firstErr)"
| "match_loop sprint claims (r # rs) scopes pins firstErr =
     (case rule_mismatch sprint claims r of
        Some err \<Rightarrow>
          match_loop sprint claims rs scopes pins (case firstErr of None \<Rightarrow> Some err | Some e \<Rightarrow> Some e)
      | None \<Rightarrow> match_loop sprint claims rs (add_scopes (Scopes r) scopes) (pins @ Pins r) firstErr)"

definition matchRules ::
  "(json \<Rightarrow> string) \<Rightarrow> claim_map \<Rightarrow> Rule list \<Rightarrow> string option + Scope list \<times> string list" where
  "matchRules sprint claims rules =
     (case match_loop sprint claims rules [] [] None of
        (scopes, pins, firstErr) \<Rightarrow> if scopes = [] then Inl firstErr else Inr (scopes, pins))"

section \<open>The validator\<close>

record ValidatedClaims =
  vc_issuer :: string
  vc_provider :: string
  vc_scopes :: "Scope list"
  vc_pins :: "string list"

definition Has :: "ValidatedClaims \<Rightarrow> Scope \<Rightarrow> bool" where
  "Has c s \<longleftrightarrow> s \<in> set (vc_scopes c)"

definition GrantsScope :: "Config \<Rightarrow> Scope \<Rightarrow> bool" where
  "GrantsScope c s \<longleftrightarrow> list_ex (\<lambda>(name, p). list_ex (\<lambda>r. s \<in> set (Scopes r)) (effectiveRules p)) (Providers c)"

definition ReservesPin :: "Config \<Rightarrow> string \<Rightarrow> bool" where
  "ReservesPin c pin \<longleftrightarrow>
     list_ex (\<lambda>(name, p). list_ex (\<lambda>r. GlobMatchAny (Pins r) pin) (effectiveRules p)) (Providers c)"

definition AudienceForIssuer :: "Config \<Rightarrow> string \<Rightarrow> string option" where
  "AudienceForIssuer c issuer =
     (case filter (\<lambda>(name, p). Issuer p = issuer) (Providers c) of
        [] \<Rightarrow> None
      | (name, p) # _ \<Rightarrow> Some (Audience p))"

text \<open>
  \<open>verify\<close> is the library's check of signature, issuer, audience and expiry for one provider. It
  answers \<open>None\<close>, or the payload of the token, which in turn may not be an object.
\<close>

type_synonym verifier = "ProviderConfig \<Rightarrow> string \<Rightarrow> claim_map option option"

fun validate_with ::
  "verifier \<Rightarrow> (json \<Rightarrow> string) \<Rightarrow> (string \<times> ProviderConfig) list \<Rightarrow> string \<Rightarrow> string option + ValidatedClaims" where
  "validate_with verify sprint [] token = Inl (Some ''no provider could verify the token (signature or issuer mismatch)'')"
| "validate_with verify sprint ((name, p) # ps) token =
     (case verify p token of
        None \<Rightarrow> validate_with verify sprint ps token
      | Some None \<Rightarrow> Inl (Some ''failed to extract claims'')
      | Some (Some claims) \<Rightarrow>
          (case matchRules sprint claims (effectiveRules p) of
             Inl err \<Rightarrow> Inl err
           | Inr (scopes, pins) \<Rightarrow>
               Inr \<lparr>vc_issuer = Issuer p, vc_provider = name, vc_scopes = scopes, vc_pins = pins\<rparr>))"

definition ValidateToken ::
  "verifier \<Rightarrow> (json \<Rightarrow> string) \<Rightarrow> Config \<Rightarrow> string \<Rightarrow> string option + ValidatedClaims" where
  "ValidateToken verify sprint c token = validate_with verify sprint (Providers c) token"

section \<open>The meaning of a rule\<close>

text \<open>What a rule asks of a token, without the error texts and the loops.\<close>

definition rule_holds :: "(json \<Rightarrow> string) \<Rightarrow> claim_map \<Rightarrow> Rule \<Rightarrow> bool" where
  "rule_holds sprint claims r \<longleftrightarrow>
     (\<forall>(name, patterns) \<in> set (BoundClaims r). \<exists>value v p. getClaim claims name = Some value \<and>
        v \<in> set (normalizeToStringSlice sprint value) \<and> p \<in> set patterns \<and> glob_match p v) \<and>
     (BoundSubject r \<noteq> [] \<longrightarrow> (\<exists>sub p. map_of claims ''sub'' = Some (JString sub) \<and> sub \<noteq> '''' \<and>
        p \<in> set (BoundSubject r) \<and> glob_match p sub))"

lemma first_error_None: "first_error f xs = None \<longleftrightarrow> (\<forall>x \<in> set xs. f x = None)"
  by (induction xs) (auto split: option.splits)

lemma rule_mismatch_None: "rule_mismatch sprint claims r = None \<longleftrightarrow> rule_holds sprint claims r"
proof -
  have claim: "validate_bound_claim sprint claims b = None \<longleftrightarrow>
      (case b of (name, patterns) \<Rightarrow> \<exists>value v p. getClaim claims name = Some value \<and>
        v \<in> set (normalizeToStringSlice sprint value) \<and> p \<in> set patterns \<and> glob_match p v)" for b
    by (cases b) (auto simp: validate_bound_claim_def Let_def list_ex_iff split: option.splits)
  have subject: "validateBoundSubject claims bound = None \<longleftrightarrow> (bound \<noteq> [] \<longrightarrow>
      (\<exists>sub p. map_of claims ''sub'' = Some (JString sub) \<and> sub \<noteq> '''' \<and> p \<in> set bound \<and> glob_match p sub))"
    for bound by (auto simp: validateBoundSubject_def list_ex_iff split: option.splits json.splits)
  have "rule_mismatch sprint claims r = None \<longleftrightarrow>
      (\<forall>b \<in> set (BoundClaims r). validate_bound_claim sprint claims b = None) \<and>
      validateBoundSubject claims (BoundSubject r) = None"
    by (simp add: rule_mismatch_def validateBoundClaims_def first_error_None [symmetric] split: option.splits)
  then show ?thesis unfolding claim subject rule_holds_def .
qed

lemma add_scopes_set: "set (add_scopes new scopes) = set new \<union> set scopes"
  by (induction new arbitrary: scopes) (auto simp: add_scopes_def)

lemma add_scopes_distinct: "distinct scopes \<Longrightarrow> distinct (add_scopes new scopes)"
  by (induction new arbitrary: scopes) (auto simp: add_scopes_def)

lemma match_loop_result:
  "match_loop sprint claims rules scopes pins err = (scopes', pins', err') \<Longrightarrow>
   set scopes' = set scopes \<union> (\<Union>r \<in> {r \<in> set rules. rule_holds sprint claims r}. set (Scopes r)) \<and>
   pins' = pins @ concat (List.map Pins (filter (rule_holds sprint claims) rules)) \<and>
   (distinct scopes \<longrightarrow> distinct scopes')"
proof (induction rules arbitrary: scopes pins err)
  case (Cons r rs)
  show ?case
  proof (cases "rule_mismatch sprint claims r")
    case None
    with Cons.prems have "match_loop sprint claims rs (add_scopes (Scopes r) scopes) (pins @ Pins r) err = (scopes', pins', err')"
      by simp
    from Cons.IH [OF this] None show ?thesis
      by (auto simp: rule_mismatch_None add_scopes_set add_scopes_distinct)
  next
    case (Some e)
    then have no: "\<not> rule_holds sprint claims r" using rule_mismatch_None by (metis option.distinct(1))
    from Cons.prems Some obtain err2 where "match_loop sprint claims rs scopes pins err2 = (scopes', pins', err')"
      by auto
    from Cons.IH [OF this] no show ?thesis by auto
  qed
qed simp

section \<open>Properties\<close>

lemma matchRules_result:
  assumes "matchRules sprint claims rules = Inr (scopes, pins)"
  shows "set scopes = (\<Union>r \<in> {r \<in> set rules. rule_holds sprint claims r}. set (Scopes r))"
    and "pins = concat (List.map Pins (filter (rule_holds sprint claims) rules))"
    and "distinct scopes" and "scopes \<noteq> []"
proof -
  obtain scopes' pins' err where loop: "match_loop sprint claims rules [] [] None = (scopes', pins', err)"
    by (metis prod.collapse)
  with assms have "scopes' = scopes" "pins' = pins" "scopes \<noteq> []" by (auto simp: matchRules_def split: if_splits)
  with match_loop_result [OF loop]
  show "set scopes = (\<Union>r \<in> {r \<in> set rules. rule_holds sprint claims r}. set (Scopes r))"
    "pins = concat (List.map Pins (filter (rule_holds sprint claims) rules))" "distinct scopes" "scopes \<noteq> []"
    by auto
qed

text \<open>
  The rules grant exactly what they say. A token gets the union of the scopes of the rules it
  satisfies, each scope once, and the pin patterns of those rules; it is refused exactly when no
  rule it satisfies has a scope. Which claim, pattern or rule comes first does not matter.
\<close>
theorem matchRules_exact:
  "case matchRules sprint claims rules of
     Inl err \<Rightarrow> \<forall>r \<in> set rules. rule_holds sprint claims r \<longrightarrow> Scopes r = []
   | Inr (scopes, pins) \<Rightarrow>
       scopes \<noteq> [] \<and> distinct scopes \<and>
       (\<forall>s. s \<in> set scopes \<longleftrightarrow> (\<exists>r \<in> set rules. rule_holds sprint claims r \<and> s \<in> set (Scopes r))) \<and>
       (\<forall>p. p \<in> set pins \<longleftrightarrow> (\<exists>r \<in> set rules. rule_holds sprint claims r \<and> p \<in> set (Pins r)))"
proof (cases "matchRules sprint claims rules")
  case (Inl err)
  obtain scopes pins e where loop: "match_loop sprint claims rules [] [] None = (scopes, pins, e)"
    by (metis prod.collapse)
  with Inl have "scopes = []" by (auto simp: matchRules_def split: if_splits)
  with match_loop_result [OF loop] Inl show ?thesis by auto
next
  case (Inr x)
  then obtain scopes pins where "matchRules sprint claims rules = Inr (scopes, pins)" by (cases x) auto
  from matchRules_result [OF this] this show ?thesis by auto
qed

definition latest_rule :: Rule where
  "latest_rule = \<lparr>BoundClaims = [], BoundSubject = [''repo:a/*''], Scopes = [ScopeWrite], Pins = [''latest'']\<rparr>"

theorem matchRules_exact_witness:
  "rule_holds (\<lambda>_. '''') [(''sub'', JString ''repo:a/b'')] latest_rule"
proof -
  have "matchRules (\<lambda>_. '''') [(''sub'', JString ''repo:a/b'')] [latest_rule] = Inr ([ScopeWrite], [''latest''])"
    by code_simp
  with matchRules_exact [where sprint = "\<lambda>_. ''''" and claims = "[(''sub'', JString ''repo:a/b'')]"
      and rules = "[latest_rule]"] show ?thesis
    by auto
qed

lemma validate_with_result:
  "validate_with verify sprint ps token = Inr c \<Longrightarrow>
   \<exists>name p claims. (name, p) \<in> set ps \<and> verify p token = Some (Some claims) \<and> vc_issuer c = Issuer p \<and>
     matchRules sprint claims (effectiveRules p) = Inr (vc_scopes c, vc_pins c)"
proof (induction ps)
  case (Cons x ps)
  obtain name p where x: "x = (name, p)" by (cases x)
  show ?case
  proof (cases "verify p token")
    case None
    with Cons x show ?thesis by auto
  next
    case (Some payload)
    with Cons.prems x obtain claims where "payload = Some claims" by (cases payload) auto
    moreover from this Some Cons.prems x have "vc_issuer c = Issuer p"
      "matchRules sprint claims (effectiveRules p) = Inr (vc_scopes c, vc_pins c)" by (auto split: sum.splits)
    ultimately show ?thesis using Some x by auto
  qed
qed simp

lemma validate_providers_ok:
  "validate_providers parse_url insecure issuers ps = None \<Longrightarrow> (name, p) \<in> set ps \<Longrightarrow>
   \<exists>iss. validate_provider parse_url insecure iss p = None"
  by (induction ps arbitrary: issuers) (auto split: option.splits)

lemma validate_provider_ok:
  assumes "validate_provider parse_url insecure iss p = None"
  shows "\<forall>r \<in> set (effectiveRules p). validate_rule r = None" "Audience p \<noteq> ''''" "Issuer p \<noteq> ''''" "Issuer p \<notin> set iss"
  using assms
  by (auto simp: validate_provider_def validateRules_def first_error_None split: if_splits option.splits prod.splits)

text \<open>
  C26: with a configuration that passed validation, a validated token carries at least one scope,
  only scopes the program knows, each granted by a rule of the provider that verified the token and
  that its claims satisfy; a pin pattern it carries belongs to such a rule too.
\<close>
theorem ValidateToken_sound:
  assumes "validate_config parse_url c = None" "ValidateToken verify sprint c token = Inr vc"
  shows "vc_scopes vc \<noteq> [] \<and>
    (\<exists>(name, p) \<in> set (Providers c). \<exists>claims. verify p token = Some (Some claims) \<and> vc_issuer vc = Issuer p \<and> Audience p \<noteq> '''' \<and>
       (\<forall>s \<in> set (vc_scopes vc). valid_scope s \<and>
          (\<exists>r \<in> set (effectiveRules p). rule_holds sprint claims r \<and> s \<in> set (Scopes r))) \<and>
       (\<forall>pin \<in> set (vc_pins vc). \<exists>r \<in> set (effectiveRules p). rule_holds sprint claims r \<and> pin \<in> set (Pins r)))"
proof -
  from validate_with_result [OF assms(2) [unfolded ValidateToken_def]] obtain name p claims where
    p: "(name, p) \<in> set (Providers c)" "verify p token = Some (Some claims)" "vc_issuer vc = Issuer p"
    and m: "matchRules sprint claims (effectiveRules p) = Inr (vc_scopes vc, vc_pins vc)" by auto
  note res = matchRules_result [OF m]
  from assms(1) p(1) obtain iss where v: "validate_provider parse_url (AllowInsecure c) iss p = None"
    by (auto simp: validate_config_def split: if_splits dest: validate_providers_ok)
  have valid: "valid_scope s" if "r \<in> set (effectiveRules p)" "s \<in> set (Scopes r)" for r s
  proof -
    from validate_provider_ok(1) [OF v] that(1) have "validate_rule r = None" by blast
    with that(2) show ?thesis by (auto simp: validate_rule_def list_ex_iff split: if_splits)
  qed
  have scope: "valid_scope s \<and> (\<exists>r \<in> set (effectiveRules p). rule_holds sprint claims r \<and> s \<in> set (Scopes r))"
    if "s \<in> set (vc_scopes vc)" for s using that valid unfolding res(1) by blast
  have pin: "\<exists>r \<in> set (effectiveRules p). rule_holds sprint claims r \<and> pin \<in> set (Pins r)" if "pin \<in> set (vc_pins vc)" for pin
    using that unfolding res(2) by auto
  show ?thesis using p res(4) scope pin validate_provider_ok(2) [OF v] by (intro conjI bexI [OF _ p(1)]) auto
qed

definition ci_config :: Config where
  "ci_config = \<lparr>Providers = [(''ci'', \<lparr>Issuer = ''https://ci'', JWKSURL = '''', Audience = ''cache'', pc_claims = [],
     pc_subject = [''repo:a/*''], pc_scopes = [], pc_pins = [], pc_rules = [], provider_name = ''ci''\<rparr>)],
     AllowInsecure = False\<rparr>"

definition ci_verify :: verifier where
  "ci_verify p token = (if token = ''good'' then Some (Some [(''sub'', JString ''repo:a/b'')]) else None)"

definition ci_url :: "string \<Rightarrow> (string \<times> string) option" where
  "ci_url s = (if s = ''https://ci'' then Some (''https'', ''ci'') else None)"

theorem ValidateToken_sound_witness:
  "\<exists>vc. ValidateToken ci_verify (\<lambda>_. '''') ci_config ''good'' = Inr vc \<and> vc_scopes vc \<noteq> []"
proof -
  have ok: "validate_config ci_url ci_config = None" by code_simp
  have "ValidateToken ci_verify (\<lambda>_. '''') ci_config ''good'' =
      Inr \<lparr>vc_issuer = ''https://ci'', vc_provider = ''ci'', vc_scopes = [ScopeWrite], vc_pins = []\<rparr>" by code_simp
  from ValidateToken_sound [OF ok this] this show ?thesis by blast
qed

end
