(* ===== verification/Auth.thy ===== *)
theory Auth
  imports Oidc Nixbase32 World
begin

text \<open>
  Authentication and scopes of requests: \<open>src/server/auth.go\<close> and \<open>src/server/mtls.go\<close>, with the
  stripping of the proxy's headers and the table of API routes of \<open>src/server/server.go\<close>. A request
  carries what these look at; header names are in canonical form.
\<close>

record http_request =
  rq_method :: string
  rq_path :: string
  rq_headers :: "(string \<times> string) list"
  rq_peer :: "string option"

definition header_values :: "http_request \<Rightarrow> string \<Rightarrow> string list" where
  "header_values r name = List.map snd (filter (\<lambda>(n, v). n = name) (rq_headers r))"

definition header_get :: "http_request \<Rightarrow> string \<Rightarrow> string" where
  "header_get r name = (case header_values r name of [] \<Rightarrow> '''' | v # _ \<Rightarrow> v)"

definition to_lower :: "char \<Rightarrow> char" where
  "to_lower c = (let n = (of_char c :: nat) in if 65 \<le> n \<and> n \<le> 90 then char_of (n + 32) else c)"

definition equal_fold :: "string \<Rightarrow> string \<Rightarrow> bool" where
  "equal_fold a b \<longleftrightarrow> List.map to_lower a = List.map to_lower b"

text \<open>\<open>Request.BasicAuth\<close> of \<open>net/http\<close>.\<close>

definition BasicAuth :: "http_request \<Rightarrow> (string \<times> string) option" where
  "BasicAuth r =
     (let auth = header_get r ''Authorization'' in
      if length auth < 6 \<or> \<not> equal_fold (take 6 auth) ''Basic '' then None
      else (case b64_decode (drop 6 auth) of
              None \<Rightarrow> None
            | Some bs \<Rightarrow>
                (case cut_str (List.map (\<lambda>b. char_of (unat b)) bs) '':'' of
                   (user, password, found) \<Rightarrow> if found then Some (user, password) else None)))"

section \<open>The service's settings\<close>

record service =
  APIToken :: string
  OIDCValidator :: "Config option"
  NativeMTLS :: bool
  MTLSProxyHeader :: string
  MTLSSubjectHeader :: string
  MTLSBoundSubjects :: "string list"
  MTLSBoundSubjectsRead :: "string list"
  oidc_verify :: verifier
  oidc_sprint :: "json \<Rightarrow> string"

section \<open>mTLS\<close>

text \<open>The verified subject; \<open>None\<close> when no certificate was verified.\<close>

definition mtlsSubject :: "service \<Rightarrow> http_request \<Rightarrow> string option" where
  "mtlsSubject s r =
     (if NativeMTLS s then rq_peer r
      else if MTLSProxyHeader s = '''' \<or> header_get r (MTLSProxyHeader s) \<noteq> ''SUCCESS'' then None
      else Some (header_get r (MTLSSubjectHeader s)))"

definition mtlsCheck :: "service \<Rightarrow> http_request \<Rightarrow> string list \<Rightarrow> bool" where
  "mtlsCheck s r boundSubjects \<longleftrightarrow>
     (case mtlsSubject s r of
        None \<Rightarrow> False
      | Some subject \<Rightarrow>
          if boundSubjects = [] then True
          else if subject = '''' then False
          else list_ex (\<lambda>p. glob_match p subject) boundSubjects)"

definition stripHeaders :: "string list \<Rightarrow> http_request \<Rightarrow> http_request" where
  "stripHeaders names r = r\<lparr>rq_headers := filter (\<lambda>(n, v). n \<notin> set names) (rq_headers r)\<rparr>"

text \<open>A request as the handlers see it that came in on the public address of a server with a proxy socket.\<close>

definition public_request :: "service \<Rightarrow> http_request \<Rightarrow> http_request" where
  "public_request s r = stripHeaders [MTLSProxyHeader s, MTLSSubjectHeader s] r"

section \<open>Principals\<close>

record principal =
  scopes :: "Scope list"
  pin_patterns :: "string list"

definition allScopes :: "Scope list" where
  "allScopes = [ScopeRead, ScopeWrite, ScopeAdmin]"

definition adminPrincipal :: principal where
  "adminPrincipal = \<lparr>scopes = allScopes, pin_patterns = []\<rparr>"

definition readGated :: "service \<Rightarrow> bool" where
  "readGated s \<longleftrightarrow> MTLSBoundSubjectsRead s \<noteq> [] \<or>
     (case OIDCValidator s of None \<Rightarrow> False | Some c \<Rightarrow> GrantsScope c ScopeRead)"

definition requestToken :: "http_request \<Rightarrow> string" where
  "requestToken r =
     (let auth = header_get r ''Authorization'' in
      if has_prefix auth ''Bearer '' then trim_prefix auth ''Bearer ''
      else (case BasicAuth r of Some (user, password) \<Rightarrow> password | None \<Rightarrow> ''''))"

definition authenticate :: "service \<Rightarrow> http_request \<Rightarrow> principal option" where
  "authenticate s r =
     (if mtlsCheck s r (MTLSBoundSubjects s) then Some adminPrincipal
      else if MTLSBoundSubjectsRead s \<noteq> [] \<and> mtlsCheck s r (MTLSBoundSubjectsRead s)
      then Some \<lparr>scopes = [ScopeRead], pin_patterns = []\<rparr>
      else (let token = requestToken r in
            if token = '''' then None
            else if APIToken s \<noteq> '''' \<and> token = APIToken s then Some adminPrincipal
            else (case OIDCValidator s of
                    None \<Rightarrow> None
                  | Some c \<Rightarrow>
                      (case ValidateToken (oidc_verify s) (oidc_sprint s) c token of
                         Inl _ \<Rightarrow> None
                       | Inr claims \<Rightarrow>
                           Some \<lparr>scopes = (if Has claims ScopeRead then vc_scopes claims
                                          else vc_scopes claims @ [ScopeRead]),
                                 pin_patterns = vc_pins claims\<rparr>))))"

text \<open>What happens to a request: an error answer, or the handler with the principal in its context.\<close>

datatype gate = Refused nat string | Admitted "principal option"

definition RequireScope :: "service \<Rightarrow> Scope \<Rightarrow> http_request \<Rightarrow> gate" where
  "RequireScope s scope r =
     (if scope = ScopeRead \<and> \<not> readGated s then Admitted None
      else (case authenticate s r of
              None \<Rightarrow> Refused 401 ''Unauthorized''
            | Some p \<Rightarrow>
                if scope \<notin> set (scopes p) then Refused 403 (''Forbidden: token lacks scope '' @ scope)
                else Admitted (Some p)))"

definition mayWritePin :: "service \<Rightarrow> principal option \<Rightarrow> string \<Rightarrow> bool" where
  "mayWritePin s ctx name =
     (case OIDCValidator s of
        None \<Rightarrow> True
      | Some c \<Rightarrow>
          if \<not> ReservesPin c name then True
          else (case ctx of
                  None \<Rightarrow> False
                | Some p \<Rightarrow> ScopeAdmin \<in> set (scopes p) \<or> GlobMatchAny (pin_patterns p) name))"

section \<open>Routes\<close>

datatype endpoint =
    CreatePendingClosure | CleanupPending | SignNarinfos | CommitPending | CreatePush | CompletePush
  | CompleteMultipart | CompleteUpload | SkippedUploads | RequestParts | ObjectExists | Present
  | Lead | GetClosureEP | CleanupClosures | GCStatus | ListPinsEP | CreatePin | DeletePinEP

definition registerAPIRoutes :: "(string \<times> Scope \<times> endpoint) list" where
  "registerAPIRoutes =
    [(''POST /api/pending_closures'', ScopeWrite, CreatePendingClosure),
     (''DELETE /api/pending_closures'', ScopeAdmin, CleanupPending),
     (''POST /api/pending_closures/{id}/sign'', ScopeWrite, SignNarinfos),
     (''POST /api/pending_closures/{id}/complete'', ScopeWrite, CommitPending),
     (''POST /api/pushes'', ScopeWrite, CreatePush),
     (''POST /api/pushes/{id}/complete'', ScopeWrite, CompletePush),
     (''POST /api/pushes/{id}/sign'', ScopeWrite, SignNarinfos),
     (''POST /api/multipart/complete'', ScopeWrite, CompleteMultipart),
     (''POST /api/uploads/complete'', ScopeWrite, CompleteUpload),
     (''POST /api/uploads/skipped'', ScopeWrite, SkippedUploads),
     (''POST /api/multipart/request-parts'', ScopeWrite, RequestParts),
     (''HEAD /api/objects/{key...}'', ScopeWrite, ObjectExists),
     (''POST /api/objects/present'', ScopeWrite, Present),
     (''POST /api/farm/lead'', ScopeWrite, Lead),
     (''GET /api/closures/{key}'', ScopeWrite, GetClosureEP),
     (''DELETE /api/closures'', ScopeAdmin, CleanupClosures),
     (''GET /api/gc/status'', ScopeAdmin, GCStatus),
     (''GET /api/pins'', ScopeWrite, ListPinsEP),
     (''POST /api/pins/{name}'', ScopeWrite, CreatePin),
     (''DELETE /api/pins/{name}'', ScopeAdmin, DeletePinEP)]"

text \<open>The admission of a request that the multiplexer dispatched to the route with this pattern.\<close>

definition admit :: "service \<Rightarrow> string \<Rightarrow> http_request \<Rightarrow> (endpoint \<times> gate) option" where
  "admit s pattern r =
     (case map_of registerAPIRoutes pattern of
        None \<Rightarrow> None
      | Some (scope, ep) \<Rightarrow> Some (ep, RequireScope s scope r))"

section \<open>Who gets in\<close>

text \<open>The credentials behind a scope, independent of the order in which they are tried.\<close>

definition cert_matches :: "service \<Rightarrow> http_request \<Rightarrow> string list \<Rightarrow> bool" where
  "cert_matches s r bound \<longleftrightarrow> (\<exists>subject. mtlsSubject s r = Some subject \<and>
     (bound = [] \<or> (subject \<noteq> '''' \<and> (\<exists>p \<in> set bound. glob_match p subject))))"

definition token_grants :: "service \<Rightarrow> http_request \<Rightarrow> Scope \<Rightarrow> bool" where
  "token_grants s r scope \<longleftrightarrow> requestToken r \<noteq> '''' \<and>
     (\<exists>c name p claims rule. OIDCValidator s = Some c \<and> (name, p) \<in> set (Providers c) \<and>
        oidc_verify s p (requestToken r) = Some (Some claims) \<and> rule \<in> set (effectiveRules p) \<and>
        rule_holds (oidc_sprint s) claims rule \<and> (scope \<in> set (Scopes rule) \<or> (scope = ScopeRead \<and> Scopes rule \<noteq> [])))"

lemma mtlsCheck_iff: "mtlsCheck s r bound \<longleftrightarrow> cert_matches s r bound"
  by (auto simp: mtlsCheck_def cert_matches_def list_ex_iff split: option.splits)

lemma authenticate_cases:
  assumes "authenticate s r = Some p"
  obtains (cert) "cert_matches s r (MTLSBoundSubjects s)" "p = adminPrincipal"
  | (read_cert) "MTLSBoundSubjectsRead s \<noteq> []" "cert_matches s r (MTLSBoundSubjectsRead s)"
      "p = \<lparr>scopes = [ScopeRead], pin_patterns = []\<rparr>"
  | (static) "APIToken s \<noteq> ''''" "requestToken r = APIToken s" "p = adminPrincipal"
  | (oidc) c claims where "requestToken r \<noteq> ''''" "OIDCValidator s = Some c"
      "ValidateToken (oidc_verify s) (oidc_sprint s) c (requestToken r) = Inr claims"
      "set (scopes p) = insert ScopeRead (set (vc_scopes claims))" "pin_patterns p = vc_pins claims"
proof -
  consider "cert_matches s r (MTLSBoundSubjects s)"
    | "\<not> cert_matches s r (MTLSBoundSubjects s)" "MTLSBoundSubjectsRead s \<noteq> []" "cert_matches s r (MTLSBoundSubjectsRead s)"
    | "\<not> cert_matches s r (MTLSBoundSubjects s)" "MTLSBoundSubjectsRead s = [] \<or> \<not> cert_matches s r (MTLSBoundSubjectsRead s)"
    by blast
  then show thesis
  proof cases
    case 1
    with assms cert show thesis by (simp add: authenticate_def mtlsCheck_iff)
  next
    case 2
    with assms read_cert show thesis by (simp add: authenticate_def mtlsCheck_iff)
  next
    case 3
    then have tok: "requestToken r \<noteq> ''''" using assms by (auto simp: authenticate_def mtlsCheck_iff Let_def split: if_splits)
    show thesis
    proof (cases "APIToken s \<noteq> '''' \<and> requestToken r = APIToken s")
      case True
      with 3 tok assms static show thesis by (auto simp: authenticate_def mtlsCheck_iff Let_def)
    next
      case False
      with 3 tok assms obtain c claims where "OIDCValidator s = Some c"
        "ValidateToken (oidc_verify s) (oidc_sprint s) c (requestToken r) = Inr claims"
        "p = \<lparr>scopes = (if Has claims ScopeRead then vc_scopes claims else vc_scopes claims @ [ScopeRead]),
              pin_patterns = vc_pins claims\<rparr>"
        by (auto simp: authenticate_def mtlsCheck_iff Let_def split: option.splits sum.splits)
      with tok show thesis by (intro oidc [of c claims]) (auto simp: Has_def)
    qed
  qed
qed

lemma oidc_scope_granted:
  assumes "requestToken r \<noteq> ''''" "OIDCValidator s = Some c"
    "ValidateToken (oidc_verify s) (oidc_sprint s) c (requestToken r) = Inr claims"
    and "scope \<in> insert ScopeRead (set (vc_scopes claims))"
  shows "token_grants s r scope"
proof -
  from validate_with_result [OF assms(3) [unfolded ValidateToken_def]] obtain name p cl where
    p: "(name, p) \<in> set (Providers c)" "oidc_verify s p (requestToken r) = Some (Some cl)"
    and m: "matchRules (oidc_sprint s) cl (effectiveRules p) = Inr (vc_scopes claims, vc_pins claims)" by auto
  note res = matchRules_result [OF m]
  obtain sc where sc: "sc \<in> set (vc_scopes claims)" "scope = ScopeRead \<or> scope = sc"
    using assms(4) res(4) by (cases "vc_scopes claims") auto
  then obtain rule where "rule \<in> set (effectiveRules p)" "rule_holds (oidc_sprint s) cl rule" "sc \<in> set (Scopes rule)"
    unfolding res(1) by auto
  then show ?thesis using p assms(1,2) sc(2) unfolding token_grants_def by fastforce
qed

lemma authenticated_credentials:
  assumes "authenticate s r = Some p" "scope \<in> set (scopes p)"
  shows "cert_matches s r (MTLSBoundSubjects s) \<or>
    (scope = ScopeRead \<and> MTLSBoundSubjectsRead s \<noteq> [] \<and> cert_matches s r (MTLSBoundSubjectsRead s)) \<or>
    (APIToken s \<noteq> '''' \<and> requestToken r = APIToken s) \<or> token_grants s r scope"
  using assms(1)
proof (cases rule: authenticate_cases)
  case (oidc c claims)
  with assms(2) oidc_scope_granted show ?thesis by metis
qed (use assms(2) in auto)

section \<open>Properties\<close>

text \<open>
  No one gets a scope without a credential for it. A request is admitted to a handler only when
  reads are public and it is a read; or it carries a verified client certificate that the subject
  patterns allow; or the static API token; or a token some provider verified and a rule of that
  provider, whose claims it satisfies, grants the scope (reading comes with any scope).
\<close>
theorem RequireScope_safe:
  assumes "RequireScope s scope r = Admitted ctx"
  shows "(scope = ScopeRead \<and> \<not> readGated s) \<or>
    cert_matches s r (MTLSBoundSubjects s) \<or>
    (scope = ScopeRead \<and> MTLSBoundSubjectsRead s \<noteq> [] \<and> cert_matches s r (MTLSBoundSubjectsRead s)) \<or>
    (APIToken s \<noteq> '''' \<and> requestToken r = APIToken s) \<or> token_grants s r scope"
proof (cases "scope = ScopeRead \<and> \<not> readGated s")
  case False
  with assms obtain p where "authenticate s r = Some p" "scope \<in> set (scopes p)"
    by (auto simp: RequireScope_def split: option.splits if_splits)
  from authenticated_credentials [OF this] show ?thesis by blast
qed simp

definition plain_service :: service where
  "plain_service = \<lparr>APIToken = ''secret'', OIDCValidator = Some ci_config, NativeMTLS = False, MTLSProxyHeader = '''',
     MTLSSubjectHeader = ''X-Ssl-Client-Dn'', MTLSBoundSubjects = [], MTLSBoundSubjectsRead = [],
     oidc_verify = ci_verify, oidc_sprint = (\<lambda>_. '''')\<rparr>"

definition bearer :: "string \<Rightarrow> http_request" where
  "bearer t = \<lparr>rq_method = ''POST'', rq_path = ''/api/pushes'', rq_headers = [(''Authorization'', ''Bearer '' @ t)], rq_peer = None\<rparr>"

theorem RequireScope_safe_witness: "token_grants plain_service (bearer ''good'') ScopeWrite"
proof -
  have "RequireScope plain_service ScopeWrite (bearer ''good'') =
      Admitted (Some \<lparr>scopes = [ScopeWrite, ScopeRead], pin_patterns = []\<rparr>)" by code_simp
  from RequireScope_safe [OF this] have "cert_matches plain_service (bearer ''good'') [] \<or>
      requestToken (bearer ''good'') = ''secret'' \<or> token_grants plain_service (bearer ''good'') ScopeWrite"
    by (simp add: plain_service_def scope_names)
  moreover have "\<not> cert_matches plain_service (bearer ''good'') []"
    by (simp add: cert_matches_def mtlsSubject_def plain_service_def)
  moreover have "requestToken (bearer ''good'') = ''good''" by code_simp
  ultimately show ?thesis by simp
qed

lemma public_token:
  assumes "MTLSProxyHeader s \<noteq> ''Authorization''" "MTLSSubjectHeader s \<noteq> ''Authorization''"
  shows "requestToken (public_request s r) = requestToken r"
proof -
  have "filter (\<lambda>(n, v). n = ''Authorization'') (rq_headers (public_request s r)) =
      filter (\<lambda>(n, v). n = ''Authorization'') (rq_headers r)"
    using assms by (auto simp: public_request_def stripHeaders_def intro: filter_cong)
  then have auth: "header_get (public_request s r) ''Authorization'' = header_get r ''Authorization''"
    by (simp add: header_get_def header_values_def)
  then have "BasicAuth (public_request s r) = BasicAuth r" by (simp only: BasicAuth_def)
  with auth show ?thesis by (simp only: requestToken_def)
qed

lemma public_no_cert:
  assumes "\<not> NativeMTLS s"
  shows "\<not> cert_matches s (public_request s r) bound"
proof -
  have "header_values (public_request s r) (MTLSProxyHeader s) = []"
    by (auto simp: public_request_def stripHeaders_def header_values_def filter_empty_conv)
  then have "header_get (public_request s r) (MTLSProxyHeader s) = ''''" by (simp add: header_get_def)
  then show ?thesis using assms by (simp add: mtlsSubject_def cert_matches_def)
qed

text \<open>
  On the public address of a server behind a reverse proxy, no header can pass for a client
  certificate: with the proxy's headers stripped and no native mTLS, a request is authenticated by
  its token alone. Every API route asks for the write or the admin scope, so a request without a
  token reaches no API handler there.
\<close>
theorem stripped_request_needs_token:
  assumes "\<not> NativeMTLS s" "MTLSProxyHeader s \<noteq> ''Authorization''" "MTLSSubjectHeader s \<noteq> ''Authorization''"
  shows "requestToken (public_request s r) = requestToken r \<and>
    (\<forall>p. authenticate s (public_request s r) = Some p \<longrightarrow> requestToken r \<noteq> '''') \<and>
    (requestToken r = '''' \<longrightarrow>
       (\<forall>pattern ep g. admit s pattern (public_request s r) = Some (ep, g) \<longrightarrow> g = Refused 401 ''Unauthorized''))"
proof -
  define r' where "r' = public_request s r"
  have tok: "requestToken r' = requestToken r" unfolding r'_def by (rule public_token [OF assms(2,3)])
  have noc: "\<not> cert_matches s r' b" for b unfolding r'_def by (rule public_no_cert [OF assms(1)])
  have need: "requestToken r \<noteq> ''''" if "authenticate s r' = Some p" for p
    using that by (cases rule: authenticate_cases) (use noc tok in auto)
  have "g = Refused 401 ''Unauthorized''"
    if "requestToken r = ''''" "admit s pattern r' = Some (ep, g)" for pattern ep g
  proof -
    have "authenticate s r' = None" using need that(1) by (cases "authenticate s r'") auto
    moreover from that(2) obtain scope where "(pattern, scope, ep) \<in> set registerAPIRoutes" "g = RequireScope s scope r'"
      by (auto simp: admit_def split: option.splits dest!: map_of_SomeD)
    moreover from this(1) have "scope \<noteq> ScopeRead" by (auto simp: registerAPIRoutes_def scope_names)
    ultimately show ?thesis by (simp add: RequireScope_def)
  qed
  with tok need show ?thesis unfolding r'_def [symmetric] by blast
qed

definition proxied_service :: service where
  "proxied_service = plain_service\<lparr>MTLSProxyHeader := ''X-Ssl-Client-Verify''\<rparr>"

definition forged :: http_request where
  "forged = \<lparr>rq_method = ''DELETE'', rq_path = ''/api/closures'', rq_headers = [(''X-Ssl-Client-Verify'', ''SUCCESS'')], rq_peer = None\<rparr>"

theorem stripped_request_needs_token_witness:
  "admit proxied_service ''DELETE /api/closures'' (public_request proxied_service forged)
     = Some (CleanupClosures, Refused 401 ''Unauthorized'')"
proof -
  have h: "MTLSProxyHeader proxied_service \<noteq> ''Authorization''" "MTLSSubjectHeader proxied_service \<noteq> ''Authorization''"
    "\<not> NativeMTLS proxied_service" by (simp_all add: proxied_service_def plain_service_def)
  have tok: "requestToken forged = ''''" by code_simp
  obtain g where "admit proxied_service ''DELETE /api/closures'' (public_request proxied_service forged) = Some (CleanupClosures, g)"
    by (simp add: admit_def registerAPIRoutes_def)
  moreover from this stripped_request_needs_token [OF h(3,1,2), of forged] tok have "g = Refused 401 ''Unauthorized''"
    by simp
  ultimately show ?thesis by simp
qed

end
