(* ===== verification/Uploads.thy ===== *)
theory Uploads
  imports Pending
begin

text \<open>
  The handlers of uploads: \<open>src/server/uploads.go\<close> and \<open>src/server/pushes.go\<close>, with the parsing of ids in
  \<open>src/server/http_helpers.go\<close>, and \<open>src/server/present.go\<close> and \<open>src/server/cache_stats.go\<close>. A handler
  maps the decoded request to a reply and the new world.
\<close>

section \<open>Deadlines and ids\<close>

text \<open>In nanoseconds, with the wrap of \<open>time.Duration\<close>; the floor of the limiter is five calls a second.\<close>

definition PendingClosureWriteTimeout :: "int \<Rightarrow> int" where
  "PendingClosureWriteTimeout n =
     (let perObject = \<lfloor>(1000000000 :: rat) / RateMin\<rfloor> in to_i64 (60 * 1000000000 + to_i64 (n * perObject)))"

definition parsePendingClosureID :: "string \<Rightarrow> (nat \<times> string) + int" where
  "parsePendingClosureID idValue =
     (if idValue = '''' then Inl (400, ''missing id'')
      else (case parse_int 32 idValue of
              None \<Rightarrow> Inl (400, ''invalid id'')
            | Some i \<Rightarrow> Inr i))"

section \<open>Starting a push\<close>

record createPendingClosureRequest =
  cr_closure :: "string option"
  cr_objects :: "objectWithRefs list"
  cr_verify_s3 :: bool

record createPushRequest =
  cp_roots :: "string list"
  cp_objects :: "objectWithRefs list"
  cp_verify_s3 :: bool

text \<open>The index of the objects by key, in which a later object replaces an earlier one.\<close>

fun validateObjects ::
  "u64 \<Rightarrow> objectWithRefs list \<Rightarrow> (string \<times> objectWithRefs) list \<Rightarrow>
   (nat \<times> string) + (string \<times> objectWithRefs) list" where
  "validateObjects maxNarSize [] objectsMap = Inr objectsMap"
| "validateObjects maxNarSize (obj # objs) objectsMap =
     (if \<not> IsValidUploadKey (ow_key obj) (ow_type obj) then Inl (400, ''invalid object key'')
      else if 0 < maxNarSize \<and> (case ow_nar_size obj of None \<Rightarrow> False | Some n \<Rightarrow> maxNarSize < n)
      then Inl (400, ''NAR object exceeds server max NAR size'')
      else validateObjects maxNarSize objs (AList.update (ow_key obj) obj objectsMap))"

definition start_reply ::
  "string \<Rightarrow> (go_error + PendingClosureResponse) \<times> world \<Rightarrow> PendingClosureResponse reply \<times> world" where
  "start_reply what r =
     (case r of
        (Inr resp, w) \<Rightarrow> (HttpOk 200 resp, w)
      | (Inl err, w) \<Rightarrow>
          (case handleS3Error err w of
             Some rep \<Rightarrow> rep
           | None \<Rightarrow> (HttpError 500 (''failed to start '' @ what), w)))"

definition CreatePendingClosureHandler ::
  "u64 \<Rightarrow> env \<Rightarrow> createPendingClosureRequest body \<Rightarrow> world \<Rightarrow> PendingClosureResponse reply \<times> world" where
  "CreatePendingClosureHandler maxNarSize e body w =
     (case decodeJSONBody body of
        Inl (code, msg) \<Rightarrow> (HttpError code msg, w)
      | Inr req \<Rightarrow>
          (case cr_closure req of
             None \<Rightarrow> (HttpError 400 ''missing closure key'', w)
           | Some closure \<Rightarrow>
               if \<not> has_suffix closure ''.narinfo'' then (HttpError 400 ''closure key must end with .narinfo'', w)
               else if cr_objects req = [] then (HttpError 400 ''missing objects key'', w)
               else (case validateObjects maxNarSize (cr_objects req) [] of
                       Inl (code, msg) \<Rightarrow> (HttpError code msg, w)
                     | Inr objectsMap \<Rightarrow>
                         start_reply ''upload''
                           (createPendingClosure e closure None objectsMap (cr_verify_s3 req) w))))"

fun check_roots :: "string list \<Rightarrow> (string \<times> objectWithRefs) list \<Rightarrow> (nat \<times> string) option" where
  "check_roots [] objectsMap = None"
| "check_roots (k # ks) objectsMap =
     (if \<not> has_suffix k ''.narinfo'' then Some (400, ''root key must end with .narinfo: '' @ k)
      else if map_of objectsMap k = None then Some (400, ''root is not among the objects: '' @ k)
      else check_roots ks objectsMap)"

definition CreatePushHandler ::
  "u64 \<Rightarrow> env \<Rightarrow> createPushRequest body \<Rightarrow> world \<Rightarrow> PendingClosureResponse reply \<times> world" where
  "CreatePushHandler maxNarSize e body w =
     (case decodeJSONBody body of
        Inl (code, msg) \<Rightarrow> (HttpError code msg, w)
      | Inr req \<Rightarrow>
          if cp_roots req = [] then (HttpError 400 ''missing roots'', w)
          else if cp_objects req = [] then (HttpError 400 ''missing objects key'', w)
          else (case validateObjects maxNarSize (cp_objects req) [] of
                  Inl (code, msg) \<Rightarrow> (HttpError code msg, w)
                | Inr objectsMap \<Rightarrow>
                    (case check_roots (cp_roots req) objectsMap of
                       Some (code, msg) \<Rightarrow> (HttpError code msg, w)
                     | None \<Rightarrow>
                         start_reply ''push''
                           (createPendingClosure e (hd (cp_roots req)) (Some (cp_roots req)) objectsMap
                              (cp_verify_s3 req) w))))"

section \<open>Completing uploads\<close>

definition registerCompletedObject :: "env \<Rightarrow> int \<Rightarrow> string \<Rightarrow> world \<Rightarrow> (go_error + unit) \<times> world" where
  "registerCompletedObject e pendingClosureID objectKey w =
     (case (if db_fault e ''GetPendingObject'' then Inl ConnectionError
            else GetPendingObject pendingClosureID objectKey (w_db w)) of
        Inl NoRows \<Rightarrow>
          if db_fault e ''RegisterCompletedObject'' then (Inl (DbError ConnectionError), w)
          else (Inr (), w\<lparr>w_db := RegisterCompletedObject objectKey [] None (w_db w)\<rparr>)
      | Inl err \<Rightarrow> (Inl (DbError err), w)
      | Inr row \<Rightarrow>
          if db_fault e ''RegisterCompletedObject'' then (Inl (DbError ConnectionError), w)
          else (Inr (), w\<lparr>w_db := RegisterCompletedObject objectKey (po_refs row) (po_size row) (w_db w)\<rparr>))"

fun abort_redundant :: "env \<Rightarrow> string \<Rightarrow> string list \<Rightarrow> world \<Rightarrow> world" where
  "abort_redundant e key [] w = w"
| "abort_redundant e key (u # us) w =
     (case AbortMultipartUpload e key u w of
        (res, w) \<Rightarrow>
          (if (case res of None \<Rightarrow> False | Some r \<Rightarrow> err_code r \<noteq> ''NoSuchUpload'')
              \<or> db_fault e ''DeleteMultipartUpload'' then abort_redundant e key us w
           else abort_redundant e key us (w\<lparr>w_db := DeleteMultipartUpload u (w_db w)\<rparr>)))"

definition abortRedundantMultipartUploads :: "env \<Rightarrow> string \<Rightarrow> string \<Rightarrow> world \<Rightarrow> world" where
  "abortRedundantMultipartUploads e objectKey keepUploadID w =
     (if db_fault e ''GetRedundantMultipartUploads'' then w
      else abort_redundant e objectKey (GetRedundantMultipartUploads objectKey keepUploadID (w_db w)) w)"

record completeMultipartRequest =
  cm_object_key :: string
  cm_upload_id :: string
  cm_parts :: "(int \<times> string) list"

text \<open>The end of a completion that took effect, whatever S3 answered to it.\<close>

definition register_and_clean :: "env \<Rightarrow> int \<Rightarrow> string \<Rightarrow> string \<Rightarrow> world \<Rightarrow> unit reply \<times> world" where
  "register_and_clean e pendingClosureID key upload_id w =
     (case registerCompletedObject e pendingClosureID key w of
        (Inl err, w) \<Rightarrow> (HttpError 500 ''failed to register completed object'', w)
      | (Inr _, w) \<Rightarrow>
          (let w = (if db_fault e ''DeleteMultipartUpload'' then w
                    else w\<lparr>w_db := DeleteMultipartUpload upload_id (w_db w)\<rparr>)
           in (HttpOk 204 (), abortRedundantMultipartUploads e key upload_id w)))"

definition CompleteMultipartUploadHandler ::
  "env \<Rightarrow> completeMultipartRequest body \<Rightarrow> world \<Rightarrow> unit reply \<times> world" where
  "CompleteMultipartUploadHandler e body w =
     (case decodeJSONBody body of
        Inl (code, msg) \<Rightarrow> (HttpError code msg, w)
      | Inr req \<Rightarrow>
          if cm_parts req = [] then (HttpError 400 ''missing parts'', w)
          else (case getValidMultipartUpload e (cm_object_key req) (cm_upload_id req) w of
                  Inl (code, msg) \<Rightarrow> (HttpError code msg, w)
                | Inr m \<Rightarrow>
                    if wait_fault e (cm_object_key req) then (HttpError 503 ''rate limiter context canceled'', w)
                    else (case CompleteMultipartUpload e (cm_object_key req) (cm_upload_id req) w of
                            (None, w) \<Rightarrow>
                              register_and_clean e (mu_pending_closure_id m) (cm_object_key req) (cm_upload_id req)
                                (record_success w)
                          | (Some r, w) \<Rightarrow>
                              (case objectExistsInS3 e (cm_object_key req) w of
                                 (Inr True, w) \<Rightarrow>
                                   register_and_clean e (mu_pending_closure_id m) (cm_object_key req) (cm_upload_id req)
                                     (abortMultipartUpload e (cm_object_key req) (cm_upload_id req) w)
                               | (_, w) \<Rightarrow>
                                   (case handleS3Error (S3Error r) w of
                                      Some rep \<Rightarrow> rep
                                    | None \<Rightarrow> (HttpError 500 ''failed to complete multipart upload'', w))))))"

definition CompleteUploadHandler :: "env \<Rightarrow> string body \<Rightarrow> world \<Rightarrow> unit reply \<times> world" where
  "CompleteUploadHandler e body w =
     (case decodeJSONBody body of
        Inl (code, msg) \<Rightarrow> (HttpError code msg, w)
      | Inr key \<Rightarrow>
          if key = '''' then (HttpError 400 ''missing object_key'', w)
          else (case (if db_fault e ''GetPendingObjectByKey'' then Inl ConnectionError
                      else GetPendingObjectByKey key (w_db w)) of
                  Inl NoRows \<Rightarrow>
                    if \<not> db_fault e ''GetPresentObjects'' \<and> length (GetPresentObjects [key] (w_db w)) = 1
                    then (HttpOk 204 (), w) else (HttpError 404 ''object is not pending upload'', w)
                | Inl _ \<Rightarrow> (HttpError 500 ''failed to look up pending object'', w)
                | Inr row \<Rightarrow>
                    (case objectExistsInS3 e key w of
                       (Inl err, w) \<Rightarrow> (HttpError 500 ''failed to stat object'', w)
                     | (Inr False, w) \<Rightarrow> (HttpError 404 ''object not found in S3'', w)
                     | (Inr True, w) \<Rightarrow>
                         if db_fault e ''RegisterCompletedObject''
                         then (HttpError 500 ''failed to register completed object'', w)
                         else (HttpOk 204 (), w\<lparr>w_db := RegisterCompletedObject key (po_refs row) (po_size row) (w_db w)\<rparr>))))"

definition ObjectExistsHandler :: "env \<Rightarrow> string \<Rightarrow> world \<Rightarrow> unit reply \<times> world" where
  "ObjectExistsHandler e key w =
     (if key = '''' then (HttpError 400 ''missing object key'', w)
      else (case objectExistsInS3 e key w of
              (Inl err, w) \<Rightarrow> (HttpError 500 ''failed to stat object'', w)
            | (Inr False, w) \<Rightarrow> (HttpError 404 '''', w)
            | (Inr True, w) \<Rightarrow> (HttpOk 204 (), w)))"

section \<open>Committing\<close>

definition CommitPendingClosureHandler :: "env \<Rightarrow> string \<Rightarrow> world \<Rightarrow> unit reply \<times> world" where
  "CommitPendingClosureHandler e idValue w =
     (case parsePendingClosureID idValue of
        Inl (code, msg) \<Rightarrow> (HttpError code msg, w)
      | Inr i \<Rightarrow>
          (case commitPendingClosure e i w of
             (Inl (OtherError msg), w) \<Rightarrow> (HttpError 404 ''pending closure not found'', w)
           | (Inl err, w) \<Rightarrow> (HttpError 500 ''failed to complete upload'', w)
           | (Inr folded, w) \<Rightarrow> (HttpOk 204 (), w)))"

definition CompletePushHandler :: "env \<Rightarrow> string \<Rightarrow> world \<Rightarrow> unit reply \<times> world" where
  "CompletePushHandler e idValue w =
     (case parsePendingClosureID idValue of
        Inl (code, msg) \<Rightarrow> (HttpError code msg, w)
      | Inr i \<Rightarrow>
          (case (if db_fault e ''CommitPush'' then Inl ConnectionError else CommitPush (now e) i (w_db w)) of
             Inl (PushDoesNotExist j) \<Rightarrow> (HttpError 404 ''push not found'', w)
           | Inl (PushObjectMissing k) \<Rightarrow> (HttpError 409 (''Push object missing: '' @ k), w)
           | Inl err \<Rightarrow> (HttpError 500 ''failed to complete push'', w)
           | Inr (folded, d) \<Rightarrow> (HttpOk 204 (), w\<lparr>w_db := d\<rparr>)))"

section \<open>Queries\<close>

definition PresentHandler :: "env \<Rightarrow> string list body \<Rightarrow> world \<Rightarrow> string list reply \<times> world" where
  "PresentHandler e body w =
     (case decodeJSONBody body of
        Inl (code, msg) \<Rightarrow> (HttpError code msg, w)
      | Inr keys \<Rightarrow>
          if db_fault e ''TouchPresentClosures'' then (HttpError 500 ''present'', w)
          else (let (present, d) = TouchPresentClosures (now e) keys (w_db w)
                in (HttpOk 200 present, w\<lparr>w_db := d\<rparr>)))"

definition CacheStatsHandler :: "env \<Rightarrow> world \<Rightarrow> (int \<times> int) reply" where
  "CacheStatsHandler e w =
     (if db_fault e ''GetObjectStats'' then HttpError 500 ''failed to read cache stats''
      else HttpOk 200 (GetObjectStats (w_db w)))"

section \<open>What completing uploads changes\<close>

text \<open>Only the table of multipart uploads may differ.\<close>

definition same_but_multipart :: "db \<Rightarrow> db \<Rightarrow> bool" where
  "same_but_multipart d d' \<longleftrightarrow> (\<exists>ms. d' = d\<lparr>multipart_uploads := ms\<rparr>)"

lemma same_but_multipart_refl [simp, intro]: "same_but_multipart d d"
  unfolding same_but_multipart_def by (rule exI [of _ "multipart_uploads d"]) simp

lemma same_but_multipart_trans: "same_but_multipart d d1 \<Longrightarrow> same_but_multipart d1 d2 \<Longrightarrow> same_but_multipart d d2"
  by (auto simp: same_but_multipart_def)

lemma same_but_multipart_delete: "same_but_multipart d (DeleteMultipartUpload u d)"
  by (auto simp: same_but_multipart_def DeleteMultipartUpload_def)

lemma same_but_multipart_tables:
  assumes "same_but_multipart d d'"
  shows "objects d' = objects d" "pending_objects d' = pending_objects d" "pending_closures d' = pending_closures d"
    "closures d' = closures d" "pins d' = pins d" "next_id d' = next_id d"
  using assms by (auto simp: same_but_multipart_def)

lemma abort_redundant_effect:
  "db_inv (w_db w) \<Longrightarrow> db_inv (w_db (abort_redundant e key us w)) \<and>
   same_but_multipart (w_db w) (w_db (abort_redundant e key us w)) \<and> bucket (abort_redundant e key us w) = bucket w"
proof (induction us arbitrary: w)
  case (Cons u us)
  obtain x w1 where ab: "AbortMultipartUpload e key u w = (x, w1)" by fastforce
  have w1: "w_db w1 = w_db w" "bucket w1 = bucket w" using abort_frame(1,2) [of e key u w] by (simp_all add: ab)
  let ?w2 = "w1\<lparr>w_db := DeleteMultipartUpload u (w_db w1)\<rparr>"
  have inv: "db_inv (w_db w1)" "db_inv (w_db ?w2)" using Cons.prems by (simp_all add: w1 DeleteMultipartUpload_inv)
  from Cons.IH [OF inv(1)] Cons.IH [OF inv(2)] ab show ?case
    using same_but_multipart_trans [OF same_but_multipart_delete [of "w_db w" u]]
    by (auto simp: w1)
qed simp

lemma abortRedundant_effect:
  assumes "db_inv (w_db w)"
  shows "db_inv (w_db (abortRedundantMultipartUploads e key u w))"
    "same_but_multipart (w_db w) (w_db (abortRedundantMultipartUploads e key u w))"
    "bucket (abortRedundantMultipartUploads e key u w) = bucket w"
  using abort_redundant_effect [OF assms] assms by (auto simp: abortRedundantMultipartUploads_def)

lemma registerCompletedObject_cases:
  assumes "registerCompletedObject e i key w = (res, w')"
  obtains (failed) err where "res = Inl err" "w' = w"
  | (ok) refs sz where "res = Inr ()" "w' = w\<lparr>w_db := RegisterCompletedObject key refs sz (w_db w)\<rparr>"
proof -
  let ?q = "if db_fault e ''GetPendingObject'' then Inl ConnectionError else GetPendingObject i key (w_db w)"
  show thesis
  proof (cases ?q)
    case (Inl err)
    with assms failed ok [of "[]" None] show thesis
      by (cases "err = NoRows") (auto simp: registerCompletedObject_def split: if_splits db_error.splits)
  next
    case (Inr row)
    with assms failed ok [of "po_refs row" "po_size row"] show thesis
      by (auto simp: registerCompletedObject_def split: if_splits)
  qed
qed

text \<open>A registration makes the key live only while some push has it pending.\<close>

definition registers :: "string \<Rightarrow> world \<Rightarrow> world \<Rightarrow> bool" where
  "registers key w w' \<longleftrightarrow> db_inv (w_db w') \<and> set (bucket w) \<subseteq> set (bucket w') \<and> set (bucket w') \<subseteq> insert key (set (bucket w)) \<and>
     pending_objects (w_db w') = pending_objects (w_db w) \<and> pending_closures (w_db w') = pending_closures (w_db w) \<and>
     closures (w_db w') = closures (w_db w) \<and> next_id (w_db w') = next_id (w_db w) \<and>
     (\<forall>k. k \<noteq> key \<longrightarrow> object_of (w_db w') k = object_of (w_db w) k) \<and>
     (object_of (w_db w') key = object_of (w_db w) key \<or> (key \<in> set (bucket w') \<and> pending_key (w_db w) key \<and> live (w_db w') key))"

lemma register_registers:
  assumes "db_inv (w_db w)" "key \<in> set (bucket w)"
  shows "registers key w (w\<lparr>w_db := RegisterCompletedObject key refs sz (w_db w)\<rparr>)"
  using assms RegisterCompletedObject_inv [OF assms(1), of key refs sz]
  by (auto simp: registers_def RegisterCompletedObject_def obj_upsert_lookup live_def merge_row_def alive_def
      split: option.splits)

lemma registers_refl: "db_inv (w_db w) \<Longrightarrow> registers key w w"
  by (auto simp: registers_def)

lemma registers_frame:
  assumes "registers key w w1" "db_inv (w_db w2)" "same_but_multipart (w_db w1) (w_db w2)" "bucket w2 = bucket w1"
  shows "registers key w w2"
  using assms same_but_multipart_tables [OF assms(3)] by (simp add: registers_def live_def)

lemma registers_later:
  assumes "registers key w1 w2" "w_db w1 = w_db w" "set (bucket w) \<subseteq> set (bucket w1)" "set (bucket w1) \<subseteq> insert key (set (bucket w))"
  shows "registers key w w2"
  using assms by (auto simp: registers_def)

lemma CompleteUploadHandler_registers:
  assumes "db_inv (w_db w)" "CompleteUploadHandler e (Decoded key) w = (rep, w')"
  shows "registers key w w'"
proof -
  obtain x w1 where st: "objectExistsInS3 e key w = (x, w1)" by fastforce
  have w1: "w_db w1 = w_db w" "bucket w1 = bucket w" using objectExistsInS3_frame(1,2) [of e key w] by (simp_all add: st)
  have "w' = w \<or> w' = w1 \<or> (x = Inr True \<and> (\<exists>refs sz. w' = w1\<lparr>w_db := RegisterCompletedObject key refs sz (w_db w1)\<rparr>))"
    using assms(2) st
    by (auto simp: CompleteUploadHandler_def decodeJSONBody_def split: if_splits sum.splits db_error.splits bool.splits)
  then consider "w' = w" | "w' = w1" | refs sz where "x = Inr True" "w' = w1\<lparr>w_db := RegisterCompletedObject key refs sz (w_db w1)\<rparr>"
    by blast
  then show ?thesis
  proof cases
    case 3
    from objectExistsInS3_true [of e key w] 3(1) st have "key \<in> set (bucket w1)" by (simp add: w1)
    moreover have "db_inv (w_db w1)" using assms(1) w1 by simp
    ultimately have "registers key w1 w'" unfolding 3(2) by (rule register_registers [rotated])
    then show ?thesis by (rule registers_later) (simp_all add: w1 subset_insertI)
  qed (use assms(1) w1 in \<open>simp_all add: registers_def subset_insertI\<close>)
qed

lemma register_and_clean_registers:
  assumes "db_inv (w_db w)" "key \<in> set (bucket w)" "register_and_clean e i key u w = (rep, w')"
  shows "registers key w w'"
proof -
  obtain x w1 where reg: "registerCompletedObject e i key w = (x, w1)" by fastforce
  then show ?thesis
  proof (cases rule: registerCompletedObject_cases)
    case (failed err)
    with assms(3) reg have "w' = w" by (simp add: register_and_clean_def)
    with assms(1) show ?thesis by (simp add: registers_refl)
  next
    case (ok refs sz)
    have r1: "registers key w w1" unfolding ok(2) by (rule register_registers [OF assms(1,2)])
    then have inv1: "db_inv (w_db w1)" by (simp add: registers_def)
    let ?w2 = "if db_fault e ''DeleteMultipartUpload'' then w1 else w1\<lparr>w_db := DeleteMultipartUpload u (w_db w1)\<rparr>"
    have w2: "db_inv (w_db ?w2)" "same_but_multipart (w_db w1) (w_db ?w2)" "bucket ?w2 = bucket w1"
      using inv1 by (simp_all add: DeleteMultipartUpload_inv same_but_multipart_delete)
    have w': "w' = abortRedundantMultipartUploads e key u ?w2"
      using assms(3) reg ok(1) by (simp add: register_and_clean_def Let_def)
    from registers_frame [OF r1 w2] show ?thesis unfolding w'
      by (rule registers_frame) (use abortRedundant_effect [OF w2(1)] in auto)
  qed
qed

lemma CompleteMultipartUpload_effect:
  assumes "CompleteMultipartUpload e key u w = (x, w')"
  shows "w_db w' = w_db w" "set (bucket w) \<subseteq> set (bucket w')" "set (bucket w') \<subseteq> insert key (set (bucket w))"
    "x = None \<Longrightarrow> key \<in> set (bucket w')"
  using assms by (auto simp: CompleteMultipartUpload_def finish_upload_def split: if_splits option.splits)

lemma CompleteMultipartUploadHandler_registers:
  assumes "db_inv (w_db w)" "CompleteMultipartUploadHandler e (Decoded req) w = (rep, w')"
  shows "registers (cm_object_key req) w w'"
proof -
  let ?key = "cm_object_key req" and ?u = "cm_upload_id req"
  obtain x w1 where com: "CompleteMultipartUpload e ?key ?u w = (x, w1)" by fastforce
  note w1 = CompleteMultipartUpload_effect [OF com]
  obtain y w2 where st: "objectExistsInS3 e ?key w1 = (y, w2)" by fastforce
  have w2: "w_db w2 = w_db w1" "bucket w2 = bucket w1"
    using objectExistsInS3_frame(1,2) [of e ?key w1] by (simp_all add: st)
  have S3: "handleS3Error (S3Error r) w2 = Some (rep0, w3) \<Longrightarrow> w_db w3 = w_db w2 \<and> bucket w3 = bucket w2"
    for r w3 and rep0 :: "unit reply" by (auto simp: handleS3Error_def split: if_splits)
  consider "w' = w"
    | i where "x = None" "register_and_clean e i ?key ?u (record_success w1) = (rep, w')"
    | i where "y = Inr True" "register_and_clean e i ?key ?u (abortMultipartUpload e ?key ?u w2) = (rep, w')"
    | "w_db w' = w_db w2" "bucket w' = bucket w2"
  proof -
    note run = assms(2) [unfolded CompleteMultipartUploadHandler_def decodeJSONBody_def body.case sum.case com prod.case st]
    show thesis
    proof (cases "getValidMultipartUpload e ?key ?u w")
      case (Inl err)
      with run that(1) show thesis by (cases err) (simp split: if_splits)
    next
      case (Inr m)
      show thesis
      proof (cases "cm_parts req = [] \<or> wait_fault e ?key")
        case True
        with run Inr that(1) show thesis by (auto split: if_splits)
      next
        case False
        with run Inr have go: "(case x of
           None \<Rightarrow> register_and_clean e (mu_pending_closure_id m) ?key ?u (record_success w1)
         | Some r \<Rightarrow> (case y of Inr True \<Rightarrow> register_and_clean e (mu_pending_closure_id m) ?key ?u (abortMultipartUpload e ?key ?u w2)
             | _ \<Rightarrow> (case handleS3Error (S3Error r) w2 of Some rep \<Rightarrow> rep
                 | None \<Rightarrow> (HttpError 500 ''failed to complete multipart upload'', w2)))) = (rep, w')"
          by (simp split: option.splits sum.splits bool.splits)
        show thesis
        proof (cases "x = None \<or> y = Inr True")
          case True
          with go that(2,3) show thesis by (cases x) auto
        next
          case False
          then obtain r where r: "x = Some r" "y \<noteq> Inr True" by auto
          then have "(case y of Inr True \<Rightarrow> p | _ \<Rightarrow> q) = q" for p q :: "unit reply \<times> world"
            by (auto split: sum.splits bool.splits)
          with go r(1) have "(case handleS3Error (S3Error r) w2 of Some rep \<Rightarrow> rep
                 | None \<Rightarrow> (HttpError 500 ''failed to complete multipart upload'', w2)) = (rep, w')" by simp
          then have "w' = w2 \<or> handleS3Error (S3Error r) w2 = Some (rep, w')" by (auto split: option.splits)
          with S3 that(4) show thesis by blast
        qed
      qed
    qed
  qed
  then show ?thesis
  proof cases
    case 1
    with assms(1) show ?thesis by (simp add: registers_refl)
  next
    case (2 i)
    have "registers ?key (record_success w1) w'"
      by (rule register_and_clean_registers [OF _ _ 2(2)]) (use assms(1) w1 2(1) in auto)
    then show ?thesis by (rule registers_later) (use w1 in auto)
  next
    case (3 i)
    have "?key \<in> set (bucket w1)" using objectExistsInS3_true [of e ?key w1] 3(1) st by simp
    then have "registers ?key (abortMultipartUpload e ?key ?u w2) w'"
      by (intro register_and_clean_registers [OF _ _ 3(2)]) (use assms(1) w1 w2 in auto)
    then show ?thesis by (rule registers_later) (use w1 w2 in auto)
  next
    case 4
    with assms(1) w1 w2 show ?thesis by (simp add: registers_def live_def)
  qed
qed

end
