(* ===== verification/Races.thy ===== *)
theory Races
  imports Uploads Gc
begin

text \<open>
  Pushes, completions, commits and a garbage collection racing on the tables and the bucket. A step
  is one transaction or one S3 call of the handlers and of the collector; PostgreSQL's row locks are
  guards of the steps that wait for them, and a statement that works on a snapshot is two steps, one
  that takes the snapshot and one that acts. The steps call the definitions of the operations, so
  the step relation is the code of \<open>pending_closure.go\<close>, \<open>uploads.go\<close>, \<open>pushes.go\<close>,
  \<open>objects_model.go\<close> and \<open>pending_cleanup.go\<close>, cut where other sessions can come in between.
\<close>

section \<open>States\<close>

text \<open>
  A sweep transaction: the keys its query selected on a snapshot, the rows it then locked, and the
  removal of what it rechecked. \<open>sw_keys\<close> are the locked rows; the other fields are those of the
  results of \<open>RemoveObjectsWithResult\<close> so far.
\<close>

record removing =
  sw_keys :: "string list"
  sw_todo :: "string list"
  sw_deleted :: "string list"
  sw_errors :: "go_error list"
  sw_unanswered :: "string list"

datatype sweep_phase = NoSweep | Selected "string list" | Holding "string list" | Removing removing

text \<open>
  \<open>sy_lookups\<close>: pushes whose pending rows are committed and whose lookup has not run. \<open>sy_told\<close>: what a
  looked-up push was told to upload. \<open>sy_put\<close>: objects a client knows it has uploaded. \<open>sy_seen\<close>: objects a
  completion request has found in S3 and not registered yet. \<open>sy_mark\<close>: the snapshot of a running mark.
\<close>

record sys =
  sy_world :: world
  sy_lookups :: "(int \<times> (string \<times> pending_object_row) list) list"
  sy_told :: "(int \<times> string list) list"
  sy_put :: "(int \<times> string) list"
  sy_seen :: "string list"
  sy_mark :: "db option"
  sy_sweep :: sweep_phase

definition held_keys :: "sweep_phase \<Rightarrow> string list" where
  "held_keys p = (case p of Holding keys \<Rightarrow> keys | Removing r \<Rightarrow> sw_keys r | _ \<Rightarrow> [])"

abbreviation held :: "sys \<Rightarrow> string \<Rightarrow> bool" where
  "held s k \<equiv> k \<in> set (held_keys (sy_sweep s))"

abbreviation sy_db :: "sys \<Rightarrow> db" where
  "sy_db s \<equiv> w_db (sy_world s)"

definition with_db :: "sys \<Rightarrow> db \<Rightarrow> sys" where
  "with_db s d = s\<lparr>sy_world := (sy_world s)\<lparr>w_db := d\<rparr>\<rparr>"

definition sys_start :: sys where
  "sys_start = \<lparr>sy_world = empty_world, sy_lookups = [], sy_told = [], sy_put = [], sy_seen = [],
     sy_mark = None, sy_sweep = NoSweep\<rparr>"

text \<open>The update of \<open>MarkStaleObjects\<close>, whose subqueries read the snapshot of the statement.\<close>

definition mark_rows :: "time \<Rightarrow> db \<Rightarrow> db \<Rightarrow> db" where
  "mark_rows t snap d =
     (let reach = closure_reach snap (List.map fst (closures snap)) in
      obj_update (\<lambda>k r. if stale snap reach k r
                        then Some (r\<lparr>o_deleted_at := Some t,
                                     o_first_deleted_at := (case o_first_deleted_at r of None \<Rightarrow> Some t | Some t0 \<Rightarrow> Some t0)\<rparr>)
                        else None) d)"

lemma MarkStaleObjects_snapshot: "snd (MarkStaleObjects t d) = mark_rows t d d"
  by (simp add: MarkStaleObjects_def mark_rows_def Let_def)

definition removal_of :: "removing \<Rightarrow> world \<Rightarrow> removal" where
  "removal_of r w = \<lparr>rm_deleted = sw_deleted r, rm_errors = sw_errors r, rm_unanswered = sw_unanswered r, rm_world = w\<rparr>"

definition after_removal :: "removing \<Rightarrow> string list \<Rightarrow> removal \<Rightarrow> removing" where
  "after_removal r todo x = \<lparr>sw_keys = sw_keys r, sw_todo = todo, sw_deleted = rm_deleted x,
     sw_errors = rm_errors x, sw_unanswered = rm_unanswered x\<rparr>"

section \<open>Steps\<close>

text \<open>
  With \<open>brisk\<close> no sweep removes an object between the moment a completion request finds it in S3 and
  the moment the request registers it. The pending row the request relied on would have to expire and
  the grace period to pass in between.
\<close>

inductive sys_step :: "bool \<Rightarrow> sys \<Rightarrow> sys \<Rightarrow> bool" for brisk where
  insert: "insertPendingClosure e key roots objs (sy_world s) = (Inr ((i, row), rows), w') \<Longrightarrow>
    sys_step brisk s (s\<lparr>sy_world := w', sy_lookups := (i, rows) # sy_lookups s\<rparr>)"
| lookup: "(i, rows) \<in> set (sy_lookups s) \<Longrightarrow> \<forall>k \<in> fst ` set rows. \<not> held s k \<Longrightarrow>
    objectsToUpload e rows verify (sy_world s) = (Inr up, w') \<Longrightarrow>
    sys_step brisk s (s\<lparr>sy_world := w', sy_lookups := filter (\<lambda>(j, rs). j \<noteq> i) (sy_lookups s),
      sy_told := (i, List.map fst up) # sy_told s\<rparr>)"
| lookup_failed: "(i, rows) \<in> set (sy_lookups s) \<Longrightarrow>
    objectsToUpload e rows verify (sy_world s) = (Inl err, w') \<Longrightarrow> d' \<in> {w_db w', DeletePendingClosure i (w_db w')} \<Longrightarrow>
    sys_step brisk s (s\<lparr>sy_world := w'\<lparr>w_db := d'\<rparr>, sy_lookups := filter (\<lambda>(j, rs). j \<noteq> i) (sy_lookups s)\<rparr>)"
| respond: "createPendingObjects e i params objs (sy_world s) = (res, w') \<Longrightarrow>
    sys_step brisk s (s\<lparr>sy_world := w'\<rparr>)"
| put: "(i, ks) \<in> set (sy_told s) \<Longrightarrow> k \<in> set ks \<Longrightarrow> PutObject e k (sy_world s) = (res, w') \<Longrightarrow>
    sys_step brisk s (s\<lparr>sy_world := w'\<rparr>)"
| finish: "CompleteMultipartUpload e k u (sy_world s) = (res, w') \<Longrightarrow>
    sys_step brisk s (s\<lparr>sy_world := w', sy_seen := (if res = None then [k] else []) @ sy_seen s\<rparr>)"
| acknowledge: "(i, ks) \<in> set (sy_told s) \<Longrightarrow> k \<in> set ks \<Longrightarrow> k \<in> set (bucket (sy_world s)) \<Longrightarrow>
    sys_step brisk s (s\<lparr>sy_put := (i, k) # sy_put s\<rparr>)"
| see: "objectExistsInS3 e k (sy_world s) = (res, w') \<Longrightarrow>
    sys_step brisk s (s\<lparr>sy_world := w', sy_seen := (if res = Inr True then [k] else []) @ sy_seen s\<rparr>)"
| register: "k \<in> set (sy_seen s) \<Longrightarrow> \<not> held s k \<Longrightarrow>
    sys_step brisk s ((with_db s (RegisterCompletedObject k refs sz (sy_db s)))\<lparr>sy_seen := remove1 k (sy_seen s)\<rparr>)"
| give_up: "sys_step brisk s (s\<lparr>sy_seen := remove1 k (sy_seen s)\<rparr>)"
| commit_push: "(i, ks) \<in> set (sy_told s) \<Longrightarrow> \<forall>k \<in> set ks. (i, k) \<in> set (sy_put s) \<Longrightarrow>
    \<forall>k \<in> set (GetPendingObjectKeys i (sy_db s)). \<not> held s k \<Longrightarrow> CommitPush t i (sy_db s) = Inr (n, d') \<Longrightarrow>
    sys_step brisk s (with_db s d')"
| commit_closure: "(i, ks) \<in> set (sy_told s) \<Longrightarrow> \<forall>k \<in> set ks. (i, k) \<in> set (sy_put s) \<Longrightarrow>
    \<forall>k \<in> set (GetPendingObjectKeys i (sy_db s)). \<not> held s k \<Longrightarrow> CommitPendingClosure t i (sy_db s) = Inr (n, d') \<Longrightarrow>
    sys_step brisk s (with_db s d')"
| expire: "CleanupPendingClosures locked cutoff keep (sy_db s) = (n, d') \<Longrightarrow> sys_step brisk s (with_db s d')"
| abort: "AbortMultipartUpload e k u (sy_world s) = (res, w') \<Longrightarrow> sys_step brisk s (s\<lparr>sy_world := w'\<rparr>)"
| forget: "sys_step brisk s (with_db s (DeleteMultipartUpload u (sy_db s)))"
| unpublish: "DeleteUnpinnedClosures keys (sy_db s) = (n, d') \<Longrightarrow> sys_step brisk s (with_db s d')"
| touch: "TouchPresentClosures t keys (sy_db s) = (present, d') \<Longrightarrow> sys_step brisk s (with_db s d')"
| pin: "UpsertPin t name key path (sy_db s) = Inr d' \<Longrightarrow> sys_step brisk s (with_db s d')"
| unpin: "sys_step brisk s (with_db s (DeletePin name (sy_db s)))"
| mark_begin: "sys_step brisk s (s\<lparr>sy_mark := Some (sy_db s)\<rparr>)"
| mark_end: "sy_mark s = Some snap \<Longrightarrow>
    sys_step brisk s ((with_db s (mark_rows t snap (sy_db s)))\<lparr>sy_mark := None\<rparr>)"
| sweep_select: "sy_sweep s = NoSweep \<Longrightarrow>
    sys_step brisk s (s\<lparr>sy_sweep := Selected (LockObjectsReadyForDeletion locked t grace after_key n (sy_db s))\<rparr>)"
| sweep_lock: "sy_sweep s = Selected keys \<Longrightarrow> set keys' \<subseteq> {k \<in> set keys. tombstoned (sy_db s) k} \<Longrightarrow>
    sys_step brisk s (s\<lparr>sy_sweep := Holding keys'\<rparr>)"
| sweep_recheck: "sy_sweep s = Holding keys \<Longrightarrow>
    sys_step brisk s (s\<lparr>sy_sweep := Removing \<lparr>sw_keys = keys, sw_todo = GetKeysNotPending keys (sy_db s),
      sw_deleted = [], sw_errors = [], sw_unanswered = []\<rparr>\<rparr>)"
| sweep_remove: "sy_sweep s = Removing r \<Longrightarrow> sw_todo r = k # todo \<Longrightarrow> (brisk \<longrightarrow> k \<notin> set (sy_seen s)) \<Longrightarrow>
    remove_one e k (removal_of r (sy_world s)) = x \<Longrightarrow>
    sys_step brisk s (s\<lparr>sy_world := rm_world x, sy_sweep := Removing (after_removal r todo x)\<rparr>)"
| sweep_finish: "sy_sweep s = Removing r \<Longrightarrow> sw_todo r = [] \<Longrightarrow>
    sys_step brisk s ((with_db s (DeleteObjects
      (sw_deleted r @ filter (isAbsent e (sy_world s)) (sw_unanswered r)) (sy_db s)))\<lparr>sy_sweep := NoSweep\<rparr>)"
| sweep_abort: "sys_step brisk s (s\<lparr>sy_sweep := NoSweep\<rparr>)"

inductive_cases sys_stepE: "sys_step brisk s s'"

section \<open>The invariant\<close>

definition pends :: "db \<Rightarrow> (int \<times> string) set" where
  "pends d = fst ` set (pending_objects d)"

text \<open>What a push counts on: an object it has pending is in the bucket, or it still has to upload it.\<close>

definition backed :: "sys \<Rightarrow> int \<Rightarrow> string list \<Rightarrow> string \<Rightarrow> bool" where
  "backed s i ks k \<longleftrightarrow> k \<in> set (bucket (sy_world s)) \<or> (k \<in> set ks \<and> (i, k) \<notin> set (sy_put s))"

definition told_ids :: "sys \<Rightarrow> int set" where
  "told_ids s = fst ` set (sy_told s)"

lemma told_ids_eq: "sy_told s' = sy_told s \<Longrightarrow> told_ids s' = told_ids s"
  by (simp add: told_ids_def)

lemma told_ids_update [simp]:
  "told_ids (s\<lparr>sy_world := w\<rparr>) = told_ids s" "told_ids (s\<lparr>sy_lookups := ls\<rparr>) = told_ids s"
  "told_ids (s\<lparr>sy_put := ps\<rparr>) = told_ids s" "told_ids (s\<lparr>sy_seen := ss\<rparr>) = told_ids s"
  "told_ids (s\<lparr>sy_mark := m\<rparr>) = told_ids s" "told_ids (s\<lparr>sy_sweep := p\<rparr>) = told_ids s"
  by (simp_all add: told_ids_def)

definition told_ok :: "sys \<Rightarrow> bool" where
  "told_ok s \<longleftrightarrow> (\<forall>i ks. (i, ks) \<in> set (sy_told s) \<longrightarrow>
     i < next_id (sy_db s) \<and> (\<forall>k. (i, k) \<in> pends (sy_db s) \<longrightarrow> backed s i ks k))"

definition lookups_ok :: "sys \<Rightarrow> bool" where
  "lookups_ok s \<longleftrightarrow> (\<forall>i rows. (i, rows) \<in> set (sy_lookups s) \<longrightarrow>
     i < next_id (sy_db s) \<and> i \<notin> told_ids s \<and>
     (\<forall>k. (i, k) \<in> pends (sy_db s) \<longrightarrow> k \<in> fst ` set rows))"

definition put_ok :: "sys \<Rightarrow> bool" where
  "put_ok s \<longleftrightarrow> fst ` set (sy_put s) \<subseteq> told_ids s"

definition sweep_ok :: "sys \<Rightarrow> bool" where
  "sweep_ok s \<longleftrightarrow>
     (\<forall>k. held s k \<longrightarrow> tombstoned (sy_db s) k) \<and>
     (\<forall>r. sy_sweep s = Removing r \<longrightarrow>
        set (sw_todo r) \<union> set (sw_deleted r) \<union> set (sw_unanswered r) \<subseteq> set (sw_keys r) \<and>
        (\<forall>k \<in> set (sw_todo r). \<forall>i \<in> told_ids s. (i, k) \<notin> pends (sy_db s)))"

definition sys_inv :: "sys \<Rightarrow> bool" where
  "sys_inv s \<longleftrightarrow> db_inv (sy_db s) \<and> (\<forall>k. live (sy_db s) k \<longrightarrow> k \<in> set (bucket (sy_world s))) \<and>
     set (sy_seen s) \<subseteq> set (bucket (sy_world s)) \<and> told_ok s \<and> lookups_ok s \<and> put_ok s \<and> sweep_ok s"

lemma sys_inv_start: "sys_inv sys_start"
proof -
  have "sy_db sys_start = empty_db" by (simp add: sys_start_def empty_world_def)
  then show ?thesis
    by (simp add: sys_inv_def db_inv_empty) (simp add: sys_start_def empty_world_def told_ok_def lookups_ok_def put_ok_def sweep_ok_def
      held_keys_def live_def empty_db_def)
qed

text \<open>
  What most steps do to the world: they keep the invariant of the tables, make nothing pending,
  remove nothing from the bucket, make only objects live that are in it, and leave tombstones that
  the sweep holds alone.
\<close>

definition gentle :: "string set \<Rightarrow> world \<Rightarrow> world \<Rightarrow> bool" where
  "gentle L w w' \<longleftrightarrow> db_inv (w_db w') \<and> pends (w_db w') \<subseteq> pends (w_db w) \<and> next_id (w_db w) \<le> next_id (w_db w') \<and>
     set (bucket w) \<subseteq> set (bucket w') \<and> (\<forall>k. live (w_db w') k \<longrightarrow> live (w_db w) k \<or> k \<in> set (bucket w')) \<and>
     (\<forall>k \<in> L. tombstoned (w_db w) k \<longrightarrow> tombstoned (w_db w') k)"

lemma gentleD:
  assumes "gentle L w w'"
  shows "db_inv (w_db w')" "p \<in> pends (w_db w') \<Longrightarrow> p \<in> pends (w_db w)" "i < next_id (w_db w) \<Longrightarrow> i < next_id (w_db w')"
    "k \<in> set (bucket w) \<Longrightarrow> k \<in> set (bucket w')" "live (w_db w') k \<Longrightarrow> live (w_db w) k \<or> k \<in> set (bucket w')"
    "k \<in> L \<Longrightarrow> tombstoned (w_db w) k \<Longrightarrow> tombstoned (w_db w') k"
  using assms by (auto simp: gentle_def)

lemma gentle_inv:
  assumes "sys_inv s" "gentle (set (held_keys (sy_sweep s))) (sy_world s) w'"
  shows "sys_inv (s\<lparr>sy_world := w'\<rparr>)"
proof -
  note g = gentleD [OF assms(2)]
  have "told_ok (s\<lparr>sy_world := w'\<rparr>)"
    using assms(1) g(2-4) unfolding sys_inv_def told_ok_def backed_def by simp blast
  moreover have "lookups_ok (s\<lparr>sy_world := w'\<rparr>)"
    using assms(1) g(2,3) by (auto simp: sys_inv_def lookups_ok_def)
  moreover have "sweep_ok (s\<lparr>sy_world := w'\<rparr>)"
    using assms(1) g(2,6) unfolding sys_inv_def sweep_ok_def by simp blast
  ultimately show ?thesis using assms(1) g(1,4,5) by (auto simp: sys_inv_def put_ok_def)
qed

text \<open>The other fields, one lemma for each kind of change.\<close>

lemma seen_inv:
  "sys_inv s \<Longrightarrow> set ks \<subseteq> set (bucket (sy_world s)) \<Longrightarrow> sys_inv (s\<lparr>sy_seen := ks\<rparr>)"
  by (simp add: sys_inv_def told_ok_def backed_def lookups_ok_def put_ok_def sweep_ok_def)

lemma mark_inv: "sys_inv s \<Longrightarrow> sys_inv (s\<lparr>sy_mark := m\<rparr>)"
  by (simp add: sys_inv_def told_ok_def backed_def lookups_ok_def put_ok_def sweep_ok_def)

lemma lookups_drop_inv: "sys_inv s \<Longrightarrow> set ls \<subseteq> set (sy_lookups s) \<Longrightarrow> sys_inv (s\<lparr>sy_lookups := ls\<rparr>)"
  by (auto simp: sys_inv_def told_ok_def backed_def lookups_ok_def put_ok_def sweep_ok_def)

lemma put_inv:
  assumes "sys_inv s" "i \<in> told_ids s" "k \<in> set (bucket (sy_world s))"
  shows "sys_inv (s\<lparr>sy_put := (i, k) # sy_put s\<rparr>)"
proof -
  have "told_ok (s\<lparr>sy_put := (i, k) # sy_put s\<rparr>)"
    using assms unfolding sys_inv_def told_ok_def backed_def by simp blast
  with assms show ?thesis by (auto simp: sys_inv_def lookups_ok_def put_ok_def sweep_ok_def)
qed

lemma told_inv:
  assumes inv: "sys_inv s" and own: "(i, rows) \<in> set (sy_lookups s)"
    and free: "\<forall>k \<in> fst ` set rows. \<not> held s k"
    and skip: "\<And>k. (i, k) \<in> pends (sy_db s) \<Longrightarrow> k \<notin> set ks \<Longrightarrow> k \<in> set (bucket (sy_world s))"
  shows "sys_inv (s\<lparr>sy_lookups := filter (\<lambda>(j, rs). j \<noteq> i) (sy_lookups s), sy_told := (i, ks) # sy_told s\<rparr>)"
    (is "sys_inv ?s'")
proof -
  from inv own have i: "i < next_id (sy_db s)" "i \<notin> told_ids s"
    and rows: "\<And>k. (i, k) \<in> pends (sy_db s) \<Longrightarrow> k \<in> fst ` set rows"
    by (auto simp: sys_inv_def lookups_ok_def)
  have nput: "(i, k) \<notin> set (sy_put s)" for k
    using inv i(2) by (force simp: sys_inv_def put_ok_def)
  have ids: "told_ids ?s' = insert i (told_ids s)" by (simp add: told_ids_def)
  have "told_ok ?s'" using inv i(1) skip nput by (auto simp: sys_inv_def told_ok_def backed_def)
  moreover have "lookups_ok ?s'"
    using inv by (auto simp: sys_inv_def lookups_ok_def ids)
  moreover have "put_ok ?s'" using inv by (auto simp: sys_inv_def put_ok_def ids)
  moreover have "sweep_ok ?s'"
  proof (cases "sy_sweep s")
    case (Removing r)
    with inv have todo: "set (sw_todo r) \<subseteq> set (sw_keys r)" by (simp add: sys_inv_def sweep_ok_def)
    have "(i, k) \<notin> pends (sy_db s)" if "k \<in> set (sw_todo r)" for k
      using rows [of k] free todo that by (auto simp: Removing held_keys_def)
    with inv Removing show ?thesis by (simp add: sys_inv_def sweep_ok_def ids)
  qed (use inv in \<open>simp_all add: sys_inv_def sweep_ok_def\<close>)
  ultimately show ?thesis using inv by (simp add: sys_inv_def)
qed

section \<open>Every step keeps the invariant\<close>

lemma tombstoned_cong: "object_of d' k = object_of d k \<Longrightarrow> tombstoned d' k = tombstoned d k"
  by (simp only: tombstoned_def)

lemma gentle_same_objects:
  assumes "db_inv (w_db w')" "objects (w_db w') = objects (w_db w)" "pends (w_db w') \<subseteq> pends (w_db w)"
    "next_id (w_db w) \<le> next_id (w_db w')" "set (bucket w) \<subseteq> set (bucket w')"
  shows "gentle L w w'"
  using assms by (auto simp: gentle_def live_def tombstoned_def)

lemma gentle_frame:
  "db_inv (w_db w) \<Longrightarrow> w_db w' = w_db w \<Longrightarrow> set (bucket w) \<subseteq> set (bucket w') \<Longrightarrow> gentle L w w'"
  by (rule gentle_same_objects) auto

lemma gentle_multipart:
  assumes "db_inv (w_db w')" "same_but_multipart (w_db w) (w_db w')" "bucket w' = bucket w"
  shows "gentle L w w'"
  using assms same_but_multipart_tables [OF assms(2)] by (intro gentle_same_objects) (simp_all add: pends_def)

lemma pends_delete: "pends (delete_pending_where p d) \<subseteq> pends d"
  by (auto simp: pends_def delete_pending_where_def)

text \<open>Handing out URLs and opening multipart uploads.\<close>

definition quiet_change :: "world \<Rightarrow> world \<Rightarrow> bool" where
  "quiet_change w w' \<longleftrightarrow> (db_inv (w_db w) \<longrightarrow> db_inv (w_db w')) \<and> same_but_multipart (w_db w) (w_db w') \<and> bucket w' = bucket w"

lemma quiet_change_refl [simp, intro]: "w_db w' = w_db w \<Longrightarrow> bucket w' = bucket w \<Longrightarrow> quiet_change w w'"
  by (simp add: quiet_change_def)

lemma quiet_change_trans: "quiet_change w w1 \<Longrightarrow> quiet_change w1 w2 \<Longrightarrow> quiet_change w w2"
  by (auto simp: quiet_change_def intro: same_but_multipart_trans)

lemma makePresignedURL_quiet: "makePresignedURL e k t w = (res, w') \<Longrightarrow> quiet_change w w'"
  by (auto simp: makePresignedURL_def split: if_splits sum.splits)

lemma presign_all_quiet: "presign_all e objs w = (res, w') \<Longrightarrow> quiet_change w w'"
proof (induction e objs w arbitrary: res w' rule: presign_all.induct)
  case (2 e k obj objs w)
  obtain x w1 where x: "makePresignedURL e k (ow_type obj) w = (x, w1)" by fastforce
  note q = makePresignedURL_quiet [OF x]
  show ?case
  proof (cases x)
    case (Inl err)
    with 2 x q show ?thesis by simp
  next
    case (Inr po)
    obtain y w2 where y: "presign_all e objs w1 = (y, w2)" by fastforce
    from "2.IH" [OF x [symmetric] Inr y] have "quiet_change w1 w2" .
    with "2.prems" x Inr y q show ?thesis by (auto split: sum.splits intro: quiet_change_trans)
  qed
qed simp

lemma generatePartURLs_quiet:
  "generatePartURLs_from e k u a i n w = (res, w') \<Longrightarrow> w_db w' = w_db w \<and> bucket w' = bucket w"
proof (induction e k u a i n w arbitrary: res w' rule: generatePartURLs_from.induct)
  case (2 e k u a i n w)
  show ?case
  proof (cases "presign_part e k u (to_i64 (a + int i))")
    case (Inr url)
    obtain y w2 where y: "generatePartURLs_from e k u a (i + 1) n (record_success w) = (y, w2)" by fastforce
    show ?thesis
    proof (cases "wait_fault e k")
      case True
      with "2.prems" show ?thesis by simp
    next
      case False
      from "2.IH" [OF refl False Inr y] have "w_db w2 = w_db w \<and> bucket w2 = bucket w" by simp
      moreover have "w' = w2" using "2.prems" False Inr y by (auto simp: Let_def split: sum.splits)
      ultimately show ?thesis by simp
    qed
  qed (use 2 in \<open>auto simp: Let_def split: if_splits\<close>)
qed simp

lemma createMultipartUpload_quiet:
  assumes "createMultipartUpload e i k n w = (res, w')"
  shows "quiet_change w w'"
proof -
  consider "wait_fault e k" | r where "\<not> wait_fault e k" "new_multipart e k = Inl r"
    | u where "\<not> wait_fault e k" "new_multipart e k = Inr u" by (cases "new_multipart e k") auto
  then show ?thesis
  proof cases
    case (3 u)
    define w1 where "w1 = record_success (w\<lparr>uploads := (k, u) # uploads w\<rparr>)"
    have w1: "w_db w1 = w_db w" "bucket w1 = bucket w" by (simp_all add: w1_def)
    show ?thesis
    proof (cases "if db_fault e ''InsertMultipartUpload'' then Inl ConnectionError
                  else InsertMultipartUpload i k u (w_db w1)")
      case (Inl err)
      with 3 assms have "w' = abortMultipartUpload e k u w1"
        by (simp add: createMultipartUpload_def Let_def flip: w1_def)
      with w1 show ?thesis by auto
    next
      case (Inr d)
      obtain y w3 where y: "generatePartURLs e k u 1 (nat (estimatePartsNeeded n)) (w1\<lparr>w_db := d\<rparr>) = (y, w3)" by fastforce
      from generatePartURLs_quiet [OF y [unfolded generatePartURLs_def]] have w3: "w_db w3 = d" "bucket w3 = bucket w"
        by (simp_all add: w1)
      have "w' = w3 \<or> w' = abortMultipartUpload e k u w3"
        using 3 assms Inr y by (auto simp: createMultipartUpload_def Let_def simp flip: w1_def split: sum.splits)
      then have w': "w_db w' = d" "bucket w' = bucket w" using w3 by auto
      have ins: "InsertMultipartUpload i k u (w_db w) = Inr d" using Inr by (simp add: w1 split: if_splits)
      then have "same_but_multipart (w_db w) d"
        by (auto simp: InsertMultipartUpload_def same_but_multipart_def split: if_splits)
      with ins w' show ?thesis by (auto simp: quiet_change_def intro: InsertMultipartUpload_inv)
    qed
  qed (use assms in \<open>auto simp: createMultipartUpload_def Let_def\<close>)
qed

lemma multipart_all_quiet: "multipart_all e i objs w = (res, w') \<Longrightarrow> quiet_change w w'"
proof (induction e i objs w arbitrary: res w' rule: multipart_all.induct)
  case (2 e i k obj objs w)
  obtain x w1 where x: "createMultipartUpload e i k (case ow_nar_size obj of None \<Rightarrow> 0 | Some n \<Rightarrow> n) w = (x, w1)" by fastforce
  note q = createMultipartUpload_quiet [OF x]
  show ?case
  proof (cases x)
    case (Inl err)
    with 2 x q show ?thesis by simp
  next
    case (Inr po)
    obtain y w2 where y: "multipart_all e i objs w1 = (y, w2)" by fastforce
    from "2.IH" [OF x [symmetric] Inr y] have "quiet_change w1 w2" .
    with "2.prems" x Inr y q show ?thesis by (auto split: sum.splits intro: quiet_change_trans)
  qed
qed simp

lemma createPendingObjects_quiet:
  assumes "createPendingObjects e i params objs w = (res, w')"
  shows "quiet_change w w'"
proof -
  define os where "os = List.map (\<lambda>(k, r). (k, the (map_of objs k))) params"
  obtain x w1 where x: "presign_all e (filter (\<lambda>(k, obj). \<not> needs_multipart obj) os) w = (x, w1)" by fastforce
  obtain y w2 where y: "multipart_all e i (filter (\<lambda>(k, obj). needs_multipart obj) os) w1 = (y, w2)" by fastforce
  have "w' = w1 \<or> w' = w2"
    using assms x y by (auto simp: createPendingObjects_def Let_def simp flip: os_def split: sum.splits)
  then show ?thesis using presign_all_quiet [OF x] multipart_all_quiet [OF y] by (auto intro: quiet_change_trans)
qed

lemma quiet_change_gentle: "db_inv (w_db w) \<Longrightarrow> quiet_change w w' \<Longrightarrow> gentle L w w'"
  by (auto simp: quiet_change_def intro: gentle_multipart)

text \<open>Starting a push: its rows come under a fresh id, so no other push counts on them.\<close>

lemma insert_step_inv:
  assumes inv: "sys_inv s" and ins: "insertPendingClosure e key roots objs (sy_world s) = (Inr ((i, row), rows), w')"
  shows "sys_inv (s\<lparr>sy_world := w', sy_lookups := (i, rows) # sy_lookups s\<rparr>)" (is "sys_inv ?s'")
proof -
  note ok = insertPendingClosure_ok [OF ins]
  have db: "db_inv (sy_db s)" using inv by (simp add: sys_inv_def)
  have fresh: "i \<notin> told_ids s" "(i, rs) \<notin> set (sy_lookups s)" "(i, k) \<notin> pends (sy_db s)" for rs k
  proof -
    show "i \<notin> told_ids s" using inv by (force simp: sys_inv_def told_ok_def told_ids_def ok(1))
    show "(i, rs) \<notin> set (sy_lookups s)" using inv by (force simp: sys_inv_def lookups_ok_def ok(1))
    have "i \<notin> po_ids (sy_db s)" using db by (force simp: db_inv_def foreign_keys_def ok(1))
    then show "(i, k) \<notin> pends (sy_db s)" by (force simp: po_ids_def pends_def)
  qed
  have w': "objects (w_db w') = objects (sy_db s)" "bucket w' = bucket (sy_world s)" "next_id (w_db w') = i + 1"
    by (simp_all add: ok(4))
  have p: "(j, k) \<in> pends (w_db w') \<longleftrightarrow> (j, k) \<in> pends (sy_db s) \<or> (j = i \<and> k \<in> fst ` set rows)" for j k
    unfolding ok(4) by (force simp: pends_def)
  have ids: "told_ids ?s' = told_ids s" by (simp add: told_ids_def)
  have neq: "j \<noteq> i" if "(j, ks) \<in> set (sy_told s)" for j ks
    using fresh(1) that by (force simp: told_ids_def)
  have nid: "next_id (sy_db s) = i" by (simp add: ok(1))
  have "told_ok ?s'"
    using inv neq unfolding sys_inv_def told_ok_def backed_def nid by (fastforce simp: w' p)
  moreover have "lookups_ok ?s'"
    unfolding lookups_ok_def ids
  proof (intro allI impI)
    fix j rs assume "(j, rs) \<in> set (sy_lookups ?s')"
    then consider "j = i" "rs = rows" | "(j, rs) \<in> set (sy_lookups s)" by auto
    then show "j < next_id (sy_db ?s') \<and> j \<notin> told_ids s \<and> (\<forall>k. (j, k) \<in> pends (sy_db ?s') \<longrightarrow> k \<in> fst ` set rs)"
    proof cases
      case 1
      with fresh show ?thesis by (auto simp: w' p)
    next
      case 2
      with inv have "j < i" "j \<notin> told_ids s" "\<forall>k. (j, k) \<in> pends (sy_db s) \<longrightarrow> k \<in> fst ` set rs"
        by (auto simp: sys_inv_def lookups_ok_def nid)
      then show ?thesis by (simp add: w' p)
    qed
  qed
  moreover have "put_ok ?s'" using inv by (simp add: sys_inv_def put_ok_def ids)
  moreover have "sweep_ok ?s'"
    using inv fresh(1) unfolding sys_inv_def sweep_ok_def ids by (auto simp: w' p tombstoned_def)
  moreover have "db_inv (w_db w')" by (rule insertPendingClosure_inv [OF db ins])
  ultimately show ?thesis using inv by (simp add: sys_inv_def w' live_def)
qed

text \<open>The statements that change objects.\<close>

lemma register_gentle:
  assumes "db_inv (w_db w)" "k \<in> set (bucket w)" "k \<notin> L"
  shows "gentle L w (w\<lparr>w_db := RegisterCompletedObject k refs sz (w_db w)\<rparr>)"
proof -
  have "object_of (RegisterCompletedObject k refs sz d) k' = object_of d k'" if "k' \<noteq> k" for d k'
    using that by (simp add: RegisterCompletedObject_def obj_upsert_lookup)
  then have "tombstoned (RegisterCompletedObject k refs sz (w_db w)) k'" if "k' \<in> L" "tombstoned (w_db w) k'" for k'
    using that assms(3) tombstoned_cong by metis
  moreover have "pends (RegisterCompletedObject k refs sz (w_db w)) = pends (w_db w)"
    "next_id (RegisterCompletedObject k refs sz (w_db w)) = next_id (w_db w)"
    by (simp_all add: RegisterCompletedObject_def pends_def)
  ultimately show ?thesis
    using assms by (auto simp: gentle_def RegisterCompletedObject_inv live_register)
qed

lemma commit_pending_closure_lookup:
  assumes "commit_pending_closure t i d = Inr (n, d')" "(i, k) \<notin> pends d"
  shows "object_of d' k = object_of d k"
  using assms(1)
proof (cases rule: commit_pending_closureE)
  case (1 pc)
  have "map_of (pending_rows d i) k = None"
    using assms(2) pending_rows_keys [of k d i] by (simp add: map_of_None_iff pends_def)
  then show ?thesis
    by (simp add: 1(3) DeletePendingClosure_def obj_upsert_lookup map_of_new_object)
qed

lemma commit_push_lookup:
  assumes "commit_push t i d = Inr (n, d')" "(i, k) \<notin> pends d"
  shows "object_of d' k = object_of d k"
  using assms(1)
proof (cases rule: commit_pushE)
  case (1 pc)
  have "(i, k) \<notin> pends (upsert_closures t (pc_roots pc) d)" using assms(2) by (simp add: pends_def)
  from commit_pending_closure_lookup [OF 1(3) this] show ?thesis by simp
qed

lemma commit_next_id:
  "commit_pending_closure t i d = Inr (n, d') \<Longrightarrow> next_id d' = next_id d"
  "commit_push t i d = Inr (n, d') \<Longrightarrow> next_id d' = next_id d"
  by (auto elim!: commit_pushE commit_pending_closureE simp: DeletePendingClosure_def)

lemma commit_gentle:
  assumes com: "commit_push t i (w_db w) = Inr (n, d') \<or> commit_pending_closure t i (w_db w) = Inr (n, d')"
    and inv: "db_inv (w_db w)" and own: "\<And>k. (i, k) \<in> pends (w_db w) \<Longrightarrow> k \<in> set (bucket w) \<and> k \<notin> L"
  shows "gentle L w (w\<lparr>w_db := d'\<rparr>)"
proof -
  have "pending_objects d' = filter (\<lambda>((j, k), r). j \<noteq> i) (pending_objects (w_db w))"
    using com commit_pending_objects commit_push_pending_objects by blast
  then have "pends d' \<subseteq> pends (w_db w)" by (auto simp: pends_def)
  moreover have "live d' k \<longleftrightarrow> live (w_db w) k \<or> (i, k) \<in> pends (w_db w)" for k
    using com live_commit_push live_commit_pending_closure unfolding pends_def by blast
  moreover have "tombstoned d' k" if "k \<in> L" "tombstoned (w_db w) k" for k
    using com own that commit_push_lookup commit_pending_closure_lookup tombstoned_cong by metis
  moreover have "next_id d' = next_id (w_db w)" using com commit_next_id by blast
  moreover have "db_inv d'" using com inv commit_push_inv commit_pending_closure_inv by blast
  ultimately show ?thesis using own by (auto simp: gentle_def)
qed

lemma expire_gentle:
  assumes "CleanupPendingClosures locked cutoff keep (w_db w) = (n, d')" "db_inv (w_db w)"
  shows "gentle L w (w\<lparr>w_db := d'\<rparr>)"
proof -
  have d': "d' = snd (CleanupPendingClosures locked cutoff keep (w_db w))" by (simp add: assms(1))
  have "tombstoned d' k" if "tombstoned (w_db w) k" for k
    using that Cleanup_lookup(1) [OF assms(1)] by (auto simp: tombstoned_def split: option.splits)
  moreover have "next_id d' = next_id (w_db w)"
    unfolding d' by (simp add: CleanupPendingClosures_def Let_def)
  moreover have "pends d' \<subseteq> pends (w_db w)" using Cleanup_tables(4) [OF assms(1)] by (auto simp: pends_def)
  ultimately show ?thesis
    using assms(2) CleanupPendingClosures_inv [of "w_db w" locked cutoff keep]
      live_Cleanup [of locked cutoff keep "w_db w"] by (auto simp: gentle_def simp flip: d')
qed

lemma mark_gentle:
  assumes "db_inv (w_db w)"
  shows "gentle L w (w\<lparr>w_db := mark_rows t snap (w_db w)\<rparr>)"
proof -
  let ?d' = "mark_rows t snap (w_db w)"
  have "db_inv ?d'" unfolding mark_rows_def Let_def
    by (rule obj_update_inv [OF assms]) (auto split: if_splits option.splits)
  moreover have look: "object_of ?d' k = map_option (\<lambda>r. case (if stale snap (closure_reach snap (List.map fst (closures snap))) k r
      then Some (r\<lparr>o_deleted_at := Some t,
                   o_first_deleted_at := (case o_first_deleted_at r of None \<Rightarrow> Some t | Some t0 \<Rightarrow> Some t0)\<rparr>)
      else None) of None \<Rightarrow> r | Some r' \<Rightarrow> r') (object_of (w_db w) k)" for k
    by (simp add: mark_rows_def Let_def obj_update_lookup)
  have "live ?d' k \<Longrightarrow> live (w_db w) k" "tombstoned (w_db w) k \<Longrightarrow> tombstoned ?d' k" for k
    by (auto simp: live_def tombstoned_def look stale_def alive_def split: option.splits if_splits)
  moreover have "pends ?d' = pends (w_db w)" "next_id ?d' = next_id (w_db w)"
    by (simp_all add: mark_rows_def Let_def pends_def)
  ultimately show ?thesis by (auto simp: gentle_def)
qed

text \<open>Removing one object in a sweep.\<close>

lemma remove_one_facts:
  assumes "remove_one e k (removal_of r w) = x"
  shows "w_db (rm_world x) = w_db w" "set (bucket w) - {k} \<subseteq> set (bucket (rm_world x))"
    "set (bucket (rm_world x)) \<subseteq> set (bucket w)"
    "set (rm_deleted x) \<subseteq> insert k (set (sw_deleted r))" "set (rm_unanswered x) \<subseteq> insert k (set (sw_unanswered r))"
proof -
  have "w_db (rm_world x) = w_db w \<and> set (bucket w) - {k} \<subseteq> set (bucket (rm_world x)) \<and>
    set (bucket (rm_world x)) \<subseteq> set (bucket w) \<and> set (rm_deleted x) \<subseteq> insert k (set (sw_deleted r)) \<and>
    set (rm_unanswered x) \<subseteq> insert k (set (sw_unanswered r))"
  proof (cases "remove_answer e k")
    case (RemoveFailed err)
    with assms show ?thesis
      by (cases "err_code err = ''NoSuchKey''") (auto simp: remove_one_def removal_of_def Let_def)
  qed (use assms in \<open>auto simp: remove_one_def removal_of_def\<close>)
  then show "w_db (rm_world x) = w_db w" "set (bucket w) - {k} \<subseteq> set (bucket (rm_world x))"
    "set (bucket (rm_world x)) \<subseteq> set (bucket w)"
    "set (rm_deleted x) \<subseteq> insert k (set (sw_deleted r))" "set (rm_unanswered x) \<subseteq> insert k (set (sw_unanswered r))"
    by blast+
qed

lemma remove_step_inv:
  assumes inv: "sys_inv s" and sw: "sy_sweep s = Removing r" "sw_todo r = k # todo"
    and unseen: "k \<notin> set (sy_seen s)" and x: "remove_one e k (removal_of r (sy_world s)) = x"
  shows "sys_inv (s\<lparr>sy_world := rm_world x, sy_sweep := Removing (after_removal r todo x)\<rparr>)" (is "sys_inv ?s'")
proof -
  note f = remove_one_facts [OF x]
  have keys: "set (sw_todo r) \<subseteq> set (sw_keys r)" "set (sw_deleted r) \<subseteq> set (sw_keys r)" "set (sw_unanswered r) \<subseteq> set (sw_keys r)"
    and free: "\<And>k' i. k' \<in> set (sw_todo r) \<Longrightarrow> i \<in> told_ids s \<Longrightarrow> (i, k') \<notin> pends (sy_db s)"
    and tomb: "\<And>k. k \<in> set (sw_keys r) \<Longrightarrow> tombstoned (sy_db s) k"
    using inv sw(1) by (auto simp: sys_inv_def sweep_ok_def held_keys_def)
  have k: "k \<in> set (sw_todo r)" "set todo \<subseteq> set (sw_todo r)" using sw(2) by auto
  have notlive: "\<not> live (sy_db s) k"
    using tomb [of k] k keys by (auto simp: tombstoned_def live_def split: option.splits)
  have "told_ok ?s'"
    unfolding told_ok_def
  proof (intro allI impI conjI)
    fix i ks assume t: "(i, ks) \<in> set (sy_told ?s')"
    then have "i \<in> told_ids s" by (force simp: told_ids_def)
    show "i < next_id (sy_db ?s')" using inv t by (auto simp: sys_inv_def told_ok_def f(1))
    fix k' assume p: "(i, k') \<in> pends (sy_db ?s')"
    with inv t have "backed s i ks k'" by (auto simp: sys_inv_def told_ok_def f(1))
    moreover have "k' \<noteq> k" using free [OF k(1) \<open>i \<in> told_ids s\<close>] p by (auto simp: f(1))
    ultimately show "backed ?s' i ks k'" using f(2) by (auto simp: backed_def)
  qed
  moreover have "lookups_ok ?s'" "put_ok ?s'" using inv by (simp_all add: sys_inv_def lookups_ok_def put_ok_def f(1))
  moreover have "sweep_ok ?s'"
    unfolding sweep_ok_def
    using keys free tomb k f(4,5) by (auto simp: held_keys_def after_removal_def f(1))
  ultimately show ?thesis
    using inv f(2) unseen notlive unfolding sys_inv_def by (auto simp: f(1))
qed

lemma finish_step_inv:
  assumes inv: "sys_inv s" and sw: "sy_sweep s = Removing r"
  shows "sys_inv ((with_db s (DeleteObjects (sw_deleted r @ filter P (sw_unanswered r)) (sy_db s)))\<lparr>sy_sweep := NoSweep\<rparr>)"
proof -
  let ?d' = "DeleteObjects (sw_deleted r @ filter P (sw_unanswered r)) (sy_db s)"
  have "db_inv ?d'" using inv DeleteObjects_inv by (simp add: sys_inv_def)
  moreover have "next_id ?d' = next_id (sy_db s)" by (simp add: DeleteObjects_def)
  moreover have "live ?d' k \<Longrightarrow> live (sy_db s) k" for k by (simp add: live_DeleteObjects)
  ultimately show ?thesis
    using inv by (auto simp: sys_inv_def told_ok_def backed_def lookups_ok_def put_ok_def sweep_ok_def with_db_def
        held_keys_def pends_def)
qed

lemma sweep_phase_inv:
  assumes "sys_inv s" "\<And>k. k \<in> set (held_keys p) \<Longrightarrow> tombstoned (sy_db s) k"
    and "\<And>r. p = Removing r \<Longrightarrow> set (sw_todo r) \<union> set (sw_deleted r) \<union> set (sw_unanswered r) \<subseteq> set (sw_keys r) \<and>
      (\<forall>k \<in> set (sw_todo r). \<forall>i \<in> told_ids s. (i, k) \<notin> pends (sy_db s))"
  shows "sys_inv (s\<lparr>sy_sweep := p\<rparr>)"
  using assms by (auto simp: sys_inv_def told_ok_def backed_def lookups_ok_def put_ok_def sweep_ok_def)

lemma not_pending_pends: "\<not> pending_key d k \<Longrightarrow> (i, k) \<notin> pends d"
  by (auto simp: pending_key_iff pends_def)

lemma recheck_step_inv:
  assumes "sys_inv s" "sy_sweep s = Holding keys"
  shows "sys_inv (s\<lparr>sy_sweep := Removing \<lparr>sw_keys = keys, sw_todo = GetKeysNotPending keys (sy_db s),
      sw_deleted = [], sw_errors = [], sw_unanswered = []\<rparr>\<rparr>)"
proof (rule sweep_phase_inv [OF assms(1)])
  show "tombstoned (sy_db s) k"
    if "k \<in> set (held_keys (Removing \<lparr>sw_keys = keys, sw_todo = GetKeysNotPending keys (sy_db s),
      sw_deleted = [], sw_errors = [], sw_unanswered = []\<rparr>))" for k
    using assms that by (simp add: sys_inv_def sweep_ok_def held_keys_def)
qed (use not_pending_pends in \<open>auto simp: GetKeysNotPending_candidates\<close>)

lemma world_inv: "sys_inv s \<Longrightarrow> (\<And>L. gentle L (sy_world s) w') \<Longrightarrow> sys_inv (s\<lparr>sy_world := w'\<rparr>)"
  by (rule gentle_inv)

lemma with_db_inv:
  "sys_inv s \<Longrightarrow> gentle (set (held_keys (sy_sweep s))) (sy_world s) ((sy_world s)\<lparr>w_db := d'\<rparr>) \<Longrightarrow> sys_inv (with_db s d')"
  unfolding with_db_def by (rule gentle_inv)

lemma with_db_tables_inv:
  assumes "sys_inv s" "db_inv d'" "objects d' = objects (sy_db s)" "pends d' \<subseteq> pends (sy_db s)" "next_id d' = next_id (sy_db s)"
  shows "sys_inv (with_db s d')"
  by (rule with_db_inv [OF assms(1)], rule gentle_same_objects) (use assms in simp_all)

lemma commit_step_inv:
  assumes inv: "sys_inv s" and told: "(i, ks) \<in> set (sy_told s)" "\<forall>k \<in> set ks. (i, k) \<in> set (sy_put s)"
    and free: "\<forall>k \<in> set (GetPendingObjectKeys i (sy_db s)). \<not> held s k"
    and com: "commit_push t i (sy_db s) = Inr (n, d') \<or> commit_pending_closure t i (sy_db s) = Inr (n, d')"
  shows "sys_inv (with_db s d')"
proof (rule with_db_inv [OF inv], rule commit_gentle [OF com])
  show "db_inv (sy_db s)" using inv by (simp add: sys_inv_def)
  fix k assume p: "(i, k) \<in> pends (sy_db s)"
  then have "k \<in> set (GetPendingObjectKeys i (sy_db s))"
    using pending_rows_keys by (simp add: GetPendingObjectKeys_def pends_def)
  with free have "\<not> held s k" by blast
  moreover have "backed s i ks k" using inv told(1) p by (simp add: sys_inv_def told_ok_def)
  ultimately show "k \<in> set (bucket (sy_world s)) \<and> \<not> held s k" using told(2) by (auto simp: backed_def)
qed

lemma lookup_step_inv:
  assumes inv: "sys_inv s" and own: "(i, rows) \<in> set (sy_lookups s)" and free: "\<forall>k \<in> fst ` set rows. \<not> held s k"
    and up: "objectsToUpload e rows verify (sy_world s) = (Inr up, w')"
  shows "sys_inv (s\<lparr>sy_world := w', sy_lookups := filter (\<lambda>(j, rs). j \<noteq> i) (sy_lookups s),
    sy_told := (i, List.map fst up) # sy_told s\<rparr>)"
proof -
  have db: "db_inv (sy_db s)" using inv by (simp add: sys_inv_def)
  note frame = objectsToUpload_frame [OF up]
  have w: "sys_inv (s\<lparr>sy_world := w'\<rparr>)" by (rule gentle_inv [OF inv gentle_frame [OF db]]) (use frame in auto)
  have "sys_inv ((s\<lparr>sy_world := w'\<rparr>)\<lparr>sy_lookups := filter (\<lambda>(j, rs). j \<noteq> i) (sy_lookups (s\<lparr>sy_world := w'\<rparr>)),
      sy_told := (i, List.map fst up) # sy_told (s\<lparr>sy_world := w'\<rparr>)\<rparr>)"
  proof (rule told_inv [OF w])
    show "(i, rows) \<in> set (sy_lookups (s\<lparr>sy_world := w'\<rparr>))" using own by simp
    show "\<forall>k \<in> fst ` set rows. \<not> held (s\<lparr>sy_world := w'\<rparr>) k" using free by simp
    fix k assume p: "(i, k) \<in> pends (sy_db (s\<lparr>sy_world := w'\<rparr>))" and skip: "k \<notin> set (List.map fst up)"
    then have "k \<in> fst ` set rows" using inv own frame by (simp add: sys_inv_def lookups_ok_def)
    then obtain r where "(k, r) \<in> set rows" by force
    moreover have "(k, r) \<notin> set up" using skip by force
    ultimately have "live (sy_db s) k" by (rule objectsToUpload_skips_live(1) [OF db up])
    with inv frame show "k \<in> set (bucket (sy_world (s\<lparr>sy_world := w'\<rparr>)))" by (simp add: sys_inv_def)
  qed
  then show ?thesis by simp
qed

lemma objectExistsInS3_gentle:
  "db_inv (w_db w) \<Longrightarrow> objectExistsInS3 e k w = (res, w') \<Longrightarrow> gentle L w w'"
  using objectExistsInS3_frame [of e k w] by (intro gentle_frame) auto

lemma sys_step_inv:
  assumes "sys_step True s s'" "sys_inv s"
  shows "sys_inv s'"
proof -
  have db: "db_inv (sy_db s)" using assms(2) by (simp add: sys_inv_def)
  note inv = assms(2)
  from assms(1) show ?thesis
  proof cases
    case (insert e key roots objs i row rows w')
    with insert_step_inv [OF inv] show ?thesis by simp
  next
    case (lookup i rows e verify up w')
    with lookup_step_inv [OF inv] show ?thesis by simp
  next
    case (lookup_failed i rows e verify err w' d')
    note frame = objectsToUpload_frame [OF lookup_failed(3)]
    have "db_inv d'" "objects d' = objects (sy_db s)" "pends d' \<subseteq> pends (sy_db s)" "next_id d' = next_id (sy_db s)"
      using lookup_failed(4) db frame pends_delete [of "\<lambda>j. j = i" "sy_db s"] DeletePendingClosure_inv [OF db, of i]
      by (auto simp: DeletePendingClosure_def)
    then have "sys_inv (s\<lparr>sy_world := w'\<lparr>w_db := d'\<rparr>\<rparr>)"
      using frame by (intro gentle_inv [OF inv] gentle_same_objects) simp_all
    from lookups_drop_inv [OF this, of "filter (\<lambda>(j, rs). j \<noteq> i) (sy_lookups s)"] lookup_failed(1) show ?thesis by simp
  next
    case (respond e i params objs res w')
    then show ?thesis
      using gentle_inv [OF inv quiet_change_gentle [OF db createPendingObjects_quiet]] by blast
  next
    case (put i ks k e res w')
    then have "w_db w' = sy_db s \<and> set (bucket (sy_world s)) \<subseteq> set (bucket w')"
      by (auto simp: PutObject_def split: option.splits)
    with put(1) gentle_inv [OF inv gentle_frame [OF db]] show ?thesis by simp
  next
    case (finish e k u res w')
    note eff = CompleteMultipartUpload_effect [OF finish(2)]
    have "sys_inv (s\<lparr>sy_world := w'\<rparr>)" using eff by (intro gentle_inv [OF inv] gentle_frame [OF db])
    moreover have "set ((if res = None then [k] else []) @ sy_seen s) \<subseteq> set (bucket w')"
      using eff inv by (auto simp: sys_inv_def)
    ultimately have "sys_inv ((s\<lparr>sy_world := w'\<rparr>)\<lparr>sy_seen := (if res = None then [k] else []) @ sy_seen s\<rparr>)"
      by (intro seen_inv) simp_all
    with finish(1) show ?thesis by simp
  next
    case (acknowledge i ks k)
    then have "i \<in> told_ids s" by (force simp: told_ids_def)
    with acknowledge put_inv [OF inv] show ?thesis by simp
  next
    case (see e k res w')
    have "sys_inv (s\<lparr>sy_world := w'\<rparr>)" using see(2) by (intro gentle_inv [OF inv] objectExistsInS3_gentle [OF db])
    moreover have "set ((if res = Inr True then [k] else []) @ sy_seen s) \<subseteq> set (bucket w')"
      using see(2) inv objectExistsInS3_true [of e k "sy_world s"] objectExistsInS3_frame(2) [of e k "sy_world s"]
      by (auto simp: sys_inv_def)
    ultimately have "sys_inv ((s\<lparr>sy_world := w'\<rparr>)\<lparr>sy_seen := (if res = Inr True then [k] else []) @ sy_seen s\<rparr>)"
      by (intro seen_inv) simp_all
    with see(1) show ?thesis by simp
  next
    case (register k refs sz)
    have "k \<in> set (bucket (sy_world s))" using inv register(2) by (auto simp: sys_inv_def)
    then have "sys_inv (with_db s (RegisterCompletedObject k refs sz (sy_db s)))"
      using register(3) by (intro with_db_inv [OF inv] register_gentle [OF db])
    moreover have "set (remove1 k (sy_seen s)) \<subseteq> set (bucket (sy_world s))"
      using inv set_remove1_subset [of k "sy_seen s"] by (auto simp: sys_inv_def)
    ultimately show ?thesis unfolding register(1) by (intro seen_inv) (simp_all add: with_db_def)
  next
    case (give_up k)
    have "set (remove1 k (sy_seen s)) \<subseteq> set (bucket (sy_world s))"
      using inv set_remove1_subset [of k "sy_seen s"] by (auto simp: sys_inv_def)
    with give_up show ?thesis by (auto intro: seen_inv [OF inv])
  next
    case (commit_push i ks t n d')
    then show ?thesis using commit_step_inv [OF inv commit_push(2-4), of t n d'] by (simp add: CommitPush_def)
  next
    case (commit_closure i ks t n d')
    then show ?thesis using commit_step_inv [OF inv commit_closure(2-4), of t n d'] by (simp add: CommitPendingClosure_def)
  next
    case (expire locked cutoff keep n d')
    with with_db_inv [OF inv expire_gentle [OF expire(2) db]] show ?thesis by simp
  next
    case (abort e k u res w')
    with gentle_inv [OF inv gentle_frame [OF db]] abort_frame(1,2) [of e k u "sy_world s"] show ?thesis by simp
  next
    case (forget u)
    have "sys_inv (with_db s (DeleteMultipartUpload u (sy_db s)))"
      by (rule with_db_tables_inv [OF inv DeleteMultipartUpload_inv [OF db]]) (simp_all add: DeleteMultipartUpload_def pends_def)
    with forget show ?thesis by simp
  next
    case (unpublish keys n d')
    with DeleteUnpinnedClosures_inv [OF db, of keys] have "sys_inv (with_db s d')"
      by (intro with_db_tables_inv [OF inv]) (auto simp: DeleteUnpinnedClosures_def Let_def pends_def)
    with unpublish show ?thesis by simp
  next
    case (touch t keys present d')
    with TouchPresentClosures_inv [OF db, of t keys] have "sys_inv (with_db s d')"
      by (intro with_db_tables_inv [OF inv]) (auto simp: TouchPresentClosures_def Let_def pends_def)
    with touch show ?thesis by simp
  next
    case (pin t name key path d')
    with UpsertPin_inv [OF db pin(2)] have "sys_inv (with_db s d')"
      by (intro with_db_tables_inv [OF inv]) (auto simp: UpsertPin_def pends_def split: if_splits)
    with pin show ?thesis by simp
  next
    case (unpin name)
    have "sys_inv (with_db s (DeletePin name (sy_db s)))"
      by (rule with_db_tables_inv [OF inv DeletePin_inv [OF db]]) (simp_all add: DeletePin_def pends_def)
    with unpin show ?thesis by simp
  next
    case mark_begin
    with mark_inv [OF inv] show ?thesis by simp
  next
    case (mark_end snap t)
    with mark_inv [OF with_db_inv [OF inv mark_gentle [OF db]]] show ?thesis by simp
  next
    case (sweep_select locked t grace after_key n)
    then show ?thesis by (auto intro!: sweep_phase_inv [OF inv] simp: held_keys_def)
  next
    case (sweep_lock keys keys')
    then show ?thesis by (auto intro!: sweep_phase_inv [OF inv] simp: held_keys_def)
  next
    case (sweep_recheck keys)
    with recheck_step_inv [OF inv] show ?thesis by simp
  next
    case (sweep_remove r k todo e x)
    with remove_step_inv [OF inv sweep_remove(2,3) _ sweep_remove(5)] show ?thesis by simp
  next
    case (sweep_finish r e)
    with finish_step_inv [OF inv sweep_finish(2)] show ?thesis by simp
  next
    case sweep_abort
    then show ?thesis by (auto intro!: sweep_phase_inv [OF inv] simp: held_keys_def)
  qed
qed

interpretation races: step_invariant "sys_step True" "(=) sys_start" sys_inv
proof unfold_locales
  show "sys_inv s" if "sys_start = s" for s using that sys_inv_start by simp
  show "sys_inv s'" if "sys_step True s s'" "sys_inv s" for s s' using that by (rule sys_step_inv)
qed

section \<open>The operations are runs of these steps\<close>

lemma removal_steps:
  "sy_sweep s = Removing r \<Longrightarrow> sw_todo r = keys \<Longrightarrow> (brisk \<Longrightarrow> sy_seen s = []) \<Longrightarrow>
   fold (remove_one e) keys (removal_of r (sy_world s)) = x \<Longrightarrow>
   (sys_step brisk)\<^sup>*\<^sup>* s (s\<lparr>sy_world := rm_world x, sy_sweep := Removing (after_removal r [] x)\<rparr>)"
proof (induction keys arbitrary: s r)
  case Nil
  then have "x = removal_of r (sy_world s)" by simp
  then have "s\<lparr>sy_world := rm_world x, sy_sweep := Removing (after_removal r [] x)\<rparr> = s"
    using Nil(1,2) by (simp add: removal_of_def after_removal_def)
  then show ?case by simp
next
  case (Cons k keys)
  define y where "y = remove_one e k (removal_of r (sy_world s))"
  let ?s1 = "s\<lparr>sy_world := rm_world y, sy_sweep := Removing (after_removal r keys y)\<rparr>"
  have one: "sys_step brisk s ?s1"
    by (rule sweep_remove [OF Cons.prems(1,2)]) (use Cons.prems(3) in \<open>simp_all add: y_def\<close>)
  have "removal_of (after_removal r keys y) (rm_world y) = y" by (simp add: removal_of_def after_removal_def)
  then have "fold (remove_one e) keys (removal_of (after_removal r keys y) (sy_world ?s1)) = x"
    using Cons.prems(4) by (simp add: y_def)
  from Cons.IH [OF _ _ _ this] Cons.prems(3)
  have "(sys_step brisk)\<^sup>*\<^sup>* ?s1 (?s1\<lparr>sy_world := rm_world x, sy_sweep := Removing (after_removal (after_removal r keys y) [] x)\<rparr>)"
    by (simp add: after_removal_def)
  with one show ?case by (simp add: after_removal_def converse_rtranclp_into_rtranclp)
qed

lemma sweepBatch_steps:
  assumes inv: "db_inv (sy_db s)" and idle: "sy_sweep s = NoSweep" and seen: "brisk \<Longrightarrow> sy_seen s = []"
  shows "(sys_step brisk)\<^sup>*\<^sup>* s (s\<lparr>sy_world := br_world (sweepBatch e grace a stats (sy_world s))\<rparr>)"
proof -
  let ?w = "sy_world s"
  define keys where "keys = LockObjectsReadyForDeletion (locked_object e) (now e) grace a DeletionBatchSize (w_db ?w)"
  define r0 where "r0 = \<lparr>sw_keys = keys, sw_todo = GetKeysNotPending keys (w_db ?w), sw_deleted = [], sw_errors = [], sw_unanswered = []\<rparr>"
  define x where "x = remove_all e (GetKeysNotPending keys (w_db ?w)) ?w"
  define r1 where "r1 = after_removal r0 [] x"
  let ?removed = "s\<lparr>sy_world := rm_world x, sy_sweep := Removing r1\<rparr>"
  have same: "s\<lparr>sy_world := u, sy_sweep := NoSweep\<rparr> = s\<lparr>sy_world := u\<rparr>" for u using idle by (cases s) simp
  have tomb: "set keys \<subseteq> {k \<in> set keys. tombstoned (sy_db s) k}"
  proof
    fix k assume k: "k \<in> set keys"
    then have "k \<in> set (candidates e grace a (sy_db s))"
      unfolding keys_def LockObjects_candidates [OF inv] by (rule in_set_takeD)
    then have "tombstoned (sy_db s) k" using sweepableD by (auto simp: candidates_iff)
    with k show "k \<in> {k \<in> set keys. tombstoned (sy_db s) k}" by simp
  qed
  have "sys_step brisk s (s\<lparr>sy_sweep := Selected keys\<rparr>)"
    unfolding keys_def by (rule sweep_select [OF idle])
  moreover have "sys_step brisk (s\<lparr>sy_sweep := Selected keys\<rparr>) (s\<lparr>sy_sweep := Holding keys\<rparr>)"
    using sweep_lock [of "s\<lparr>sy_sweep := Selected keys\<rparr>" keys keys] tomb by simp
  moreover have "sys_step brisk (s\<lparr>sy_sweep := Holding keys\<rparr>) (s\<lparr>sy_sweep := Removing r0\<rparr>)"
    using sweep_recheck [of "s\<lparr>sy_sweep := Holding keys\<rparr>" keys] by (simp add: r0_def)
  moreover have "(sys_step brisk)\<^sup>*\<^sup>* (s\<lparr>sy_sweep := Removing r0\<rparr>) ?removed"
    using removal_steps [of "s\<lparr>sy_sweep := Removing r0\<rparr>" r0 _ brisk e x] seen
    by (simp add: r0_def r1_def x_def remove_all_def removal_of_def)
  ultimately have run: "(sys_step brisk)\<^sup>*\<^sup>* s ?removed" by (meson converse_rtranclp_into_rtranclp)
  have keep: "(sys_step brisk)\<^sup>*\<^sup>* s (s\<lparr>sy_world := rm_world x\<rparr>)"
    using run sweep_abort [of brisk ?removed] by (auto intro: rtranclp.rtrancl_into_rtrancl simp: same)
  let ?deleted = "rm_deleted x @ filter (isAbsent e (rm_world x)) (rm_unanswered x)"
  have "sys_step brisk ?removed ((with_db ?removed (DeleteObjects ?deleted (w_db (rm_world x))))\<lparr>sy_sweep := NoSweep\<rparr>)"
    using sweep_finish [of ?removed r1 brisk e] by (simp add: r1_def after_removal_def)
  with run have fin: "(sys_step brisk)\<^sup>*\<^sup>* s (s\<lparr>sy_world := (rm_world x)\<lparr>w_db := DeleteObjects ?deleted (w_db (rm_world x))\<rparr>\<rparr>)"
    by (auto intro: rtranclp.rtrancl_into_rtrancl simp: with_db_def same)
  have "br_world (sweepBatch e grace a stats ?w) \<in> {?w, rm_world x, (rm_world x)\<lparr>w_db := DeleteObjects ?deleted (w_db (rm_world x))\<rparr>}"
    by (auto simp: sweepBatch_def Let_def keys_def [symmetric] x_def [symmetric])
  with keep fin show ?thesis by auto
qed

lemma CompleteUploadHandler_steps:
  assumes free: "\<not> held s key" and run: "CompleteUploadHandler e (Decoded key) (sy_world s) = (rep, w')"
  shows "(sys_step brisk)\<^sup>*\<^sup>* s (s\<lparr>sy_world := w'\<rparr>)"
proof -
  obtain x w1 where st: "objectExistsInS3 e key (sy_world s) = (x, w1)" by fastforce
  have w1: "w_db w1 = sy_db s" using objectExistsInS3_frame(1) [of e key "sy_world s"] by (simp add: st)
  let ?s1 = "s\<lparr>sy_world := w1, sy_seen := (if x = Inr True then [key] else []) @ sy_seen s\<rparr>"
  have see: "sys_step brisk s ?s1" by (rule see [OF st])
  have same: "s\<lparr>sy_world := u, sy_seen := sy_seen s\<rparr> = s\<lparr>sy_world := u\<rparr>" for u by (cases s) simp
  have "w' = sy_world s \<or> w' = w1 \<or> (x = Inr True \<and> (\<exists>refs sz. w' = w1\<lparr>w_db := RegisterCompletedObject key refs sz (w_db w1)\<rparr>))"
    using run st
    by (auto simp: CompleteUploadHandler_def decodeJSONBody_def split: if_splits sum.splits db_error.splits bool.splits)
  then consider "w' = sy_world s" | "w' = w1"
    | refs sz where "x = Inr True" "w' = w1\<lparr>w_db := RegisterCompletedObject key refs sz (w_db w1)\<rparr>"
    by blast
  then show ?thesis
  proof cases
    case 1
    then show ?thesis by simp
  next
    case 2
    show ?thesis
    proof (cases "x = Inr True")
      case True
      have "sys_step brisk ?s1 (?s1\<lparr>sy_seen := remove1 key (sy_seen ?s1)\<rparr>)" by (rule give_up)
      with see True 2 show ?thesis by (auto simp: same intro: converse_rtranclp_into_rtranclp)
    next
      case False
      with see 2 show ?thesis by (auto simp: same)
    qed
  next
    case (3 refs sz)
    have "sys_step brisk ?s1 ((with_db ?s1 (RegisterCompletedObject key refs sz (sy_db ?s1)))\<lparr>sy_seen := remove1 key (sy_seen ?s1)\<rparr>)"
      by (rule register) (use free 3(1) in simp_all)
    moreover have "(with_db ?s1 (RegisterCompletedObject key refs sz (sy_db ?s1)))\<lparr>sy_seen := remove1 key (sy_seen ?s1)\<rparr>
        = s\<lparr>sy_world := w'\<rparr>"
      using 3 by (simp add: with_db_def same)
    ultimately show ?thesis using see by (metis converse_rtranclp_into_rtranclp r_into_rtranclp)
  qed
qed

text \<open>What a started push is told: the keys of its upload list.\<close>

lemma createPendingClosure_steps:
  assumes fresh: "\<forall>(j, rs) \<in> set (sy_lookups s). j \<noteq> next_id (sy_db s)"
    and free: "\<forall>k \<in> fst ` set objs. \<not> held s k"
    and run: "createPendingClosure e key roots objs verify (sy_world s) = (res, w')"
  shows "\<exists>told. (sys_step brisk)\<^sup>*\<^sup>* s (s\<lparr>sy_world := w', sy_told := told @ sy_told s\<rparr>) \<and> (told = [] \<longrightarrow> (\<exists>err. res = Inl err))"
proof -
  have same: "s\<lparr>sy_told := sy_told s\<rparr> = s" by (cases s) simp
  obtain r w1 where ins: "insertPendingClosure e key roots objs (sy_world s) = (r, w1)" by fastforce
  show ?thesis
  proof (cases "has_suffix key ''.narinfo''")
    case False
    with run have "w' = sy_world s" "\<exists>err. res = Inl err"
      by (auto simp: createPendingClosure_def createPendingClosureInner_def)
    then show ?thesis by (intro exI [of _ "[]"]) (simp add: same)
  next
    case suf: True
    show ?thesis
    proof (cases r)
      case (Inl err)
      with ins have "w1 = sy_world s" using insertPendingClosure_error by blast
      with run ins Inl suf have "w' = sy_world s" "\<exists>err. res = Inl err"
        by (auto simp: createPendingClosure_def createPendingClosureInner_def)
      then show ?thesis by (intro exI [of _ "[]"]) (simp add: same)
    next
      case (Inr t)
      then obtain i row rows where t: "r = Inr ((i, row), rows)" by (cases t) auto
      note ok = insertPendingClosure_ok [OF ins [unfolded t]]
      define s1 where "s1 = s\<lparr>sy_world := w1, sy_lookups := (i, rows) # sy_lookups s\<rparr>"
      have one: "sys_step brisk s s1" unfolding s1_def by (rule insert) (use ins t in simp)
      have "filter (\<lambda>(j, rs). j \<noteq> i) (sy_lookups s1) = sy_lookups s"
        using fresh by (auto simp: ok(1) filter_id_conv s1_def)
      then have gone: "s1\<lparr>sy_world := v, sy_lookups := filter (\<lambda>(j, rs). j \<noteq> i) (sy_lookups s1)\<rparr> = s\<lparr>sy_world := v\<rparr>"
        "s1\<lparr>sy_world := v, sy_lookups := filter (\<lambda>(j, rs). j \<noteq> i) (sy_lookups s1), sy_told := t # sy_told s1\<rparr>
           = s\<lparr>sy_world := v, sy_told := t # sy_told s\<rparr>" for v t
        by (cases s; simp add: s1_def)+
      obtain u w2 where up: "objectsToUpload e rows verify w1 = (u, w2)" by fastforce
      show ?thesis
      proof (cases u)
        case (Inl err)
        define d' where "d' = (if db_fault e ''DeletePendingClosure'' then w_db w2 else DeletePendingClosure i (w_db w2))"
        have "sys_step brisk s1 (s1\<lparr>sy_world := w2\<lparr>w_db := d'\<rparr>, sy_lookups := filter (\<lambda>(j, rs). j \<noteq> i) (sy_lookups s1)\<rparr>)"
          by (rule lookup_failed [where rows = rows and e = e and verify = verify and err = err])
            (use up Inl in \<open>simp_all add: s1_def d'_def\<close>)
        with one have "(sys_step brisk)\<^sup>*\<^sup>* s (s\<lparr>sy_world := w2\<lparr>w_db := d'\<rparr>\<rparr>)"
          unfolding gone by (rule converse_rtranclp_into_rtranclp [OF _ r_into_rtranclp])
        moreover have "w' = w2\<lparr>w_db := d'\<rparr>" "\<exists>err. res = Inl err"
          using run ins t suf up Inl by (auto simp: createPendingClosure_def createPendingClosureInner_def d'_def)
        ultimately show ?thesis by (intro exI [of _ "[]"]) (auto simp: same)
      next
        case (Inr ups)
        have rows: "fst ` set rows = fst ` set objs" unfolding ok(2) by (rule fst_map_pair)
        let ?told = "(i, List.map fst ups)"
        have "sys_step brisk s1 (s1\<lparr>sy_world := w2, sy_lookups := filter (\<lambda>(j, rs). j \<noteq> i) (sy_lookups s1),
            sy_told := ?told # sy_told s1\<rparr>)"
          by (rule lookup) (use up Inr free rows in \<open>simp_all add: s1_def\<close>)
        then have two: "sys_step brisk s1 (s\<lparr>sy_world := w2, sy_told := ?told # sy_told s\<rparr>)"
          unfolding gone by (simp add: s1_def)
        obtain y w3 where y: "createPendingObjects e i ups objs w2 = (y, w3)" by fastforce
        then have "sys_step brisk (s\<lparr>sy_world := w2, sy_told := ?told # sy_told s\<rparr>)
            (s\<lparr>sy_world := w3, sy_told := ?told # sy_told s\<rparr>)"
          using respond [of e i ups objs "s\<lparr>sy_world := w2, sy_told := ?told # sy_told s\<rparr>" y w3 brisk]
          by (cases s) simp
        with one two have "(sys_step brisk)\<^sup>*\<^sup>* s (s\<lparr>sy_world := w3, sy_told := ?told # sy_told s\<rparr>)"
          by (meson converse_rtranclp_into_rtranclp r_into_rtranclp)
        moreover have "w' = w3"
          using run ins t suf up Inr y
          by (auto simp: createPendingClosure_def createPendingClosureInner_def split: sum.splits)
        ultimately show ?thesis by (intro exI [of _ "[?told]"]) simp
      qed
    qed
  qed
qed

lemma sweep_loop_steps:
  "sweep_loop e grace a stats errs (sy_world s) = (stats', errs', w') \<Longrightarrow> db_inv (sy_db s) \<Longrightarrow>
   sy_sweep s = NoSweep \<Longrightarrow> (brisk \<Longrightarrow> sy_seen s = []) \<Longrightarrow> (sys_step brisk)\<^sup>*\<^sup>* s (s\<lparr>sy_world := w'\<rparr>)"
proof (induction e grace a stats errs "sy_world s" arbitrary: s stats' errs' w' rule: sweep_loop.induct)
  case (1 e grace a stats errs)
  let ?r = "sweepBatch e grace a stats (sy_world s)"
  let ?s1 = "s\<lparr>sy_world := br_world ?r\<rparr>"
  have batch: "(sys_step brisk)\<^sup>*\<^sup>* s ?s1" by (rule sweepBatch_steps [OF "1.prems"(2-4)])
  show ?case
  proof (cases "br_error ?r = None \<and> br_last ?r \<noteq> ''''")
    case False
    with "1.prems"(1) have "w' = br_world ?r"
      by (auto simp: sweep_loop.simps [of e grace a stats errs "sy_world s"] Let_def split: option.splits if_splits)
    with batch show ?thesis by simp
  next
    case True
    with "1.prems"(1) have "sweep_loop e grace (br_last ?r) (br_stats ?r) (errs @ br_errors ?r) (sy_world ?s1) = (stats', errs', w')"
      by (simp add: sweep_loop.simps [of e grace a stats errs "sy_world s"] Let_def)
    moreover have "db_inv (sy_db ?s1)" using sweepBatch_inv [OF "1.prems"(2)] by simp
    ultimately have "(sys_step brisk)\<^sup>*\<^sup>* ?s1 (?s1\<lparr>sy_world := w'\<rparr>)"
      using "1.hyps" [OF refl refl, of ?s1] True "1.prems"(3,4) by simp
    with batch show ?thesis by simp
  qed
qed

lemma cleanupOrphanObjects_steps:
  assumes "cleanupOrphanObjects e grace (sy_world s) = (stats, errs, w')" "db_inv (sy_db s)" "sy_sweep s = NoSweep"
    "sy_mark s = None" "brisk \<Longrightarrow> sy_seen s = []"
  shows "(sys_step brisk)\<^sup>*\<^sup>* s (s\<lparr>sy_world := w'\<rparr>)"
proof (cases "db_fault e ''MarkStaleObjects''")
  case True
  with assms(1) have "w' = sy_world s" by (simp add: cleanupOrphanObjects_def)
  then show ?thesis by simp
next
  case False
  obtain m d where mark: "MarkStaleObjects (now e) (sy_db s) = (m, d)" by fastforce
  then have d: "d = mark_rows (now e) (sy_db s) (sy_db s)"
    using MarkStaleObjects_snapshot [of "now e" "sy_db s"] by simp
  let ?s1 = "s\<lparr>sy_mark := Some (sy_db s)\<rparr>" and ?s2 = "with_db s d"
  have "sys_step brisk s ?s1" by (rule mark_begin)
  moreover have "sys_step brisk ?s1 ?s2"
    using mark_end [of ?s1 "sy_db s" brisk "now e"] assms(4) d by (cases s) (simp add: with_db_def)
  moreover have "(sys_step brisk)\<^sup>*\<^sup>* ?s2 (?s2\<lparr>sy_world := w'\<rparr>)"
    using assms False mark MarkStaleObjects_inv [OF assms(2), of "now e"]
    by (intro sweep_loop_steps [of e grace "''''" "no_stats\<lparr>marked_count := m\<rparr>" "[]" _ stats errs])
      (simp_all add: cleanupOrphanObjects_def with_db_def)
  ultimately show ?thesis by (simp add: with_db_def converse_rtranclp_into_rtranclp)
qed

section \<open>A concrete run\<close>

text \<open>One push of one object: started, told to upload it, uploaded.\<close>

definition run_rows :: "(string \<times> pending_object_row) list" where
  "run_rows = [(''a.narinfo'', \<lparr>po_refs = [], po_size = None\<rparr>)]"

definition started :: "world \<Rightarrow> world" where
  "started w = snd (insertPendingClosure (quiet 5) ''a.narinfo'' (Some [''a.narinfo'']) one_object w)"

definition run_uploaded :: world where
  "run_uploaded = snd (PutObject (quiet 6) ''a.narinfo'' (started empty_world))"

definition run_told :: sys where
  "run_told = sys_start\<lparr>sy_world := run_uploaded, sy_told := [(1, [''a.narinfo''])]\<rparr>"

lemma pair_fst: "fst p = x \<Longrightarrow> p = (x, snd p)"
  by (cases p) simp

lemma start_run:
  "insertPendingClosure (quiet 5) ''a.narinfo'' (Some [''a.narinfo'']) one_object empty_world
     = (Inr ((1, \<lparr>pc_key = ''a.narinfo'', pc_started_at = 5, pc_roots = [''a.narinfo'']\<rparr>), run_rows), started empty_world)"
  unfolding started_def by (rule pair_fst) code_simp

lemma lookup_run:
  "objectsToUpload (quiet 5) run_rows False (started empty_world) = (Inr run_rows, started empty_world)"
proof -
  have "fst (objectsToUpload (quiet 5) run_rows False (started empty_world)) = Inr run_rows" by code_simp
  moreover have "snd (objectsToUpload (quiet 5) run_rows False w) = w" for w
    by (simp add: objectsToUpload_def quiet_def Let_def)
  ultimately show ?thesis by (simp add: prod_eq_iff)
qed

lemma run_told_reached: "(sys_step brisk)\<^sup>*\<^sup>* sys_start run_told"
proof -
  let ?k = "''a.narinfo''"
  let ?s1 = "sys_start\<lparr>sy_world := started empty_world, sy_lookups := [(1, run_rows)]\<rparr>"
  let ?s2 = "sys_start\<lparr>sy_world := started empty_world, sy_told := [(1, [?k])]\<rparr>"
  have "sys_step brisk sys_start ?s1"
    using insert [of "quiet 5" ?k "Some [?k]" one_object sys_start] start_run by (simp add: sys_start_def)
  moreover have "sys_step brisk ?s1 ?s2"
    using lookup [of 1 run_rows ?s1 "quiet 5" False run_rows "started empty_world"] lookup_run
    by (simp add: sys_start_def held_keys_def run_rows_def)
  moreover have "sys_step brisk ?s2 run_told"
    using put [of 1 "[?k]" ?s2 ?k "quiet 6" _ run_uploaded]
    by (simp add: run_told_def run_uploaded_def prod_eq_iff sys_start_def)
  ultimately show ?thesis by (meson converse_rtranclp_into_rtranclp r_into_rtranclp)
qed

lemma run_told_bucket: "bucket (sy_world run_told) = [''a.narinfo'']"
  by code_simp

section \<open>Properties\<close>

text \<open>
  C1: whatever pushes, completions, commits, expiry, marking and sweeping do in between each other, under
  one restriction on the interleaving: while a completion request has found an object in S3 and has not registered it
  or given up yet, the sweep does not remove that object. Then a live row always has its object in S3, and
  a push that was not told to upload one of its objects, or has uploaded it, finds it in S3 for as long
  as its pending rows exist. The restriction is \<open>sys_step True\<close>; without it the claim fails, which
  \<open>late_registration\<close> shows. Clients are taken to commit only after they have uploaded what they were told to.
\<close>
theorem live_objects_stored:
  assumes "(sys_step True)\<^sup>*\<^sup>* sys_start s"
  shows "(\<forall>k. live (sy_db s) k \<longrightarrow> k \<in> set (bucket (sy_world s))) \<and>
    (\<forall>(i, ks) \<in> set (sy_told s). \<forall>k \<in> set (GetPendingObjectKeys i (sy_db s)).
       k \<notin> set ks \<or> (i, k) \<in> set (sy_put s) \<longrightarrow> k \<in> set (bucket (sy_world s)))"
proof -
  have inv: "sys_inv s" by (rule races.reachable_inv [OF refl assms])
  have "(i, k) \<in> pends (sy_db s)" if "k \<in> set (GetPendingObjectKeys i (sy_db s))" for i k
    using that pending_rows_keys [of k "sy_db s" i] by (simp add: GetPendingObjectKeys_def pends_def)
  with inv show ?thesis unfolding sys_inv_def told_ok_def backed_def by blast
qed

theorem live_objects_stored_witness:
  "\<exists>s. (sys_step True)\<^sup>*\<^sup>* sys_start s \<and> live (sy_db s) ''a.narinfo'' \<and> ''a.narinfo'' \<in> set (bucket (sy_world s))"
proof -
  let ?k = "''a.narinfo''"
  let ?s1 = "run_told\<lparr>sy_put := [(1, ?k)]\<rparr>"
  define r where "r = CommitPush 9 1 (w_db run_uploaded)"
  have "\<not> isl r" unfolding r_def by code_simp
  then obtain n d' where r: "CommitPush 9 1 (w_db run_uploaded) = Inr (n, d')" by (cases r) (auto simp: r_def)
  have keys: "GetPendingObjectKeys 1 (w_db run_uploaded) = [?k]" by code_simp
  have "sys_step True run_told ?s1"
    using acknowledge [of 1 "[?k]" run_told ?k] run_told_bucket by (simp add: run_told_def sys_start_def)
  moreover have "sys_step True ?s1 (with_db ?s1 d')"
    using commit_push [of 1 "[?k]" ?s1 9 n d'] r by (simp add: run_told_def sys_start_def held_keys_def)
  ultimately have reach: "(sys_step True)\<^sup>*\<^sup>* sys_start (with_db ?s1 d')"
    using run_told_reached [of True] by (meson rtranclp.rtrancl_into_rtrancl)
  have "(1, ?k) \<in> pends (w_db run_uploaded)"
    using arg_cong [OF keys, of set] pending_rows_keys [of ?k "w_db run_uploaded" 1] by (simp add: GetPendingObjectKeys_def pends_def)
  then have "live (sy_db (with_db ?s1 d')) ?k"
    using live_commit_push [OF r [unfolded CommitPush_def], of ?k] by (simp add: with_db_def pends_def)
  with reach live_objects_stored [OF reach] show ?thesis by blast
qed

text \<open>The run of the next property, world by world.\<close>

definition late_found :: world where
  "late_found = record_success run_uploaded"

definition late_expired :: world where
  "late_expired = late_found\<lparr>w_db := snd (CleanupPendingClosures (\<lambda>_. False) 10 [] (w_db late_found))\<rparr>"

definition late_holding :: removing where
  "late_holding = \<lparr>sw_keys = [''a.narinfo''], sw_todo = [''a.narinfo''], sw_deleted = [], sw_errors = [], sw_unanswered = []\<rparr>"

definition late_removed :: removal where
  "late_removed = remove_one (quiet 20) ''a.narinfo'' (removal_of late_holding late_expired)"

definition late_swept :: world where
  "late_swept = (rm_world late_removed)\<lparr>w_db := DeleteObjects [''a.narinfo''] (w_db (rm_world late_removed))\<rparr>"

definition late_registered :: world where
  "late_registered = (started late_swept)\<lparr>w_db := RegisterCompletedObject ''a.narinfo'' [] None (w_db (started late_swept))\<rparr>"

lemma late_facts:
  "objectExistsInS3 (quiet 7) ''a.narinfo'' run_uploaded = (Inr True, late_found)"
  "LockObjectsReadyForDeletion (\<lambda>_. False) 20 0 '''' 1000 (w_db late_expired) = [''a.narinfo'']"
  "tombstoned (w_db late_expired) ''a.narinfo''"
  "GetKeysNotPending [''a.narinfo''] (w_db late_expired) = [''a.narinfo'']"
  "rm_deleted late_removed = [''a.narinfo'']" "rm_unanswered late_removed = []"
  "insertPendingClosure (quiet 5) ''a.narinfo'' (Some [''a.narinfo'']) one_object late_swept
     = (Inr ((2, \<lparr>pc_key = ''a.narinfo'', pc_started_at = 5, pc_roots = [''a.narinfo'']\<rparr>), run_rows), started late_swept)"
  "live (w_db late_registered) ''a.narinfo''" "bucket late_registered = []"
proof -
  have "bucket run_uploaded = [''a.narinfo'']" by code_simp
  then show "objectExistsInS3 (quiet 7) ''a.narinfo'' run_uploaded = (Inr True, late_found)"
    by (simp add: objectExistsInS3_def StatObject_def quiet_def late_found_def)
  show "LockObjectsReadyForDeletion (\<lambda>_. False) 20 0 '''' 1000 (w_db late_expired) = [''a.narinfo'']"
    "tombstoned (w_db late_expired) ''a.narinfo''" "rm_deleted late_removed = [''a.narinfo'']"
    "rm_unanswered late_removed = []"
    "GetKeysNotPending [''a.narinfo''] (w_db late_expired) = [''a.narinfo'']"
    "live (w_db late_registered) ''a.narinfo''" "bucket late_registered = []"
    by code_simp+
  show "insertPendingClosure (quiet 5) ''a.narinfo'' (Some [''a.narinfo'']) one_object late_swept
     = (Inr ((2, \<lparr>pc_key = ''a.narinfo'', pc_started_at = 5, pc_roots = [''a.narinfo'']\<rparr>), run_rows), started late_swept)"
    unfolding started_def by (rule pair_fst) code_simp
qed

text \<open>
  C21: without the restriction of \<open>sys_step True\<close> the invariant breaks. A completion request finds its object in S3;
  its push expires, a forced collection with no grace period sweeps object and row, a second push of
  the same object starts, and only then the first request registers the object: the existence of a
  pending row is checked by key, so the second push's row lets the stale answer through, and the row
  is live although S3 does not have the object.
\<close>
theorem late_registration:
  "\<exists>s. (sys_step False)\<^sup>*\<^sup>* sys_start s \<and> live (sy_db s) ''a.narinfo'' \<and> bucket (sy_world s) = []"
proof -
  let ?k = "''a.narinfo''" and ?st = "sys_step False"
  define with_seen where "with_seen w p = run_told\<lparr>sy_world := w, sy_seen := [?k], sy_sweep := p\<rparr>" for w p
  define fin where "fin = run_told\<lparr>sy_world := late_registered, sy_lookups := [(2, run_rows)]\<rparr>"
  have told: "sy_world run_told = run_uploaded" "sy_seen run_told = []" "sy_sweep run_told = NoSweep"
    "sy_lookups run_told = []"
    by (simp_all add: run_told_def sys_start_def)
  have "?st run_told (with_seen late_found NoSweep)"
    using see [of "quiet 7" ?k run_told "Inr True" late_found] late_facts(1) told
    by (simp add: run_told_def sys_start_def with_seen_def)
  moreover have "?st (with_seen late_found NoSweep) (with_seen late_expired NoSweep)"
    using expire [of "\<lambda>_. False" 10 "[]" "with_seen late_found NoSweep"] unfolding late_expired_def
    by (simp add: run_told_def sys_start_def with_seen_def with_db_def prod_eq_iff)
  moreover have "?st (with_seen late_expired NoSweep) (with_seen late_expired (Selected [?k]))"
    using sweep_select [of "with_seen late_expired NoSweep" False "\<lambda>_. False" 20 0 "''''" 1000] late_facts(2)
    by (simp add: run_told_def sys_start_def with_seen_def)
  moreover have "?st (with_seen late_expired (Selected [?k])) (with_seen late_expired (Holding [?k]))"
    using sweep_lock [of "with_seen late_expired (Selected [?k])" "[?k]" "[?k]"] late_facts(3)
    by (simp add: run_told_def sys_start_def with_seen_def)
  moreover have "?st (with_seen late_expired (Holding [?k])) (with_seen late_expired (Removing late_holding))"
    using sweep_recheck [of "with_seen late_expired (Holding [?k])" "[?k]"] late_facts(4)
    by (simp add: run_told_def sys_start_def with_seen_def late_holding_def)
  moreover have "?st (with_seen late_expired (Removing late_holding))
      (with_seen (rm_world late_removed) (Removing (after_removal late_holding [] late_removed)))"
    using sweep_remove [of "with_seen late_expired (Removing late_holding)" late_holding ?k "[]" False "quiet 20" late_removed]
    by (simp add: run_told_def sys_start_def with_seen_def late_removed_def, simp add: late_holding_def)
  moreover have "?st (with_seen (rm_world late_removed) (Removing (after_removal late_holding [] late_removed)))
      (with_seen late_swept NoSweep)"
    using sweep_finish [of "with_seen (rm_world late_removed) (Removing (after_removal late_holding [] late_removed))"
        "after_removal late_holding [] late_removed" False "quiet 20"] late_facts(5,6)
    by (simp add: run_told_def sys_start_def with_seen_def after_removal_def with_db_def late_swept_def)
  moreover have "?st (with_seen late_swept NoSweep) ((with_seen (started late_swept) NoSweep)\<lparr>sy_lookups := [(2, run_rows)]\<rparr>)"
    using insert [of "quiet 5" ?k "Some [?k]" one_object "with_seen late_swept NoSweep"] late_facts(7) told
    by (simp add: run_told_def sys_start_def with_seen_def)
  moreover have "?st ((with_seen (started late_swept) NoSweep)\<lparr>sy_lookups := [(2, run_rows)]\<rparr>) fin"
    using register [of ?k "(with_seen (started late_swept) NoSweep)\<lparr>sy_lookups := [(2, run_rows)]\<rparr>" False "[]" None] told
    by (simp add: run_told_def sys_start_def with_seen_def fin_def late_registered_def with_db_def held_keys_def)
  ultimately have "?st\<^sup>*\<^sup>* run_told fin" by (meson converse_rtranclp_into_rtranclp r_into_rtranclp)
  with run_told_reached [of False] have "?st\<^sup>*\<^sup>* sys_start fin" by (rule rtranclp_trans)
  moreover have "sy_world fin = late_registered" by (simp add: fin_def)
  ultimately show ?thesis using late_facts(8,9) by auto
qed

text \<open>
  C20: the handlers and the collector are runs of the steps. Undisturbed by others, completing an upload,
  starting a push and a whole mark and sweep lead, on every outcome and error path, to a world that
  a sequence of the steps above reaches from the same state.
\<close>
theorem operations_are_runs:
  assumes "db_inv (sy_db s)" "sy_sweep s = NoSweep" "sy_mark s = None" "sy_seen s = []" "sy_lookups s = []"
  shows "(sys_step brisk)\<^sup>*\<^sup>* s (s\<lparr>sy_world := snd (CompleteUploadHandler e (Decoded key) (sy_world s))\<rparr>) \<and>
    (sys_step brisk)\<^sup>*\<^sup>* s (s\<lparr>sy_world := snd (snd (cleanupOrphanObjects e grace (sy_world s)))\<rparr>) \<and>
    (\<exists>told. (sys_step brisk)\<^sup>*\<^sup>* s (s\<lparr>sy_world := snd (createPendingClosure e key roots objs verify (sy_world s)),
       sy_told := told @ sy_told s\<rparr>))"
proof -
  have free: "\<not> held s k" for k using assms(2) by (simp add: held_keys_def)
  have "(sys_step brisk)\<^sup>*\<^sup>* s (s\<lparr>sy_world := snd (CompleteUploadHandler e (Decoded key) (sy_world s))\<rparr>)"
    by (rule CompleteUploadHandler_steps [OF free prod.collapse [symmetric]])
  moreover have "(sys_step brisk)\<^sup>*\<^sup>* s (s\<lparr>sy_world := snd (snd (cleanupOrphanObjects e grace (sy_world s)))\<rparr>)"
    by (rule cleanupOrphanObjects_steps [where stats = "fst (cleanupOrphanObjects e grace (sy_world s))"
          and errs = "fst (snd (cleanupOrphanObjects e grace (sy_world s)))"]) (use assms in simp_all)
  moreover have "\<exists>told. (sys_step brisk)\<^sup>*\<^sup>* s (s\<lparr>sy_world := snd (createPendingClosure e key roots objs verify (sy_world s)),
       sy_told := told @ sy_told s\<rparr>)"
    using createPendingClosure_steps [OF _ _ prod.collapse [symmetric], of s objs brisk e key roots verify] free assms(5) by auto
  ultimately show ?thesis by blast
qed

theorem operations_are_runs_witness:
  "\<exists>told. (sys_step True)\<^sup>*\<^sup>* sys_start (sys_start\<lparr>sy_world := snd (createPendingClosure (quiet 5) ''a.narinfo''
      (Some [''a.narinfo'']) one_object False (sy_world sys_start)), sy_told := told @ sy_told sys_start\<rparr>)"
proof -
  have "db_inv (sy_db sys_start)" using sys_inv_start by (simp add: sys_inv_def)
  from operations_are_runs [OF this, where brisk = True and e = "quiet 5" and key = "''a.narinfo''"
      and roots = "Some [''a.narinfo'']" and objs = one_object and verify = False]
  show ?thesis by (simp add: sys_start_def)
qed

end
