(* ===== verification/Pins.thy ===== *)
theory Pins
  imports Uploads Auth
begin

text \<open>
  Pins, \<open>src/server/pins.go\<close>: names that keep a closure from the collector. The row in the database is
  the truth, the object under \<open>pins/\<close> in S3 is a copy for clients that only read the bucket. Times
  in answers stay numbers.
\<close>

section \<open>Names and store paths\<close>

definition pin_char :: "char \<Rightarrow> bool" where
  "pin_char c \<longleftrightarrow> (let n = (of_char c :: nat) in
     (97 \<le> n \<and> n \<le> 122) \<or> (65 \<le> n \<and> n \<le> 90) \<or> (48 \<le> n \<and> n \<le> 57) \<or> c \<in> {CHR ''.'', CHR ''_'', CHR ''-''})"

definition pinNameRegex :: "string \<Rightarrow> bool" where
  "pinNameRegex name \<longleftrightarrow> name \<noteq> '''' \<and> list_all pin_char name"

text \<open>From \<open>/nix/store/hash-name\<close> to \<open>hash.narinfo\<close>; \<open>None\<close> stands for the error.\<close>

definition storePathToNarinfoKey :: "string \<Rightarrow> string option" where
  "storePathToNarinfoKey storePath =
     (case cut_str (last (split_char (CHR ''/'') storePath)) ''-'' of
        (hash, rest, found) \<Rightarrow> if \<not> found \<or> hash = '''' then None else Some (hash @ ''.narinfo''))"

section \<open>Handlers\<close>

text \<open>
  The upsert is part of the transaction that holds the closure's row; the object is written before
  it commits. \<open>ctx\<close> is the principal that admission put into the request's context.
\<close>

definition CreatePinHandler ::
  "service \<Rightarrow> principal option \<Rightarrow> env \<Rightarrow> string \<Rightarrow> string body \<Rightarrow> world \<Rightarrow> unit reply \<times> world" where
  "CreatePinHandler s ctx e name body w =
     (if name = '''' then (HttpError 400 ''missing pin name'', w)
      else if \<not> pinNameRegex name then (HttpError 400 ''invalid pin name'', w)
      else if 256 < length name then (HttpError 400 ''pin name too long: maximum 256 characters'', w)
      else if \<not> mayWritePin s ctx name then (HttpError 403 (''Forbidden: pin '' @ name @ '' is reserved for another rule''), w)
      else (case body of
              Decoded storePath \<Rightarrow>
                if storePath = '''' then (HttpError 400 ''missing store_path'', w)
                else (case storePathToNarinfoKey storePath of
                        None \<Rightarrow> (HttpError 400 ''invalid store path'', w)
                      | Some narinfoKey \<Rightarrow>
                          if db_fault e ''Begin'' then (HttpError 500 ''failed to create pin'', w)
                          else if db_fault e ''GetClosureForShare'' \<or> isl (GetClosureForShare narinfoKey (w_db w))
                          then (HttpError 404 ''closure not found: store path must be pushed before pinning'', w)
                          else (case PutObject e (''pins/'' @ name) w of
                                  (Some r, w) \<Rightarrow> (HttpError 500 ''failed to write pin to S3'', w)
                                | (None, w) \<Rightarrow>
                                    (case (if db_fault e ''UpsertPin'' then Inl ConnectionError
                                           else UpsertPin (now e) name narinfoKey storePath (w_db w)) of
                                       Inl _ \<Rightarrow> (HttpError 500 ''failed to create pin'', w)
                                     | Inr d \<Rightarrow>
                                         if db_fault e ''Commit'' then (HttpError 500 ''failed to create pin'', w)
                                         else (HttpOk 204 (), w\<lparr>w_db := d\<rparr>))))
            | _ \<Rightarrow> (HttpError 400 ''failed to decode request'', w)))"

record PinInfo =
  pi_name :: string
  pi_store_path :: string
  pi_created_at :: time
  pi_updated_at :: time

definition ListPinsHandler :: "env \<Rightarrow> world \<Rightarrow> PinInfo list reply" where
  "ListPinsHandler e w =
     (if db_fault e ''ListPins'' then HttpError 500 ''failed to list pins''
      else HttpOk 200 (List.map (\<lambda>(n, p). \<lparr>pi_name = n, pi_store_path = pin_store_path p,
             pi_created_at = pin_created_at p, pi_updated_at = pin_updated_at p\<rparr>) (ListPins (w_db w))))"

definition DeletePinHandler :: "env \<Rightarrow> string \<Rightarrow> world \<Rightarrow> unit reply \<times> world" where
  "DeletePinHandler e name w =
     (if name = '''' then (HttpError 400 ''missing pin name'', w)
      else if db_fault e ''GetPin'' \<or> isl (GetPin name (w_db w)) then (HttpError 404 ''pin not found'', w)
      else if db_fault e ''DeletePin'' then (HttpError 500 ''failed to delete pin'', w)
      else (HttpOk 204 (), snd (RemoveObject e (''pins/'' @ name) (w\<lparr>w_db := DeletePin name (w_db w)\<rparr>))))"

section \<open>What the handlers do\<close>

definition pin_of :: "db \<Rightarrow> string \<Rightarrow> pin_row option" where
  "pin_of d name = map_of (pins d) name"

lemma UpsertPin_lookup:
  assumes "UpsertPin t name key path d = Inr d'"
  shows "pin_of d' n = (if n = name then Some (case pin_of d name of
            None \<Rightarrow> \<lparr>pin_narinfo_key = key, pin_store_path = path, pin_created_at = t, pin_updated_at = t\<rparr>
          | Some p \<Rightarrow> p\<lparr>pin_narinfo_key := key, pin_store_path := path, pin_updated_at := t\<rparr>) else pin_of d n)"
  using assms by (auto simp: UpsertPin_def pin_of_def update_conv' split: if_splits)

lemma DeletePin_lookup: "pin_of (DeletePin name d) n = (if n = name then None else pin_of d n)"
  by (simp add: pin_of_def DeletePin_def delete_conv')

text \<open>The narinfo key of a store path that has its usual form.\<close>

lemma split_char_last: "d \<notin> set s \<Longrightarrow> last (split_char d (p @ d # s)) = s"
  by (simp add: split_char_sep split_char_no_sep)

lemma storePathToNarinfoKey_path:
  assumes "hash \<noteq> ''''" "CHR ''-'' \<notin> set hash" "CHR ''/'' \<notin> set hash" "CHR ''/'' \<notin> set name"
  shows "storePathToNarinfoKey (dir @ ''/'' @ hash @ ''-'' @ name) = Some (hash @ ''.narinfo'')"
proof -
  have cut: "CHR ''-'' \<notin> set h \<Longrightarrow> cut_str (h @ ''-'' @ name) ''-'' = (h, name, True)" for h
    by (induction h) (auto simp: has_prefix_def)
  have "last (split_char (CHR ''/'') (dir @ ''/'' @ (hash @ ''-'' @ name))) = hash @ ''-'' @ name"
    using split_char_last [of "CHR ''/''" "hash @ ''-'' @ name" dir] assms by simp
  then show ?thesis using cut [OF assms(2)] assms(1) by (simp add: storePathToNarinfoKey_def)
qed

lemma CreatePinHandler_cases:
  assumes "CreatePinHandler s ctx e name body w = (rep, w')"
  obtains (refused) code msg where "rep = HttpError code msg" "w_db w' = w_db w"
      "bucket w' = bucket w \<or> set (bucket w') = insert (''pins/'' @ name) (set (bucket w))"
  | (created) path key d where "rep = HttpOk 204 ()" "body = Decoded path" "pinNameRegex name" "length name \<le> 256"
      "mayWritePin s ctx name" "storePathToNarinfoKey path = Some key" "UpsertPin (now e) name key path (w_db w) = Inr d"
      "w_db w' = d" "set (bucket w') = insert (''pins/'' @ name) (set (bucket w))"
proof (cases "name = '''' \<or> \<not> pinNameRegex name \<or> 256 < length name \<or> \<not> mayWritePin s ctx name")
  case True
  with assms refused show thesis by (auto simp: CreatePinHandler_def split: if_splits)
next
  case False
  note ok = False
  show thesis
  proof (cases body)
    case (Decoded path)
    show thesis
    proof (cases "path = '''' \<or> storePathToNarinfoKey path = None")
      case True
      with assms ok Decoded refused show thesis by (auto simp: CreatePinHandler_def split: if_splits)
    next
      case False
      then obtain key where key: "storePathToNarinfoKey path = Some key" "path \<noteq> ''''" by auto
      obtain x w1 where put: "PutObject e (''pins/'' @ name) w = (x, w1)" by fastforce
      note w1 = PutObject_effect [OF put]
      let ?q = "if db_fault e ''UpsertPin'' then Inl ConnectionError else UpsertPin (now e) name key path (w_db w1)"
      have "(\<exists>code msg. rep = HttpError code msg \<and> (w' = w \<or> w' = w1)) \<or>
          (\<exists>d. rep = HttpOk 204 () \<and> x = None \<and> UpsertPin (now e) name key path (w_db w1) = Inr d \<and> w' = w1\<lparr>w_db := d\<rparr>)"
        using assms ok Decoded key put
        by (cases x; cases ?q) (auto simp: CreatePinHandler_def split: if_splits)
      then show thesis
      proof (elim disjE exE conjE)
        fix code msg assume "rep = HttpError code msg" "w' = w"
        with refused show thesis by simp
      next
        fix code msg assume "rep = HttpError code msg" "w' = w1"
        with refused w1 show thesis by (cases x) auto
      next
        fix d assume "rep = HttpOk 204 ()" "x = None" "UpsertPin (now e) name key path (w_db w1) = Inr d" "w' = w1\<lparr>w_db := d\<rparr>"
        with created Decoded ok key w1 show thesis by auto
      qed
    qed
  qed (use assms ok refused in \<open>auto simp: CreatePinHandler_def\<close>)
qed

lemma pinNameRegex_no_slash: "pinNameRegex name \<Longrightarrow> CHR ''/'' \<notin> set name"
  by (auto simp: pinNameRegex_def list_all_iff pin_char_def)

section \<open>Properties\<close>

text \<open>
  Creating a pin is all or nothing in the database. A request that is answered 204 had a valid name
  of at most 256 characters, none of them a slash, that its principal may write, and a store path whose
  closure exists; afterwards the name points to that closure, every other pin is as before, and S3
  holds the copy. Any other answer leaves the tables as they were.
\<close>
theorem CreatePinHandler_atomic:
  assumes "db_inv (w_db w)" "CreatePinHandler s ctx e name (Decoded path) w = (rep, w')"
  shows "(case rep of
      HttpOk code _ \<Rightarrow> code = 204 \<and> pinNameRegex name \<and> CHR ''/'' \<notin> set name \<and> length name \<le> 256 \<and> mayWritePin s ctx name \<and>
        (\<exists>key p. storePathToNarinfoKey path = Some key \<and> key \<in> closure_keys (w_db w') \<and>
           pin_of (w_db w') name = Some p \<and> pin_narinfo_key p = key \<and> pin_store_path p = path \<and> pin_updated_at p = now e) \<and>
        (\<forall>n. n \<noteq> name \<longrightarrow> pin_of (w_db w') n = pin_of (w_db w) n) \<and> ''pins/'' @ name \<in> set (bucket w')
    | HttpError code msg \<Rightarrow> w_db w' = w_db w) \<and> db_inv (w_db w') \<and> set (bucket w) \<subseteq> set (bucket w')"
  using assms(2)
proof (cases rule: CreatePinHandler_cases)
  case (refused code msg)
  with assms(1) show ?thesis by auto
next
  case (created path' key d)
  note look = UpsertPin_lookup [OF created(7)]
  have "key \<in> closure_keys d"
    using created(7) by (auto simp: UpsertPin_def closure_keys_def map_of_None_iff split: if_splits)
  with created look pinNameRegex_no_slash UpsertPin_inv [OF assms(1) created(7)] show ?thesis
    by (auto split: option.splits)
qed

definition pin_world :: world where
  "pin_world = empty_world\<lparr>w_db := (w_db empty_world)\<lparr>closures := [(''abc.narinfo'', 1)]\<rparr>\<rparr>"

lemma pin_world_inv: "db_inv (w_db pin_world)"
proof -
  have "db_inv (empty_db\<lparr>closures := [(''abc.narinfo'', 1)]\<rparr>)"
    by (rule closures_change_inv [OF db_inv_empty]) (simp_all add: pin_targets_def empty_db_def)
  then show ?thesis by (simp add: pin_world_def empty_world_def)
qed

theorem CreatePinHandler_atomic_witness:
  "\<exists>p. pin_of (w_db (snd (CreatePinHandler plain_service None (quiet 7) ''release'' (Decoded ''/nix/store/abc-x'') pin_world)))
     ''release'' = Some p \<and> pin_narinfo_key p = ''abc.narinfo''"
proof -
  let ?r = "CreatePinHandler plain_service None (quiet 7) ''release'' (Decoded ''/nix/store/abc-x'') pin_world"
  have run: "fst ?r = HttpOk 204 ()" by code_simp
  have key: "storePathToNarinfoKey ''/nix/store/abc-x'' = Some ''abc.narinfo''" by code_simp
  note ok = CreatePinHandler_atomic [OF pin_world_inv prod.collapse [symmetric], of plain_service None "quiet 7"
    "''release''" "''/nix/store/abc-x''", unfolded run]
  from ok key show ?thesis by auto
qed

text \<open>
  A name that some rule of the OIDC configuration reserves is created or moved only by a principal
  with the admin scope or with a pin pattern that covers it; in particular never by a request without
  a principal.
\<close>
theorem reserved_pin_needs_rule:
  assumes "OIDCValidator s = Some c" "ReservesPin c name"
    and "fst (CreatePinHandler s ctx e name body w) = HttpOk 204 ()"
  shows "\<exists>p. ctx = Some p \<and> (ScopeAdmin \<in> set (scopes p) \<or> GlobMatchAny (pin_patterns p) name)"
proof -
  have "mayWritePin s ctx name"
    by (rule CreatePinHandler_cases [OF prod.collapse [symmetric], of s ctx e name body w]) (use assms(3) in auto)
  with assms(1,2) show ?thesis by (auto simp: mayWritePin_def split: option.splits)
qed

definition pin_config :: Config where
  "pin_config = \<lparr>Providers = [(''ci'', \<lparr>Issuer = ''https://ci'', JWKSURL = '''', Audience = ''cache'', pc_claims = [],
     pc_subject = [''repo:a/*''], pc_scopes = [], pc_pins = [''release-*''], pc_rules = [], provider_name = ''ci''\<rparr>)],
     AllowInsecure = False\<rparr>"

definition pin_service :: service where
  "pin_service = plain_service\<lparr>OIDCValidator := Some pin_config\<rparr>"

theorem reserved_pin_needs_rule_witness:
  "GlobMatchAny [''release-2*''] ''release-25'' \<and>
   fst (CreatePinHandler pin_service None (quiet 7) ''release-25'' (Decoded ''/nix/store/abc-x'') pin_world) \<noteq> HttpOk 204 ()"
proof -
  let ?p = "\<lparr>scopes = [ScopeWrite], pin_patterns = [''release-2*'']\<rparr>"
  have cfg: "OIDCValidator pin_service = Some pin_config" "ReservesPin pin_config ''release-25''" by (simp add: pin_service_def) code_simp
  have run: "fst (CreatePinHandler pin_service (Some ?p) (quiet 7) ''release-25'' (Decoded ''/nix/store/abc-x'') pin_world)
      = HttpOk 204 ()" by code_simp
  from reserved_pin_needs_rule [OF cfg run] have "GlobMatchAny [''release-2*''] ''release-25''"
    by (auto simp: ScopeAdmin_def ScopeWrite_def)
  moreover have "fst (CreatePinHandler pin_service None (quiet 7) ''release-25'' (Decoded ''/nix/store/abc-x'') pin_world)
      \<noteq> HttpOk 204 ()" using reserved_pin_needs_rule [OF cfg, of None] by blast
  ultimately show ?thesis by blast
qed

text \<open>
  Deleting a pin removes exactly that pin, and only if it exists; the answer is 204 even when the copy
  in S3 stays, and every other answer leaves the world as it was.
\<close>
theorem DeletePinHandler_exact:
  "case DeletePinHandler e name w of
     (HttpOk code _, w') \<Rightarrow> code = 204 \<and> pin_of (w_db w) name \<noteq> None \<and>
       (\<forall>n. pin_of (w_db w') n = (if n = name then None else pin_of (w_db w) n)) \<and>
       (remove_fault e (''pins/'' @ name) = None \<longrightarrow> ''pins/'' @ name \<notin> set (bucket w')) \<and>
       set (bucket w) - {''pins/'' @ name} \<subseteq> set (bucket w')
   | (HttpError code msg, w') \<Rightarrow> w' = w"
proof -
  have rem: "w_db (snd (RemoveObject e k u)) = w_db u"
    "remove_fault e k = None \<Longrightarrow> k \<notin> set (bucket (snd (RemoveObject e k u)))"
    "set (bucket u) - {k} \<subseteq> set (bucket (snd (RemoveObject e k u)))" for k u
    by (auto simp: RemoveObject_def split: option.splits)
  have "isl (GetPin name (w_db w)) \<longleftrightarrow> pin_of (w_db w) name = None"
    by (simp add: GetPin_def pin_of_def split: option.splits)
  then show ?thesis
    using rem(3) [of "w\<lparr>w_db := DeletePin name (w_db w)\<rparr>" "''pins/'' @ name"]
    by (auto simp: DeletePinHandler_def rem DeletePin_lookup)
qed

end
