(* ===== verification/Proxy.thy ===== *)
theory Proxy
  imports Keys Auth Pending
begin

text \<open>
  The read proxy, \<open>src/server/proxy.go\<close>, with the redirect of the root path (\<open>src/server/redirect.go\<close>):
  GET and HEAD requests for cache objects are answered from S3, with single byte ranges, conditional
  requests, and zstd objects decoded for clients that do not accept them. A response is the status,
  the headers and the body the handler writes; deadlines are left out but for their size.
\<close>

section \<open>Deadlines\<close>

definition proxyMinThroughput :: int where
  "proxyMinThroughput = 100000"

definition proxyTimeoutSlack :: int where
  "proxyTimeoutSlack = 5 * 60 * 1000000000"

definition maxNarinfoSize :: nat where
  "maxNarinfoSize = 16 * 1024 * 1024"

text \<open>In nanoseconds, on \<open>int64\<close>.\<close>

definition ProxyWriteTimeout :: "int \<Rightarrow> int" where
  "ProxyWriteTimeout n =
     (let n = (if n < 0 then 0 else n)
      in to_i64 (proxyTimeoutSlack + to_i64 (n div proxyMinThroughput * 1000000000)))"

section \<open>Ranges\<close>

record byteRange =
  br_start :: int
  br_end :: int

definition byteRange_length :: "byteRange \<Rightarrow> int" where
  "byteRange_length br = br_end br - br_start br + 1"

datatype range_error = UnsatisfiableRange

definition parseSingleRange :: "string \<Rightarrow> int \<Rightarrow> range_error + byteRange option" where
  "parseSingleRange spec len =
     (if spec = '''' \<or> len \<le> 0 then Inr None
      else if \<not> has_prefix spec ''bytes='' then Inr None
      else (let spec = trim_prefix spec ''bytes='' in
            if contains_str spec '','' then Inr None
            else (case cut_str spec ''-'' of
                    (startStr, endStr, ok) \<Rightarrow>
                      if \<not> ok then Inr None
                      else (let startStr = trim_space startStr; endStr = trim_space endStr in
                            if startStr = '''' \<and> endStr = '''' then Inr None
                            else if startStr = ''''
                            then (case parse_int 64 endStr of
                                    None \<Rightarrow> Inr None
                                  | Some n \<Rightarrow>
                                      if n \<le> 0 then Inr None
                                      else (let n = (if len < n then len else n)
                                            in Inr (Some \<lparr>br_start = len - n, br_end = len - 1\<rparr>)))
                            else (case parse_int 64 startStr of
                                    None \<Rightarrow> Inr None
                                  | Some start \<Rightarrow>
                                      if start < 0 then Inr None
                                      else if len \<le> start then Inl UnsatisfiableRange
                                      else if endStr = '''' then Inr (Some \<lparr>br_start = start, br_end = len - 1\<rparr>)
                                      else (case parse_int 64 endStr of
                                              None \<Rightarrow> Inr None
                                            | Some end' \<Rightarrow>
                                                if end' < start then Inr None
                                                else Inr (Some \<lparr>br_start = start,
                                                  br_end = (if len \<le> end' then len - 1 else end')\<rparr>)))))))"

section \<open>Responses\<close>

record http_response =
  rs_status :: nat
  rs_headers :: "(string \<times> string) list"
  rs_body :: string

text \<open>\<open>Header.Set\<close>, \<open>Header.Add\<close> and \<open>http.Error\<close> of \<open>net/http\<close>.\<close>

definition set_header :: "string \<Rightarrow> string \<Rightarrow> (string \<times> string) list \<Rightarrow> (string \<times> string) list" where
  "set_header n v hs = filter (\<lambda>(m, u). m \<noteq> n) hs @ [(n, v)]"

definition add_header :: "string \<Rightarrow> string \<Rightarrow> (string \<times> string) list \<Rightarrow> (string \<times> string) list" where
  "add_header n v hs = hs @ [(n, v)]"

definition http_error :: "nat \<Rightarrow> string \<Rightarrow> (string \<times> string) list \<Rightarrow> http_response" where
  "http_error code msg hs = \<lparr>rs_status = code, rs_headers = set_header ''Content-Type'' ''text/plain; charset=utf-8'' hs,
     rs_body = msg\<rparr>"

definition not_found :: http_response where
  "not_found = http_error 404 ''404 page not found'' []"

section \<open>Objects\<close>

text \<open>What \<open>StatObject\<close> answers about an object; a zero time is \<open>None\<close>.\<close>

record ObjectInfo =
  oi_key :: string
  oi_size :: int
  oi_etag :: string
  oi_content_type :: string
  oi_modified :: "time option"
  oi_metadata :: "(string \<times> string) list"

text \<open>
  The outside of the proxy: the metadata and the bytes of the objects, the answers to GET requests, what
  a zstd stream decodes to (all of it, or a prefix before an error), and the parsing and formatting
  of HTTP dates.
\<close>

record proxy_env =
  px_info :: "string \<Rightarrow> ObjectInfo"
  px_content :: "string \<Rightarrow> string"
  px_get_fault :: "string \<Rightarrow> s3_error option"
  px_wait_fault :: "string \<Rightarrow> bool"
  px_zstd :: "string \<Rightarrow> string \<times> bool"
  px_reset_fault :: bool
  px_parse_time :: "string \<Rightarrow> time option"
  px_format_time :: "time \<Rightarrow> string"
  px_presign :: "string \<Rightarrow> string option"

record proxy_service =
  EnableReadProxy :: bool
  CacheURL :: string
  ReadRedirectTTL :: int

definition assoc_get :: "(string \<times> string) list \<Rightarrow> string \<Rightarrow> string" where
  "assoc_get hs n = (case map_of hs n of None \<Rightarrow> '''' | Some v \<Rightarrow> v)"

definition objectContentEncoding :: "ObjectInfo \<Rightarrow> string" where
  "objectContentEncoding info =
     (let enc = assoc_get (oi_metadata info) ''Content-Encoding'' in
      if enc \<noteq> '''' then enc else assoc_get (oi_metadata info) ''X-Amz-Meta-Content-Encoding'')"

text \<open>The first coding called zstd decides; the codings of all header lines in order.\<close>

fun accepts_coding :: "string list \<Rightarrow> bool" where
  "accepts_coding [] \<longleftrightarrow> False"
| "accepts_coding (coding # cs) \<longleftrightarrow>
     (case cut_str coding '';'' of
        (name, params, found) \<Rightarrow>
          if \<not> equal_fold (trim_space name) ''zstd'' then accepts_coding cs
          else (let q = filter (\<lambda>c. c \<noteq> CHR '' '') (List.map to_lower params)
                in q \<notin> set [''q=0'', ''q=0.0'', ''q=0.00'', ''q=0.000'']))"

definition acceptsZstd :: "http_request \<Rightarrow> bool" where
  "acceptsZstd r \<longleftrightarrow> accepts_coding (concat (List.map (split_char (CHR '','')) (header_values r ''Accept-Encoding'')))"

definition needsDecoding :: "http_request \<Rightarrow> ObjectInfo \<Rightarrow> bool" where
  "needsDecoding r info \<longleftrightarrow> equal_fold (objectContentEncoding info) ''zstd'' \<and> \<not> acceptsZstd r"

definition setProxyHeaders ::
  "proxy_env \<Rightarrow> http_request \<Rightarrow> ObjectInfo \<Rightarrow> (string \<times> string) list \<Rightarrow> (string \<times> string) list \<times> bool" where
  "setProxyHeaders x r info hs =
     (let decode = needsDecoding r info;
          hs = (if has_suffix (oi_key info) ''.narinfo'' then set_header ''Content-Type'' ''text/x-nix-narinfo'' hs
                else if oi_content_type info \<noteq> '''' then set_header ''Content-Type'' (oi_content_type info) hs
                else hs);
          enc = objectContentEncoding info;
          hs = (if enc \<noteq> '''' then
                  (let hs = add_header ''Vary'' ''Accept-Encoding'' hs
                   in if decode then hs else set_header ''Content-Encoding'' enc hs)
                else hs);
          hs = (if oi_etag info \<noteq> '''' then set_header ''ETag'' (oi_etag info) hs else hs);
          hs = (case oi_modified info of None \<Rightarrow> hs | Some t \<Rightarrow> set_header ''Last-Modified'' (px_format_time x t) hs)
      in (hs, decode))"

definition handleProxyS3Error :: "s3_error \<Rightarrow> world \<Rightarrow> http_response \<times> world" where
  "handleProxyS3Error err w =
     (if isRateLimitError (S3Error err)
      then (http_error 429 ''S3 rate limit exceeded, please retry'' [(''Retry-After'', ''2'')], record_throttle w)
      else if err_code err = ''NoSuchKey'' \<or> err_status err = 404 then (not_found, w)
      else (http_error 502 ''Bad Gateway'' [], w))"

section \<open>Handlers\<close>

definition handleProxyHead :: "env \<Rightarrow> proxy_env \<Rightarrow> http_request \<Rightarrow> string \<Rightarrow> world \<Rightarrow> http_response \<times> world" where
  "handleProxyHead e x r key w =
     (case StatObject e w key of
        Some err \<Rightarrow> handleProxyS3Error err w
      | None \<Rightarrow>
          (let w = record_success w;
               info = px_info x key;
               (hs, decode) = setProxyHeaders x r info [];
               hs = (if decode then hs
                     else set_header ''Content-Length'' (format_int (oi_size info)) (set_header ''Accept-Ranges'' ''bytes'' hs))
           in (\<lparr>rs_status = 200, rs_headers = hs, rs_body = ''''\<rparr>, w)))"

definition serveDecoded :: "proxy_env \<Rightarrow> http_request \<Rightarrow> string \<Rightarrow> ObjectInfo \<Rightarrow> http_response" where
  "serveDecoded x r obj info =
     (if px_reset_fault x then http_error 502 ''Bad Gateway'' []
      else (let (plain, ok) = px_zstd x obj in
            if has_suffix (oi_key info) ''.narinfo''
            then (if (\<not> ok \<and> length plain \<le> maxNarinfoSize) \<or> maxNarinfoSize < length plain
                  then http_error 502 ''Bad Gateway'' []
                  else \<lparr>rs_status = 200,
                         rs_headers = set_header ''Content-Length'' (format_nat (length plain)) (fst (setProxyHeaders x r info [])),
                         rs_body = plain\<rparr>)
            else \<lparr>rs_status = 200, rs_headers = fst (setProxyHeaders x r info []), rs_body = plain\<rparr>))"

definition get_range :: "byteRange option \<Rightarrow> string \<Rightarrow> string" where
  "get_range rng content =
     (case rng of None \<Rightarrow> content | Some br \<Rightarrow> take (nat (byteRange_length br)) (drop (nat (br_start br)) content))"

definition not_modified :: "proxy_env \<Rightarrow> http_request \<Rightarrow> ObjectInfo \<Rightarrow> bool" where
  "not_modified x r info \<longleftrightarrow>
     (let inm = header_get r ''If-None-Match'' in inm \<noteq> '''' \<and> inm = oi_etag info) \<or>
     (let ims = header_get r ''If-Modified-Since'' in ims \<noteq> '''' \<and>
        (case px_parse_time x ims of
           None \<Rightarrow> False
         | Some t \<Rightarrow> (case oi_modified info of None \<Rightarrow> True | Some m \<Rightarrow> \<not> t < m)))"

definition send_object ::
  "proxy_env \<Rightarrow> http_request \<Rightarrow> ObjectInfo \<Rightarrow> byteRange option \<Rightarrow> string \<Rightarrow> http_response" where
  "send_object x r info rng obj =
     (let hs = set_header ''Accept-Ranges'' ''bytes'' (fst (setProxyHeaders x r info [])) in
      case rng of
        Some br \<Rightarrow>
          \<lparr>rs_status = 206,
            rs_headers = set_header ''Content-Length'' (format_int (byteRange_length br))
              (set_header ''Content-Range'' (''bytes '' @ format_int (br_start br) @ ''-'' @ format_int (br_end br) @ ''/'' @
                 format_int (oi_size info)) hs),
            rs_body = obj\<rparr>
      | None \<Rightarrow> \<lparr>rs_status = 200, rs_headers = set_header ''Content-Length'' (format_int (oi_size info)) hs, rs_body = obj\<rparr>)"

definition handleProxyGet :: "env \<Rightarrow> proxy_env \<Rightarrow> http_request \<Rightarrow> string \<Rightarrow> world \<Rightarrow> http_response \<times> world" where
  "handleProxyGet e x r key w =
     (case StatObject e w key of
        Some err \<Rightarrow> handleProxyS3Error err w
      | None \<Rightarrow>
          (let w = record_success w; info = px_info x key in
           if not_modified x r info then (\<lparr>rs_status = 304, rs_headers = [], rs_body = ''''\<rparr>, w)
           else (let decode = needsDecoding r info in
                 case (if decode then Inr None else parseSingleRange (header_get r ''Range'') (oi_size info)) of
                   Inl UnsatisfiableRange \<Rightarrow>
                     (http_error 416 ''Requested Range Not Satisfiable''
                        [(''Content-Range'', ''bytes */'' @ format_int (oi_size info))], w)
                 | Inr rng \<Rightarrow>
                     if px_wait_fault x key then (http_error 503 ''service unavailable'' [], w)
                     else if (case rng of None \<Rightarrow> False | Some br \<Rightarrow> \<not> (0 \<le> br_start br \<and> br_start br \<le> br_end br))
                     then (http_error 400 ''invalid range'' [], w)
                     else (case px_get_fault x key of
                             Some err \<Rightarrow> handleProxyS3Error err w
                           | None \<Rightarrow>
                               (let w = record_success w; obj = get_range rng (px_content x key) in
                                if decode then (serveDecoded x r obj info, w)
                                else (send_object x r info rng obj, w))))))"

definition RootRedirectHandler :: "proxy_service \<Rightarrow> http_request \<Rightarrow> http_response" where
  "RootRedirectHandler s r =
     (if rq_path r \<noteq> ''/'' then not_found
      else if CacheURL s = '''' then \<lparr>rs_status = 200, rs_headers = [(''Content-Type'', ''text/plain'')],
             rs_body = ''niks3 binary cache server''\<rparr>
      else \<lparr>rs_status = 301, rs_headers = [(''Location'', if EnableReadProxy s then ''/index.html'' else CacheURL s)],
             rs_body = ''''\<rparr>)"

definition redirectToS3 :: "proxy_env \<Rightarrow> string \<Rightarrow> http_response" where
  "redirectToS3 x key =
     (case px_presign x key of
        None \<Rightarrow> http_error 502 ''Bad Gateway'' []
      | Some url \<Rightarrow> \<lparr>rs_status = 307, rs_headers = [(''Cache-Control'', ''no-store''), (''Location'', url)], rs_body = ''''\<rparr>)"

text \<open>
  \<open>fill\<close> is the upstream fill of a narinfo for this request, the identity where it is not allowed; its
  errors are only logged.
\<close>

definition ReadProxyHandler ::
  "proxy_service \<Rightarrow> (http_request \<Rightarrow> bool) \<Rightarrow> (string \<Rightarrow> world \<Rightarrow> world) \<Rightarrow> env \<Rightarrow> proxy_env \<Rightarrow> http_request \<Rightarrow> world \<Rightarrow>
   http_response \<times> world" where
  "ReadProxyHandler s mayFill fill e x r w =
     (if rq_method r \<noteq> ''GET'' \<and> rq_method r \<noteq> ''HEAD'' then (http_error 405 ''Method Not Allowed'' [], w)
      else (let key = trim_prefix (rq_path r) ''/'' in
            if key = '''' then (RootRedirectHandler s r, w)
            else if \<not> IsValidCachePath key then (not_found, w)
            else if 0 < ReadRedirectTTL s \<and> MatchString narRe key then (redirectToS3 x key, w)
            else if wait_fault e key then (http_error 503 ''service unavailable'' [], w)
            else (let w = (if MatchString narinfoRe key \<and> mayFill r then fill key w else w)
                  in if rq_method r = ''HEAD'' then handleProxyHead e x r key w else handleProxyGet e x r key w)))"

section \<open>Byte ranges\<close>

lemma digit_not: "is_digit c \<Longrightarrow> c \<noteq> CHR '','' \<and> c \<noteq> CHR ''-'' \<and> c \<noteq> CHR ''+'' \<and> \<not> is_space c"
  by (auto simp: is_digit_def is_space_def)

lemma trim_space_format_nat [simp]: "trim_space (format_nat n) = format_nat n"
proof -
  have "\<not> is_space c" if "c \<in> set (format_nat n)" for c using format_nat_digits [OF that] digit_not by blast
  then have "dropWhile is_space xs = xs" if "set xs \<subseteq> set (format_nat n)" for xs
    using that by (cases xs) auto
  then show ?thesis by (simp add: trim_space_def)
qed

lemma parse_int_format_nat:
  assumes "n < 2 ^ (bits - 1)"
  shows "parse_int bits (format_nat n) = Some (int n)"
proof (cases "format_nat n")
  case Nil
  then show ?thesis using format_nat_not_Nil by blast
next
  case (Cons c s)
  then have "is_digit c" using format_nat_digits [of c n] by simp
  then have c: "c \<noteq> CHR ''-''" "c \<noteq> CHR ''+''" using digit_not by blast+
  have p: "parse_digits 0 (c # s) = Some n" using parse_digits_format_nat [of n] Cons by simp
  show ?thesis using c assms unfolding Cons parse_int_def Let_def by (simp add: p del: parse_digits.simps)
qed

lemma no_comma: "contains_str s [c] \<longleftrightarrow> c \<in> set s"
  by (auto simp: contains_str_iff in_set_conv_decomp)

lemma format_nat_chars: "CHR '','' \<notin> set (format_nat n)" "CHR ''-'' \<notin> set (format_nat n)"
  using format_nat_digits digit_not by blast+

lemma parseSingleRange_start:
  assumes "0 < len" "n < 2 ^ 63" "CHR '','' \<notin> set rest"
  shows "parseSingleRange (''bytes='' @ format_nat n @ ''-'' @ rest) len =
    (if len \<le> int n then Inl UnsatisfiableRange
     else if trim_space rest = '''' then Inr (Some \<lparr>br_start = int n, br_end = len - 1\<rparr>)
     else (case parse_int 64 (trim_space rest) of
             None \<Rightarrow> Inr None
           | Some m \<Rightarrow> if m < int n then Inr None
                       else Inr (Some \<lparr>br_start = int n, br_end = (if len \<le> m then len - 1 else m)\<rparr>)))"
proof -
  have t: "trim_prefix (''bytes='' @ s) ''bytes='' = s" "has_prefix (''bytes='' @ s) ''bytes=''" for s
    by (simp_all only: trim_prefix_append has_prefix_append)
  have cut: "cut_str (format_nat n @ ''-'' @ rest) ''-'' = (format_nat n, rest, True)"
    using format_nat_chars by simp
  have comma: "\<not> contains_str (format_nat n @ ''-'' @ rest) '',''"
    using assms(3) format_nat_chars by (simp add: no_comma)
  show ?thesis
    using assms(1,2) comma cut parse_int_format_nat [of n 64]
    unfolding parseSingleRange_def t Let_def by (simp split: option.splits)
qed

lemma parseSingleRange_suffix:
  assumes "0 < len" "n < 2 ^ 63"
  shows "parseSingleRange (''bytes=-'' @ format_nat n) len =
    (if n = 0 then Inr None else Inr (Some \<lparr>br_start = max 0 (len - int n), br_end = len - 1\<rparr>))"
proof -
  have t: "trim_prefix (''bytes='' @ s) ''bytes='' = s" "has_prefix (''bytes='' @ s) ''bytes=''" for s
    by (simp_all only: trim_prefix_append has_prefix_append)
  have spec: "''bytes=-'' @ format_nat n = ''bytes='' @ ''-'' @ format_nat n" by simp
  have cut: "cut_str (''-'' @ format_nat n) ''-'' = ('''', format_nat n, True)" by simp
  have comma: "\<not> contains_str (''-'' @ format_nat n) '',''"
    using format_nat_chars by (simp add: no_comma)
  have sp: "trim_space '''' = ''''" by (simp add: trim_space_def)
  show ?thesis
    using assms comma cut sp parse_int_format_nat [of n 64]
    unfolding spec parseSingleRange_def t Let_def by (simp split: option.splits)
qed

lemma parseSingleRange_bounds:
  assumes "parseSingleRange spec len = Inr (Some br)"
  shows "0 \<le> br_start br \<and> br_start br \<le> br_end br \<and> br_end br < len"
  using assms by (auto simp: parseSingleRange_def Let_def split: if_splits option.splits prod.splits)

section \<open>Headers and bodies\<close>

lemma assoc_get_set [simp]: "assoc_get (set_header n v hs) m = (if m = n then v else assoc_get hs m)"
proof -
  have "map_of (filter (\<lambda>(k, u). k \<noteq> n) hs) m = map_of hs m" if "m \<noteq> n"
    using that by (induction hs) auto
  moreover have "map_of (filter (\<lambda>(k, u). k \<noteq> n) hs) n = None" by (induction hs) auto
  ultimately show ?thesis by (auto simp: assoc_get_def set_header_def map_add_def split: option.splits)
qed

lemma assoc_get_Nil [simp]: "assoc_get [] n = ''''"
  by (simp add: assoc_get_def)

lemma assoc_get_add: "m \<noteq> n \<Longrightarrow> assoc_get (add_header n v hs) m = assoc_get hs m"
  by (auto simp: assoc_get_def add_header_def map_add_def split: option.splits)

lemma setProxyHeaders_encoding:
  "assoc_get (fst (setProxyHeaders x r info [])) ''Content-Encoding'' =
     (if needsDecoding r info then '''' else objectContentEncoding info)"
  by (cases "oi_modified info") (simp_all add: setProxyHeaders_def Let_def assoc_get_add)

lemma format_int_nat: "format_int (int n) = format_nat n"
  by (simp add: format_int_def)

lemma handleProxyS3Error_status: "rs_status (fst (handleProxyS3Error err w)) \<in> {429, 404, 502}"
  by (simp add: handleProxyS3Error_def http_error_def not_found_def)

text \<open>The successful answers to a GET request.\<close>

lemma handleProxyGet_cases:
  assumes "handleProxyGet e x r key w = (resp, w')" "rs_status resp \<in> {200, 206}"
  obtains (decoded) "StatObject e w key = None" "needsDecoding r (px_info x key)"
      "resp = serveDecoded x r (px_content x key) (px_info x key)"
  | (sent) rng where "StatObject e w key = None" "\<not> needsDecoding r (px_info x key)"
      "parseSingleRange (header_get r ''Range'') (oi_size (px_info x key)) = Inr rng"
      "resp = send_object x r (px_info x key) rng (get_range rng (px_content x key))"
proof (cases "StatObject e w key")
  case (Some err)
  with assms handleProxyS3Error_status [of err w] have False by (auto simp: handleProxyGet_def)
  then show thesis by simp
next
  case None
  let ?info = "px_info x key"
  let ?p = "if needsDecoding r ?info then Inr None else parseSingleRange (header_get r ''Range'') (oi_size ?info)"
  note run = assms(1) [unfolded handleProxyGet_def None option.case Let_def]
  from assms(2) run have nm: "\<not> not_modified x r ?info" by auto
  show thesis
  proof (cases ?p)
    case (Inl err)
    with run nm assms(2) show thesis by (cases err) (auto simp: http_error_def)
  next
    case (Inr rng)
    have bad: "\<not> (case rng of None \<Rightarrow> False | Some br \<Rightarrow> \<not> (0 \<le> br_start br \<and> br_start br \<le> br_end br))"
      using Inr parseSingleRange_bounds [of "header_get r ''Range''" "oi_size ?info"] by (auto split: option.splits if_splits)
    have wait: "\<not> px_wait_fault x key" using run nm Inr assms(2) by (auto simp: http_error_def)
    note run2 = run [unfolded if_not_P [OF nm] Inr sum.case if_not_P [OF wait] if_not_P [OF bad]]
    have fault: "px_get_fault x key = None"
    proof (cases "px_get_fault x key")
      case (Some err)
      with run2 assms(2) handleProxyS3Error_status [of err "record_success w"] show ?thesis by auto
    qed
    have res: "resp = (if needsDecoding r ?info then serveDecoded x r (get_range rng (px_content x key)) ?info
        else send_object x r ?info rng (get_range rng (px_content x key)))"
      using run2 fault by (auto split: if_splits)
    show thesis
    proof (cases "needsDecoding r ?info")
      case True
      with Inr have "rng = None" by simp
      with True res None decoded show thesis by (simp add: get_range_def)
    next
      case False
      with Inr res None sent show thesis by simp
    qed
  qed
qed

section \<open>Properties\<close>

text \<open>
  C14: byte ranges are read as RFC 7233 means them. On an object of positive length the range \<open>a-b\<close>
  answers the bytes from \<open>a\<close> to the smaller of \<open>b\<close> and the last one, \<open>a-\<close> those from \<open>a\<close> on, \<open>-n\<close> the last
  \<open>n\<close>; a range that starts past the end is unsatisfiable, a backward one is ignored. Whatever the
  header holds, an accepted range is not empty and lies within the object.
\<close>
theorem parseSingleRange_exact:
  assumes "0 < len" "a < 2 ^ 63" "b < 2 ^ 63"
  shows "parseSingleRange (''bytes='' @ format_nat a @ ''-'' @ format_nat b) len =
      (if len \<le> int a then Inl UnsatisfiableRange else if b < a then Inr None
       else Inr (Some \<lparr>br_start = int a, br_end = min (int b) (len - 1)\<rparr>)) \<and>
    parseSingleRange (''bytes='' @ format_nat a @ ''-'') len =
      (if len \<le> int a then Inl UnsatisfiableRange else Inr (Some \<lparr>br_start = int a, br_end = len - 1\<rparr>)) \<and>
    parseSingleRange (''bytes=-'' @ format_nat a) len =
      (if a = 0 then Inr None else Inr (Some \<lparr>br_start = max 0 (len - int a), br_end = len - 1\<rparr>)) \<and>
    (\<forall>spec br. parseSingleRange spec len = Inr (Some br) \<longrightarrow> 0 \<le> br_start br \<and> br_start br \<le> br_end br \<and> br_end br < len)"
proof -
  have sp: "trim_space '''' = ''''" by (simp add: trim_space_def)
  have "min (int b) (len - 1) = (if len \<le> int b then len - 1 else int b)" by simp
  then show ?thesis
    using assms parseSingleRange_start [OF assms(1,2), of "format_nat b"] parseSingleRange_start [OF assms(1,2), of "''''"]
      parseSingleRange_suffix [OF assms(1,2)] parseSingleRange_bounds parse_int_format_nat [of b 64] format_nat_chars
    by (simp add: sp)
qed

theorem parseSingleRange_exact_witness:
  "parseSingleRange ''bytes=3-99'' 10 = Inr (Some \<lparr>br_start = 3, br_end = 9\<rparr>)"
proof -
  have "format_nat 3 = ''3''" "format_nat 99 = ''99''" by code_simp+
  then show ?thesis using parseSingleRange_exact [of 10 3 99] by simp
qed

text \<open>
  C34: a GET answered 200 or 206 has the right bytes under the right headers. To a client that accepts the
  stored encoding it is the whole object under that encoding, or with 206 exactly the bytes of a
  range, which \<open>Content-Range\<close> names; \<open>Content-Length\<close> is the length of the body. A client that does not
  accept zstd gets, without an encoding, what the object decodes to, and a narinfo only if it decodes
  without an error to at most 16 MiB.
\<close>
theorem handleProxyGet_body:
  assumes "handleProxyGet e x r key w = (resp, w')" "rs_status resp \<in> {200, 206}"
    and "oi_size (px_info x key) = int (length (px_content x key))"
  shows "if needsDecoding r (px_info x key)
    then rs_status resp = 200 \<and> rs_body resp = fst (px_zstd x (px_content x key)) \<and>
      assoc_get (rs_headers resp) ''Content-Encoding'' = '''' \<and>
      (has_suffix (oi_key (px_info x key)) ''.narinfo'' \<longrightarrow>
         snd (px_zstd x (px_content x key)) \<and> length (rs_body resp) \<le> maxNarinfoSize \<and>
         assoc_get (rs_headers resp) ''Content-Length'' = format_nat (length (rs_body resp)))
    else assoc_get (rs_headers resp) ''Content-Encoding'' = objectContentEncoding (px_info x key) \<and>
      assoc_get (rs_headers resp) ''Content-Length'' = format_nat (length (rs_body resp)) \<and>
      (if rs_status resp = 200 then rs_body resp = px_content x key
       else \<exists>a n. 0 < n \<and> a + n \<le> length (px_content x key) \<and> rs_body resp = take n (drop a (px_content x key)) \<and>
         assoc_get (rs_headers resp) ''Content-Range'' = ''bytes '' @ format_nat a @ ''-'' @ format_nat (a + n - 1) @
           ''/'' @ format_nat (length (px_content x key)))"
  using assms(1,2)
proof (cases rule: handleProxyGet_cases)
  case decoded
  then have st: "rs_status (serveDecoded x r (px_content x key) (px_info x key)) \<in> {200, 206}" using assms(2) by simp
  show ?thesis
    using st decoded(2) setProxyHeaders_encoding [of x r "px_info x key"]
    by (auto simp: decoded(3) serveDecoded_def http_error_def split: if_splits prod.splits)
next
  case (sent rng)
  show ?thesis
  proof (cases rng)
    case None
    with sent(2,4) assms(3) setProxyHeaders_encoding [of x r "px_info x key"] show ?thesis
      by (simp add: send_object_def get_range_def format_int_nat Let_def)
  next
    case (Some br)
    define c where "c = px_content x key"
    from parseSingleRange_bounds sent(3) Some assms(3)
    have b: "0 \<le> br_start br" "br_start br \<le> br_end br" "br_end br < int (length c)" by (auto simp: c_def)
    define a n where "a = nat (br_start br)" and "n = nat (byteRange_length br)"
    have ints: "br_start br = int a" "br_end br = int (a + n - 1)" "byteRange_length br = int n"
      and len: "0 < n" "a + n \<le> length c"
      using b by (auto simp: a_def n_def byteRange_length_def)
    have body: "get_range rng c = take n (drop a c)" by (simp add: Some get_range_def a_def n_def)
    then have "length (get_range rng c) = n" using len by simp
    moreover have "assoc_get (rs_headers resp) ''Content-Range'' = ''bytes '' @ format_nat a @ ''-'' @ format_nat (a + n - 1) @
        ''/'' @ format_nat (length c)" "assoc_get (rs_headers resp) ''Content-Length'' = format_nat n"
        "rs_status resp = 206" "rs_body resp = take n (drop a c)"
        "assoc_get (rs_headers resp) ''Content-Encoding'' = objectContentEncoding (px_info x key)"
      unfolding sent(4) send_object_def Some option.case Let_def ints assms(3) format_int_nat
      using sent(2) body Some setProxyHeaders_encoding [of x r "px_info x key"] by (simp_all add: c_def)
    ultimately show ?thesis using sent(2) len body by (auto simp flip: c_def)
  qed
qed

definition tiny_proxy :: proxy_env where
  "tiny_proxy = \<lparr>px_info = (\<lambda>k. \<lparr>oi_key = k, oi_size = 5, oi_etag = ''e1'', oi_content_type = '''', oi_modified = Some 10, oi_metadata = []\<rparr>),
     px_content = (\<lambda>k. ''hello''), px_get_fault = (\<lambda>k. None), px_wait_fault = (\<lambda>k. False), px_zstd = (\<lambda>s. (s, True)),
     px_reset_fault = False, px_parse_time = (\<lambda>s. Some 20), px_format_time = (\<lambda>t. ''''), px_presign = (\<lambda>k. None)\<rparr>"

definition get_log :: "(string \<times> string) list \<Rightarrow> http_request" where
  "get_log hs = \<lparr>rq_method = ''GET'', rq_path = ''/log/a.drv'', rq_headers = hs, rq_peer = None\<rparr>"

definition log_world :: world where
  "log_world = empty_world\<lparr>bucket := [''log/a.drv'']\<rparr>"

theorem handleProxyGet_body_witness:
  "\<exists>a n. 0 < n \<and> a + n \<le> 5 \<and> rs_body (fst (handleProxyGet (quiet 1) tiny_proxy (get_log [(''Range'', ''bytes=1-2'')]) ''log/a.drv'' log_world))
     = take n (drop a ''hello'')"
proof -
  let ?g = "handleProxyGet (quiet 1) tiny_proxy (get_log [(''Range'', ''bytes=1-2'')]) ''log/a.drv'' log_world"
  have "format_nat 1 = ''1''" "trim_space ''2'' = ''2''" by code_simp+
  moreover have "parse_int 64 ''2'' = Some 2" by (simp add: parse_int_def is_digit_def digit_val_def)
  ultimately have "parseSingleRange ''bytes=1-2'' 5 = Inr (Some \<lparr>br_start = 1, br_end = 2\<rparr>)"
    using parseSingleRange_start [of 5 1 "''2''"] by simp
  then have st: "rs_status (fst ?g) = 206"
    by (simp add: handleProxyGet_def StatObject_def quiet_def tiny_proxy_def log_world_def get_log_def not_modified_def
        header_get_def header_values_def needsDecoding_def objectContentEncoding_def assoc_get_def equal_fold_def
        send_object_def Let_def)
  have nd: "\<not> needsDecoding (get_log [(''Range'', ''bytes=1-2'')]) (px_info tiny_proxy ''log/a.drv'')" by code_simp
  have len: "oi_size (px_info tiny_proxy ''log/a.drv'') = int (length (px_content tiny_proxy ''log/a.drv''))"
    by (simp add: tiny_proxy_def)
  have c: "px_content tiny_proxy ''log/a.drv'' = ''hello''" by (simp add: tiny_proxy_def)
  have five: "length ''hello'' = 5" by simp
  have ok: "rs_status (fst ?g) \<in> {200, 206}" "rs_status (fst ?g) \<noteq> 200" using st by simp_all
  from handleProxyGet_body [OF prod.collapse [symmetric] ok(1) len, unfolded if_not_P [OF nd] if_not_P [OF ok(2)] c five]
  show ?thesis by blast
qed

text \<open>
  The names of the objects in a binary cache, written down without the regular expressions: the info file
  of a store path, its listing, the archive of a hash with or without a compression, the log of a derivation,
  a realisation of an output, and the two pages of the cache itself.
\<close>

definition nix32_text :: "nat \<Rightarrow> string \<Rightarrow> bool" where
  "nix32_text n h \<longleftrightarrow> length h = n \<and> (\<forall>c \<in> set h. c \<in> set ''0123456789abcdfghijklmnpqrsvwxyz'')"

definition name_text :: "string \<Rightarrow> string \<Rightarrow> bool" where
  "name_text extra s \<longleftrightarrow> s \<noteq> '''' \<and>
     (\<forall>c \<in> set s. c \<in> set ''abcdefghijklmnopqrstuvwxyz0123456789'' \<or> c \<in> set extra)"

definition capitals :: string where
  "capitals = ''ABCDEFGHIJKLMNOPQRSTUVWXYZ''"

definition cache_object_name :: "string \<Rightarrow> bool" where
  "cache_object_name key \<longleftrightarrow>
     key = ''nix-cache-info'' \<or> key = ''index.html'' \<or>
     (\<exists>h. nix32_text 32 h \<and> (key = h @ ''.narinfo'' \<or> key = h @ ''.ls'')) \<or>
     (\<exists>h. nix32_text 52 h \<and> (\<exists>e \<in> {'''', ''.zst'', ''.xz'', ''.bz2''}. key = ''nar/'' @ h @ ''.nar'' @ e)) \<or>
     (\<exists>n. name_text (capitals @ ''+-._?='') n \<and> key = ''log/'' @ n @ ''.drv'') \<or>
     (\<exists>a h n. name_text '''' a \<and> name_text (capitals @ ''+/='') h \<and> name_text (capitals @ ''+-._?='') n \<and>
        key = ''realisations/'' @ a @ '':'' @ h @ ''!'' @ n @ ''.doi'')"

lemma nix32_text_iff: "nix32_text n h \<longleftrightarrow> length h = n \<and> set h \<subseteq> set NixBase32Alphabet"
  unfolding nix32_text_def NixBase32Alphabet_def subset_eq by blast

lemma name_text_set: "name_text extra s \<longleftrightarrow> s \<noteq> [] \<and> set s \<subseteq> set (lower_chars @ digit_chars) \<union> set extra"
proof -
  have "''abcdefghijklmnopqrstuvwxyz0123456789'' = lower_chars @ digit_chars" by (simp add: lower_chars_def digit_chars_def)
  then show ?thesis unfolding name_text_def subset_eq by (simp only: Un_iff)
qed

lemma name_text_iff:
  "name_text '''' s \<longleftrightarrow> s \<noteq> [] \<and> set s \<subseteq> set (lower_chars @ digit_chars)"
  "name_text (capitals @ ''+/='') s \<longleftrightarrow> s \<noteq> [] \<and> set s \<subseteq> set (lower_chars @ upper_chars @ digit_chars @ ''+/='')"
  "name_text (capitals @ ''+-._?='') s \<longleftrightarrow> s \<noteq> [] \<and> set s \<subseteq> set name_chars"
proof -
  have caps: "capitals = upper_chars" by (simp only: capitals_def upper_chars_def)
  have "set ''+-._?='' = set ''+._?=-''" by auto
  then have "set (lower_chars @ digit_chars) \<union> set (capitals @ ''+-._?='') = set name_chars"
    unfolding name_chars_def set_append caps by blast
  moreover have "set (lower_chars @ digit_chars) \<union> set (capitals @ ''+/='') = set (lower_chars @ upper_chars @ digit_chars @ ''+/='')"
    unfolding set_append caps by blast
  ultimately show
    "name_text '''' s \<longleftrightarrow> s \<noteq> [] \<and> set s \<subseteq> set (lower_chars @ digit_chars)"
    "name_text (capitals @ ''+/='') s \<longleftrightarrow> s \<noteq> [] \<and> set s \<subseteq> set (lower_chars @ upper_chars @ digit_chars @ ''+/='')"
    "name_text (capitals @ ''+-._?='') s \<longleftrightarrow> s \<noteq> [] \<and> set s \<subseteq> set name_chars"
    by (simp_all only: name_text_set list.set(1) Un_empty_right)
qed

lemma pattern_names:
  "MatchString narinfoRe key \<or> MatchString narRe key \<or> MatchString lsRe key \<or> MatchString logRe key \<or>
     MatchString realisationsRe key \<or> key = ''nix-cache-info'' \<or> key = ''index.html'' \<longleftrightarrow> cache_object_name key"
  unfolding key_patterns cache_object_name_def nix32_text_iff name_text_iff by blast

text \<open>None of them leaves its directory: in each, all dots come after the last slash.\<close>

lemma no_dot_slash: "CHR ''.'' \<notin> set u \<Longrightarrow> CHR ''/'' \<notin> set v \<Longrightarrow> u @ v \<noteq> x @ CHR ''.'' # CHR ''/'' # b"
  by (auto simp: append_eq_append_conv2 append_eq_Cons_conv Cons_eq_append_conv)

definition dots_last :: "string \<Rightarrow> bool" where
  "dots_last key \<longleftrightarrow> (\<exists>u v. key = u @ v \<and> CHR ''.'' \<notin> set u \<and> CHR ''/'' \<notin> set v)"

lemma dots_last_plain: "dots_last key \<Longrightarrow> \<not> has_prefix key ''../'' \<and> \<not> contains_str key ''/../''"
proof
  assume "dots_last key"
  then have no: "key \<noteq> x @ CHR ''.'' # CHR ''/'' # b" for x b using no_dot_slash by (auto simp: dots_last_def)
  show "\<not> has_prefix key ''../''" using no [of "''.''"] by (auto simp: has_prefix_iff)
  show "\<not> contains_str key ''/../''"
    using no [of "a @ ''/.''" for a] by (auto simp: contains_str_iff)
qed

lemma slash_dot_chars:
  "CHR ''/'' \<notin> set NixBase32Alphabet" "CHR ''/'' \<notin> set name_chars" "CHR ''.'' \<notin> set (lower_chars @ digit_chars)"
  "CHR ''.'' \<notin> set (lower_chars @ upper_chars @ digit_chars @ ''+/='')" "CHR ''/'' \<notin> set (lower_chars @ digit_chars)"
  by code_simp+

lemma cache_object_name_cases:
  assumes "cache_object_name key"
  obtains (page) "key = ''nix-cache-info'' \<or> key = ''index.html''"
  | (store_path) h e where "length h = 32" "set h \<subseteq> set NixBase32Alphabet" "key = h @ e" "e \<in> {''.narinfo'', ''.ls''}"
  | (nar) h e where "set h \<subseteq> set NixBase32Alphabet" "key = ''nar/'' @ h @ ''.nar'' @ e" "e \<in> {'''', ''.zst'', ''.xz'', ''.bz2''}"
  | (log) n where "set n \<subseteq> set name_chars" "key = ''log/'' @ n @ ''.drv''"
  | (realisation) a h n where "set a \<subseteq> set (lower_chars @ digit_chars)"
      "set h \<subseteq> set (lower_chars @ upper_chars @ digit_chars @ ''+/='')" "set n \<subseteq> set name_chars"
      "key = ''realisations/'' @ a @ '':'' @ h @ ''!'' @ n @ ''.doi''"
proof -
  note cases = assms [unfolded cache_object_name_def nix32_text_iff name_text_iff]
  from cases show thesis
  proof (elim disjE exE conjE bexE)
    fix h assume "length h = 32" "set h \<subseteq> set NixBase32Alphabet" "key = h @ ''.narinfo''"
    then show thesis by (rule store_path) simp
  next
    fix h assume "length h = 32" "set h \<subseteq> set NixBase32Alphabet" "key = h @ ''.ls''"
    then show thesis by (rule store_path) simp
  next
    fix h e assume "set h \<subseteq> set NixBase32Alphabet" "key = ''nar/'' @ h @ ''.nar'' @ e" "e \<in> {'''', ''.zst'', ''.xz'', ''.bz2''}"
    then show thesis by (rule nar)
  next
    fix n assume "set n \<subseteq> set name_chars" "key = ''log/'' @ n @ ''.drv''"
    then show thesis by (rule log)
  next
    fix a h n assume "set a \<subseteq> set (lower_chars @ digit_chars)"
      "set h \<subseteq> set (lower_chars @ upper_chars @ digit_chars @ ''+/='')" "set n \<subseteq> set name_chars"
      "key = ''realisations/'' @ a @ '':'' @ h @ ''!'' @ n @ ''.doi''"
    then show thesis by (rule realisation)
  qed (rule page, blast)+
qed

lemma dots_lastI: "CHR ''.'' \<notin> set u \<Longrightarrow> CHR ''/'' \<notin> set v \<Longrightarrow> dots_last (u @ v)"
  by (auto simp: dots_last_def)

lemma cache_object_name_plain:
  assumes "cache_object_name key"
  shows "dots_last key \<and> key \<noteq> '''' \<and> hd key \<noteq> CHR ''/'' \<and> last key \<noteq> CHR ''.''"
  using assms
proof (cases rule: cache_object_name_cases)
  case page
  then show ?thesis using dots_lastI [of "''''" key] by auto
next
  case (store_path h e)
  then have h: "CHR ''/'' \<notin> set h" "h \<noteq> []" using slash_dot_chars(1) by auto
  then have "hd h \<noteq> CHR ''/''" using hd_in_set [of h] by metis
  with h store_path(3,4) have "CHR ''/'' \<notin> set key" "hd key \<noteq> CHR ''/''" "last key \<noteq> CHR ''.''" by auto
  with dots_lastI [of "''''" key] h(2) store_path(3) show ?thesis by simp
next
  case (nar h e)
  then have "CHR ''/'' \<notin> set h" using slash_dot_chars(1) by blast
  then have "dots_last key" using dots_lastI [of "''nar/''" "h @ ''.nar'' @ e"] nar(2,3) by auto
  with nar show ?thesis by auto
next
  case (log n)
  then have "CHR ''/'' \<notin> set n" using slash_dot_chars(2) by blast
  then have "dots_last key" using dots_lastI [of "''log/''" "n @ ''.drv''"] log(2) by simp
  with log show ?thesis by auto
next
  case (realisation a h n)
  have "CHR ''.'' \<notin> set a" "CHR ''.'' \<notin> set h" "CHR ''/'' \<notin> set n"
    using realisation(1-3) slash_dot_chars by blast+
  then have "dots_last key"
    unfolding realisation(4) using dots_lastI [of "''realisations/'' @ a @ '':'' @ h" "''!'' @ n @ ''.doi''"] by simp
  with realisation(4) show ?thesis by simp
qed

lemma IsValidCachePath_iff: "IsValidCachePath key \<longleftrightarrow> cache_object_name key"
proof
  show "cache_object_name key" if "IsValidCachePath key"
    using that unfolding pattern_names [symmetric] by (auto simp: IsValidCachePath_def split: if_splits)
  assume name: "cache_object_name key"
  note plain = cache_object_name_plain [OF name]
  have "\<not> has_prefix key ''/''" using plain by (auto simp: has_prefix_iff)
  moreover have "\<not> has_suffix key ''/..''" "key \<noteq> ''..''" using plain by (auto simp: has_suffix_iff)
  ultimately show "IsValidCachePath key"
    using plain dots_last_plain [of key] name unfolding pattern_names [symmetric] by (auto simp: IsValidCachePath_def)
qed

lemma cache_object_name_segments:
  assumes "cache_object_name key"
  shows "''..'' \<notin> set (split_char CHR ''/'' key)"
  using assms no_dotdot_segment [of key] unfolding IsValidCachePath_iff [symmetric]
  by (auto simp: IsValidCachePath_def split: if_splits)

text \<open>
  C11: the proxy gives out the objects of a binary cache and nothing else of the bucket. Take a request for
  a path that is not empty after its slash. An answer that carries an object, its headers or a redirect to it
  belongs to a GET or HEAD request whose path is the name of an object of a binary cache and has no
  segment \<open>..\<close>; every other request is answered 404 or 405 and leaves the world alone. And the names are
  not too narrow: if the bucket has an object of such a name, a HEAD request that is not held up, redirected
  or made to fill is answered 200.
\<close>
theorem ReadProxyHandler_safe:
  assumes "ReadProxyHandler s mayFill fill e x r w = (resp, w')" "trim_prefix (rq_path r) ''/'' = key" "key \<noteq> ''''"
  shows "(rs_status resp \<in> {200, 206, 304, 307} \<longrightarrow>
      rq_method r \<in> {''GET'', ''HEAD''} \<and> cache_object_name key \<and> ''..'' \<notin> set (split_char CHR ''/'' key)) \<and>
    (rq_method r \<notin> {''GET'', ''HEAD''} \<or> \<not> cache_object_name key \<longrightarrow> rs_status resp \<in> {404, 405} \<and> w' = w) \<and>
    (rq_method r = ''HEAD'' \<and> cache_object_name key \<and> \<not> mayFill r \<and> ReadRedirectTTL s \<le> 0 \<and> \<not> wait_fault e key \<and>
      StatObject e w key = None \<longrightarrow> rs_status resp = 200)"
proof (intro conjI impI)
  note run = assms(1) [unfolded ReadProxyHandler_def assms(2) Let_def IsValidCachePath_iff]
  show refused: "rs_status resp \<in> {404, 405}" "w' = w" if "rq_method r \<notin> {''GET'', ''HEAD''} \<or> \<not> cache_object_name key"
    using run that assms(3) by (auto simp: http_error_def not_found_def split: if_splits)
  have "{200, 206, 304, 307} \<inter> {404, 405 :: nat} = {}" by simp
  then show served: "rq_method r \<in> {''GET'', ''HEAD''}" "cache_object_name key" if "rs_status resp \<in> {200, 206, 304, 307}"
    using that refused by blast+
  show "''..'' \<notin> set (split_char CHR ''/'' key)" if "rs_status resp \<in> {200, 206, 304, 307}"
    using served(2) [OF that] by (rule cache_object_name_segments)
  assume "rq_method r = ''HEAD'' \<and> cache_object_name key \<and> \<not> mayFill r \<and> ReadRedirectTTL s \<le> 0 \<and> \<not> wait_fault e key \<and>
      StatObject e w key = None"
  then have "handleProxyHead e x r key w = (resp, w')" "StatObject e w key = None" using run assms(3) by auto
  then show "rs_status resp = 200" by (auto simp: handleProxyHead_def Let_def split: prod.splits)
qed

theorem ReadProxyHandler_safe_witness:
  "cache_object_name ''log/a.drv'' \<and>
   rs_status (fst (ReadProxyHandler \<lparr>EnableReadProxy = True, CacheURL = '''', ReadRedirectTTL = 0\<rparr> (\<lambda>_. False) (\<lambda>k w. w)
     (quiet 1) tiny_proxy (get_log []) log_world)) = 200"
proof -
  let ?g = "ReadProxyHandler \<lparr>EnableReadProxy = True, CacheURL = '''', ReadRedirectTTL = 0\<rparr> (\<lambda>_. False) (\<lambda>k w. w)
     (quiet 1) tiny_proxy (get_log []) log_world"
  have st: "rs_status (fst ?g) = 200" by code_simp
  have key: "trim_prefix (rq_path (get_log [])) ''/'' = ''log/a.drv''" by code_simp
  have "rs_status (fst ?g) \<in> {200, 206, 304, 307}" "''log/a.drv'' \<noteq> ''''" unfolding st by simp_all
  with conjunct1 [OF ReadProxyHandler_safe [OF prod.collapse [symmetric] key]] st show ?thesis by blast
qed

text \<open>
  A conditional request whose entity tag does not match is still answered 304 when its
  \<open>If-Modified-Since\<close> is not before the object's modification time.
\<close>
theorem stale_not_modified:
  assumes "StatObject e w key = None" "header_get r ''If-None-Match'' \<noteq> ''''"
    and "header_get r ''If-None-Match'' \<noteq> oi_etag (px_info x key)" "header_get r ''If-Modified-Since'' \<noteq> ''''"
    and "px_parse_time x (header_get r ''If-Modified-Since'') = Some t" "oi_modified (px_info x key) = Some m" "m \<le> t"
  shows "rs_status (fst (handleProxyGet e x r key w)) = 304"
  using assms by (simp add: handleProxyGet_def not_modified_def Let_def)

theorem stale_not_modified_witness:
  "rs_status (fst (handleProxyGet (quiet 1) tiny_proxy (get_log [(''If-None-Match'', ''e2''), (''If-Modified-Since'', ''now'')])
     ''log/a.drv'' log_world)) = 304"
  by (rule stale_not_modified [where t = 20 and m = 10]) (code_simp | simp add: tiny_proxy_def)+

text \<open>
  The deadline of a download never cuts off a client that reads at 100 kB/s or faster: for objects of
  up to 900 TB the time granted does not overflow and is at least the time the bytes take.
\<close>
theorem ProxyWriteTimeout_covers:
  assumes "0 \<le> n" "n \<le> 900 * 10 ^ 12"
  shows "n * 1000000000 \<le> ProxyWriteTimeout n * proxyMinThroughput \<and>
    ProxyWriteTimeout n = 300000000000 + n div 100000 * 1000000000"
proof -
  have q: "0 \<le> n div 100000" "n div 100000 \<le> 9000000000" "n \<le> n div 100000 * 100000 + 99999" using assms by auto
  then have "to_i64 (n div 100000 * 1000000000) = n div 100000 * 1000000000"
    "to_i64 (300000000000 + n div 100000 * 1000000000) = 300000000000 + n div 100000 * 1000000000"
    by (auto intro!: to_i64_id)
  then have "ProxyWriteTimeout n = 300000000000 + n div 100000 * 1000000000"
    using assms(1) by (simp add: ProxyWriteTimeout_def Let_def proxyMinThroughput_def proxyTimeoutSlack_def)
  with q show ?thesis by (simp add: proxyMinThroughput_def)
qed

theorem ProxyWriteTimeout_covers_witness: "ProxyWriteTimeout 250000 = 302000000000"
  using ProxyWriteTimeout_covers [of 250000] by simp

end
