(* ===== verification/Farm.thy ===== *)
theory Farm
  imports Prelude
begin

text \<open>
  The election of the build farm's scheduler, \<open>src/server/farm.go\<close>: every candidate keeps a stream open,
  one of them holds a PostgreSQL advisory lock on a connection of its own, and each stream is told
  every heartbeat whether it leads. The streams, the lock and the clock are the state of a step
  relation; a pass through the loop of \<open>LeadHandler\<close> is a function. Times are nanoseconds.
\<close>

section \<open>Constants\<close>

definition leadHeartbeat :: int where
  "leadHeartbeat = 5 * 1000000000"

definition incumbentGrace :: int where
  "incumbentGrace = 10 * 1000000000"

definition leadPingTimeoutFloor :: int where
  "leadPingTimeoutFloor = 1000000000"

definition leadPingTimeout :: int where
  "leadPingTimeout = max (leadHeartbeat div 2) leadPingTimeoutFloor"

definition announceDelay :: "bool \<Rightarrow> int" where
  "announceDelay incumbent = (if incumbent then 0 else leadHeartbeat + leadPingTimeout)"

lemma lead_times: "0 < leadHeartbeat" "0 < leadPingTimeout" "leadHeartbeat + leadPingTimeout = 7500000000"
  by (simp_all add: leadHeartbeat_def leadPingTimeout_def leadPingTimeoutFloor_def)

section \<open>One pass\<close>

text \<open>
  The variables of one \<open>LeadHandler\<close>, with the status it sent last and the tick its last pass began at,
  or for a pass without a connection the moment it ended.
\<close>

record lead_stream =
  ls_incumbent :: bool
  ls_hold_back :: int
  ls_conn :: bool
  ls_announce_at :: int
  ls_lead :: bool
  ls_tick :: int

text \<open>\<open>holdBack\<close> is the zero time, before any other, for an incumbent.\<close>

definition open_stream :: "int \<Rightarrow> bool \<Rightarrow> int \<Rightarrow> lead_stream" where
  "open_stream startedAt incumbent t =
     \<lparr>ls_incumbent = incumbent, ls_hold_back = (if incumbent then 0 else startedAt + incumbentGrace), ls_conn = False,
      ls_announce_at = 0, ls_lead = False, ls_tick = t\<rparr>"

datatype try_answer = TryFailed | LockTaken | LockGot

text \<open>\<open>None\<close> when the handler returns, which ends the stream.\<close>

definition lead_pass :: "int \<Rightarrow> try_answer \<Rightarrow> bool \<Rightarrow> lead_stream \<Rightarrow> lead_stream option" where
  "lead_pass t answer ping s =
     (let tell = (\<lambda>s. Some (s\<lparr>ls_lead := ls_conn s \<and> \<not> t < ls_announce_at s\<rparr>)) in
      if \<not> ls_conn s \<and> \<not> t < ls_hold_back s
      then (case answer of
              TryFailed \<Rightarrow> None
            | LockTaken \<Rightarrow> tell s
            | LockGot \<Rightarrow> tell (s\<lparr>ls_conn := True, ls_announce_at := t + announceDelay (ls_incumbent s)\<rparr>))
      else if ls_conn s \<and> \<not> ping then None
      else tell s)"

section \<open>The farm\<close>

text \<open>
  \<open>fm_lock\<close> is the stream whose live connection holds the lock, and \<open>fm_alive\<close> the last time at which the
  connection of a stream answered a ping.
\<close>

record farm =
  fm_now :: int
  fm_streams :: "nat \<Rightarrow> lead_stream option"
  fm_lock :: "nat option"
  fm_alive :: "nat \<Rightarrow> int"

definition farm_start :: "int \<Rightarrow> farm" where
  "farm_start t = \<lparr>fm_now = t, fm_streams = (\<lambda>i. None), fm_lock = None, fm_alive = (\<lambda>i. t)\<rparr>"

definition without :: "nat \<Rightarrow> nat option \<Rightarrow> nat option" where
  "without i l = (if l = Some i then None else l)"

text \<open>
  A pass begins at a tick. The connection of the stream that holds the lock answers pings; a pass goes on
  with a connection that has answered since its tick, and it is over within the ping timeout, whatever
  has become of the connection by then. A pass that tries to get the lock may take any time, but it learns of the lock
  at the moment the database gives it out. A connection may die at any moment, which frees the lock. Time does
  not pass beyond the moment by which a stream with a connection has had its next tick and the answer
  to its ping: its handler is not delayed for longer.
\<close>

inductive farm_step :: "farm \<Rightarrow> farm \<Rightarrow> bool" where
  request: "fm_streams f i = None \<Longrightarrow>
    farm_step f (f\<lparr>fm_streams := (fm_streams f)(i \<mapsto> open_stream startedAt incumbent (fm_now f))\<rparr>)"
| pong: "fm_lock f = Some i \<Longrightarrow> farm_step f (f\<lparr>fm_alive := (fm_alive f)(i := fm_now f)\<rparr>)"
| pass: "fm_streams f i = Some s \<Longrightarrow> ls_tick s \<le> t \<Longrightarrow> t \<le> fm_now f \<Longrightarrow> (ls_conn s \<longrightarrow> fm_now f < t + leadPingTimeout) \<Longrightarrow>
    (answer = LockGot \<longrightarrow> fm_lock f = None) \<Longrightarrow> (ping \<longrightarrow> t \<le> fm_alive f i) \<Longrightarrow>
    lead_pass (fm_now f) answer ping s = Some s' \<Longrightarrow>
    farm_step f (f\<lparr>fm_streams := (fm_streams f)(i \<mapsto> s'\<lparr>ls_tick := (if ls_conn s then t else fm_now f)\<rparr>),
      fm_lock := (if \<not> ls_conn s \<and> ls_conn s' then Some i else fm_lock f)\<rparr>)"
| hang_up: "farm_step f (f\<lparr>fm_streams := (fm_streams f)(i := None), fm_lock := without i (fm_lock f)\<rparr>)"
| die: "farm_step f (f\<lparr>fm_lock := None\<rparr>)"
| elapse: "fm_now f \<le> t \<Longrightarrow>
    \<forall>i s. fm_streams f i = Some s \<and> ls_conn s \<longrightarrow> t < ls_tick s + leadHeartbeat + leadPingTimeout \<Longrightarrow>
    farm_step f (f\<lparr>fm_now := t\<rparr>)"

inductive_cases farm_stepE: "farm_step f f'"

definition acquired_at :: "lead_stream \<Rightarrow> int" where
  "acquired_at s = ls_announce_at s - announceDelay (ls_incumbent s)"

definition stream_ok :: "int \<Rightarrow> lead_stream \<Rightarrow> bool" where
  "stream_ok t s \<longleftrightarrow> ls_tick s \<le> t \<and> (ls_lead s \<longrightarrow> ls_conn s \<and> ls_announce_at s \<le> t) \<and>
     (ls_conn s \<longrightarrow> acquired_at s \<le> t \<and> t < ls_tick s + leadHeartbeat + leadPingTimeout)"

text \<open>
  The last sign of life of the connection of a stream. Of two streams with connections one has not given any
  since the other got the lock.
\<close>

definition last_seen :: "farm \<Rightarrow> nat \<Rightarrow> lead_stream \<Rightarrow> int" where
  "last_seen f i s = max (ls_tick s) (fm_alive f i)"

definition ordered :: "farm \<Rightarrow> nat \<Rightarrow> lead_stream \<Rightarrow> nat \<Rightarrow> lead_stream \<Rightarrow> bool" where
  "ordered f i s j r \<longleftrightarrow> last_seen f i s \<le> acquired_at r \<or> last_seen f j r \<le> acquired_at s"

definition streams_ok :: "farm \<Rightarrow> bool" where
  "streams_ok f \<longleftrightarrow> (\<forall>i. fm_alive f i \<le> fm_now f) \<and> (\<forall>i s. fm_streams f i = Some s \<longrightarrow> stream_ok (fm_now f) s)"

definition lock_ok :: "farm \<Rightarrow> bool" where
  "lock_ok f \<longleftrightarrow> (\<forall>i. fm_lock f = Some i \<longrightarrow> (\<exists>s. fm_streams f i = Some s \<and> ls_conn s \<and>
     (\<forall>j r. j \<noteq> i \<longrightarrow> fm_streams f j = Some r \<longrightarrow> ls_conn r \<longrightarrow> last_seen f j r \<le> acquired_at s)))"

definition order_ok :: "farm \<Rightarrow> bool" where
  "order_ok f \<longleftrightarrow> (\<forall>i j s r. i \<noteq> j \<longrightarrow> fm_streams f i = Some s \<longrightarrow> fm_streams f j = Some r \<longrightarrow>
     ls_conn s \<longrightarrow> ls_conn r \<longrightarrow> ordered f i s j r)"

definition farm_inv :: "farm \<Rightarrow> bool" where
  "farm_inv f \<longleftrightarrow> streams_ok f \<and> lock_ok f \<and> order_ok f"

lemma acquired_at_simps [simp]:
  "acquired_at (s\<lparr>ls_lead := b\<rparr>) = acquired_at s" "acquired_at (s\<lparr>ls_tick := t\<rparr>) = acquired_at s"
  by (simp_all add: acquired_at_def)

text \<open>A pass that goes on: without a connection, with a new one, or with one that answered.\<close>

lemma lead_pass_cases:
  assumes "lead_pass t answer ping s = Some s'"
  obtains (idle) "\<not> ls_conn s" "\<not> ls_conn s'" "\<not> ls_lead s'"
  | (acquired) "\<not> ls_conn s" "answer = LockGot" "ls_conn s'" "acquired_at s' = t" "ls_lead s' \<longrightarrow> ls_announce_at s' \<le> t"
  | (kept) "ls_conn s" "ping" "ls_conn s'" "acquired_at s' = acquired_at s" "ls_lead s' \<longrightarrow> ls_announce_at s' \<le> t"
proof (cases "ls_conn s")
  case True
  with assms kept show thesis by (auto simp: lead_pass_def Let_def acquired_at_def split: if_splits)
next
  case False
  with assms idle acquired show thesis
    by (auto simp: lead_pass_def Let_def acquired_at_def split: if_splits try_answer.splits)
qed

text \<open>Replacing one stream.\<close>

lemma last_seen_update [simp]:
  "last_seen (f\<lparr>fm_streams := x\<rparr>) i s = last_seen f i s"
  "last_seen (f\<lparr>fm_lock := l\<rparr>) i s = last_seen f i s" "last_seen (f\<lparr>fm_now := t\<rparr>) i s = last_seen f i s"
  by (simp_all add: last_seen_def)

lemma farm_inv_update:
  assumes inv: "farm_inv f" and ok: "stream_ok (fm_now f) s'"
    and lock: "\<And>j. l = Some j \<Longrightarrow> j \<noteq> i \<Longrightarrow> fm_lock f = Some j"
      "\<And>j s. l = Some j \<Longrightarrow> j \<noteq> i \<Longrightarrow> fm_streams f j = Some s \<Longrightarrow> ls_conn s' \<Longrightarrow> last_seen f i s' \<le> acquired_at s"
      "l = Some i \<Longrightarrow> ls_conn s' \<and>
         (\<forall>j r. j \<noteq> i \<longrightarrow> fm_streams f j = Some r \<longrightarrow> ls_conn r \<longrightarrow> last_seen f j r \<le> acquired_at s')"
    and ord: "\<And>j r. j \<noteq> i \<Longrightarrow> fm_streams f j = Some r \<Longrightarrow> ls_conn r \<Longrightarrow> ls_conn s' \<Longrightarrow> ordered f i s' j r"
  shows "farm_inv (f\<lparr>fm_streams := (fm_streams f)(i \<mapsto> s'), fm_lock := l\<rparr>)" (is "farm_inv ?f'")
proof -
  have "streams_ok ?f'" using inv ok by (simp add: farm_inv_def streams_ok_def)
  moreover have "lock_ok ?f'"
    unfolding lock_ok_def
  proof (intro allI impI)
    fix j assume "fm_lock ?f' = Some j"
    then have l: "l = Some j" by simp
    show "\<exists>s. fm_streams ?f' j = Some s \<and> ls_conn s \<and>
      (\<forall>k r. k \<noteq> j \<longrightarrow> fm_streams ?f' k = Some r \<longrightarrow> ls_conn r \<longrightarrow> last_seen ?f' k r \<le> acquired_at s)"
    proof (cases "j = i")
      case True
      with lock(3) l show ?thesis by auto
    next
      case False
      with inv lock(1) [OF l] obtain s where "fm_streams f j = Some s" "ls_conn s"
        "\<And>k r. k \<noteq> j \<Longrightarrow> fm_streams f k = Some r \<Longrightarrow> ls_conn r \<Longrightarrow> last_seen f k r \<le> acquired_at s"
        unfolding farm_inv_def lock_ok_def by blast
      with False lock(2) [OF l False] show ?thesis by auto
    qed
  qed
  moreover have "order_ok ?f'"
    unfolding order_ok_def
  proof (intro allI impI)
    fix j k s r
    assume a: "j \<noteq> k" "fm_streams ?f' j = Some s" "fm_streams ?f' k = Some r" "ls_conn s" "ls_conn r"
    have same: "ordered ?f' j s k r \<longleftrightarrow> ordered f j s k r" by (simp add: ordered_def)
    consider "j = i" | "k = i" | "j \<noteq> i" "k \<noteq> i" by blast
    then show "ordered ?f' j s k r"
      unfolding same
    proof cases
      case 1
      with a ord [of k r] show "ordered f j s k r" by simp
    next
      case 2
      with a ord [of j s] show "ordered f j s k r" by (auto simp: ordered_def)
    next
      case 3
      with a inv show "ordered f j s k r" by (auto simp: farm_inv_def order_ok_def)
    qed
  qed
  ultimately show ?thesis by (simp add: farm_inv_def)
qed

lemma farm_inv_seen:
  "farm_inv f \<Longrightarrow> fm_streams f j = Some r \<Longrightarrow> last_seen f j r \<le> fm_now f" "farm_inv f \<Longrightarrow> fm_alive f j \<le> fm_now f"
  by (simp_all add: farm_inv_def streams_ok_def stream_ok_def last_seen_def)

lemma farm_inv_lock:
  assumes "farm_inv f" "fm_lock f = Some i" "fm_streams f i = Some s"
    and "j \<noteq> i" "fm_streams f j = Some r" "ls_conn r"
  shows "last_seen f j r \<le> acquired_at s"
  using assms unfolding farm_inv_def lock_ok_def by fastforce

text \<open>A connection that answers shows that its stream has had the lock all along.\<close>

lemma farm_pong_inv:
  assumes inv: "farm_inv f" and lock: "fm_lock f = Some i"
  shows "farm_inv (f\<lparr>fm_alive := (fm_alive f)(i := fm_now f)\<rparr>)" (is "farm_inv ?f'")
proof -
  obtain s where s: "fm_streams f i = Some s" "ls_conn s" using inv lock unfolding farm_inv_def lock_ok_def by blast
  have other: "last_seen ?f' j r = last_seen f j r" if "j \<noteq> i" for j r using that by (simp add: last_seen_def)
  have seen: "last_seen ?f' j r \<le> acquired_at s" if "j \<noteq> i" "fm_streams f j = Some r" "ls_conn r" for j r
    using farm_inv_lock [OF inv lock s(1) that] other [OF that(1)] by simp
  have "streams_ok ?f'" using inv by (simp add: farm_inv_def streams_ok_def)
  moreover have "lock_ok ?f'" using lock s seen by (auto simp: lock_ok_def)
  moreover have "order_ok ?f'"
    unfolding order_ok_def
  proof (intro allI impI)
    fix j k r q
    assume a: "j \<noteq> k" "fm_streams ?f' j = Some r" "fm_streams ?f' k = Some q" "ls_conn r" "ls_conn q"
    consider "j = i" | "k = i" | "j \<noteq> i" "k \<noteq> i" by blast
    then show "ordered ?f' j r k q"
    proof cases
      case 3
      then have "ordered ?f' j r k q \<longleftrightarrow> ordered f j r k q" by (simp add: ordered_def other)
      with a inv show ?thesis by (simp add: farm_inv_def order_ok_def)
    qed (use a s seen in \<open>auto simp: ordered_def\<close>)
  qed
  ultimately show ?thesis by (simp add: farm_inv_def)
qed

lemma farm_pass_inv:
  assumes inv: "farm_inv f" and s: "fm_streams f i = Some s"
    and t: "ls_tick s \<le> t" "t \<le> fm_now f" "ls_conn s \<longrightarrow> fm_now f < t + leadPingTimeout"
    and lock: "answer = LockGot \<longrightarrow> fm_lock f = None" "ping \<longrightarrow> t \<le> fm_alive f i"
    and run: "lead_pass (fm_now f) answer ping s = Some s'"
  shows "farm_inv (f\<lparr>fm_streams := (fm_streams f)(i \<mapsto> s'\<lparr>ls_tick := (if ls_conn s then t else fm_now f)\<rparr>),
      fm_lock := (if \<not> ls_conn s \<and> ls_conn s' then Some i else fm_lock f)\<rparr>)"
  using run
proof (cases rule: lead_pass_cases)
  case idle
  have "fm_lock f \<noteq> Some i" using inv s idle(1) by (auto simp: farm_inv_def lock_ok_def)
  with idle lead_times show ?thesis by (intro farm_inv_update [OF inv]) (auto simp: stream_ok_def)
next
  case acquired
  with lead_times lock(1) farm_inv_seen [OF inv] show ?thesis
    by (intro farm_inv_update [OF inv]) (auto simp: stream_ok_def ordered_def)
next
  case kept
  let ?s' = "s'\<lparr>ls_tick := t\<rparr>"
  have seen: "last_seen f i ?s' \<le> last_seen f i s" using kept(2) lock(2) by (simp add: last_seen_def)
  have "acquired_at s \<le> fm_now f" using inv s kept(1) by (auto simp: farm_inv_def streams_ok_def stream_ok_def)
  then have ok: "stream_ok (fm_now f) ?s'" using kept t lead_times by (auto simp: stream_ok_def)
  have "ordered f i ?s' j r" if "j \<noteq> i" "fm_streams f j = Some r" "ls_conn r" for j r
  proof -
    have "ordered f i s j r" using inv s that kept(1) by (auto simp: farm_inv_def order_ok_def)
    with seen kept(4) show ?thesis by (auto simp: ordered_def)
  qed
  moreover have "last_seen f i ?s' \<le> acquired_at r" if "fm_lock f = Some j" "j \<noteq> i" "fm_streams f j = Some r" for j r
    using farm_inv_lock [OF inv that(1,3) _ s kept(1)] that(2) seen by simp
  moreover have "\<forall>j r. j \<noteq> i \<longrightarrow> fm_streams f j = Some r \<longrightarrow> ls_conn r \<longrightarrow> last_seen f j r \<le> acquired_at ?s'"
    if "fm_lock f = Some i"
    using farm_inv_lock [OF inv that s] kept(4) by simp
  ultimately have "farm_inv (f\<lparr>fm_streams := (fm_streams f)(i \<mapsto> ?s'), fm_lock := fm_lock f\<rparr>)"
    using kept(3) by (intro farm_inv_update [OF inv ok]) auto
  with kept(1,3) show ?thesis by simp
qed

lemma farm_step_inv: "farm_step f f' \<Longrightarrow> farm_inv f \<Longrightarrow> farm_inv f'"
proof (induction rule: farm_step.induct)
  case (request f i startedAt incumbent)
  let ?s = "open_stream startedAt incumbent (fm_now f)"
  have "fm_lock f \<noteq> Some i" using request by (auto simp: farm_inv_def lock_ok_def)
  then have "farm_inv (f\<lparr>fm_streams := (fm_streams f)(i \<mapsto> ?s), fm_lock := fm_lock f\<rparr>)"
    by (intro farm_inv_update [OF request(2)]) (auto simp: stream_ok_def open_stream_def)
  then show ?case by simp
next
  case (pong f i)
  then show ?case by (intro farm_pong_inv)
next
  case (pass f i s t answer ping s')
  then show ?case by (intro farm_pass_inv) auto
next
  case (hang_up f i)
  then show ?case
    by (auto simp: farm_inv_def streams_ok_def lock_ok_def order_ok_def without_def ordered_def last_seen_def)
next
  case (die f)
  then show ?case by (simp add: farm_inv_def streams_ok_def lock_ok_def order_ok_def ordered_def)
next
  case (elapse f t)
  then have "stream_ok t s" if "fm_streams f i = Some s" for i s
    using that by (fastforce simp: farm_inv_def streams_ok_def stream_ok_def)
  moreover have "fm_alive f i \<le> t" for i using elapse(1) farm_inv_seen(2) [OF elapse(3)] by (rule order_trans [rotated])
  ultimately have "streams_ok (f\<lparr>fm_now := t\<rparr>)" by (simp add: streams_ok_def)
  with elapse(3) show ?case by (simp add: farm_inv_def lock_ok_def order_ok_def ordered_def)
qed

interpretation farm: step_invariant farm_step "\<lambda>f. \<exists>t. f = farm_start t" farm_inv
proof unfold_locales
  show "farm_inv f" if "\<exists>t. f = farm_start t" for f
    using that by (auto simp: farm_start_def farm_inv_def streams_ok_def lock_ok_def order_ok_def)
  show "farm_inv f'" if "farm_step f f'" "farm_inv f" for f f'
    using that by (rule farm_step_inv)
qed

section \<open>Properties\<close>

text \<open>
  C27: the farm has one scheduler. In every reachable state, if two streams are told to lead at the same
  time, then one of them came back as the incumbent and got the lock after the other's last ping was
  answered; in particular there are never two leaders among streams that are not incumbents.
\<close>
theorem leaders_never_overlap:
  assumes "farm_step\<^sup>*\<^sup>* (farm_start t0) f" "i \<noteq> j" "fm_streams f i = Some s" "fm_streams f j = Some r"
    and "ls_lead s" "ls_lead r"
  shows "(ls_incumbent s \<and> ls_tick r \<le> acquired_at s) \<or> (ls_incumbent r \<and> ls_tick s \<le> acquired_at r)"
proof -
  have inv: "farm_inv f" using farm.reachable_inv [OF _ assms(1)] by blast
  have ok: "stream_ok (fm_now f) s" "stream_ok (fm_now f) r" using inv assms(3,4) by (simp_all add: farm_inv_def streams_ok_def)
  then have conn: "ls_conn s" "ls_conn r" using assms(5,6) by (auto simp: stream_ok_def)
  have late: "ls_incumbent y" if "ls_tick x \<le> acquired_at y" "stream_ok (fm_now f) x" "stream_ok (fm_now f) y"
    "ls_conn x" "ls_lead y" for x y
  proof (rule ccontr)
    assume "\<not> ls_incumbent y"
    then have "acquired_at y + leadHeartbeat + leadPingTimeout = ls_announce_at y"
      by (simp add: acquired_at_def announceDelay_def)
    with that show False by (auto simp: stream_ok_def)
  qed
  have "ls_tick s \<le> acquired_at r \<or> ls_tick r \<le> acquired_at s"
    using inv assms(2-4) conn unfolding farm_inv_def order_ok_def ordered_def last_seen_def by fastforce
  with late ok conn assms(5,6) show ?thesis by blast
qed

text \<open>A leader loses its connection, and the incumbent, which has been waiting since before, takes over at once.\<close>

definition farm_leader :: lead_stream where
  "farm_leader = \<lparr>ls_incumbent = False, ls_hold_back = 10000000000, ls_conn = True, ls_announce_at = 17500000000,
     ls_lead = True, ls_tick = 18000000000\<rparr>"

definition farm_waiting :: "int \<Rightarrow> lead_stream" where
  "farm_waiting t = open_stream 0 True t"

definition farm_two :: "bool \<Rightarrow> farm" where
  "farm_two taken = \<lparr>fm_now = 18000000000,
     fm_streams = [0 \<mapsto> farm_leader, 1 \<mapsto> (if taken then (farm_waiting 18000000000)\<lparr>ls_conn := True, ls_announce_at := 18000000000, ls_lead := True\<rparr>
                                    else farm_waiting 10000000000)],
     fm_lock = Some (if taken then 1 else 0), fm_alive = (\<lambda>i. 10000000000)(0 := 18000000000)\<rparr>"

lemma farm_two_reached: "farm_step\<^sup>*\<^sup>* (farm_start 10000000000) (farm_two taken)"
proof -
  let ?s0 = "open_stream 0 False 10000000000"
  let ?s1 = "?s0\<lparr>ls_conn := True, ls_announce_at := 17500000000\<rparr>"
  let ?a0 = "\<lambda>i :: nat. 10000000000 :: int"
  let ?a4 = "?a0(0 := 14000000000)"
  let ?f1 = "\<lparr>fm_now = 10000000000, fm_streams = [0 \<mapsto> ?s0], fm_lock = None, fm_alive = ?a0\<rparr>"
  let ?f2 = "\<lparr>fm_now = 10000000000, fm_streams = [0 \<mapsto> ?s1], fm_lock = Some 0, fm_alive = ?a0\<rparr>"
  let ?w = "[0 \<mapsto> ?s1, 1 \<mapsto> farm_waiting 10000000000]"
  let ?f3 = "\<lparr>fm_now = 10000000000, fm_streams = ?w, fm_lock = Some 0, fm_alive = ?a0\<rparr>"
  let ?t = "?s1\<lparr>ls_tick := 14000000000\<rparr>"
  let ?w' = "[0 \<mapsto> ?t, 1 \<mapsto> farm_waiting 10000000000]"
  let ?f4 = "\<lparr>fm_now = 14000000000, fm_streams = ?w, fm_lock = Some 0, fm_alive = ?a0\<rparr>"
  let ?f4' = "\<lparr>fm_now = 14000000000, fm_streams = ?w, fm_lock = Some 0, fm_alive = ?a4\<rparr>"
  let ?f5 = "\<lparr>fm_now = 14000000000, fm_streams = ?w', fm_lock = Some 0, fm_alive = ?a4\<rparr>"
  let ?f6 = "\<lparr>fm_now = 18000000000, fm_streams = ?w', fm_lock = Some 0, fm_alive = ?a4\<rparr>"
  let ?f7 = "\<lparr>fm_now = 18000000000, fm_streams = ?w', fm_lock = Some 0, fm_alive = ?a0(0 := 18000000000)\<rparr>"
  let ?f8 = "(farm_two False)\<lparr>fm_lock := None\<rparr>"
  note defs = farm_start_def open_stream_def incumbentGrace_def lead_pass_def announceDelay_def leadHeartbeat_def
    leadPingTimeout_def leadPingTimeoutFloor_def farm_waiting_def farm_two_def farm_leader_def
  have "farm_step (farm_start 10000000000) ?f1"
    using request [of "farm_start 10000000000" 0 0 False] by (simp add: defs)
  moreover have "farm_step ?f1 ?f2"
    using pass [of ?f1 0 ?s0 10000000000 LockGot False ?s1] by (simp add: defs)
  moreover have "farm_step ?f2 ?f3"
    using request [of ?f2 1 0 True] by (simp add: defs)
  moreover have "farm_step ?f3 ?f4"
    using elapse [of ?f3 14000000000] by (simp add: defs)
  moreover have "farm_step ?f4 ?f4'"
    using pong [of ?f4 0] by simp
  moreover have "farm_step ?f4' ?f5"
    using pass [of ?f4' 0 ?s1 14000000000 LockTaken True ?s1] by (simp add: defs fun_upd_twist)
  moreover have "farm_step ?f5 ?f6"
    using elapse [of ?f5 18000000000] by (simp add: defs)
  moreover have "farm_step ?f6 ?f7"
    using pong [of ?f6 0] by simp
  moreover have "farm_step ?f7 (farm_two False)"
    using pass [of ?f7 0 ?t 18000000000 LockTaken True "?t\<lparr>ls_lead := True\<rparr>"] by (simp add: defs fun_upd_twist)
  ultimately have two: "farm_step\<^sup>*\<^sup>* (farm_start 10000000000) (farm_two False)"
    by (meson converse_rtranclp_into_rtranclp r_into_rtranclp)
  have "farm_step (farm_two False) ?f8" by (rule die)
  moreover have "farm_step ?f8 (farm_two True)"
    using pass [of ?f8 1 "farm_waiting 10000000000" 18000000000 LockGot False
      "(farm_waiting 10000000000)\<lparr>ls_conn := True, ls_announce_at := 18000000000, ls_lead := True\<rparr>"] by (simp add: defs)
  ultimately have "farm_step\<^sup>*\<^sup>* (farm_start 10000000000) (farm_two True)" using two
    by (meson rtranclp.rtrancl_into_rtrancl)
  with two show ?thesis by (cases taken) simp_all
qed

theorem leaders_never_overlap_witness:
  "\<exists>f s r. farm_step\<^sup>*\<^sup>* (farm_start 10000000000) f \<and> fm_streams f 0 = Some s \<and> fm_streams f 1 = Some r \<and>
     ls_lead s \<and> ls_lead r \<and> ls_tick s \<le> acquired_at r"
proof -
  let ?f = "farm_two True"
  obtain s r where sr: "fm_streams ?f 0 = Some s" "fm_streams ?f 1 = Some r" "ls_lead s" "ls_lead r" "\<not> ls_incumbent s"
    by (simp add: farm_two_def farm_leader_def)
  from leaders_never_overlap [OF farm_two_reached [of True] _ sr(1-4)] sr(5) have "ls_tick s \<le> acquired_at r" by simp
  with farm_two_reached [of True] sr show ?thesis by blast
qed

end
