(* ===== verification/Signing.thy ===== *)
theory Signing
  imports Nixbase32 "HOL-Library.AList"
begin

text \<open>
  Signatures of narinfos, \<open>src/server/signing\<close>: the fingerprint that is signed, keys, verification, and the
  external signing program. Ed25519 is a parameter: a function that verifies a message under a
  public key and one that signs.
\<close>

section \<open>Fingerprints\<close>

record NarInfo =
  StorePath :: string
  NarHash :: string
  NarSize :: u64
  References :: "string list"

datatype sign_error =
    NilNarInfo | StorePathPrefix | NarHashPrefix | NarHashLength | ReferencePrefix string
  | BadKey string | BadResponse string | RequestError string | SignerClosed | Canceled | StartFailed

definition nix_store :: string where
  "nix_store = ''/nix/store''"

definition GenerateFingerprint :: "'a NarInfo_scheme option \<Rightarrow> sign_error + string" where
  "GenerateFingerprint i =
     (case i of
        None \<Rightarrow> Inl NilNarInfo
      | Some info \<Rightarrow>
          if \<not> has_prefix (StorePath info) nix_store then Inl StorePathPrefix
          else if \<not> has_prefix (NarHash info) ''sha256:'' then Inl NarHashPrefix
          else if length (NarHash info) \<noteq> 59 then Inl NarHashLength
          else (case filter (\<lambda>ref. \<not> has_prefix ref nix_store) (References info) of
                  ref # _ \<Rightarrow> Inl (ReferencePrefix ref)
                | [] \<Rightarrow> Inr (''1;'' @ StorePath info @ '';'' @ NarHash info @ '';'' @ format_nat (unat (NarSize info)) @ '';'' @
                           join_str '','' (sort (References info)))))"

section \<open>Keys\<close>

text \<open>The verifier and the signer of \<open>crypto/ed25519\<close>, and the expansion of a seed.\<close>

type_synonym ed_verifier = "bytes \<Rightarrow> string \<Rightarrow> bytes \<Rightarrow> bool"
type_synonym ed_signer = "bytes \<Rightarrow> string \<Rightarrow> bytes"

record PublicKey =
  pk_name :: string
  pk_key :: bytes

definition ParsePublicKey :: "string \<Rightarrow> sign_error + PublicKey" where
  "ParsePublicKey s =
     (case cut_str (trim_space s) '':'' of
        (name, keyBase64, found) \<Rightarrow>
          if \<not> found \<or> name = '''' then Inl (BadKey ''public key must be name:base64-key'')
          else (case b64_decode keyBase64 of
                  None \<Rightarrow> Inl (BadKey ''failed to decode base64'')
                | Some bs \<Rightarrow> if length bs \<noteq> 32 then Inl (BadKey ''invalid public key length'')
                             else Inr \<lparr>pk_name = name, pk_key = bs\<rparr>))"

fun any_signature :: "ed_verifier \<Rightarrow> PublicKey \<Rightarrow> string \<Rightarrow> string list \<Rightarrow> bool" where
  "any_signature ed k fingerprint [] \<longleftrightarrow> False"
| "any_signature ed k fingerprint (sig # sigs) \<longleftrightarrow>
     (case cut_str sig '':'' of
        (name, sigBase64, found) \<Rightarrow>
          if \<not> found \<or> name \<noteq> pk_name k then any_signature ed k fingerprint sigs
          else (case b64_decode sigBase64 of
                  None \<Rightarrow> any_signature ed k fingerprint sigs
                | Some bs \<Rightarrow> if ed (pk_key k) fingerprint bs then True else any_signature ed k fingerprint sigs))"

definition VerifyNarinfo :: "ed_verifier \<Rightarrow> PublicKey \<Rightarrow> 'a NarInfo_scheme \<Rightarrow> string list \<Rightarrow> bool" where
  "VerifyNarinfo ed k info sigs \<longleftrightarrow>
     (case GenerateFingerprint (Some info) of Inl _ \<Rightarrow> False | Inr fingerprint \<Rightarrow> any_signature ed k fingerprint sigs)"

record Key =
  key_name :: string
  key_private :: bytes

text \<open>\<open>base64.RawStdEncoding\<close>: the digits of the standard encoding without padding.\<close>

definition b64_raw_decode :: "string \<Rightarrow> bytes option" where
  "b64_raw_decode s =
     (if CHR ''='' \<in> set s then None
      else (let n = length (filter (\<lambda>c. c \<noteq> CHR 0x0A \<and> c \<noteq> CHR 0x0D) s)
            in b64_decode (s @ replicate ((4 - n mod 4) mod 4) (CHR ''=''))))"

text \<open>\<open>ed_seed\<close> is \<open>ed25519.NewKeyFromSeed\<close>.\<close>

definition ParseKey :: "(bytes \<Rightarrow> bytes) \<Rightarrow> string \<Rightarrow> sign_error + Key" where
  "ParseKey ed_seed s =
     (case cut_str s '':'' of
        (a, b, found) \<Rightarrow>
          if \<not> found then Inl (BadKey ''sign key does not contain a colon'')
          else (let name = trim_space a; keyBase64 = trim_space b in
                if name = '''' then Inl (BadKey ''empty key name'')
                else (case (case b64_decode keyBase64 of Some bs \<Rightarrow> Some bs | None \<Rightarrow> b64_raw_decode keyBase64) of
                        None \<Rightarrow> Inl (BadKey ''failed to decode base64'')
                      | Some bs \<Rightarrow>
                          if length bs = 32 then
                            (let private = ed_seed bs in
                             if length private \<noteq> 64 then Inl (BadKey ''invalid Ed25519 key size'')
                             else Inr \<lparr>key_name = name, key_private = private\<rparr>)
                          else if length bs = 64 then Inr \<lparr>key_name = name, key_private = bs\<rparr>
                          else Inl (BadKey ''invalid signing key length''))))"

text \<open>
  The signatures of a batch, keyed by object; the first narinfo without a fingerprint ends it, and so
  does a context that has ended when the narinfo's turn comes (\<open>canceled\<close>). The public half of a private
  key is its last 32 bytes.
\<close>

fun Sign ::
  "ed_signer \<Rightarrow> (string \<Rightarrow> bool) \<Rightarrow> Key \<Rightarrow> (string \<times> 'a NarInfo_scheme) list \<Rightarrow> sign_error + (string \<times> string) list" where
  "Sign ed_sign canceled k [] = Inr []"
| "Sign ed_sign canceled k ((objectKey, info) # infos) =
     (if canceled objectKey then Inl Canceled
      else (case GenerateFingerprint (Some info) of
              Inl err \<Rightarrow> Inl err
            | Inr fingerprint \<Rightarrow>
                (case Sign ed_sign canceled k infos of
                   Inl err \<Rightarrow> Inl err
                 | Inr sigs \<Rightarrow>
                     Inr ((objectKey, key_name k @ '':'' @ b64_encode (ed_sign (key_private k) fingerprint)) # sigs))))"

definition PublicKey_of :: "Key \<Rightarrow> string" where
  "PublicKey_of k = key_name k @ '':'' @ b64_encode (drop 32 (key_private k))"

section \<open>The external signer\<close>

record signResponse =
  sr_id :: u64
  sr_signatures :: "(string \<times> string) list option"
  sr_error :: string

text \<open>
  The signing program answers a request, by the number of its process, the request's id and the
  fingerprints; \<open>None\<close> is an I/O failure of the exchange. Processes are numbered as they start. A request that
  is cancelled during the exchange kills the process, and that too is \<open>None\<close>, of this exchange or of the next
  one of the process.
\<close>

record ExternalSigner =
  es_public :: string
  es_name :: string
  es_verify_key :: bytes
  es_proc :: "nat option"
  es_started :: nat
  es_closed :: bool
  es_next_id :: u64

type_synonym signing_program = "nat \<Rightarrow> u64 \<Rightarrow> (string \<times> string) list \<Rightarrow> signResponse option"

definition NewExternalSigner :: "string \<Rightarrow> sign_error + ExternalSigner" where
  "NewExternalSigner publicKey =
     (case cut_str (trim_space publicKey) '':'' of
        (name, encoded, found) \<Rightarrow>
          if \<not> found \<or> name = '''' then Inl (BadKey ''signing public key must have the format name:base64-public-key'')
          else (case b64_decode encoded of
                  None \<Rightarrow> Inl (BadKey ''invalid signing public key'')
                | Some decoded \<Rightarrow>
                    if length decoded \<noteq> 32 then Inl (BadKey ''invalid Ed25519 public key length'')
                    else Inr \<lparr>es_public = name @ '':'' @ encoded, es_name = name, es_verify_key = decoded, es_proc = None, es_started = 0,
                              es_closed = False, es_next_id = 0\<rparr>))"

text \<open>\<open>proc.kill\<close> ends the process; the next request starts another one.\<close>

definition drop_proc :: "ExternalSigner \<Rightarrow> ExternalSigner" where
  "drop_proc s = s\<lparr>es_proc := None\<rparr>"

definition Close_signer :: "ExternalSigner \<Rightarrow> ExternalSigner" where
  "Close_signer s = drop_proc (s\<lparr>es_closed := True\<rparr>)"

text \<open>A JSON object decoded into a Go map: of two members with one name the later one counts.\<close>

definition json_object :: "(string \<times> 'a) list \<Rightarrow> (string \<times> 'a) list" where
  "json_object kvs = fold (\<lambda>(k, v). AList.update k v) kvs []"

fun verify_each ::
  "ed_verifier \<Rightarrow> ExternalSigner \<Rightarrow> (string \<times> string) list \<Rightarrow> (string \<times> string) list \<Rightarrow> sign_error option" where
  "verify_each ed s fingerprints [] = None"
| "verify_each ed s fingerprints ((objectKey, signature) # sigs) =
     (case cut_str signature '':'' of
        (name, encoded, found) \<Rightarrow>
          if \<not> found \<or> name \<noteq> es_name s then Some (BadResponse ''signature must use key name'')
          else (case b64_decode encoded of
                  None \<Rightarrow> Some (BadResponse ''invalid signature encoding'')
                | Some decoded \<Rightarrow>
                    if length decoded \<noteq> 64 then Some (BadResponse ''invalid Ed25519 signature length'')
                    else (case map_of fingerprints objectKey of
                            None \<Rightarrow> Some (BadResponse ''signature verification failed'')
                          | Some fingerprint \<Rightarrow>
                              if \<not> ed (es_verify_key s) fingerprint decoded
                              then Some (BadResponse ''signature verification failed'')
                              else verify_each ed s fingerprints sigs)))"

definition es_verify ::
  "ed_verifier \<Rightarrow> ExternalSigner \<Rightarrow> (string \<times> string) list \<Rightarrow> (string \<times> string) list option \<Rightarrow>
   sign_error + (string \<times> string) list" where
  "es_verify ed s fingerprints signatures =
     (case signatures of
        None \<Rightarrow> Inl (BadResponse ''signing program must return a signatures object'')
      | Some sigs \<Rightarrow>
          if length sigs \<noteq> length fingerprints then Inl (BadResponse ''wrong number of signatures'')
          else (case verify_each ed s fingerprints sigs of Some err \<Rightarrow> Inl err | None \<Rightarrow> Inr sigs))"

definition exchange ::
  "ed_verifier \<Rightarrow> signing_program \<Rightarrow> nat \<Rightarrow> (string \<times> string) list \<Rightarrow> ExternalSigner \<Rightarrow>
   (sign_error + (string \<times> string) list) \<times> ExternalSigner" where
  "exchange ed program proc fingerprints s =
     (let s = s\<lparr>es_next_id := es_next_id s + 1\<rparr>; i = es_next_id s in
      case program proc i fingerprints of
        None \<Rightarrow> (Inl (BadResponse ''signing program failed''), s)
      | Some r \<Rightarrow>
          if sr_id r \<noteq> i then (Inl (BadResponse ''signing program answered another request''), s)
          else if sr_error r \<noteq> '''' then (Inl (RequestError (sr_error r)), s)
          else (es_verify ed s fingerprints (map_option json_object (sr_signatures r)), s))"

text \<open>One round of the loop; \<open>Inl\<close> of the result asks for another one.\<close>

definition sign_round ::
  "ed_verifier \<Rightarrow> signing_program \<Rightarrow> (nat \<Rightarrow> bool) \<Rightarrow> bool \<Rightarrow> nat \<Rightarrow> (string \<times> string) list \<Rightarrow> ExternalSigner \<Rightarrow>
   (unit + (sign_error + (string \<times> string) list)) \<times> ExternalSigner" where
  "sign_round ed program can_start canceled attempt fingerprints s =
     (let reused = es_proc s \<noteq> None in
      if \<not> reused \<and> \<not> can_start (es_started s) then (Inr (Inl StartFailed), s)
      else (let s = (if reused then s else s\<lparr>es_proc := Some (es_started s), es_started := es_started s + 1\<rparr>) in
            case exchange ed program (the (es_proc s)) fingerprints s of
              (Inr sigs, s) \<Rightarrow> (Inr (Inr sigs), s)
            | (Inl (RequestError msg), s) \<Rightarrow> (Inr (Inl (RequestError msg)), s)
            | (Inl err, s) \<Rightarrow>
                (let s = drop_proc s in
                 if canceled then (Inr (Inl Canceled), s)
                 else if \<not> reused \<or> 0 < attempt then (Inr (Inl err), s)
                 else (Inl (), s))))"

fun fingerprints_of :: "(string \<times> 'a NarInfo_scheme) list \<Rightarrow> sign_error + (string \<times> string) list" where
  "fingerprints_of [] = Inr []"
| "fingerprints_of ((objectKey, info) # infos) =
     (case GenerateFingerprint (Some info) of
        Inl err \<Rightarrow> Inl err
      | Inr fp \<Rightarrow> (case fingerprints_of infos of Inl err \<Rightarrow> Inl err | Inr fps \<Rightarrow> Inr ((objectKey, fp) # fps)))"

text \<open>The loop ends after at most two rounds: the second one starts a fresh process.\<close>

function sign_loop ::
  "ed_verifier \<Rightarrow> signing_program \<Rightarrow> (nat \<Rightarrow> bool) \<Rightarrow> bool \<Rightarrow> nat \<Rightarrow> (string \<times> string) list \<Rightarrow> ExternalSigner \<Rightarrow>
   (sign_error + (string \<times> string) list) \<times> ExternalSigner" where
  "sign_loop ed program can_start canceled attempt fingerprints s =
     (case sign_round ed program can_start canceled attempt fingerprints s of
        (Inr res, s) \<Rightarrow> (res, s)
      | (Inl _, s) \<Rightarrow> sign_loop ed program can_start canceled (attempt + 1) fingerprints s)"
  by pat_completeness auto
termination
  by (relation "measure (\<lambda>(ed, program, can_start, canceled, attempt, fps, s). 1 - attempt)")
    (auto simp: sign_round_def Let_def split: if_splits sum.splits sign_error.splits prod.splits)

declare sign_loop.simps [simp del]

text \<open>
  Requests have the signer one after the other, the channel \<open>slot\<close>. One that is cancelled while it waits for its
  turn returns an error without touching the signer, and is left out.
\<close>

definition ExternalSign ::
  "ed_verifier \<Rightarrow> signing_program \<Rightarrow> (nat \<Rightarrow> bool) \<Rightarrow> bool \<Rightarrow> (string \<times> 'a NarInfo_scheme) list \<Rightarrow> ExternalSigner \<Rightarrow>
   (sign_error + (string \<times> string) list) \<times> ExternalSigner" where
  "ExternalSign ed program can_start canceled infos s =
     (case fingerprints_of infos of
        Inl err \<Rightarrow> (Inl err, s)
      | Inr fps \<Rightarrow>
          if fps = [] then (Inr [], s)
          else if es_closed s then (Inl SignerClosed, s)
          else sign_loop ed program can_start canceled 0 fps s)"

section \<open>What a signature binds\<close>

lemma split_char_single: "length (split_char d s) = 1 \<Longrightarrow> split_char d s = [s] \<and> d \<notin> set s"
proof (induction s)
  case (Cons c s)
  then show ?case by (cases "split_char d s") (auto split: if_splits)
qed simp

lemma split_char_positive: "1 \<le> length (split_char d s)"
  by (cases "split_char d s") auto

lemma split_char_chars: "w \<in> set (split_char d s) \<Longrightarrow> set w \<subseteq> set s"
proof (induction s arbitrary: w)
  case (Cons c s)
  then show ?case by (cases "split_char d s") (auto split: if_splits, blast+)
qed simp

lemma split_char_join_concat:
  "ws \<noteq> [] \<Longrightarrow> split_char d (join_str [d] ws) = concat (map (split_char d) ws)"
proof (induction "[d]" ws rule: join_str.induct)
  case (3 w v vs)
  then show ?case using split_char_sep [of d w "join_str [d] (v # vs)"] by simp
qed auto

lemma split_char_prefix:
  "d \<notin> set p \<Longrightarrow> split_char d (p @ s) = (p @ hd (split_char d s)) # tl (split_char d s)"
  by (induction p) auto

lemma GenerateFingerprint_ok:
  assumes "GenerateFingerprint (Some info) = Inr fp"
  shows "fp = ''1;'' @ StorePath info @ '';'' @ NarHash info @ '';'' @ format_nat (unat (NarSize info)) @ '';'' @
            join_str '','' (sort (References info))"
    and "\<forall>ref \<in> set (References info). has_prefix ref nix_store" and "has_prefix (StorePath info) nix_store"
    and "has_prefix (NarHash info) ''sha256:''" and "length (NarHash info) = 59"
  using assms by (auto simp: GenerateFingerprint_def filter_empty_conv split: if_splits list.splits)

definition plain_info :: "'a NarInfo_scheme \<Rightarrow> bool" where
  "plain_info info \<longleftrightarrow>
     CHR '';'' \<notin> set (StorePath info) \<and> CHR '';'' \<notin> set (NarHash info) \<and>
     (\<forall>ref \<in> set (References info). CHR '';'' \<notin> set ref \<and> CHR '','' \<notin> set ref)"

definition store_refs :: "'a NarInfo_scheme \<Rightarrow> bool" where
  "store_refs info \<longleftrightarrow>
     (\<forall>ref \<in> set (References info). \<exists>base. ref = ''/nix/store/'' @ base \<and> CHR ''/'' \<notin> set base)"

lemma format_nat_no_semicolon: "CHR '';'' \<notin> set (format_nat n)"
  using format_nat_digits [of "CHR '';''" n] by (auto simp: is_digit_def)

lemma fingerprint_parts:
  assumes "GenerateFingerprint (Some info) = Inr fp"
  shows "split_char (CHR '';'') fp =
    [''1''] @ split_char (CHR '';'') (StorePath info) @ split_char (CHR '';'') (NarHash info) @
    [format_nat (unat (NarSize info))] @ split_char (CHR '';'') (join_str '','' (sort (References info)))"
proof -
  have "fp = ''1'' @ CHR '';'' # StorePath info @ CHR '';'' # NarHash info @ CHR '';'' #
      format_nat (unat (NarSize info)) @ CHR '';'' # join_str '','' (sort (References info))"
    using GenerateFingerprint_ok(1) [OF assms] by simp
  then show ?thesis
    by (simp only: split_char_sep split_char_no_sep [OF format_nat_no_semicolon]) (simp add: split_char_no_sep)
qed

lemma join_str_chars: "c \<in> set (join_str sep ws) \<Longrightarrow> c \<in> set sep \<or> (\<exists>w \<in> set ws. c \<in> set w)"
  by (induction sep ws rule: join_str.induct) auto

lemma format_nat_inject: "format_nat m = format_nat n \<longleftrightarrow> m = n"
  by (metis option.inject parse_digits_format_nat)

text \<open>References without a slash after the store directory cannot hide a comma from the signer's.\<close>

lemma joined_refs_eq:
  assumes "join_str '','' as = join_str '','' bs"
    and a: "\<forall>a \<in> set as. CHR '','' \<notin> set a \<and> has_prefix a nix_store"
    and b: "\<forall>b \<in> set bs. \<exists>base. b = ''/nix/store/'' @ base \<and> CHR ''/'' \<notin> set base"
  shows "as = bs"
proof (cases "as = [] \<or> bs = []")
  case True
  have nil: "join_str '','' ws = [] \<longleftrightarrow> ws = []" if "\<forall>w \<in> set ws. w \<noteq> []" for ws
    using that by (cases ws; cases "tl ws") auto
  moreover have "\<forall>a \<in> set as. a \<noteq> []" using a by (auto simp: nix_store_def has_prefix_def)
  moreover have "\<forall>b \<in> set bs. b \<noteq> []" using b by auto
  ultimately have "as = [] \<longleftrightarrow> bs = []" using assms(1) nil [of as] nil [of bs] by simp
  with True show ?thesis by auto
next
  case False
  have split: "as = concat (map (split_char (CHR '','')) bs)"
  proof -
    have "split_char (CHR '','') (join_str '','' as) = as"
      by (rule split_char_join) (use a False in auto)
    moreover have "split_char (CHR '','') (join_str '','' bs) = concat (map (split_char (CHR '','')) bs)"
      by (rule split_char_join_concat) (use False in simp)
    ultimately show ?thesis unfolding assms(1) by (rule trans [OF sym])
  qed
  have "split_char (CHR '','') b = [b]" if mem: "b \<in> set bs" for b
  proof -
    obtain base where base: "b = ''/nix/store/'' @ base" "CHR ''/'' \<notin> set base"
      using bspec [OF b mem] by blast
    have pieces: "split_char (CHR '','') b =
        (''/nix/store/'' @ hd (split_char (CHR '','') base)) # tl (split_char (CHR '','') base)"
      unfolding base(1) by (rule split_char_prefix) simp
    have "tl (split_char (CHR '','') base) = []"
    proof (rule ccontr)
      assume "tl (split_char (CHR '','') base) \<noteq> []"
      then obtain w where w: "w \<in> set (tl (split_char (CHR '','') base))"
        by (cases "tl (split_char (CHR '','') base)") auto
      then have "w \<in> set (split_char (CHR '','') base)" by (metis list.set_sel(2) tl_Nil)
      then have "CHR ''/'' \<notin> set w" using base(2) split_char_chars by blast
      moreover have "w \<in> set (split_char (CHR '','') b)" using w by (simp add: pieces)
      then have "w \<in> set as" using split mem by auto
      then have "has_prefix w nix_store" using a by blast
      ultimately show False by (auto simp: has_prefix_iff nix_store_def)
    qed
    then have "length (split_char (CHR '','') b) = 1" by (simp add: pieces)
    then show ?thesis using split_char_single by blast
  qed
  then have "concat (map (split_char (CHR '','')) bs) = bs" by (induction bs) auto
  then show ?thesis by (rule trans [OF split])
qed

lemma fingerprint_binds:
  assumes a: "GenerateFingerprint (Some info) = Inr fp" "plain_info info"
    and b: "GenerateFingerprint (Some info') = Inr fp" "store_refs info'"
  shows "StorePath info' = StorePath info \<and> NarHash info' = NarHash info \<and> NarSize info' = NarSize info \<and>
         sort (References info') = sort (References info)"
proof -
  have "CHR '';'' \<notin> set (join_str '','' (sort (References info)))"
    using a(2) join_str_chars [of "CHR '';''" "'',''" "sort (References info)"] by (auto simp: plain_info_def)
  then have sa: "split_char (CHR '';'') fp = [''1'', StorePath info, NarHash info, format_nat (unat (NarSize info)),
      join_str '','' (sort (References info))]"
    using a(2) by (simp add: fingerprint_parts [OF a(1)] split_char_no_sep plain_info_def)
  let ?s = "split_char (CHR '';'') (StorePath info')" and ?h = "split_char (CHR '';'') (NarHash info')"
    and ?r = "split_char (CHR '';'') (join_str '','' (sort (References info')))"
  from sa fingerprint_parts [OF b(1)]
  have eq: "?s @ ?h @ [format_nat (unat (NarSize info'))] @ ?r =
      [StorePath info, NarHash info, format_nat (unat (NarSize info)), join_str '','' (sort (References info))]" by simp
  then have "length ?s + length ?h + length ?r = 3" by (metis (no_types) length_append length_Cons list.size(3)
      add.assoc add_Suc_right add_Suc nat.inject numeral_3_eq_3 add.right_neutral)
  then have "length ?s = 1" "length ?h = 1" "length ?r = 1"
    using split_char_positive [of "CHR '';''" "StorePath info'"] split_char_positive [of "CHR '';''" "NarHash info'"]
      split_char_positive [of "CHR '';''" "join_str '','' (sort (References info'))"] by linarith+
  then have "?s = [StorePath info']" "?h = [NarHash info']" "?r = [join_str '','' (sort (References info'))]"
    using split_char_single by blast+
  with eq have fields: "StorePath info' = StorePath info" "NarHash info' = NarHash info"
    "format_nat (unat (NarSize info')) = format_nat (unat (NarSize info))"
    "join_str '','' (sort (References info)) = join_str '','' (sort (References info'))" by simp_all
  have "sort (References info) = sort (References info')"
    by (rule joined_refs_eq [OF fields(4)])
      (use a(2) b(2) GenerateFingerprint_ok(2) [OF a(1)] in \<open>auto simp: plain_info_def store_refs_def\<close>)
  moreover have "NarSize info' = NarSize info"
    using fields(3) by (simp add: format_nat_inject word_unat_eq_iff)
  ultimately show ?thesis using fields by simp
qed

section \<open>Signers\<close>

text \<open>
  What the server relies on when it signs with a key or with a signing program, as one interface: a
  signer that answers keeps its public key and gives exactly one signature for each narinfo, and it
  verifies. \<open>VerifyNarinfo\<close> then accepts a narinfo whatever signatures are around the new one.
\<close>

definition verifies :: "ed_verifier \<Rightarrow> PublicKey \<Rightarrow> string \<Rightarrow> string \<Rightarrow> bool" where
  "verifies ed k fp sig \<longleftrightarrow> any_signature ed k fp [sig]"

locale signer =
  fixes sign :: "'s \<Rightarrow> (string \<times> 'a NarInfo_scheme) list \<Rightarrow> (sign_error + (string \<times> string) list) \<times> 's"
    and pub :: "'s \<Rightarrow> PublicKey" and ed :: ed_verifier and ok :: "'s \<Rightarrow> bool"
  assumes sign_ok: "ok s \<Longrightarrow> sign s infos = (res, s') \<Longrightarrow> ok s' \<and> pub s' = pub s"
    and sign_keys: "ok s \<Longrightarrow> sign s infos = (Inr sigs, s') \<Longrightarrow> distinct (map fst infos) \<Longrightarrow>
       distinct (map fst sigs) \<and> set (map fst sigs) = set (map fst infos)"
    and sign_verifies: "ok s \<Longrightarrow> sign s infos = (Inr sigs, s') \<Longrightarrow> distinct (map fst infos) \<Longrightarrow>
       (k, info) \<in> set infos \<Longrightarrow> (k, sig) \<in> set sigs \<Longrightarrow>
       \<exists>fp. GenerateFingerprint (Some info) = Inr fp \<and> verifies ed (pub s) fp sig"
begin

lemma signed_verifies:
  assumes "ok s" and "sign s infos = (Inr sigs, s')" and "distinct (map fst infos)" and "(k, info) \<in> set infos"
  shows "\<exists>sig. map_of sigs k = Some sig \<and> VerifyNarinfo ed (pub s) info [sig]"
proof -
  have "k \<in> set (map fst sigs)" using sign_keys [OF assms(1,2,3)] assms(4) by force
  then obtain sig where sig: "map_of sigs k = Some sig"
    by (cases "map_of sigs k") (auto simp: map_of_eq_None_iff)
  from sign_verifies [OF assms(1,2,3,4) map_of_SomeD [OF sig]] sig show ?thesis
    by (cases "GenerateFingerprint (Some info)") (auto simp: VerifyNarinfo_def verifies_def simp del: any_signature.simps)
qed

end

lemma any_signature_Cons:
  "any_signature ed k fp (sig # sigs) \<longleftrightarrow> verifies ed k fp sig \<or> any_signature ed k fp sigs"
proof -
  obtain name enc found where "cut_str sig '':'' = (name, enc, found)" by (cases "cut_str sig '':''")
  then show ?thesis by (cases "b64_decode enc") (auto simp: verifies_def)
qed

lemma any_signature_iff: "any_signature ed k fp sigs \<longleftrightarrow> (\<exists>sig \<in> set sigs. verifies ed k fp sig)"
proof (induction sigs)
  case (Cons sig sigs)
  then show ?case unfolding any_signature_Cons [of ed k fp sig sigs] by (auto simp del: any_signature.simps)
qed simp

lemma VerifyNarinfo_mono: "VerifyNarinfo ed k info sigs \<Longrightarrow> set sigs \<subseteq> set sigs' \<Longrightarrow> VerifyNarinfo ed k info sigs'"
  unfolding VerifyNarinfo_def
  by (cases "GenerateFingerprint (Some info)")
    (auto simp del: any_signature.simps simp: any_signature_iff [of ed k _ sigs] any_signature_iff [of ed k _ sigs'])

subsection \<open>A key\<close>

text \<open>The law of \<open>crypto/ed25519\<close>: what a private key signs verifies under its public half.\<close>

definition ed_pair :: "ed_verifier \<Rightarrow> ed_signer \<Rightarrow> bytes \<Rightarrow> bool" where
  "ed_pair ed ed_sign private \<longleftrightarrow> length private = 64 \<and> (\<forall>m. ed (drop 32 private) m (ed_sign private m))"

definition key_public :: "Key \<Rightarrow> PublicKey" where
  "key_public k = \<lparr>pk_name = key_name k, pk_key = drop 32 (key_private k)\<rparr>"

lemma Sign_ok:
  "Sign ed_sign canceled k infos = Inr sigs \<Longrightarrow> map fst sigs = map fst infos \<and>
   (\<forall>x info y sig. ((x, info), (y, sig)) \<in> set (zip infos sigs) \<longrightarrow> (\<exists>fp. GenerateFingerprint (Some info) = Inr fp \<and>
      sig = key_name k @ '':'' @ b64_encode (ed_sign (key_private k) fp)))"
  by (induction infos arbitrary: sigs) (auto split: sum.splits if_splits)

lemma any_signature_key:
  assumes "CHR '':'' \<notin> set (pk_name k)" and "ed (pk_key k) fp sig"
  shows "verifies ed k fp (pk_name k @ '':'' @ b64_encode sig)"
  using assms by (simp add: b64_decode_encode verifies_def)

lemma zip_lookup:
  assumes "map fst xs = map fst ys" and "distinct (map fst xs)" and "(k, x) \<in> set xs" and "(k, y) \<in> set ys"
  shows "((k, x), (k, y)) \<in> set (zip xs ys)"
  using assms
proof (induction xs arbitrary: ys)
  case (Cons a xs)
  then obtain b ys' where ys: "ys = b # ys'" "fst b = fst a" "map fst xs = map fst ys'" by (cases ys) auto
  have notin: "(fst a, z) \<notin> set ys'" "(fst a, w) \<notin> set xs" for z w
    using Cons.prems(2) ys(3) by (metis distinct.simps(2) fst_conv image_eqI list.set_map list.simps(9))+
  show ?case
  proof (cases "k = fst a")
    case True
    with Cons.prems(3,4) ys notin have "a = (k, x)" "b = (k, y)" by auto
    with ys show ?thesis by simp
  next
    case False
    with Cons.prems(3,4) ys have "(k, x) \<in> set xs" "(k, y) \<in> set ys'" by auto
    with Cons.IH [OF ys(3)] Cons.prems(2) ys(1) show ?thesis by simp
  qed
qed simp

interpretation local_key: signer "\<lambda>k infos. (Sign ed_sign canceled k infos, k)" key_public ed
  "\<lambda>k. ed_pair ed ed_sign (key_private k) \<and> CHR '':'' \<notin> set (key_name k)"
  for ed_sign canceled ed
proof unfold_locales
  fix k :: Key and infos :: "(string \<times> 'a NarInfo_scheme) list" and sigs k' x info sig
  assume k: "ed_pair ed ed_sign (key_private k) \<and> CHR '':'' \<notin> set (key_name k)"
    and s: "(Sign ed_sign canceled k infos, k) = (Inr sigs, k')"
    and d: "distinct (map fst infos)"
  from s have s: "Sign ed_sign canceled k infos = Inr sigs" by blast
  from Sign_ok [OF s] d show "distinct (map fst sigs) \<and> set (map fst sigs) = set (map fst infos)" by simp
  assume m: "(x, info) \<in> set infos" "(x, sig) \<in> set sigs"
  have "((x, info), (x, sig)) \<in> set (zip infos sigs)"
    by (rule zip_lookup) (use Sign_ok [OF s] d m in auto)
  with Sign_ok [OF s] obtain fp where fp: "GenerateFingerprint (Some info) = Inr fp"
      "sig = key_name k @ '':'' @ b64_encode (ed_sign (key_private k) fp)" by blast
  have "verifies ed (key_public k) fp sig"
    using any_signature_key [of "key_public k" ed fp "ed_sign (key_private k) fp"] k
    by (simp add: key_public_def fp(2) ed_pair_def)
  with fp(1) show "\<exists>fp. GenerateFingerprint (Some info) = Inr fp \<and> verifies ed (key_public k) fp sig" by blast
qed auto

subsection \<open>A signing program\<close>

definition es_pub :: "ExternalSigner \<Rightarrow> PublicKey" where
  "es_pub s = \<lparr>pk_name = es_name s, pk_key = es_verify_key s\<rparr>"

definition same_signer :: "ExternalSigner \<Rightarrow> ExternalSigner \<Rightarrow> bool" where
  "same_signer s s' \<longleftrightarrow> es_public s' = es_public s \<and> es_name s' = es_name s \<and>
     es_verify_key s' = es_verify_key s \<and> es_closed s' = es_closed s"

lemma same_signer_pub: "same_signer s s' \<Longrightarrow> es_pub s' = es_pub s"
  by (simp add: same_signer_def es_pub_def)

definition signatures_good :: "ed_verifier \<Rightarrow> ExternalSigner \<Rightarrow> (string \<times> string) list \<Rightarrow> (string \<times> string) list \<Rightarrow> bool" where
  "signatures_good ed s fps sigs \<longleftrightarrow> distinct (map fst sigs) \<and> length sigs = length fps \<and>
     (\<forall>k sig. (k, sig) \<in> set sigs \<longrightarrow> (\<exists>fp. map_of fps k = Some fp \<and> verifies ed (es_pub s) fp sig))"

lemma distinct_json_object: "distinct (map fst (json_object kvs))"
proof -
  have "distinct (map fst m) \<Longrightarrow> distinct (map fst (fold (\<lambda>(k, v). AList.update k v) kvs m))" for m
    by (induction kvs arbitrary: m) (auto simp: distinct_update)
  then show ?thesis by (simp add: json_object_def)
qed

lemma verify_each_ok:
  "verify_each ed s fps sigs = None \<Longrightarrow> (k, sig) \<in> set sigs \<Longrightarrow>
   \<exists>fp. map_of fps k = Some fp \<and> verifies ed (es_pub s) fp sig"
proof (induction ed s fps sigs rule: verify_each.induct)
  case (2 ed s fps x y sigs)
  obtain name enc found where c: "cut_str y '':'' = (name, enc, found)" by (cases "cut_str y '':''")
  obtain d fp where d: "found" "name = es_name s" "b64_decode enc = Some d" "map_of fps x = Some fp"
    "ed (es_verify_key s) fp d" "verify_each ed s fps sigs = None" "length d = 64"
    using "2.prems"(1) c by (auto split: option.splits if_splits)
  have "verifies ed (es_pub s) fp y" using c d by (simp add: verifies_def es_pub_def)
  with 2 c d show ?case by auto
qed simp

lemma exchange_ok:
  assumes "exchange ed program proc fps s = (res, s')"
  shows "s' = s\<lparr>es_next_id := es_next_id s + 1\<rparr> \<and> (\<forall>sigs. res = Inr sigs \<longrightarrow> signatures_good ed s fps sigs)"
proof -
  let ?s = "s\<lparr>es_next_id := es_next_id s + 1\<rparr>"
  have pub: "es_pub ?s = es_pub s" by (simp add: es_pub_def)
  have "signatures_good ed s fps sigs"
    if v: "es_verify ed ?s fps (map_option json_object r) = Inr sigs" for r sigs
  proof -
    obtain kvs where "r = Some kvs" using v by (cases r) (auto simp: es_verify_def)
    with v have "sigs = json_object kvs" "length sigs = length fps" "verify_each ed ?s fps sigs = None"
      by (auto simp: es_verify_def split: option.splits if_splits)
    then show ?thesis using distinct_json_object verify_each_ok [of ed ?s fps sigs]
      by (simp add: signatures_good_def pub)
  qed
  with assms show ?thesis
    by (auto simp: exchange_def Let_def split: option.splits if_splits)
qed

lemma sign_round_ok:
  assumes "sign_round ed program can_start canceled attempt fps s = (r, s')"
  shows "same_signer s s'" and "r = Inr (Inr sigs) \<Longrightarrow> signatures_good ed s fps sigs"
    and "es_started s' \<le> es_started s + (if es_proc s = None then 1 else 0)"
    and "es_next_id s' = es_next_id s \<or> es_next_id s' = es_next_id s + 1"
    and "r = Inl u \<Longrightarrow> es_proc s \<noteq> None \<and> attempt = 0 \<and> es_proc s' = None"
proof -
  define s1 where "s1 = (if es_proc s \<noteq> None then s else s\<lparr>es_proc := Some (es_started s), es_started := es_started s + 1\<rparr>)"
  obtain res s2 where x: "exchange ed program (the (es_proc s1)) fps s1 = (res, s2)"
    by (cases "exchange ed program (the (es_proc s1)) fps s1")
  have s2: "s2 = s1\<lparr>es_next_id := es_next_id s1 + 1\<rparr>" and good: "\<And>sigs. res = Inr sigs \<Longrightarrow> signatures_good ed s1 fps sigs"
    using exchange_ok [OF x] by auto
  have "es_pub s1 = es_pub s" by (simp add: s1_def es_pub_def)
  then have g: "signatures_good ed s1 fps sigs = signatures_good ed s fps sigs" for sigs
    by (simp only: signatures_good_def)
  have cases: "r = Inr (Inl StartFailed) \<and> s' = s \<or>
      (\<exists>sigs. res = Inr sigs \<and> r = Inr (Inr sigs) \<and> s' = s2) \<or>
      (\<exists>err. r = Inr (Inl err) \<and> (s' = s2 \<or> s' = drop_proc s2)) \<or>
      (r = Inl () \<and> s' = drop_proc s2 \<and> es_proc s \<noteq> None \<and> attempt = 0)"
    using assms x
    by (auto simp: sign_round_def Let_def s1_def split: if_splits sum.splits sign_error.splits)
  show "same_signer s s'" "es_started s' \<le> es_started s + (if es_proc s = None then 1 else 0)"
    "es_next_id s' = es_next_id s \<or> es_next_id s' = es_next_id s + 1"
    "r = Inl u \<Longrightarrow> es_proc s \<noteq> None \<and> attempt = 0 \<and> es_proc s' = None"
    by (use cases in \<open>cases "es_proc s"; auto simp: s2 s1_def same_signer_def drop_proc_def\<close>)+
  show "signatures_good ed s fps sigs" if "r = Inr (Inr sigs)"
    using cases good that by (auto simp: g)
qed

lemma same_signer_trans: "same_signer s s1 \<Longrightarrow> same_signer s1 s2 \<Longrightarrow> same_signer s s2"
  by (simp add: same_signer_def)

lemma signatures_good_same: "same_signer s s1 \<Longrightarrow> signatures_good ed s1 fps sigs = signatures_good ed s fps sigs"
  by (simp only: signatures_good_def same_signer_pub)

lemma sign_loop_ok:
  assumes "sign_loop ed program can_start canceled 0 fps s = (res, s')"
  shows "same_signer s s'" and "res = Inr sigs \<Longrightarrow> signatures_good ed s fps sigs"
    and "es_started s' \<le> es_started s + 1" and "es_next_id s' \<in> {es_next_id s, es_next_id s + 1, es_next_id s + 2}"
proof -
  obtain r s1 where r: "sign_round ed program can_start canceled 0 fps s = (r, s1)" by fastforce
  note one = sign_round_ok [OF r]
  have "same_signer s s' \<and> (\<forall>sigs. res = Inr sigs \<longrightarrow> signatures_good ed s fps sigs) \<and>
      es_started s' \<le> es_started s + 1 \<and> es_next_id s' \<in> {es_next_id s, es_next_id s + 1, es_next_id s + 2}"
  proof (cases r)
    case (Inr x)
    then have "res = x" "s' = s1" using assms r by (simp_all add: sign_loop.simps [of ed program can_start canceled 0])
    with one(1-4) Inr show ?thesis by (auto split: if_splits)
  next
    case (Inl u)
    obtain r2 s2 where r2: "sign_round ed program can_start canceled 1 fps s1 = (r2, s2)" by fastforce
    note two = sign_round_ok [OF r2]
    obtain x where x: "r2 = Inr x" using two(5) by (cases r2) auto
    have "res = x" "s' = s2"
      using assms r r2 Inl x
      by (simp_all add: sign_loop.simps [of ed program can_start canceled 0]
          sign_loop.simps [of ed program can_start canceled "Suc 0"])
    moreover have "es_started s2 \<le> es_started s + 1"
      using one(3) one(5) [OF Inl] two(3) by (auto split: if_splits)
    moreover have "es_next_id s2 \<in> {es_next_id s, es_next_id s + 1, es_next_id s + 2}"
      using one(4) two(4) by (auto simp: add.assoc)
    ultimately show ?thesis
      using one(1) two(1,2) x by (auto intro: same_signer_trans simp: signatures_good_same [OF one(1)])
  qed
  then show "same_signer s s'" "res = Inr sigs \<Longrightarrow> signatures_good ed s fps sigs"
    "es_started s' \<le> es_started s + 1" "es_next_id s' \<in> {es_next_id s, es_next_id s + 1, es_next_id s + 2}" by blast+
qed

lemma fingerprints_of_ok:
  "fingerprints_of infos = Inr fps \<Longrightarrow> map fst fps = map fst infos \<and>
   (\<forall>x info. (x, info) \<in> set infos \<longrightarrow> distinct (map fst infos) \<longrightarrow>
      (\<exists>fp. GenerateFingerprint (Some info) = Inr fp \<and> map_of fps x = Some fp))"
proof (induction infos arbitrary: fps)
  case (Cons a infos)
  then show ?case by (cases a) (auto split: sum.splits simp: image_iff) 
qed simp

lemma ExternalSign_ok:
  assumes "ExternalSign ed program can_start canceled infos s = (res, s')"
  shows "same_signer s s'" and "es_started s' \<le> es_started s + 1"
    and "es_next_id s' \<in> {es_next_id s, es_next_id s + 1, es_next_id s + 2}"
    and "res = Inr sigs \<Longrightarrow> \<exists>fps. fingerprints_of infos = Inr fps \<and> signatures_good ed s fps sigs"
proof -
  have triv: "same_signer s s" "signatures_good ed s [] []" by (simp_all add: same_signer_def signatures_good_def)
  show "same_signer s s'" "es_started s' \<le> es_started s + 1"
    "es_next_id s' \<in> {es_next_id s, es_next_id s + 1, es_next_id s + 2}"
    using assms triv sign_loop_ok(1,3,4) [of ed program can_start canceled _ s res s']
    by (auto simp: ExternalSign_def split: sum.splits if_splits)
  show "\<exists>fps. fingerprints_of infos = Inr fps \<and> signatures_good ed s fps sigs" if "res = Inr sigs"
    using assms that triv sign_loop_ok(2) [of ed program can_start canceled _ s res s']
    by (auto simp: ExternalSign_def split: sum.splits if_splits)
qed

interpretation external: signer "\<lambda>s infos. ExternalSign ed program can_start canceled infos s" es_pub ed "\<lambda>_. True"
  for ed program can_start canceled
proof unfold_locales
  fix s s' infos res
  assume "ExternalSign ed program can_start canceled infos s = (res, s')"
  from ExternalSign_ok(1) [OF this] show "True \<and> es_pub s' = es_pub s" by (simp add: same_signer_pub)
next
  fix s s' and infos :: "(string \<times> 'a NarInfo_scheme) list" and sigs
  assume "ExternalSign ed program can_start canceled infos s = (Inr sigs, s')" and d: "distinct (map fst infos)"
  from ExternalSign_ok(4) [OF this(1) refl] obtain fps where f: "fingerprints_of infos = Inr fps"
    and g: "signatures_good ed s fps sigs" by blast
  have keys: "map fst fps = map fst infos" using fingerprints_of_ok [OF f] by blast
  have "set (map fst sigs) \<subseteq> set (map fst fps)"
  proof
    fix k assume "k \<in> set (map fst sigs)"
    then obtain sig where "(k, sig) \<in> set sigs" by auto
    then obtain fp where "map_of fps k = Some fp" using g unfolding signatures_good_def by blast
    then show "k \<in> set (map fst fps)" by (metis list.set_map map_of_SomeD fst_conv image_eqI)
  qed
  moreover have "card (set (map fst sigs)) = card (set (map fst fps))"
  proof -
    have "distinct (map fst fps)" using d keys by simp
    then have "card (set (map fst fps)) = length fps" using distinct_card [of "map fst fps"] by simp
    moreover have "card (set (map fst sigs)) = length sigs"
      using g distinct_card [of "map fst sigs"] by (simp add: signatures_good_def)
    ultimately show ?thesis using g by (simp add: signatures_good_def)
  qed
  ultimately have "set (map fst sigs) = set (map fst fps)" by (intro card_subset_eq) auto
  then show k: "distinct (map fst sigs) \<and> set (map fst sigs) = set (map fst infos)"
    using g by (simp only: signatures_good_def keys)
  fix k info sig
  assume "(k, info) \<in> set infos" "(k, sig) \<in> set sigs"
  then obtain fp where "GenerateFingerprint (Some info) = Inr fp" "map_of fps k = Some fp"
    using fingerprints_of_ok [OF f] d by blast
  moreover from \<open>(k, sig) \<in> set sigs\<close> obtain fp' where "map_of fps k = Some fp'" "verifies ed (es_pub s) fp' sig"
    using g unfolding signatures_good_def by blast
  ultimately show "\<exists>fp. GenerateFingerprint (Some info) = Inr fp \<and> verifies ed (es_pub s) fp sig" by simp
qed

section \<open>Keys as text\<close>

lemma trim_space_id: "s = [] \<or> (\<not> is_space (hd s) \<and> \<not> is_space (last s)) \<Longrightarrow> trim_space s = s"
proof (cases "s = []")
  case False
  assume "s = [] \<or> (\<not> is_space (hd s) \<and> \<not> is_space (last s))"
  with False have ends: "\<not> is_space (hd s)" "\<not> is_space (hd (rev s))" by (simp_all add: hd_rev)
  have keep: "dropWhile is_space xs = xs" if "xs \<noteq> []" "\<not> is_space (hd xs)" for xs
    using that by (cases xs) auto
  show ?thesis using keep [OF False ends(1)] keep [of "rev s"] False ends(2) by (simp add: trim_space_def)
qed (simp add: trim_space_def)

lemma trim_space_ends:
  assumes "trim_space s \<noteq> []"
  shows "\<not> is_space (hd (trim_space s)) \<and> \<not> is_space (last (trim_space s)) \<and> set (trim_space s) \<subseteq> set s"
proof -
  let ?t = "dropWhile is_space s"
  have "rev (dropWhile is_space (rev ?t)) @ rev (takeWhile is_space (rev ?t)) = ?t"
    by (metis rev_append rev_rev_ident takeWhile_dropWhile_id)
  moreover have "?t \<noteq> []" using assms unfolding trim_space_def by force
  ultimately have "hd (trim_space s) = hd ?t" using assms by (metis hd_append2 trim_space_def)
  with \<open>?t \<noteq> []\<close> have h: "\<not> is_space (hd (trim_space s))" by (simp add: hd_dropWhile)
  have "last (trim_space s) = hd (dropWhile is_space (rev ?t))" using assms by (simp add: trim_space_def last_rev)
  moreover have "dropWhile is_space (rev ?t) \<noteq> []" using assms by (simp add: trim_space_def)
  ultimately have l: "\<not> is_space (last (trim_space s))" by (simp only: hd_dropWhile not_False_eq_True)
  have "set (trim_space s) \<subseteq> set s" unfolding trim_space_def by (metis set_dropWhileD set_rev subsetI)
  with h l show ?thesis by blast
qed

lemma b64_char_no_space: "n < 64 \<Longrightarrow> \<not> is_space (b64_char n)"
proof -
  assume "n < 64"
  moreover have "length b64_alphabet = 64" by (simp add: b64_alphabet_def)
  ultimately have "b64_char n \<in> set b64_alphabet" by (simp add: b64_char_def)
  then show ?thesis by (auto simp: b64_alphabet_def is_space_def)
qed

lemma b64_encode_chars: "c \<in> set (b64_encode bs) \<Longrightarrow> \<not> is_space c"
proof -
  have "\<not> is_space (CHR ''='')" by (simp add: is_space_def)
  then show "c \<in> set (b64_encode bs) \<Longrightarrow> \<not> is_space c"
    by (induction bs rule: b64_encode.induct) (auto simp: b64_bounds b64_char_no_space)
qed

lemma b64_encode_Nil: "b64_encode bs = [] \<longleftrightarrow> bs = []"
  by (cases bs rule: b64_encode.cases) auto

lemma ParsePublicKey_text:
  assumes "name \<noteq> ''''" "CHR '':'' \<notin> set name" "\<not> is_space (hd name)" "length bs = 32"
  shows "ParsePublicKey (name @ '':'' @ b64_encode bs) = Inr \<lparr>pk_name = name, pk_key = bs\<rparr>"
proof -
  have "b64_encode bs \<noteq> []" using assms(4) by (auto simp: b64_encode_Nil)
  then have "\<not> is_space (last (b64_encode bs))" using b64_encode_chars last_in_set by blast
  then have "trim_space (name @ '':'' @ b64_encode bs) = name @ '':'' @ b64_encode bs"
    using assms(1,3) \<open>b64_encode bs \<noteq> []\<close> by (intro trim_space_id) simp
  then show ?thesis using assms by (simp add: ParsePublicKey_def b64_decode_encode)
qed

lemma ParseKey_ok:
  assumes "ParseKey ed_seed s = Inr k"
  shows "key_name k \<noteq> ''''" "CHR '':'' \<notin> set (key_name k)" "\<not> is_space (hd (key_name k))" "length (key_private k) = 64"
proof -
  obtain a b where ab: "cut_str s '':'' = (a, b, True)" and k: "key_name k = trim_space a" "trim_space a \<noteq> ''''"
    and len: "length (key_private k) = 64"
    using assms by (auto simp: ParseKey_def Let_def split: prod.splits if_splits option.splits)
  have "CHR '':'' \<notin> set a" using cut_char_fst [OF ab] .
  with trim_space_ends [OF k(2)] k len
  show "key_name k \<noteq> ''''" "CHR '':'' \<notin> set (key_name k)" "\<not> is_space (hd (key_name k))" "length (key_private k) = 64"
    by auto
qed

section \<open>Properties\<close>

text \<open>
  C30: a signature binds what Nix uses, for well formed narinfos. If a narinfo has the fingerprint of one that was
  signed, it names the same store path, NAR hash and size, and the same references up to their order. Of the
  signed one it is assumed that its store path and hash hold no semicolon and its references no semicolon and no
  comma, and of the other that its references are single names in the store directory. \<open>GenerateFingerprint\<close> itself
  checks neither, only the prefix \<open>/nix/store\<close>: \<open>fingerprint_comma\<close> shows two lists of references that it
  does not tell apart.
\<close>
theorem GenerateFingerprint_binds:
  assumes "GenerateFingerprint (Some info) = Inr fp" and "plain_info info"
    and "GenerateFingerprint (Some info') = Inr fp" and "store_refs info'"
  shows "StorePath info' = StorePath info \<and> NarHash info' = NarHash info \<and> NarSize info' = NarSize info \<and>
         sort (References info') = sort (References info)"
  using assms by (rule fingerprint_binds)

definition signed_example :: NarInfo where
  "signed_example = \<lparr>StorePath = ''/nix/store/00000000000000000000000000000000-a'',
     NarHash = ''sha256:0000000000000000000000000000000000000000000000000000'', NarSize = 120,
     References = [''/nix/store/1-b'', ''/nix/store/0-c'']\<rparr>"

lemma signed_example_facts:
  "\<exists>fp. GenerateFingerprint (Some signed_example) = Inr fp \<and>
        GenerateFingerprint (Some (signed_example\<lparr>References := [''/nix/store/0-c'', ''/nix/store/1-b'']\<rparr>)) = Inr fp"
  "plain_info signed_example"
  "store_refs (signed_example\<lparr>References := [''/nix/store/0-c'', ''/nix/store/1-b'']\<rparr>)"
  by (simp_all add: GenerateFingerprint_def signed_example_def plain_info_def store_refs_def nix_store_def)

text \<open>Without the conditions the fingerprint does not tell one reference with a comma from two references.\<close>

lemma fingerprint_comma:
  "GenerateFingerprint (Some (signed_example\<lparr>References := [''/nix/store/x,/nix/store/y'']\<rparr>)) =
   GenerateFingerprint (Some (signed_example\<lparr>References := [''/nix/store/x'', ''/nix/store/y'']\<rparr>))"
  "GenerateFingerprint (Some (signed_example\<lparr>References := [''/nix/store/x,/nix/store/y'']\<rparr>)) \<noteq> Inl err"
  by (simp_all add: GenerateFingerprint_def signed_example_def nix_store_def)

theorem GenerateFingerprint_binds_witness:
  "sort (References (signed_example\<lparr>References := [''/nix/store/0-c'', ''/nix/store/1-b'']\<rparr>)) =
   sort (References signed_example)"
proof -
  obtain fp where fp: "GenerateFingerprint (Some signed_example) = Inr fp"
    "GenerateFingerprint (Some (signed_example\<lparr>References := [''/nix/store/0-c'', ''/nix/store/1-b'']\<rparr>)) = Inr fp"
    using signed_example_facts(1) by blast
  from GenerateFingerprint_binds [OF fp(1) signed_example_facts(2) fp(2) signed_example_facts(3)] show ?thesis by blast
qed

text \<open>
  A key works as a whole. Under the law of Ed25519, the public key the server publishes for a
  signing key it could read can be read again, has the name of the key, and accepts what the key signs,
  wherever the signature stands among others.
\<close>
theorem ParseKey_roundtrip:
  assumes "ParseKey ed_seed s = Inr k" and "ed_pair ed ed_sign (key_private k)"
    and "GenerateFingerprint (Some info) = Inr fp"
  shows "\<exists>pk sig. ParsePublicKey (PublicKey_of k) = Inr pk \<and> pk_name pk = key_name k \<and>
           Sign ed_sign (\<lambda>_. False) k [(objectKey, info)] = Inr [(objectKey, sig)] \<and>
           VerifyNarinfo ed pk info (before @ sig # after)"
proof -
  note k = ParseKey_ok [OF assms(1)]
  have pk: "ParsePublicKey (PublicKey_of k) = Inr (key_public k)"
    using ParsePublicKey_text [OF k(1,2,3), of "drop 32 (key_private k)"] k(4) by (simp add: PublicKey_of_def key_public_def)
  obtain sig where s: "Sign ed_sign (\<lambda>_. False) k [(objectKey, info)] = Inr [(objectKey, sig)]"
    using assms(3) by simp
  have "\<exists>sig'. map_of [(objectKey, sig)] objectKey = Some sig' \<and> VerifyNarinfo ed (key_public k) info [sig']"
    by (rule local_key.signed_verifies [where infos = "[(objectKey, info)]" and s' = k and canceled = "\<lambda>_. False"])
      (use assms(2) k(2) s in simp_all)
  then have "VerifyNarinfo ed (key_public k) info [sig]" by simp
  then have "VerifyNarinfo ed (key_public k) info (before @ sig # after)" by (rule VerifyNarinfo_mono) auto
  with pk s show ?thesis by (auto simp: key_public_def)
qed

text \<open>A signature scheme for the example: the signature is the message under the key's public half.\<close>

definition toy_sign :: ed_signer where
  "toy_sign private m = drop 32 private @ map of_char m"

definition toy_verify :: ed_verifier where
  "toy_verify public m sig \<longleftrightarrow> sig = public @ map of_char m"

theorem ParseKey_roundtrip_witness:
  "\<exists>k pk sig. ParseKey id (''cache-1:'' @ b64_encode (replicate 64 7)) = Inr k \<and>
     ParsePublicKey (PublicKey_of k) = Inr pk \<and> VerifyNarinfo toy_verify pk signed_example [''x:1'', sig]"
proof -
  let ?k = "\<lparr>key_name = ''cache-1'', key_private = replicate 64 7\<rparr>"
  have "trim_space (b64_encode (replicate 64 7)) = b64_encode (replicate 64 7)"
    by (rule trim_space_id) (metis b64_encode_chars hd_in_set last_in_set)
  moreover have "trim_space ''cache-1'' = ''cache-1''" by code_simp
  ultimately have k: "ParseKey id (''cache-1:'' @ b64_encode (replicate 64 7)) = Inr ?k"
    using cut_char_append [of "CHR '':''" "''cache-1''"] by (simp add: ParseKey_def b64_decode_encode)
  have p: "ed_pair toy_verify toy_sign (key_private ?k)" by (simp add: ed_pair_def toy_verify_def toy_sign_def)
  obtain fp where "GenerateFingerprint (Some signed_example) = Inr fp" using signed_example_facts(1) by blast
  from ParseKey_roundtrip [OF k p this, of undefined "[''x:1'']" "[]"] k show ?thesis by auto
qed

text \<open>
  C13: the server never publishes a signature of the signing program it has not checked. Whatever the
  program answers, whichever processes start, die or hang, a call that returns signatures returns one
  for each narinfo and no others, and each verifies under the configured public key. A call starts
  at most one process and sends at most two requests, and it leaves the public key as it was.
\<close>
theorem ExternalSign_verified:
  assumes "ExternalSign ed program can_start canceled infos s = (res, s')" and "distinct (map fst infos)"
  shows "(\<forall>sigs. res = Inr sigs \<longrightarrow> set (map fst sigs) = set (map fst infos) \<and>
            (\<forall>k info. (k, info) \<in> set infos \<longrightarrow>
               (\<exists>sig. map_of sigs k = Some sig \<and> VerifyNarinfo ed (es_pub s) info [sig]))) \<and>
         es_pub s' = es_pub s \<and> es_started s' \<le> es_started s + 1 \<and>
         es_next_id s' \<in> {es_next_id s, es_next_id s + 1, es_next_id s + 2}"
proof -
  have "set (map fst sigs) = set (map fst infos) \<and> (\<forall>k info. (k, info) \<in> set infos \<longrightarrow>
      (\<exists>sig. map_of sigs k = Some sig \<and> VerifyNarinfo ed (es_pub s) info [sig]))"
    if r: "res = Inr sigs" for sigs
    using external.sign_keys [OF _ assms(1) [unfolded r] assms(2)]
      external.signed_verifies [OF _ assms(1) [unfolded r] assms(2)] by blast
  with ExternalSign_ok [OF assms(1)] show ?thesis by (simp add: same_signer_pub)
qed

text \<open>
  The reused process 0 is dead when it is written to; process 1 answers with a member named twice, of
  which the later one is a signature.
\<close>

definition program_example :: signing_program where
  "program_example proc i fps =
     (if proc = 0 then None
      else Some \<lparr>sr_id = i,
                 sr_signatures = Some (map (\<lambda>(k, fp). (k, ''x'')) fps @
                   map (\<lambda>(k, fp). (k, ''c:'' @ b64_encode (replicate 64 0))) fps),
                 sr_error = ''''\<rparr>)"

definition signer_example :: ExternalSigner where
  "signer_example = \<lparr>es_public = ''c:'' @ b64_encode (replicate 32 0), es_name = ''c'', es_verify_key = replicate 32 0,
     es_proc = Some 0, es_started = 1, es_closed = False, es_next_id = 4\<rparr>"

lemma b64_encode_example: "b64_decode (b64_encode (replicate 64 0)) = Some (replicate 64 0)"
  by (rule b64_decode_encode)

lemma ExternalSign_example:
  "ExternalSign (\<lambda>key m sig. sig = replicate 64 0) program_example (\<lambda>_. True) False [(''k'', signed_example)] signer_example =
   (Inr [(''k'', ''c:'' @ b64_encode (replicate 64 0))], signer_example\<lparr>es_proc := Some 1, es_started := 2, es_next_id := 6\<rparr>)"
proof -
  obtain fp where fp: "GenerateFingerprint (Some signed_example) = Inr fp" using signed_example_facts(1) by blast
  let ?ed = "\<lambda>(key :: bytes) (m :: string) sig. sig = replicate 64 (0 :: 8 word)"
  let ?sig = "''c:'' @ b64_encode (replicate 64 0)"
  have c: "cut_str ?sig '':'' = (''c'', b64_encode (replicate 64 0), True)"
    using cut_char_append [of "CHR '':''" "''c''" "b64_encode (replicate 64 0)"] by simp
  have v: "verify_each ?ed (signer_example\<lparr>es_proc := p, es_started := n, es_next_id := i\<rparr>) [(''k'', fp)] [(''k'', ?sig)] = None"
    for p n i
    using c by (simp add: signer_example_def b64_encode_example)
  have r0: "sign_round ?ed program_example (\<lambda>_. True) False 0 [(''k'', fp)] signer_example =
      (Inl (), signer_example\<lparr>es_proc := None, es_next_id := 5\<rparr>)"
    by (simp add: sign_round_def exchange_def program_example_def signer_example_def drop_proc_def Let_def)
  have "exchange ?ed program_example (Suc 0) [(''k'', fp)] (signer_example\<lparr>es_proc := Some (Suc 0), es_started := 2, es_next_id := 5\<rparr>) =
      (Inr [(''k'', ?sig)], signer_example\<lparr>es_proc := Some (Suc 0), es_started := 2, es_next_id := 6\<rparr>)"
    using v [where p = "Some (Suc 0)" and n = 2 and i = 6]
    by (simp add: exchange_def program_example_def Let_def es_verify_def json_object_def)
  moreover have "signer_example\<lparr>es_proc := None, es_next_id := 5, es_proc := Some (es_started signer_example),
      es_started := es_started signer_example + 1\<rparr> =
      signer_example\<lparr>es_proc := Some (Suc 0), es_started := 2, es_next_id := 5\<rparr>"
    by (simp add: signer_example_def)
  ultimately have r1: "sign_round ?ed program_example (\<lambda>_. True) False (Suc 0) [(''k'', fp)]
      (signer_example\<lparr>es_proc := None, es_next_id := 5\<rparr>) =
      (Inr (Inr [(''k'', ?sig)]), signer_example\<lparr>es_proc := Some 1, es_started := 2, es_next_id := 6\<rparr>)"
    by (simp add: sign_round_def)
  show ?thesis
    using fp r0 r1
    by (simp add: ExternalSign_def sign_loop.simps [of _ _ _ _ 0] sign_loop.simps [of _ _ _ _ "Suc 0"])
       (simp add: signer_example_def)
qed

theorem ExternalSign_verified_witness:
  "\<exists>sigs s'. ExternalSign (\<lambda>key m sig. sig = replicate 64 0) program_example (\<lambda>_. True) False
       [(''k'', signed_example)] signer_example = (Inr sigs, s') \<and>
     (\<exists>sig. map_of sigs ''k'' = Some sig \<and>
        VerifyNarinfo (\<lambda>key m sig. sig = replicate 64 0) (es_pub signer_example) signed_example [sig])"
  using ExternalSign_verified [OF ExternalSign_example] ExternalSign_example by auto

end
