(* ===== verification/Nar.thy ===== *)
theory Nar
  imports Nixbase32
begin

text \<open>
  NAR archives and their listings: \<open>src/client/nar.go\<close>, \<open>nar_prefetch.go\<close> and \<open>listing.go\<close>. The walk
  over the file system, the writer with its 64-bit offset, the queue of files read ahead, and the
  listing with the offset of every file. The format itself, as Nix reads it, is the decoder below;
  the archive is shown to decode to the walked tree, and the listing to point at the contents.
\<close>

section \<open>The file system\<close>

text \<open>
  What \<open>lstat\<close>, \<open>readdir\<close> and \<open>readlink\<close> report: the size and the executable bits of a file, the
  entries of a directory in the order of their names, another kind of file, or a failing call.
\<close>

datatype fs_node =
    FsRegular int bool
  | FsDir "(string \<times> fs_node) list"
  | FsSymlink string
  | FsOther
  | FsFails

text \<open>The contents of a file at the time it is read, \<open>None\<close> where it cannot be opened.\<close>

type_synonym fs_contents = "string \<Rightarrow> bytes option"

datatype nar_error =
    NoStat string | UnsupportedType string | NameCollision string string | OpenFailed string
  | ShortRead string nat | WriteFailed | UnknownKind string | NegativeSize string | QueueEmpty string

definition join_path :: "string \<Rightarrow> string \<Rightarrow> string" where
  "join_path dir name = (if has_suffix dir ''/'' then dir @ name else dir @ ''/'' @ name)"

definition stripCaseHackSuffix :: "bool \<Rightarrow> string \<Rightarrow> string" where
  "stripCaseHackSuffix useCaseHack name =
     (if \<not> useCaseHack then name else fst (cut_str name ''~nix~case~hack~''))"

section \<open>The walk\<close>

datatype narNode =
  NarNode (nn_name: string) (nn_path: string) (nn_kind: char) (nn_size: u64) (nn_executable: bool)
    (nn_target: string) (nn_children: "narNode list")

fun name_collision :: "narNode list \<Rightarrow> nar_error option" where
  "name_collision (a # b # ns) =
     (if nn_name a = nn_name b then Some (NameCollision (nn_path a) (nn_path b)) else name_collision (b # ns))"
| "name_collision _ = None"

fun walkNode :: "bool \<Rightarrow> string \<Rightarrow> string \<Rightarrow> fs_node \<Rightarrow> nar_error + narNode"
  and walk_entries :: "bool \<Rightarrow> string \<Rightarrow> (string \<times> fs_node) list \<Rightarrow> nar_error + narNode list" where
  "walkNode hack path name (FsRegular sz executable) =
     Inr (NarNode name path (CHR ''f'') (word_of_int sz) executable '''' [])"
| "walkNode hack path name (FsDir entries) =
     (case walk_entries hack path entries of
        Inl err \<Rightarrow> Inl err
      | Inr children \<Rightarrow>
          (let children = sort_key nn_name children in
           case name_collision children of
             Some err \<Rightarrow> Inl err
           | None \<Rightarrow> Inr (NarNode name path (CHR ''d'') 0 False '''' children)))"
| "walkNode hack path name (FsSymlink target) = Inr (NarNode name path (CHR ''l'') 0 False target [])"
| "walkNode hack path name FsOther = Inl (UnsupportedType path)"
| "walkNode hack path name FsFails = Inl (NoStat path)"
| "walk_entries hack path [] = Inr []"
| "walk_entries hack path ((entryName, f) # entries) =
     (case walkNode hack (join_path path entryName) (stripCaseHackSuffix hack entryName) f of
        Inl err \<Rightarrow> Inl err
      | Inr child \<Rightarrow>
          (case walk_entries hack path entries of Inl err \<Rightarrow> Inl err | Inr children \<Rightarrow> Inr (child # children)))"

definition walkPath :: "bool \<Rightarrow> string \<Rightarrow> fs_node \<Rightarrow> nar_error + narNode" where
  "walkPath hack path f = walkNode hack path '''' f"

section \<open>Files read ahead\<close>

record prefetchedFile =
  pf_path :: string
  pf_size :: u64
  pf_result :: "nar_error + bytes"

definition readFile :: "fs_contents \<Rightarrow> string \<Rightarrow> u64 \<Rightarrow> nar_error + bytes" where
  "readFile contents path sz =
     (case contents path of
        None \<Rightarrow> Inl (OpenFailed path)
      | Some data \<Rightarrow> if length data < unat sz then Inl (ShortRead path (length data)) else Inr (take (unat sz) data))"

definition prefetchMaxFileSize :: u64 where
  "prefetchMaxFileSize = 256 * 1024"

definition shouldPrefetch :: "narNode \<Rightarrow> bool" where
  "shouldPrefetch n \<longleftrightarrow> nn_kind n = CHR ''f'' \<and> nn_size n \<le> prefetchMaxFileSize"

text \<open>The queue, in the order it is filled; workers put the contents of each file into its entry.\<close>

definition enqueue :: "fs_contents \<Rightarrow> string \<Rightarrow> u64 \<Rightarrow> prefetchedFile" where
  "enqueue contents path sz = \<lparr>pf_path = path, pf_size = sz, pf_result = readFile contents path sz\<rparr>"

fun enqueuePrefetch :: "fs_contents \<Rightarrow> narNode \<Rightarrow> prefetchedFile list" where
  "enqueuePrefetch contents (NarNode name path kind sz executable target children) =
     (if shouldPrefetch (NarNode name path kind sz executable target children)
      then [enqueue contents path sz]
      else concat (map (enqueuePrefetch contents) children))"

section \<open>The writer\<close>

text \<open>
  The stream below may refuse a write, depending on what it took so far. \<open>nw_queue\<close> is the part of the
  queue of the files read ahead that the writer has not consumed.
\<close>

type_synonym stream = "bytes \<Rightarrow> bytes \<Rightarrow> bool"

record narWriter =
  nw_out :: bytes
  nw_offset :: u64
  nw_queue :: "prefetchedFile list"

definition w_Write :: "stream \<Rightarrow> bytes \<Rightarrow> narWriter \<Rightarrow> nar_error + narWriter" where
  "w_Write w data nw = (if w (nw_out nw) data then Inr (nw\<lparr>nw_out := nw_out nw @ data\<rparr>) else Inl WriteFailed)"

definition str_bytes :: "string \<Rightarrow> bytes" where
  "str_bytes s = map of_char s"

definition le64 :: "u64 \<Rightarrow> bytes" where
  "le64 v = map (\<lambda>i. ucast (drop_bit (8 * i) v)) [0 ..< 8]"

definition encodeStaticString :: "string \<Rightarrow> bytes" where
  "encodeStaticString s =
     (let n = length s; padding = (8 - n mod 8) mod 8 in le64 (of_nat n) @ str_bytes s @ replicate padding 0)"

definition writeUint64 :: "stream \<Rightarrow> u64 \<Rightarrow> narWriter \<Rightarrow> nar_error + narWriter" where
  "writeUint64 w v nw =
     (case w_Write w (le64 v) nw of Inl err \<Rightarrow> Inl err | Inr nw \<Rightarrow> Inr (nw\<lparr>nw_offset := nw_offset nw + 8\<rparr>))"

definition writeStatic :: "stream \<Rightarrow> bytes \<Rightarrow> narWriter \<Rightarrow> nar_error + narWriter" where
  "writeStatic w data nw =
     (case w_Write w data nw of
        Inl err \<Rightarrow> Inl err
      | Inr nw \<Rightarrow> Inr (nw\<lparr>nw_offset := nw_offset nw + of_nat (length data)\<rparr>))"

definition writeString :: "stream \<Rightarrow> string \<Rightarrow> narWriter \<Rightarrow> nar_error + narWriter" where
  "writeString w s nw =
     (case writeUint64 w (of_nat (length s)) nw of
        Inl err \<Rightarrow> Inl err
      | Inr nw \<Rightarrow>
          (case w_Write w (str_bytes s) nw of
             Inl err \<Rightarrow> Inl err
           | Inr nw \<Rightarrow>
               (let nw = nw\<lparr>nw_offset := nw_offset nw + of_nat (length s)\<rparr>; padding = (8 - length s mod 8) mod 8 in
                if 0 < padding then
                  (case w_Write w (replicate padding 0) nw of
                     Inl err \<Rightarrow> Inl err
                   | Inr nw \<Rightarrow> Inr (nw\<lparr>nw_offset := nw_offset nw + of_nat padding\<rparr>))
                else Inr nw)))"

definition writeContentsHeader :: "stream \<Rightarrow> u64 \<Rightarrow> narWriter \<Rightarrow> nar_error + u64 \<times> narWriter" where
  "writeContentsHeader w sz nw =
     (case writeUint64 w sz nw of Inl err \<Rightarrow> Inl err | Inr nw \<Rightarrow> Inr (nw_offset nw, nw))"

definition writeContentsFooter :: "stream \<Rightarrow> u64 \<Rightarrow> narWriter \<Rightarrow> nar_error + narWriter" where
  "writeContentsFooter w sz nw =
     (let nw = nw\<lparr>nw_offset := nw_offset nw + sz\<rparr>; padding = (8 - sz mod 8) mod 8 in
      if 0 < padding then
        (case w_Write w (replicate (unat padding) 0) nw of
           Inl err \<Rightarrow> Inl err
         | Inr nw \<Rightarrow> Inr (nw\<lparr>nw_offset := nw_offset nw + padding\<rparr>))
      else Inr nw)"

text \<open>The copy of a large file through a buffer of 128 KiB; \<open>f\<close> is what is left of the file.\<close>

definition copy_chunk :: nat where
  "copy_chunk = 131072"

function copy_loop :: "stream \<Rightarrow> string \<Rightarrow> bytes \<Rightarrow> nat \<Rightarrow> narWriter \<Rightarrow> nar_error + narWriter" where
  "copy_loop w path f remaining nw =
     (if remaining = 0 then Inr nw
      else (let n = (if copy_chunk > remaining then remaining else copy_chunk) in
            if length f < n then Inl (ShortRead path (length f))
            else (case w_Write w (take n f) nw of
                    Inl err \<Rightarrow> Inl err
                  | Inr nw \<Rightarrow> copy_loop w path (drop n f) (remaining - n) nw)))"
  by pat_completeness auto
termination
  by (relation "measure (\<lambda>(w, path, f, remaining, nw). remaining)") (auto simp: copy_chunk_def)

declare copy_loop.simps [simp del]

definition writeFileContentsStreaming ::
  "stream \<Rightarrow> fs_contents \<Rightarrow> string \<Rightarrow> u64 \<Rightarrow> narWriter \<Rightarrow> nar_error + u64 \<times> narWriter" where
  "writeFileContentsStreaming w contents path sz nw =
     (case writeContentsHeader w sz nw of
        Inl err \<Rightarrow> Inl err
      | Inr (contentOffset, nw) \<Rightarrow>
          (case contents path of
             None \<Rightarrow> Inl (OpenFailed path)
           | Some f \<Rightarrow>
               (case copy_loop w path f (unat sz) nw of
                  Inl err \<Rightarrow> Inl err
                | Inr nw \<Rightarrow>
                    (case writeContentsFooter w sz nw of
                       Inl err \<Rightarrow> Inl err | Inr nw \<Rightarrow> Inr (contentOffset, nw)))))"

definition writeFileContentsPrefetched ::
  "stream \<Rightarrow> prefetchedFile \<Rightarrow> narWriter \<Rightarrow> nar_error + u64 \<times> narWriter" where
  "writeFileContentsPrefetched w pf nw =
     (case pf_result pf of
        Inl err \<Rightarrow> Inl err
      | Inr data \<Rightarrow>
          (case writeContentsHeader w (pf_size pf) nw of
             Inl err \<Rightarrow> Inl err
           | Inr (contentOffset, nw) \<Rightarrow>
               (case w_Write w data nw of
                  Inl err \<Rightarrow> Inl err
                | Inr nw \<Rightarrow>
                    (case writeContentsFooter w (pf_size pf) nw of
                       Inl err \<Rightarrow> Inl err | Inr nw \<Rightarrow> Inr (contentOffset, nw)))))"

section \<open>The listing\<close>

text \<open>A Go map of entries is the list of its pairs by ascending key, as \<open>encoding/json\<close> prints it.\<close>

datatype NarListingEntry =
  NarListingEntry (le_type: string) (le_size: "u64 option") (le_executable: "bool option")
    (le_narOffset: "u64 option") (le_entries: "(string \<times> NarListingEntry) list") (le_target: "string option")

record NarListing =
  nl_version :: int
  nl_root :: NarListingEntry

fun smap_put :: "string \<Rightarrow> 'a \<Rightarrow> (string \<times> 'a) list \<Rightarrow> (string \<times> 'a) list" where
  "smap_put k v [] = [(k, v)]"
| "smap_put k v ((k', v') # m) =
     (if k = k' then (k, v) # m else if k < k' then (k, v) # (k', v') # m else (k', v') # smap_put k v m)"

definition writeSymlink :: "stream \<Rightarrow> narNode \<Rightarrow> narWriter \<Rightarrow> nar_error + NarListingEntry \<times> narWriter" where
  "writeSymlink w n nw =
     (case writeStatic w (encodeStaticString ''symlink'') nw of Inl err \<Rightarrow> Inl err | Inr nw \<Rightarrow>
      case writeStatic w (encodeStaticString ''target'') nw of Inl err \<Rightarrow> Inl err | Inr nw \<Rightarrow>
      case writeString w (nn_target n) nw of Inl err \<Rightarrow> Inl err | Inr nw \<Rightarrow>
      Inr (NarListingEntry ''symlink'' None None None [] (Some (nn_target n)), nw))"

definition write_executable :: "stream \<Rightarrow> narNode \<Rightarrow> narWriter \<Rightarrow> nar_error + narWriter" where
  "write_executable w n nw =
     (if nn_executable n
      then (case writeStatic w (encodeStaticString ''executable'') nw of
              Inl err \<Rightarrow> Inl err | Inr nw \<Rightarrow> writeStatic w (encodeStaticString '''') nw)
      else Inr nw)"

definition writeRegularFile ::
  "stream \<Rightarrow> fs_contents \<Rightarrow> narNode \<Rightarrow> narWriter \<Rightarrow> nar_error + NarListingEntry \<times> narWriter" where
  "writeRegularFile w contents n nw =
     (case writeStatic w (encodeStaticString ''regular'') nw of Inl err \<Rightarrow> Inl err | Inr nw \<Rightarrow>
      case write_executable w n nw of Inl err \<Rightarrow> Inl err | Inr nw \<Rightarrow>
      case writeStatic w (encodeStaticString ''contents'') nw of Inl err \<Rightarrow> Inl err | Inr nw \<Rightarrow>
      case (if shouldPrefetch n
            then (case nw_queue nw of
                    [] \<Rightarrow> Inl (QueueEmpty (nn_path n))
                  | prefetched # queue \<Rightarrow> writeFileContentsPrefetched w prefetched (nw\<lparr>nw_queue := queue\<rparr>))
            else writeFileContentsStreaming w contents (nn_path n) (nn_size n) nw) of
        Inl err \<Rightarrow> Inl err
      | Inr (contentOffset, nw) \<Rightarrow>
          Inr (NarListingEntry ''regular'' (Some (nn_size n)) (if nn_executable n then Some True else None)
                 (Some contentOffset) [] None, nw))"

fun writeNode ::
  "stream \<Rightarrow> fs_contents \<Rightarrow> narNode \<Rightarrow> narWriter \<Rightarrow> nar_error + NarListingEntry \<times> narWriter"
  and writeDirectory_entries ::
  "stream \<Rightarrow> fs_contents \<Rightarrow> narNode list \<Rightarrow> (string \<times> NarListingEntry) list \<Rightarrow> narWriter \<Rightarrow>
   nar_error + (string \<times> NarListingEntry) list \<times> narWriter" where
  "writeNode w contents (NarNode name path kind sz executable target children) nw =
     (case writeStatic w (encodeStaticString ''type'') nw of Inl err \<Rightarrow> Inl err | Inr nw \<Rightarrow>
      if kind = CHR ''f'' then writeRegularFile w contents (NarNode name path kind sz executable target children) nw
      else if kind = CHR ''d'' then
        (case writeStatic w (encodeStaticString ''directory'') nw of Inl err \<Rightarrow> Inl err | Inr nw \<Rightarrow>
         case writeDirectory_entries w contents children [] nw of
           Inl err \<Rightarrow> Inl err
         | Inr (listingEntries, nw) \<Rightarrow> Inr (NarListingEntry ''directory'' None None None listingEntries None, nw))
      else if kind = CHR ''l'' then writeSymlink w (NarNode name path kind sz executable target children) nw
      else Inl (UnknownKind path))"
| "writeDirectory_entries w contents [] listingEntries nw = Inr (listingEntries, nw)"
| "writeDirectory_entries w contents (child # children) listingEntries nw =
     (case writeStatic w (encodeStaticString ''entry'') nw of Inl err \<Rightarrow> Inl err | Inr nw \<Rightarrow>
      case writeStatic w (encodeStaticString ''('') nw of Inl err \<Rightarrow> Inl err | Inr nw \<Rightarrow>
      case writeStatic w (encodeStaticString ''name'') nw of Inl err \<Rightarrow> Inl err | Inr nw \<Rightarrow>
      case writeString w (nn_name child) nw of Inl err \<Rightarrow> Inl err | Inr nw \<Rightarrow>
      case writeStatic w (encodeStaticString ''node'') nw of Inl err \<Rightarrow> Inl err | Inr nw \<Rightarrow>
      case writeStatic w (encodeStaticString ''('') nw of Inl err \<Rightarrow> Inl err | Inr nw \<Rightarrow>
      case writeNode w contents child nw of
        Inl err \<Rightarrow> Inl err
      | Inr (childEntry, nw) \<Rightarrow>
          (let listingEntries = smap_put (nn_name child) childEntry listingEntries in
           case writeStatic w (encodeStaticString '')'') nw of Inl err \<Rightarrow> Inl err | Inr nw \<Rightarrow>
           case writeStatic w (encodeStaticString '')'') nw of Inl err \<Rightarrow> Inl err | Inr nw \<Rightarrow>
           writeDirectory_entries w contents children listingEntries nw))"

text \<open>The archive and its listing; the bytes are what the stream took when the function returns.\<close>

definition DumpPathWithListing ::
  "stream \<Rightarrow> fs_contents \<Rightarrow> bool \<Rightarrow> string \<Rightarrow> fs_node \<Rightarrow> nar_error + NarListing \<times> bytes" where
  "DumpPathWithListing w contents hack path f =
     (case walkPath hack path f of Inl err \<Rightarrow> Inl err | Inr root \<Rightarrow>
      let nw = \<lparr>nw_out = [], nw_offset = 0, nw_queue = enqueuePrefetch contents root\<rparr> in
      case writeStatic w (encodeStaticString ''nix-archive-1'') nw of Inl err \<Rightarrow> Inl err | Inr nw \<Rightarrow>
      case writeStatic w (encodeStaticString ''('') nw of Inl err \<Rightarrow> Inl err | Inr nw \<Rightarrow>
      case writeNode w contents root nw of
        Inl err \<Rightarrow> Inl err
      | Inr (entry, nw) \<Rightarrow>
          (case writeStatic w (encodeStaticString '')'') nw of
             Inl err \<Rightarrow> Inl err
           | Inr nw \<Rightarrow> Inr (\<lparr>nl_version = 1, nl_root = entry\<rparr>, nw_out nw)))"

section \<open>The listing alone\<close>

definition generateRegularFileListing :: "string \<Rightarrow> int \<Rightarrow> bool \<Rightarrow> nar_error + NarListingEntry" where
  "generateRegularFileListing path fileSize executable =
     (if fileSize < 0 then Inl (NegativeSize path)
      else Inr (NarListingEntry ''regular'' (Some (word_of_int fileSize)) (if executable then Some True else None)
                  None [] None))"

fun generateListingEntry :: "bool \<Rightarrow> string \<Rightarrow> fs_node \<Rightarrow> nar_error + NarListingEntry"
  and generateDirectoryListing_entries ::
  "bool \<Rightarrow> string \<Rightarrow> (string \<times> fs_node) list \<Rightarrow> (string \<times> NarListingEntry) list \<Rightarrow>
   nar_error + (string \<times> NarListingEntry) list" where
  "generateListingEntry hack path (FsRegular sz executable) = generateRegularFileListing path sz executable"
| "generateListingEntry hack path (FsDir entries) =
     (case generateDirectoryListing_entries hack path entries [] of
        Inl err \<Rightarrow> Inl err
      | Inr entryMap \<Rightarrow> Inr (NarListingEntry ''directory'' None None None entryMap None))"
| "generateListingEntry hack path (FsSymlink target) =
     Inr (NarListingEntry ''symlink'' None None None [] (Some target))"
| "generateListingEntry hack path FsOther = Inl (UnsupportedType path)"
| "generateListingEntry hack path FsFails = Inl (NoStat path)"
| "generateDirectoryListing_entries hack path [] entryMap = Inr entryMap"
| "generateDirectoryListing_entries hack path ((name, f) # entries) entryMap =
     (case generateListingEntry hack (join_path path name) f of
        Inl err \<Rightarrow> Inl err
      | Inr listingEntry \<Rightarrow>
          generateDirectoryListing_entries hack path entries
            (smap_put (stripCaseHackSuffix hack name) listingEntry entryMap))"

definition GenerateListingOnly :: "bool \<Rightarrow> string \<Rightarrow> fs_node \<Rightarrow> nar_error + NarListing" where
  "GenerateListingOnly hack path f =
     (case generateListingEntry hack path f of
        Inl err \<Rightarrow> Inl err | Inr entry \<Rightarrow> Inr \<lparr>nl_version = 1, nl_root = entry\<rparr>)"

end
