(* ===== verification/NarFormat.thy ===== *)
theory NarFormat
  imports Nar
begin

text \<open>
  The NAR format as Nix reads it, and the correctness of the writer of \<open>src/client/nar.go\<close> and of the
  listings against it: an archive is a sequence of framed strings, the strings follow a grammar, and
  the entries of a directory come in ascending order of their names.
\<close>

section \<open>Codes that can be read from the front\<close>

fun decode_list :: "(bytes \<Rightarrow> ('a \<times> bytes) option) \<Rightarrow> nat \<Rightarrow> bytes \<Rightarrow> 'a list option" where
  "decode_list dec n [] = Some []"
| "decode_list dec 0 (b # bs) = None"
| "decode_list dec (Suc n) (b # bs) =
     (case dec (b # bs) of
        None \<Rightarrow> None
      | Some (a, rest) \<Rightarrow> (case decode_list dec n rest of None \<Rightarrow> None | Some as \<Rightarrow> Some (a # as)))"

locale prefix_code =
  fixes enc :: "'a \<Rightarrow> bytes" and dec :: "bytes \<Rightarrow> ('a \<times> bytes) option" and ok :: "'a \<Rightarrow> bool"
  assumes dec_enc: "ok a \<Longrightarrow> dec (enc a @ rest) = Some (a, rest)"
    and enc_not_Nil: "enc a \<noteq> []"
begin

lemma decode_concat:
  "\<forall>a \<in> set as. ok a \<Longrightarrow> length as \<le> n \<Longrightarrow> decode_list dec n (concat (map enc as)) = Some as"
proof (induction as arbitrary: n)
  case (Cons a as)
  then obtain m where m: "n = Suc m" "length as \<le> m" by (cases n) auto
  obtain b bs where b: "enc a @ concat (map enc as) = b # bs"
    using enc_not_Nil [of a] by (cases "enc a") auto
  have "dec (b # bs) = Some (a, concat (map enc as))"
    using dec_enc [of a "concat (map enc as)"] Cons.prems by (simp add: b)
  with Cons m show ?case by (simp add: b)
qed simp

lemma length_concat_enc: "length as \<le> length (concat (map enc as))"
proof (induction as)
  case (Cons a as)
  have "1 \<le> length (enc a)" using enc_not_Nil [of a] by (cases "enc a") auto
  with Cons show ?case by simp
qed simp

end

section \<open>Framed strings\<close>

definition nar_pad :: "nat \<Rightarrow> bytes" where
  "nar_pad n = replicate ((8 - n mod 8) mod 8) 0"

definition nar_frame :: "bytes \<Rightarrow> bytes" where
  "nar_frame b = le64 (of_nat (length b)) @ b @ nar_pad (length b)"

definition unframe :: "bytes \<Rightarrow> (bytes \<times> bytes) option" where
  "unframe bs =
     (let n = le_value (take 8 bs); rest = drop 8 bs; pad = nar_pad n in
      if length bs < 8 \<or> length rest < n \<or> \<not> take (length pad) (drop n rest) = pad then None
      else Some (take n rest, drop (n + length pad) rest))"

lemma length_le64 [simp]: "length (le64 v) = 8"
  by (simp add: le64_def)

lemma le_value_le64: "le_value (le64 v) = unat v"
proof (rule bit_eqI)
  fix k
  show "bit (le_value (le64 v)) k = bit (unat v) k"
  proof (cases "k < 64")
    case True
    then have "k div 8 < 8" by simp
    then show ?thesis by (simp add: bit_le_value le64_def bit_simps del: upt_Suc)
  next
    case False
    then show ?thesis using bit_imp_le_length [of v k] by (auto simp: bit_le_value bit_simps)
  qed
qed

lemma unframe_frame: "length b < 2 ^ 64 \<Longrightarrow> unframe (nar_frame b @ rest) = Some (b, rest)"
proof -
  assume "length b < 2 ^ 64"
  then have "le_value (le64 (of_nat (length b))) = length b"
    by (simp add: le_value_le64 unat_of_nat)
  then show ?thesis
    by (simp add: unframe_def nar_frame_def Let_def)
qed

interpretation framed: prefix_code nar_frame unframe "\<lambda>b. length b < 2 ^ 64"
  by unfold_locales (simp add: unframe_frame, simp add: nar_frame_def flip: length_0_conv)

definition unframes :: "bytes \<Rightarrow> bytes list option" where
  "unframes bs = decode_list unframe (length bs) bs"

lemma unframes_frames:
  "\<forall>t \<in> set ts. length t < 2 ^ 64 \<Longrightarrow> unframes (concat (map nar_frame ts)) = Some ts"
  unfolding unframes_def by (rule framed.decode_concat [OF _ framed.length_concat_enc])

section \<open>The grammar\<close>

datatype nar_tree =
    NRegular bool bytes
  | NDir "(string \<times> nar_tree) list"
  | NSymlink string

abbreviation tk :: "string \<Rightarrow> bytes" where
  "tk \<equiv> str_bytes"

definition bytes_str :: "bytes \<Rightarrow> string" where
  "bytes_str b = map (\<lambda>x. char_of (unat x)) b"

fun nar_body :: "nat \<Rightarrow> bytes list \<Rightarrow> (nar_tree \<times> bytes list) option"
  and nar_entries :: "nat \<Rightarrow> string option \<Rightarrow> bytes list \<Rightarrow> ((string \<times> nar_tree) list \<times> bytes list) option" where
  "nar_body 0 ts = None"
| "nar_body (Suc k) ts =
     (if take 3 ts = [tk ''type'', tk ''symlink'', tk ''target''] then
        (case drop 3 ts of target # ts \<Rightarrow> Some (NSymlink (bytes_str target), ts) | [] \<Rightarrow> None)
      else if take 2 ts = [tk ''type'', tk ''directory''] then
        (case nar_entries k None (drop 2 ts) of Some (es, ts) \<Rightarrow> Some (NDir es, ts) | None \<Rightarrow> None)
      else if take 3 ts = [tk ''type'', tk ''regular'', tk ''contents''] then
        (case drop 3 ts of data # ts \<Rightarrow> Some (NRegular False data, ts) | [] \<Rightarrow> None)
      else if take 5 ts = [tk ''type'', tk ''regular'', tk ''executable'', tk '''', tk ''contents''] then
        (case drop 5 ts of data # ts \<Rightarrow> Some (NRegular True data, ts) | [] \<Rightarrow> None)
      else None)"
| "nar_entries 0 prev ts = None"
| "nar_entries (Suc k) prev ts =
     (if take 3 ts = [tk ''entry'', tk ''('', tk ''name''] then
        (case drop 3 ts of
           nm # nd # op # ts \<Rightarrow>
             if nd = tk ''node'' \<and> op = tk ''('' \<and> (case prev of None \<Rightarrow> True | Some p \<Rightarrow> p < bytes_str nm) then
               (case nar_body k ts of
                  Some (t, cl # cl' # ts) \<Rightarrow>
                    if cl = tk '')'' \<and> cl' = tk '')'' then
                      (case nar_entries k (Some (bytes_str nm)) ts of
                         Some (es, ts) \<Rightarrow> Some ((bytes_str nm, t) # es, ts) | None \<Rightarrow> None)
                    else None
                | _ \<Rightarrow> None)
             else None
         | _ \<Rightarrow> None)
      else Some ([], ts))"

definition nar_decode :: "bytes \<Rightarrow> nar_tree option" where
  "nar_decode bs =
     (case unframes bs of
        Some (magic # op # ts) \<Rightarrow>
          if magic = tk ''nix-archive-1'' \<and> op = tk ''('' then
            (case nar_body (length ts) ts of
               Some (t, [cl]) \<Rightarrow> if cl = tk '')'' then Some t else None
             | _ \<Rightarrow> None)
          else None
      | _ \<Rightarrow> None)"

fun body_tokens :: "nar_tree \<Rightarrow> bytes list"
  and entry_tokens :: "(string \<times> nar_tree) list \<Rightarrow> bytes list" where
  "body_tokens (NRegular x data) =
     [tk ''type'', tk ''regular''] @ (if x then [tk ''executable'', tk ''''] else []) @ [tk ''contents'', data]"
| "body_tokens (NSymlink target) = [tk ''type'', tk ''symlink'', tk ''target'', tk target]"
| "body_tokens (NDir es) = [tk ''type'', tk ''directory''] @ entry_tokens es"
| "entry_tokens [] = []"
| "entry_tokens ((nm, t) # es) =
     [tk ''entry'', tk ''('', tk ''name'', tk nm, tk ''node'', tk ''(''] @ body_tokens t @ [tk '')'', tk '')''] @
     entry_tokens es"

fun ascending :: "string option \<Rightarrow> string list \<Rightarrow> bool" where
  "ascending prev [] \<longleftrightarrow> True"
| "ascending prev (x # xs) \<longleftrightarrow> (case prev of None \<Rightarrow> True | Some p \<Rightarrow> p < x) \<and> ascending (Some x) xs"

fun nar_sorted :: "nar_tree \<Rightarrow> bool"
  and nar_sorted_entries :: "string option \<Rightarrow> (string \<times> nar_tree) list \<Rightarrow> bool" where
  "nar_sorted (NRegular x data) \<longleftrightarrow> True"
| "nar_sorted (NSymlink target) \<longleftrightarrow> True"
| "nar_sorted (NDir es) \<longleftrightarrow> nar_sorted_entries None es"
| "nar_sorted_entries prev [] \<longleftrightarrow> True"
| "nar_sorted_entries prev ((nm, t) # es) \<longleftrightarrow>
     (case prev of None \<Rightarrow> True | Some p \<Rightarrow> p < nm) \<and> nar_sorted t \<and> nar_sorted_entries (Some nm) es"

lemma unat_of_char: "unat (of_char c :: 8 word) = of_char c"
proof -
  have "(of_char c :: 8 word) = of_nat (of_char c)" by (simp add: of_nat_of_char)
  then show ?thesis by (simp only: unat_of_nat) simp
qed

lemma bytes_str_tk [simp]: "bytes_str (tk s) = s"
  by (induction s) (simp_all add: bytes_str_def str_bytes_def unat_of_char)

lemma tk_inject [simp]: "tk s = tk t \<longleftrightarrow> s = t"
  by (metis bytes_str_tk)

lemma parse_tokens:
  "nar_sorted t \<Longrightarrow> length (body_tokens t) \<le> k \<Longrightarrow>
   nar_body k (body_tokens t @ tk '')'' # rest) = Some (t, tk '')'' # rest)"
  "nar_sorted_entries prev es \<Longrightarrow> length (entry_tokens es) < k \<Longrightarrow>
   nar_entries k prev (entry_tokens es @ tk '')'' # rest) = Some (es, tk '')'' # rest)"
proof (induction t and es arbitrary: k rest and k prev rest rule: body_tokens_entry_tokens.induct)
  case (1 x data)
  then show ?case by (cases k) auto
next
  case (2 target)
  then show ?case by (cases k) auto
next
  case (3 es)
  then obtain k' where k: "k = Suc k'" by (cases k) auto
  with 3 have "nar_entries k' None (entry_tokens es @ tk '')'' # rest) = Some (es, tk '')'' # rest)" by simp
  with k show ?case by simp
next
  case 4
  then show ?case by (cases k) auto
next
  case (5 nm t es)
  then obtain k' where k: "k = Suc k'" by (cases k) auto
  with 5 have "nar_body k' (body_tokens t @ tk '')'' # tk '')'' # entry_tokens es @ tk '')'' # rest) =
      Some (t, tk '')'' # tk '')'' # entry_tokens es @ tk '')'' # rest)" by simp
  moreover have "nar_entries k' (Some nm) (entry_tokens es @ tk '')'' # rest) = Some (es, tk '')'' # rest)"
    using 5 k by simp
  ultimately show ?case using 5 k by (cases prev) simp_all
qed

definition nar_tokens :: "nar_tree \<Rightarrow> bytes list" where
  "nar_tokens t = [tk ''nix-archive-1'', tk ''(''] @ body_tokens t @ [tk '')'']"

lemma nar_decode_tokens:
  assumes "nar_sorted t" and "\<forall>b \<in> set (nar_tokens t). length b < 2 ^ 64"
  shows "nar_decode (concat (map nar_frame (nar_tokens t))) = Some t"
  using parse_tokens(1) [OF assms(1), of "Suc (length (body_tokens t))" "[]"]
  by (simp add: nar_decode_def unframes_frames [OF assms(2)]) (simp add: nar_tokens_def)

section \<open>What the writer writes\<close>

text \<open>Taking \<open>d\<close> into the stream, with the offset that goes along.\<close>

definition put :: "bytes \<Rightarrow> narWriter \<Rightarrow> narWriter" where
  "put d nw = nw\<lparr>nw_out := nw_out nw @ d, nw_offset := nw_offset nw + of_nat (length d)\<rparr>"

lemma put_put [simp]: "put b (put a nw) = put (a @ b) nw"
  by (simp add: put_def add.assoc)

lemma put_sel [simp]: "nw_out (put d nw) = nw_out nw @ d" "nw_queue (put d nw) = nw_queue nw"
    "nw_offset (put d nw) = nw_offset nw + of_nat (length d)"
  by (simp_all add: put_def)

lemma put_queue [simp]: "(put d nw)\<lparr>nw_queue := q\<rparr> = put d (nw\<lparr>nw_queue := q\<rparr>)"
  by (simp add: put_def)

lemma put_Nil [simp]: "put [] nw = nw"
  by (simp add: put_def)

lemma encodeStaticString_frame: "encodeStaticString s = nar_frame (tk s)"
  by (simp add: encodeStaticString_def nar_frame_def nar_pad_def str_bytes_def Let_def)

lemma writeStatic_ok: "writeStatic w d nw = Inr nw' \<Longrightarrow> nw' = put d nw"
  by (auto simp: writeStatic_def w_Write_def put_def split: sum.splits if_splits)

lemma writeString_ok: "writeString w s nw = Inr nw' \<Longrightarrow> nw' = put (nar_frame (tk s)) nw"
  by (auto simp: writeString_def writeUint64_def w_Write_def put_def nar_frame_def nar_pad_def str_bytes_def Let_def
      split: sum.splits if_splits)

lemma copy_loop_ok:
  "copy_loop w path f n nw = Inr nw' \<Longrightarrow> n \<le> length f \<and> nw' = nw\<lparr>nw_out := nw_out nw @ take n f\<rparr>"
proof (induction w path f n nw rule: copy_loop.induct)
  case (1 w path f n nw)
  show ?case
  proof (cases "n = 0")
    case True
    with "1.prems" show ?thesis by (simp add: copy_loop.simps)
  next
    case False
    define m where "m = (if copy_chunk > n then n else copy_chunk)"
    have m: "m \<le> n" "m \<le> length f" "w (nw_out nw) (take m f)"
      and rest: "copy_loop w path (drop m f) (n - m) (nw\<lparr>nw_out := nw_out nw @ take m f\<rparr>) = Inr nw'"
      using "1.prems" False
      by (auto simp: copy_loop.simps [of w path f n] m_def w_Write_def Let_def split: if_splits)
    have "n - m \<le> length (drop m f) \<and>
        nw' = nw\<lparr>nw_out := nw_out nw @ take m f, nw_out := (nw_out nw @ take m f) @ take (n - m) (drop m f)\<rparr>"
      using "1.IH" [OF False m_def _ _ rest] m
      by (auto simp: m_def w_Write_def)
    moreover have "take m f @ take (n - m) (drop m f) = take n f"
      using m by (metis take_add le_add_diff_inverse)
    ultimately show ?thesis using m by (intro conjI) (linarith | simp)+
  qed
qed

lemma pad_word:
  assumes "length d = unat (sz :: u64)"
  shows "replicate (unat ((8 - sz mod 8) mod 8)) (0 :: 8 word) = nar_pad (length d)"
proof -
  have "unat ((8 - sz mod 8) mod 8) = (8 - unat sz mod 8) mod 8"
  proof -
    have "unat (sz mod 8) \<le> unat (8 :: u64)" by (simp add: unat_mod)
    then have "unat (8 - sz mod 8) = 8 - unat sz mod 8" by (simp add: unat_sub word_le_nat_alt unat_mod)
    then show ?thesis by (simp add: unat_mod)
  qed
  with assms show ?thesis by (simp add: nar_pad_def)
qed

text \<open>The frame of a file, and the offset at which its contents begin.\<close>

lemma contents_ok:
  assumes "length d = unat sz" and "writeContentsHeader w sz nw = Inr (off, nw1)"
    and "writeContentsFooter w sz (nw1\<lparr>nw_out := nw_out nw1 @ d\<rparr>) = Inr nw'"
  shows "nw' = put (nar_frame d) nw \<and> off = nw_offset nw + 8"
proof -
  have sz: "of_nat (length d) = sz" using assms(1) by simp
  have nw1: "nw1 = put (le64 sz) nw" and off: "off = nw_offset nw + 8"
    using assms(2) by (auto simp: writeContentsHeader_def writeUint64_def w_Write_def put_def split: sum.splits if_splits)
  have "nw' = put (nar_pad (length d)) (put d nw1)"
    using assms(3) pad_word [OF assms(1)]
    by (auto simp: writeContentsFooter_def w_Write_def put_def sz Let_def word_gt_0 simp flip: pad_word [OF assms(1)]
        split: sum.splits if_splits)
  with nw1 off show ?thesis by (simp add: nar_frame_def sz)
qed

section \<open>The tree that is archived\<close>

fun tree_of :: "fs_contents \<Rightarrow> narNode \<Rightarrow> nar_tree" where
  "tree_of contents (NarNode name path kind sz executable target children) =
     (if kind = CHR ''f'' then NRegular executable (take (unat sz) (the (contents path)))
      else if kind = CHR ''d'' then NDir (map (\<lambda>c. (nn_name c, tree_of contents c)) children)
      else NSymlink target)"

fun node_ok :: "narNode \<Rightarrow> bool" where
  "node_ok (NarNode name path kind sz executable target children) \<longleftrightarrow>
     kind \<in> {CHR ''f'', CHR ''d'', CHR ''l''} \<and> (kind \<noteq> CHR ''d'' \<longrightarrow> children = []) \<and>
     ascending None (map nn_name children) \<and> (\<forall>c \<in> set children. node_ok c)"

fun listing_ok :: "bytes \<Rightarrow> nar_tree \<Rightarrow> NarListingEntry \<Rightarrow> bool"
  and listing_ok_entries :: "bytes \<Rightarrow> (string \<times> nar_tree) list \<Rightarrow> (string \<times> NarListingEntry) list \<Rightarrow> bool" where
  "listing_ok nar (NRegular x data) e \<longleftrightarrow>
     le_type e = ''regular'' \<and> le_size e = Some (of_nat (length data)) \<and>
     le_executable e = (if x then Some True else None) \<and> le_entries e = [] \<and> le_target e = None \<and>
     (case le_narOffset e of
        None \<Rightarrow> False
      | Some off \<Rightarrow> unat off + length data \<le> length nar \<and> take (length data) (drop (unat off) nar) = data)"
| "listing_ok nar (NDir es) e \<longleftrightarrow>
     le_type e = ''directory'' \<and> le_size e = None \<and> le_executable e = None \<and> le_narOffset e = None \<and>
     le_target e = None \<and> listing_ok_entries nar es (le_entries e)"
| "listing_ok nar (NSymlink target) e \<longleftrightarrow>
     e = NarListingEntry ''symlink'' None None None [] (Some target)"
| "listing_ok_entries nar [] es' \<longleftrightarrow> es' = []"
| "listing_ok_entries nar ((nm, t) # es) es' \<longleftrightarrow>
     (case es' of [] \<Rightarrow> False | (nm', e) # es'' \<Rightarrow> nm' = nm \<and> listing_ok nar t e \<and> listing_ok_entries nar es es'')"

lemma listing_ok_append:
  "listing_ok nar t e \<Longrightarrow> listing_ok (nar @ nar2) t e"
  "listing_ok_entries nar es es' \<Longrightarrow> listing_ok_entries (nar @ nar2) es es'"
  by (induction nar t e and nar es es' rule: listing_ok_listing_ok_entries.induct)
    (auto split: option.splits list.splits)

definition frames :: "bytes list \<Rightarrow> bytes" where
  "frames ts = concat (map nar_frame ts)"

lemma frames_simps: "frames [] = []" "frames (t # ts) = nar_frame t @ frames ts" "frames (ts @ us) = frames ts @ frames us"
  by (simp_all add: frames_def)

lemma smap_put_last: "\<forall>k' \<in> fst ` set m. k' < k \<Longrightarrow> smap_put k v m = m @ [(k, v)]"
  by (induction m) (auto simp: order.strict_iff_order)

lemma readFile_ok:
  "readFile contents path sz = Inr d \<Longrightarrow> length d = unat sz \<and> d = take (unat sz) (the (contents path))"
  by (auto simp: readFile_def split: option.splits if_splits)

lemma prefetched_ok:
  assumes "writeFileContentsPrefetched w (enqueue contents path sz) nw = Inr (off, nw')"
  shows "length (take (unat sz) (the (contents path))) = unat sz \<and>
         nw' = put (nar_frame (take (unat sz) (the (contents path)))) nw \<and> off = nw_offset nw + 8"
proof -
  obtain d nw1 where d: "readFile contents path sz = Inr d" "writeContentsHeader w sz nw = Inr (off, nw1)"
    "writeContentsFooter w sz (nw1\<lparr>nw_out := nw_out nw1 @ d\<rparr>) = Inr nw'"
    using assms by (auto simp: writeFileContentsPrefetched_def enqueue_def w_Write_def split: sum.splits if_splits)
  from readFile_ok [OF d(1)] have l: "length d = unat sz" "take (unat sz) (the (contents path)) = d" by blast+
  from contents_ok [OF l(1) d(2,3)] l(1) show ?thesis unfolding l(2) by blast
qed

lemma streamed_ok:
  assumes "writeFileContentsStreaming w contents path sz nw = Inr (off, nw')"
  shows "length (take (unat sz) (the (contents path))) = unat sz \<and>
         nw' = put (nar_frame (take (unat sz) (the (contents path)))) nw \<and> off = nw_offset nw + 8"
proof -
  obtain f nw1 nw2 where f: "contents path = Some f" and h: "writeContentsHeader w sz nw = Inr (off, nw1)"
    and c: "copy_loop w path f (unat sz) nw1 = Inr nw2" and t: "writeContentsFooter w sz nw2 = Inr nw'"
    using assms by (auto simp: writeFileContentsStreaming_def split: sum.splits option.splits)
  from copy_loop_ok [OF c] have "unat sz \<le> length f" "nw2 = nw1\<lparr>nw_out := nw_out nw1 @ take (unat sz) f\<rparr>" by auto
  with contents_ok [OF _ h, of "take (unat sz) f" nw'] t f show ?thesis by simp
qed

text \<open>What precedes the contents of a file.\<close>

definition file_head :: "bool \<Rightarrow> bytes list" where
  "file_head x = [tk ''regular''] @ (if x then [tk ''executable'', tk ''''] else []) @ [tk ''contents'']"

lemma writeRegularFile_ok:
  assumes "writeRegularFile w contents n nw = Inr (e, nw')" and "nn_kind n = CHR ''f''"
    and "nn_children n = []" and "nw_queue nw = enqueuePrefetch contents n @ q"
  defines "d \<equiv> take (unat (nn_size n)) (the (contents (nn_path n)))"
  defines "pre \<equiv> frames (file_head (nn_executable n))"
  shows "length d = unat (nn_size n) \<and> nw' = put (pre @ nar_frame d) (nw\<lparr>nw_queue := q\<rparr>) \<and>
         e = NarListingEntry ''regular'' (Some (nn_size n)) (if nn_executable n then Some True else None)
               (Some (nw_offset nw + of_nat (length pre) + 8)) [] None"
proof -
  obtain nw0 nw0' nw1 off where "writeStatic w (encodeStaticString ''regular'') nw = Inr nw0"
      "write_executable w n nw0 = Inr nw0'"
      "writeStatic w (encodeStaticString ''contents'') nw0' = Inr nw1"
    and c: "(if shouldPrefetch n
             then (case nw_queue nw1 of
                    [] \<Rightarrow> Inl (QueueEmpty (nn_path n))
                  | prefetched # queue \<Rightarrow> writeFileContentsPrefetched w prefetched (nw1\<lparr>nw_queue := queue\<rparr>))
             else writeFileContentsStreaming w contents (nn_path n) (nn_size n) nw1) = Inr (off, nw')"
    and e: "e = NarListingEntry ''regular'' (Some (nn_size n)) (if nn_executable n then Some True else None)
               (Some off) [] None"
    using assms(1) by (simp add: writeRegularFile_def split: sum.split_asm prod.split_asm)
  then have nw1: "nw1 = put pre nw"
    by (auto simp: write_executable_def pre_def file_head_def frames_simps encodeStaticString_frame
        split: sum.splits if_splits dest!: writeStatic_ok)
  have q: "nw_queue nw1 = (if shouldPrefetch n then enqueue contents (nn_path n) (nn_size n) # q else q)"
    using assms(3,4) by (cases n) (auto simp: nw1)
  show ?thesis
  proof (cases "shouldPrefetch n")
    case True
    then have "writeFileContentsPrefetched w (enqueue contents (nn_path n) (nn_size n)) (nw1\<lparr>nw_queue := q\<rparr>) = Inr (off, nw')"
      using c q by simp
    from prefetched_ok [OF this] show ?thesis by (simp add: d_def nw1 e)
  next
    case False
    then have "writeFileContentsStreaming w contents (nn_path n) (nn_size n) nw1 = Inr (off, nw')" using c by simp
    moreover have "nw\<lparr>nw_queue := q\<rparr> = nw" using False q nw1 by simp
    ultimately show ?thesis using streamed_ok [of w contents "nn_path n" "nn_size n" nw1 off nw']
      by (simp add: d_def nw1 e)
  qed
qed

section \<open>The writer is correct\<close>

lemma length_nar_frame: "length (nar_frame b) = 8 + length b + length (nar_pad (length b))"
  by (simp add: nar_frame_def)

lemma unat_of_nat_less: "m < 2 ^ 64 \<Longrightarrow> unat (of_nat m :: u64) = m"
  by (simp add: unat_of_nat take_bit_nat_eq_self)

lemma drop_contents:
  "take (length d) (drop (length a + 8) (a @ nar_frame d)) = d"
  by (simp add: nar_frame_def)

text \<open>Every file of the node could be read up to the size of the walk.\<close>

fun read_in_full :: "fs_contents \<Rightarrow> narNode \<Rightarrow> bool" where
  "read_in_full contents (NarNode name path kind sz executable target children) \<longleftrightarrow>
     (kind = CHR ''f'' \<longrightarrow> length (take (unat sz) (the (contents path))) = unat sz) \<and>
     (\<forall>c \<in> set children. read_in_full contents c)"

text \<open>
  In every state whose offset counts the bytes written, with the files of the node next in the queue,
  a node that is written appends the frames of its tokens, takes its files from the queue, and
  returns a listing that is right about the stream.
\<close>

lemma writeNode_ok:
  "writeNode w contents n nw = Inr (e, nw') \<Longrightarrow> node_ok n \<Longrightarrow>
   nw_queue nw = enqueuePrefetch contents n @ q \<Longrightarrow> nw_offset nw = of_nat (length (nw_out nw)) \<Longrightarrow>
   nw' = put (frames (body_tokens (tree_of contents n))) (nw\<lparr>nw_queue := q\<rparr>) \<and> read_in_full contents n \<and>
   (length (nw_out nw') < 2 ^ 64 \<longrightarrow> listing_ok (nw_out nw') (tree_of contents n) e)"
  "writeDirectory_entries w contents children acc nw = Inr (es, nw') \<Longrightarrow> (\<forall>c \<in> set children. node_ok c) \<Longrightarrow>
   ascending prev (map nn_name children) \<Longrightarrow> (\<forall>k \<in> fst ` set acc. case prev of None \<Rightarrow> False | Some p \<Rightarrow> k \<le> p) \<Longrightarrow>
   nw_queue nw = concat (map (enqueuePrefetch contents) children) @ q \<Longrightarrow>
   nw_offset nw = of_nat (length (nw_out nw)) \<Longrightarrow>
   nw' = put (frames (entry_tokens (map (\<lambda>c. (nn_name c, tree_of contents c)) children))) (nw\<lparr>nw_queue := q\<rparr>) \<and>
   (\<forall>c \<in> set children. read_in_full contents c) \<and>
   (\<exists>es'. es = acc @ es' \<and>
      (length (nw_out nw') < 2 ^ 64 \<longrightarrow>
       listing_ok_entries (nw_out nw') (map (\<lambda>c. (nn_name c, tree_of contents c)) children) es'))"
proof (induction w contents n nw and w contents children acc nw arbitrary: e nw' q and es nw' prev q
    rule: writeNode_writeDirectory_entries.induct)
  case (1 w contents name path kind sz executable target children nw)
  let ?n = "NarNode name path kind sz executable target children"
  obtain nw1 where nw1: "writeStatic w (encodeStaticString ''type'') nw = Inr nw1"
    using "1.prems"(1) by (auto split: sum.splits)
  then have n1: "nw1 = put (nar_frame (tk ''type'')) nw" by (auto dest: writeStatic_ok simp: encodeStaticString_frame)
  from "1.prems"(2) consider (f) "kind = CHR ''f''" "children = []" | (d) "kind = CHR ''d''"
    | (l) "kind = CHR ''l''" "children = []" by auto
  then show ?case
  proof cases
    case f
    have "writeRegularFile w contents ?n nw1 = Inr (e, nw')" using "1.prems"(1) nw1 f by simp
    from writeRegularFile_ok [OF this, of q] "1.prems"(3) f
    have len: "length (take (unat sz) (the (contents path))) = unat sz"
      and nw': "nw' = put (frames (body_tokens (tree_of contents ?n))) (nw\<lparr>nw_queue := q\<rparr>)"
      and e: "e = NarListingEntry ''regular'' (Some sz) (if executable then Some True else None)
          (Some (nw_offset nw1 + of_nat (length (frames (file_head executable))) + 8)) [] None"
      by (simp_all add: n1 frames_simps file_head_def)
    have off: "nw_offset nw1 + of_nat (length (frames (file_head executable))) + 8 =
        of_nat (length (nw_out nw @ nar_frame (tk ''type'') @ frames (file_head executable)) + 8)"
      by (simp add: n1 "1.prems"(4))
    have out: "nw_out nw' = (nw_out nw @ nar_frame (tk ''type'') @ frames (file_head executable)) @
        nar_frame (take (unat sz) (the (contents path)))"
      using f by (simp add: nw' frames_simps file_head_def)
    have "listing_ok (nw_out nw') (tree_of contents ?n) e" if "length (nw_out nw') < 2 ^ 64"
    proof -
      let ?a = "nw_out nw @ nar_frame (tk ''type'') @ frames (file_head executable)"
      have "unat (of_nat (length ?a + 8) :: u64) = length ?a + 8"
        by (rule unat_of_nat_less) (use that in \<open>simp add: out length_nar_frame\<close>)
      moreover have "length ?a + 8 + unat sz \<le> length (nw_out nw')"
        unfolding out using len by (simp add: length_nar_frame)
      ultimately show ?thesis
        using f drop_contents [of "take (unat sz) (the (contents path))" ?a] len
        by (simp only: tree_of.simps listing_ok.simps e off if_True refl NarListingEntry.sel out option.case simp_thms)
           simp
    qed
    with nw' f len show ?thesis by simp
  next
    case l
    then have "writeSymlink w ?n nw1 = Inr (e, nw')" using "1.prems"(1) nw1 by simp
    then have "nw' = put (frames (body_tokens (tree_of contents ?n))) nw \<and> e = NarListingEntry ''symlink'' None None None [] (Some target)"
      using l by (auto simp: writeSymlink_def n1 frames_simps encodeStaticString_frame split: sum.splits
          dest!: writeStatic_ok writeString_ok)
    moreover have "nw\<lparr>nw_queue := q\<rparr> = nw" using "1.prems"(3) l by (simp add: shouldPrefetch_def)
    ultimately show ?thesis using l by simp
  next
    case d
    obtain nw2 les where nw2: "writeStatic w (encodeStaticString ''directory'') nw1 = Inr nw2"
      and w2: "writeDirectory_entries w contents children [] nw2 = Inr (les, nw')"
      and e: "e = NarListingEntry ''directory'' None None None les None"
      using "1.prems"(1) nw1 d by (auto split: sum.splits)
    have n2: "nw2 = put (nar_frame (tk ''type'') @ nar_frame (tk ''directory'')) nw"
      using nw2 by (auto dest!: writeStatic_ok simp: encodeStaticString_frame n1)

    have ih: "nw' = put (frames (entry_tokens (map (\<lambda>c. (nn_name c, tree_of contents c)) children))) (nw2\<lparr>nw_queue := q\<rparr>)"
      "length (nw_out nw') < 2 ^ 64 \<longrightarrow>
       listing_ok_entries (nw_out nw') (map (\<lambda>c. (nn_name c, tree_of contents c)) children) les"
      "\<forall>c \<in> set children. read_in_full contents c"
      using "1.IH" [OF nw1 _ _ nw2 w2, of None q] d "1.prems"(2,3,4) by (auto simp: n2 shouldPrefetch_def)
    show ?thesis using d ih by (simp add: n2 frames_simps e)
  qed
next
  case (2 w contents acc nw)
  then show ?case by (simp add: frames_simps)
next
  case (3 w contents child children acc nw)
  let ?open = "[tk ''entry'', tk ''('', tk ''name'', tk (nn_name child), tk ''node'', tk ''('']"
  obtain nw1 nw2 nw3 nw4 nw5 nw6 ce nw7 nw8 nw9
    where w1: "writeStatic w (encodeStaticString ''entry'') nw = Inr nw1"
      and w2: "writeStatic w (encodeStaticString ''('') nw1 = Inr nw2"
      and w3: "writeStatic w (encodeStaticString ''name'') nw2 = Inr nw3"
      and w4: "writeString w (nn_name child) nw3 = Inr nw4"
      and w5: "writeStatic w (encodeStaticString ''node'') nw4 = Inr nw5"
      and w6: "writeStatic w (encodeStaticString ''('') nw5 = Inr nw6"
      and w7: "writeNode w contents child nw6 = Inr (ce, nw7)"
      and w8: "writeStatic w (encodeStaticString '')'') nw7 = Inr nw8"
      and w9: "writeStatic w (encodeStaticString '')'') nw8 = Inr nw9"
      and rest: "writeDirectory_entries w contents children (smap_put (nn_name child) ce acc) nw9 = Inr (es, nw')"
    using "3.prems"(1) by (auto split: sum.splits)
  have n6: "nw6 = put (frames ?open) nw"
    using w1 w2 w3 w4 w5 w6 by (auto dest!: writeStatic_ok writeString_ok simp: encodeStaticString_frame frames_simps)
  let ?q = "concat (map (enqueuePrefetch contents) children) @ q"
  let ?t = "tree_of contents child"
  have "nw7 = put (frames (body_tokens ?t)) (nw6\<lparr>nw_queue := ?q\<rparr>) \<and> read_in_full contents child \<and>
    (length (nw_out nw7) < 2 ^ 64 \<longrightarrow> listing_ok (nw_out nw7) ?t ce)"
    by (rule "3.IH"(1) [OF w1 w2 w3 w4 w5 w6 w7]) (use "3.prems"(2,5,6) in \<open>simp_all add: n6\<close>)
  then have child: "nw7 = put (frames (body_tokens ?t)) (nw6\<lparr>nw_queue := ?q\<rparr>)"
    "length (nw_out nw7) < 2 ^ 64 \<longrightarrow> listing_ok (nw_out nw7) ?t ce" "read_in_full contents child" by blast+
  have n9: "nw9 = put (frames (?open @ body_tokens ?t @ [tk '')'', tk '')''])) (nw\<lparr>nw_queue := ?q\<rparr>)"
    using w8 w9 by (auto dest!: writeStatic_ok simp: encodeStaticString_frame frames_simps child(1) n6)
  have acc: "smap_put (nn_name child) ce acc = acc @ [(nn_name child, ce)]"
    using "3.prems"(3,4) by (intro smap_put_last) (auto split: option.splits)
  have after: "nw' = put (frames (entry_tokens (map (\<lambda>c. (nn_name c, tree_of contents c)) children))) (nw9\<lparr>nw_queue := q\<rparr>) \<and>
   (\<forall>c \<in> set children. read_in_full contents c) \<and>
   (\<exists>es'. es = smap_put (nn_name child) ce acc @ es' \<and>
      (length (nw_out nw') < 2 ^ 64 \<longrightarrow>
       listing_ok_entries (nw_out nw') (map (\<lambda>c. (nn_name c, tree_of contents c)) children) es'))"
  proof (rule "3.IH"(2) [OF w1 w2 w3 w4 w5 w6 w7 refl refl w8 w9 rest])
    show "ascending (Some (nn_name child)) (map nn_name children)" using "3.prems"(3) by simp
  qed (use "3.prems" in \<open>auto simp: acc n9 split: option.splits\<close>)
  then obtain es' where es: "es = acc @ (nn_name child, ce) # es'"
    and les: "length (nw_out nw') < 2 ^ 64 \<longrightarrow>
       listing_ok_entries (nw_out nw') (map (\<lambda>c. (nn_name c, tree_of contents c)) children) es'"
    unfolding acc by auto
  have nw': "nw' = put (frames (entry_tokens (map (\<lambda>c. (nn_name c, tree_of contents c)) (child # children)))) (nw\<lparr>nw_queue := q\<rparr>)"
    using after by (simp add: n9 frames_simps)
  have "\<exists>ext. nw_out nw' = nw_out nw7 @ ext"
    unfolding nw' child(1) n6 by (simp add: frames_simps)
  with child(2) les have "length (nw_out nw') < 2 ^ 64 \<longrightarrow>
       listing_ok_entries (nw_out nw') (map (\<lambda>c. (nn_name c, tree_of contents c)) (child # children)) ((nn_name child, ce) # es')"
    by (auto intro: listing_ok_append(1))
  with nw' es child(3) after show ?case by auto
qed

section \<open>The walk\<close>

text \<open>
  The tree at a path, with the contents of its files up to the size \<open>lstat\<close> reported, and its entries by
  ascending name in the archive. What cannot be archived has no tree; the clauses are never reached.
\<close>

fun fs_tree :: "fs_contents \<Rightarrow> bool \<Rightarrow> string \<Rightarrow> fs_node \<Rightarrow> nar_tree"
  and fs_entries :: "fs_contents \<Rightarrow> bool \<Rightarrow> string \<Rightarrow> (string \<times> fs_node) list \<Rightarrow> (string \<times> nar_tree) list" where
  "fs_tree contents hack path (FsRegular sz x) =
     NRegular x (take (unat (word_of_int sz :: u64)) (the (contents path)))"
| "fs_tree contents hack path (FsDir es) = NDir (sort_key fst (fs_entries contents hack path es))"
| "fs_tree contents hack path (FsSymlink target) = NSymlink target"
| "fs_tree contents hack path FsOther = NDir []"
| "fs_tree contents hack path FsFails = NDir []"
| "fs_entries contents hack path [] = []"
| "fs_entries contents hack path ((nm, f) # es) =
     (stripCaseHackSuffix hack nm, fs_tree contents hack (join_path path nm) f) # fs_entries contents hack path es"

lemma map_insort_key: "map g (insort_key (\<lambda>x. k (g x)) x xs) = insort_key k (g x) (map g xs)"
  by (induction xs) auto

lemma map_sort_key: "map g (sort_key (\<lambda>x. k (g x)) xs) = sort_key k (map g xs)"
  by (induction xs) (simp_all add: map_insort_key)

lemma name_collision_ascending:
  "sorted (map nn_name ns) \<Longrightarrow> name_collision ns = None \<Longrightarrow>
   (\<forall>n \<in> set (take 1 ns). case prev of None \<Rightarrow> True | Some p \<Rightarrow> p < nn_name n) \<Longrightarrow>
   ascending prev (map nn_name ns)"
proof (induction ns arbitrary: prev rule: name_collision.induct)
  case (1 a b ns)
  then have "nn_name a < nn_name b" by (auto simp: order.strict_iff_order split: if_splits)
  moreover have "ascending (Some (nn_name a)) (map nn_name (b # ns))"
    by (rule "1.IH") (use "1.prems" \<open>nn_name a < nn_name b\<close> in \<open>auto split: if_splits\<close>)
  ultimately show ?case using "1.prems"(3) by simp
qed auto

lemma walkNode_ok:
  "walkNode hack path name f = Inr n \<Longrightarrow>
   node_ok n \<and> nn_name n = name \<and> tree_of contents n = fs_tree contents hack path f"
  "walk_entries hack path es = Inr cs \<Longrightarrow>
   (\<forall>c \<in> set cs. node_ok c) \<and> map (\<lambda>c. (nn_name c, tree_of contents c)) cs = fs_entries contents hack path es"
proof (induction hack path name f and hack path es arbitrary: n and cs rule: walkNode_walk_entries.induct)
  case (2 hack path name entries)
  then obtain cs where cs: "walk_entries hack path entries = Inr cs" "name_collision (sort_key nn_name cs) = None"
    "n = NarNode name path (CHR ''d'') 0 False '''' (sort_key nn_name cs)"
    by (auto simp: Let_def split: sum.splits option.splits)
  have "ascending None (map nn_name (sort_key nn_name cs))"
    using name_collision_ascending [OF _ cs(2), of None] by simp
  then show ?case
    using "2.IH" [OF cs(1)] map_sort_key [of "\<lambda>c. (nn_name c, tree_of contents c)" fst cs] by (simp add: cs(3))
next
  case (7 hack path entryName f entries)
  then show ?case by (auto split: sum.splits)
qed (auto split: sum.splits)

lemma ascending_sorted_entries:
  "node_ok n \<Longrightarrow> nar_sorted (tree_of contents n)"
proof (induction n)
  case (NarNode name path kind sz executable target children)
  have "nar_sorted_entries prev (map (\<lambda>c. (nn_name c, tree_of contents c)) cs)"
    if "ascending prev (map nn_name cs)" "\<forall>c \<in> set cs. nar_sorted (tree_of contents c)" for prev cs
    using that by (induction cs arbitrary: prev) auto
  with NarNode show ?case by simp
qed

lemma frame_lengths: "b \<in> set ts \<Longrightarrow> length b \<le> length (frames ts)"
  by (induction ts) (auto simp: frames_simps length_nar_frame)

lemma Dump_ok:
  assumes "DumpPathWithListing w contents hack path f = Inr (listing, nar)"
  obtains n where "walkPath hack path f = Inr n" "node_ok n" "tree_of contents n = fs_tree contents hack path f"
    "nar = frames (nar_tokens (tree_of contents n))" "read_in_full contents n"
    "length nar < 2 ^ 64 \<longrightarrow> listing_ok nar (tree_of contents n) (nl_root listing)" "nl_version listing = 1"
proof -
  from assms obtain n where n: "walkPath hack path f = Inr n"
    by (auto simp: DumpPathWithListing_def split: sum.splits)
  let ?nw = "\<lparr>nw_out = [], nw_offset = 0, nw_queue = enqueuePrefetch contents n\<rparr>"
  obtain nw1 nw2 e nw3 nw4 where w: "writeStatic w (encodeStaticString ''nix-archive-1'') ?nw = Inr nw1"
    "writeStatic w (encodeStaticString ''('') nw1 = Inr nw2" "writeNode w contents n nw2 = Inr (e, nw3)"
    "writeStatic w (encodeStaticString '')'') nw3 = Inr nw4"
    "listing = \<lparr>nl_version = 1, nl_root = e\<rparr>" "nar = nw_out nw4"
    using assms n by (auto simp: DumpPathWithListing_def Let_def split: sum.splits)
  have n2: "nw2 = put (frames [tk ''nix-archive-1'', tk ''('']) ?nw"
    using w(1,2) by (auto dest!: writeStatic_ok simp: encodeStaticString_frame frames_simps)
  have ok: "node_ok n" and t: "tree_of contents n = fs_tree contents hack path f"
    using walkNode_ok(1) [OF n [unfolded walkPath_def], of contents] by simp_all
  have n3: "nw3 = put (frames (body_tokens (tree_of contents n))) (nw2\<lparr>nw_queue := []\<rparr>) \<and> read_in_full contents n \<and>
      (length (nw_out nw3) < 2 ^ 64 \<longrightarrow> listing_ok (nw_out nw3) (tree_of contents n) e)"
    by (rule writeNode_ok(1) [OF w(3) ok]) (simp_all add: n2)
  have nar: "nar = nw_out nw3 @ nar_frame (tk '')'')"
    using writeStatic_ok [OF w(4)] by (simp add: w(6) encodeStaticString_frame)
  show ?thesis
  proof (rule that [OF n ok t])
    show "nar = frames (nar_tokens (tree_of contents n))"
      using n3 by (simp add: nar n2 nar_tokens_def frames_simps)
    show "length nar < 2 ^ 64 \<longrightarrow> listing_ok nar (tree_of contents n) (nl_root listing)"
      using n3 listing_ok_append(1) [of "nw_out nw3" "tree_of contents n" e] by (auto simp: nar w(5))
  qed (use n3 w(5) in simp_all)
qed

section \<open>When an archive is written\<close>

text \<open>A tree without other kinds of files, name collisions, and files that are missing or too short.\<close>

fun dumpable :: "fs_contents \<Rightarrow> bool \<Rightarrow> string \<Rightarrow> fs_node \<Rightarrow> bool"
  and dumpable_entries :: "fs_contents \<Rightarrow> bool \<Rightarrow> string \<Rightarrow> (string \<times> fs_node) list \<Rightarrow> bool" where
  "dumpable contents hack path (FsRegular sz x) \<longleftrightarrow>
     (case contents path of None \<Rightarrow> False | Some d \<Rightarrow> unat (word_of_int sz :: u64) \<le> length d)"
| "dumpable contents hack path (FsDir es) \<longleftrightarrow>
     distinct (map (\<lambda>(nm, f). stripCaseHackSuffix hack nm) es) \<and> dumpable_entries contents hack path es"
| "dumpable contents hack path (FsSymlink target) \<longleftrightarrow> True"
| "dumpable contents hack path FsOther \<longleftrightarrow> False"
| "dumpable contents hack path FsFails \<longleftrightarrow> False"
| "dumpable_entries contents hack path [] \<longleftrightarrow> True"
| "dumpable_entries contents hack path ((nm, f) # es) \<longleftrightarrow>
     dumpable contents hack (join_path path nm) f \<and> dumpable_entries contents hack path es"

fun readable_node :: "fs_contents \<Rightarrow> narNode \<Rightarrow> bool" where
  "readable_node contents (NarNode name path kind sz executable target children) \<longleftrightarrow>
     (kind = CHR ''f'' \<longrightarrow> (case contents path of None \<Rightarrow> False | Some d \<Rightarrow> unat sz \<le> length d)) \<and>
     (\<forall>c \<in> set children. readable_node contents c)"

lemma name_collision_distinct: "distinct (map nn_name ns) \<Longrightarrow> name_collision ns = None"
  by (induction ns rule: name_collision.induct) auto

lemma walkNode_total:
  "dumpable contents hack path f \<Longrightarrow> \<exists>n. walkNode hack path name f = Inr n \<and> readable_node contents n \<and> nn_name n = name"
  "dumpable_entries contents hack path es \<Longrightarrow>
   \<exists>cs. walk_entries hack path es = Inr cs \<and> (\<forall>c \<in> set cs. readable_node contents c) \<and>
        map nn_name cs = map (\<lambda>(nm, f). stripCaseHackSuffix hack nm) es"
proof (induction hack path name f and hack path es rule: walkNode_walk_entries.induct)
  case (2 hack path name es)
  then obtain cs where cs: "walk_entries hack path es = Inr cs" "\<forall>c \<in> set cs. readable_node contents c"
    "map nn_name cs = map (\<lambda>(nm, f). stripCaseHackSuffix hack nm) es" by auto
  have "name_collision (sort_key nn_name cs) = None"
    using "2.prems" cs(3) by (intro name_collision_distinct) (metis distinct_map distinct_sort dumpable.simps(2) set_sort)
  with cs show ?case by simp
next
  case (7 hack path nm f es)
  then show ?case by (auto split: option.splits)
qed auto

abbreviation all_writes :: stream where
  "all_writes \<equiv> (\<lambda>_ _. True)"

lemma writeStatic_total: "writeStatic all_writes d nw = Inr (put d nw)"
  by (simp add: writeStatic_def w_Write_def put_def)

lemma writeString_total: "writeString all_writes s nw = Inr (put (nar_frame (tk s)) nw)"
proof -
  have "\<exists>nw'. writeString all_writes s nw = Inr nw'"
    by (simp add: writeString_def writeUint64_def w_Write_def Let_def)
  then show ?thesis using writeString_ok by blast
qed

lemma copy_loop_total: "n \<le> length f \<Longrightarrow> \<exists>nw'. copy_loop all_writes path f n nw = Inr nw'"
proof (induction n arbitrary: f nw rule: less_induct)
  case (less n)
  show ?case
  proof (cases "n = 0")
    case False
    define m where "m = (if copy_chunk > n then n else copy_chunk)"
    have m: "0 < m" "m \<le> n" using False by (auto simp: m_def copy_chunk_def)
    with less have "\<exists>nw'. copy_loop all_writes path (drop m f) (n - m) (nw\<lparr>nw_out := nw_out nw @ take m f\<rparr>) = Inr nw'"
      by simp
    with False m less.prems show ?thesis
      by (subst copy_loop.simps) (simp add: Let_def w_Write_def flip: m_def)
  qed (simp add: copy_loop.simps)
qed

lemma contents_total:
  "\<exists>r. writeContentsHeader all_writes sz nw = Inr r" "\<exists>nw'. writeContentsFooter all_writes sz nw = Inr nw'"
  by (simp_all add: writeContentsHeader_def writeUint64_def writeContentsFooter_def w_Write_def Let_def)

lemma prefetched_total:
  assumes "contents path = Some d" and "unat sz \<le> length d"
  shows "\<exists>r. writeFileContentsPrefetched all_writes (enqueue contents path sz) nw = Inr r"
  using assms contents_total [of sz]
  by (auto simp: writeFileContentsPrefetched_def enqueue_def readFile_def w_Write_def split: sum.splits)
    (metis sum.distinct(1))+

lemma streamed_total:
  assumes "contents path = Some d" and "unat sz \<le> length d"
  shows "\<exists>r. writeFileContentsStreaming all_writes contents path sz nw = Inr r"
  using assms contents_total [of sz] copy_loop_total [OF assms(2)]
  by (auto simp: writeFileContentsStreaming_def split: sum.splits) (metis sum.distinct(1))+

lemma writeRegularFile_total:
  assumes "readable_node contents n" and "nn_kind n = CHR ''f''" and "nn_children n = []"
    and "nw_queue nw = enqueuePrefetch contents n @ q"
  shows "\<exists>r. writeRegularFile all_writes contents n nw = Inr r"
proof -
  obtain d where d: "contents (nn_path n) = Some d" "unat (nn_size n) \<le> length d"
    using assms(1,2) by (cases n) (auto split: option.splits)
  show ?thesis
    using assms(3,4) prefetched_total [of contents "nn_path n" d "nn_size n", OF d]
      streamed_total [of contents "nn_path n" d "nn_size n", OF d]
    by (cases n)
      (auto simp: writeRegularFile_def write_executable_def writeStatic_total split: sum.splits; metis sum.distinct(1))
qed

text \<open>The entries of a directory are all written if each of them is, given its files in the queue.\<close>

lemma writeDirectory_total:
  assumes "\<And>c nw q. c \<in> set children \<Longrightarrow> nw_queue nw = enqueuePrefetch contents c @ q \<Longrightarrow>
      nw_offset nw = of_nat (length (nw_out nw)) \<Longrightarrow> \<exists>r. writeNode all_writes contents c nw = Inr r"
    and "\<forall>c \<in> set children. node_ok c"
    and "nw_queue nw = concat (map (enqueuePrefetch contents) children) @ q"
    and "nw_offset nw = of_nat (length (nw_out nw))"
  shows "\<exists>r. writeDirectory_entries all_writes contents children acc nw = Inr r"
  using assms
proof (induction children arbitrary: acc nw)
  case (Cons c children)
  let ?nw = "put (frames [tk ''entry'', tk ''('', tk ''name'', tk (nn_name c), tk ''node'', tk ''('']) nw"
  let ?q = "concat (map (enqueuePrefetch contents) children) @ q"
  have ready: "nw_queue ?nw = enqueuePrefetch contents c @ ?q" "nw_offset ?nw = of_nat (length (nw_out ?nw))"
    using Cons.prems(3,4) by simp_all
  with Cons.prems(1) obtain e nw' where e: "writeNode all_writes contents c ?nw = Inr (e, nw')"
    by (metis list.set_intros(1) surj_pair)
  have nw': "nw' = put (frames (body_tokens (tree_of contents c))) (?nw\<lparr>nw_queue := ?q\<rparr>)"
    using writeNode_ok(1) [OF e _ ready] Cons.prems(2) by simp
  have "\<exists>r. writeDirectory_entries all_writes contents children (smap_put (nn_name c) e acc)
      (put (frames [tk '')'', tk '')'']) nw') = Inr r"
    by (rule Cons.IH) (use Cons.prems in \<open>auto simp: nw'\<close>)
  with e show ?case
    by (simp add: writeStatic_total writeString_total encodeStaticString_frame frames_simps)
qed simp

lemma writeNode_total:
  "readable_node contents n \<Longrightarrow> node_ok n \<Longrightarrow> nw_queue nw = enqueuePrefetch contents n @ q \<Longrightarrow>
   nw_offset nw = of_nat (length (nw_out nw)) \<Longrightarrow> \<exists>r. writeNode all_writes contents n nw = Inr r"
proof (induction n arbitrary: nw q)
  case (NarNode name path kind sz executable target children)
  let ?n = "NarNode name path kind sz executable target children"
  from NarNode.prems(2) consider (f) "kind = CHR ''f''" "children = []" | (d) "kind = CHR ''d''"
    | (l) "kind = CHR ''l''" by auto
  then show ?case
  proof cases
    case f
    have "\<exists>r. writeRegularFile all_writes contents ?n (put (encodeStaticString ''type'') nw) = Inr r"
      by (rule writeRegularFile_total) (use NarNode.prems f in simp_all)
    with f show ?thesis by (simp add: writeStatic_total)
  next
    case d
    let ?nw = "put (encodeStaticString ''type'' @ encodeStaticString ''directory'') nw"
    have "\<exists>r. writeDirectory_entries all_writes contents children [] ?nw = Inr r"
    proof (rule writeDirectory_total)
      show "\<exists>r. writeNode all_writes contents c nw2 = Inr r"
        if "c \<in> set children" "nw_queue nw2 = enqueuePrefetch contents c @ q2"
          "nw_offset nw2 = of_nat (length (nw_out nw2))" for c nw2 q2
        using NarNode.IH [OF that(1) _ _ that(2,3)] NarNode.prems(1,2) that(1) by simp
    qed (use NarNode.prems(2,3,4) d in \<open>auto simp: shouldPrefetch_def\<close>)
    with d show ?thesis by (auto simp: writeStatic_total)
  qed (simp add: writeSymlink_def writeStatic_total writeString_total)
qed

lemma Dump_total:
  assumes "dumpable contents hack path f"
  shows "\<exists>r. DumpPathWithListing all_writes contents hack path f = Inr r"
proof -
  obtain n where n: "walkPath hack path f = Inr n" "readable_node contents n"
    using walkNode_total(1) [OF assms] unfolding walkPath_def by blast
  then have "node_ok n" using walkNode_ok(1) by (auto simp: walkPath_def)
  let ?nw = "put (encodeStaticString ''nix-archive-1'' @ encodeStaticString ''('')
      \<lparr>nw_out = [], nw_offset = 0, nw_queue = enqueuePrefetch contents n\<rparr>"
  have "\<exists>r. writeNode all_writes contents n ?nw = Inr r"
    by (rule writeNode_total [OF n(2) \<open>node_ok n\<close>, of _ "[]"]) simp_all
  with n(1) show ?thesis by (auto simp: DumpPathWithListing_def writeStatic_total)
qed



section \<open>The listing of a tree\<close>

text \<open>What a listing says of a tree apart from offsets, and a listing without them.\<close>

fun tree_listing :: "nar_tree \<Rightarrow> NarListingEntry" where
  "tree_listing (NRegular x d) =
     NarListingEntry ''regular'' (Some (of_nat (length d))) (if x then Some True else None) None [] None"
| "tree_listing (NDir es) =
     NarListingEntry ''directory'' None None None (map (\<lambda>(nm, t). (nm, tree_listing t)) es) None"
| "tree_listing (NSymlink target) = NarListingEntry ''symlink'' None None None [] (Some target)"

fun without_offsets :: "NarListingEntry \<Rightarrow> NarListingEntry" where
  "without_offsets (NarListingEntry ty sz ex off es target) =
     NarListingEntry ty sz ex None (map (\<lambda>(nm, e). (nm, without_offsets e)) es) target"

lemma listing_ok_without_offsets:
  "listing_ok nar t e \<Longrightarrow> without_offsets e = tree_listing t"
  "listing_ok_entries nar es es' \<Longrightarrow>
   map (\<lambda>(nm, e). (nm, without_offsets e)) es' = map (\<lambda>(nm, t). (nm, tree_listing t)) es"
proof (induction nar t e and nar es es' rule: listing_ok_listing_ok_entries.induct)
  case (1 nar x data e)
  then show ?case by (cases e) auto
next
  case (2 nar es e)
  then show ?case by (cases e) auto
qed (auto split: list.splits)

lemma smap_put_insort: "k \<notin> fst ` set m \<Longrightarrow> smap_put k v m = insort_key fst (k, v) m"
  by (induction m) auto

lemma fold_smap_put:
  "distinct (map fst xs) \<Longrightarrow> fst ` set xs \<inter> fst ` set m = {} \<Longrightarrow>
   fold (\<lambda>(k, v). smap_put k v) xs m = foldr (insort_key fst) xs m"
proof (induction xs arbitrary: m)
  case (Cons x xs)
  have comm: "foldr (insort_key fst) ys (insort_key fst x m) = insort_key fst x (foldr (insort_key fst) ys m)"
    if "fst x \<notin> fst ` set ys" for ys
    using that by (induction ys) (auto intro: insort_key_left_comm)
  have "fold (\<lambda>(k, v). smap_put k v) (x # xs) m = fold (\<lambda>(k, v). smap_put k v) xs (insort_key fst x m)"
    using Cons.prems(2) by (cases x) (simp add: smap_put_insort)
  also have "\<dots> = foldr (insort_key fst) xs (insort_key fst x m)"
    using Cons by (intro Cons.IH) (auto simp: set_insort_key)
  finally show ?case using comm [of xs] Cons.prems(1) by (simp add: image_iff)
qed simp

text \<open>No file has a negative size.\<close>

fun sizes_ok :: "fs_node \<Rightarrow> bool" where
  "sizes_ok (FsRegular sz x) \<longleftrightarrow> 0 \<le> sz"
| "sizes_ok (FsDir es) \<longleftrightarrow> (\<forall>(nm, f) \<in> set es. sizes_ok f)"
| "sizes_ok _ \<longleftrightarrow> True"

lemma ascending_distinct: "ascending prev xs \<Longrightarrow> distinct xs \<and> (\<forall>x \<in> set xs. case prev of None \<Rightarrow> True | Some p \<Rightarrow> p < x)"
  by (induction prev xs rule: ascending.induct) (auto split: option.splits)

lemma generate_ok:
  "walkNode hack path name f = Inr n \<Longrightarrow> sizes_ok f \<Longrightarrow> read_in_full contents n \<Longrightarrow>
   generateListingEntry hack path f = Inr (tree_listing (tree_of contents n))"
  "walk_entries hack path es = Inr cs \<Longrightarrow> (\<forall>(nm, f) \<in> set es. sizes_ok f) \<Longrightarrow>
   (\<forall>c \<in> set cs. read_in_full contents c) \<Longrightarrow>
   generateDirectoryListing_entries hack path es acc =
     Inr (fold (\<lambda>(k, v). smap_put k v) (map (\<lambda>c. (nn_name c, tree_listing (tree_of contents c))) cs) acc)"
proof (induction hack path name f and hack path es arbitrary: n and cs acc rule: walkNode_walk_entries.induct)
  case (1 hack path name sz x)
  then show ?case by (auto simp: generateRegularFileListing_def)
next
  case (2 hack path name es)
  obtain cs where cs: "walk_entries hack path es = Inr cs" "name_collision (sort_key nn_name cs) = None"
    "n = NarNode name path (CHR ''d'') 0 False '''' (sort_key nn_name cs)"
    using "2.prems"(1) by (auto simp: Let_def split: sum.splits option.splits)
  let ?g = "\<lambda>c. (nn_name c, tree_listing (tree_of contents c))"
  have "distinct (map nn_name (sort_key nn_name cs))"
    using name_collision_ascending [OF _ cs(2), of None] ascending_distinct by simp
  then have d: "distinct (map fst (map ?g cs))"
    by (simp add: comp_def) (metis distinct_map distinct_sort set_sort)
  have "generateDirectoryListing_entries hack path es [] = Inr (fold (\<lambda>(k, v). smap_put k v) (map ?g cs) [])"
    by (rule "2.IH") (use "2.prems" cs in auto)
  also have "fold (\<lambda>(k, v). smap_put k v) (map ?g cs) [] = sort_key fst (map ?g cs)"
    using fold_smap_put [OF d, of "[]"] by (simp add: sort_key_def)
  also have "\<dots> = map ?g (sort_key nn_name cs)" using map_sort_key [of ?g fst cs] by simp
  finally show ?case by (simp add: cs(3))
next
  case (7 hack path nm f es)
  then show ?case using walkNode_ok(1) by (fastforce split: sum.splits)
qed auto

section \<open>Properties\<close>

text \<open>
  C15: the archive is right. Whatever stream the writer has and in whichever state the files are read, an
  archive that is written without an error is one that Nix can read, with the entries of every
  directory in order, and what Nix reads is the tree at the path; the size of every file is the one
  that was announced. Every file of the listing is found in the archive at the offset the listing gives.
\<close>
theorem DumpPathWithListing_correct:
  assumes "DumpPathWithListing w contents hack path f = Inr (listing, nar)" and "length nar < 2 ^ 64"
  shows "nar_decode nar = Some (fs_tree contents hack path f) \<and>
         listing_ok nar (fs_tree contents hack path f) (nl_root listing)"
proof -
  from Dump_ok [OF assms(1)] obtain n where n: "node_ok n" "tree_of contents n = fs_tree contents hack path f"
    "nar = frames (nar_tokens (tree_of contents n))" "listing_ok nar (tree_of contents n) (nl_root listing)"
    using assms(2) by blast
  have "length b < 2 ^ 64" if "b \<in> set (nar_tokens (tree_of contents n))" for b
    using frame_lengths [OF that] assms(2) n(3) by simp
  with nar_decode_tokens [OF ascending_sorted_entries [OF n(1)], of contents] n show ?thesis
    by (simp add: frames_def)
qed

text \<open>
  A script with an argument, a link to it and an empty directory, in the order of the file system; the
  file grew by a byte after it was listed.
\<close>

definition nar_example :: fs_node where
  "nar_example = FsDir [(''bin'', FsDir [(''run'', FsRegular 3 True)]), (''doc'', FsDir []), (''run'', FsSymlink ''bin/run'')]"

definition nar_example_contents :: fs_contents where
  "nar_example_contents p = (if p = ''/s/bin/run'' then Some [1, 2, 3, 4] else None)"

definition nar_example_tree :: nar_tree where
  "nar_example_tree =
     NDir [(''bin'', NDir [(''run'', NRegular True [1, 2, 3])]), (''doc'', NDir []), (''run'', NSymlink ''bin/run'')]"

lemma nar_example_tree: "fs_tree nar_example_contents False ''/s'' nar_example = nar_example_tree"
  by code_simp

lemma nar_example_dumpable: "dumpable nar_example_contents False ''/s'' nar_example"
  by code_simp

lemma nar_example_length: "length (frames (nar_tokens nar_example_tree)) = 848"
  by (simp add: nar_example_tree_def nar_tokens_def frames_simps length_nar_frame nar_pad_def str_bytes_def)

theorem DumpPathWithListing_correct_witness:
  "\<exists>listing nar. DumpPathWithListing all_writes nar_example_contents False ''/s'' nar_example = Inr (listing, nar) \<and>
     nar_decode nar = Some nar_example_tree"
proof -
  obtain listing nar where d:
      "DumpPathWithListing all_writes nar_example_contents False ''/s'' nar_example = Inr (listing, nar)"
    using Dump_total [OF nar_example_dumpable] by auto
  have "length nar = 848"
    by (rule Dump_ok [OF d]) (simp add: nar_example_tree nar_example_length)
  with DumpPathWithListing_correct [OF d] d show ?thesis unfolding nar_example_tree by auto
qed

text \<open>
  Serialization does not fail on its own. A tree of files, directories and links whose names differ
  in the archive, and whose files can be read up to their size, is written to a stream that takes all
  its writes, with its listing; in particular the writer finds every file read ahead in the queue in
  the order it needs it.
\<close>
theorem DumpPathWithListing_total:
  assumes "dumpable contents hack path f"
  shows "\<exists>listing nar. DumpPathWithListing all_writes contents hack path f = Inr (listing, nar)"
  using Dump_total [OF assms] by auto

theorem DumpPathWithListing_total_witness:
  "\<exists>listing nar. DumpPathWithListing all_writes nar_example_contents False ''/s'' nar_example = Inr (listing, nar)"
  by (rule DumpPathWithListing_total [OF nar_example_dumpable])

text \<open>
  The listing of a NAR that is not uploaded again is the listing of the NAR. Walking the file system
  without serializing gives the listing that comes with the archive but for the offsets, although
  the one inserts the entries by their names on disk and the other by their names in the archive.
\<close>
theorem GenerateListingOnly_agrees:
  assumes "DumpPathWithListing w contents hack path f = Inr (listing, nar)" and "length nar < 2 ^ 64"
    and "sizes_ok f"
  shows "GenerateListingOnly hack path f = Inr (listing\<lparr>nl_root := without_offsets (nl_root listing)\<rparr>)"
proof -
  from Dump_ok [OF assms(1)] obtain n where n: "walkPath hack path f = Inr n" "read_in_full contents n"
    "listing_ok nar (tree_of contents n) (nl_root listing)" "nl_version listing = 1"
    using assms(2) by blast
  have "generateListingEntry hack path f = Inr (without_offsets (nl_root listing))"
    using generate_ok(1) [OF n(1) [unfolded walkPath_def] assms(3) n(2)] listing_ok_without_offsets(1) [OF n(3)] by simp
  with n(4) show ?thesis by (simp add: GenerateListingOnly_def)
qed

theorem GenerateListingOnly_agrees_witness:
  "\<exists>listing nar. DumpPathWithListing all_writes nar_example_contents False ''/s'' nar_example = Inr (listing, nar) \<and>
     GenerateListingOnly False ''/s'' nar_example = Inr (listing\<lparr>nl_root := without_offsets (nl_root listing)\<rparr>)"
proof -
  obtain listing nar where d:
      "DumpPathWithListing all_writes nar_example_contents False ''/s'' nar_example = Inr (listing, nar)"
    using Dump_total [OF nar_example_dumpable] by auto
  have l: "length nar = 848"
    by (rule Dump_ok [OF d]) (simp add: nar_example_tree nar_example_length)
  have "sizes_ok nar_example" by code_simp
  from GenerateListingOnly_agrees [OF d _ this] l d show ?thesis by auto
qed

end
