(* ===== verification/Narinfo.thy ===== *)
theory Narinfo
  imports Signing
begin

text \<open>
  Narinfos as text: the parser and the printer of the server for upstream narinfos
  (\<open>parseNarinfo\<close> and \<open>format\<close> in \<open>src/server/upstream.go\<close>) and the printer of the client
  (\<open>src/client/narinfo.go\<close>).
\<close>

section \<open>Parsing\<close>

record upstreamNarinfo = NarInfo +
  un_URL :: string
  un_NarKey :: string
  un_Compression :: string
  un_Deriver :: string
  un_CA :: string
  un_Sigs :: "string list"

datatype narinfo_error =
    MalformedLine string | DuplicateField string | InvalidNarSize string | InvalidReference string

definition nixStoreDir :: string where
  "nixStoreDir = ''/nix/store/''"

definition isStorePathBase :: "string \<Rightarrow> bool" where
  "isStorePathBase base \<longleftrightarrow>
     (if length base < 34 \<or> base ! 32 \<noteq> CHR ''-'' \<or> CHR ''/'' \<in> set base then False
      else list_all (\<lambda>c. c \<in> set NixBase32Alphabet) (take 32 base))"

abbreviation newline :: char where
  "newline \<equiv> CHR 0x0A"

text \<open>\<open>strings.TrimRight(text, "\n")\<close> and \<open>strings.Fields\<close>.\<close>

definition trim_newlines :: "string \<Rightarrow> string" where
  "trim_newlines s = rev (dropWhile (\<lambda>c. c = newline) (rev s))"

definition fields_str :: "string \<Rightarrow> string list" where
  "fields_str s =
     filter (\<lambda>w. w \<noteq> []) (split_char (CHR '' '') (map (\<lambda>c. if is_space c then CHR '' '' else c) s))"

fun parse_references :: "string list \<Rightarrow> upstreamNarinfo \<Rightarrow> narinfo_error + upstreamNarinfo" where
  "parse_references [] info = Inr info"
| "parse_references (ref # refs) info =
     (if \<not> isStorePathBase ref then Inl (InvalidReference ref)
      else parse_references refs (info\<lparr>References := References info @ [nixStoreDir @ ref]\<rparr>))"

definition parse_field :: "string \<Rightarrow> string \<Rightarrow> upstreamNarinfo \<Rightarrow> narinfo_error + upstreamNarinfo" where
  "parse_field name val info =
     (if name = ''StorePath'' then Inr (info\<lparr>StorePath := val\<rparr>)
      else if name = ''URL'' then Inr (info\<lparr>un_URL := val\<rparr>)
      else if name = ''Compression'' then Inr (info\<lparr>un_Compression := val\<rparr>)
      else if name = ''NarHash'' then Inr (info\<lparr>NarHash := val\<rparr>)
      else if name = ''NarSize'' then
        (case parse_uint64 val of None \<Rightarrow> Inl (InvalidNarSize val) | Some n \<Rightarrow> Inr (info\<lparr>NarSize := of_nat n\<rparr>))
      else if name = ''References'' then parse_references (fields_str val) info
      else if name = ''Deriver'' then Inr (info\<lparr>un_Deriver := val\<rparr>)
      else if name = ''CA'' then Inr (info\<lparr>un_CA := val\<rparr>)
      else if name = ''Sig'' then Inr (info\<lparr>un_Sigs := un_Sigs info @ [val]\<rparr>)
      else Inr info)"

fun parse_lines :: "string list \<Rightarrow> upstreamNarinfo \<Rightarrow> string list \<Rightarrow> narinfo_error + upstreamNarinfo" where
  "parse_lines seen info [] = Inr info"
| "parse_lines seen info (line # lines) =
     (case cut_str line '': '' of
        (name, val, found) \<Rightarrow>
          if \<not> found then Inl (MalformedLine line)
          else if name \<noteq> ''Sig'' \<and> name \<in> set seen then Inl (DuplicateField name)
          else (case parse_field name val info of
                  Inl err \<Rightarrow> Inl err
                | Inr info \<Rightarrow> parse_lines (if name \<noteq> ''Sig'' then name # seen else seen) info lines))"

definition empty_narinfo :: upstreamNarinfo where
  "empty_narinfo = \<lparr>StorePath = '''', NarHash = '''', NarSize = 0, References = [], un_URL = '''', un_NarKey = '''',
     un_Compression = '''', un_Deriver = '''', un_CA = '''', un_Sigs = []\<rparr>"

definition parseNarinfo :: "string \<Rightarrow> narinfo_error + upstreamNarinfo" where
  "parseNarinfo text =
     (case parse_lines [] empty_narinfo (split_char newline (trim_newlines text)) of
        Inl err \<Rightarrow> Inl err
      | Inr info \<Rightarrow> Inr (if un_Compression info = '''' then info\<lparr>un_Compression := ''bzip2''\<rparr> else info))"

section \<open>Printing\<close>

definition narinfo_line :: "string \<Rightarrow> string \<Rightarrow> string" where
  "narinfo_line name val = name @ '': '' @ val @ [newline]"

definition format_narinfo :: "upstreamNarinfo \<Rightarrow> string list \<Rightarrow> string" where
  "format_narinfo info sigs =
     narinfo_line ''StorePath'' (StorePath info) @ narinfo_line ''URL'' (un_NarKey info) @
     narinfo_line ''Compression'' (un_Compression info) @ narinfo_line ''NarHash'' (NarHash info) @
     narinfo_line ''NarSize'' (format_nat (unat (NarSize info))) @
     narinfo_line ''References'' (join_str '' '' (map (\<lambda>ref. trim_prefix ref nixStoreDir) (References info))) @
     (if un_Deriver info \<noteq> '''' then narinfo_line ''Deriver'' (un_Deriver info) else '''') @
     (if un_CA info \<noteq> '''' then narinfo_line ''CA'' (un_CA info) else '''') @
     concat (map (narinfo_line ''Sig'') sigs)"

record NarinfoMetadata = NarInfo +
  nm_URL :: string
  nm_Compression :: string
  nm_Deriver :: "string option"
  nm_Signatures :: "string list"
  nm_CA :: "string option"

definition generateNarinfoContent :: "NarinfoMetadata \<Rightarrow> string list \<Rightarrow> string" where
  "generateNarinfoContent meta sigs =
     narinfo_line ''StorePath'' (StorePath meta) @ narinfo_line ''URL'' (nm_URL meta) @
     narinfo_line ''Compression'' (nm_Compression meta) @ narinfo_line ''NarHash'' (NarHash meta) @
     narinfo_line ''NarSize'' (format_nat (unat (NarSize meta))) @
     ''References:'' @ concat (map (\<lambda>ref. '' '' @ trim_prefix ref nixStoreDir) (sort (References meta))) @
     (if References meta = [] then '' '' else '''') @ [newline] @
     (case nm_Deriver meta of None \<Rightarrow> '''' | Some d \<Rightarrow> narinfo_line ''Deriver'' (trim_prefix d nixStoreDir)) @
     concat (map (narinfo_line ''Sig'') (sort sigs)) @
     (case nm_CA meta of None \<Rightarrow> '''' | Some ca \<Rightarrow> narinfo_line ''CA'' ca)"

section \<open>Lines\<close>

lemma cut_field: "c \<notin> set a \<Longrightarrow> cut_str (a @ c # d # b) [c, d] = (a, b, True)"
  by (induction a) (auto simp: has_prefix_def)

lemma cut_line:
  assumes "CHR '':'' \<notin> set name"
  shows "cut_str (name @ '': '' @ val) '': '' = (name, val, True)"
  using cut_field [OF assms, of "CHR '' ''" val] by simp

lemma lines_join: "ls \<noteq> [] \<Longrightarrow> concat (map (\<lambda>l. l @ [newline]) ls) = join_str [newline] ls @ [newline]"
  by (induction "[newline]" ls rule: join_str.induct) auto

lemma join_str_last: "ls \<noteq> [] \<Longrightarrow> last ls \<noteq> [] \<Longrightarrow> last (join_str sep ls) = last (last ls) \<and> join_str sep ls \<noteq> []"
  by (induction sep ls rule: join_str.induct) auto

lemma split_lines:
  assumes "ls \<noteq> []" "\<forall>l \<in> set ls. newline \<notin> set l \<and> l \<noteq> []"
  shows "split_char newline (trim_newlines (concat (map (\<lambda>l. l @ [newline]) ls))) = ls"
proof -
  have last: "last ls \<noteq> []" "newline \<notin> set (last ls)" using assms by auto
  then have "last (last ls) \<noteq> newline" by (metis last_in_set)
  then have "hd (rev (join_str [newline] ls)) \<noteq> newline" "rev (join_str [newline] ls) \<noteq> []"
    using join_str_last [OF assms(1) last(1), of "[newline]"] by (simp_all add: hd_rev)
  then have "dropWhile (\<lambda>c. c = newline) (rev (join_str [newline] ls)) = rev (join_str [newline] ls)"
    by (cases "rev (join_str [newline] ls)") auto
  then have "trim_newlines (concat (map (\<lambda>l. l @ [newline]) ls)) = join_str [newline] ls"
    by (simp add: lines_join [OF assms(1)] trim_newlines_def)
  then show ?thesis using split_char_join [of ls newline] assms by simp
qed

lemma fields_join:
  assumes "\<forall>w \<in> set ws. w \<noteq> [] \<and> (\<forall>c \<in> set w. \<not> is_space c)"
  shows "fields_str (join_str '' '' ws) = ws"
proof (cases "ws = []")
  case False
  have sp: "is_space (CHR '' '')" by (simp add: is_space_def)
  have "map (\<lambda>c. if is_space c then CHR '' '' else c) (join_str '' '' ws) = join_str '' '' ws"
  proof (rule map_idI)
    fix c assume "c \<in> set (join_str '' '' ws)"
    then show "(if is_space c then CHR '' '' else c) = c" using join_str_chars [of c "'' ''" ws] assms by auto
  qed
  moreover have "split_char (CHR '' '') (join_str '' '' ws) = ws"
    by (rule split_char_join) (use assms sp False in auto)
  ultimately show ?thesis using assms by (simp add: fields_str_def filter_id_conv)
qed (simp add: fields_str_def)

lemma split_char_no_d: "w \<in> set (split_char d t) \<Longrightarrow> d \<notin> set w"
proof (induction t arbitrary: w)
  case (Cons c t)
  then show ?case by (cases "split_char d t") (auto split: if_splits)
qed simp

lemma fields_words:
  assumes "w \<in> set (fields_str s)"
  shows "w \<noteq> [] \<and> (\<forall>c \<in> set w. \<not> is_space c \<and> c \<in> set s)"
proof -
  let ?t = "map (\<lambda>c. if is_space c then CHR '' '' else c) s"
  from assms have w: "w \<in> set (split_char (CHR '' '') ?t)" "w \<noteq> []" by (simp_all add: fields_str_def)
  have "\<not> is_space c \<and> c \<in> set s" if "c \<in> set w" for c
  proof -
    have "c \<in> set ?t" using split_char_chars [OF w(1)] that by blast
    moreover have "c \<noteq> CHR '' ''" using split_char_no_d [OF w(1)] that by blast
    ultimately show ?thesis by auto
  qed
  with w(2) show ?thesis by blast
qed

section \<open>What a parsed narinfo looks like\<close>

definition narinfo_refs_ok :: "string list \<Rightarrow> bool" where
  "narinfo_refs_ok refs \<longleftrightarrow>
     (\<forall>ref \<in> set refs. \<exists>base. ref = nixStoreDir @ base \<and> isStorePathBase base \<and> (\<forall>c \<in> set base. \<not> is_space c))"

definition narinfo_clean :: "upstreamNarinfo \<Rightarrow> bool" where
  "narinfo_clean info \<longleftrightarrow> newline \<notin> set (StorePath info) \<and> newline \<notin> set (NarHash info) \<and>
     newline \<notin> set (un_URL info) \<and> newline \<notin> set (un_Compression info) \<and> newline \<notin> set (un_Deriver info) \<and>
     newline \<notin> set (un_CA info) \<and> (\<forall>sig \<in> set (un_Sigs info). newline \<notin> set sig) \<and> narinfo_refs_ok (References info)"

lemma parse_references_ok:
  "parse_references refs info = Inr info' \<Longrightarrow> (\<forall>r \<in> set refs. \<forall>c \<in> set r. \<not> is_space c) \<Longrightarrow>
   info' = info\<lparr>References := References info @ map (\<lambda>r. nixStoreDir @ r) refs\<rparr> \<and> (\<forall>r \<in> set refs. isStorePathBase r)"
  by (induction refs info rule: parse_references.induct) (auto split: if_splits)

lemma parse_field_clean:
  assumes "parse_field name val info = Inr info'" and "narinfo_clean info" and "newline \<notin> set val"
  shows "narinfo_clean info'"
proof (cases "name = ''References''")
  case True
  then have "parse_references (fields_str val) info = Inr info'" using assms(1) by (simp add: parse_field_def)
  from parse_references_ok [OF this] fields_words assms(2) show ?thesis
    by (fastforce simp: narinfo_clean_def narinfo_refs_ok_def)
next
  case False
  with assms show ?thesis
    by (auto simp: parse_field_def narinfo_clean_def split: if_splits option.splits)
qed

lemma parse_lines_clean:
  "parse_lines seen info ls = Inr info' \<Longrightarrow> narinfo_clean info \<Longrightarrow> \<forall>l \<in> set ls. newline \<notin> set l \<Longrightarrow> narinfo_clean info'"
proof (induction ls arbitrary: seen info)
  case (Cons l ls)
  obtain name val found where c: "cut_str l '': '' = (name, val, found)" by (cases "cut_str l '': ''")
  obtain info1 where f: "found" "parse_field name val info = Inr info1"
    "parse_lines (if name \<noteq> ''Sig'' then name # seen else seen) info1 ls = Inr info'"
    using Cons.prems(1) c by (auto split: if_splits sum.splits)
  have "newline \<notin> set val" using c f(1) cut_str_found [of l "'': ''" name val] Cons.prems(3) by auto
  from parse_field_clean [OF f(2) Cons.prems(2) this] Cons.IH [OF f(3)] Cons.prems(3) show ?case by simp
qed simp

lemma parseNarinfo_clean:
  assumes "parseNarinfo text = Inr info"
  shows "narinfo_clean info \<and> un_Compression info \<noteq> ''''"
proof -
  obtain info1 where i: "parse_lines [] empty_narinfo (split_char newline (trim_newlines text)) = Inr info1"
    "info = (if un_Compression info1 = '''' then info1\<lparr>un_Compression := ''bzip2''\<rparr> else info1)"
    using assms by (auto simp: parseNarinfo_def split: sum.splits)
  have "narinfo_clean info1"
    by (rule parse_lines_clean [OF i(1)])
      (auto simp: empty_narinfo_def narinfo_clean_def narinfo_refs_ok_def dest: split_char_no_d)
  with i(2) show ?thesis by (auto simp: narinfo_clean_def)
qed

section \<open>Reading what was printed\<close>

definition field_line :: "string \<times> string \<Rightarrow> string" where
  "field_line f = fst f @ '': '' @ snd f"

lemma narinfo_line_field: "narinfo_line name val = field_line (name, val) @ [newline]"
  by (simp add: narinfo_line_def field_line_def)

text \<open>Reading the lines of a list of fields, one field after the other.\<close>

fun parse_fields :: "string list \<Rightarrow> upstreamNarinfo \<Rightarrow> (string \<times> string) list \<Rightarrow> narinfo_error + upstreamNarinfo" where
  "parse_fields seen info [] = Inr info"
| "parse_fields seen info ((name, val) # fs) =
     (if name \<noteq> ''Sig'' \<and> name \<in> set seen then Inl (DuplicateField name)
      else (case parse_field name val info of
              Inl err \<Rightarrow> Inl err
            | Inr info \<Rightarrow> parse_fields (if name \<noteq> ''Sig'' then name # seen else seen) info fs))"

lemma parse_lines_fields:
  "\<forall>(name, val) \<in> set fs. CHR '':'' \<notin> set name \<Longrightarrow> parse_lines seen info (map field_line fs) = parse_fields seen info fs"
  by (induction seen info fs rule: parse_fields.induct)
    (auto simp: field_line_def cut_line [simplified] split: sum.splits)

definition parse_printed :: "(string \<times> string) list \<Rightarrow> narinfo_error + upstreamNarinfo" where
  "parse_printed fs =
     (case parse_fields [] empty_narinfo fs of
        Inl err \<Rightarrow> Inl err
      | Inr info \<Rightarrow> Inr (if un_Compression info = '''' then info\<lparr>un_Compression := ''bzip2''\<rparr> else info))"

lemma parse_printed:
  assumes "fs \<noteq> []" "\<forall>(name, val) \<in> set fs. CHR '':'' \<notin> set name \<and> newline \<notin> set name \<and> newline \<notin> set val"
  shows "parseNarinfo (concat (map (\<lambda>(name, val). narinfo_line name val) fs)) = parse_printed fs"
proof -
  have "concat (map (\<lambda>(name, val). narinfo_line name val) fs) = concat (map (\<lambda>l. l @ [newline]) (map field_line fs))"
    by (induction fs) (auto simp: narinfo_line_field)
  moreover have "split_char newline (trim_newlines (concat (map (\<lambda>l. l @ [newline]) (map field_line fs)))) = map field_line fs"
    by (rule split_lines) (use assms in \<open>auto simp: field_line_def\<close>)
  moreover have "parse_lines [] empty_narinfo (map field_line fs) = parse_fields [] empty_narinfo fs"
    by (rule parse_lines_fields) (use assms in auto)
  ultimately show ?thesis by (simp only: parseNarinfo_def parse_printed_def)
qed

lemma parse_references_all:
  "\<forall>r \<in> set refs. isStorePathBase r \<Longrightarrow>
   parse_references refs info = Inr (info\<lparr>References := References info @ map (\<lambda>r. nixStoreDir @ r) refs\<rparr>)"
  by (induction refs info rule: parse_references.induct) auto

text \<open>The References line of a list of references gives the list back.\<close>

lemma parse_field_references:
  assumes "narinfo_refs_ok refs"
  shows "parse_field ''References'' (join_str '' '' (map (\<lambda>ref. trim_prefix ref nixStoreDir) refs)) info =
    Inr (info\<lparr>References := References info @ refs\<rparr>)"
proof -
  let ?bases = "map (\<lambda>ref. trim_prefix ref nixStoreDir) refs"
  have b: "nixStoreDir @ trim_prefix r nixStoreDir = r \<and> isStorePathBase (trim_prefix r nixStoreDir) \<and>
      (\<forall>c \<in> set (trim_prefix r nixStoreDir). \<not> is_space c)" if "r \<in> set refs" for r
    using assms that by (auto simp: narinfo_refs_ok_def)
  then have "\<forall>w \<in> set ?bases. w \<noteq> [] \<and> (\<forall>c \<in> set w. \<not> is_space c)" by (fastforce simp: isStorePathBase_def)
  then have "fields_str (join_str '' '' ?bases) = ?bases" by (rule fields_join)
  moreover have "map (\<lambda>r. nixStoreDir @ r) ?bases = refs" using b by (simp add: map_idI)
  moreover have "\<forall>w \<in> set ?bases. isStorePathBase w" using b by auto
  ultimately show ?thesis by (simp add: parse_field_def parse_references_all)
qed

lemma parse_fields_sigs:
  "parse_fields seen info (map (\<lambda>s. (''Sig'', s)) sigs @ fs) =
   parse_fields seen (info\<lparr>un_Sigs := un_Sigs info @ sigs\<rparr>) fs"
  by (induction sigs arbitrary: info) (auto simp: parse_field_def)

lemma parse_field_simps:
  "parse_field ''StorePath'' v info = Inr (info\<lparr>StorePath := v\<rparr>)"
  "parse_field ''URL'' v info = Inr (info\<lparr>un_URL := v\<rparr>)"
  "parse_field ''Compression'' v info = Inr (info\<lparr>un_Compression := v\<rparr>)"
  "parse_field ''NarHash'' v info = Inr (info\<lparr>NarHash := v\<rparr>)"
  "parse_field ''Deriver'' v info = Inr (info\<lparr>un_Deriver := v\<rparr>)"
  "parse_field ''CA'' v info = Inr (info\<lparr>un_CA := v\<rparr>)"
  by (simp_all add: parse_field_def)

lemma parse_field_size: "parse_field ''NarSize'' (format_nat (unat sz)) info = Inr (info\<lparr>NarSize := sz\<rparr>)"
  using unsigned_less [of sz, where 'a = nat] by (simp add: parse_field_def parse_uint64_format_nat)

lemma format_nat_no_newline: "newline \<notin> set (format_nat n)"
  using format_nat_digits [of newline n] by (auto simp: is_digit_def)

lemma refs_no_newline:
  assumes "narinfo_refs_ok refs"
  shows "newline \<notin> set (join_str '' '' (map (\<lambda>ref. trim_prefix ref nixStoreDir) refs))"
proof
  assume "newline \<in> set (join_str '' '' (map (\<lambda>ref. trim_prefix ref nixStoreDir) refs))"
  from join_str_chars [OF this] obtain r where r: "r \<in> set refs" "newline \<in> set (trim_prefix r nixStoreDir)" by auto
  with assms obtain base where "r = nixStoreDir @ base" "\<forall>c \<in> set base. \<not> is_space c"
    unfolding narinfo_refs_ok_def by blast
  with r(2) show False by (auto simp: is_space_def)
qed

definition format_fields :: "upstreamNarinfo \<Rightarrow> string list \<Rightarrow> (string \<times> string) list" where
  "format_fields info sigs =
     [(''StorePath'', StorePath info), (''URL'', un_NarKey info), (''Compression'', un_Compression info),
      (''NarHash'', NarHash info), (''NarSize'', format_nat (unat (NarSize info))),
      (''References'', join_str '' '' (map (\<lambda>ref. trim_prefix ref nixStoreDir) (References info)))] @
     (if un_Deriver info \<noteq> '''' then [(''Deriver'', un_Deriver info)] else []) @
     (if un_CA info \<noteq> '''' then [(''CA'', un_CA info)] else []) @ map (\<lambda>s. (''Sig'', s)) sigs"

lemma format_narinfo_fields:
  "format_narinfo info sigs = concat (map (\<lambda>(name, val). narinfo_line name val) (format_fields info sigs))"
  by (simp add: format_narinfo_def format_fields_def comp_def)

lemma format_narinfo_parse:
  assumes "narinfo_clean info" "un_Compression info \<noteq> ''''" "newline \<notin> set (un_NarKey info)"
    and "\<forall>sig \<in> set sigs. newline \<notin> set sig"
  shows "parseNarinfo (format_narinfo info sigs) =
    Inr (info\<lparr>un_URL := un_NarKey info, un_NarKey := '''', un_Sigs := sigs\<rparr>)"
proof -
  have refs: "narinfo_refs_ok (References info)" using assms(1) by (simp add: narinfo_clean_def)
  have "parseNarinfo (format_narinfo info sigs) = parse_printed (format_fields info sigs)"
    unfolding format_narinfo_fields
    by (rule parse_printed)
      (use assms refs_no_newline [OF refs] format_nat_no_newline in \<open>auto simp: format_fields_def narinfo_clean_def\<close>)
  also have "\<dots> = Inr (info\<lparr>un_URL := un_NarKey info, un_NarKey := '''', un_Sigs := sigs\<rparr>)"
    using parse_fields_sigs [where fs = "[]"] assms(2) refs
    by (cases info)
      (auto simp: parse_printed_def format_fields_def parse_field_simps parse_field_size parse_field_references
        empty_narinfo_def)
  finally show ?thesis .
qed

section \<open>What the client prints\<close>

definition meta_clean :: "NarinfoMetadata \<Rightarrow> bool" where
  "meta_clean meta \<longleftrightarrow> newline \<notin> set (StorePath meta) \<and> newline \<notin> set (NarHash meta) \<and>
     newline \<notin> set (nm_URL meta) \<and> newline \<notin> set (nm_Compression meta) \<and> nm_Compression meta \<noteq> '''' \<and>
     (\<forall>d. nm_Deriver meta = Some d \<longrightarrow> newline \<notin> set d) \<and> (\<forall>ca. nm_CA meta = Some ca \<longrightarrow> newline \<notin> set ca) \<and>
     narinfo_refs_ok (References meta)"

definition generate_fields :: "NarinfoMetadata \<Rightarrow> string list \<Rightarrow> (string \<times> string) list" where
  "generate_fields meta sigs =
     [(''StorePath'', StorePath meta), (''URL'', nm_URL meta), (''Compression'', nm_Compression meta),
      (''NarHash'', NarHash meta), (''NarSize'', format_nat (unat (NarSize meta))),
      (''References'', join_str '' '' (map (\<lambda>ref. trim_prefix ref nixStoreDir) (sort (References meta))))] @
     (case nm_Deriver meta of None \<Rightarrow> [] | Some d \<Rightarrow> [(''Deriver'', trim_prefix d nixStoreDir)]) @
     map (\<lambda>s. (''Sig'', s)) (sort sigs) @
     (case nm_CA meta of None \<Rightarrow> [] | Some ca \<Rightarrow> [(''CA'', ca)])"

lemma join_spaces: "ws \<noteq> [] \<Longrightarrow> concat (map (\<lambda>w. '' '' @ w) ws) = '' '' @ join_str '' '' ws"
  by (induction "'' ''" ws rule: join_str.induct) auto

lemma generate_narinfo_fields:
  "generateNarinfoContent meta sigs = concat (map (\<lambda>(name, val). narinfo_line name val) (generate_fields meta sigs))"
proof -
  have "''References:'' @ concat (map (\<lambda>ref. '' '' @ trim_prefix ref nixStoreDir) (sort (References meta))) @
      (if References meta = [] then '' '' else '''') @ [newline] =
      narinfo_line ''References'' (join_str '' '' (map (\<lambda>ref. trim_prefix ref nixStoreDir) (sort (References meta))))"
    (is "?l = ?r")
  proof (cases "References meta = []")
    case False
    then have "sort (References meta) \<noteq> []" by (metis set_empty set_sort)
    with False join_spaces [of "map (\<lambda>ref. trim_prefix ref nixStoreDir) (sort (References meta))"]
    show ?thesis by (simp add: narinfo_line_def comp_def)
  qed (simp add: narinfo_line_def)
  then show ?thesis
    by (cases "nm_Deriver meta"; cases "nm_CA meta")
      (simp_all add: generateNarinfoContent_def generate_fields_def comp_def flip: append_assoc)
qed

lemma narinfo_refs_sort: "narinfo_refs_ok (sort refs) = narinfo_refs_ok refs"
  by (simp add: narinfo_refs_ok_def)

definition narinfo_of_meta :: "NarinfoMetadata \<Rightarrow> string list \<Rightarrow> upstreamNarinfo" where
  "narinfo_of_meta meta sigs =
     \<lparr>StorePath = StorePath meta, NarHash = NarHash meta, NarSize = NarSize meta,
      References = sort (References meta), un_URL = nm_URL meta, un_NarKey = '''', un_Compression = nm_Compression meta,
      un_Deriver = (case nm_Deriver meta of None \<Rightarrow> '''' | Some d \<Rightarrow> trim_prefix d nixStoreDir),
      un_CA = (case nm_CA meta of None \<Rightarrow> '''' | Some ca \<Rightarrow> ca), un_Sigs = sort sigs\<rparr>"

lemma trim_prefix_chars: "c \<in> set (trim_prefix s p) \<Longrightarrow> c \<in> set s"
  by (auto simp: trim_prefix_def split: if_splits dest: in_set_dropD)

lemma generate_parse:
  assumes "meta_clean meta" and "\<forall>sig \<in> set sigs. newline \<notin> set sig"
  shows "parseNarinfo (generateNarinfoContent meta sigs) = Inr (narinfo_of_meta meta sigs)"
proof -
  have refs: "narinfo_refs_ok (sort (References meta))" using assms(1) by (simp add: meta_clean_def narinfo_refs_sort)
  have d: "newline \<notin> set (trim_prefix d nixStoreDir)" if "nm_Deriver meta = Some d" for d
    using that assms(1) trim_prefix_chars [of newline d nixStoreDir] by (auto simp: meta_clean_def)
  have "parseNarinfo (generateNarinfoContent meta sigs) = parse_printed (generate_fields meta sigs)"
    unfolding generate_narinfo_fields
    by (rule parse_printed)
      (use assms refs_no_newline [OF refs] format_nat_no_newline d in
        \<open>cases "nm_Deriver meta"; cases "nm_CA meta"; auto simp: generate_fields_def meta_clean_def\<close>)+
  also have "\<dots> = Inr (narinfo_of_meta meta sigs)"
    using parse_fields_sigs [where fs = "[]"] parse_fields_sigs [where fs = "[(''CA'', ca)]" for ca] assms(1) refs
    by (cases "nm_Deriver meta"; cases "nm_CA meta")
      (auto simp: parse_printed_def generate_fields_def parse_field_simps parse_field_size parse_field_references
        empty_narinfo_def narinfo_of_meta_def meta_clean_def)
  finally show ?thesis .
qed

lemma GenerateFingerprint_iff:
  "GenerateFingerprint (Some info) = Inr fp \<longleftrightarrow>
   has_prefix (StorePath info) nix_store \<and> has_prefix (NarHash info) ''sha256:'' \<and> length (NarHash info) = 59 \<and>
   (\<forall>ref \<in> set (References info). has_prefix ref nix_store) \<and>
   fp = ''1;'' @ StorePath info @ '';'' @ NarHash info @ '';'' @ format_nat (unat (NarSize info)) @ '';'' @
        join_str '','' (sort (References info))"
  by (cases "filter (\<lambda>ref. \<not> has_prefix ref nix_store) (References info)")
    (auto simp: GenerateFingerprint_def filter_empty_conv filter_eq_Cons_iff)

lemma fingerprint_sort:
  assumes "StorePath b = StorePath a" "NarHash b = NarHash a" "NarSize b = NarSize a" "References b = sort (References a)"
  shows "GenerateFingerprint (Some b) = Inr fp \<longleftrightarrow> GenerateFingerprint (Some a) = Inr fp"
  unfolding GenerateFingerprint_iff assms by (simp add: sorted_sort_id)

section \<open>Properties\<close>

text \<open>
  C28: what the server prints of an upstream narinfo is read as what it accepted. For every text that was
  parsed, whichever fields it had and in whichever order, the text that is stored instead, with the
  location of the NAR in this cache and the signatures appended, parses again, to the same fields with
  that location and these signatures; so no field, reference or signature is lost, split or invented
  between the check and the clients.
\<close>
theorem parseNarinfo_format:
  assumes "parseNarinfo text = Inr info" and "newline \<notin> set key" and "\<forall>sig \<in> set sigs. newline \<notin> set sig"
  shows "parseNarinfo (format_narinfo (info\<lparr>un_NarKey := key\<rparr>) sigs) =
         Inr (info\<lparr>un_URL := key, un_NarKey := '''', un_Sigs := sigs\<rparr>)"
proof -
  from parseNarinfo_clean [OF assms(1)] have "narinfo_clean (info\<lparr>un_NarKey := key\<rparr>)" "un_Compression info \<noteq> ''''"
    by (auto simp: narinfo_clean_def)
  from format_narinfo_parse [OF this(1) _ _ assms(3)] this(2) assms(2) show ?thesis by (cases info) simp
qed

lemma VerifyNarinfo_iff:
  "VerifyNarinfo ed pk info sigs \<longleftrightarrow> (\<exists>fp. GenerateFingerprint (Some info) = Inr fp \<and> any_signature ed pk fp sigs)"
  by (cases "GenerateFingerprint (Some info)") (simp_all add: VerifyNarinfo_def)

definition narinfo_example_text :: string where
  "narinfo_example_text =
     narinfo_line ''StorePath'' ''/nix/store/00000000000000000000000000000000-a'' @
     narinfo_line ''Extra'' ''dropped: here'' @ narinfo_line ''URL'' ''x.nar'' @ narinfo_line ''NarSize'' ''120'' @
     narinfo_line ''NarHash'' ''sha256:0000000000000000000000000000000000000000000000000000'' @
     narinfo_line ''Sig'' ''k-1:AAAA'' @ narinfo_line ''References'' '' 11111111111111111111111111111111-b  ''"

definition narinfo_example :: upstreamNarinfo where
  "narinfo_example = empty_narinfo\<lparr>StorePath := ''/nix/store/00000000000000000000000000000000-a'', NarSize := 120,
     NarHash := ''sha256:0000000000000000000000000000000000000000000000000000'', un_URL := ''x.nar'',
     un_Compression := ''bzip2'', References := [''/nix/store/11111111111111111111111111111111-b''],
     un_Sigs := [''k-1:AAAA'']\<rparr>"

lemma base_examples:
  "isStorePathBase ''11111111111111111111111111111111-b''" "isStorePathBase ''22222222222222222222222222222222-c''"
  "list_all (\<lambda>c. \<not> is_space c) ''11111111111111111111111111111111-b''"
  "list_all (\<lambda>c. \<not> is_space c) ''22222222222222222222222222222222-c''"
  by code_simp+

lemma narinfo_example_parses: "parseNarinfo narinfo_example_text = Inr narinfo_example"
proof -
  let ?fs = "[(''StorePath'', ''/nix/store/00000000000000000000000000000000-a''), (''Extra'', ''dropped: here''),
    (''URL'', ''x.nar''), (''NarSize'', ''120''),
    (''NarHash'', ''sha256:0000000000000000000000000000000000000000000000000000''),
    (''Sig'', ''k-1:AAAA''), (''References'', '' 11111111111111111111111111111111-b  '')]"
  have "parseNarinfo narinfo_example_text = parse_printed ?fs"
    using parse_printed [of ?fs] by (simp add: narinfo_example_text_def)
  moreover have "fields_str '' 11111111111111111111111111111111-b  '' = [''11111111111111111111111111111111-b'']"
    by code_simp
  moreover have "parse_uint64 ''120'' = Some 120" by (simp add: parse_uint64_def is_digit_def digit_val_def)
  ultimately show ?thesis
    by (simp add: parse_printed_def parse_field_def base_examples narinfo_example_def empty_narinfo_def nixStoreDir_def)
qed

theorem parseNarinfo_format_witness:
  "parseNarinfo (format_narinfo (narinfo_example\<lparr>un_NarKey := ''nar/0.nar.bz2''\<rparr>) [''k-1:AAAA'', ''us-1:BBBB'']) =
   Inr (narinfo_example\<lparr>un_URL := ''nar/0.nar.bz2'', un_NarKey := '''', un_Sigs := [''k-1:AAAA'', ''us-1:BBBB'']\<rparr>)"
  by (rule parseNarinfo_format [OF narinfo_example_parses]) simp_all

text \<open>
  What a client publishes another cache can take. The narinfo a client generates from the metadata
  of a path and the signatures of the server parses to that metadata, and a key accepts the parsed
  narinfo exactly if it accepts the metadata with those signatures, although references and signatures
  are sorted in the text.
\<close>
theorem generateNarinfoContent_verifies:
  assumes "meta_clean meta" and "\<forall>sig \<in> set sigs. newline \<notin> set sig"
  shows "\<exists>info. parseNarinfo (generateNarinfoContent meta sigs) = Inr info \<and> info = narinfo_of_meta meta sigs \<and>
           (VerifyNarinfo ed pk info (un_Sigs info) \<longleftrightarrow> VerifyNarinfo ed pk meta sigs)"
proof -
  let ?info = "narinfo_of_meta meta sigs"
  have "GenerateFingerprint (Some ?info) = Inr fp \<longleftrightarrow> GenerateFingerprint (Some meta) = Inr fp" for fp
    by (rule fingerprint_sort) (simp_all add: narinfo_of_meta_def)
  moreover have "any_signature ed pk fp (un_Sigs ?info) \<longleftrightarrow> any_signature ed pk fp sigs" for fp
    unfolding any_signature_iff [of ed pk fp sigs] any_signature_iff [of ed pk fp "un_Sigs ?info"]
    by (simp add: narinfo_of_meta_def)
  ultimately have "VerifyNarinfo ed pk ?info (un_Sigs ?info) \<longleftrightarrow> VerifyNarinfo ed pk meta sigs"
    unfolding VerifyNarinfo_iff by (simp only:)
  with generate_parse [OF assms] show ?thesis by blast
qed

definition meta_example :: NarinfoMetadata where
  "meta_example = \<lparr>StorePath = ''/nix/store/00000000000000000000000000000000-a'',
     NarHash = ''sha256:0000000000000000000000000000000000000000000000000000'', NarSize = 120,
     References = [''/nix/store/22222222222222222222222222222222-c'', ''/nix/store/11111111111111111111111111111111-b''],
     nm_URL = ''nar/0.nar.zst'', nm_Compression = ''zstd'', nm_Deriver = Some ''/nix/store/x.drv'', nm_Signatures = [],
     nm_CA = None\<rparr>"

lemma meta_example_clean: "meta_clean meta_example"
proof -
  have r: "References meta_example =
      [nixStoreDir @ ''22222222222222222222222222222222-c'', nixStoreDir @ ''11111111111111111111111111111111-b'']"
    by (simp add: meta_example_def nixStoreDir_def)
  have "narinfo_refs_ok (References meta_example)"
    unfolding narinfo_refs_ok_def
  proof
    fix ref assume "ref \<in> set (References meta_example)"
    then consider "ref = nixStoreDir @ ''11111111111111111111111111111111-b''"
      | "ref = nixStoreDir @ ''22222222222222222222222222222222-c''"
      unfolding r by (simp only: list.set insert_iff empty_iff) blast
    then show "\<exists>base. ref = nixStoreDir @ base \<and> isStorePathBase base \<and> (\<forall>c \<in> set base. \<not> is_space c)"
      using base_examples unfolding list_all_iff by cases blast+
  qed
  then show ?thesis by (simp add: meta_clean_def) (simp add: meta_example_def)
qed

theorem generateNarinfoContent_verifies_witness:
  "\<exists>info. parseNarinfo (generateNarinfoContent meta_example [''k-1:AAAA'', ''a-1:AAAA'']) = Inr info \<and>
     un_Sigs info = [''a-1:AAAA'', ''k-1:AAAA''] \<and> un_Deriver info = ''x.drv''"
proof -
  have "sort [''k-1:AAAA'', ''a-1:AAAA''] = [''a-1:AAAA'', ''k-1:AAAA'']" by code_simp
  then show ?thesis
    using generateNarinfoContent_verifies [OF meta_example_clean, of "[''k-1:AAAA'', ''a-1:AAAA'']" undefined undefined]
    by (auto simp: narinfo_of_meta_def) (simp_all add: meta_example_def nixStoreDir_def go_str)
qed

end
