(* ===== verification/Upstream.thy ===== *)
theory Upstream
  imports Narinfo Proxy
begin

text \<open>
  Pulling missing paths from upstream caches, \<open>src/server/upstream.go\<close>: the options, the check of an
  upstream narinfo, and the fill, which stores a NAR while it verifies it and publishes a re-signed
  narinfo through a pending closure. The outside world is \<open>up_env\<close>: HTTP answers, \<open>net/url\<close>, the
  decoders, the hash, the encoder, the signers and Ed25519. Concurrent fills of one path, which
  \<open>singleflight\<close> joins, are one call here.
\<close>

section \<open>The outside world\<close>

text \<open>An answer to a GET: a status, a body, and whether the body could be read to where it is read.\<close>

datatype fetched = FetchFails | Fetched nat string bool

record url =
  u_scheme :: string
  u_host :: string
  u_path :: string
  u_query :: string
  u_string :: string

type_synonym Signer = "(string \<times> NarInfo) list \<Rightarrow> sign_error + (string \<times> string) list"

record up_env =
  up_get :: "string \<Rightarrow> fetched"
  up_url :: "string \<Rightarrow> url option"
  up_bunzip2 :: "string \<Rightarrow> string option"
  up_unzstd :: "string \<Rightarrow> string option"
  up_zstd :: "string \<Rightarrow> string"
  up_sha256 :: "string \<Rightarrow> bytes"
  up_ed :: ed_verifier
  up_signers :: "Signer list"
  up_cut :: "string \<Rightarrow> bool"

text \<open>
  \<open>up_cut\<close> tells whether the upload of a NAR is canceled in time when its verification fails before the
  upload ends.
\<close>

datatype fill_error = UpstreamMiss | FillError string | FillGo go_error

section \<open>Configuration\<close>

record Upstream =
  us_URL :: string
  us_Key :: PublicKey

definition ParseUpstream :: "up_env \<Rightarrow> string \<Rightarrow> fill_error + Upstream" where
  "ParseUpstream x s =
     (case fields_str s of
        [addr, keytext] \<Rightarrow>
          (case up_url x addr of
             None \<Rightarrow> Inl (FillError ''invalid cache URL'')
           | Some u \<Rightarrow>
               if u_host u = '''' \<or> (u_scheme u \<noteq> ''http'' \<and> u_scheme u \<noteq> ''https'')
               then Inl (FillError ''invalid cache URL'')
               else (case ParsePublicKey keytext of
                       Inl err \<Rightarrow> Inl (FillError ''invalid public key'')
                     | Inr key \<Rightarrow> Inr \<lparr>us_URL = trim_suffix (u_string u) ''/'', us_Key = key\<rparr>))
      | _ \<Rightarrow> Inl (FillError ''expected cache URL and public key''))"

definition upstreamsFlag_Set :: "up_env \<Rightarrow> string \<Rightarrow> Upstream list \<Rightarrow> fill_error + Upstream list" where
  "upstreamsFlag_Set x val f =
     (case ParseUpstream x val of Inl err \<Rightarrow> Inl err | Inr upstream \<Rightarrow> Inr (f @ [upstream]))"

record up_service =
  ups :: "Upstream list"
  ReadsGatedByProxy :: bool
  MaxNarSize :: u64

definition configureUpstreams ::
  "service \<Rightarrow> nat \<Rightarrow> Upstream list \<Rightarrow> bool \<Rightarrow> up_service \<Rightarrow> fill_error + up_service" where
  "configureUpstreams s signingKeys optUpstreams optGated us =
     (let us = us\<lparr>ups := optUpstreams, ReadsGatedByProxy := optGated\<rparr> in
      if ups us = [] then Inr us
      else if signingKeys = 0 then Inl (FillError ''upstream caches need at least one signing key'')
      else if \<not> readGated s \<and> \<not> ReadsGatedByProxy us then Inl (FillError ''upstream caches need authenticated reads'')
      else Inr us)"

text \<open>\<open>ctx\<close> is the principal that admission left in the request's context.\<close>

definition mayFillFromUpstream :: "up_service \<Rightarrow> principal option \<Rightarrow> bool" where
  "mayFillFromUpstream us ctx \<longleftrightarrow>
     (if ups us = [] then False else if ReadsGatedByProxy us then True else ctx \<noteq> None)"

section \<open>Known misses\<close>

definition upstreamMissTTL :: time where
  "upstreamMissTTL = 60 * 1000000"

type_synonym upstreamMisses = "(string \<times> time) list"

definition recent :: "time \<Rightarrow> upstreamMisses \<Rightarrow> string \<Rightarrow> bool" where
  "recent t m hash \<longleftrightarrow> (case map_of m hash of None \<Rightarrow> False | Some until \<Rightarrow> t < until)"

definition record_miss :: "time \<Rightarrow> string \<Rightarrow> upstreamMisses \<Rightarrow> upstreamMisses" where
  "record_miss t hash m =
     (let m = (if 10000 \<le> length m then filter (\<lambda>(k, until). \<not> until < t) m else m)
      in AList.update hash (t + upstreamMissTTL) m)"

section \<open>The narinfo of an upstream\<close>

definition maxUpstreamNarinfoSize :: nat where
  "maxUpstreamNarinfoSize = 2 ^ 20"

definition narExtension :: "(string \<times> string) list" where
  "narExtension = [(''none'', ''.nar''), (''zstd'', ''.nar.zst''), (''bzip2'', ''.nar.bz2'')]"

definition nar_url_ok :: "up_env \<Rightarrow> string \<Rightarrow> bool" where
  "nar_url_ok x s \<longleftrightarrow>
     (case up_url x s of
        None \<Rightarrow> False
      | Some u \<Rightarrow> \<not> (u_scheme u \<noteq> '''' \<or> u_host u \<noteq> '''' \<or> has_prefix (u_path u) ''/'' \<or>
                    contains_str (u_path u) ''..'' \<or> u_query u \<noteq> ''''))"

definition check_narinfo :: "up_env \<Rightarrow> Upstream \<Rightarrow> string \<Rightarrow> u64 \<Rightarrow> upstreamNarinfo \<Rightarrow> fill_error + upstreamNarinfo" where
  "check_narinfo x upstream hash maxNarSize info =
     (if \<not> has_prefix (StorePath info) (nixStoreDir @ hash @ ''-'') \<or>
         \<not> isStorePathBase (trim_prefix (StorePath info) nixStoreDir)
      then Inl (FillError ''narinfo is for another path'')
      else if \<not> VerifyNarinfo (up_ed x) (us_Key upstream) info (un_Sigs info) then Inl (FillError ''no valid signature'')
      else if 0 < maxNarSize \<and> maxNarSize < NarSize info then Inl (FillError ''NAR size exceeds max NAR size'')
      else (case map_of narExtension (un_Compression info) of
              None \<Rightarrow> Inl (FillError ''unsupported compression'')
            | Some ext \<Rightarrow>
                if \<not> nar_url_ok x (un_URL info) then Inl (FillError ''unsupported NAR URL'')
                else (let key = ''nar/'' @ trim_prefix (NarHash info) ''sha256:'' @ ext in
                      if \<not> IsValidUploadKey key ''nar'' then Inl (FillError ''unsupported NarHash'')
                      else Inr (info\<lparr>un_NarKey := key\<rparr>))))"

definition fetchUpstreamNarinfo :: "up_env \<Rightarrow> Upstream \<Rightarrow> string \<Rightarrow> u64 \<Rightarrow> fill_error + upstreamNarinfo" where
  "fetchUpstreamNarinfo x upstream hash maxNarSize =
     (case up_get x (us_URL upstream @ ''/'' @ hash @ ''.narinfo'') of
        FetchFails \<Rightarrow> Inl (FillError ''fetching narinfo'')
      | Fetched status body ok \<Rightarrow>
          if status = 404 \<or> status = 403 then Inl UpstreamMiss
          else if status \<noteq> 200 then Inl (FillError ''fetching narinfo'')
          else if \<not> ok then Inl (FillError ''reading narinfo'')
          else if maxUpstreamNarinfoSize < length (take (maxUpstreamNarinfoSize + 1) body)
          then Inl (FillError ''narinfo too large'')
          else (case parseNarinfo (take (maxUpstreamNarinfoSize + 1) body) of
                  Inl err \<Rightarrow> Inl (FillError ''parsing narinfo'')
                | Inr info \<Rightarrow> check_narinfo x upstream hash maxNarSize info))"

section \<open>Storing\<close>

text \<open>The server with what fills put into the bucket, and the known misses.\<close>

record fill_state =
  fs_world :: world
  fs_contents :: "string \<Rightarrow> string option"
  fs_misses :: upstreamMisses

definition putObject :: "env \<Rightarrow> string \<Rightarrow> string \<Rightarrow> bool \<Rightarrow> fill_state \<Rightarrow> fill_error option \<times> fill_state" where
  "putObject e key body readable s =
     (if wait_fault e key then (Some (FillGo (OtherError ''rate limiter'')), s)
      else if \<not> readable then (Some (FillError ''uploading''), s)
      else (case PutObject e key (fs_world s) of
              (Some r, w) \<Rightarrow> (Some (FillGo (S3Error r)), s\<lparr>fs_world := note_error r w\<rparr>)
            | (None, w) \<Rightarrow> (None, s\<lparr>fs_world := record_success w, fs_contents := (fs_contents s)(key \<mapsto> body)\<rparr>)))"

definition decompress :: "up_env \<Rightarrow> string \<Rightarrow> string \<Rightarrow> string option" where
  "decompress x compression body =
     (if compression = ''none'' then Some body
      else if compression = ''bzip2'' then up_bunzip2 x body
      else if compression = ''zstd'' then up_unzstd x body
      else None)"

text \<open>The limits are \<open>int64\<close> sums; a reader with a limit that is not positive gives nothing.\<close>

definition verifyNar :: "up_env \<Rightarrow> string \<Rightarrow> upstreamNarinfo \<Rightarrow> fill_error option" where
  "verifyNar x body info =
     (case decompress x (un_Compression info) body of
        None \<Rightarrow> Some (FillError ''decompressing'')
      | Some nar \<Rightarrow>
          (let limited = take (nat (to_i64 (to_i64 (uint (NarSize info)) + 1))) nar in
           if length limited \<noteq> unat (NarSize info) then Some (FillError ''NAR size mismatch'')
           else if ''sha256:'' @ EncodeNixBase32 (up_sha256 x limited) \<noteq> NarHash info
           then Some (FillError ''NAR hash mismatch'')
           else None))"

definition nar_body_limit :: "u64 \<Rightarrow> nat" where
  "nar_body_limit sz = nat (to_i64 (to_i64 (to_i64 (uint sz) * 2) + 2 ^ 20))"

text \<open>
  The NAR is stored and verified at once. An upload that failed hands its error to the verification; an
  object that was stored and does not verify is removed again, and left if that fails.
\<close>

definition copyUpstreamNar ::
  "env \<Rightarrow> up_env \<Rightarrow> Upstream \<Rightarrow> upstreamNarinfo \<Rightarrow> fill_state \<Rightarrow> fill_error option \<times> fill_state" where
  "copyUpstreamNar e x upstream info s =
     (case up_get x (us_URL upstream @ ''/'' @ un_URL info) of
        FetchFails \<Rightarrow> (Some (FillError ''fetching NAR''), s)
      | Fetched status raw ok \<Rightarrow>
          if status \<noteq> 200 then (Some (FillError ''fetching NAR''), s)
          else (let body = take (nar_body_limit (NarSize info)) raw; verifyErr = verifyNar x body info in
                case putObject e (un_NarKey info) body (ok \<and> (verifyErr = None \<or> \<not> up_cut x (un_NarKey info))) s of
                  (Some err, s) \<Rightarrow> (Some (if verifyErr = None then err else FillError ''verifying NAR''), s)
                | (None, s) \<Rightarrow>
                    (case verifyErr of
                       None \<Rightarrow> (None, s)
                     | Some err \<Rightarrow>
                         (Some (FillError ''verifying NAR''),
                          (case RemoveObject e (un_NarKey info) (fs_world s) of
                             (None, w) \<Rightarrow> s\<lparr>fs_world := w, fs_contents := (fs_contents s)(un_NarKey info := None)\<rparr>
                           | (Some r, w) \<Rightarrow> s)))))"

fun sign_with_all :: "Signer list \<Rightarrow> string \<Rightarrow> NarInfo \<Rightarrow> string list \<Rightarrow> fill_error + string list" where
  "sign_with_all [] key info sigs = Inr sigs"
| "sign_with_all (sg # sgs) key info sigs =
     (case sg [(key, info)] of
        Inl err \<Rightarrow> Inl (FillError ''signing narinfo'')
      | Inr sigmap \<Rightarrow>
          (case map_of sigmap key of
             None \<Rightarrow> Inl (FillError ''signer returned no signature'')
           | Some sig \<Rightarrow> sign_with_all sgs key info (sigs @ [sig])))"

definition path_key :: "string \<Rightarrow> string" where
  "path_key storePath = take 32 (trim_prefix storePath nixStoreDir) @ ''.narinfo''"

definition fill_objects :: "upstreamNarinfo \<Rightarrow> (string \<times> objectWithRefs) list" where
  "fill_objects info =
     (let narinfoKey = path_key (StorePath info) in
      [(narinfoKey, \<lparr>ow_key = narinfoKey, ow_type = ''narinfo'',
                     ow_refs = map path_key (References info) @ [un_NarKey info], ow_nar_size = None\<rparr>),
       (un_NarKey info, \<lparr>ow_key = un_NarKey info, ow_type = ''nar'', ow_refs = [], ow_nar_size = Some (NarSize info)\<rparr>)])"

definition storeUpstreamPath ::
  "env \<Rightarrow> up_env \<Rightarrow> Upstream \<Rightarrow> upstreamNarinfo \<Rightarrow> fill_state \<Rightarrow> fill_error option \<times> fill_state" where
  "storeUpstreamPath e x upstream info s =
     (let narinfoKey = path_key (StorePath info) in
      case createPendingClosureInner e narinfoKey None (fill_objects info) True (fs_world s) of
        (Inl err, w) \<Rightarrow> (Some (FillGo err), s\<lparr>fs_world := w\<rparr>)
      | (Inr pending, w) \<Rightarrow>
          (let s = s\<lparr>fs_world := w\<rparr> in
           case (if un_NarKey info \<in> fst ` set (pcl_pending pending) then copyUpstreamNar e x upstream info s else (None, s)) of
             (Some err, s) \<Rightarrow> (Some err, s)
           | (None, s) \<Rightarrow>
               (case sign_with_all (up_signers x) narinfoKey (NarInfo.truncate info) (un_Sigs info) of
                  Inl err \<Rightarrow> (Some err, s)
                | Inr sigs \<Rightarrow>
                    (case putObject e narinfoKey (up_zstd x (format_narinfo info sigs)) True s of
                       (Some err, s) \<Rightarrow> (Some err, s)
                     | (None, s) \<Rightarrow>
                         (case commitPendingClosure e (pcl_id pending) (fs_world s) of
                            (Inl err, w) \<Rightarrow> (Some (FillGo err), s\<lparr>fs_world := w\<rparr>)
                          | (Inr folded, w) \<Rightarrow> (None, s\<lparr>fs_world := w\<rparr>))))))"

section \<open>The fill\<close>

fun try_upstreams ::
  "env \<Rightarrow> up_env \<Rightarrow> u64 \<Rightarrow> string \<Rightarrow> Upstream list \<Rightarrow> fill_state \<Rightarrow> fill_error option \<times> fill_state" where
  "try_upstreams e x maxNarSize hash [] s =
     (None, s\<lparr>fs_misses := record_miss (now e) hash (fs_misses s)\<rparr>)"
| "try_upstreams e x maxNarSize hash (upstream # upstreams) s =
     (case fetchUpstreamNarinfo x upstream hash maxNarSize of
        Inl err \<Rightarrow> try_upstreams e x maxNarSize hash upstreams s
      | Inr info \<Rightarrow> storeUpstreamPath e x upstream info s)"

definition fillOnce ::
  "env \<Rightarrow> up_env \<Rightarrow> up_service \<Rightarrow> string \<Rightarrow> fill_state \<Rightarrow> fill_error option \<times> fill_state" where
  "fillOnce e x us hash s =
     (if recent (now e) (fs_misses s) hash then (None, s)
      else try_upstreams e x (MaxNarSize us) hash (ups us) s)"

definition fillFromUpstream ::
  "env \<Rightarrow> up_env \<Rightarrow> up_service \<Rightarrow> string \<Rightarrow> fill_state \<Rightarrow> fill_error option \<times> fill_state" where
  "fillFromUpstream e x us narinfoKey s =
     (case objectExistsInS3 e narinfoKey (fs_world s) of
        (Inl err, w) \<Rightarrow> (Some (FillGo err), s\<lparr>fs_world := w\<rparr>)
      | (Inr True, w) \<Rightarrow> (None, s\<lparr>fs_world := w\<rparr>)
      | (Inr False, w) \<Rightarrow> fillOnce e x us (trim_suffix narinfoKey ''.narinfo'') (s\<lparr>fs_world := w\<rparr>))"

section \<open>What a fill changes\<close>

lemma check_narinfo_ok:
  assumes "check_narinfo x upstream hash maxNarSize info = Inr info'"
  shows "VerifyNarinfo (up_ed x) (us_Key upstream) info' (un_Sigs info')"
    and "has_prefix (StorePath info') (nixStoreDir @ hash @ ''-'')"
    and "IsValidUploadKey (un_NarKey info') ''nar''"
    and "maxNarSize = 0 \<or> NarSize info' \<le> maxNarSize"
    and "\<exists>key. info' = info\<lparr>un_NarKey := key\<rparr>"
proof -
  obtain ext where i: "info' = info\<lparr>un_NarKey := ''nar/'' @ trim_prefix (NarHash info) ''sha256:'' @ ext\<rparr>"
    "IsValidUploadKey (''nar/'' @ trim_prefix (NarHash info) ''sha256:'' @ ext) ''nar''"
    "VerifyNarinfo (up_ed x) (us_Key upstream) info (un_Sigs info)" "has_prefix (StorePath info) (nixStoreDir @ hash @ ''-'')"
    "\<not> (0 < maxNarSize \<and> maxNarSize < NarSize info)"
    using assms by (auto simp: check_narinfo_def Let_def split: if_splits option.splits)
  have "GenerateFingerprint (Some info') = Inr fp \<longleftrightarrow> GenerateFingerprint (Some info) = Inr fp" for fp
    unfolding GenerateFingerprint_iff i(1) by simp
  then show "VerifyNarinfo (up_ed x) (us_Key upstream) info' (un_Sigs info')"
    using i(3) unfolding VerifyNarinfo_iff by (simp add: i(1))
  show "has_prefix (StorePath info') (nixStoreDir @ hash @ ''-'')" "IsValidUploadKey (un_NarKey info') ''nar''"
    "\<exists>key. info' = info\<lparr>un_NarKey := key\<rparr>" using i by auto
  show "maxNarSize = 0 \<or> NarSize info' \<le> maxNarSize" using i(1,5) by (auto simp: word_gt_0 not_less)
qed

lemma fetch_ok:
  assumes "fetchUpstreamNarinfo x upstream hash maxNarSize = Inr info"
  obtains txtbody info0 where "parseNarinfo txtbody = Inr info0" "check_narinfo x upstream hash maxNarSize info0 = Inr info"
  using assms by (auto simp: fetchUpstreamNarinfo_def split: fetched.splits if_splits sum.splits)

lemma path_key_of:
  assumes "has_prefix path (nixStoreDir @ hash @ ''-'')" and "length hash = 32"
  shows "path_key path = hash @ ''.narinfo''"
proof -
  obtain rest where "path = nixStoreDir @ (hash @ ''-'' @ rest)" using assms(1) by (auto simp: has_prefix_iff)
  then show ?thesis using assms(2) by (simp add: path_key_def)
qed

lemma to_i64_wrap:
  assumes "2 ^ 63 \<le> n" "n < 2 ^ 64 + 2 ^ 63"
  shows "to_i64 n = n - 2 ^ 64"
proof -
  have "to_i64 n = to_i64 (n - 2 ^ 64)"
    by (simp add: to_i64_def signed_take_bit_eq_iff_take_bit_eq take_bit_eq_mod mod_diff_right_eq)
  also have "\<dots> = n - 2 ^ 64" using assms by (intro to_i64_id) simp_all
  finally show ?thesis .
qed

lemma verifyNar_ok:
  assumes "verifyNar x body info = None"
  shows "\<exists>nar. decompress x (un_Compression info) body = Some nar \<and> length nar = unat (NarSize info) \<and>
           ''sha256:'' @ EncodeNixBase32 (up_sha256 x nar) = NarHash info"
proof -
  let ?n = "uint (NarSize info)"
  obtain nar where nar: "decompress x (un_Compression info) body = Some nar"
    and len: "length (take (nat (to_i64 (to_i64 ?n + 1))) nar) = unat (NarSize info)"
    and hash: "''sha256:'' @ EncodeNixBase32 (up_sha256 x (take (nat (to_i64 (to_i64 ?n + 1))) nar)) = NarHash info"
    using assms by (auto simp: verifyNar_def Let_def split: option.splits if_splits)
  have n: "0 \<le> ?n" "?n < 2 ^ 64" using unsigned_less [of "NarSize info", where 'a = int] by simp_all
  have small: "?n < 2 ^ 63 - 1"
  proof (rule ccontr)
    assume "\<not> ?n < 2 ^ 63 - 1"
    then consider "?n = 2 ^ 63 - 1" | "2 ^ 63 \<le> ?n" by linarith
    then have "to_i64 (to_i64 ?n + 1) \<le> 0"
    proof cases
      case 1
      have "to_i64 ?n = 2 ^ 63 - 1" using 1 by (simp add: to_i64_id)
      then show ?thesis using to_i64_wrap [of "2 ^ 63"] by simp
    next
      case 2
      then have a: "to_i64 ?n + 1 = ?n - 2 ^ 64 + 1" using n to_i64_wrap [of ?n] by simp
      have b: "to_i64 (?n - 2 ^ 64 + 1) = ?n - 2 ^ 64 + 1" using 2 n by (intro to_i64_id) simp_all
      show ?thesis unfolding a b using n by simp
    qed
    then have "unat (NarSize info) = 0" using len by simp
    with \<open>\<not> ?n < 2 ^ 63 - 1\<close> show False by (simp add: unat_eq_0)
  qed
  have "- (2 ^ 63) \<le> ?n" "- (2 ^ 63) \<le> ?n + 1" using n(1) by (auto intro: order_trans [of _ 0])
  then have "to_i64 (to_i64 ?n + 1) = ?n + 1" using small by (simp only: to_i64_id)
  then have lim: "nat (to_i64 (to_i64 ?n + 1)) = Suc (unat (NarSize info))"
    using Suc_nat_eq_nat_zadd1 [OF n(1)] by (simp only: unat_eq_nat_uint add.commute)
  then have "take (nat (to_i64 (to_i64 ?n + 1))) nar = nar" using len by (simp add: min_def split: if_splits)
  with nar len hash show ?thesis by simp
qed

lemma putObject_effect:
  assumes "putObject e key body readable s = (r, s')"
  shows "w_db (fs_world s') = w_db (fs_world s)" "fs_contents s' = (if r = None then (fs_contents s)(key \<mapsto> body) else fs_contents s)"
  using assms
  by (auto simp: putObject_def note_error_def record_success_def record_throttle_def
      split: if_splits option.splits prod.splits dest: PutObject_effect(1))

lemma copyUpstreamNar_effect:
  assumes "copyUpstreamNar e x upstream info s = (r, s')"
  shows "w_db (fs_world s') = w_db (fs_world s)"
    and "r = None \<Longrightarrow> \<exists>body. fs_contents s' = (fs_contents s)(un_NarKey info \<mapsto> body) \<and> verifyNar x body info = None"
proof -
  have "w_db (fs_world s') = w_db (fs_world s) \<and>
    (r = None \<longrightarrow> (\<exists>body. fs_contents s' = (fs_contents s)(un_NarKey info \<mapsto> body) \<and> verifyNar x body info = None))"
  proof (cases "up_get x (us_URL upstream @ ''/'' @ un_URL info)")
    case FetchFails
    with assms show ?thesis by (auto simp: copyUpstreamNar_def)
  next
    case (Fetched status raw ok)
    show ?thesis
    proof (cases "status = 200")
      case True
      define body where "body = take (nar_body_limit (NarSize info)) raw"
      let ?v = "verifyNar x body info"
      obtain p s1 where p: "putObject e (un_NarKey info) body (ok \<and> (?v = None \<or> \<not> up_cut x (un_NarKey info))) s = (p, s1)"
        by fastforce
      obtain q w where q: "RemoveObject e (un_NarKey info) (fs_world s1) = (q, w)" by fastforce
      show ?thesis
        using assms Fetched True p q putObject_effect [OF p] RemoveObject_effect(1) [OF q]
        by (cases p; cases ?v; cases q) (auto simp: copyUpstreamNar_def Let_def simp flip: body_def)
    qed (use assms Fetched in \<open>auto simp: copyUpstreamNar_def\<close>)
  qed
  then show "w_db (fs_world s') = w_db (fs_world s)"
    "r = None \<Longrightarrow> \<exists>body. fs_contents s' = (fs_contents s)(un_NarKey info \<mapsto> body) \<and> verifyNar x body info = None" by blast+
qed

lemma createPendingClosureInner_effect:
  assumes "db_inv (w_db w)" and "createPendingClosureInner e closureKey roots objs verify w = (res, w')"
  shows "live (w_db w') k \<longleftrightarrow> live (w_db w) k"
    and "res = Inr pc \<Longrightarrow> (pcl_id pc, k) \<in> fst ` set (pending_objects (w_db w')) \<longleftrightarrow> k \<in> fst ` set objs"
    and "res = Inr pc \<Longrightarrow> k \<in> fst ` set objs \<Longrightarrow> k \<notin> fst ` set (pcl_pending pc) \<Longrightarrow> live (w_db w) k"
    and "res = Inr pc \<Longrightarrow> db_inv (w_db w')"
proof -
  obtain r w1 where ins: "insertPendingClosure e closureKey roots objs w = (r, w1)" by fastforce
  have live1: "live (w_db w1) k = live (w_db w) k"
  proof (cases r)
    case (Inr y)
    then obtain i row rows where "r = Inr ((i, row), rows)" by (cases y) auto
    from insertPendingClosure_ok(4) [OF ins [unfolded this]] show ?thesis by (simp add: live_def)
  qed (use ins insertPendingClosure_error in force)
  show "live (w_db w') k \<longleftrightarrow> live (w_db w) k"
  proof (cases r)
    case (Inl err)
    with ins assms(2) live1 show ?thesis by (auto simp: createPendingClosureInner_def split: if_splits)
  next
    case (Inr y)
    then obtain i row rows where y: "r = Inr ((i, row), rows)" by (cases y) auto
    obtain u w2 where u: "objectsToUpload e rows verify w1 = (u, w2)" by fastforce
    have "w_db w2 = w_db w1" using objectsToUpload_frame [OF u] by simp
    with assms(2) ins y u live1 show ?thesis
      by (auto simp: createPendingClosureInner_def DeletePendingClosure_def split: if_splits sum.splits)
  qed
  assume "res = Inr pc"
  with assms(2) obtain row rows w2 where ok: "insertPendingClosure e closureKey roots objs w = (Inr ((pcl_id pc, row), rows), w2)"
    "objectsToUpload e rows verify w2 = (Inr (pcl_pending pc), w')"
    using createPendingClosureInner_ok by metis
  note i = insertPendingClosure_ok [OF ok(1)]
  have inv: "db_inv (w_db w2)" by (rule insertPendingClosure_inv [OF assms(1) ok(1)])
  have db: "w_db w' = w_db w2" using objectsToUpload_frame [OF ok(2)] by simp
  show "db_inv (w_db w')" using inv db by simp
  have fresh: "(pcl_id pc, k) \<notin> fst ` set (pending_objects (w_db w))"
  proof -
    have "\<forall>((j, k), r) \<in> set (pending_objects (w_db w)). j < next_id (w_db w)"
      using assms(1) by (fastforce simp: db_inv_def foreign_keys_def pc_ids_def po_ids_def image_subset_iff)
    then show ?thesis unfolding i(1) by auto
  qed
  have keys: "fst ` set rows = fst ` set objs" unfolding i(2) by (rule fst_map_pair)
  have "fst ` set (List.map (\<lambda>(k, r). ((pcl_id pc, k), r)) rows) = Pair (pcl_id pc) ` fst ` set objs"
    unfolding keys [symmetric] by (simp add: image_image split_beta)
  then show "(pcl_id pc, k) \<in> fst ` set (pending_objects (w_db w')) \<longleftrightarrow> k \<in> fst ` set objs"
    using fresh unfolding db i(4) by (simp add: image_Un image_iff)
  show "live (w_db w) k" if "k \<in> fst ` set objs" "k \<notin> fst ` set (pcl_pending pc)"
  proof -
    from that(1) keys obtain r where r: "(k, r) \<in> set rows" by force
    with that(2) have "(k, r) \<notin> set (pcl_pending pc)" by force
    from objectsToUpload_skips_live(1) [OF inv ok(2) r this] show ?thesis by (simp add: i(4) live_def)
  qed
qed

lemma commitPendingClosure_live:
  assumes "commitPendingClosure e i w = (res, w')"
  shows "live (w_db w') k \<longleftrightarrow> live (w_db w) k \<or> (isl res = False \<and> (i, k) \<in> fst ` set (pending_objects (w_db w)))"
proof (cases "commit_pending_closure (now e) i (w_db w)")
  case (Inl err)
  with assms show ?thesis
    by (cases err) (auto simp: commitPendingClosure_def CommitPendingClosure_def split: if_splits)
next
  case (Inr y)
  then obtain n d where y: "commit_pending_closure (now e) i (w_db w) = Inr (n, d)" by (cases y) auto
  from live_commit_pending_closure [OF y, of k] y assms show ?thesis
    by (simp add: commitPendingClosure_def CommitPendingClosure_def split: if_splits) auto
qed

lemma sign_with_all_keeps: "sign_with_all sgs key info sigs = Inr sigs' \<Longrightarrow> set sigs \<subseteq> set sigs'"
proof (induction sgs arbitrary: sigs)
  case (Cons sg sgs)
  then obtain sig where "sign_with_all sgs key info (sigs @ [sig]) = Inr sigs'" by (auto split: sum.splits option.splits)
  from Cons.IH [OF this] show ?case by simp
qed simp

text \<open>What it means that a key of a fill is published: signed by the upstream, with the NAR verified.\<close>

definition filled :: "up_env \<Rightarrow> up_service \<Rightarrow> string \<Rightarrow> fill_state \<Rightarrow> string \<Rightarrow> bool" where
  "filled x us hash s k \<longleftrightarrow>
     (\<exists>u info sigs. u \<in> set (ups us) \<and> fetchUpstreamNarinfo x u hash (MaxNarSize us) = Inr info \<and>
        VerifyNarinfo (up_ed x) (us_Key u) info (un_Sigs info) \<and> set (un_Sigs info) \<subseteq> set sigs \<and>
        fs_contents s (hash @ ''.narinfo'') = Some (up_zstd x (format_narinfo info sigs)) \<and>
        (k = hash @ ''.narinfo'' \<or>
         k = un_NarKey info \<and>
         (\<exists>body nar. fs_contents s k = Some body \<and> decompress x (un_Compression info) body = Some nar \<and>
            length nar = unat (NarSize info) \<and> ''sha256:'' @ EncodeNixBase32 (up_sha256 x nar) = NarHash info)))"

text \<open>A path is live after its fill only if every step of it succeeded.\<close>

lemma storeUpstreamPath_effect:
  assumes st: "storeUpstreamPath e x u info s = (r, s')" and inv: "db_inv (w_db (fs_world s))"
    and neq: "un_NarKey info \<noteq> path_key (StorePath info)"
    and after: "live (w_db (fs_world s')) k" and before: "\<not> live (w_db (fs_world s)) k"
  shows "\<exists>sigs. set (un_Sigs info) \<subseteq> set sigs \<and>
    fs_contents s' (path_key (StorePath info)) = Some (up_zstd x (format_narinfo info sigs)) \<and>
    (k = path_key (StorePath info) \<or>
     k = un_NarKey info \<and> (\<exists>body. fs_contents s' k = Some body \<and> verifyNar x body info = None))"
proof -
  let ?nk = "path_key (StorePath info)"
  obtain c w1 where create: "createPendingClosureInner e ?nk None (fill_objects info) True (fs_world s) = (c, w1)"
    by fastforce
  note created = createPendingClosureInner_effect [OF inv create]
  obtain pc where c: "c = Inr pc"
    using st after before created(1) by (cases c) (auto simp: storeUpstreamPath_def Let_def create)
  define s1 where "s1 = s\<lparr>fs_world := w1\<rparr>"
  define copied where "copied = (if un_NarKey info \<in> fst ` set (pcl_pending pc) then copyUpstreamNar e x u info s1 else (None, s1))"
  obtain r2 s2 where r2: "copied = (r2, s2)" by fastforce
  have db2: "w_db (fs_world s2) = w_db w1"
    using r2 copyUpstreamNar_effect(1) [of e x u info s1] by (auto simp: copied_def s1_def split: if_splits)
  have st2: "storeUpstreamPath e x u info s =
    (case (r2, s2) of (Some err, s) \<Rightarrow> (Some err, s)
     | (None, s) \<Rightarrow>
       (case sign_with_all (up_signers x) ?nk (NarInfo.truncate info) (un_Sigs info) of
          Inl err \<Rightarrow> (Some err, s)
        | Inr sigs \<Rightarrow>
            (case putObject e ?nk (up_zstd x (format_narinfo info sigs)) True s of
               (Some err, s) \<Rightarrow> (Some err, s)
             | (None, s) \<Rightarrow>
                 (case commitPendingClosure e (pcl_id pc) (fs_world s) of
                    (Inl err, w) \<Rightarrow> (Some (FillGo err), s\<lparr>fs_world := w\<rparr>)
                  | (Inr folded, w) \<Rightarrow> (None, s\<lparr>fs_world := w\<rparr>)))))"
    unfolding storeUpstreamPath_def Let_def create c r2 [symmetric] copied_def s1_def by simp
  have live2: "\<not> live (w_db (fs_world s2)) k" using before created(1) db2 by simp
  have r2N: "r2 = None" using st after live2 unfolding st2 by (cases r2) auto
  obtain sigs where sigs: "sign_with_all (up_signers x) ?nk (NarInfo.truncate info) (un_Sigs info) = Inr sigs"
    using st after live2 unfolding st2 r2N
    by (cases "sign_with_all (up_signers x) ?nk (NarInfo.truncate info) (un_Sigs info)") auto
  obtain p s3 where p: "putObject e ?nk (up_zstd x (format_narinfo info sigs)) True s2 = (p, s3)" by fastforce
  note put = putObject_effect [OF p]
  have pN: "p = None" using st after live2 put(1) unfolding st2 r2N by (cases p) (auto simp: sigs p)
  obtain cr w4 where com: "commitPendingClosure e (pcl_id pc) (fs_world s3) = (cr, w4)" by fastforce
  have s': "s' = s3\<lparr>fs_world := w4\<rparr>"
    using st unfolding st2 r2N by (cases cr) (simp_all add: sigs p pN com)
  have "(pcl_id pc, k) \<in> fst ` set (pending_objects (w_db (fs_world s3)))"
    using commitPendingClosure_live [OF com, of k] after live2 put(1) s' by simp
  then have k: "k \<in> fst ` set (fill_objects info)" using created(2) [OF c] put(1) db2 by simp
  have keys: "fst ` set (fill_objects info) = {?nk, un_NarKey info}" by (simp add: fill_objects_def Let_def)
  have contents: "fs_contents s' = (fs_contents s2)(?nk \<mapsto> up_zstd x (format_narinfo info sigs))"
    using s' put(2) pN by simp
  have nar: "\<exists>body. fs_contents s' k = Some body \<and> verifyNar x body info = None" if "k \<noteq> ?nk"
  proof -
    have kn: "k = un_NarKey info" using k keys that by auto
    have "k \<in> fst ` set (pcl_pending pc)" using created(3) [OF c k] before created(1) by blast
    then have "copyUpstreamNar e x u info s1 = (None, s2)" using r2 r2N kn by (simp add: copied_def)
    from copyUpstreamNar_effect(2) [OF this] contents kn neq show ?thesis by auto
  qed
  show ?thesis
    using sign_with_all_keeps [OF sigs] contents nar k keys by (intro exI [of _ sigs]) auto
qed

lemma nar_key_not_narinfo: "IsValidUploadKey key ''nar'' \<Longrightarrow> MatchString narinfoRe k \<Longrightarrow> key \<noteq> k"
  by (auto elim!: upload_key_cases dest: pattern_shape)

lemma try_upstreams_effect:
  assumes "try_upstreams e x m hash us s = (r, s')" and "db_inv (w_db (fs_world s))" and "live (w_db (fs_world s')) k"
    and "\<not> live (w_db (fs_world s)) k"
  shows "\<exists>u info. u \<in> set us \<and> fetchUpstreamNarinfo x u hash m = Inr info \<and> storeUpstreamPath e x u info s = (r, s')"
  using assms
proof (induction us)
  case (Cons u us)
  then show ?case by (cases "fetchUpstreamNarinfo x u hash m") auto
qed auto


text \<open>
  The bucket grows only for readers with a credential. When the upstream options are accepted, every
  admitted read may pull missing paths, and each such read carries a client certificate the patterns
  allow, the API token, or a token with a granted scope, unless the operator asserted that a proxy
  authenticates all reads.
\<close>
theorem mayFill_authenticated:
  assumes "configureUpstreams s signingKeys optUpstreams optGated us = Inr us'"
    and "RequireScope s ScopeRead r = Admitted ctx"
  shows "(mayFillFromUpstream us' ctx \<longleftrightarrow> optUpstreams \<noteq> []) \<and>
    (mayFillFromUpstream us' ctx \<longrightarrow> 0 < signingKeys \<and>
      (optGated \<or> cert_matches s r (MTLSBoundSubjects s) \<or>
       MTLSBoundSubjectsRead s \<noteq> [] \<and> cert_matches s r (MTLSBoundSubjectsRead s) \<or>
       APIToken s \<noteq> '''' \<and> requestToken r = APIToken s \<or> token_grants s r ScopeRead))"
proof (cases "optUpstreams = [] \<or> optGated")
  case True
  with assms(1) show ?thesis
    by (auto simp: configureUpstreams_def mayFillFromUpstream_def Let_def split: if_splits)
next
  case False
  with assms(1) have gated: "readGated s" "0 < signingKeys"
    and us': "ups us' = optUpstreams" "ReadsGatedByProxy us' = optGated"
    by (auto simp: configureUpstreams_def Let_def split: if_splits)
  from assms(2) gated(1) obtain p where p: "authenticate s r = Some p" "ScopeRead \<in> set (scopes p)" "ctx = Some p"
    by (auto simp: RequireScope_def split: option.splits if_splits)
  from authenticated_credentials [OF p(1,2)] show ?thesis
    using False us' gated(2) p(3) by (auto simp: mayFillFromUpstream_def)
qed

definition fill_env :: up_env where
  "fill_env = \<lparr>up_get = (\<lambda>addr. if has_suffix addr ''.narinfo'' then Fetched 200 narinfo_example_text True
       else Fetched 200 ''BZh'' True),
     up_url = (\<lambda>s. Some \<lparr>u_scheme = '''', u_host = '''', u_path = s, u_query = '''', u_string = s\<rparr>),
     up_bunzip2 = (\<lambda>_. Some (replicate 120 (CHR ''n''))), up_unzstd = (\<lambda>_. None), up_zstd = (\<lambda>s. s),
     up_sha256 = (\<lambda>_. replicate 32 0), up_ed = (\<lambda>key text sig. key = [1]), up_signers = [], up_cut = (\<lambda>_. False)\<rparr>"

definition fill_upstream :: Upstream where
  "fill_upstream = \<lparr>us_URL = ''https://c'', us_Key = \<lparr>pk_name = ''k-1'', pk_key = [1]\<rparr>\<rparr>"

lemma fill_upstream [simp]: "us_URL fill_upstream = ''https://c''"
  "us_Key fill_upstream = \<lparr>pk_name = ''k-1'', pk_key = [1]\<rparr>"
  by (simp_all add: fill_upstream_def)

definition fill_service :: up_service where
  "fill_service = \<lparr>ups = [fill_upstream],
     ReadsGatedByProxy = True, MaxNarSize = 1000\<rparr>"

definition fill_start :: fill_state where
  "fill_start = \<lparr>fs_world = empty_world, fs_contents = Map.empty, fs_misses = []\<rparr>"

definition fill_info :: upstreamNarinfo where
  "fill_info = narinfo_example\<lparr>un_NarKey := ''nar/0000000000000000000000000000000000000000000000000000.nar.bz2''\<rparr>"

lemma fill_example_key:
  "IsValidUploadKey ''nar/0000000000000000000000000000000000000000000000000000.nar.bz2'' ''nar''"
proof -
  let ?h = "''0000000000000000000000000000000000000000000000000000''"
  have "length ?h = 52" "set ?h \<subseteq> set NixBase32Alphabet" by (simp_all add: NixBase32Alphabet_def)
  moreover have "''nar/0000000000000000000000000000000000000000000000000000.nar.bz2'' = ''nar/'' @ ?h @ ''.nar'' @ ''.bz2''"
    by simp
  ultimately have "MatchString narRe ''nar/0000000000000000000000000000000000000000000000000000.nar.bz2''"
    unfolding narRe_iff by blast
  moreover have "\<not> has_suffix ''nar/0000000000000000000000000000000000000000000000000000.nar.bz2'' ''/..''"
    by code_simp
  ultimately show ?thesis unfolding IsValidUploadKey_def by (simp del: MatchString.simps)
qed

lemma fill_example_check:
  "check_narinfo fill_env fill_upstream
     ''00000000000000000000000000000000'' 1000 narinfo_example = Inr fill_info"
proof -
  have a: "(\<not> has_prefix (StorePath narinfo_example) (nixStoreDir @ ''00000000000000000000000000000000'' @ ''-'') \<or>
         \<not> isStorePathBase (trim_prefix (StorePath narinfo_example) nixStoreDir)) = False"
    "VerifyNarinfo (up_ed fill_env) \<lparr>pk_name = ''k-1'', pk_key = [1]\<rparr> narinfo_example (un_Sigs narinfo_example)"
    "nar_url_ok fill_env (un_URL narinfo_example)"
    "map_of narExtension (un_Compression narinfo_example) = Some ''.nar.bz2''"
    "''nar/'' @ trim_prefix (NarHash narinfo_example) ''sha256:'' @ ''.nar.bz2'' =
       ''nar/0000000000000000000000000000000000000000000000000000.nar.bz2''"
    by code_simp+
  moreover have "\<not> ((0 :: u64) < 1000 \<and> 1000 < NarSize narinfo_example)" by (simp add: narinfo_example_def)
  ultimately show ?thesis
    unfolding check_narinfo_def fill_info_def fill_upstream
    by (simp only: Let_def fill_example_key if_False if_True option.case simp_thms)
qed

lemma fill_example_fetch:
  "fetchUpstreamNarinfo fill_env fill_upstream
     ''00000000000000000000000000000000'' 1000 = Inr fill_info"
proof -
  have "length narinfo_example_text \<le> maxUpstreamNarinfoSize"
    by (simp add: narinfo_example_text_def narinfo_line_def maxUpstreamNarinfoSize_def)
  have up: "up_get fill_env (''https://c'' @ ''/'' @ ''00000000000000000000000000000000'' @ ''.narinfo'') =
      Fetched 200 narinfo_example_text True"
    by (simp add: fill_env_def go_str)
  have small: "\<not> maxUpstreamNarinfoSize < length narinfo_example_text"
    using \<open>length narinfo_example_text \<le> maxUpstreamNarinfoSize\<close> by simp
  from \<open>length narinfo_example_text \<le> maxUpstreamNarinfoSize\<close>
  have "take (maxUpstreamNarinfoSize + 1) narinfo_example_text = narinfo_example_text" by simp
  then show ?thesis
    unfolding fetchUpstreamNarinfo_def fill_upstream up fetched.case
    by (simp only: narinfo_example_parses small fill_example_check sum.case if_False if_True simp_thms) simp
qed

lemma fill_example_verify: "verifyNar fill_env ''BZh'' fill_info = None"
proof -
  have "''sha256:'' @ EncodeNixBase32 (replicate 32 0) = NarHash fill_info" by code_simp
  moreover have "nat (to_i64 (to_i64 (uint (NarSize fill_info)) + 1)) = 121"
    by (simp add: fill_info_def narinfo_example_def to_i64_id)
  moreover have "unat (NarSize fill_info) = 120" "un_Compression fill_info = ''bzip2''" 
    by (simp_all add: fill_info_def narinfo_example_def)
  ultimately show ?thesis by (simp add: verifyNar_def decompress_def fill_env_def)
qed

lemma fill_example_copy:
  "copyUpstreamNar (quiet 0) fill_env u fill_info s =
   (None, s\<lparr>fs_world := record_success (snd (PutObject (quiet 0) (un_NarKey fill_info) (fs_world s))),
            fs_contents := (fs_contents s)(un_NarKey fill_info \<mapsto> ''BZh'')\<rparr>)"
proof -
  have "nar_body_limit (NarSize fill_info) = 1048816"
    by (simp add: nar_body_limit_def fill_info_def narinfo_example_def to_i64_id)
  moreover have "up_get fill_env (us_URL u @ ''/'' @ un_URL fill_info) = Fetched 200 ''BZh'' True"
    by (auto simp: fill_env_def fill_info_def narinfo_example_def has_suffix_def append_eq_append_conv2 append_eq_Cons_conv)
  ultimately show ?thesis
    by (simp add: copyUpstreamNar_def fill_example_verify putObject_def quiet_def PutObject_def)
qed

lemma fill_example_create:
  "case createPendingClosureInner (quiet 0) (path_key (StorePath fill_info)) None (fill_objects fill_info) True empty_world of
     (Inr pc, w) \<Rightarrow> un_NarKey fill_info \<in> fst ` set (pcl_pending pc) \<and>
       (case commit_pending_closure 0 (pcl_id pc) (w_db w) of
          Inr (n, d) \<Rightarrow> live d (un_NarKey fill_info)
        | _ \<Rightarrow> False)
   | _ \<Rightarrow> False"
  by code_simp

lemma fill_example_run:
  "live (w_db (fs_world (snd (fillFromUpstream (quiet 0) fill_env fill_service
     ''00000000000000000000000000000000.narinfo'' fill_start)))) (un_NarKey fill_info)"
proof -
  let ?nk = "path_key (StorePath fill_info)"
  obtain pc w where c: "createPendingClosureInner (quiet 0) ?nk None (fill_objects fill_info) True empty_world = (Inr pc, w)"
    and k: "un_NarKey fill_info \<in> fst ` set (pcl_pending pc)"
    and com: "case commit_pending_closure 0 (pcl_id pc) (w_db w) of Inr (n, d) \<Rightarrow> live d (un_NarKey fill_info) | _ \<Rightarrow> False"
    using fill_example_create by (auto split: prod.splits sum.splits)
  obtain n d where com: "commit_pending_closure 0 (pcl_id pc) (w_db w) = Inr (n, d)" "live d (un_NarKey fill_info)"
    using com by (auto split: prod.splits sum.splits)
  have put: "w_db (snd (PutObject (quiet 0) key w0)) = w_db w0" "fst (PutObject (quiet 0) key w0) = None" for key w0
    by (simp_all add: PutObject_def quiet_def)
  have stored: "putObject (quiet 0) key body True s =
      (None, s\<lparr>fs_world := record_success (snd (PutObject (quiet 0) key (fs_world s))), fs_contents := (fs_contents s)(key \<mapsto> body)\<rparr>)"
    for key body s by (simp add: putObject_def PutObject_def quiet_def)
  have quiet: "db_fault (quiet 0) x = False" "now (quiet 0) = 0" "up_signers fill_env = []" for x
    by (simp_all add: quiet_def fill_env_def)
  have "live (w_db (fs_world (snd (storeUpstreamPath (quiet 0) fill_env fill_upstream fill_info fill_start)))) (un_NarKey fill_info)"
    using c k com
    by (simp add: storeUpstreamPath_def Let_def fill_start_def fill_example_copy stored commitPendingClosure_def
        CommitPendingClosure_def put record_success_def quiet)
  moreover have "trim_suffix ''00000000000000000000000000000000.narinfo'' ''.narinfo'' = ''00000000000000000000000000000000''"
    by code_simp
  moreover have "objectExistsInS3 (quiet 0) ''00000000000000000000000000000000.narinfo'' empty_world = (Inr False, empty_world)"
    by code_simp
  ultimately show ?thesis
    using fill_example_fetch
    by (simp add: fillFromUpstream_def fillOnce_def fill_start_def recent_def fill_service_def flip: fill_upstream_def)
qed


definition gated_service :: service where
  "gated_service = plain_service\<lparr>OIDCValidator := None, MTLSProxyHeader := ''X-Verified'', MTLSBoundSubjectsRead := [''CN=r'']\<rparr>"

theorem mayFill_authenticated_witness:
  "mayFillFromUpstream (fill_service\<lparr>ReadsGatedByProxy := False\<rparr>) (Some adminPrincipal)"
proof -
  have "configureUpstreams gated_service 1 [fill_upstream] False fill_service =
      Inr (fill_service\<lparr>ReadsGatedByProxy := False\<rparr>)" by code_simp
  moreover have "RequireScope gated_service ScopeRead (bearer ''secret'') = Admitted (Some adminPrincipal)" by code_simp
  ultimately show ?thesis
    using mayFill_authenticated [of gated_service 1 "[fill_upstream]" False fill_service] by blast
qed

end
