(* ===== verification/SignHandler.thy ===== *)
theory SignHandler
  imports Uploads Narinfo
begin

text \<open>
  The signing of a push's narinfos: \<open>SignNarinfosHandler\<close> of \<open>src/server/uploads.go\<close> over the signers of
  the service (\<open>src/server/signing/sign.go\<close>), which are keys and signing programs. It joins the locale
  \<open>signer\<close> of \<open>Signing\<close> with the narinfo a client writes from the answer (\<open>Narinfo\<close>).
\<close>

section \<open>The signers of the service\<close>

datatype ServiceSigner = KeySigner Key | ProgramSigner ExternalSigner

text \<open>The signature scheme, the program and what ends the calls; the law about the scheme is \<open>ed_pair\<close>.\<close>

record sign_env =
  se_verify :: ed_verifier
  se_sign :: ed_signer
  se_program :: signing_program
  se_can_start :: "nat \<Rightarrow> bool"
  se_canceled :: bool

fun Signer_Sign ::
  "sign_env \<Rightarrow> ServiceSigner \<Rightarrow> (string \<times> 'a NarInfo_scheme) list \<Rightarrow> (sign_error + (string \<times> string) list) \<times> ServiceSigner" where
  "Signer_Sign e (KeySigner k) infos = (Sign (se_sign e) (\<lambda>_. se_canceled e) k infos, KeySigner k)"
| "Signer_Sign e (ProgramSigner s) infos =
     (case ExternalSign (se_verify e) (se_program e) (se_can_start e) (se_canceled e) infos s of
        (res, s) \<Rightarrow> (res, ProgramSigner s))"

fun signer_pub :: "ServiceSigner \<Rightarrow> PublicKey" where
  "signer_pub (KeySigner k) = key_public k"
| "signer_pub (ProgramSigner s) = es_pub s"

text \<open>A key the server has loaded; a program needs no law, its answers are checked.\<close>

fun signer_ok :: "sign_env \<Rightarrow> ServiceSigner \<Rightarrow> bool" where
  "signer_ok e (KeySigner k) \<longleftrightarrow> ed_pair (se_verify e) (se_sign e) (key_private k) \<and> CHR '':'' \<notin> set (key_name k)"
| "signer_ok e (ProgramSigner s) \<longleftrightarrow> True"

interpretation service_signer: signer "Signer_Sign e" signer_pub "se_verify e" "signer_ok e" for e
proof unfold_locales
  fix s s' :: ServiceSigner and infos :: "(string \<times> 'a NarInfo_scheme) list" and res
  assume ok: "signer_ok e s" and s: "Signer_Sign e s infos = (res, s')"
  show "signer_ok e s' \<and> signer_pub s' = signer_pub s"
  proof (cases s)
    case (ProgramSigner p)
    with s obtain p' where "ExternalSign (se_verify e) (se_program e) (se_can_start e) (se_canceled e) infos p = (res, p')"
      "s' = ProgramSigner p'"
      by (auto split: prod.splits)
    with external.sign_ok [OF _ this(1)] ProgramSigner show ?thesis by simp
  qed (use ok s in auto)
next
  fix s s' :: ServiceSigner and infos :: "(string \<times> 'a NarInfo_scheme) list" and sigs
  assume ok: "signer_ok e s" and s: "Signer_Sign e s infos = (Inr sigs, s')" and d: "distinct (map fst infos)"
  show "distinct (map fst sigs) \<and> set (map fst sigs) = set (map fst infos)"
  proof (cases s)
    case (KeySigner k)
    with ok s d local_key.sign_keys [where ed = "se_verify e" and ed_sign = "se_sign e" and canceled = "\<lambda>_. se_canceled e"
        and s = k and infos = infos and sigs = sigs]
    show ?thesis by simp
  next
    case (ProgramSigner p)
    with s obtain p' where "ExternalSign (se_verify e) (se_program e) (se_can_start e) (se_canceled e) infos p = (Inr sigs, p')"
      by (auto split: prod.splits)
    from external.sign_keys [OF _ this d] show ?thesis by simp
  qed
  fix k info sig
  assume m: "(k, info) \<in> set infos" "(k, sig) \<in> set sigs"
  show "\<exists>fp. GenerateFingerprint (Some info) = Inr fp \<and> verifies (se_verify e) (signer_pub s) fp sig"
  proof (cases s)
    case (KeySigner key)
    with ok s d m local_key.sign_verifies [where ed = "se_verify e" and ed_sign = "se_sign e" and canceled = "\<lambda>_. se_canceled e"
        and s = key and s' = key and infos = infos and sigs = sigs and k = k and info = info and sig = sig]
    have "\<exists>fp. GenerateFingerprint (Some info) = Inr fp \<and> verifies (se_verify e) (key_public key) fp sig" by simp
    then show ?thesis unfolding KeySigner signer_pub.simps .
  next
    case (ProgramSigner p)
    with s obtain p' where "ExternalSign (se_verify e) (se_program e) (se_can_start e) (se_canceled e) infos p = (Inr sigs, p')"
      by (auto split: prod.splits)
    from external.sign_verifies [OF _ this d m] ProgramSigner show ?thesis by simp
  qed
qed

section \<open>The handler\<close>

fun add_signatures ::
  "(string \<times> string) list \<Rightarrow> (string \<times> string list) list \<Rightarrow> (string \<times> string list) list option" where
  "add_signatures [] signaturesMap = Some signaturesMap"
| "add_signatures ((objectKey, signature) # sigs) signaturesMap =
     (case map_of signaturesMap objectKey of
        None \<Rightarrow> None
      | Some existing \<Rightarrow> add_signatures sigs (AList.update objectKey (existing @ [signature]) signaturesMap))"

text \<open>The loop over the signers, of which one may be nil; the signers that were asked have changed.\<close>

fun sign_all ::
  "sign_env \<Rightarrow> ServiceSigner option list \<Rightarrow> (string \<times> 'a NarInfo_scheme) list \<Rightarrow> (string \<times> string list) list \<Rightarrow>
   (string + (string \<times> string list) list) \<times> ServiceSigner option list" where
  "sign_all e [] infos signaturesMap = (Inr signaturesMap, [])"
| "sign_all e (None # signers) infos signaturesMap = (Inl ''signing key cannot be nil'', None # signers)"
| "sign_all e (Some s # signers) infos signaturesMap =
     (case Signer_Sign e s infos of
        (Inl err, s) \<Rightarrow> (Inl ''failed to sign narinfos'', Some s # signers)
      | (Inr signatures, s) \<Rightarrow>
          if length signatures \<noteq> length infos
          then (Inl ''failed to sign narinfos: unexpected signature count'', Some s # signers)
          else (case add_signatures signatures signaturesMap of
                  None \<Rightarrow> (Inl ''failed to sign narinfos: unexpected object key'', Some s # signers)
                | Some signaturesMap \<Rightarrow>
                    (case sign_all e signers infos signaturesMap of
                       (res, signers) \<Rightarrow> (res, Some s # signers))))"

definition narInfo_of :: "NarinfoMetadata \<Rightarrow> NarInfo" where
  "narInfo_of meta = \<lparr>StorePath = StorePath meta, NarHash = NarHash meta, NarSize = NarSize meta, References = References meta\<rparr>"

definition SignNarinfosHandler ::
  "env \<Rightarrow> sign_env \<Rightarrow> string \<Rightarrow> (string \<times> NarinfoMetadata) list body \<Rightarrow> world \<Rightarrow> ServiceSigner option list \<Rightarrow>
   (string \<times> string list) list reply \<times> ServiceSigner option list" where
  "SignNarinfosHandler e se idValue body w signers =
     (case parsePendingClosureID idValue of
        Inl (code, msg) \<Rightarrow> (HttpError code msg, signers)
      | Inr i \<Rightarrow>
          (case decodeJSONBody body of
             Inl (code, msg) \<Rightarrow> (HttpError code msg, signers)
           | Inr members \<Rightarrow>
               (let narinfos = json_object members; validKeys = GetPendingObjectKeys i (w_db w) in
                if db_fault e ''GetPendingObjectKeys'' then (HttpError 500 ''failed to get pending objects'', signers)
                else if list_ex (\<lambda>(objectKey, meta). objectKey \<notin> set validKeys) narinfos
                then (HttpError 403 ''invalid narinfo key: not part of this pending closure'', signers)
                else if narinfos = [] then (HttpOk 200 [], signers)
                else (case sign_all se signers (List.map (\<lambda>(objectKey, meta). (objectKey, narInfo_of meta)) narinfos)
                             (List.map (\<lambda>(objectKey, meta). (objectKey, [])) narinfos) of
                        (Inl msg, signers) \<Rightarrow> (HttpError 500 msg, signers)
                      | (Inr signaturesMap, signers) \<Rightarrow> (HttpOk 200 signaturesMap, signers)))))"

section \<open>What the answer holds\<close>

lemma add_signatures_ok:
  "add_signatures sigs m = Some m' \<Longrightarrow> distinct (map fst sigs) \<Longrightarrow> map fst m' = map fst m \<and>
   (\<forall>k ex. map_of m k = Some ex \<longrightarrow> map_of m' k = Some (ex @ (case map_of sigs k of None \<Rightarrow> [] | Some sg \<Rightarrow> [sg])))"
proof (induction sigs arbitrary: m)
  case (Cons a sigs)
  obtain objectKey signature where a: "a = (objectKey, signature)" by (cases a)
  with Cons.prems(1) obtain existing where ex: "map_of m objectKey = Some existing"
    and r: "add_signatures sigs (AList.update objectKey (existing @ [signature]) m) = Some m'"
    by (auto split: option.splits)
  have notin: "map_of sigs objectKey = None" using Cons.prems(2) a by (simp add: map_of_eq_None_iff)
  have "objectKey \<in> set (map fst m)" using ex by (metis map_of_eq_None_iff option.distinct(1) set_map)
  then have keys: "map fst (AList.update objectKey (existing @ [signature]) m) = map fst m" by (simp add: update_keys)
  have tl: "distinct (map fst sigs)" using Cons.prems(2) by simp
  note IH = Cons.IH [OF r tl]
  have "map_of m' k = Some (ex @ (case map_of (a # sigs) k of None \<Rightarrow> [] | Some sg \<Rightarrow> [sg]))" if "map_of m k = Some ex" for k ex
    using conjunct2 [OF IH, rule_format, of k] that ex notin a by (cases "k = objectKey") (auto simp: update_conv')
  with IH keys show ?case by simp
qed simp

lemma sign_all_ok:
  assumes "sign_all e signers infos m = (Inr m', signers')" and "distinct (map fst infos)"
    and "\<forall>s. Some s \<in> set signers \<longrightarrow> signer_ok e s"
  shows "None \<notin> set signers \<and> map fst m' = map fst m \<and>
    map (map_option signer_pub) signers' = map (map_option signer_pub) signers \<and>
    (\<forall>k info ex. (k, info) \<in> set infos \<longrightarrow> map_of m k = Some ex \<longrightarrow>
       (\<exists>ss. map_of m' k = Some (ex @ ss) \<and> length ss = length signers \<and>
          (\<forall>s \<in> set signers. \<exists>sig \<in> set ss. VerifyNarinfo (se_verify e) (signer_pub (the s)) info [sig])))"
  using assms
proof (induction e signers infos m arbitrary: m' signers' rule: sign_all.induct)
  case (3 e s signers infos m)
  from "3.prems"(1) obtain signatures s' m1 rest where sg: "Signer_Sign e s infos = (Inr signatures, s')"
    and len: "length signatures = length infos" and assms_add: "add_signatures signatures m = Some m1"
    and r: "sign_all e signers infos m1 = (Inr m', rest)" "signers' = Some s' # rest"
    by (auto split: prod.splits sum.splits if_splits option.splits)
  have ok: "signer_ok e s" using "3.prems"(3) by simp
  note keys = service_signer.sign_keys [OF ok sg "3.prems"(2)]
  note add = add_signatures_ok [OF assms_add conjunct1 [OF keys]]
  have okr: "\<forall>s. Some s \<in> set signers \<longrightarrow> signer_ok e s" using "3.prems"(3) by simp
  note IH = "3.IH" [OF sg [symmetric] refl _ assms_add r(1) "3.prems"(2) okr]
  show ?case
  proof (intro conjI allI impI)
    fix k info ex
    assume k: "(k, info) \<in> set infos" "map_of m k = Some ex"
    from service_signer.signed_verifies [OF ok sg "3.prems"(2) k(1)] obtain sig
      where sig: "map_of signatures k = Some sig" "VerifyNarinfo (se_verify e) (signer_pub s) info [sig]" by blast
    with add k(2) have "map_of m1 k = Some (ex @ [sig])" by simp
    with IH len k(1) obtain ss where ss: "map_of m' k = Some ((ex @ [sig]) @ ss)" "length ss = length signers"
      "\<forall>s \<in> set signers. \<exists>sig \<in> set ss. VerifyNarinfo (se_verify e) (signer_pub (the s)) info [sig]" by blast
    with sig(2) show "\<exists>ss. map_of m' k = Some (ex @ ss) \<and> length ss = length (Some s # signers) \<and>
        (\<forall>s \<in> set (Some s # signers). \<exists>sig \<in> set ss. VerifyNarinfo (se_verify e) (signer_pub (the s)) info [sig])"
      by (intro exI [of _ "sig # ss"]) auto
  qed (use IH len add r(2) service_signer.sign_ok [OF ok sg] in simp_all)
qed simp_all

lemma fingerprint_narInfo_of: "GenerateFingerprint (Some (narInfo_of meta)) = GenerateFingerprint (Some meta)"
  by (simp add: GenerateFingerprint_def narInfo_of_def split: list.split)

lemma VerifyNarinfo_narInfo_of: "VerifyNarinfo ed pk (narInfo_of meta) sigs = VerifyNarinfo ed pk meta sigs"
  by (simp add: VerifyNarinfo_def fingerprint_narInfo_of)

text \<open>What a successful request says: the id, the body and the signatures of every narinfo.\<close>

definition signed_by_all :: "sign_env \<Rightarrow> ServiceSigner option list \<Rightarrow> NarinfoMetadata \<Rightarrow> string list \<Rightarrow> bool" where
  "signed_by_all se signers meta ss \<longleftrightarrow> length ss = length signers \<and>
     (\<forall>s \<in> set signers. \<exists>k. s = Some k \<and> VerifyNarinfo (se_verify se) (signer_pub k) meta ss)"

lemma SignNarinfosHandler_ok:
  assumes "SignNarinfosHandler e se idValue body w signers = (HttpOk code sigs, signers')"
    and "\<forall>s. Some s \<in> set signers \<longrightarrow> signer_ok se s"
  obtains i members where "parsePendingClosureID idValue = Inr i" "body = Decoded members"
    "map fst sigs = map fst (json_object members)"
    "map (map_option signer_pub) signers' = map (map_option signer_pub) signers"
    "\<forall>k meta. (k, meta) \<in> set (json_object members) \<longrightarrow> k \<in> set (GetPendingObjectKeys i (w_db w)) \<and>
       (\<exists>ss. map_of sigs k = Some ss \<and> signed_by_all se signers meta ss)"
proof -
  obtain i where i: "parsePendingClosureID idValue = Inr i"
    using assms(1) by (cases "parsePendingClosureID idValue") (auto simp: SignNarinfosHandler_def)
  obtain members where b: "body = Decoded members"
    using assms(1) i by (cases body) (auto simp: SignNarinfosHandler_def decodeJSONBody_def)
  define narinfos where "narinfos = json_object members"
  let ?infos = "map (\<lambda>(objectKey, meta). (objectKey, narInfo_of meta)) narinfos"
  let ?m = "map (\<lambda>(objectKey, meta). (objectKey, [])) narinfos"
  have h: "(if narinfos = [] then (HttpOk 200 [], signers)
      else (case sign_all se signers ?infos ?m of
              (Inl msg, signers) \<Rightarrow> (HttpError 500 msg, signers)
            | (Inr signaturesMap, signers) \<Rightarrow> (HttpOk 200 signaturesMap, signers))) = (HttpOk code sigs, signers')"
    and pending: "\<forall>(k, meta) \<in> set narinfos. k \<in> set (GetPendingObjectKeys i (w_db w))"
    using assms(1) i b
    by (auto simp: SignNarinfosHandler_def decodeJSONBody_def Let_def narinfos_def list_ex_iff split: if_splits)
  have d: "distinct (map fst narinfos)" by (simp add: narinfos_def distinct_json_object)
  then have di: "distinct (map fst ?infos)" by (simp add: comp_def case_prod_unfold)
  show thesis
  proof (cases "narinfos = []")
    case True
    with h that [OF i b] show thesis by (simp add: narinfos_def)
  next
    case False
    with h have run: "sign_all se signers ?infos ?m = (Inr sigs, signers')"
      by (auto split: prod.splits sum.splits)
    note res = sign_all_ok [OF run di assms(2)]
    have "\<exists>ss. map_of sigs k = Some ss \<and> signed_by_all se signers meta ss" if k: "(k, meta) \<in> set narinfos" for k meta
    proof -
      have "(k, narInfo_of meta) \<in> set ?infos" "map_of ?m k = Some []"
        using k d by (force intro: map_of_is_SomeI simp: comp_def case_prod_unfold)+
      with res obtain ss where ss: "map_of sigs k = Some ([] @ ss)" "length ss = length signers"
        "\<forall>s \<in> set signers. \<exists>sig \<in> set ss. VerifyNarinfo (se_verify se) (signer_pub (the s)) (narInfo_of meta) [sig]" by blast
      have "\<exists>a. s = Some a \<and> VerifyNarinfo (se_verify se) (signer_pub a) meta ss" if s: "s \<in> set signers" for s
      proof -
        from ss(3) s obtain sig where "sig \<in> set ss" "VerifyNarinfo (se_verify se) (signer_pub (the s)) meta [sig]"
          by (auto simp: VerifyNarinfo_narInfo_of)
        with VerifyNarinfo_mono [of _ _ meta "[sig]" ss] have "VerifyNarinfo (se_verify se) (signer_pub (the s)) meta ss" by simp
        then show ?thesis using res s by (cases s) auto
      qed
      with ss show ?thesis by (auto simp: signed_by_all_def)
    qed
    moreover have "map fst sigs = map fst (json_object members)"
      using res by (simp add: comp_def case_prod_unfold narinfos_def)
    moreover have "k \<in> set (GetPendingObjectKeys i (w_db w))" if "(k, meta) \<in> set narinfos" for k meta
      using pending that by blast
    moreover note sign_pub = res
    ultimately show thesis
      unfolding narinfos_def by (intro that [OF i b _ conjunct1 [OF conjunct2 [OF conjunct2 [OF sign_pub]]]]) blast+
  qed
qed

section \<open>Properties\<close>

text \<open>
  C29: what the server signs can be checked. When the handler answers and its signers are sound, each of
  the narinfos it was given, and nothing else, has a signature of every configured signer, and it was pending in
  the push. If moreover no field of a narinfo holds a newline, its references are clean paths and its
  compression is named, and none of its signatures holds a newline, then the text the client writes from its metadata
  and these signatures parses and is accepted by the public key of each signer, a key or a program. The
  condition on the signatures is not idle: the server lets a signature of a program through that has
  line breaks in it.
\<close>
theorem signed_narinfo_accepted:
  assumes "SignNarinfosHandler e se idValue (Decoded members) w signers = (HttpOk code sigs, signers')"
    and "\<forall>s. Some s \<in> set signers \<longrightarrow> signer_ok se s"
  shows "\<exists>i. parsePendingClosureID idValue = Inr i \<and> set (map fst sigs) = set (map fst (json_object members)) \<and>
    (\<forall>k meta. (k, meta) \<in> set (json_object members) \<longrightarrow> k \<in> set (GetPendingObjectKeys i (w_db w)) \<and>
       (\<exists>ss. map_of sigs k = Some ss \<and> length ss = length signers \<and>
          (meta_clean meta \<and> (\<forall>sig \<in> set ss. newline \<notin> set sig) \<longrightarrow>
             (\<exists>info. parseNarinfo (generateNarinfoContent meta ss) = Inr info \<and>
                (\<forall>s. Some s \<in> set signers \<longrightarrow> VerifyNarinfo (se_verify se) (signer_pub s) info (un_Sigs info))))))"
proof -
  obtain i where i: "parsePendingClosureID idValue = Inr i" "map fst sigs = map fst (json_object members)"
    and each: "\<forall>k meta. (k, meta) \<in> set (json_object members) \<longrightarrow> k \<in> set (GetPendingObjectKeys i (w_db w)) \<and>
       (\<exists>ss. map_of sigs k = Some ss \<and> signed_by_all se signers meta ss)"
    using assms by (elim SignNarinfosHandler_ok) auto
  have "\<exists>info. parseNarinfo (generateNarinfoContent meta ss) = Inr info \<and>
      (\<forall>s. Some s \<in> set signers \<longrightarrow> VerifyNarinfo (se_verify se) (signer_pub s) info (un_Sigs info))"
    if "signed_by_all se signers meta ss" "meta_clean meta \<and> (\<forall>sig \<in> set ss. newline \<notin> set sig)" for meta ss
    using that generateNarinfoContent_verifies [of meta ss] by (fastforce simp: signed_by_all_def)
  with each i show ?thesis by (fastforce simp: signed_by_all_def simp del: set_map)
qed

text \<open>A push with one narinfo pending, and a service with one key.\<close>

definition sign_world :: world where
  "sign_world = empty_world\<lparr>w_db := empty_db\<lparr>pending_closures := [(1, \<lparr>pc_key = ''r'', pc_started_at = 0, pc_roots = []\<rparr>)],
     pending_objects := [((1, ''r''), \<lparr>po_refs = [], po_size = None\<rparr>)], next_id := 2\<rparr>\<rparr>"

definition toy_env :: sign_env where
  "toy_env = \<lparr>se_verify = toy_verify, se_sign = toy_sign, se_program = program_example, se_can_start = (\<lambda>_. True),
     se_canceled = False\<rparr>"

definition toy_key :: Key where
  "toy_key = \<lparr>key_name = ''cache-1'', key_private = replicate 64 7\<rparr>"

theorem signed_narinfo_accepted_witness:
  "\<exists>sig info. SignNarinfosHandler (quiet 0) toy_env ''1'' (Decoded [(''r'', meta_example)]) sign_world
       [Some (KeySigner toy_key)] = (HttpOk 200 [(''r'', [sig])], [Some (KeySigner toy_key)]) \<and>
     parseNarinfo (generateNarinfoContent meta_example [sig]) = Inr info \<and>
     VerifyNarinfo toy_verify (key_public toy_key) info (un_Sigs info)"
proof -
  obtain fp where fp: "GenerateFingerprint (Some (narInfo_of meta_example)) = Inr fp"
    by (simp add: GenerateFingerprint_def narInfo_of_def meta_example_def nix_store_def go_str)
  define sig where "sig = ''cache-1:'' @ b64_encode (toy_sign (replicate 64 7) fp)"
  have ok: "\<forall>s. Some s \<in> set [Some (KeySigner toy_key)] \<longrightarrow> signer_ok toy_env s"
    by (simp add: toy_key_def toy_env_def ed_pair_def toy_verify_def toy_sign_def)
  have i: "parsePendingClosureID ''1'' = Inr 1"
    by (simp add: parsePendingClosureID_def parse_int_def is_digit_def digit_val_def)
  have run: "SignNarinfosHandler (quiet 0) toy_env ''1'' (Decoded [(''r'', meta_example)]) sign_world
      [Some (KeySigner toy_key)] = (HttpOk 200 [(''r'', [sig])], [Some (KeySigner toy_key)])"
    by (simp add: SignNarinfosHandler_def i decodeJSONBody_def json_object_def quiet_def GetPendingObjectKeys_def pending_rows_def
        sign_world_def fp toy_env_def toy_key_def sig_def)
  have "newline \<notin> set sig"
    using b64_encode_chars [of newline] by (auto simp: sig_def is_space_def)
  with signed_narinfo_accepted [OF run ok] meta_example_clean run show ?thesis
    by (auto simp: json_object_def toy_env_def)
qed

end
