(* ===== verification/Keeps.thy ===== *)
theory Keeps
  imports Pins Upstream
begin

text \<open>
  What the operations of pushes, pins and fills never do: take a row away that makes a path available.
  \<open>keeps\<close> says that live objects stay live and that closures and pins stay; it holds for every statement
  these operations run, and so for every operation composed of them, whatever fails.
\<close>

named_theorems keeping "operations that take no live object, closure or pin away"

definition keeps :: "db \<Rightarrow> db \<Rightarrow> bool" where
  "keeps d d' \<longleftrightarrow> (\<forall>k. live d k \<longrightarrow> live d' k) \<and> fst ` set (closures d) \<subseteq> fst ` set (closures d') \<and>
     fst ` set (pins d) \<subseteq> fst ` set (pins d')"

definition wkeeps :: "world \<Rightarrow> world \<Rightarrow> bool" where
  "wkeeps w w' \<longleftrightarrow> keeps (w_db w) (w_db w')"

lemma keeps_refl [simp, intro]: "keeps d d"
  by (simp add: keeps_def)

lemma keeps_trans [trans]: "keeps d d1 \<Longrightarrow> keeps d1 d2 \<Longrightarrow> keeps d d2"
  unfolding keeps_def by (metis (no_types, lifting) order_trans)

lemma wkeeps_same: "w_db w' = w_db w \<Longrightarrow> wkeeps w w'"
  by (simp add: wkeeps_def)

lemma wkeeps_trans: "wkeeps w w1 \<Longrightarrow> wkeeps w1 w2 \<Longrightarrow> wkeeps w w2"
  unfolding wkeeps_def by (rule keeps_trans)

lemma keeps_tables:
  "objects d' = objects d \<Longrightarrow> closures d' = closures d \<Longrightarrow> pins d' = pins d \<Longrightarrow> keeps d d'"
  by (simp add: keeps_def live_def)

section \<open>Statements\<close>

lemma AList_update_keys: "fst ` set xs \<subseteq> fst ` set (AList.update k v xs)"
  using update_keys [of k v xs] by (metis Un_upper1 set_append set_map subset_refl)

lemma keeps_register: "keeps d (RegisterCompletedObject key refs sz d)"
proof -
  have "closures (RegisterCompletedObject key refs sz d) = closures d"
    "pins (RegisterCompletedObject key refs sz d) = pins d"
    by (simp_all add: RegisterCompletedObject_def)
  then show ?thesis by (simp add: keeps_def live_register)
qed

lemma keeps_upsert_closures: "keeps d (upsert_closures t ks d)"
proof -
  have "fst ` set cs \<subseteq> fst ` set (fold (\<lambda>k. AList.update k t) xs cs)" for xs and cs :: "(string \<times> time) list"
  proof (induction xs arbitrary: cs)
    case (Cons x xs)
    have "fst ` set cs \<subseteq> fst ` set (AList.update x t cs)" by (rule AList_update_keys)
    also have "\<dots> \<subseteq> fst ` set (fold (\<lambda>k. AList.update k t) xs (AList.update x t cs))" by (rule Cons.IH)
    finally show ?case by simp
  qed simp
  then show ?thesis by (simp add: keeps_def) (simp add: upsert_closures_def)
qed

lemma keeps_commit_upsert: "keeps d (obj_upsert commit_conflict (List.map (\<lambda>(k, r). (k, new_object r)) rows) d)"
  by (simp add: keeps_def live_commit_upsert)

lemma keeps_delete_pending: "keeps d (delete_pending_where p d)"
  by (simp add: keeps_def)

lemma keeps_commit_pending_closure:
  assumes "commit_pending_closure t i d = Inr (n, d')"
  shows "keeps d d'"
  using assms
proof (rule commit_pending_closureE)
  fix pc
  assume d': "d' = DeletePendingClosure i (obj_upsert commit_conflict
      (List.map (\<lambda>(k, r). (k, new_object r)) (pending_rows d i)) (upsert_closures t [pc_key pc] d))"
  show ?thesis
    unfolding d' DeletePendingClosure_def
    by (rule keeps_trans [OF keeps_upsert_closures keeps_trans [OF keeps_commit_upsert keeps_delete_pending]])
qed

lemma keeps_commit_push: "commit_push t i d = Inr (n, d') \<Longrightarrow> keeps d d'"
  by (elim commit_pushE) (blast intro: keeps_trans keeps_upsert_closures keeps_commit_pending_closure)

lemma keeps_touch: "keeps d (snd (TouchPresentClosures t keys d))"
  by (simp add: keeps_def TouchPresentClosures_def Let_def live_def image_image split_beta)

lemma keeps_upsert_pin: "UpsertPin t name key path d = Inr d' \<Longrightarrow> keeps d d'"
proof -
  assume "UpsertPin t name key path d = Inr d'"
  then obtain p where d': "d' = d\<lparr>pins := AList.update name p (pins d)\<rparr>" by (auto simp: UpsertPin_def split: if_splits)
  have "fst ` set (pins d) \<subseteq> fst ` set (AList.update name p (pins d))"
    by (rule AList_update_keys)
  then show ?thesis by (simp add: d' keeps_def live_def)
qed

lemma keeps_multipart: "same_but_multipart d d' \<Longrightarrow> keeps d d'"
  by (auto simp: same_but_multipart_def keeps_def live_def)

lemma keeps_insert_multipart: "InsertMultipartUpload i key u d = Inr d' \<Longrightarrow> keeps d d'"
  by (auto simp: InsertMultipartUpload_def keeps_def live_def split: if_splits)

section \<open>Operations\<close>

lemma presign_all_db: "w_db (snd (presign_all e objs w)) = w_db w"
  by (induction e objs w rule: presign_all.induct)
    (auto simp: makePresignedURL_def split: if_splits sum.splits prod.splits)

lemma generatePartURLs_db: "w_db (snd (generatePartURLs e key u st n w)) = w_db w"
proof -
  have "w_db (snd (generatePartURLs_from e key u st i n w)) = w_db w" for i
    by (induction n arbitrary: i w) (auto simp: Let_def split: sum.splits prod.splits, metis snd_conv limiter_frame(1), metis snd_conv limiter_frame(1))
  then show ?thesis by (simp add: generatePartURLs_def)
qed

text \<open>The form most operations have: a result and a world.\<close>

lemma createMultipartUpload_keeps: "wkeeps w (snd (createMultipartUpload e i key n w))"
proof -
  have "wkeeps w w'" if run: "createMultipartUpload e i key n w = (res, w')" for res w'
  proof (cases "wait_fault e key")
    case False
    show ?thesis
    proof (cases "new_multipart e key")
      case (Inr uploadID)
      define w1 where "w1 = record_success (w\<lparr>uploads := (key, uploadID) # uploads w\<rparr>)"
      have w1: "w_db w1 = w_db w" by (simp add: w1_def)
      show ?thesis
      proof (cases "if db_fault e ''InsertMultipartUpload'' then Inl ConnectionError
          else InsertMultipartUpload i key uploadID (w_db w1)")
        case (Inl err)
        with run False Inr show ?thesis
          by (simp add: createMultipartUpload_def Let_def flip: w1_def) (auto simp: wkeeps_def w1)
      next
        case ins: (Inr d)
        obtain u w2 where g: "generatePartURLs e key uploadID 1 (nat (estimatePartsNeeded n)) (w1\<lparr>w_db := d\<rparr>) = (u, w2)"
          by fastforce
        have "w_db w2 = d" using generatePartURLs_db [of e key uploadID 1 "nat (estimatePartsNeeded n)" "w1\<lparr>w_db := d\<rparr>"] g by simp
        moreover have "keeps (w_db w) d" using ins keeps_insert_multipart [of i key uploadID "w_db w1" d] w1 by (auto split: if_splits)
        ultimately show ?thesis
          using run False Inr ins g
          by (cases u) (auto simp: createMultipartUpload_def Let_def wkeeps_def simp flip: w1_def)
      qed
    qed (use run False in \<open>auto simp: createMultipartUpload_def Let_def wkeeps_def\<close>)
  qed (use run in \<open>auto simp: createMultipartUpload_def Let_def wkeeps_def\<close>)
  then show ?thesis by (cases "createMultipartUpload e i key n w") auto
qed

lemma multipart_all_keeps: "wkeeps w (snd (multipart_all e i objs w))"
proof (induction e i objs w rule: multipart_all.induct)
  case (2 e i k obj objs w)
  obtain r w1 where c: "createMultipartUpload e i k (case ow_nar_size obj of None \<Rightarrow> 0 | Some n \<Rightarrow> n) w = (r, w1)" by fastforce
  have w1: "wkeeps w w1"
    using createMultipartUpload_keeps [of w e i k "case ow_nar_size obj of None \<Rightarrow> 0 | Some n \<Rightarrow> n"] c by simp
  show ?case
  proof (cases r)
    case (Inr po)
    obtain r2 w2 where m: "multipart_all e i objs w1 = (r2, w2)" by fastforce
    have "wkeeps w1 w2" using "2.IH" [OF c [symmetric] Inr] m by simp
    with w1 c Inr m show ?thesis by (auto intro: wkeeps_trans split: sum.splits)
  qed (use w1 c in simp)
qed (simp add: wkeeps_def)

lemma createPendingObjects_keeps: "wkeeps w (snd (createPendingObjects e i params objs w))"
proof -
  define small where "small = filter (\<lambda>(k, obj). \<not> needs_multipart obj) (List.map (\<lambda>(k, r). (k, the (map_of objs k))) params)"
  define large where "large = filter (\<lambda>(k, obj). needs_multipart obj) (List.map (\<lambda>(k, r). (k, the (map_of objs k))) params)"
  obtain r w1 where p: "presign_all e small w = (r, w1)" by fastforce
  have w1: "w_db w1 = w_db w" using presign_all_db [of e small w] p by simp
  obtain r2 w2 where m: "multipart_all e i large w1 = (r2, w2)" by fastforce
  have "wkeeps w1 w2" using multipart_all_keeps [of w1 e i large] m by simp
  with w1 p m show ?thesis
    by (auto simp: createPendingObjects_def Let_def wkeeps_def simp flip: small_def large_def split: sum.splits prod.splits)
qed

lemma createPendingClosureInner_keeps: "wkeeps w (snd (createPendingClosureInner e key roots objs verify w))"
proof -
  obtain r w1 where ins: "insertPendingClosure e key roots objs w = (r, w1)" by fastforce
  have w1: "wkeeps w w1"
  proof (cases r)
    case (Inr y)
    then obtain i row rows where "r = Inr ((i, row), rows)" by (cases y) auto
    from insertPendingClosure_ok(4) [OF ins [unfolded this]] show ?thesis by (simp add: wkeeps_def keeps_tables)
  qed (use ins insertPendingClosure_error in \<open>force simp: wkeeps_def\<close>)
  show ?thesis
  proof (cases r)
    case (Inr y)
    then obtain i row rows where y: "r = Inr ((i, row), rows)" by (cases y) auto
    obtain u w2 where u: "objectsToUpload e rows verify w1 = (u, w2)" by fastforce
    have "w_db w2 = w_db w1" using objectsToUpload_frame [OF u] by simp
    then have "keeps (w_db w1) (w_db w2)" "keeps (w_db w1) (DeletePendingClosure i (w_db w2))"
      using keeps_delete_pending [of "w_db w1"] by (simp_all add: DeletePendingClosure_def)
    with w1 have "keeps (w_db w) (w_db w2)" "keeps (w_db w) (DeletePendingClosure i (w_db w2))"
      by (auto simp: wkeeps_def intro: keeps_trans)
    with ins y u show ?thesis by (cases u) (simp_all add: createPendingClosureInner_def wkeeps_def)
  qed (use w1 ins in \<open>simp add: createPendingClosureInner_def wkeeps_def\<close>)
qed

lemma createPendingClosure_keeps: "wkeeps w (snd (createPendingClosure e key roots objs verify w))"
proof -
  obtain r w1 where c: "createPendingClosureInner e key roots objs verify w = (r, w1)" by fastforce
  have w1: "wkeeps w w1" using createPendingClosureInner_keeps [of w e key roots objs verify] c by simp
  show ?thesis
  proof (cases r)
    case (Inr pc)
    obtain r2 w2 where p: "createPendingObjects e (pcl_id pc) (pcl_pending pc) objs w1 = (r2, w2)" by fastforce
    have "wkeeps w1 w2" using createPendingObjects_keeps [of w1 e "pcl_id pc" "pcl_pending pc" objs] p by simp
    with w1 have "wkeeps w w2" by (rule wkeeps_trans)
    with c Inr p show ?thesis by (cases r2) (simp_all add: createPendingClosure_def)
  qed (use w1 c in \<open>simp add: createPendingClosure_def\<close>)
qed

lemma commitPendingClosure_keeps: "wkeeps w (snd (commitPendingClosure e i w))"
proof (cases "CommitPendingClosure (now e) i (w_db w)")
  case (Inl err)
  then show ?thesis by (cases err) (simp_all add: commitPendingClosure_def wkeeps_def)
next
  case (Inr y)
  then obtain n d where y: "CommitPendingClosure (now e) i (w_db w) = Inr (n, d)" by (cases y) auto
  from keeps_commit_pending_closure [OF this [unfolded CommitPendingClosure_def]] y show ?thesis
    by (simp add: commitPendingClosure_def wkeeps_def)
qed

section \<open>Handlers\<close>

text \<open>Those that leave the tables alone.\<close>

lemma RequestMoreParts_db: "w_db (snd (RequestMorePartsHandler e req w)) = w_db w"
proof -
  obtain r w1 where g: "generatePartURLs e (rp_object_key req) (rp_upload_id req) (rp_start req) (nat (rp_num req)) w = (r, w1)"
    by fastforce
  then have "w_db w1 = w_db w" using generatePartURLs_db [of e "rp_object_key req" "rp_upload_id req" "rp_start req" "nat (rp_num req)" w] by simp
  then show ?thesis
    by (cases r) (auto simp: RequestMorePartsHandler_def Let_def g handleS3Error_def split: sum.split option.split)
qed

lemma ObjectExists_db: "w_db (snd (ObjectExistsHandler e key w)) = w_db w"
proof -
  obtain r w1 where "objectExistsInS3 e key w = (r, w1)" by fastforce
  then show ?thesis using objectExistsInS3_frame(1) [of e key w]
    by (auto simp: ObjectExistsHandler_def split: sum.split bool.split)
qed

lemma start_reply_db: "w_db (snd (start_reply what (r, w))) = w_db w"
  by (cases r) (simp_all add: start_reply_def handleS3Error_def)

text \<open>Those of pushes.\<close>

lemma CreatePendingClosureHandler_keeps: "wkeeps w (snd (CreatePendingClosureHandler m e body w))"
proof -
  have "wkeeps w (snd (start_reply what (createPendingClosure e key roots objs verify w)))" for what key roots objs verify
    using createPendingClosure_keeps [of w e key roots objs verify] start_reply_db
    by (cases "createPendingClosure e key roots objs verify w") (simp add: wkeeps_def)
  then show ?thesis
    by (simp add: CreatePendingClosureHandler_def split: sum.split option.split prod.split) (simp add: wkeeps_def)
qed

lemma CreatePushHandler_keeps: "wkeeps w (snd (CreatePushHandler m e body w))"
proof -
  have "wkeeps w (snd (start_reply what (createPendingClosure e key roots objs verify w)))" for what key roots objs verify
    using createPendingClosure_keeps [of w e key roots objs verify] start_reply_db
    by (cases "createPendingClosure e key roots objs verify w") (simp add: wkeeps_def)
  then show ?thesis
    by (simp add: CreatePushHandler_def split: sum.split option.split prod.split) (simp add: wkeeps_def)
qed

lemma CommitPendingClosureHandler_keeps: "wkeeps w (snd (CommitPendingClosureHandler e i w))"
proof (cases "parsePendingClosureID i")
  case (Inr n)
  obtain r w1 where c: "commitPendingClosure e n w = (r, w1)" by fastforce
  have "wkeeps w w1" using commitPendingClosure_keeps [of w e n] c by simp
  then show ?thesis using Inr c by (auto simp: CommitPendingClosureHandler_def split: sum.split go_error.split)
qed (auto simp: CommitPendingClosureHandler_def wkeeps_def split: prod.split)

lemma CompletePushHandler_keeps: "wkeeps w (snd (CompletePushHandler e i w))"
proof (cases "parsePendingClosureID i")
  case (Inr n)
  show ?thesis
  proof (cases "CommitPush (now e) n (w_db w)")
    case (Inl err)
    with Inr show ?thesis by (cases err) (simp_all add: CompletePushHandler_def wkeeps_def)
  next
    case ok: (Inr y)
    then obtain k d where y: "CommitPush (now e) n (w_db w) = Inr (k, d)" by (cases y) auto
    from keeps_commit_push [OF this [unfolded CommitPush_def]] y Inr show ?thesis
      by (simp add: CompletePushHandler_def wkeeps_def)
  qed
qed (auto simp: CompletePushHandler_def wkeeps_def split: prod.split)

lemma registerCompletedObject_keeps: "wkeeps w (snd (registerCompletedObject e i key w))"
proof (cases "registerCompletedObject e i key w")
  case (Pair r w1)
  then show ?thesis
    by (cases rule: registerCompletedObject_cases) (use Pair in \<open>simp_all add: wkeeps_def keeps_register\<close>)
qed

lemma abort_redundant_keeps: "wkeeps w (abort_redundant e key us w)"
proof (induction us arbitrary: w)
  case (Cons u us)
  obtain x w1 where ab: "AbortMultipartUpload e key u w = (x, w1)" by fastforce
  have w1: "w_db w1 = w_db w" using abort_frame(1) [of e key u w] by (simp add: ab)
  have "wkeeps w (w1\<lparr>w_db := DeleteMultipartUpload u (w_db w1)\<rparr>)"
    using keeps_multipart [OF same_but_multipart_delete [of "w_db w" u]] by (simp add: wkeeps_def w1)
  from wkeeps_trans [OF this Cons.IH] wkeeps_trans [OF wkeeps_same [OF w1] Cons.IH] ab show ?case by simp
qed (simp add: wkeeps_def)

lemma register_and_clean_keeps: "wkeeps w (snd (register_and_clean e i key u w))"
proof -
  obtain r w1 where c: "registerCompletedObject e i key w = (r, w1)" by fastforce
  have w1: "wkeeps w w1" using registerCompletedObject_keeps [of w e i key] c by simp
  define w2 where "w2 = (if db_fault e ''DeleteMultipartUpload'' then w1 else w1\<lparr>w_db := DeleteMultipartUpload u (w_db w1)\<rparr>)"
  have "wkeeps w1 w2" using keeps_multipart [OF same_but_multipart_delete [of "w_db w1" u]] by (simp add: wkeeps_def w2_def)
  moreover have "wkeeps w2 (abortRedundantMultipartUploads e key u w2)"
    using abort_redundant_keeps by (simp add: abortRedundantMultipartUploads_def wkeeps_def)
  ultimately have "wkeeps w (abortRedundantMultipartUploads e key u w2)" using w1 by (blast intro: wkeeps_trans)
  with c w1 show ?thesis by (cases r) (simp_all add: register_and_clean_def Let_def w2_def)
qed

lemma objectExists_keeps: "objectExistsInS3 e key w = (r, w1) \<Longrightarrow> w_db w1 = w_db w"
  using objectExistsInS3_frame(1) [of e key w] by simp

lemma CompleteUploadHandler_keeps: "wkeeps w (snd (CompleteUploadHandler e body w))"
proof (cases "decodeJSONBody body")
  case (Inr key)
  obtain r w1 where st: "objectExistsInS3 e key w = (r, w1)" by fastforce
  show ?thesis
    using Inr objectExists_keeps [OF st] keeps_register [of "w_db w"]
    by (auto simp: CompleteUploadHandler_def st wkeeps_def split: sum.split db_error.split bool.split)
qed (auto simp: CompleteUploadHandler_def wkeeps_def split: prod.split)

lemma CompleteMultipartUploadHandler_keeps: "wkeeps w (snd (CompleteMultipartUploadHandler e body w))"
proof (cases "decodeJSONBody body")
  case (Inr req)
  let ?key = "cm_object_key req" and ?u = "cm_upload_id req"
  obtain r w1 where c: "CompleteMultipartUpload e ?key ?u w = (r, w1)" by fastforce
  have w1: "w_db w1 = w_db w" using CompleteMultipartUpload_effect(1) [OF c] .
  obtain st w2 where st: "objectExistsInS3 e ?key w1 = (st, w2)" by fastforce
  have w2: "w_db w2 = w_db w" using objectExists_keeps [OF st] w1 by simp
  have done1: "wkeeps w (snd (register_and_clean e i ?key ?u (record_success w1)))" for i
    using register_and_clean_keeps [of "record_success w1"] w1 by (simp add: wkeeps_def)
  have done2: "wkeeps w (snd (register_and_clean e i ?key ?u (abortMultipartUpload e ?key ?u w2)))" for i
    using register_and_clean_keeps [of "abortMultipartUpload e ?key ?u w2"] w2 by (simp add: wkeeps_def)
  have same: "wkeeps w w" "wkeeps w w2" "wkeeps w (record_throttle w2)" by (simp_all add: wkeeps_def w2)
  show ?thesis
  proof (cases r)
    case None
    with Inr c done1 same show ?thesis
      by (auto simp: CompleteMultipartUploadHandler_def split: sum.split)
  next
    case (Some err)
    with Inr c st done2 same show ?thesis
      by (auto simp: CompleteMultipartUploadHandler_def handleS3Error_def split: sum.split bool.split)
  qed
qed (auto simp: CompleteMultipartUploadHandler_def wkeeps_def split: prod.split)

lemma PresentHandler_keeps: "wkeeps w (snd (PresentHandler e body w))"
  using keeps_touch by (auto simp: PresentHandler_def wkeeps_def split: sum.split prod.split) (metis snd_conv)

lemma CreatePinHandler_keeps: "wkeeps w (snd (CreatePinHandler s ctx e name body w))"
proof (cases "CreatePinHandler s ctx e name body w")
  case (Pair rep w')
  then show ?thesis
    by (cases rule: CreatePinHandler_cases) (use Pair keeps_upsert_pin in \<open>auto simp: wkeeps_def\<close>)
qed

text \<open>Those of reads: a fill publishes and removes nothing.\<close>

lemma storeUpstreamPath_keeps: "wkeeps (fs_world s) (fs_world (snd (storeUpstreamPath e x u info s)))"
proof -
  obtain c w1 where create: "createPendingClosureInner e (path_key (StorePath info)) None (fill_objects info) True (fs_world s) = (c, w1)"
    by fastforce
  have w1: "wkeeps (fs_world s) w1"
    using createPendingClosureInner_keeps [of "fs_world s" e "path_key (StorePath info)" None "fill_objects info" True] create by simp
  show ?thesis
  proof (cases c)
    case (Inr pc)
    define copied where "copied = (if un_NarKey info \<in> fst ` set (pcl_pending pc) then copyUpstreamNar e x u info (s\<lparr>fs_world := w1\<rparr>)
      else (None, s\<lparr>fs_world := w1\<rparr>))"
    obtain r2 s2 where r2: "copied = (r2, s2)" by fastforce
    have db2: "w_db (fs_world s2) = w_db w1"
      using r2 copyUpstreamNar_effect(1) [of e x u info "s\<lparr>fs_world := w1\<rparr>"] by (auto simp: copied_def split: if_splits)
    have put: "w_db (fs_world s3) = w_db w1" if "putObject e k b True s2 = (p, s3)" for k b p s3
      using putObject_effect(1) [OF that] db2 by simp
    have com: "keeps (w_db (fs_world s)) (w_db w4)" if "commitPendingClosure e i w3 = (cr, w4)" "w_db w3 = w_db w1" for i w3 cr w4
      using commitPendingClosure_keeps [of w3 e i] that w1 by (auto simp: wkeeps_def intro: keeps_trans)
    show ?thesis
      using w1 create Inr r2 db2
      by (auto simp: storeUpstreamPath_def Let_def wkeeps_def simp flip: copied_def
          split: option.split sum.split prod.split dest: put com)
  qed (use w1 create in \<open>simp add: storeUpstreamPath_def Let_def\<close>)
qed

lemma fillFromUpstream_keeps: "wkeeps (fs_world s) (fs_world (snd (fillFromUpstream e x us key s)))"
proof -
  have up: "wkeeps (fs_world s) (fs_world (snd (try_upstreams e x m hash us s)))" for m hash us s
  proof (induction us)
    case (Cons u us)
    then show ?case using storeUpstreamPath_keeps by (cases "fetchUpstreamNarinfo x u hash m") auto
  qed (simp add: wkeeps_def)
  obtain r w1 where st: "objectExistsInS3 e key (fs_world s) = (r, w1)" by fastforce
  note w1 = objectExists_keeps [OF st]
  have "wkeeps (fs_world s) (fs_world (snd (fillOnce e x us hash (s\<lparr>fs_world := w1\<rparr>))))" for hash
    using up [of "s\<lparr>fs_world := w1\<rparr>"] w1 by (simp add: fillOnce_def wkeeps_def)
  with st w1 show ?thesis
    by (auto simp: fillFromUpstream_def wkeeps_def split: sum.split bool.split)
qed

end
