(* ===== verification/Server.thy ===== *)
theory Server
  imports Keeps SignHandler Gc Proxy Farm
begin

text \<open>
  The server as its clients see it: the routes of \<open>src/server/server.go\<close> with the multiplexer of
  \<open>net/http\<close> that picks one, the stripping of headers on the public listener, the admission of each
  route and the handlers of the other theories, from a request to an answer and a new state. With the
  handlers that only report: \<open>src/server/health.go\<close>, \<open>cache_config.go\<close> and \<open>skipped_uploads.go\<close>.
\<close>

section \<open>The multiplexer of net/http\<close>

text \<open>
  A pattern is an optional method and a path whose segments are literal, a wildcard for one
  segment, or a wildcard for the rest; a trailing slash is a nameless wildcard for the rest. Paths carry
  no percent escapes, and the method is not \<open>CONNECT\<close>.
\<close>

datatype segment = Literal string | Wild string | Rest string

definition parse_segment :: "string \<Rightarrow> segment" where
  "parse_segment seg =
     (if seg = '''' then Rest ''''
      else if has_prefix seg ''{'' \<and> has_suffix seg ''...}'' then Rest (trim_suffix (trim_prefix seg ''{'') ''...}'')
      else if has_prefix seg ''{'' \<and> has_suffix seg ''}'' then Wild (trim_suffix (trim_prefix seg ''{'') ''}'')
      else Literal seg)"

definition path_segments :: "string \<Rightarrow> string list" where
  "path_segments path = split_char (CHR ''/'') (trim_prefix path ''/'')"

definition parse_pattern :: "string \<Rightarrow> string \<times> segment list" where
  "parse_pattern p =
     (case cut_str p '' '' of
        (a, b, found) \<Rightarrow> (if found then (a, List.map parse_segment (path_segments b))
                         else ('''', List.map parse_segment (path_segments a))))"

text \<open>The values of the wildcards, if the segments match; a wildcard for one segment is never empty.\<close>

fun match_segments :: "segment list \<Rightarrow> string list \<Rightarrow> (string \<times> string) list option" where
  "match_segments [] [] = Some []"
| "match_segments (Literal l # ss) (p # ps) = (if l = p then match_segments ss ps else None)"
| "match_segments (Wild n # ss) (p # ps) = (if p = '''' then None else map_option (Cons (n, p)) (match_segments ss ps))"
| "match_segments (Rest n # ss) (p # ps) = Some [(n, join_str ''/'' (p # ps))]"
| "match_segments _ _ = None"

definition method_matches :: "string \<Rightarrow> string \<Rightarrow> bool" where
  "method_matches m rm \<longleftrightarrow> m = '''' \<or> m = rm \<or> (m = ''GET'' \<and> rm = ''HEAD'')"

text \<open>
  The first route that matches. The routes are disjoint but for the last one, which takes what is left
  (\<open>routes_disjoint\<close>), so this is the most specific one, whatever the order.
\<close>

fun find_route :: "(string \<times> 'a) list \<Rightarrow> string \<Rightarrow> string list \<Rightarrow> ('a \<times> segment list \<times> (string \<times> string) list) option" where
  "find_route [] rm ps = None"
| "find_route ((pattern, h) # routes) rm ps =
     (case parse_pattern pattern of
        (m, ss) \<Rightarrow>
          if method_matches m rm then
            (case match_segments ss ps of Some vals \<Rightarrow> Some (h, ss, vals) | None \<Rightarrow> find_route routes rm ps)
          else find_route routes rm ps)"

text \<open>\<open>exactMatch\<close>: a wildcard for the rest matched nothing.\<close>

definition exact_match :: "segment list \<Rightarrow> string list \<Rightarrow> bool" where
  "exact_match ss ps \<longleftrightarrow> (case last ss of Rest n \<Rightarrow> last ps = '''' \<and> length ss = length ps | _ \<Rightarrow> True)"

text \<open>A path that starts with a slash, without empty segments before its end and without dots.\<close>

definition clean_path :: "string \<Rightarrow> bool" where
  "clean_path path \<longleftrightarrow> has_prefix path ''/'' \<and> '''' \<notin> set (butlast (path_segments path)) \<and>
     ''.'' \<notin> set (path_segments path) \<and> ''..'' \<notin> set (path_segments path)"

datatype 'a dispatched = Redirected | Unmatched | Matched 'a "(string \<times> string) list"

text \<open>
  Redirects go to the clean path, or to the path with a slash when only that is a match; \<open>Unmatched\<close> is
  404, or 405 when another method would match.
\<close>

definition ServeMux :: "(string \<times> 'a) list \<Rightarrow> string \<Rightarrow> string \<Rightarrow> 'a dispatched" where
  "ServeMux routes rm path =
     (if \<not> clean_path path then Redirected
      else (let ps = path_segments path; n = find_route routes rm ps;
                exact = (case n of None \<Rightarrow> False | Some (h, ss, vals) \<Rightarrow> exact_match ss ps);
                slashed = (case find_route routes rm (ps @ ['''']) of
                             None \<Rightarrow> False | Some (h, ss, vals) \<Rightarrow> exact_match ss (ps @ ['''']))
            in if \<not> exact \<and> last ps \<noteq> '''' \<and> slashed then Redirected
               else (case n of None \<Rightarrow> Unmatched | Some (h, ss, vals) \<Rightarrow> Matched h vals)))"

section \<open>Routes\<close>

datatype public_endpoint = Health | Ready | Metrics | CacheConfig | CacheStats | RootRedirect

datatype target = Public public_endpoint | Scoped Scope endpoint | ReadProxy

definition public_routes :: "(string \<times> target) list" where
  "public_routes =
    [(''GET /health'', Public Health), (''GET /healthz'', Public Health), (''GET /readyz'', Public Ready),
     (''GET /metrics'', Public Metrics), (''GET /api/cache-config'', Public CacheConfig),
     (''GET /api/cache-stats'', Public CacheStats)]"

definition exact_routes :: "(string \<times> target) list" where
  "exact_routes = public_routes @ List.map (\<lambda>(p, scope, ep). (p, Scoped scope ep)) registerAPIRoutes"

definition routes :: "bool \<Rightarrow> (string \<times> target) list" where
  "routes enableReadProxy =
     exact_routes @ [if enableReadProxy then (''/{path...}'', ReadProxy) else (''GET /'', Public RootRedirect)]"

text \<open>Two patterns overlap unless a method or a literal segment tells them apart.\<close>

fun segments_overlap :: "segment list \<Rightarrow> segment list \<Rightarrow> bool" where
  "segments_overlap [] [] \<longleftrightarrow> True"
| "segments_overlap (Literal a # ss) (Literal b # ts) \<longleftrightarrow> a = b \<and> segments_overlap ss ts"
| "segments_overlap (Rest n # ss) (t # ts) \<longleftrightarrow> True"
| "segments_overlap (s # ss) (Rest n # ts) \<longleftrightarrow> True"
| "segments_overlap (s # ss) (t # ts) \<longleftrightarrow> segments_overlap ss ts"
| "segments_overlap _ _ \<longleftrightarrow> False"

definition patterns_overlap :: "string \<Rightarrow> string \<Rightarrow> bool" where
  "patterns_overlap p q \<longleftrightarrow>
     (case (parse_pattern p, parse_pattern q) of
        ((m, ss), (n, ts)) \<Rightarrow> (m = n \<or> m = '''' \<or> n = '''' \<or> {m, n} = {''GET'', ''HEAD''}) \<and> segments_overlap ss ts)"

lemma match_overlap:
  "\<not> segments_overlap ss ts \<Longrightarrow> match_segments ss ps = None \<or> match_segments ts ps = None"
proof (induction ps arbitrary: ss ts)
  case Nil
  then show ?case by (cases ss; cases ts) (simp_all add: match_segments.simps(6,7,8))
next
  case (Cons p ps)
  then show ?case
    by (cases ss; cases ts; cases "hd ss"; cases "hd ts") auto
qed

text \<open>
  No request fits two routes but for the last one, which fits any path: registering them in one
  multiplexer is no conflict, and which route serves a request does not depend on their order.
\<close>

lemma routes_overlap:
  "\<forall>(p, t) \<in> set exact_routes. \<forall>(q, u) \<in> set exact_routes. p = q \<or> \<not> patterns_overlap p q"
  by code_simp

definition pattern_matches :: "string \<Rightarrow> string \<Rightarrow> string list \<Rightarrow> bool" where
  "pattern_matches p rm ps \<longleftrightarrow>
     method_matches (fst (parse_pattern p)) rm \<and> match_segments (snd (parse_pattern p)) ps \<noteq> None"

lemma routes_disjoint:
  assumes "(p, t) \<in> set exact_routes" "(q, u) \<in> set exact_routes" "pattern_matches p rm ps" "pattern_matches q rm ps"
  shows "p = q"
proof -
  have "segments_overlap (snd (parse_pattern p)) (snd (parse_pattern q))"
    using assms(3,4) unfolding pattern_matches_def by (metis match_overlap)
  then have "patterns_overlap p q"
    using assms(3,4) by (auto simp: pattern_matches_def patterns_overlap_def method_matches_def split: prod.split)
  with routes_overlap assms(1,2) show ?thesis by blast
qed

lemma find_route_in:
  "find_route rs rm ps = Some (h, ss, vals) \<Longrightarrow> \<exists>p. (p, h) \<in> set rs \<and> pattern_matches p rm ps"
  by (induction rs rm ps rule: find_route.induct)
    (auto simp: pattern_matches_def split: prod.splits if_splits option.splits)

lemma ServeMux_in: "ServeMux rs rm path = Matched h vals \<Longrightarrow> \<exists>p. (p, h) \<in> set rs"
  by (auto simp: ServeMux_def Let_def split: if_splits option.splits dest!: find_route_in)

section \<open>Requests and answers\<close>

text \<open>What the body of a request decodes to as the type each handler expects.\<close>

record request_body =
  rb_closure :: "createPendingClosureRequest body"
  rb_push :: "createPushRequest body"
  rb_multipart :: "completeMultipartRequest body"
  rb_complete :: "string body"
  rb_parts :: "requestPartsRequest body"
  rb_sign :: "(string \<times> NarinfoMetadata) list body"
  rb_present :: "string list body"
  rb_skipped :: "(u64 \<times> u64) body"
  rb_pin :: "string body"
  rb_incumbent :: bool

text \<open>A request, whether it came in on the proxy's socket, and what the fills remember at the time.\<close>

record call =
  ca_request :: http_request
  ca_query :: "(string \<times> string) list"
  ca_body :: request_body
  ca_proxy_socket :: bool
  ca_fills :: fill_state

record CacheConfig =
  cc_substituter_url :: string
  cc_public_keys :: "string list"
  cc_oidc_audience :: string
  cc_max_nar_size :: u64
  cc_pushes :: bool

datatype payload =
    Empty | Started PendingClosureResponse | Signatures "(string \<times> string list) list" | PartURLs "string list \<times> int"
  | PresentKeys "string list" | ClosureInfo "string \<times> time \<times> string list" | Pins "PinInfo list"
  | CollectionStatus GCTaskStatus | Stats "int \<times> int" | Config CacheConfig | LeadStream lead_stream

datatype response = Failed nat string | Answered nat payload | Proxied http_response | MuxRedirect | MuxError | Panicked

text \<open>
  The settings and the surroundings of a request, and the state of a server: the world, the signers,
  the collection tasks and the runs that were started, each with its task and ages.
\<close>

record server_env =
  sc_service :: service
  sc_proxy :: proxy_service
  sc_upstreams :: up_service
  sc_max_nar_size :: u64
  sc_proxy_socket :: bool
  sc_started_at :: int
  sc_env :: gc_env
  sc_proxy_env :: proxy_env
  sc_up_env :: up_env
  sc_sign_env :: sign_env
  sc_duration :: "string \<Rightarrow> int option"

record server =
  sv_world :: world
  sv_signers :: "ServiceSigner option list"
  sv_tasks :: GCTaskStore
  sv_runs :: "(nat \<times> int \<times> int \<times> bool) list"

fun response_of :: "('a \<Rightarrow> payload) \<Rightarrow> 'a reply \<Rightarrow> response" where
  "response_of f (HttpError code msg) = Failed code msg"
| "response_of f (HttpOk code x) = Answered code (f x)"

definition on_world :: "('a \<Rightarrow> payload) \<Rightarrow> 'a reply \<times> world \<Rightarrow> server \<Rightarrow> response \<times> server" where
  "on_world f r sv = (response_of f (fst r), sv\<lparr>sv_world := snd r\<rparr>)"

definition decoded :: "'a body \<Rightarrow> ('a \<Rightarrow> response \<times> server) \<Rightarrow> server \<Rightarrow> response \<times> server" where
  "decoded body f sv = (case decodeJSONBody body of Inl (code, msg) \<Rightarrow> (Failed code msg, sv) | Inr x \<Rightarrow> f x)"

section \<open>Handlers that only report\<close>

text \<open>Asking a nil signer for its key panics, and the connection ends without an answer.\<close>

fun public_text :: "ServiceSigner \<Rightarrow> string" where
  "public_text (KeySigner k) = PublicKey_of k"
| "public_text (ProgramSigner s) = es_public s"

definition CacheConfigHandler :: "server_env \<Rightarrow> (string \<times> string) list \<Rightarrow> server \<Rightarrow> response" where
  "CacheConfigHandler c query sv =
     (let issuer = assoc_get query ''issuer'' in
      if None \<in> set (sv_signers sv) then Panicked
      else Answered 200 (Config
        \<lparr>cc_substituter_url = CacheURL (sc_proxy c),
         cc_public_keys = List.map (\<lambda>s. public_text (the s)) (sv_signers sv),
         cc_oidc_audience =
           (if issuer \<noteq> '''' then
              (case OIDCValidator (sc_service c) of
                 None \<Rightarrow> '''' | Some v \<Rightarrow> (case AudienceForIssuer v issuer of Some aud \<Rightarrow> aud | None \<Rightarrow> ''''))
            else ''''),
         cc_max_nar_size = sc_max_nar_size c, cc_pushes = True\<rparr>))"

definition HealthCheckHandler :: response where
  "HealthCheckHandler = Answered 200 Empty"

definition ReadinessHandler :: "env \<Rightarrow> response" where
  "ReadinessHandler e = (if db_fault e ''Ping'' then Failed 503 ''database unavailable'' else HealthCheckHandler)"

definition public_handler :: "server_env \<Rightarrow> call \<Rightarrow> http_request \<Rightarrow> public_endpoint \<Rightarrow> server \<Rightarrow> response" where
  "public_handler c call r ep sv =
     (case ep of
        Health \<Rightarrow> HealthCheckHandler
      | Ready \<Rightarrow> ReadinessHandler (env.truncate (sc_env c))
      | Metrics \<Rightarrow> Answered 200 Empty
      | CacheConfig \<Rightarrow> CacheConfigHandler c (ca_query call) sv
      | CacheStats \<Rightarrow> response_of Stats (CacheStatsHandler (env.truncate (sc_env c)) (sv_world sv))
      | RootRedirect \<Rightarrow> Proxied (RootRedirectHandler (sc_proxy c) r))"

definition SkippedUploadsHandler :: "(u64 \<times> u64) body \<Rightarrow> server \<Rightarrow> response \<times> server" where
  "SkippedUploadsHandler body sv = decoded body (\<lambda>req. (Answered 204 Empty, sv)) sv"

section \<open>Handlers of the API\<close>

definition gc_query_of :: "(string \<times> string) list \<Rightarrow> gc_query" where
  "gc_query_of q = \<lparr>gq_older_than = assoc_get q ''older-than'', gq_failed_uploads_older_than = assoc_get q ''failed-uploads-older-than'',
     gq_pending_older_than = assoc_get q ''pending-older-than'', gq_force = assoc_get q ''force''\<rparr>"

definition start_run :: "gc_answer \<Rightarrow> (nat \<times> int \<times> int \<times> bool) list \<Rightarrow> (nat \<times> int \<times> int \<times> bool) list" where
  "start_run a runs = (case a of GcAccepted status (Some run) \<Rightarrow> runs @ [run] | _ \<Rightarrow> runs)"

fun gc_response :: "gc_answer \<Rightarrow> response" where
  "gc_response (GcBadRequest msg) = Failed 400 msg"
| "gc_response (GcConflict status) = Answered 409 (CollectionStatus status)"
| "gc_response (GcAccepted status run) = Answered 202 (CollectionStatus status)"

definition api_handler ::
  "server_env \<Rightarrow> call \<Rightarrow> principal option \<Rightarrow> (string \<times> string) list \<Rightarrow> endpoint \<Rightarrow> server \<Rightarrow> response \<times> server" where
  "api_handler c call ctx vals ep sv =
     (let b = ca_body call; q = ca_query call; e = env.truncate (sc_env c); w = sv_world sv; t = now (sc_env c) in
      case ep of
        CreatePendingClosure \<Rightarrow> on_world Started (CreatePendingClosureHandler (sc_max_nar_size c) e (rb_closure b) w) sv
      | CleanupPending \<Rightarrow>
          on_world (\<lambda>_. Empty) (CleanupPendingClosuresHandler (sc_duration c) e (assoc_get q ''older-than'') w) sv
      | SignNarinfos \<Rightarrow>
          (case SignNarinfosHandler e (sc_sign_env c) (assoc_get vals ''id'') (rb_sign b) w (sv_signers sv) of
             (r, signers) \<Rightarrow> (response_of Signatures r, sv\<lparr>sv_signers := signers\<rparr>))
      | CommitPending \<Rightarrow> on_world (\<lambda>_. Empty) (CommitPendingClosureHandler e (assoc_get vals ''id'') w) sv
      | CreatePush \<Rightarrow> on_world Started (CreatePushHandler (sc_max_nar_size c) e (rb_push b) w) sv
      | CompletePush \<Rightarrow> on_world (\<lambda>_. Empty) (CompletePushHandler e (assoc_get vals ''id'') w) sv
      | CompleteMultipart \<Rightarrow> on_world (\<lambda>_. Empty) (CompleteMultipartUploadHandler e (rb_multipart b) w) sv
      | CompleteUpload \<Rightarrow> on_world (\<lambda>_. Empty) (CompleteUploadHandler e (rb_complete b) w) sv
      | SkippedUploads \<Rightarrow> SkippedUploadsHandler (rb_skipped b) sv
      | RequestParts \<Rightarrow> decoded (rb_parts b) (\<lambda>req. on_world PartURLs (RequestMorePartsHandler e req w) sv) sv
      | ObjectExists \<Rightarrow> on_world (\<lambda>_. Empty) (ObjectExistsHandler e (assoc_get vals ''key'') w) sv
      | Present \<Rightarrow> on_world PresentKeys (PresentHandler e (rb_present b) w) sv
      | Lead \<Rightarrow> (Answered 200 (LeadStream (open_stream (sc_started_at c) (rb_incumbent b) (1000 * t))), sv)
      | GetClosureEP \<Rightarrow> (response_of ClosureInfo (GetClosureHandler e (assoc_get vals ''key'') w), sv)
      | CleanupClosures \<Rightarrow>
          (case CleanupClosuresOlder (sc_duration c) t (gc_query_of q) (sv_tasks sv) of
             (a, store) \<Rightarrow> (gc_response a, sv\<lparr>sv_tasks := store, sv_runs := start_run a (sv_runs sv)\<rparr>))
      | GCStatus \<Rightarrow>
          (response_of CollectionStatus
             (GCStatusHandler t (if lock_error (sc_env c) then Inl (DbError ConnectionError) else Inr (\<not> lock_free (sc_env c)))
                (sv_tasks sv)), sv)
      | ListPinsEP \<Rightarrow> (response_of Pins (ListPinsHandler e w), sv)
      | CreatePin \<Rightarrow> on_world (\<lambda>_. Empty) (CreatePinHandler (sc_service c) ctx e (assoc_get vals ''name'') (rb_pin b) w) sv
      | DeletePinEP \<Rightarrow> on_world (\<lambda>_. Empty) (DeletePinHandler e (assoc_get vals ''name'') w) sv)"

section \<open>Serving a request\<close>

definition fill_world :: "server_env \<Rightarrow> call \<Rightarrow> string \<Rightarrow> world \<Rightarrow> world" where
  "fill_world c call key w =
     fs_world (snd (fillFromUpstream (env.truncate (sc_env c)) (sc_up_env c) (sc_upstreams c) key
       ((ca_fills call)\<lparr>fs_world := w\<rparr>)))"

definition proxy_handler :: "server_env \<Rightarrow> call \<Rightarrow> http_request \<Rightarrow> principal option \<Rightarrow> server \<Rightarrow> response \<times> server" where
  "proxy_handler c call r ctx sv =
     (case ReadProxyHandler (sc_proxy c) (\<lambda>_. mayFillFromUpstream (sc_upstreams c) ctx) (fill_world c call)
             (env.truncate (sc_env c)) (sc_proxy_env c) r (sv_world sv) of
        (resp, w) \<Rightarrow> (Proxied resp, sv\<lparr>sv_world := w\<rparr>))"

text \<open>The request as the multiplexer gets it: headers of the proxy are dropped on the public listener.\<close>

definition seen_request :: "server_env \<Rightarrow> call \<Rightarrow> http_request" where
  "seen_request c call =
     (if sc_proxy_socket c \<and> \<not> ca_proxy_socket call then public_request (sc_service c) (ca_request call)
      else ca_request call)"

definition scoped :: "gate \<Rightarrow> (principal option \<Rightarrow> response \<times> server) \<Rightarrow> server \<Rightarrow> response \<times> server" where
  "scoped g f sv = (case g of Refused code msg \<Rightarrow> (Failed code msg, sv) | Admitted ctx \<Rightarrow> f ctx)"

definition Serve :: "server_env \<Rightarrow> call \<Rightarrow> server \<Rightarrow> response \<times> server" where
  "Serve c call sv =
     (let r = seen_request c call; s = sc_service c in
      case ServeMux (routes (EnableReadProxy (sc_proxy c))) (rq_method r) (rq_path r) of
        Redirected \<Rightarrow> (MuxRedirect, sv)
      | Unmatched \<Rightarrow> (MuxError, sv)
      | Matched t vals \<Rightarrow>
          (case t of
             Public ep \<Rightarrow> (public_handler c call r ep sv, sv)
           | Scoped scope ep \<Rightarrow> scoped (RequireScope s scope r) (\<lambda>ctx. api_handler c call ctx vals ep sv) sv
           | ReadProxy \<Rightarrow> scoped (RequireScope s ScopeRead r) (\<lambda>ctx. proxy_handler c call r ctx sv) sv))"

section \<open>What a request can do\<close>

definition credential :: "service \<Rightarrow> http_request \<Rightarrow> Scope \<Rightarrow> bool" where
  "credential s r scope \<longleftrightarrow> cert_matches s r (MTLSBoundSubjects s) \<or>
     (scope = ScopeRead \<and> MTLSBoundSubjectsRead s \<noteq> [] \<and> cert_matches s r (MTLSBoundSubjectsRead s)) \<or>
     (APIToken s \<noteq> '''' \<and> requestToken r = APIToken s) \<or> token_grants s r scope"

text \<open>What outlives a request: all of the state but the rate limiter.\<close>

definition durable :: "server \<Rightarrow> db \<times> string list \<times> (string \<times> string) list \<times> ServiceSigner option list \<times> GCTaskStore \<times> (nat \<times> int \<times> int \<times> bool) list" where
  "durable sv = (w_db (sv_world sv), bucket (sv_world sv), uploads (sv_world sv), sv_signers sv, sv_tasks sv, sv_runs sv)"

lemma admitted_credential:
  assumes "RequireScope s scope r = Admitted ctx"
  shows "(scope = ScopeRead \<and> \<not> readGated s \<and> ctx = None) \<or> (ctx \<noteq> None \<and> credential s r scope)"
proof (cases "scope = ScopeRead \<and> \<not> readGated s")
  case False
  with assms obtain p where p: "authenticate s r = Some p" "scope \<in> set (scopes p)" "ctx = Some p"
    by (auto simp: RequireScope_def split: option.splits if_splits)
  from authenticated_credentials [OF p(1,2)] p(3) show ?thesis by (simp add: credential_def)
qed (use assms in \<open>simp add: RequireScope_def\<close>)

definition same_world :: "world \<Rightarrow> world \<Rightarrow> bool" where
  "same_world w w' \<longleftrightarrow> w_db w' = w_db w \<and> bucket w' = bucket w \<and> uploads w' = uploads w"

lemma handleProxyHead_same: "same_world w (snd (handleProxyHead e x r key w))"
  by (auto simp: handleProxyHead_def handleProxyS3Error_def same_world_def Let_def split: option.split prod.split)

lemma handleProxyGet_same: "same_world w (snd (handleProxyGet e x r key w))"
  by (auto simp: handleProxyGet_def handleProxyS3Error_def same_world_def Let_def split: option.split sum.split range_error.split)

lemma ReadProxyHandler_same:
  "same_world w (snd (ReadProxyHandler s (\<lambda>_. fills) fill e x r w)) \<or>
   (fills \<and> (\<exists>key. same_world (fill key w) (snd (ReadProxyHandler s (\<lambda>_. fills) fill e x r w))))"
  using handleProxyHead_same handleProxyGet_same
  by (auto simp: ReadProxyHandler_def Let_def) (auto simp: same_world_def)

lemma RequestMoreParts_same: "same_world w (snd (RequestMorePartsHandler e req w))"
proof -
  have "same_world w (snd (generatePartURLs_from e key u st i n w))" for key u st i n w
    by (induction n arbitrary: i w) (auto simp: Let_def same_world_def split: sum.splits prod.splits, (metis snd_conv limiter_frame(1,2,3))+)
  then show ?thesis
    by (auto simp: RequestMorePartsHandler_def generatePartURLs_def Let_def handleS3Error_def same_world_def
        split: sum.split option.split prod.splits) (metis snd_conv)+
qed

text \<open>Without the admin scope, what any handler of the API does to the state.\<close>

lemma api_handler_keeps:
  assumes "api_handler c call ctx vals ep sv = (resp, sv')"
    and "ep \<notin> {CleanupPending, CleanupClosures, DeletePinEP}"
  shows "keeps (w_db (sv_world sv)) (w_db (sv_world sv')) \<and> sv_tasks sv' = sv_tasks sv \<and> sv_runs sv' = sv_runs sv"
proof -
  have k: "keeps (w_db (sv_world sv)) (w_db (sv_world sv')) \<and> sv_tasks sv' = sv_tasks sv \<and> sv_runs sv' = sv_runs sv"
    if "(resp, sv') = on_world f r sv" "wkeeps (sv_world sv) (snd r)" for f and r :: "'x reply \<times> world"
    using that by (simp add: on_world_def wkeeps_def)
  note handlers = CreatePendingClosureHandler_keeps CreatePushHandler_keeps CommitPendingClosureHandler_keeps
    CompletePushHandler_keeps CompleteMultipartUploadHandler_keeps CompleteUploadHandler_keeps PresentHandler_keeps
    CreatePinHandler_keeps
  have same: "wkeeps w (snd (RequestMorePartsHandler e req w))" "wkeeps w (snd (ObjectExistsHandler e key w))" for w e req key
    by (simp_all add: wkeeps_def RequestMoreParts_db ObjectExists_db)
  show ?thesis
    using assms handlers same
    by (cases ep)
      (auto simp: api_handler_def Let_def on_world_def wkeeps_def decoded_def SkippedUploadsHandler_def
        split: sum.splits prod.splits)
qed

lemma api_routes_scopes:
  "\<forall>(p, scope, ep) \<in> set registerAPIRoutes. (scope = ScopeWrite \<or> scope = ScopeAdmin) \<and>
     (ep \<in> {CleanupPending, CleanupClosures, DeletePinEP} \<longrightarrow> scope = ScopeAdmin)"
  by code_simp

lemmas api_route_scope = bspec [OF api_routes_scopes, of "(p, scope, ep)" for p scope ep, unfolded prod.case]

lemma matched_target:
  assumes "ServeMux (routes proxied) rm path = Matched t vals"
  shows "(\<exists>ep. t = Public ep) \<or> (t = ReadProxy \<and> proxied) \<or>
    (\<exists>scope ep. t = Scoped scope ep \<and> (scope = ScopeWrite \<or> scope = ScopeAdmin) \<and>
       (ep \<in> {CleanupPending, CleanupClosures, DeletePinEP} \<longrightarrow> scope = ScopeAdmin))"
proof -
  obtain p where "(p, t) \<in> set (routes proxied)" using ServeMux_in [OF assms] by blast
  then consider "(p, t) \<in> set public_routes" | scope ep where "(p, scope, ep) \<in> set registerAPIRoutes" "t = Scoped scope ep"
    | "t = (if proxied then ReadProxy else Public RootRedirect)"
    by (auto simp: routes_def exact_routes_def split: if_splits)
  then show ?thesis
  proof cases
    case 2
    with api_route_scope [of p scope ep] show ?thesis by simp
  qed (auto simp: public_routes_def split: if_splits)
qed

lemma proxy_handler_effect:
  assumes "proxy_handler c call r ctx sv = (resp, sv')"
  shows "keeps (w_db (sv_world sv)) (w_db (sv_world sv')) \<and> sv_tasks sv' = sv_tasks sv \<and> sv_runs sv' = sv_runs sv"
    and "durable sv' = durable sv \<or> mayFillFromUpstream (sc_upstreams c) ctx"
proof -
  let ?fills = "mayFillFromUpstream (sc_upstreams c) ctx"
  obtain resp' w where run: "ReadProxyHandler (sc_proxy c) (\<lambda>_. ?fills) (fill_world c call)
      (env.truncate (sc_env c)) (sc_proxy_env c) r (sv_world sv) = (resp', w)" by fastforce
  have sv': "sv' = sv\<lparr>sv_world := w\<rparr>" using assms run by (simp add: proxy_handler_def)
  have "wkeeps (sv_world sv) (fill_world c call key (sv_world sv))" for key
    using fillFromUpstream_keeps [of "(ca_fills call)\<lparr>fs_world := sv_world sv\<rparr>"] by (simp add: fill_world_def)
  then have "wkeeps (sv_world sv) w" "same_world (sv_world sv) w \<or> ?fills"
    using ReadProxyHandler_same [of "sv_world sv" "sc_proxy c" ?fills "fill_world c call" "env.truncate (sc_env c)" "sc_proxy_env c" r]
    by (auto simp: run same_world_def wkeeps_def)
  then show "keeps (w_db (sv_world sv)) (w_db (sv_world sv')) \<and> sv_tasks sv' = sv_tasks sv \<and> sv_runs sv' = sv_runs sv"
    "durable sv' = durable sv \<or> ?fills"
    by (auto simp: sv' wkeeps_def same_world_def durable_def)
qed

lemma Serve_effect:
  assumes "Serve c call sv = (resp, sv')"
  shows "(durable sv' = durable sv \<or>
      credential (sc_service c) (seen_request c call) ScopeWrite \<or> credential (sc_service c) (seen_request c call) ScopeAdmin \<or>
      (EnableReadProxy (sc_proxy c) \<and> ups (sc_upstreams c) \<noteq> [] \<and>
         (ReadsGatedByProxy (sc_upstreams c) \<or> credential (sc_service c) (seen_request c call) ScopeRead))) \<and>
    (credential (sc_service c) (seen_request c call) ScopeAdmin \<or>
      (keeps (w_db (sv_world sv)) (w_db (sv_world sv')) \<and> sv_tasks sv' = sv_tasks sv \<and> sv_runs sv' = sv_runs sv))"
proof -
  define r where "r = seen_request c call"
  define s where "s = sc_service c"
  let ?kept = "keeps (w_db (sv_world sv)) (w_db (sv_world sv')) \<and> sv_tasks sv' = sv_tasks sv \<and> sv_runs sv' = sv_runs sv"
  have triv: ?thesis if "sv' = sv" using that by simp
  show ?thesis
  proof (cases "ServeMux (routes (EnableReadProxy (sc_proxy c))) (rq_method r) (rq_path r)")
    case (Matched t vals)
    from matched_target [OF this] consider ep where "t = Public ep" | "t = ReadProxy" "EnableReadProxy (sc_proxy c)"
      | scope ep where "t = Scoped scope ep" "scope = ScopeWrite \<or> scope = ScopeAdmin"
          "ep \<in> {CleanupPending, CleanupClosures, DeletePinEP} \<longrightarrow> scope = ScopeAdmin" by blast
    then show ?thesis
    proof cases
      case 1
      with assms Matched triv show ?thesis by (simp add: Serve_def Let_def flip: r_def)
    next
      case 2
      with assms Matched have h: "scoped (RequireScope s ScopeRead r) (\<lambda>ctx. proxy_handler c call r ctx sv) sv = (resp, sv')"
        by (simp add: Serve_def Let_def flip: r_def s_def)
      show ?thesis
      proof (cases "RequireScope s ScopeRead r")
        case (Admitted ctx)
        with h have p: "proxy_handler c call r ctx sv = (resp, sv')" by (simp add: scoped_def)
        from admitted_credential [OF Admitted] have "ctx \<noteq> None \<longrightarrow> credential s r ScopeRead" by blast
        with proxy_handler_effect [OF p] 2(2) show ?thesis
          by (auto simp: mayFillFromUpstream_def split: if_splits simp flip: r_def s_def)
      qed (use h triv in \<open>simp add: scoped_def\<close>)
    next
      case 3
      with assms Matched have h: "scoped (RequireScope s scope r) (\<lambda>ctx. api_handler c call ctx vals ep sv) sv = (resp, sv')"
        by (simp add: Serve_def Let_def flip: r_def s_def)
      show ?thesis
      proof (cases "RequireScope s scope r")
        case (Admitted ctx)
        with h have p: "api_handler c call ctx vals ep sv = (resp, sv')" by (simp add: scoped_def)
        have "scope \<noteq> ScopeRead" using 3(2) by (auto simp: scope_names)
        with admitted_credential [OF Admitted] have cr: "credential s r scope" by blast
        have "?kept \<or> credential s r ScopeAdmin"
          using api_handler_keeps [OF p] 3(3) cr by blast
        with cr 3(2) show ?thesis by (auto simp flip: r_def s_def)
      qed (use h triv in \<open>simp add: scoped_def\<close>)
    qed
  qed (use assms triv in \<open>simp_all add: Serve_def Let_def flip: r_def\<close>)
qed


section \<open>Properties\<close>

text \<open>
  C4: what a request can do to the server depends on its credentials. Whatever its method, path, headers
  and body, a request changes nothing that lasts unless it carries a credential for writing or
  administration, with one exception: when the read proxy is on and has upstreams, a read may fill from
  them, if it carries a credential for reading or the operator has stated that a proxy gates the reads. And unless it
  carries a credential for administration, every live object stays live, the key of every closure and the name of
  every pin stays, and no collection is started; rows of pending uploads and of multipart uploads may go,
  as commits and completions remove them. On the public listener of a server behind a proxy, headers are
  not credentials.
\<close>
theorem Serve_safe:
  "(durable (snd (Serve c call sv)) = durable sv \<or>
     credential (sc_service c) (seen_request c call) ScopeWrite \<or> credential (sc_service c) (seen_request c call) ScopeAdmin \<or>
     (EnableReadProxy (sc_proxy c) \<and> ups (sc_upstreams c) \<noteq> [] \<and>
        (ReadsGatedByProxy (sc_upstreams c) \<or> credential (sc_service c) (seen_request c call) ScopeRead))) \<and>
   (credential (sc_service c) (seen_request c call) ScopeAdmin \<or>
     (keeps (w_db (sv_world sv)) (w_db (sv_world (snd (Serve c call sv)))) \<and>
      sv_tasks (snd (Serve c call sv)) = sv_tasks sv \<and> sv_runs (snd (Serve c call sv)) = sv_runs sv))"
  by (rule Serve_effect) (rule prod.collapse [symmetric])

text \<open>
  A server with a proxy socket, and a token that may write: on the public listener a forged header of the
  proxy is no credential, the token may not delete closures, and a finished upload is registered.
\<close>

definition small_env :: server_env where
  "small_env = \<lparr>sc_service = proxied_service, sc_proxy = \<lparr>EnableReadProxy = True, CacheURL = '''', ReadRedirectTTL = 0\<rparr>,
     sc_upstreams = \<lparr>ups = [], ReadsGatedByProxy = False, MaxNarSize = 0\<rparr>, sc_max_nar_size = 0, sc_proxy_socket = True,
     sc_started_at = 0, sc_env = gc_quiet 0, sc_proxy_env = tiny_proxy, sc_up_env = fill_env, sc_sign_env = toy_env,
     sc_duration = (\<lambda>_. Some 0)\<rparr>"

definition small_call :: "http_request \<Rightarrow> call" where
  "small_call r = \<lparr>ca_request = r, ca_query = [(''older-than'', ''1h'')],
     ca_body = \<lparr>rb_closure = Malformed, rb_push = Malformed, rb_multipart = Malformed, rb_complete = Decoded ''r'',
       rb_parts = Malformed, rb_sign = Malformed, rb_present = Malformed, rb_skipped = Malformed, rb_pin = Malformed,
       rb_incumbent = False\<rparr>,
     ca_proxy_socket = False, ca_fills = \<lparr>fs_world = empty_world, fs_contents = (\<lambda>_. None), fs_misses = []\<rparr>\<rparr>"

definition small_server :: server where
  "small_server = \<lparr>sv_world = sign_world\<lparr>bucket := [''r'']\<rparr>, sv_signers = [Some (KeySigner toy_key)], sv_tasks = NewGCTaskStore,
     sv_runs = []\<rparr>"

theorem Serve_examples:
  "fst (Serve small_env (small_call forged) small_server) = Failed 401 ''Unauthorized''"
  "fst (Serve small_env (small_call ((bearer ''good'')\<lparr>rq_method := ''DELETE'', rq_path := ''/api/closures''\<rparr>)) small_server)
     = Failed 403 ''Forbidden: token lacks scope admin''"
  "fst (Serve small_env (small_call ((bearer ''good'')\<lparr>rq_path := ''/api/uploads/complete''\<rparr>)) small_server) = Answered 204 Empty"
  "live (w_db (sv_world (snd (Serve small_env
     (small_call ((bearer ''good'')\<lparr>rq_path := ''/api/uploads/complete''\<rparr>)) small_server)))) ''r''"
  by code_simp+

end
