(* ===== verification/Startup.thy ===== *)
theory Startup
  imports Server "HOL-Library.Multiset"
begin

text \<open>
  From the command line to a running server: the options with their environment variables and
  files (\<open>src/server/main.go\<close>, \<open>src/server/size.go\<close>), the sockets systemd passes and who gets which
  (\<open>src/server/systemd.go\<close> and \<open>bindEndpoints\<close> of \<open>src/server/server.go\<close>), and the service that
  \<open>runServer\<close> builds of them. The environment and the files are functions; number parsers of Go that the
  package flag and the environment share are parameters.
\<close>

section \<open>The process environment\<close>

text \<open>
  Floats are the finite ones: \<open>ho_float\<close> is \<open>ParseFloat\<close> where that gives a number that is not
  infinite. \<open>ho_overflow\<close> is what the machine makes of a conversion to 64 bits that is out of range.
\<close>

record host =
  ho_env :: "string \<Rightarrow> string option"
  ho_file :: "string \<Rightarrow> string option"
  ho_atoi :: "string \<Rightarrow> int option"
  ho_flag_int :: "string \<Rightarrow> int option"
  ho_float :: "string \<Rightarrow> rat option"
  ho_overflow :: "rat \<Rightarrow> u64"
  ho_duration :: "string \<Rightarrow> int option"
  ho_up :: up_env

definition getEnvOrDefault :: "host \<Rightarrow> string \<Rightarrow> string \<Rightarrow> string" where
  "getEnvOrDefault h key d = (case ho_env h key of Some v \<Rightarrow> v | None \<Rightarrow> d)"

definition getEnvOrDefaultBool :: "host \<Rightarrow> string \<Rightarrow> bool \<Rightarrow> bool" where
  "getEnvOrDefaultBool h key d = (case ho_env h key of Some v \<Rightarrow> v = ''true'' | None \<Rightarrow> d)"

definition getEnvOrDefaultInt :: "host \<Rightarrow> string \<Rightarrow> int \<Rightarrow> int" where
  "getEnvOrDefaultInt h key d =
     (case ho_env h key of Some v \<Rightarrow> (case ho_atoi h v of Some n \<Rightarrow> n | None \<Rightarrow> d) | None \<Rightarrow> d)"

definition getEnvOrDefaultFloat :: "host \<Rightarrow> string \<Rightarrow> rat \<Rightarrow> rat" where
  "getEnvOrDefaultFloat h key d =
     (case ho_env h key of Some v \<Rightarrow> (case ho_float h v of Some n \<Rightarrow> n | None \<Rightarrow> d) | None \<Rightarrow> d)"

definition getEnvOrDefaultDuration :: "host \<Rightarrow> string \<Rightarrow> int \<Rightarrow> int" where
  "getEnvOrDefaultDuration h key d =
     (case ho_env h key of Some v \<Rightarrow> (case ho_duration h v of Some n \<Rightarrow> n | None \<Rightarrow> d) | None \<Rightarrow> d)"

definition readSecretFile :: "host \<Rightarrow> string \<Rightarrow> string + string" where
  "readSecretFile h path =
     (if path = '''' then Inr ''''
      else (case ho_file h path of None \<Rightarrow> Inl ''failed to read file'' | Some content \<Rightarrow> Inr (trim_space content)))"

text \<open>The empty string stands for the PG variables, which pgx reads.\<close>

definition resolveDBConnectionString :: "host \<Rightarrow> string \<Rightarrow> string \<Rightarrow> string + string" where
  "resolveDBConnectionString h flagValue file =
     (if flagValue \<noteq> '''' then Inr flagValue
      else if file \<noteq> '''' then
        (case readSecretFile h file of
           Inl err \<Rightarrow> Inl ''failed to read --db-file''
         | Inr dsn \<Rightarrow> if dsn = '''' then Inl ''--db-file is empty'' else Inr dsn)
      else if list_ex (\<lambda>k. case ho_env h k of Some v \<Rightarrow> v \<noteq> '''' | None \<Rightarrow> False) [''PGHOST'', ''PGSERVICE''] then Inr ''''
      else Inl ''missing database configuration: set --db, --db-file or PGHOST'')"

section \<open>Sizes\<close>

definition to_upper :: "char \<Rightarrow> char" where
  "to_upper c = (let n = (of_char c :: nat) in if 97 \<le> n \<and> n \<le> 122 then char_of (n - 32) else c)"

definition size_multiplier :: "string \<Rightarrow> u64" where
  "size_multiplier s =
     (if s = '''' then 1
      else if last s = CHR ''K'' then 2 ^ 10
      else if last s = CHR ''M'' then 2 ^ 20
      else if last s = CHR ''G'' then 2 ^ 30
      else if last s = CHR ''T'' then 2 ^ 40
      else 1)"

definition float_to_u64 :: "host \<Rightarrow> rat \<Rightarrow> u64" where
  "float_to_u64 h x = (if \<lfloor>x\<rfloor> < 2 ^ 64 then of_int \<lfloor>x\<rfloor> else ho_overflow h x)"

definition ParseSize :: "host \<Rightarrow> string \<Rightarrow> string + u64" where
  "ParseSize h val =
     (let s = trim_space val in
      if s = '''' then Inr 0
      else (let upper = trim_suffix (trim_suffix (List.map to_upper s) ''IB'') ''B'';
                multiplier = size_multiplier upper;
                upper = (if 1 < multiplier then butlast upper else upper)
            in case ho_float h (trim_space upper) of
                 None \<Rightarrow> Inl ''invalid size''
               | Some num \<Rightarrow> if num < 0 then Inl ''invalid size'' else Inr (float_to_u64 h (num * of_int (uint multiplier)))))"

section \<open>Options\<close>

datatype BucketLookup = LookupAuto | LookupDNS | LookupPath

definition parseBucketLookup :: "string \<Rightarrow> string + BucketLookup" where
  "parseBucketLookup val =
     (let v = List.map to_lower val in
      if v = '''' \<or> v = ''auto'' then Inr LookupAuto
      else if v = ''dns'' then Inr LookupDNS
      else if v = ''path'' then Inr LookupPath
      else Inl ''invalid bucket lookup'')"

text \<open>The fields of \<open>options\<close>, in three records of which each extends the one before.\<close>

record s3_options =
  op_s3_endpoint :: string
  op_s3_public_url :: string
  op_s3_access_key :: string
  op_s3_secret_key :: string
  op_s3_use_ssl :: bool
  op_s3_use_iam :: bool
  op_s3_bucket :: string
  op_s3_region :: string
  op_s3_bucket_lookup :: BucketLookup
  op_s3_concurrency :: int
  op_s3_rate_limit :: rat

record auth_options = s3_options +
  op_api_token :: string
  op_oidc_config :: string
  op_mtls_proxy_socket :: string
  op_mtls_proxy_header :: string
  op_mtls_subject_header :: string
  op_mtls_bound_subjects :: "string list"
  op_mtls_bound_subjects_read :: "string list"
  op_tls_cert :: string
  op_tls_key :: string
  op_tls_client_ca :: string

record options = auth_options +
  op_db :: string
  op_http_addr :: string
  op_sign_key_paths :: "string list"
  op_sign_program :: string
  op_sign_public_key :: string
  op_cache_url :: string
  op_server_url :: string
  op_enable_read_proxy :: bool
  op_read_redirect_ttl :: int
  op_max_nar_size :: u64
  op_cache_priority :: int
  op_upstreams :: "Upstream list"
  op_reads_gated_by_proxy :: bool
  op_debug :: bool

definition second :: int where
  "second = 1000000000"

definition maxReadRedirectTTL :: int where
  "maxReadRedirectTTL = 7 * 24 * 60 * 60 * second"

definition minAPITokenLength :: nat where
  "minAPITokenLength = 36"

definition defaultS3Concurrency :: int where
  "defaultS3Concurrency = 100"

definition defaultCachePriority :: int where
  "defaultCachePriority = 30"

definition validateReadRedirect :: "options \<Rightarrow> string option" where
  "validateReadRedirect o' =
     (if op_read_redirect_ttl o' = 0 then None
      else if \<not> op_enable_read_proxy o' then Some ''--read-redirect-ttl requires --enable-read-proxy''
      else if op_read_redirect_ttl o' < second \<or> maxReadRedirectTTL < op_read_redirect_ttl o'
      then Some ''--read-redirect-ttl out of range''
      else None)"

definition validateReadProxy :: "options \<Rightarrow> string option" where
  "validateReadProxy o' =
     (if op_upstreams o' \<noteq> [] \<and> \<not> op_enable_read_proxy o' then Some ''--upstream-cache requires --enable-read-proxy''
      else validateReadRedirect o')"

definition validateTLSOptions :: "options \<Rightarrow> string option" where
  "validateTLSOptions o' =
     (if (op_tls_cert o' = '''') \<noteq> (op_tls_key o' = '''') then Some ''--tls-cert and --tls-key must be set together''
      else if op_mtls_proxy_socket o' \<noteq> '''' \<and>
              (op_mtls_proxy_header o' = '''' \<or> \<not> has_prefix (op_mtls_proxy_socket o') ''/'')
      then Some ''--mtls-proxy-socket needs --mtls-proxy-header and an absolute path''
      else if op_tls_client_ca o' \<noteq> '''' \<and> op_tls_cert o' = '''' then Some ''--tls-client-ca requires --tls-cert and --tls-key''
      else if op_tls_client_ca o' \<noteq> '''' \<and> op_mtls_proxy_header o' \<noteq> ''''
      then Some ''--tls-client-ca and --mtls-proxy-header are mutually exclusive''
      else None)"

section \<open>The command line\<close>

text \<open>
  The flags as package \<open>flag\<close> hands them over: names with values in their order, a boolean flag alone
  with the value \<open>true\<close>. A flag given twice counts as given last, but for the lists.
\<close>

type_synonym flags = "(string \<times> string) list"

definition parse_bool :: "string \<Rightarrow> bool option" where
  "parse_bool v =
     (if v \<in> {''1'', ''t'', ''T'', ''TRUE'', ''true'', ''True''} then Some True
      else if v \<in> {''0'', ''f'', ''F'', ''FALSE'', ''false'', ''False''} then Some False
      else None)"

definition flag_all :: "flags \<Rightarrow> string \<Rightarrow> string list" where
  "flag_all fl name = List.map snd (filter (\<lambda>(n, v). n = name) fl)"

definition flag_last :: "flags \<Rightarrow> string \<Rightarrow> string option" where
  "flag_last fl name = (case rev (flag_all fl name) of [] \<Rightarrow> None | v # _ \<Rightarrow> Some v)"

definition str_flag :: "host \<Rightarrow> flags \<Rightarrow> string \<Rightarrow> string \<Rightarrow> string \<Rightarrow> string" where
  "str_flag h fl name key d = (case flag_last fl name of Some v \<Rightarrow> v | None \<Rightarrow> getEnvOrDefault h key d)"

definition bool_flag :: "host \<Rightarrow> flags \<Rightarrow> string \<Rightarrow> string \<Rightarrow> bool \<Rightarrow> bool" where
  "bool_flag h fl name key d =
     (case flag_last fl name of Some v \<Rightarrow> the (parse_bool v) | None \<Rightarrow> getEnvOrDefaultBool h key d)"

definition int_flag :: "host \<Rightarrow> flags \<Rightarrow> string \<Rightarrow> string \<Rightarrow> int \<Rightarrow> int" where
  "int_flag h fl name key d =
     (case flag_last fl name of Some v \<Rightarrow> the (ho_flag_int h v) | None \<Rightarrow> getEnvOrDefaultInt h key d)"

definition upstream_flags :: "host \<Rightarrow> flags \<Rightarrow> fill_error + Upstream list" where
  "upstream_flags h fl =
     fold (\<lambda>v acc. case acc of Inl err \<Rightarrow> Inl err | Inr us \<Rightarrow> upstreamsFlag_Set (ho_up h) v us) (flag_all fl ''upstream-cache'') (Inr [])"

text \<open>A value that is not of the flag's type ends the program with the usage.\<close>

definition bool_flags :: "string list" where
  "bool_flags = [''s3-use-ssl'', ''s3-use-iam'', ''enable-read-proxy'', ''reads-gated-by-proxy'', ''debug'']"

definition flags_ok :: "host \<Rightarrow> flags \<Rightarrow> bool" where
  "flags_ok h fl \<longleftrightarrow>
     list_all (\<lambda>(n, v). (n \<in> set bool_flags \<longrightarrow> parse_bool v \<noteq> None) \<and>
                        (n = ''s3-concurrency'' \<or> n = ''cache-priority'' \<longrightarrow> ho_flag_int h v \<noteq> None) \<and>
                        (n = ''s3-rate-limit'' \<longrightarrow> ho_float h v \<noteq> None) \<and>
                        (n = ''read-redirect-ttl'' \<longrightarrow> ho_duration h v \<noteq> None)) fl \<and>
     \<not> isl (upstream_flags h fl)"

text \<open>The options after \<open>flag.Parse\<close>, before files are read and anything is checked.\<close>

definition flag_s3_options :: "host \<Rightarrow> flags \<Rightarrow> s3_options" where
  "flag_s3_options h fl =
     \<lparr>op_s3_endpoint = str_flag h fl ''s3-endpoint'' ''NIKS3_S3_ENDPOINT'' '''',
      op_s3_public_url = str_flag h fl ''s3-public-url'' ''NIKS3_S3_PUBLIC_URL'' '''',
      op_s3_access_key = str_flag h fl ''s3-access-key'' ''NIKS3_S3_ACCESS_KEY'' '''',
      op_s3_secret_key = str_flag h fl ''s3-secret-key'' ''NIKS3_S3_SECRET_KEY'' '''',
      op_s3_use_ssl = bool_flag h fl ''s3-use-ssl'' ''NIKS3_S3_USE_SSL'' True,
      op_s3_use_iam = bool_flag h fl ''s3-use-iam'' ''NIKS3_S3_USE_IAM'' False,
      op_s3_bucket = str_flag h fl ''s3-bucket'' ''NIKS3_S3_BUCKET'' '''',
      op_s3_region = str_flag h fl ''s3-region'' ''NIKS3_S3_REGION'' '''',
      op_s3_bucket_lookup = LookupAuto,
      op_s3_concurrency = int_flag h fl ''s3-concurrency'' ''NIKS3_S3_CONCURRENCY'' defaultS3Concurrency,
      op_s3_rate_limit =
        (case flag_last fl ''s3-rate-limit'' of Some v \<Rightarrow> the (ho_float h v) | None \<Rightarrow> getEnvOrDefaultFloat h ''NIKS3_S3_RATE_LIMIT'' 0)\<rparr>"

definition flag_auth_options :: "host \<Rightarrow> flags \<Rightarrow> auth_options" where
  "flag_auth_options h fl = s3_options.extend (flag_s3_options h fl)
     \<lparr>op_api_token = str_flag h fl ''api-token'' ''NIKS3_API_TOKEN'' '''',
      op_oidc_config = str_flag h fl ''oidc-config'' ''NIKS3_OIDC_CONFIG'' '''',
      op_mtls_proxy_socket = str_flag h fl ''mtls-proxy-socket'' ''NIKS3_MTLS_PROXY_SOCKET'' '''',
      op_mtls_proxy_header = str_flag h fl ''mtls-proxy-header'' ''NIKS3_MTLS_PROXY_HEADER'' '''',
      op_mtls_subject_header = str_flag h fl ''mtls-subject-header'' ''NIKS3_MTLS_SUBJECT_HEADER'' ''X-SSL-Client-Dn'',
      op_mtls_bound_subjects = flag_all fl ''mtls-bound-subject'',
      op_mtls_bound_subjects_read = flag_all fl ''mtls-bound-subject-read'',
      op_tls_cert = str_flag h fl ''tls-cert'' ''NIKS3_TLS_CERT'' '''',
      op_tls_key = str_flag h fl ''tls-key'' ''NIKS3_TLS_KEY'' '''',
      op_tls_client_ca = str_flag h fl ''tls-client-ca'' ''NIKS3_TLS_CLIENT_CA'' ''''\<rparr>"

definition flag_options :: "host \<Rightarrow> flags \<Rightarrow> options" where
  "flag_options h fl = auth_options.extend (flag_auth_options h fl)
     \<lparr>op_db = str_flag h fl ''db'' ''NIKS3_DB'' '''',
      op_http_addr = str_flag h fl ''http-addr'' ''NIKS3_HTTP_ADDR'' '':5751'',
      op_sign_key_paths = fields_str (getEnvOrDefault h ''NIKS3_SIGN_KEY_PATHS'' '''') @ flag_all fl ''sign-key-path'',
      op_sign_program = str_flag h fl ''sign-program'' ''NIKS3_SIGN_PROGRAM'' '''',
      op_sign_public_key = str_flag h fl ''sign-public-key'' ''NIKS3_SIGN_PUBLIC_KEY'' '''',
      op_cache_url = str_flag h fl ''cache-url'' ''NIKS3_CACHE_URL'' '''',
      op_server_url = str_flag h fl ''server-url'' ''NIKS3_SERVER_URL'' '''',
      op_enable_read_proxy = bool_flag h fl ''enable-read-proxy'' ''NIKS3_ENABLE_READ_PROXY'' False,
      op_read_redirect_ttl =
        (case flag_last fl ''read-redirect-ttl'' of Some v \<Rightarrow> the (ho_duration h v)
         | None \<Rightarrow> getEnvOrDefaultDuration h ''NIKS3_READ_REDIRECT_TTL'' 0),
      op_max_nar_size = 0,
      op_cache_priority = int_flag h fl ''cache-priority'' ''NIKS3_CACHE_PRIORITY'' defaultCachePriority,
      op_upstreams = (case upstream_flags h fl of Inr us \<Rightarrow> us | Inl err \<Rightarrow> []),
      op_reads_gated_by_proxy = bool_flag h fl ''reads-gated-by-proxy'' ''NIKS3_READS_GATED_BY_PROXY'' False,
      op_debug = bool_flag h fl ''debug'' ''NIKS3_DEBUG'' False\<rparr>"

text \<open>The checks of \<open>parseArgs\<close> on the complete options, in its order; the first one that fails is reported.\<close>

definition check_options :: "options \<Rightarrow> string option" where
  "check_options o' =
     (if op_s3_endpoint o' = '''' then Some ''missing required flag: --s3-endpoint''
      else if op_s3_use_iam o' \<and> (op_s3_access_key o' \<noteq> '''' \<or> op_s3_secret_key o' \<noteq> '''')
      then Some ''--s3-use-iam cannot be combined with --s3-access-key / --s3-secret-key''
      else if \<not> op_s3_use_iam o' \<and> op_s3_access_key o' = '''' then Some ''missing required flag: --s3-access-key''
      else if \<not> op_s3_use_iam o' \<and> op_s3_secret_key o' = '''' then Some ''missing required flag: --s3-secret-key''
      else if op_s3_bucket o' = '''' then Some ''missing required flag: --s3-bucket''
      else if op_api_token o' = '''' then Some ''missing required flag: --api-token or --api-token-path''
      else if op_s3_concurrency o' < 1 then Some ''--s3-concurrency must be at least 1''
      else (case validateReadProxy o' of
              Some err \<Rightarrow> Some err
            | None \<Rightarrow>
                (case validateTLSOptions o' of
                   Some err \<Rightarrow> Some err
                 | None \<Rightarrow>
                     if length (op_api_token o') < minAPITokenLength
                     then Some ''API token must be at least 36 characters long'' else None)))"

definition read_secret :: "host \<Rightarrow> flags \<Rightarrow> string \<Rightarrow> string \<Rightarrow> string \<Rightarrow> string + string" where
  "read_secret h fl name key cur =
     (case readSecretFile h (str_flag h fl name key '''') of
        Inl err \<Rightarrow> Inl err
      | Inr secret \<Rightarrow> Inr (if secret \<noteq> '''' then secret else cur))"

definition parseArgs :: "host \<Rightarrow> flags \<Rightarrow> string + options" where
  "parseArgs h fl =
     (let opts = flag_options h fl in
      if \<not> flags_ok h fl then Inl ''usage''
      else if (op_sign_program opts = '''') \<noteq> (op_sign_public_key opts = '''')
      then Inl ''--sign-program and --sign-public-key must be set together''
      else (case resolveDBConnectionString h (op_db opts) (str_flag h fl ''db-file'' ''NIKS3_DB_FILE'' '''') of
        Inl err \<Rightarrow> Inl err
      | Inr db \<Rightarrow>
        (case parseBucketLookup (str_flag h fl ''s3-bucket-lookup'' ''NIKS3_S3_BUCKET_LOOKUP'' ''auto'') of
           Inl err \<Rightarrow> Inl err
         | Inr lookup \<Rightarrow>
           (case ParseSize h (str_flag h fl ''max-nar-size'' ''NIKS3_MAX_NAR_SIZE'' '''') of
              Inl err \<Rightarrow> Inl ''invalid --max-nar-size''
            | Inr size_limit \<Rightarrow>
              (case read_secret h fl ''s3-access-key-path'' ''NIKS3_S3_ACCESS_KEY_PATH'' (op_s3_access_key opts) of
                 Inl err \<Rightarrow> Inl err
               | Inr access \<Rightarrow>
                 (case read_secret h fl ''s3-secret-key-path'' ''NIKS3_S3_SECRET_KEY_PATH'' (op_s3_secret_key opts) of
                    Inl err \<Rightarrow> Inl err
                  | Inr secret \<Rightarrow>
                    (case read_secret h fl ''api-token-path'' ''NIKS3_API_TOKEN_PATH'' (op_api_token opts) of
                       Inl err \<Rightarrow> Inl err
                     | Inr token \<Rightarrow>
                       (let opts = opts\<lparr>op_db := db, op_s3_bucket_lookup := lookup, op_max_nar_size := size_limit,
                                op_s3_access_key := access, op_s3_secret_key := secret, op_api_token := token\<rparr>
                        in case check_options opts of Some err \<Rightarrow> Inl err | None \<Rightarrow> Inr opts))))))))"

section \<open>The OIDC configuration\<close>

text \<open>\<open>base64.RawURLEncoding\<close>: two other digits, no padding.\<close>

definition b64_raw_url_decode :: "string \<Rightarrow> bytes option" where
  "b64_raw_url_decode s =
     (if CHR ''+'' \<in> set s \<or> CHR ''/'' \<in> set s then None
      else b64_raw_decode (List.map (\<lambda>c. if c = CHR ''-'' then CHR ''+'' else if c = CHR ''_'' then CHR ''/'' else c) s))"

text \<open>
  What decoding JSON gives is a parameter: the configuration with the bearer token file of each provider,
  and the \<open>iss\<close> claim of a token, empty when it has none.
\<close>

record oidc_host =
  oh_config :: "string \<Rightarrow> (Config \<times> (string \<times> string) list) option"
  oh_iss :: "bytes \<Rightarrow> string option"
  oh_url :: "string \<Rightarrow> (string \<times> string) option"
  oh_validator :: "Config \<Rightarrow> bool"

definition issuerFromTokenFile :: "host \<Rightarrow> oidc_host \<Rightarrow> string \<Rightarrow> string + string" where
  "issuerFromTokenFile h oh path =
     (case ho_file h path of
        None \<Rightarrow> Inl ''reading token''
      | Some content \<Rightarrow>
          (let parts = split_char (CHR ''.'') (trim_space content) in
           if length parts \<noteq> 3 then Inl ''not a JWT''
           else (case b64_raw_url_decode (parts ! 1) of
                   None \<Rightarrow> Inl ''decoding JWT payload''
                 | Some payload \<Rightarrow>
                     (case oh_iss oh payload of
                        None \<Rightarrow> Inl ''parsing JWT payload''
                      | Some iss \<Rightarrow> if iss = '''' then Inl ''token has no iss claim'' else Inr iss))))"

fun detect_issuers ::
  "host \<Rightarrow> oidc_host \<Rightarrow> (string \<times> string) list \<Rightarrow> (string \<times> ProviderConfig) list \<Rightarrow> string + (string \<times> ProviderConfig) list" where
  "detect_issuers h oh files [] = Inr []"
| "detect_issuers h oh files ((name, p) # ps) =
     (case (if Issuer p \<noteq> '''' \<or> assoc_get files name = '''' then Inr p
            else (case issuerFromTokenFile h oh (assoc_get files name) of
                    Inl err \<Rightarrow> Inl err
                  | Inr iss \<Rightarrow> Inr (p\<lparr>Issuer := iss\<rparr>))) of
        Inl err \<Rightarrow> Inl err
      | Inr p \<Rightarrow> (case detect_issuers h oh files ps of Inl err \<Rightarrow> Inl err | Inr ps \<Rightarrow> Inr ((name, p) # ps)))"

definition LoadConfig :: "host \<Rightarrow> oidc_host \<Rightarrow> string \<Rightarrow> string + Config" where
  "LoadConfig h oh path =
     (case ho_file h path of
        None \<Rightarrow> Inl ''reading config file''
      | Some content \<Rightarrow>
          (case oh_config oh content of
             None \<Rightarrow> Inl ''parsing config file''
           | Some (cfg, files) \<Rightarrow>
               (case detect_issuers h oh files (Providers cfg) of
                  Inl err \<Rightarrow> Inl err
                | Inr ps \<Rightarrow>
                    (let cfg = cfg\<lparr>Providers := ps\<rparr> in
                     case validate_config (oh_url oh) cfg of
                       Some err \<Rightarrow> Inl err
                     | None \<Rightarrow> Inr (cfg\<lparr>Providers := List.map (\<lambda>(name, p). (name, p\<lparr>provider_name := name\<rparr>)) ps\<rparr>)))))"

section \<open>Sockets\<close>

text \<open>The sockets of \<open>LISTEN_FDS\<close>: a descriptor and its name; \<open>usable\<close> says which are listening sockets.\<close>

datatype activation = Listeners "(string \<times> int) list" | BadDescriptor int | ActivationPanics

definition listenFdsStart :: int where
  "listenFdsStart = 3"

fun activated_from :: "(int \<Rightarrow> bool) \<Rightarrow> string list \<Rightarrow> int \<Rightarrow> nat \<Rightarrow> int + (string \<times> int) list" where
  "activated_from usable names fd 0 = Inr []"
| "activated_from usable names fd (Suc n) =
     (if \<not> usable fd then Inl fd
      else (case activated_from usable (drop 1 names) (fd + 1) n of
              Inl bad \<Rightarrow> Inl bad
            | Inr ls \<Rightarrow> Inr ((case names of [] \<Rightarrow> '''' | name # _ \<Rightarrow> name, fd) # ls)))"

definition systemdListeners :: "host \<Rightarrow> int \<Rightarrow> (int \<Rightarrow> bool) \<Rightarrow> activation" where
  "systemdListeners h getpid usable =
     (let getenv = (\<lambda>k. getEnvOrDefault h k '''') in
      if ho_atoi h (getenv ''LISTEN_PID'') \<noteq> Some getpid then Listeners []
      else (case ho_atoi h (getenv ''LISTEN_FDS'') of
              None \<Rightarrow> Listeners []
            | Some num \<Rightarrow>
                if num = 0 then Listeners []
                else if num < 0 then ActivationPanics
                else (case activated_from usable (split_char (CHR '':'') (getenv ''LISTEN_FDNAMES'')) listenFdsStart (nat num) of
                        Inl bad \<Rightarrow> BadDescriptor bad
                      | Inr ls \<Rightarrow> Listeners ls)))"

text \<open>Half of \<open>WATCHDOG_USEC\<close>, which is multiplied in 64 bits; division rounds towards zero.\<close>

definition watchdogInterval :: "host \<Rightarrow> int \<Rightarrow> int" where
  "watchdogInterval h getpid =
     (let pid = getEnvOrDefault h ''WATCHDOG_PID'' '''' in
      if pid \<noteq> '''' \<and> ho_atoi h pid \<noteq> Some getpid then 0
      else (case parse_int 64 (getEnvOrDefault h ''WATCHDOG_USEC'' '''') of
              None \<Rightarrow> 0
            | Some usec \<Rightarrow>
                if usec \<le> 0 then 0
                else (let d = to_i64 (usec * 1000) in if d < 0 then - ((- d) div 2) else d div 2)))"

record socket_endpoint =
  se_name :: string
  se_addr :: string

definition proxyListenerName :: string where
  "proxyListenerName = ''proxy''"

text \<open>The listener of an endpoint: a descriptor, or an address of a network.\<close>

datatype bound = Activated int | Listening string string

text \<open>The first socket of that name, and what is left; no name takes any.\<close>

fun take_listener :: "string \<Rightarrow> (string \<times> int) list \<Rightarrow> int option \<times> (string \<times> int) list" where
  "take_listener name [] = (None, [])"
| "take_listener name ((n, fd) # ls) =
     (if name = '''' \<or> n = name then (Some fd, ls)
      else (case take_listener name ls of (got, rest) \<Rightarrow> (got, (n, fd) # rest)))"

text \<open>One round over the endpoints, for those with a name or for those without.\<close>

fun take_round ::
  "bool \<Rightarrow> (socket_endpoint \<times> int option) list \<Rightarrow> (string \<times> int) list \<Rightarrow>
   (socket_endpoint \<times> int option) list \<times> (string \<times> int) list" where
  "take_round named [] ls = ([], ls)"
| "take_round named ((ep, got) # eps) ls =
     (if (se_name ep \<noteq> '''') = named
      then (case take_listener (se_name ep) ls of
              (got, ls) \<Rightarrow> (case take_round named eps ls of (eps, ls) \<Rightarrow> ((ep, got) # eps, ls)))
      else (case take_round named eps ls of (eps, ls) \<Rightarrow> ((ep, got) # eps, ls)))"

fun listen_all :: "(string \<Rightarrow> string \<Rightarrow> bool) \<Rightarrow> (socket_endpoint \<times> int option) list \<Rightarrow> string + bound list" where
  "listen_all can_listen [] = Inr []"
| "listen_all can_listen ((ep, got) # eps) =
     (let network = (if has_prefix (se_addr ep) ''/'' then ''unix'' else ''tcp'') in
      case (case got of
              Some fd \<Rightarrow> Inr (Activated fd)
            | None \<Rightarrow> if can_listen network (se_addr ep) then Inr (Listening network (se_addr ep))
                      else Inl (''failed to listen on '' @ se_addr ep)) of
        Inl err \<Rightarrow> Inl err
      | Inr b \<Rightarrow> (case listen_all can_listen eps of Inl err \<Rightarrow> Inl err | Inr bs \<Rightarrow> Inr (b # bs)))"

text \<open>The listeners of the endpoints or an error, and the descriptors that were closed.\<close>

definition bindEndpoints ::
  "activation \<Rightarrow> (string \<Rightarrow> string \<Rightarrow> bool) \<Rightarrow> socket_endpoint list \<Rightarrow> (string + bound list) \<times> int list" where
  "bindEndpoints act can_listen eps =
     (case act of
        Listeners activated \<Rightarrow>
          (case take_round True (List.map (\<lambda>ep. (ep, None)) eps) activated of
             (eps, activated) \<Rightarrow>
               (case take_round False eps activated of
                  (eps, activated) \<Rightarrow>
                    (case listen_all can_listen eps of
                       Inl err \<Rightarrow> (Inl err, List.map snd activated @ List.map_filter snd eps)
                     | Inr bs \<Rightarrow> (Inr bs, List.map snd activated))))
      | BadDescriptor fd \<Rightarrow> (Inl ''failed to use socket-activated fd'', [listenFdsStart..fd])
      | ActivationPanics \<Rightarrow> (Inl ''panic'', []))"

section \<open>The service\<close>

text \<open>\<open>CanonicalMIMEHeaderKey\<close>, under which header names are compared; an odd name is left as it is.\<close>

definition is_letter :: "char \<Rightarrow> bool" where
  "is_letter c \<longleftrightarrow> (let n = (of_char c :: nat) in (65 \<le> n \<and> n \<le> 90) \<or> (97 \<le> n \<and> n \<le> 122))"

definition header_char :: "char \<Rightarrow> bool" where
  "header_char c \<longleftrightarrow> is_letter c \<or> is_digit c \<or> c \<in> set ''!#$%&*+-.^_`|~'' \<or> c = CHR 0x27"

fun capitalize :: "bool \<Rightarrow> string \<Rightarrow> string" where
  "capitalize up [] = []"
| "capitalize up (c # s) = (if up then to_upper c else to_lower c) # capitalize (c = CHR ''-'') s"

definition CanonicalHeaderKey :: "string \<Rightarrow> string" where
  "CanonicalHeaderKey s = (if s \<noteq> '''' \<and> list_all header_char s then capitalize True s else s)"

text \<open>What starting needs of the outside besides the host and the OIDC files.\<close>

record run_host =
  rh_connect :: "string \<Rightarrow> bool"
  rh_minio :: "options \<Rightarrow> bool"
  rh_bucket_location :: bool
  rh_presign_client :: "url \<Rightarrow> bool"
  rh_seed :: "bytes \<Rightarrow> bytes"
  rh_lookpath :: "string \<Rightarrow> bool"
  rh_landing_page :: "ServiceSigner option list \<Rightarrow> bool"
  rh_pem :: "string \<Rightarrow> bool"
  rh_keypair :: "string \<Rightarrow> string \<Rightarrow> bool"

definition NewPresignClient :: "host \<Rightarrow> run_host \<Rightarrow> string \<Rightarrow> string \<Rightarrow> string option" where
  "NewPresignClient h rh publicURL region =
     (case up_url (ho_up h) publicURL of
        None \<Rightarrow> Some ''invalid S3 public URL''
      | Some u \<Rightarrow>
          if u_host u = '''' \<or> (u_scheme u \<noteq> ''http'' \<and> u_scheme u \<noteq> ''https'') \<or> (u_path u \<noteq> '''' \<and> u_path u \<noteq> ''/'')
          then Some ''invalid S3 public URL''
          else if region = '''' \<and> \<not> rh_bucket_location rh then Some ''failed to look up bucket region for presigning''
          else if \<not> rh_presign_client rh u then Some ''failed to create presign s3 client''
          else None)"

definition LoadKeyFromFile :: "host \<Rightarrow> run_host \<Rightarrow> string \<Rightarrow> sign_error + Key" where
  "LoadKeyFromFile h rh path =
     (case ho_file h path of
        None \<Rightarrow> Inl (BadKey ''failed to read signing key file'')
      | Some content \<Rightarrow> ParseKey (rh_seed rh) (trim_space content))"

fun load_keys :: "host \<Rightarrow> run_host \<Rightarrow> string list \<Rightarrow> string + ServiceSigner option list" where
  "load_keys h rh [] = Inr []"
| "load_keys h rh (path # paths) =
     (case LoadKeyFromFile h rh path of
        Inl err \<Rightarrow> Inl (''failed to load signing key from '' @ path)
      | Inr key \<Rightarrow>
          (case load_keys h rh paths of Inl err \<Rightarrow> Inl err | Inr ks \<Rightarrow> Inr (Some (KeySigner key) # ks)))"

definition load_signers :: "host \<Rightarrow> run_host \<Rightarrow> options \<Rightarrow> string + ServiceSigner option list" where
  "load_signers h rh opts =
     (case load_keys h rh (op_sign_key_paths opts) of
        Inl err \<Rightarrow> Inl err
      | Inr ks \<Rightarrow>
          if op_sign_program opts = '''' then Inr ks
          else (case NewExternalSigner (op_sign_public_key opts) of
                  Inl err \<Rightarrow> Inl ''failed to configure external signer''
                | Inr s \<Rightarrow>
                    if rh_lookpath rh (op_sign_program opts) then Inr (ks @ [Some (ProgramSigner s)])
                    else Inl ''failed to configure external signer''))"

text \<open>\<open>serverTLSConfig\<close>: whether client certificates are asked for and checked.\<close>

definition serverTLSConfig :: "host \<Rightarrow> run_host \<Rightarrow> string \<Rightarrow> string + bool" where
  "serverTLSConfig h rh clientCA =
     (if clientCA = '''' then Inr False
      else (case ho_file h clientCA of
              None \<Rightarrow> Inl ''reading client CA''
            | Some pem \<Rightarrow> if rh_pem rh pem then Inr True else Inl ''parsing client CA: no PEM certificates found''))"

definition cacheInfo :: "host \<Rightarrow> int \<Rightarrow> string" where
  "cacheInfo h priority =
     (let dir = getEnvOrDefault h ''NIX_STORE_DIR'' '''';
          priority = (if priority = 0 then defaultCachePriority else priority)
      in ''StoreDir: '' @ (if dir = '''' then ''/nix/store'' else dir) @ [newline] @ ''WantMassQuery: 1'' @ [newline] @
         ''Priority: '' @ format_int priority @ [newline])"

definition uploadLandingPage :: "env \<Rightarrow> run_host \<Rightarrow> ServiceSigner option list \<Rightarrow> world \<Rightarrow> world" where
  "uploadLandingPage e rh signers w =
     (if \<not> rh_landing_page rh signers \<or> wait_fault e ''index.html'' then w
      else (case PutObject e ''index.html'' w of
              (Some r, w) \<Rightarrow> note_error r w
            | (None, w) \<Rightarrow> record_success w))"

definition InitializeBucket ::
  "env \<Rightarrow> run_host \<Rightarrow> string \<Rightarrow> ServiceSigner option list \<Rightarrow> world \<Rightarrow> string option \<times> world" where
  "InitializeBucket e rh cacheURL signers w =
     (if wait_fault e ''nix-cache-info'' then (Some ''uploading nix-cache-info'', w)
      else (case PutObject e ''nix-cache-info'' w of
              (Some r, w) \<Rightarrow> (Some ''uploading nix-cache-info'', note_error r w)
            | (None, w) \<Rightarrow>
                (let w = record_success w
                 in (None, if cacheURL \<noteq> '''' then uploadLandingPage e rh signers w else w))))"

text \<open>\<open>nativeMTLS\<close> and the OIDC configuration are known only after their files were read.\<close>

definition service_of :: "options \<Rightarrow> Config option \<Rightarrow> bool \<Rightarrow> service \<Rightarrow> service" where
  "service_of opts oidc nativeMTLS s =
     s\<lparr>APIToken := op_api_token opts, OIDCValidator := oidc, NativeMTLS := nativeMTLS,
       MTLSProxyHeader := (if op_mtls_proxy_header opts = '''' then '''' else CanonicalHeaderKey (op_mtls_proxy_header opts)),
       MTLSSubjectHeader := CanonicalHeaderKey (op_mtls_subject_header opts),
       MTLSBoundSubjects := op_mtls_bound_subjects opts, MTLSBoundSubjectsRead := op_mtls_bound_subjects_read opts\<rparr>"

definition endpoints_of :: "options \<Rightarrow> socket_endpoint list" where
  "endpoints_of opts =
     \<lparr>se_name = '''', se_addr = op_http_addr opts\<rparr> #
     (if op_mtls_proxy_socket opts \<noteq> '''' then [\<lparr>se_name = proxyListenerName, se_addr = op_mtls_proxy_socket opts\<rparr>] else [])"

text \<open>
  \<open>c\<close> carries the surroundings of the service, whose settings are replaced; the result is the service, its
  first state and the endpoints to bind.
\<close>

definition runServer ::
  "host \<Rightarrow> oidc_host \<Rightarrow> run_host \<Rightarrow> server_env \<Rightarrow> options \<Rightarrow> world \<Rightarrow> string + (server_env \<times> server \<times> socket_endpoint list)" where
  "runServer h oh rh c opts w =
     (if \<not> rh_connect rh (op_db opts) then Inl ''failed to connect to database''
      else if \<not> rh_minio rh opts then Inl ''failed to create minio s3 client''
      else (case (if op_s3_public_url opts = '''' then None else NewPresignClient h rh (op_s3_public_url opts) (op_s3_region opts)) of
        Some err \<Rightarrow> Inl err
      | None \<Rightarrow>
        (case (if op_oidc_config opts = '''' then Inr None
               else (case LoadConfig h oh (op_oidc_config opts) of
                       Inl err \<Rightarrow> Inl ''failed to load OIDC config''
                     | Inr cfg \<Rightarrow> if oh_validator oh cfg then Inr (Some cfg) else Inl ''failed to initialize OIDC validator'')) of
           Inl err \<Rightarrow> Inl err
         | Inr oidc \<Rightarrow>
           (case load_signers h rh opts of
              Inl err \<Rightarrow> Inl err
            | Inr signers \<Rightarrow>
              (let us = \<lparr>ups = [], ReadsGatedByProxy = False, MaxNarSize = op_max_nar_size opts\<rparr>;
                   w = w\<lparr>s3_limiter := NewAdaptiveRateLimiter (op_s3_rate_limit opts)\<rparr>
               in case configureUpstreams (service_of opts oidc False (sc_service c)) (length signers) (op_upstreams opts)
                         (op_reads_gated_by_proxy opts) us of
                    Inl err \<Rightarrow> Inl ''upstreams''
                  | Inr us \<Rightarrow>
                    (case InitializeBucket (env.truncate (sc_env c)) rh (op_cache_url opts) signers w of
                       (Some err, w) \<Rightarrow> Inl ''failed to initialize bucket''
                     | (None, w) \<Rightarrow>
                       (case (if op_tls_cert opts = '''' then Inr False
                              else (case serverTLSConfig h rh (op_tls_client_ca opts) of
                                      Inl err \<Rightarrow> Inl err
                                    | Inr asks \<Rightarrow>
                                        if rh_keypair rh (op_tls_cert opts) (op_tls_key opts)
                                        then Inr (op_tls_client_ca opts \<noteq> '''') else Inl ''loading TLS keypair'')) of
                          Inl err \<Rightarrow> Inl err
                        | Inr native \<Rightarrow>
                          Inr (c\<lparr>sc_service := service_of opts oidc native (sc_service c),
                                 sc_proxy := \<lparr>EnableReadProxy = op_enable_read_proxy opts, CacheURL = op_cache_url opts,
                                   ReadRedirectTTL = (if op_enable_read_proxy opts then op_read_redirect_ttl opts else 0)\<rparr>,
                                 sc_upstreams := us, sc_max_nar_size := op_max_nar_size opts,
                                 sc_proxy_socket := op_mtls_proxy_socket opts \<noteq> ''''\<rparr>,
                               \<lparr>sv_world = w, sv_signers = signers, sv_tasks = NewGCTaskStore, sv_runs = []\<rparr>,
                               endpoints_of opts))))))))"

section \<open>What was checked at the start\<close>

lemma parseArgs_checked: "parseArgs h fl = Inr opts \<Longrightarrow> check_options opts = None"
  by (auto simp: parseArgs_def Let_def split: if_splits sum.splits option.splits)

lemma check_options_ok:
  assumes "check_options o' = None"
  shows "1 \<le> op_s3_concurrency o'" "36 \<le> length (op_api_token o')"
    "op_read_redirect_ttl o' = 0 \<or>
       op_enable_read_proxy o' \<and> second \<le> op_read_redirect_ttl o' \<and> op_read_redirect_ttl o' \<le> maxReadRedirectTTL"
    "op_upstreams o' \<noteq> [] \<longrightarrow> op_enable_read_proxy o'"
    "op_mtls_proxy_socket o' \<noteq> '''' \<longrightarrow> op_mtls_proxy_header o' \<noteq> ''''"
    "op_mtls_proxy_header o' \<noteq> '''' \<longrightarrow> op_tls_client_ca o' = ''''"
  using assms
  by (auto simp: check_options_def validateReadProxy_def validateReadRedirect_def validateTLSOptions_def minAPITokenLength_def
      split: if_splits option.splits)

lemma validate_named:
  "validate_providers url i iss (List.map (\<lambda>(name, p). (name, p\<lparr>provider_name := name\<rparr>)) ps) = validate_providers url i iss ps"
proof (induction ps arbitrary: iss)
  case (Cons a ps)
  obtain name p where a: "a = (name, p)" by (cases a)
  have rules: "validateRules (p\<lparr>provider_name := name\<rparr>) = validateRules p"
    by (simp add: validateRules_def effectiveRules_def)
  have "validate_provider url i iss (p\<lparr>provider_name := name\<rparr>) = validate_provider url i iss p"
    unfolding validate_provider_def rules by simp
  with Cons.IH a show ?case by (simp split: option.split)
qed simp

lemma LoadConfig_valid:
  assumes "LoadConfig h oh path = Inr cfg"
  shows "validate_config (oh_url oh) cfg = None" "(name, p) \<in> set (Providers cfg) \<Longrightarrow> provider_name p = name"
  using assms
  by (auto simp: LoadConfig_def Let_def validate_config_def validate_named split: option.splits sum.splits if_splits)

lemma load_keys_some: "load_keys h rh paths = Inr ks \<Longrightarrow> None \<notin> set ks \<and> length ks = length paths"
  by (induction paths arbitrary: ks) (auto split: sum.splits)

lemma load_signers_some: "load_signers h rh opts = Inr ks \<Longrightarrow> None \<notin> set ks"
  by (auto simp: load_signers_def split: sum.splits if_splits dest: load_keys_some)

lemma uploadLandingPage_ok:
  "w_db (uploadLandingPage e rh signers w) = w_db w" "set (bucket w) \<subseteq> set (bucket (uploadLandingPage e rh signers w))"
proof -
  obtain r w1 where put: "PutObject e ''index.html'' w = (r, w1)" by fastforce
  note w1 = PutObject_effect [OF put]
  show "w_db (uploadLandingPage e rh signers w) = w_db w"
    using put w1(1) by (cases r) (simp_all add: uploadLandingPage_def)
  show "set (bucket w) \<subseteq> set (bucket (uploadLandingPage e rh signers w))"
    using put w1(2,3) by (cases r) (auto simp: uploadLandingPage_def)
qed

lemma InitializeBucket_ok:
  assumes "InitializeBucket e rh url signers w = (None, w')"
  shows "w_db w' = w_db w" "''nix-cache-info'' \<in> set (bucket w')"
proof -
  obtain r w1 where put: "PutObject e ''nix-cache-info'' w = (r, w1)" by fastforce
  note w1 = PutObject_effect [OF put]
  from assms put have r: "r = None" and w': "w' = record_success w1 \<or> w' = uploadLandingPage e rh signers (record_success w1)"
    by (cases r; auto simp: InitializeBucket_def Let_def split: if_splits)+
  note up = uploadLandingPage_ok [where e = e and rh = rh and signers = signers and w = "record_success w1"]
  show "w_db w' = w_db w" using w' w1(1) up(1) by auto
  show "''nix-cache-info'' \<in> set (bucket w')" using w' w1(3) [OF r] up(2) by auto
qed

text \<open>What a server that has started looks like, by the branches of \<open>runServer\<close>.\<close>

lemma runServer_ok:
  assumes "runServer h oh rh c opts w = Inr (c', sv, eps)"
  obtains oidc native us w0 where
    "oidc = None \<or> (\<exists>cfg. oidc = Some cfg \<and> LoadConfig h oh (op_oidc_config opts) = Inr cfg)"
    "load_signers h rh opts = Inr (sv_signers sv)" "w_db w0 = w_db w" 
    "configureUpstreams (service_of opts oidc False (sc_service c)) (length (sv_signers sv)) (op_upstreams opts)
       (op_reads_gated_by_proxy opts) \<lparr>ups = [], ReadsGatedByProxy = False, MaxNarSize = op_max_nar_size opts\<rparr> = Inr us"
    "InitializeBucket (env.truncate (sc_env c)) rh (op_cache_url opts) (sv_signers sv) w0 = (None, sv_world sv)"
    "native \<longrightarrow> op_tls_client_ca opts \<noteq> ''''" "native \<or> op_tls_client_ca opts = '''' \<or> op_tls_cert opts = ''''"
    "sc_service c' = service_of opts oidc native (sc_service c)" "sc_upstreams c' = us"
    "sc_proxy_socket c' \<longleftrightarrow> op_mtls_proxy_socket opts \<noteq> ''''" "EnableReadProxy (sc_proxy c') \<longleftrightarrow> op_enable_read_proxy opts"
    "ReadRedirectTTL (sc_proxy c') = (if op_enable_read_proxy opts then op_read_redirect_ttl opts else 0)"
    "sv_tasks sv = NewGCTaskStore" "sv_runs sv = []" "eps = endpoints_of opts"
proof -
  let ?us = "\<lparr>ups = [], ReadsGatedByProxy = False, MaxNarSize = op_max_nar_size opts\<rparr>"
  let ?oidc = "if op_oidc_config opts = '''' then Inr None
     else (case LoadConfig h oh (op_oidc_config opts) of
             Inl err \<Rightarrow> Inl ''failed to load OIDC config''
           | Inr cfg \<Rightarrow> if oh_validator oh cfg then Inr (Some cfg) else Inl ''failed to initialize OIDC validator'')"
  let ?tls = "if op_tls_cert opts = '''' then Inr False
     else (case serverTLSConfig h rh (op_tls_client_ca opts) of
             Inl err \<Rightarrow> Inl err
           | Inr asks \<Rightarrow> if rh_keypair rh (op_tls_cert opts) (op_tls_key opts) then Inr (op_tls_client_ca opts \<noteq> '''')
                        else Inl ''loading TLS keypair'')"
  define w0 where "w0 = w\<lparr>s3_limiter := NewAdaptiveRateLimiter (op_s3_rate_limit opts)\<rparr>"
  obtain oidc where oidc: "?oidc = Inr oidc"
    using assms unfolding runServer_def by (cases ?oidc) (simp_all split: if_splits option.splits)
  obtain signers where signers: "load_signers h rh opts = Inr signers"
    using assms oidc unfolding runServer_def by (cases "load_signers h rh opts") (simp_all split: if_splits option.splits)
  let ?cu = "configureUpstreams (service_of opts oidc False (sc_service c)) (length signers) (op_upstreams opts)
    (op_reads_gated_by_proxy opts) ?us"
  obtain us where us: "?cu = Inr us"
    using assms oidc signers unfolding runServer_def by (cases ?cu) (simp_all split: if_splits option.splits)
  obtain w1 where ib: "InitializeBucket (env.truncate (sc_env c)) rh (op_cache_url opts) signers w0 = (None, w1)"
    using assms oidc signers us unfolding runServer_def
    by (cases "InitializeBucket (env.truncate (sc_env c)) rh (op_cache_url opts) signers w0"; cases "fst (InitializeBucket (env.truncate (sc_env c)) rh (op_cache_url opts) signers w0)")
      (simp_all add: Let_def flip: w0_def split: if_splits option.splits)
  obtain native where native: "?tls = Inr native"
    using assms oidc signers us ib unfolding runServer_def
    by (cases ?tls) (simp_all add: Let_def flip: w0_def split: if_splits option.splits)
  have res: "c' = c\<lparr>sc_service := service_of opts oidc native (sc_service c),
        sc_proxy := \<lparr>EnableReadProxy = op_enable_read_proxy opts, CacheURL = op_cache_url opts,
          ReadRedirectTTL = (if op_enable_read_proxy opts then op_read_redirect_ttl opts else 0)\<rparr>,
        sc_upstreams := us, sc_max_nar_size := op_max_nar_size opts, sc_proxy_socket := op_mtls_proxy_socket opts \<noteq> ''''\<rparr> \<and>
      sv = \<lparr>sv_world = w1, sv_signers = signers, sv_tasks = NewGCTaskStore, sv_runs = []\<rparr> \<and> eps = endpoints_of opts"
    using assms oidc signers us ib native unfolding runServer_def
    by (simp add: Let_def flip: w0_def split: if_splits option.splits)
  show thesis
    by (rule that [of oidc w0 us native])
      (use res oidc signers us ib native in \<open>auto simp: w0_def split: if_splits sum.splits\<close>)
qed

lemma started_service:
  assumes "parseArgs h fl = Inr opts" and "runServer h oh rh c opts w = Inr (c', sv, eps)"
  shows "36 \<le> length (APIToken (sc_service c'))"
    and "OIDCValidator (sc_service c') = Some cfg \<Longrightarrow> validate_config (oh_url oh) cfg = None"
    and "sc_proxy_socket c' \<longleftrightarrow> op_mtls_proxy_socket opts \<noteq> ''''"
    and "sc_proxy_socket c' \<Longrightarrow> MTLSProxyHeader (sc_service c') \<noteq> '''' \<and> \<not> NativeMTLS (sc_service c')"
    and "MTLSProxyHeader (sc_service c') = (if op_mtls_proxy_header opts = '''' then '''' else CanonicalHeaderKey (op_mtls_proxy_header opts))"
    and "MTLSSubjectHeader (sc_service c') = CanonicalHeaderKey (op_mtls_subject_header opts)"
    and "ups (sc_upstreams c') \<noteq> [] \<Longrightarrow> EnableReadProxy (sc_proxy c') \<and> sv_signers sv \<noteq> [] \<and>
      (readGated (sc_service c') \<or> ReadsGatedByProxy (sc_upstreams c'))"
    and "ReadRedirectTTL (sc_proxy c') = 0 \<or> EnableReadProxy (sc_proxy c') \<and>
      second \<le> ReadRedirectTTL (sc_proxy c') \<and> ReadRedirectTTL (sc_proxy c') \<le> maxReadRedirectTTL"
    and "None \<notin> set (sv_signers sv)" and "w_db (sv_world sv) = w_db w" and "''nix-cache-info'' \<in> set (bucket (sv_world sv))"
proof -
  note opts = check_options_ok [OF parseArgs_checked [OF assms(1)]]
  obtain oidc native us w0 where r:
    "oidc = None \<or> (\<exists>cfg. oidc = Some cfg \<and> LoadConfig h oh (op_oidc_config opts) = Inr cfg)"
    "load_signers h rh opts = Inr (sv_signers sv)" "w_db w0 = w_db w"
    "configureUpstreams (service_of opts oidc False (sc_service c)) (length (sv_signers sv)) (op_upstreams opts)
       (op_reads_gated_by_proxy opts) \<lparr>ups = [], ReadsGatedByProxy = False, MaxNarSize = op_max_nar_size opts\<rparr> = Inr us"
    "InitializeBucket (env.truncate (sc_env c)) rh (op_cache_url opts) (sv_signers sv) w0 = (None, sv_world sv)"
    "native \<longrightarrow> op_tls_client_ca opts \<noteq> ''''"
    "sc_service c' = service_of opts oidc native (sc_service c)" "sc_upstreams c' = us"
    "sc_proxy_socket c' \<longleftrightarrow> op_mtls_proxy_socket opts \<noteq> ''''" "EnableReadProxy (sc_proxy c') \<longleftrightarrow> op_enable_read_proxy opts"
    "ReadRedirectTTL (sc_proxy c') = (if op_enable_read_proxy opts then op_read_redirect_ttl opts else 0)"
    using assms(2) by (elim runServer_ok) blast
  show "36 \<le> length (APIToken (sc_service c'))" using opts(2) by (simp add: r(7) service_of_def)
  show "validate_config (oh_url oh) cfg = None" if "OIDCValidator (sc_service c') = Some cfg"
    using that r(1) LoadConfig_valid(1) by (auto simp: r(7) service_of_def)
  show "sc_proxy_socket c' \<longleftrightarrow> op_mtls_proxy_socket opts \<noteq> ''''" by (rule r(9))
  have canon: "CanonicalHeaderKey s \<noteq> ''''" if "s \<noteq> ''''" for s
    using that by (cases s) (auto simp: CanonicalHeaderKey_def)
  show "MTLSProxyHeader (sc_service c') \<noteq> '''' \<and> \<not> NativeMTLS (sc_service c')" if "sc_proxy_socket c'"
    using that r(6,9) opts(5,6) canon by (auto simp: r(7) service_of_def)
  show "MTLSProxyHeader (sc_service c') = (if op_mtls_proxy_header opts = '''' then '''' else CanonicalHeaderKey (op_mtls_proxy_header opts))"
    "MTLSSubjectHeader (sc_service c') = CanonicalHeaderKey (op_mtls_subject_header opts)"
    by (simp_all add: r(7) service_of_def)
  show "EnableReadProxy (sc_proxy c') \<and> sv_signers sv \<noteq> [] \<and> (readGated (sc_service c') \<or> ReadsGatedByProxy (sc_upstreams c'))"
    if "ups (sc_upstreams c') \<noteq> []"
    using that r(4,10) opts(4)
    by (auto simp: r(7,8) configureUpstreams_def Let_def service_of_def readGated_def split: if_splits)
  show "ReadRedirectTTL (sc_proxy c') = 0 \<or> EnableReadProxy (sc_proxy c') \<and>
      second \<le> ReadRedirectTTL (sc_proxy c') \<and> ReadRedirectTTL (sc_proxy c') \<le> maxReadRedirectTTL"
    using opts(3) r(10,11) by auto
  show "None \<notin> set (sv_signers sv)" by (rule load_signers_some [OF r(2)])
  show "w_db (sv_world sv) = w_db w" "''nix-cache-info'' \<in> set (bucket (sv_world sv))"
    using InitializeBucket_ok [OF r(5)] r(3) by simp_all
qed

section \<open>Who listens where\<close>

text \<open>The descriptors the endpoints hold and those that are left.\<close>

definition held :: "(socket_endpoint \<times> int option) list \<Rightarrow> int list" where
  "held eps = List.map_filter snd eps"

lemma held_simps [simp]:
  "held [] = []" "held ((ep, None) # eps) = held eps" "held ((ep, Some fd) # eps) = fd # held eps"
  by (simp_all add: held_def List.map_filter_simps)

lemma take_listener_ok:
  "take_listener name ls = (got, rest) \<Longrightarrow>
   mset (map snd ls) = mset (case got of None \<Rightarrow> [] | Some fd \<Rightarrow> [fd]) + mset (map snd rest)"
  by (induction name ls arbitrary: got rest rule: take_listener.induct) (auto split: prod.splits if_splits option.splits)

lemma take_round_Cons:
  assumes "take_round named ((ep, got) # eps) ls = (eps', rest)"
  obtains (mine) g ls1 e2 where "(se_name ep \<noteq> '''') = named" "take_listener (se_name ep) ls = (g, ls1)"
      "take_round named eps ls1 = (e2, rest)" "eps' = (ep, g) # e2"
  | (other) e2 where "(se_name ep \<noteq> '''') \<noteq> named" "take_round named eps ls = (e2, rest)" "eps' = (ep, got) # e2"
  using assms by (auto split: if_splits prod.splits)

lemma take_round_ok:
  assumes "take_round named eps ls = (eps', rest)" and "\<forall>(ep, got) \<in> set eps. (se_name ep \<noteq> '''') = named \<longrightarrow> got = None"
  shows "map fst eps' = map fst eps \<and> mset (held eps) + mset (map snd ls) = mset (held eps') + mset (map snd rest)"
  using assms
proof (induction eps arbitrary: ls eps' rest)
  case (Cons a eps)
  obtain ep got where a: "a = (ep, got)" by (cases a)
  have tl: "\<forall>(ep, got) \<in> set eps. (se_name ep \<noteq> '''') = named \<longrightarrow> got = None" using Cons.prems(2) by simp
  from Cons.prems(1) [unfolded a] show ?case
  proof (cases rule: take_round_Cons)
    case (mine g ls1 e2)
    have "got = None" using Cons.prems(2) a mine(1) by simp
    with Cons.IH [OF mine(3) tl] take_listener_ok [OF mine(2)] a mine(4) show ?thesis by (cases g) simp_all
  next
    case (other e2)
    with Cons.IH [OF other(2) tl] a show ?thesis by (cases got) simp_all
  qed
qed simp

lemma take_round_other:
  assumes "take_round named eps ls = (eps', rest)" "(ep, got) \<in> set eps'" "(se_name ep \<noteq> '''') \<noteq> named"
  shows "(ep, got) \<in> set eps"
  using assms
proof (induction eps arbitrary: ls eps' rest)
  case (Cons a eps)
  obtain ep0 got0 where a: "a = (ep0, got0)" by (cases a)
  from Cons.prems(1) [unfolded a] show ?case
  proof (cases rule: take_round_Cons)
    case (mine g ls1 e2)
    with Cons.IH [OF mine(3)] Cons.prems(2,3) show ?thesis by auto
  next
    case (other e2)
    with Cons.IH [OF other(2)] Cons.prems(2,3) a show ?thesis by auto
  qed
qed simp

lemma listen_all_ok:
  "listen_all can eps = Inr bs \<Longrightarrow>
   length bs = length eps \<and> List.map_filter (\<lambda>b. case b of Activated fd \<Rightarrow> Some fd | Listening n a \<Rightarrow> None) bs = held eps"
  by (induction eps arbitrary: bs)
    (auto simp: Let_def List.map_filter_simps split: option.splits sum.splits if_splits)

text \<open>
  No socket is lost or given away twice: of the sockets systemd passed, each is held by one endpoint or
  closed, and when an endpoint cannot listen all of them are closed.
\<close>
theorem bindEndpoints_no_leak:
  assumes "bindEndpoints (Listeners ls) can eps = (res, shut)"
  shows "case res of
      Inr bs \<Rightarrow> length bs = length eps \<and> mset (map snd ls) =
        mset (List.map_filter (\<lambda>b. case b of Activated fd \<Rightarrow> Some fd | Listening n a \<Rightarrow> None) bs) + mset shut
    | Inl err \<Rightarrow> mset shut = mset (map snd ls)"
proof -
  let ?eps = "map (\<lambda>ep. (ep, None)) eps"
  obtain e1 l1 where r1: "take_round True ?eps ls = (e1, l1)" by fastforce
  obtain e2 l2 where r2: "take_round False e1 l1 = (e2, l2)" by fastforce
  have h0: "held ?eps = []" by (induction eps) simp_all
  have "\<forall>(ep, got) \<in> set ?eps. (se_name ep \<noteq> '''') = True \<longrightarrow> got = None" by auto
  from take_round_ok [OF r1 this] h0 have 1: "map fst e1 = map fst ?eps" "mset (map snd ls) = mset (held e1) + mset (map snd l1)"
    by simp_all
  have "\<forall>(ep, got) \<in> set e1. (se_name ep \<noteq> '''') = False \<longrightarrow> got = None"
    using take_round_other [OF r1] by fastforce
  note 2 = take_round_ok [OF r2 this]
  from 1(1) conjunct1 [OF 2] have "map fst e2 = map fst ?eps" by simp
  from arg_cong [OF this, of length] have len: "length e2 = length eps" by simp
  have all: "mset (map snd ls) = mset (held e2) + mset (map snd l2)" using 1(2) 2 by simp
  show ?thesis
  proof (cases "listen_all can e2")
    case (Inl err)
    with assms r1 r2 have "res = Inl err" "shut = map snd l2 @ held e2" by (simp_all add: bindEndpoints_def held_def)
    with all show ?thesis by simp
  next
    case (Inr bs)
    with assms r1 r2 have "res = Inr bs" "shut = map snd l2" by (simp_all add: bindEndpoints_def)
    with all len listen_all_ok [OF Inr] show ?thesis by simp
  qed
qed

section \<open>Properties\<close>


text \<open>A request without a token and without a certificate is turned away from what is not public.\<close>

lemma anonymous_refused:
  assumes "\<And>b. \<not> cert_matches s r b" "requestToken r = ''''" "scope \<noteq> ScopeRead \<or> readGated s"
  shows "RequireScope s scope r = Refused 401 ''Unauthorized''"
proof -
  have "authenticate s r = None"
    by (cases "authenticate s r") (use assms(1,2) in \<open>auto elim: authenticate_cases\<close>)
  with assms(3) show ?thesis by (auto simp: RequireScope_def)
qed

lemma anonymous_Serve:
  assumes "\<And>b. \<not> cert_matches (sc_service c) (seen_request c call) b" "requestToken (seen_request c call) = ''''"
    and "ServeMux (routes (EnableReadProxy (sc_proxy c))) (rq_method (seen_request c call)) (rq_path (seen_request c call)) = Matched t vals"
  shows "case t of Public ep \<Rightarrow> True | Scoped scope ep \<Rightarrow> Serve c call st = (Failed 401 ''Unauthorized'', st)
    | ReadProxy \<Rightarrow> readGated (sc_service c) \<longrightarrow> Serve c call st = (Failed 401 ''Unauthorized'', st)"
  using anonymous_refused [OF assms(1,2)] matched_target [OF assms(3)] assms(3)
  by (auto simp: Serve_def scoped_def Let_def scope_names split: target.split)

text \<open>
  C33: on the public address of a server with a proxy socket only a token counts. Take a request without
  a token that comes in there, with whatever headers, method, path and body. If it is routed to an endpoint of the
  API it is answered 401 and the server is as it was; so it is if it is routed to the read proxy and reads are gated.
  Whatever it is routed to, what lasts is unchanged, unless the server has upstreams and its operator has stated that
  the proxy gates all reads, when a read may fill from an upstream. The two trusted headers must not be
  configured to be \<open>Authorization\<close>.
\<close>
theorem public_listener_needs_token:
  assumes "parseArgs h fl = Inr opts" and "runServer h oh rh c opts w = Inr (c', sv, eps)"
    and "op_mtls_proxy_socket opts \<noteq> ''''"
    and "CanonicalHeaderKey (op_mtls_proxy_header opts) \<noteq> ''Authorization''"
    and "CanonicalHeaderKey (op_mtls_subject_header opts) \<noteq> ''Authorization''"
    and "\<not> ca_proxy_socket call" and "requestToken (ca_request call) = ''''"
  shows "(durable (snd (Serve c' call st)) = durable st \<or>
      (ups (sc_upstreams c') \<noteq> [] \<and> ReadsGatedByProxy (sc_upstreams c'))) \<and>
    (case ServeMux (routes (EnableReadProxy (sc_proxy c'))) (rq_method (ca_request call)) (rq_path (ca_request call)) of
       Matched t vals \<Rightarrow>
         (case t of
            Public ep \<Rightarrow> True
          | Scoped scope ep \<Rightarrow> Serve c' call st = (Failed 401 ''Unauthorized'', st)
          | ReadProxy \<Rightarrow> readGated (sc_service c') \<longrightarrow> Serve c' call st = (Failed 401 ''Unauthorized'', st))
     | other \<Rightarrow> snd (Serve c' call st) = st)"
proof -
  note st = started_service [OF assms(1,2)]
  let ?s = "sc_service c'" and ?r = "seen_request c' call"
  have sock: "sc_proxy_socket c'" using assms(3) st(3) by simp
  then have r: "?r = public_request ?s (ca_request call)"
    using assms(6) by (simp add: seen_request_def)
  then have mp: "rq_method ?r = rq_method (ca_request call)" "rq_path ?r = rq_path (ca_request call)"
    by (simp_all add: public_request_def stripHeaders_def)
  have "MTLSProxyHeader ?s \<noteq> ''Authorization''" "MTLSSubjectHeader ?s \<noteq> ''Authorization''"
    using assms(4,5) st(5,6) by auto
  then have tok: "requestToken ?r = ''''" unfolding r using assms(7) by (simp add: public_token)
  have cert: "\<not> cert_matches ?s ?r b" for b
    unfolding r using st(4) [OF sock] by (simp add: public_no_cert)
  then have "\<not> credential ?s ?r scope" for scope
    using tok st(1) by (auto simp: credential_def token_grants_def)
  with Serve_effect [OF prod.collapse [symmetric], of c' call st]
  have kept: "durable (snd (Serve c' call st)) = durable st \<or> (ups (sc_upstreams c') \<noteq> [] \<and> ReadsGatedByProxy (sc_upstreams c'))"
    by blast
  show ?thesis
  proof (cases "ServeMux (routes (EnableReadProxy (sc_proxy c'))) (rq_method ?r) (rq_path ?r)")
    case (Matched t vals)
    from anonymous_Serve [OF cert tok this] kept Matched show ?thesis by (simp add: mp)
  qed (use kept in \<open>simp_all add: mp Serve_def Let_def\<close>)
qed

text \<open>A server with a proxy socket, from its command line.\<close>

definition bare_host :: host where
  "bare_host = \<lparr>ho_env = (\<lambda>_. None), ho_file = (\<lambda>_. None), ho_atoi = (\<lambda>_. None), ho_flag_int = (\<lambda>_. None),
     ho_float = (\<lambda>_. None), ho_overflow = (\<lambda>_. 0), ho_duration = (\<lambda>_. None), ho_up = fill_env\<rparr>"

definition bare_flags :: flags where
  "bare_flags = [(''db'', ''postgres''), (''s3-endpoint'', ''s3''), (''s3-access-key'', ''a''), (''s3-secret-key'', ''b''),
     (''s3-bucket'', ''c''), (''api-token'', ''0123456789abcdef0123456789abcdef0123''),
     (''mtls-proxy-header'', ''x-ssl-client-verify''), (''mtls-proxy-socket'', ''/run/niks3'')]"

definition bare_options :: options where
  "bare_options = (flag_options bare_host bare_flags)\<lparr>op_s3_bucket_lookup := LookupAuto\<rparr>"

definition no_oidc :: oidc_host where
  "no_oidc = \<lparr>oh_config = (\<lambda>_. None), oh_iss = (\<lambda>_. None), oh_url = (\<lambda>_. None), oh_validator = (\<lambda>_. True)\<rparr>"

definition good_run :: run_host where
  "good_run = \<lparr>rh_connect = (\<lambda>_. True), rh_minio = (\<lambda>_. True), rh_bucket_location = True, rh_presign_client = (\<lambda>_. True),
     rh_seed = (\<lambda>s. s @ s), rh_lookpath = (\<lambda>_. True), rh_landing_page = (\<lambda>_. True), rh_pem = (\<lambda>_. True),
     rh_keypair = (\<lambda>_ _. True)\<rparr>"

lemma bare_parse: "parseArgs bare_host bare_flags = Inr bare_options"
  by code_simp

lemma bare_run:
  "case runServer bare_host no_oidc good_run small_env bare_options empty_world of Inl err \<Rightarrow> False
   | Inr (c', sv, eps) \<Rightarrow> MTLSProxyHeader (sc_service c') = ''X-Ssl-Client-Verify'' \<and> eps \<noteq> [] \<and> ups (sc_upstreams c') = []"
  by code_simp


theorem public_listener_needs_token_witness:
  "\<exists>c' sv eps. runServer bare_host no_oidc good_run small_env bare_options empty_world = Inr (c', sv, eps) \<and>
     Serve c' (small_call forged) sv = (Failed 401 ''Unauthorized'', sv)"
proof -
  obtain c' sv eps where run: "runServer bare_host no_oidc good_run small_env bare_options empty_world = Inr (c', sv, eps)"
    and c': "ups (sc_upstreams c') = []"
    using bare_run by (auto split: sum.splits)
  have h: "op_mtls_proxy_socket bare_options \<noteq> ''''" "CanonicalHeaderKey (op_mtls_proxy_header bare_options) \<noteq> ''Authorization''"
    "CanonicalHeaderKey (op_mtls_subject_header bare_options) \<noteq> ''Authorization''" by code_simp+
  have "\<not> ca_proxy_socket (small_call forged)" by (simp add: small_call_def)
  moreover have "requestToken (ca_request (small_call forged)) = ''''" by code_simp
  moreover have "ServeMux (routes b) (rq_method (ca_request (small_call forged))) (rq_path (ca_request (small_call forged))) =
      Matched (Scoped ScopeAdmin CleanupClosures) []" for b
    by (cases b) code_simp+
  ultimately have "Serve c' (small_call forged) sv = (Failed 401 ''Unauthorized'', sv)"
    using public_listener_needs_token [OF bare_parse run h, of "small_call forged" sv] by simp
  with run show ?thesis by blast
qed

end
