(* ===== verification/SignerPrograms.thy ===== *)
theory SignerPrograms
  imports Startup
begin

text \<open>
  The signing programs that come with the server: \<open>src/cmd/niks3-pkcs11-signer/main.go\<close> (an HSM) and
  \<open>src/cmd/niks3-openbao-signer/main.go\<close> (the transit engine of OpenBao). Both speak the protocol of
  \<open>Signing\<close>: the locale \<open>signing_protocol\<close> says what a program promises, and both are interpretations
  of it. The PKCS#11 module and the HTTP service are parameters.
\<close>

section \<open>Answering requests\<close>

text \<open>What the JSON decoder finds on standard input, up to its end.\<close>

datatype program_input = SignRequest u64 "(string \<times> string) list" | BadInput

text \<open>The signatures of a request; the first fingerprint that cannot be signed ends it.\<close>

fun sign_batch :: "string \<Rightarrow> (string \<Rightarrow> string + bytes) \<Rightarrow> (string \<times> string) list \<Rightarrow> string + (string \<times> string) list" where
  "sign_batch keyName sign [] = Inr []"
| "sign_batch keyName sign ((objectKey, fingerprint) # fps) =
     (case sign fingerprint of
        Inl err \<Rightarrow> Inl (''narinfo '' @ objectKey @ '': '' @ err)
      | Inr signature \<Rightarrow>
          (case sign_batch keyName sign fps of
             Inl err \<Rightarrow> Inl err
           | Inr sigs \<Rightarrow> Inr ((objectKey, keyName @ '':'' @ b64_encode signature) # sigs)))"

text \<open>
  The loops of both programs: what they write and the error they end with, if any. \<open>sign\<close> and the
  output are given the number of the request, for a token or a service may fail at any time.
\<close>

fun pkcs11_serve ::
  "string \<Rightarrow> (nat \<Rightarrow> string \<Rightarrow> string + bytes) \<Rightarrow> (nat \<Rightarrow> bool) \<Rightarrow> nat \<Rightarrow> program_input list \<Rightarrow>
   signResponse list \<times> string option" where
  "pkcs11_serve keyName sign out_ok n [] = ([], None)"
| "pkcs11_serve keyName sign out_ok n (BadInput # ins) = ([], Some ''reading request'')"
| "pkcs11_serve keyName sign out_ok n (SignRequest i fps # ins) =
     (case sign_batch keyName (sign n) fps of
        Inl err \<Rightarrow> ([], Some err)
      | Inr sigs \<Rightarrow>
          if \<not> out_ok n then ([], Some ''writing response'')
          else (case pkcs11_serve keyName sign out_ok (n + 1) ins of
                  (out, res) \<Rightarrow> (\<lparr>sr_id = i, sr_signatures = Some sigs, sr_error = ''''\<rparr> # out, res)))"

definition bao_response :: "string \<Rightarrow> (string \<Rightarrow> string + bytes) \<Rightarrow> u64 \<Rightarrow> (string \<times> string) list \<Rightarrow> signResponse" where
  "bao_response keyName sign i fps =
     (case sign_batch keyName sign fps of
        Inl err \<Rightarrow> \<lparr>sr_id = i, sr_signatures = None, sr_error = err\<rparr>
      | Inr sigs \<Rightarrow> \<lparr>sr_id = i, sr_signatures = Some sigs, sr_error = ''''\<rparr>)"

fun bao_serve ::
  "string \<Rightarrow> (nat \<Rightarrow> string \<Rightarrow> string + bytes) \<Rightarrow> (nat \<Rightarrow> bool) \<Rightarrow> nat \<Rightarrow> program_input list \<Rightarrow>
   signResponse list \<times> string option" where
  "bao_serve keyName sign out_ok n [] = ([], None)"
| "bao_serve keyName sign out_ok n (BadInput # ins) = ([], Some ''reading request'')"
| "bao_serve keyName sign out_ok n (SignRequest i fps # ins) =
     (if \<not> out_ok n then ([], Some ''writing response'')
      else (case bao_serve keyName sign out_ok (n + 1) ins of
              (out, res) \<Rightarrow> (bao_response keyName (sign n) i fps # out, res)))"

section \<open>The PKCS#11 token\<close>

text \<open>The calls of the module, which may fail; \<open>p11_find\<close> is asked for private or public keys.\<close>

record pkcs11_module =
  p11_initialize :: bool
  p11_slots :: "nat list option"
  p11_token_label :: "nat \<Rightarrow> string option"
  p11_session :: "nat \<Rightarrow> bool"
  p11_login :: "string \<Rightarrow> bool"
  p11_find :: "bool \<Rightarrow> string \<Rightarrow> nat list option"
  p11_point :: "nat \<Rightarrow> bytes option"
  p11_sign_init :: "nat \<Rightarrow> bool"
  p11_sign :: "nat \<Rightarrow> string \<Rightarrow> bytes option"

record pkcs11_token =
  tk_module :: pkcs11_module
  tk_label :: string

definition findToken :: "pkcs11_module \<Rightarrow> string \<Rightarrow> string + nat" where
  "findToken m label =
     (case p11_slots m of
        None \<Rightarrow> Inl ''listing slots''
      | Some slots \<Rightarrow>
          (case find (\<lambda>slot. case p11_token_label m slot of None \<Rightarrow> False | Some l \<Rightarrow> trim_space l = label) slots of
             None \<Rightarrow> Inl ''no token with this label''
           | Some slot \<Rightarrow> Inr slot))"

definition openToken :: "(string \<Rightarrow> pkcs11_module option) \<Rightarrow> string \<Rightarrow> string \<Rightarrow> string \<Rightarrow> string \<Rightarrow> string + pkcs11_token" where
  "openToken load path label pin keyLabel =
     (case load path of
        None \<Rightarrow> Inl ''loading PKCS#11 module''
      | Some m \<Rightarrow>
          if \<not> p11_initialize m then Inl ''initializing module''
          else (case findToken m label of
                  Inl err \<Rightarrow> Inl err
                | Inr slot \<Rightarrow>
                    if \<not> p11_session m slot then Inl ''opening session''
                    else if \<not> p11_login m pin then Inl ''logging in''
                    else Inr \<lparr>tk_module = m, tk_label = keyLabel\<rparr>))"

definition findKey :: "pkcs11_token \<Rightarrow> bool \<Rightarrow> string + nat" where
  "findKey t private =
     (case p11_find (tk_module t) private (tk_label t) of
        None \<Rightarrow> Inl ''searching for key''
      | Some [] \<Rightarrow> Inl ''no key with this label''
      | Some (object # _) \<Rightarrow> Inr object)"

definition publicKey :: "pkcs11_token \<Rightarrow> string + bytes" where
  "publicKey t =
     (case findKey t False of
        Inl err \<Rightarrow> Inl err
      | Inr object \<Rightarrow>
          (case p11_point (tk_module t) object of
             None \<Rightarrow> Inl ''reading public key''
           | Some point \<Rightarrow>
               (let point = (if length point = 34 \<and> point ! 0 = 0x04 \<and> point ! 1 = 0x20 then drop 2 point else point) in
                if length point \<noteq> 32 then Inl ''unexpected public key length'' else Inr point)))"

definition token_sign :: "pkcs11_token \<Rightarrow> string \<Rightarrow> string + bytes" where
  "token_sign t fingerprint =
     (case findKey t True of
        Inl err \<Rightarrow> Inl err
      | Inr object \<Rightarrow>
          if \<not> p11_sign_init (tk_module t) object then Inl ''starting signature''
          else (case p11_sign (tk_module t) object fingerprint of None \<Rightarrow> Inl ''signing'' | Some sig \<Rightarrow> Inr sig))"

datatype program_run = ProgramFails string | PrintsKey string | Serves "signResponse list" "string option"

text \<open>
  \<open>load\<close> also stands for the state of the token while the requests are answered, so it is asked again at
  each of them: the token that was opened may be gone.
\<close>

definition pkcs11_run ::
  "host \<Rightarrow> flags \<Rightarrow> (nat \<Rightarrow> string \<Rightarrow> pkcs11_module option) \<Rightarrow> (nat \<Rightarrow> bool) \<Rightarrow> program_input list \<Rightarrow> program_run" where
  "pkcs11_run h fl load out_ok ins =
     (let path = str_flag h fl ''module'' ''NIKS3_PKCS11_MODULE'' '''';
          tokenLabel = str_flag h fl ''token'' ''NIKS3_PKCS11_TOKEN'' '''';
          pinFile = str_flag h fl ''pin-file'' ''NIKS3_PKCS11_PIN_FILE'' '''';
          keyLabel = str_flag h fl ''key'' ''NIKS3_PKCS11_KEY'' '''';
          name = str_flag h fl ''signature-name'' ''NIKS3_PKCS11_SIGNATURE_NAME'' '''';
          printKey = (case flag_last fl ''print-public-key'' of None \<Rightarrow> False | Some v \<Rightarrow> parse_bool v = Some True)
      in if (case flag_last fl ''print-public-key'' of None \<Rightarrow> False | Some v \<Rightarrow> parse_bool v = None) then ProgramFails ''usage''
         else if path = '''' \<or> tokenLabel = '''' \<or> pinFile = '''' \<or> keyLabel = '''' \<or> name = ''''
         then ProgramFails ''module, token, PIN file, key and signature name are required''
         else (case ho_file h pinFile of
                 None \<Rightarrow> ProgramFails ''reading PIN''
               | Some pin \<Rightarrow>
                   (case openToken (load 0) path tokenLabel (trim_space pin) keyLabel of
                      Inl err \<Rightarrow> ProgramFails err
                    | Inr t \<Rightarrow>
                        if printKey
                        then (case publicKey t of
                                Inl err \<Rightarrow> ProgramFails err
                              | Inr key \<Rightarrow> PrintsKey (name @ '':'' @ b64_encode key @ [newline]))
                        else (case pkcs11_serve name
                                     (\<lambda>n. case load n path of None \<Rightarrow> (\<lambda>_. Inl ''signing'') | Some m \<Rightarrow> token_sign (t\<lparr>tk_module := m\<rparr>))
                                     out_ok 0 ins of
                                (out, res) \<Rightarrow> Serves out res))))"

section \<open>The transit engine\<close>

record bao_reply =
  br_status :: int
  br_signature :: "string option"

text \<open>
  A POST with the token and the input in base64; no reply is a failure of the call, and a reply without
  a signature one whose body does not decode. \<open>http.NewRequest\<close> fails on an address that is no URL, as
  the call does here.
\<close>

type_synonym bao_service = "string \<Rightarrow> string \<Rightarrow> string \<Rightarrow> bao_reply option"

text \<open>\<open>vault:v1:\<close> and the signature in base64: the last of three parts.\<close>

definition transit_signature :: "string \<Rightarrow> string + bytes" where
  "transit_signature sig =
     (case cut_str sig '':'' of
        (part0, rest, found) \<Rightarrow>
          (case cut_str rest '':'' of
             (part1, part2, found') \<Rightarrow>
               if \<not> found \<or> \<not> found' then Inl ''unexpected OpenBao signature format''
               else (case b64_decode part2 of
                       None \<Rightarrow> Inl ''decoding OpenBao signature''
                     | Some signature \<Rightarrow> Inr signature)))"

definition transit_sign :: "host \<Rightarrow> bao_service \<Rightarrow> string \<Rightarrow> string \<Rightarrow> string \<Rightarrow> string + bytes" where
  "transit_sign h service signURL tokenFile fingerprint =
     (case ho_file h tokenFile of
        None \<Rightarrow> Inl ''reading token''
      | Some token \<Rightarrow>
          (case service signURL (trim_space token) (b64_encode (List.map of_char fingerprint)) of
             None \<Rightarrow> Inl ''calling OpenBao''
           | Some reply \<Rightarrow>
               if br_status reply \<noteq> 200 then Inl ''OpenBao returned another status''
               else (case br_signature reply of
                       None \<Rightarrow> Inl ''decoding OpenBao reply''
                     | Some sig \<Rightarrow> transit_signature sig)))"

text \<open>\<open>url.PathEscape\<close>.\<close>

definition hex_upper :: "nat \<Rightarrow> char" where
  "hex_upper n = ''0123456789ABCDEF'' ! n"

definition path_char :: "char \<Rightarrow> bool" where
  "path_char c \<longleftrightarrow> is_letter c \<or> is_digit c \<or> c \<in> set ''-_.~$&+=:@''"

definition PathEscape :: "string \<Rightarrow> string" where
  "PathEscape s = concat (List.map (\<lambda>c. if path_char c then [c]
     else [CHR ''%'', hex_upper (of_char c div 16), hex_upper (of_char c mod 16)]) s)"

definition trim_right_slashes :: "string \<Rightarrow> string" where
  "trim_right_slashes s = rev (dropWhile (\<lambda>c. c = CHR ''/'') (rev s))"

definition bao_run ::
  "host \<Rightarrow> flags \<Rightarrow> (nat \<Rightarrow> host) \<Rightarrow> (nat \<Rightarrow> bao_service) \<Rightarrow> (nat \<Rightarrow> bool) \<Rightarrow> program_input list \<Rightarrow> program_run" where
  "bao_run h fl hosts services out_ok ins =
     (let addr = str_flag h fl ''addr'' ''NIKS3_OPENBAO_ADDR'' '''';
          tokenFile = str_flag h fl ''token-file'' ''NIKS3_OPENBAO_TOKEN_FILE'' '''';
          key = str_flag h fl ''key'' ''NIKS3_OPENBAO_KEY'' '''';
          name = str_flag h fl ''signature-name'' ''NIKS3_OPENBAO_SIGNATURE_NAME'' ''''
      in if addr = '''' \<or> tokenFile = '''' \<or> key = '''' \<or> name = ''''
         then ProgramFails ''address, token file, key and signature name are required''
         else (case bao_serve name
                      (\<lambda>n. transit_sign (hosts n) (services n) (trim_right_slashes addr @ ''/v1/transit/sign/'' @ PathEscape key) tokenFile)
                      out_ok 0 ins of
                 (out, res) \<Rightarrow> Serves out res))"

section \<open>The protocol\<close>

text \<open>
  A program as the server sees it: process \<open>p\<close> of it is sent request \<open>i\<close>. Nothing comes back when the
  process ends. Both loops answer request by request, so one request at a time says it all.
\<close>

definition pkcs11_program :: "string \<Rightarrow> (nat \<Rightarrow> u64 \<Rightarrow> string \<Rightarrow> string + bytes) \<Rightarrow> signing_program" where
  "pkcs11_program keyName sign p i fps =
     (case fst (pkcs11_serve keyName (\<lambda>_. sign p i) (\<lambda>_. True) 0 [SignRequest i fps]) of [] \<Rightarrow> None | r # _ \<Rightarrow> Some r)"

definition bao_program :: "string \<Rightarrow> (nat \<Rightarrow> u64 \<Rightarrow> string \<Rightarrow> string + bytes) \<Rightarrow> signing_program" where
  "bao_program keyName sign p i fps =
     (case fst (bao_serve keyName (\<lambda>_. sign p i) (\<lambda>_. True) 0 [SignRequest i fps]) of [] \<Rightarrow> None | r # _ \<Rightarrow> Some r)"

definition device_ok :: "ed_verifier \<Rightarrow> bytes \<Rightarrow> (nat \<Rightarrow> u64 \<Rightarrow> string \<Rightarrow> string + bytes) \<Rightarrow> bool" where
  "device_ok ed key sign \<longleftrightarrow> (\<forall>p i fp x. sign p i fp = Inr x \<longrightarrow> length x = 64 \<and> ed key fp x)"

locale signing_protocol =
  fixes program :: signing_program and keyName :: string and sign :: "nat \<Rightarrow> u64 \<Rightarrow> string \<Rightarrow> string + bytes"
  assumes answers_id: "program p i fps = Some r \<Longrightarrow> sr_id r = i"
    and signs_all: "program p i fps = Some r \<Longrightarrow> sr_error r = '''' \<Longrightarrow>
      \<exists>sigs. sr_signatures r = Some sigs \<and> map fst sigs = map fst fps \<and>
        (\<forall>k sig. (k, sig) \<in> set sigs \<longrightarrow>
           (\<exists>fp x. (k, fp) \<in> set fps \<and> sign p i fp = Inr x \<and> sig = keyName @ '':'' @ b64_encode x))"
    and completes: "(\<And>k fp. (k, fp) \<in> set fps \<Longrightarrow> \<exists>x. sign p i fp = Inr x) \<Longrightarrow>
      \<exists>r. program p i fps = Some r \<and> sr_error r = ''''"

text \<open>A program that outlives its errors, and one that ends instead of reporting them.\<close>

locale resilient_protocol = signing_protocol +
  assumes stays: "program p i fps \<noteq> None"

locale crashing_protocol = signing_protocol +
  assumes never_reports: "program p i fps = Some r \<Longrightarrow> sr_error r = ''''"

lemma update_new: "k \<notin> fst ` set al \<Longrightarrow> AList.update k v al = al @ [(k, v)]"
  by (induction al) auto

lemma json_object_distinct:
  assumes "distinct (map fst kvs)"
  shows "json_object kvs = kvs"
proof -
  have "distinct (map fst (m @ kvs)) \<Longrightarrow> fold (\<lambda>(k, v). AList.update k v) kvs m = m @ kvs" for m
    by (induction kvs arbitrary: m) (auto simp: update_new)
  from this [of "[]"] assms show ?thesis by (simp add: json_object_def)
qed

lemma verify_each_None:
  assumes "CHR '':'' \<notin> set (es_name s)"
    and "\<And>k sig. (k, sig) \<in> set sigs \<Longrightarrow> \<exists>fp x. map_of fps k = Some fp \<and> sig = es_name s @ '':'' @ b64_encode x \<and>
           length x = 64 \<and> ed (es_verify_key s) fp x"
  shows "verify_each ed s fps sigs = None"
  using assms(2)
proof (induction sigs)
  case (Cons a sigs)
  obtain k sig where a: "a = (k, sig)" by (cases a)
  obtain fp x where x: "map_of fps k = Some fp" "sig = es_name s @ '':'' @ b64_encode x" "length x = 64" "ed (es_verify_key s) fp x"
    using Cons.prems [of k sig] a by auto
  have "cut_str sig '':'' = (es_name s, b64_encode x, True)" using assms(1) x(2) by simp
  with x a Cons show ?case by (simp add: b64_decode_encode)
qed simp

context signing_protocol
begin

lemma exchange_answered:
  assumes "device_ok ed (es_verify_key s) sign" "es_name s = keyName" "CHR '':'' \<notin> set keyName" "distinct (map fst fps)"
  shows "snd (exchange ed program p fps s) = s\<lparr>es_next_id := es_next_id s + 1\<rparr>"
    and "case program p (es_next_id s + 1) fps of
        None \<Rightarrow> \<exists>msg. fst (exchange ed program p fps s) = Inl (BadResponse msg)
      | Some r \<Rightarrow> if sr_error r = '''' then \<exists>sigs. fst (exchange ed program p fps s) = Inr sigs
                 else fst (exchange ed program p fps s) = Inl (RequestError (sr_error r))"
proof -
  let ?s = "s\<lparr>es_next_id := es_next_id s + 1\<rparr>"
  show "snd (exchange ed program p fps s) = ?s" by (simp add: exchange_def Let_def split: option.split)
  show "case program p (es_next_id s + 1) fps of
        None \<Rightarrow> \<exists>msg. fst (exchange ed program p fps s) = Inl (BadResponse msg)
      | Some r \<Rightarrow> if sr_error r = '''' then \<exists>sigs. fst (exchange ed program p fps s) = Inr sigs
                 else fst (exchange ed program p fps s) = Inl (RequestError (sr_error r))"
  proof (cases "program p (es_next_id s + 1) fps")
    case (Some r)
    note r_id = answers_id [OF Some]
    show ?thesis
    proof (cases "sr_error r = ''''")
      case True
      from signs_all [OF Some True] obtain sigs where sigs: "sr_signatures r = Some sigs" "map fst sigs = map fst fps"
        and each: "\<And>k sig. (k, sig) \<in> set sigs \<Longrightarrow>
          \<exists>fp x. (k, fp) \<in> set fps \<and> sign p (es_next_id s + 1) fp = Inr x \<and> sig = keyName @ '':'' @ b64_encode x" by blast
      have "verify_each ed ?s fps sigs = None"
        by (rule verify_each_None) (use assms each in \<open>fastforce simp: device_ok_def\<close>)+
      moreover have "length sigs = length fps" using arg_cong [OF sigs(2), of length] by simp
      moreover have "json_object sigs = sigs" using sigs(2) assms(4) by (simp add: json_object_distinct)
      ultimately show ?thesis using Some True r_id sigs(1) by (simp add: exchange_def Let_def es_verify_def)
    qed (use Some r_id in \<open>simp add: exchange_def Let_def\<close>)
  qed (simp add: exchange_def Let_def)
qed

end

section \<open>The server with such a program\<close>

text \<open>The process that serves the next call, and whether there is or will be one.\<close>

definition next_proc :: "ExternalSigner \<Rightarrow> nat" where
  "next_proc s = (case es_proc s of Some p \<Rightarrow> p | None \<Rightarrow> es_started s)"

definition signable :: "(nat \<Rightarrow> u64 \<Rightarrow> string \<Rightarrow> string + bytes) \<Rightarrow> nat \<Rightarrow> u64 \<Rightarrow> (string \<times> string) list \<Rightarrow> bool" where
  "signable sign p i fps \<longleftrightarrow> (\<forall>k fp. (k, fp) \<in> set fps \<longrightarrow> (\<exists>x. sign p i fp = Inr x))"

definition started :: "ExternalSigner \<Rightarrow> ExternalSigner" where
  "started s = (if es_proc s = None then s\<lparr>es_proc := Some (es_started s), es_started := es_started s + 1\<rparr> else s)"

lemma started_simps [simp]:
  "es_proc (started s) = Some (next_proc s)" "es_next_id (started s) = es_next_id s"
  "es_verify_key (started s) = es_verify_key s" "es_name (started s) = es_name s"
  by (auto simp: started_def next_proc_def split: option.split)

lemma sign_round_started:
  assumes "es_proc s = None \<longrightarrow> can_start (es_started s)"
  shows "sign_round ed program can_start canceled attempt fps s =
    (case exchange ed program (next_proc s) fps (started s) of
       (Inr sigs, s') \<Rightarrow> (Inr (Inr sigs), s')
     | (Inl (RequestError msg), s') \<Rightarrow> (Inr (Inl (RequestError msg)), s')
     | (Inl err, s') \<Rightarrow> (if canceled then (Inr (Inl Canceled), drop_proc s')
                        else if es_proc s = None \<or> 0 < attempt then (Inr (Inl err), drop_proc s')
                        else (Inl (), drop_proc s')))"
  using assms
  by (cases "es_proc s")
     (auto simp: sign_round_def started_def next_proc_def Let_def split: prod.split sum.split sign_error.split)

lemma ExternalSign_first:
  assumes "fingerprints_of infos = Inr fps" "infos \<noteq> []" "\<not> es_closed s"
    and "sign_round ed program can_start canceled 0 fps s = (r, s1)"
  shows "ExternalSign ed program can_start canceled infos s =
    (case r of Inr res \<Rightarrow> (res, s1) | Inl u \<Rightarrow> sign_loop ed program can_start canceled 1 fps s1)"
proof -
  have "map fst fps = map fst infos" using fingerprints_of_ok [OF assms(1)] by blast
  with assms(2) have "fps \<noteq> []" by auto
  with assms show ?thesis
    by (simp add: ExternalSign_def sign_loop.simps [of ed program can_start canceled 0] split: sum.split)
qed

context signing_protocol
begin

lemma completes_signable: "signable sign p i fps \<Longrightarrow> \<exists>r. program p i fps = Some r \<and> sr_error r = ''''"
  by (rule completes) (auto simp: signable_def)

lemma exchange_signable:
  assumes "device_ok ed (es_verify_key s) sign" "es_name s = keyName" "CHR '':'' \<notin> set keyName" "distinct (map fst fps)"
    and "signable sign p (es_next_id s + 1) fps"
  shows "\<exists>sigs. exchange ed program p fps s = (Inr sigs, s\<lparr>es_next_id := es_next_id s + 1\<rparr>)"
  using exchange_answered [OF assms(1-4), where p = p] completes_signable [OF assms(5)] by (auto simp: prod_eq_iff)

end

context resilient_protocol
begin

lemma resilient_sign:
  assumes dev: "device_ok ed (es_verify_key s) sign" "es_name s = keyName" "CHR '':'' \<notin> set keyName"
    and infos: "distinct (map fst infos)" "infos \<noteq> []" "fingerprints_of infos = Inr fps"
    and s: "\<not> es_closed s" "es_proc s = None \<longrightarrow> can_start (es_started s)"
    and sign: "ExternalSign ed program can_start canceled infos s = (res, s')"
  shows "s' = (started s)\<lparr>es_next_id := es_next_id s + 1\<rparr> \<and>
    (case res of Inr sigs \<Rightarrow> True | Inl err \<Rightarrow> \<not> signable sign (next_proc s) (es_next_id s + 1) fps \<and> (\<exists>msg. err = RequestError msg))"
proof -
  have d: "distinct (map fst fps)" using infos(1) fingerprints_of_ok [OF infos(3)] by simp
  have dev': "device_ok ed (es_verify_key (started s)) sign" "es_name (started s) = keyName" using dev by simp_all
  note x = exchange_answered [OF dev' dev(3) d, where p = "next_proc s"]
  obtain r where r: "program (next_proc s) (es_next_id s + 1) fps = Some r" using stays by fastforce
  show ?thesis
  proof (cases "sr_error r = ''''")
    case True
    with x(2) r obtain sigs where "exchange ed program (next_proc s) fps (started s) =
        (Inr sigs, (started s)\<lparr>es_next_id := es_next_id s + 1\<rparr>)"
      using x(1) by (auto simp: prod_eq_iff)
    with sign_round_started [where s = s and can_start = can_start and ed = ed and program = program and canceled = canceled and attempt = 0 and fps = fps, OF s(2)]
      have "sign_round ed program can_start canceled 0 fps s = (Inr (Inr sigs), (started s)\<lparr>es_next_id := es_next_id s + 1\<rparr>)"
      by simp
    from ExternalSign_first [OF infos(3,2) s(1) this] sign show ?thesis by auto
  next
    case False
    have e: "exchange ed program (next_proc s) fps (started s) =
        (Inl (RequestError (sr_error r)), (started s)\<lparr>es_next_id := es_next_id s + 1\<rparr>)"
      using x r False by (simp add: prod_eq_iff)
    have "\<not> signable sign (next_proc s) (es_next_id s + 1) fps" using completes_signable r False by fastforce
    moreover from sign_round_started [where s = s and can_start = can_start and ed = ed and program = program and canceled = canceled and attempt = 0 and fps = fps, OF s(2)] e
    have "sign_round ed program can_start canceled 0 fps s =
        (Inr (Inl (RequestError (sr_error r))), (started s)\<lparr>es_next_id := es_next_id s + 1\<rparr>)" by simp
    from ExternalSign_first [OF infos(3,2) s(1) this] sign
    have "res = Inl (RequestError (sr_error r))" "s' = (started s)\<lparr>es_next_id := es_next_id s + 1\<rparr>" by auto
    ultimately show ?thesis by simp
  qed
qed

end

context crashing_protocol
begin

lemma exchange_crash:
  assumes "device_ok ed (es_verify_key s) sign" "es_name s = keyName" "CHR '':'' \<notin> set keyName" "distinct (map fst fps)"
  shows "(\<exists>sigs. exchange ed program p fps s = (Inr sigs, s\<lparr>es_next_id := es_next_id s + 1\<rparr>)) \<or>
    (\<exists>msg. exchange ed program p fps s = (Inl (BadResponse msg), s\<lparr>es_next_id := es_next_id s + 1\<rparr>))"
  using exchange_answered [OF assms, where p = p] never_reports [of p "es_next_id s + 1" fps]
  by (cases "program p (es_next_id s + 1) fps") (auto simp: prod_eq_iff)

text \<open>The process in use may have lost its token; the fresh one of the second round answers.\<close>

lemma crash_recovered:
  assumes dev: "device_ok ed (es_verify_key s) sign" "es_name s = keyName" "CHR '':'' \<notin> set keyName"
    and infos: "distinct (map fst infos)" "infos \<noteq> []" "fingerprints_of infos = Inr fps"
    and s: "\<not> es_closed s" "can_start (es_started s)" "\<not> canceled"
    and fresh: "signable sign (es_started s) (es_next_id s + 1) fps" "signable sign (es_started s) (es_next_id s + 2) fps"
    and sign: "ExternalSign ed program can_start canceled infos s = (res, s')"
  shows "\<exists>sigs. res = Inr sigs"
proof -
  have d: "distinct (map fst fps)" using infos(1) fingerprints_of_ok [OF infos(3)] by simp
  have dev': "device_ok ed (es_verify_key (started s)) sign" "es_name (started s) = keyName" using dev by simp_all
  have st: "es_proc s = None \<longrightarrow> can_start (es_started s)" using s(2) by simp
  note round0 = sign_round_started [where s = s and can_start = can_start and ed = ed and program = program and canceled = canceled and attempt = 0 and fps = fps, OF st]
  from exchange_crash [OF dev' dev(3) d, where p = "next_proc s"] show ?thesis
  proof (elim disjE exE)
    fix sigs assume "exchange ed program (next_proc s) fps (started s) = (Inr sigs, (started s)\<lparr>es_next_id := es_next_id (started s) + 1\<rparr>)"
    with round0 have "sign_round ed program can_start canceled 0 fps s = (Inr (Inr sigs), (started s)\<lparr>es_next_id := es_next_id s + 1\<rparr>)"
      by simp
    from ExternalSign_first [OF infos(3,2) s(1) this] sign show ?thesis by simp
  next
    fix msg assume bad: "exchange ed program (next_proc s) fps (started s) =
        (Inl (BadResponse msg), (started s)\<lparr>es_next_id := es_next_id (started s) + 1\<rparr>)"
    have "es_proc s \<noteq> None"
    proof
      assume "es_proc s = None"
      then have "next_proc s = es_started s" by (simp add: next_proc_def)
      with bad exchange_signable [OF dev' dev(3) d, where p = "es_started s"] fresh(1) show False by fastforce
    qed
    then have "started s = s" by (simp add: started_def)
    let ?s1 = "drop_proc (s\<lparr>es_next_id := es_next_id s + 1\<rparr>)"
    have r0: "sign_round ed program can_start canceled 0 fps s = (Inl (), ?s1)"
      using round0 bad \<open>es_proc s \<noteq> None\<close> s(3) \<open>started s = s\<close> by simp
    have s1: "es_proc ?s1 = None" "es_started ?s1 = es_started s" "es_next_id (started ?s1) = es_next_id s + 1"
      by (simp_all add: drop_proc_def)
    then have n1: "next_proc ?s1 = es_started s" by (simp add: next_proc_def)
    have "device_ok ed (es_verify_key (started ?s1)) sign" "es_name (started ?s1) = keyName" using dev by (simp_all add: drop_proc_def)
    from exchange_signable [OF this dev(3) d, where p = "es_started s"] fresh(2) s1(3)
    obtain sigs where e1: "exchange ed program (es_started s) fps (started ?s1) = (Inr sigs, (started ?s1)\<lparr>es_next_id := es_next_id s + 2\<rparr>)"
      by (auto simp: add.assoc)
    have "es_proc ?s1 = None \<longrightarrow> can_start (es_started ?s1)" using s(2) s1 by simp
    from sign_round_started [where s = ?s1 and can_start = can_start and ed = ed and program = program and canceled = canceled and attempt = 1 and fps = fps, OF this] e1 n1
    have "sign_round ed program can_start canceled 1 fps ?s1 = (Inr (Inr sigs), (started ?s1)\<lparr>es_next_id := es_next_id s + 2\<rparr>)"
      by simp
    then have "sign_loop ed program can_start canceled 1 fps ?s1 = (Inr sigs, (started ?s1)\<lparr>es_next_id := es_next_id s + 2\<rparr>)"
      by (simp add: sign_loop.simps [of ed program can_start canceled "Suc 0"])
    with ExternalSign_first [OF infos(3,2) s(1) r0] sign show ?thesis by simp
  qed
qed

end

section \<open>The two programs\<close>

lemma sign_batch_Inr:
  "sign_batch keyName sign fps = Inr sigs \<Longrightarrow> map fst sigs = map fst fps \<and>
     (\<forall>k sig. (k, sig) \<in> set sigs \<longrightarrow> (\<exists>fp x. (k, fp) \<in> set fps \<and> sign fp = Inr x \<and> sig = keyName @ '':'' @ b64_encode x))"
proof (induction fps arbitrary: sigs)
  case (Cons a fps)
  obtain k fp where a: "a = (k, fp)" by (cases a)
  obtain x rest where x: "sign fp = Inr x" "sign_batch keyName sign fps = Inr rest" "sigs = (k, keyName @ '':'' @ b64_encode x) # rest"
    using Cons.prems a by (auto split: sum.splits)
  from Cons.IH [OF x(2)] a x(1,3) show ?case by simp blast
qed simp

lemma sign_batch_total:
  "(\<And>k fp. (k, fp) \<in> set fps \<Longrightarrow> \<exists>x. sign fp = Inr x) \<Longrightarrow> \<exists>sigs. sign_batch keyName sign fps = Inr sigs"
proof (induction fps)
  case (Cons a fps)
  obtain k fp where a: "a = (k, fp)" by (cases a)
  obtain x where "sign fp = Inr x" using Cons.prems [of k fp] a by auto
  moreover obtain sigs where "sign_batch keyName sign fps = Inr sigs" using Cons by auto
  ultimately show ?case using a by simp
qed simp

lemma sign_batch_reason: "sign_batch keyName sign fps = Inl err \<Longrightarrow> err \<noteq> ''''"
  by (induction fps) (auto split: sum.splits)

interpretation pkcs11: crashing_protocol "pkcs11_program keyName sign" keyName sign for keyName sign
proof unfold_locales
  fix p i fps r
  assume "pkcs11_program keyName sign p i fps = Some r"
  then obtain sigs where s: "sign_batch keyName (sign p i) fps = Inr sigs" "r = \<lparr>sr_id = i, sr_signatures = Some sigs, sr_error = ''''\<rparr>"
    by (auto simp: pkcs11_program_def split: sum.splits)
  then show "sr_id r = i" "sr_error r = ''''" by simp_all
  from sign_batch_Inr [OF s(1)] s(2)
  show "\<exists>sigs. sr_signatures r = Some sigs \<and> map fst sigs = map fst fps \<and>
      (\<forall>k sig. (k, sig) \<in> set sigs \<longrightarrow> (\<exists>fp x. (k, fp) \<in> set fps \<and> sign p i fp = Inr x \<and> sig = keyName @ '':'' @ b64_encode x))"
    by simp
next
  fix p i and fps :: "(string \<times> string) list"
  assume a: "\<And>k fp. (k, fp) \<in> set fps \<Longrightarrow> \<exists>x. sign p i fp = Inr x"
  have "\<exists>sigs. sign_batch keyName (sign p i) fps = Inr sigs" by (rule sign_batch_total) (rule a)
  then obtain sigs where "sign_batch keyName (sign p i) fps = Inr sigs" by blast
  then show "\<exists>r. pkcs11_program keyName sign p i fps = Some r \<and> sr_error r = ''''" by (simp add: pkcs11_program_def)
qed

interpretation openbao: resilient_protocol "bao_program keyName sign" keyName sign for keyName sign
proof unfold_locales
  fix p i fps r
  assume r: "bao_program keyName sign p i fps = Some r"
  then show "sr_id r = i" by (auto simp: bao_program_def bao_response_def split: sum.splits)
  assume "sr_error r = ''''"
  with r sign_batch_reason obtain sigs where s: "sign_batch keyName (sign p i) fps = Inr sigs" "sr_signatures r = Some sigs"
    by (fastforce simp: bao_program_def bao_response_def split: sum.splits)
  from sign_batch_Inr [OF s(1)] s(2)
  show "\<exists>sigs. sr_signatures r = Some sigs \<and> map fst sigs = map fst fps \<and>
      (\<forall>k sig. (k, sig) \<in> set sigs \<longrightarrow> (\<exists>fp x. (k, fp) \<in> set fps \<and> sign p i fp = Inr x \<and> sig = keyName @ '':'' @ b64_encode x))"
    by simp
next
  fix p i and fps :: "(string \<times> string) list"
  assume a: "\<And>k fp. (k, fp) \<in> set fps \<Longrightarrow> \<exists>x. sign p i fp = Inr x"
  have "\<exists>sigs. sign_batch keyName (sign p i) fps = Inr sigs" by (rule sign_batch_total) (rule a)
  then obtain sigs where "sign_batch keyName (sign p i) fps = Inr sigs" by blast
  then show "\<exists>r. bao_program keyName sign p i fps = Some r \<and> sr_error r = ''''" by (simp add: bao_program_def bao_response_def)
qed (simp add: bao_program_def)

section \<open>Keys and devices\<close>

lemma trim_space_newline: "trim_space (s @ [newline]) = trim_space s"
proof (cases "dropWhile is_space s")
  case Nil
  then have "dropWhile is_space (s @ [newline]) = []" by (simp add: is_space_def)
  with Nil show ?thesis by (simp only: trim_space_def)
next
  case (Cons c cs)
  then have "\<exists>x \<in> set s. \<not> is_space x" by (metis dropWhile_eq_Nil_conv list.distinct(1))
  then have "dropWhile is_space (s @ [newline]) = dropWhile is_space s @ [newline]" by (auto simp: dropWhile_append)
  then show ?thesis by (simp add: trim_space_def is_space_def)
qed

lemma NewExternalSigner_text:
  assumes "name \<noteq> ''''" "CHR '':'' \<notin> set name" "\<not> is_space (hd name)" "length key = 32"
  shows "\<exists>s. NewExternalSigner (name @ '':'' @ b64_encode key @ [newline]) = Inr s \<and> es_name s = name \<and> es_verify_key s = key"
proof -
  have "b64_encode key \<noteq> []" using assms(4) by (auto simp: b64_encode_Nil)
  then have "\<not> is_space (last (b64_encode key))" using b64_encode_chars last_in_set by blast
  then have "trim_space (name @ '':'' @ b64_encode key) = name @ '':'' @ b64_encode key"
    using assms(1,3) \<open>b64_encode key \<noteq> []\<close> by (intro trim_space_id) simp
  with trim_space_newline [of "name @ '':'' @ b64_encode key"] assms show ?thesis
    by (simp add: NewExternalSigner_def b64_decode_encode)
qed

lemma NewExternalSigner_name: "NewExternalSigner text = Inr s \<Longrightarrow> CHR '':'' \<notin> set (es_name s)"
  by (auto simp: NewExternalSigner_def dest: cut_char_fst split: prod.splits if_splits option.splits)

lemma publicKey_length: "publicKey t = Inr key \<Longrightarrow> length key = 32"
  by (auto simp: publicKey_def Let_def split: sum.splits option.splits if_splits)

lemma pkcs11_run_prints:
  assumes "pkcs11_run h fl load out_ok ins = PrintsKey text"
  shows "\<exists>key. text = str_flag h fl ''signature-name'' ''NIKS3_PKCS11_SIGNATURE_NAME'' '''' @ '':'' @ b64_encode key @ [newline] \<and>
    length key = 32 \<and> str_flag h fl ''signature-name'' ''NIKS3_PKCS11_SIGNATURE_NAME'' '''' \<noteq> ''''"
  using assms
  by (auto simp: pkcs11_run_def Let_def dest: publicKey_length split: if_splits option.splits sum.splits prod.splits)

text \<open>
  What is asked of the service: a reply of the transit engine with status 200 holds a signature of the
  input by the key it was configured with.
\<close>

definition transit_ok :: "ed_verifier \<Rightarrow> bytes \<Rightarrow> bao_service \<Rightarrow> bool" where
  "transit_ok ed key service \<longleftrightarrow>
     (\<forall>url token fp reply sig. service url token (b64_encode (List.map of_char fp)) = Some reply \<longrightarrow> br_status reply = 200 \<longrightarrow>
        br_signature reply = Some sig \<longrightarrow> (\<exists>x. sig = ''vault:v1:'' @ b64_encode x \<and> length x = 64 \<and> ed key fp x))"

lemma vault_parts:
  "cut_str (''vault:v1:'' @ x) '':'' = (''vault'', ''v1:'' @ x, True)" "cut_str (''v1:'' @ x) '':'' = (''v1'', x, True)"
  using cut_char_append [of "CHR '':''" "''vault''" "''v1:'' @ x"] cut_char_append [of "CHR '':''" "''v1''" x] by simp_all

lemma transit_device:
  assumes "\<And>p i. transit_ok ed key (services p i)"
  shows "device_ok ed key (\<lambda>p i. transit_sign (hosts p i) (services p i) url tokenFile)"
proof (unfold device_ok_def, intro allI impI)
  fix p i fp x
  assume "transit_sign (hosts p i) (services p i) url tokenFile fp = Inr x"
  then obtain token reply sig where r: "services p i url token (b64_encode (map of_char fp)) = Some reply" "br_status reply = 200"
    "br_signature reply = Some sig" and x: "transit_signature sig = Inr x"
    by (auto simp: transit_sign_def split: option.split_asm if_split_asm)
  from assms r obtain y where y: "sig = ''vault:v1:'' @ b64_encode y" "length y = 64" "ed key fp y"
    unfolding transit_ok_def by blast
  have "transit_signature sig = Inr y" using vault_parts [of "b64_encode y"] by (simp only: y(1) transit_signature_def) (simp add: b64_decode_encode)
  with x y(2,3) show "length x = 64 \<and> ed key fp x" by simp
qed

section \<open>Properties\<close>



text \<open>A token, its first process without it, and a service that is sealed until the second request.\<close>

definition hsm :: pkcs11_module where
  "hsm = \<lparr>p11_initialize = True, p11_slots = Some [0, 1], p11_token_label = (\<lambda>n. if n = 1 then Some ''hsm  '' else None),
     p11_session = (\<lambda>_. True), p11_login = (\<lambda>pin. pin = ''1234''), p11_find = (\<lambda>private label. Some [if private then 7 else 8]),
     p11_point = (\<lambda>_. Some (4 # 32 # replicate 32 0)), p11_sign_init = (\<lambda>_. True), p11_sign = (\<lambda>_ _. Some (replicate 64 0))\<rparr>"

definition hsm_tokens :: "nat \<Rightarrow> u64 \<Rightarrow> pkcs11_token" where
  "hsm_tokens p i = \<lparr>tk_module = (if p = 0 then hsm\<lparr>p11_sign_init := (\<lambda>_. False)\<rparr> else hsm), tk_label = ''cache''\<rparr>"

definition hsm_flags :: flags where
  "hsm_flags = [(''module'', ''libsofthsm2.so''), (''token'', ''hsm''), (''pin-file'', ''pin''), (''key'', ''cache''),
     (''signature-name'', ''c''), (''print-public-key'', ''true'')]"

definition pin_host :: host where
  "pin_host = bare_host\<lparr>ho_file := (\<lambda>f. if f = ''pin'' then Some (''1234'' @ [newline]) else None)\<rparr>"

definition fixed_verify :: ed_verifier where
  "fixed_verify key m sig \<longleftrightarrow> sig = replicate 64 0"

lemma hsm_signs: "token_sign (hsm_tokens p i) fp = (if p = 0 then Inl ''starting signature'' else Inr (replicate 64 0))"
  by (simp add: token_sign_def findKey_def hsm_tokens_def hsm_def)

lemma hsm_prints:
  "pkcs11_run pin_host hsm_flags (\<lambda>n path. Some hsm) (\<lambda>n. True) [] = PrintsKey (''c:'' @ b64_encode (replicate 32 0) @ [newline])"
  by code_simp

lemma example_fps: "\<exists>fp. fingerprints_of [(''k'', signed_example)] = Inr [(''k'', fp)]"
  using signed_example_facts(1) by auto


definition sealed :: "nat \<Rightarrow> u64 \<Rightarrow> bao_service" where
  "sealed p i url token input = (if i \<le> 1 then Some \<lparr>br_status = 503, br_signature = Some ''''\<rparr>
     else Some \<lparr>br_status = 200, br_signature = Some (''vault:v1:'' @ b64_encode (replicate 64 0))\<rparr>)"


end
