(* ===== verification/HookQueue.thy ===== *)
theory HookQueue
  imports Prelude "HOL-Library.Multiset"
begin

text \<open>
  The upload queue of the post-build hook, \<open>src/hook/queue.go\<close>: the table \<open>upload_queue\<close> with its hidden
  \<open>rowid\<close>, and the statements of each operation. A \<open>fault\<close> is a transaction that failed at any of its
  calls and was rolled back. The locale \<open>path_queue\<close> states what the worker relies on.
\<close>

section \<open>The table\<close>

record queue_row =
  qr_rowid :: int
  qr_path :: string
  qr_created :: int

type_synonym queue = "queue_row list"

definition max_rowid :: "queue \<Rightarrow> int" where
  "max_rowid q = (if q = [] then 0 else Max (set (map qr_rowid q)))"

text \<open>
  \<open>INSERT OR IGNORE\<close>: a path that is queued stays where it is, a new one gets the next \<open>rowid\<close>. SQLite
  ends at \<open>2 ^ 63 - 1\<close> rows; here the numbers are unbounded.
\<close>

definition insert_or_ignore :: "int \<Rightarrow> string \<Rightarrow> queue \<Rightarrow> queue" where
  "insert_or_ignore t p q =
     (if p \<in> set (map qr_path q) then q
      else q @ [\<lparr>qr_rowid = max_rowid q + 1, qr_path = p, qr_created = t\<rparr>])"

datatype queue_error = QueueError string

definition Enqueue :: "bool \<Rightarrow> int \<Rightarrow> string list \<Rightarrow> queue \<Rightarrow> queue_error option \<times> queue" where
  "Enqueue fault t paths q =
     (if paths = [] then (None, q)
      else if fault then (Some (QueueError ''enqueue''), q)
      else (None, fold (insert_or_ignore t) paths q))"

text \<open>\<open>ORDER BY rowid LIMIT ?\<close>, where a negative limit is none.\<close>

definition FetchBatch :: "bool \<Rightarrow> int \<Rightarrow> queue \<Rightarrow> queue_error + string list" where
  "FetchBatch fault batchSize q =
     (if fault then Inl (QueueError ''querying batch'')
      else let paths = map qr_path (sort_key qr_rowid q)
           in Inr (if batchSize < 0 then paths else take (nat batchSize) paths))"

definition removeChunk :: nat where
  "removeChunk = 1000"

function remove_chunks :: "string list \<Rightarrow> queue \<Rightarrow> queue" where
  "remove_chunks paths q =
     (if paths = [] then q
      else let n = min (length paths) removeChunk in
           remove_chunks (drop n paths) (filter (\<lambda>r. qr_path r \<notin> set (take n paths)) q))"
  by pat_completeness auto
termination
  by (relation "measure (\<lambda>(paths, q). length paths)") (auto simp: removeChunk_def min_def)

declare remove_chunks.simps [simp del]

definition Remove :: "bool \<Rightarrow> string list \<Rightarrow> queue \<Rightarrow> queue_error option \<times> queue" where
  "Remove fault paths q =
     (if paths = [] then (None, q)
      else if fault then (Some (QueueError ''deleting paths''), q)
      else (None, remove_chunks paths q))"

definition requeue :: "string \<Rightarrow> queue \<Rightarrow> queue" where
  "requeue p q = map (\<lambda>r. if qr_path r = p then r\<lparr>qr_rowid := max_rowid q + 1\<rparr> else r) q"

definition Retry :: "bool \<Rightarrow> string list \<Rightarrow> queue \<Rightarrow> queue_error option \<times> queue" where
  "Retry fault paths q =
     (if fault then (Some (QueueError ''requeueing''), q) else (None, fold requeue paths q))"

definition Count :: "bool \<Rightarrow> queue \<Rightarrow> queue_error + nat" where
  "Count fault q = (if fault then Inl (QueueError ''counting queue'') else Inr (length q))"

section \<open>The queue as a list of paths\<close>

definition queued :: "queue \<Rightarrow> string list" where
  "queued q = map qr_path (sort_key qr_rowid q)"

definition queue_ok :: "queue \<Rightarrow> bool" where
  "queue_ok q \<longleftrightarrow> distinct (map qr_path q) \<and> distinct (map qr_rowid q)"

lemma set_queued [simp]: "set (queued q) = set (map qr_path q)"
  by (simp add: queued_def)

lemma length_queued [simp]: "length (queued q) = length q"
  by (simp add: queued_def)

lemma distinct_queued: "queue_ok q \<Longrightarrow> distinct (queued q)"
  unfolding queue_ok_def queued_def by (simp add: distinct_map inj_on_def)

lemma rowid_le_max: "r \<in> set q \<Longrightarrow> qr_rowid r \<le> max_rowid q"
  by (auto simp: max_rowid_def)

lemma sort_key_last:
  assumes "\<forall>y \<in> set xs. f y \<le> f x"
  shows "sort_key f (xs @ [x]) = sort_key f xs @ [x]"
  using assms
proof (induction xs)
  case (Cons y xs)
  have "insort_key f y (ys @ [x]) = insort_key f y ys @ [x]" for ys using Cons.prems by (induction ys) auto
  with Cons show ?case by simp
qed simp

lemma queued_insert:
  assumes "queue_ok q"
  shows "queue_ok (insert_or_ignore t p q)"
    and "queued (insert_or_ignore t p q) = (if p \<in> set (queued q) then queued q else queued q @ [p])"
proof -
  have fresh: "max_rowid q + 1 \<notin> qr_rowid ` set q" using rowid_le_max [of _ q] by fastforce
  then show "queue_ok (insert_or_ignore t p q)" using assms by (auto simp: insert_or_ignore_def queue_ok_def)
  show "queued (insert_or_ignore t p q) = (if p \<in> set (queued q) then queued q else queued q @ [p])"
    using sort_key_last [of q qr_rowid "\<lparr>qr_rowid = max_rowid q + 1, qr_path = p, qr_created = t\<rparr>"] rowid_le_max [of _ q]
    by (force simp: insert_or_ignore_def queued_def)
qed

lemma remove_chunks_filter: "remove_chunks paths q = filter (\<lambda>r. qr_path r \<notin> set paths) q"
proof (induction paths q rule: remove_chunks.induct)
  case (1 paths q)
  show ?case
  proof (cases "paths = []")
    case False
    let ?n = "min (length paths) removeChunk"
    have "set paths = set (take ?n paths) \<union> set (drop ?n paths)" by (metis append_take_drop_id set_append)
    with 1 False show ?thesis by (subst remove_chunks.simps) (auto simp: Let_def intro!: filter_cong)
  qed (simp add: remove_chunks.simps)
qed

lemma queued_remove:
  assumes "queue_ok q"
  shows "queue_ok (remove_chunks paths q)"
    and "queued (remove_chunks paths q) = filter (\<lambda>p. p \<notin> set paths) (queued q)"
  using assms unfolding remove_chunks_filter queue_ok_def queued_def
  by (auto simp: distinct_map_filter filter_map comp_def filter_sort)

lemma requeue_absent: "p \<notin> set (map qr_path q) \<Longrightarrow> requeue p q = q"
  unfolding requeue_def by (rule map_idI) auto

text \<open>A path that is queued moves behind all others.\<close>

lemma queued_requeue:
  assumes "queue_ok q"
  shows "queue_ok (requeue p q)"
    and "queued (requeue p q) = (if p \<in> set (queued q) then filter (\<lambda>x. x \<noteq> p) (queued q) @ [p] else queued q)"
proof -
  have "queue_ok (requeue p q) \<and>
    queued (requeue p q) = (if p \<in> set (queued q) then filter (\<lambda>x. x \<noteq> p) (queued q) @ [p] else queued q)"
  proof (cases "p \<in> set (map qr_path q)")
    case True
    then obtain a r b where q: "q = a @ r # b" and r: "qr_path r = p" by (metis in_set_conv_decomp imageE list.set_map)
    define r' where "r' = r\<lparr>qr_rowid := max_rowid q + 1\<rparr>"
    have ab: "\<forall>x \<in> set (a @ b). qr_path x \<noteq> p"
    proof -
      have "p \<notin> set (map qr_path (a @ b))" using assms unfolding queue_ok_def q by (simp flip: r)
      then show ?thesis by (auto simp: image_iff)
    qed
    then have req: "requeue p q = a @ r' # b" unfolding requeue_def q r'_def
      by (simp add: r) (auto intro!: map_idI)
    have fresh: "max_rowid q + 1 \<notin> qr_rowid ` set (a @ b)" and le: "\<forall>x \<in> set (a @ b). qr_rowid x \<le> qr_rowid r'"
      using rowid_le_max [of _ q] by (fastforce simp: q r'_def)+
    have "queue_ok (a @ r # b)" using assms by (simp only: q)
    with fresh have "queue_ok (a @ r' # b)" unfolding queue_ok_def by (simp add: r'_def image_Un)
    then have ok: "queue_ok (requeue p q)" by (simp only: req)
    have rest: "filter (\<lambda>x. qr_path x \<noteq> p) q = a @ b" using ab unfolding q by (simp add: r) 
    have "sort_key qr_rowid (requeue p q) = sort_key qr_rowid (a @ b) @ [r']"
    proof (rule sort_key_inj_key_eq)
      show "inj_on qr_rowid (set (requeue p q))" using ok by (simp add: queue_ok_def distinct_map)
      show "sorted (map qr_rowid (sort_key qr_rowid (a @ b) @ [r']))" using le by (simp add: sorted_append)
    qed (simp add: req)
    also have "sort_key qr_rowid (a @ b) = filter (\<lambda>x. qr_path x \<noteq> p) (sort_key qr_rowid q)"
      unfolding rest [symmetric] by (simp add: filter_sort)
    finally have "queued (requeue p q) = filter (\<lambda>x. x \<noteq> p) (queued q) @ [p]"
      by (simp add: queued_def filter_map comp_def r'_def r)
    with ok True show ?thesis by simp
  qed (simp_all add: requeue_absent assms)
  then show "queue_ok (requeue p q)"
    "queued (requeue p q) = (if p \<in> set (queued q) then filter (\<lambda>x. x \<noteq> p) (queued q) @ [p] else queued q)" by blast+
qed

section \<open>The interface\<close>

locale path_queue =
  fixes ok :: "'q \<Rightarrow> bool" and content :: "'q \<Rightarrow> 'p list"
    and enq :: "'p \<Rightarrow> 'q \<Rightarrow> 'q" and dequeue :: "'p list \<Rightarrow> 'q \<Rightarrow> 'q" and to_back :: "'p \<Rightarrow> 'q \<Rightarrow> 'q"
  assumes content_distinct: "ok q \<Longrightarrow> distinct (content q)"
    and enq_ok: "ok q \<Longrightarrow> ok (enq p q)"
    and enq_content: "ok q \<Longrightarrow> content (enq p q) = (if p \<in> set (content q) then content q else content q @ [p])"
    and dequeue_ok: "ok q \<Longrightarrow> ok (dequeue ps q)"
    and dequeue_content: "ok q \<Longrightarrow> content (dequeue ps q) = filter (\<lambda>p. p \<notin> set ps) (content q)"
    and to_back_ok: "ok q \<Longrightarrow> ok (to_back p q)"
    and to_back_content: "ok q \<Longrightarrow>
      content (to_back p q) = (if p \<in> set (content q) then filter (\<lambda>x. x \<noteq> p) (content q) @ [p] else content q)"
begin

lemma enq_all:
  assumes "ok q"
  shows "ok (fold enq ps q)" and "set (content (fold enq ps q)) = set (content q) \<union> set ps"
    and "\<exists>ys. content (fold enq ps q) = content q @ ys"
    and "content (fold enq ps q) = fold (\<lambda>p xs. if p \<in> set xs then xs else xs @ [p]) ps (content q)"
  using assms
proof (induction ps arbitrary: q)
  case (Cons p ps)
  {
    case 1 then show ?case using Cons.IH(1) [OF enq_ok] by simp
  next
    case 2 then show ?case using Cons.IH(2) [OF enq_ok [OF 2, of p]] by (auto simp: enq_content)
  next
    case 3 then show ?case using Cons.IH(3) [OF enq_ok [OF 3, of p]] by (auto simp: enq_content split: if_splits)
  next
    case 4 then show ?case using Cons.IH(4) [OF enq_ok [OF 4, of p]] by (simp add: enq_content)
  }
qed simp_all

lemma back_all:
  assumes "ok q"
  shows "ok (fold to_back ps q)" and "set (content (fold to_back ps q)) = set (content q)"
    and "content (fold to_back ps q) =
      fold (\<lambda>p xs. if p \<in> set xs then filter (\<lambda>x. x \<noteq> p) xs @ [p] else xs) ps (content q)"
  using assms
proof (induction ps arbitrary: q)
  case (Cons p ps)
  {
    case 1 then show ?case using Cons.IH(1) [OF to_back_ok] by simp
  next
    case 2 then show ?case using Cons.IH(2) [OF to_back_ok [OF 2, of p]] by (auto simp: to_back_content)
  next
    case 3 then show ?case using Cons.IH(3) [OF to_back_ok [OF 3, of p]] by (simp add: to_back_content)
  }
qed simp_all

lemma back_length: "ok q \<Longrightarrow> length (content (fold to_back ps q)) = length (content q)"
  using back_all [of q ps] content_distinct by (metis distinct_card)

end

interpretation hook_queue: path_queue queue_ok queued "insert_or_ignore t" remove_chunks requeue
  by unfold_locales (simp_all add: distinct_queued queued_insert queued_remove queued_requeue del: set_queued)

section \<open>Properties\<close>

text \<open>The calls that change the queue, each with whether its transaction fails, and what they mean on lists.\<close>

datatype queue_call =
    CallEnqueue bool int "string list"
  | CallRemove bool "string list"
  | CallRetry bool "string list"

fun run_call :: "queue_call \<Rightarrow> queue \<Rightarrow> queue" where
  "run_call (CallEnqueue fault t paths) q = snd (Enqueue fault t paths q)"
| "run_call (CallRemove fault paths) q = snd (Remove fault paths q)"
| "run_call (CallRetry fault paths) q = snd (Retry fault paths q)"

fun list_call :: "queue_call \<Rightarrow> string list \<Rightarrow> string list" where
  "list_call (CallEnqueue fault t paths) xs =
     (if fault then xs else fold (\<lambda>p xs. if p \<in> set xs then xs else xs @ [p]) paths xs)"
| "list_call (CallRemove fault paths) xs = (if fault then xs else filter (\<lambda>p. p \<notin> set paths) xs)"
| "list_call (CallRetry fault paths) xs =
     (if fault then xs else fold (\<lambda>p xs. if p \<in> set xs then filter (\<lambda>x. x \<noteq> p) xs @ [p] else xs) paths xs)"

lemma run_call_list:
  assumes "queue_ok q"
  shows "queue_ok (run_call c q) \<and> queued (run_call c q) = list_call c (queued q)"
  using assms hook_queue.enq_all(1,4) hook_queue.back_all(1,3) hook_queue.dequeue_ok hook_queue.dequeue_content
  by (cases c) (simp_all add: Enqueue_def Remove_def Retry_def del: set_queued)

lemma fold_run_call:
  "queue_ok q \<Longrightarrow> queue_ok (fold run_call cs q) \<and> queued (fold run_call cs q) = fold list_call cs (queued q)"
  by (induction cs arbitrary: q) (simp_all add: run_call_list)

text \<open>
  C22: Under any sequence of operations the table is a queue of distinct paths: new paths go to the end,
  known ones keep their place, retried ones move to the end, a failed transaction changes nothing, and a
  batch is the head of that list.
\<close>
theorem queue_refines_list:
  "queued (fold run_call cs []) = fold list_call cs [] \<and> distinct (fold list_call cs []) \<and>
   FetchBatch False (int n) (fold run_call cs []) = Inr (take n (fold list_call cs [])) \<and>
   Count False (fold run_call cs []) = Inr (length (fold list_call cs []))"
proof -
  have "queue_ok []" "queued [] = []" by (simp_all add: queue_ok_def queued_def)
  then have q: "queue_ok (fold run_call cs [])" "queued (fold run_call cs []) = fold list_call cs []"
    using fold_run_call by metis+
  then show ?thesis
    using distinct_queued [OF q(1)] length_queued [of "fold run_call cs []"]
    by (simp add: FetchBatch_def Count_def del: length_queued flip: queued_def)
qed

end
