(* ===== verification/HookWorker.thy ===== *)
theory HookWorker
  imports HookQueue
begin

text \<open>
  The upload daemon of the post-build hook: the worker (\<open>src/hook/worker.go\<close>), the socket's two ends
  (\<open>src/hook/server.go\<close>, \<open>src/hook/client.go\<close>), its counters (\<open>src/hook/stats.go\<close>) and how
  \<open>src/cmd/niks3-hook/main.go\<close> joins them. Connections enqueue while the worker runs: what they enqueue
  arrives before some operation of the worker on the queue.
\<close>

section \<open>State and environment\<close>

datatype queue_op = OpFetch | OpRemove | OpRetry | OpCount

text \<open>
  The worker's operations on the queue are numbered, and so are its pushes. The environment says which
  operation fails, what arrived before it, whether a path is on disk then, and how each push ends:
  \<open>None\<close> for an error, or the paths that were uploaded.
\<close>

record hook_env =
  he_fault :: "queue_op \<Rightarrow> nat \<Rightarrow> bool"
  he_arrivals :: "nat \<Rightarrow> string list list"
  he_time :: "nat \<Rightarrow> int"
  he_stat :: "nat \<Rightarrow> string \<Rightarrow> bool"
  he_push :: "nat \<Rightarrow> string list \<Rightarrow> string list option"

text \<open>\<open>hs_calls\<close> is the history of the pushes with their results.\<close>

record hook_state =
  hs_queue :: queue
  hs_ops :: nat
  hs_calls :: "(string list \<times> string list option) list"

text \<open>Whether the context of a step is done, by the number of pushes made.\<close>

type_synonym context_done = "nat \<Rightarrow> bool"

definition arrive :: "hook_env \<Rightarrow> hook_state \<Rightarrow> hook_state" where
  "arrive e s = s\<lparr>hs_queue := fold (\<lambda>paths q. snd (Enqueue False (he_time e (hs_ops s)) paths q))
                                 (he_arrivals e (hs_ops s)) (hs_queue s),
                 hs_ops := Suc (hs_ops s)\<rparr>"

definition worker_remove :: "hook_env \<Rightarrow> string list \<Rightarrow> hook_state \<Rightarrow> hook_state" where
  "worker_remove e paths s =
     (let s' = arrive e s in s'\<lparr>hs_queue := snd (Remove (he_fault e OpRemove (hs_ops s)) paths (hs_queue s'))\<rparr>)"

definition worker_retry :: "hook_env \<Rightarrow> string list \<Rightarrow> hook_state \<Rightarrow> hook_state" where
  "worker_retry e paths s =
     (let s' = arrive e s in s'\<lparr>hs_queue := snd (Retry (he_fault e OpRetry (hs_ops s)) paths (hs_queue s'))\<rparr>)"

definition push_call :: "hook_env \<Rightarrow> string list \<Rightarrow> hook_state \<Rightarrow> string list option \<times> hook_state" where
  "push_call e paths s =
     (let res = he_push e (length (hs_calls s)) paths in (res, s\<lparr>hs_calls := hs_calls s @ [(paths, res)]\<rparr>))"

section \<open>The worker\<close>

definition isolationProbes :: nat where
  "isolationProbes = 3"

definition defaultBatchSize :: int where
  "defaultBatchSize = 50"

definition NewWorker_batchSize :: "int \<Rightarrow> int" where
  "NewWorker_batchSize batchSize = (if batchSize \<le> 0 then defaultBatchSize else batchSize)"

definition QueueEmpty :: "hook_env \<Rightarrow> hook_state \<Rightarrow> bool \<times> hook_state" where
  "QueueEmpty e s =
     (let s' = arrive e s in
      (case Count (he_fault e OpCount (hs_ops s)) (hs_queue s') of Inl err \<Rightarrow> False | Inr n \<Rightarrow> n = 0, s'))"

definition settle :: "hook_env \<Rightarrow> string list \<Rightarrow> string list \<Rightarrow> hook_state \<Rightarrow> string list \<times> hook_state" where
  "settle e batch uploaded s =
     (let toRemove = (if length uploaded > length batch then uploaded else batch)
      in (toRemove, worker_remove e toRemove s))"

text \<open>The loop over the paths of a batch that failed as a whole; \<open>done\<close> as a list of the map's keys.\<close>

fun upload_each ::
  "hook_env \<Rightarrow> string list \<Rightarrow> string list \<Rightarrow> nat \<Rightarrow> hook_state \<Rightarrow> bool \<times> hook_state" where
  "upload_each e [] settled failures s = (settled \<noteq> [], s)"
| "upload_each e (p # batch) settled failures s =
     (if p \<in> set settled then upload_each e batch settled failures s
      else if settled = [] \<and> isolationProbes \<le> failures then (False, s)
      else (case push_call e [p] s of
              (None, s) \<Rightarrow> upload_each e batch settled (failures + 1) (worker_retry e [p] s)
            | (Some uploaded, s) \<Rightarrow>
                (case settle e [p] uploaded s of
                   (removed, s) \<Rightarrow> upload_each e batch (settled @ removed) failures s)))"

definition upload :: "hook_env \<Rightarrow> context_done \<Rightarrow> string list \<Rightarrow> hook_state \<Rightarrow> bool \<times> hook_state" where
  "upload e ctx batch s =
     (case push_call e batch s of
        (Some uploaded, s) \<Rightarrow> (True, snd (settle e batch uploaded s))
      | (None, s) \<Rightarrow>
          if ctx (length (hs_calls s)) then (False, s)
          else if length batch = 1 then (False, worker_retry e batch s)
          else upload_each e batch [] 0 s)"

definition step :: "hook_env \<Rightarrow> int \<Rightarrow> context_done \<Rightarrow> hook_state \<Rightarrow> (string list \<times> bool) \<times> hook_state" where
  "step e batchSize ctx s =
     (let s' = arrive e s in
      case FetchBatch (he_fault e OpFetch (hs_ops s)) batchSize (hs_queue s') of
        Inl err \<Rightarrow> (([], False), s')
      | Inr paths \<Rightarrow>
          if paths = [] then (([], True), s')
          else (let existing = filter (he_stat e (hs_ops s)) paths;
                    gced = filter (\<lambda>p. \<not> he_stat e (hs_ops s) p) paths;
                    s' = worker_remove e gced s'
                in if existing = [] then ((paths, True), s')
                   else (case upload e ctx existing s' of (progress, s') \<Rightarrow> ((paths, progress), s'))))"

text \<open>The loop of \<open>drain\<close>: a drain that never ends has no value.\<close>

partial_function (option) drain_loop ::
  "hook_env \<Rightarrow> int \<Rightarrow> context_done \<Rightarrow> nat \<Rightarrow> hook_state \<Rightarrow> hook_state option" where
  "drain_loop e batchSize ctx stalled s =
     (if stalled < isolationProbes \<and> \<not> ctx (length (hs_calls s))
      then (case step e batchSize ctx s of
              ((batch, progress), s) \<Rightarrow>
                if batch = [] then Some s
                else drain_loop e batchSize ctx (if progress then 0 else stalled + 1) s)
      else Some s)"

definition drain :: "hook_env \<Rightarrow> int \<Rightarrow> context_done \<Rightarrow> hook_state \<Rightarrow> hook_state option" where
  "drain e batchSize timeout s = drain_loop e batchSize timeout 0 s"

text \<open>Durations in seconds.\<close>

definition initialBackoff :: int where
  "initialBackoff = 1"

definition maxBackoff :: int where
  "maxBackoff = 15 * 60"

definition defaultPollInterval :: int where
  "defaultPollInterval = 30"

definition nextBackoff :: "int \<Rightarrow> int" where
  "nextBackoff current =
     (if current = 0 then initialBackoff
      else let next = current * 2 in if maxBackoff < next then maxBackoff else next)"

definition run_wait :: "int \<Rightarrow> int" where
  "run_wait backoff = (if 0 < backoff then backoff else defaultPollInterval)"

text \<open>
  \<open>Run\<close> as steps: it waits, is woken by its timer or by an arrival, works until a step makes no progress
  or finds nothing, and drains once its context is done. A connection that was accepted before may still
  enqueue when the worker has stopped.
\<close>

datatype run_phase = Waiting | Working | Stopped

inductive run_step ::
  "hook_env \<Rightarrow> int \<Rightarrow> context_done \<Rightarrow> context_done \<Rightarrow>
   run_phase \<times> int \<times> hook_state \<Rightarrow> run_phase \<times> int \<times> hook_state \<Rightarrow> bool"
  for e batchSize ctx timeout
where
  woken: "run_step e batchSize ctx timeout (Waiting, b, s) (Working, b, s)"
| stop: "ph \<noteq> Stopped \<Longrightarrow> drain e batchSize timeout s = Some s' \<Longrightarrow>
    run_step e batchSize ctx timeout (ph, b, s) (Stopped, b, s')"
| stalled: "step e batchSize ctx s = ((batch, False), s') \<Longrightarrow>
    run_step e batchSize ctx timeout (Working, b, s) (Waiting, nextBackoff b, s')"
| idle: "step e batchSize ctx s = (([], True), s') \<Longrightarrow>
    run_step e batchSize ctx timeout (Working, b, s) (Waiting, 0, s')"
| more: "step e batchSize ctx s = ((p # batch, True), s') \<Longrightarrow>
    run_step e batchSize ctx timeout (Working, b, s) (Working, 0, s')"
| late: "run_step e batchSize ctx timeout (Stopped, b, s) (Stopped, b, arrive e s)"

inductive_cases run_stepE: "run_step e batchSize ctx timeout c c'"

section \<open>The socket\<close>

record Response =
  rs_Status :: string
  rs_Message :: string

text \<open>What a connection does: it may fail to be made, to carry the request, or to carry the answer.\<close>

record conn =
  cn_dials :: bool
  cn_request :: bool
  cn_response :: bool

record hook_stats =
  st_received :: int
  st_pushed :: int
  st_failed :: int
  st_lastError :: string

definition AddReceived :: "int \<Rightarrow> hook_stats \<Rightarrow> hook_stats" where
  "AddReceived n st = st\<lparr>st_received := st_received st + n\<rparr>"

definition WrapPush :: "string list \<Rightarrow> string + string list \<Rightarrow> hook_stats \<Rightarrow> (string + string list) \<times> hook_stats" where
  "WrapPush paths res st =
     (case res of
        Inl err \<Rightarrow> (Inl err, st\<lparr>st_failed := st_failed st + 1, st_lastError := err\<rparr>)
      | Inr uploaded \<Rightarrow> (Inr uploaded, st\<lparr>st_pushed := st_pushed st + int (length paths)\<rparr>))"

definition queueFunc ::
  "bool \<Rightarrow> int \<Rightarrow> string list \<Rightarrow> queue \<times> hook_stats \<Rightarrow> queue_error option \<times> queue \<times> hook_stats" where
  "queueFunc fault t paths s =
     (case Enqueue fault t paths (fst s) of
        (Some err, q) \<Rightarrow> (Some err, q, snd s)
      | (None, q) \<Rightarrow> (None, q, AddReceived (int (length paths)) (snd s)))"

definition handleConn ::
  "bool \<Rightarrow> int \<Rightarrow> string list option \<Rightarrow> queue \<times> hook_stats \<Rightarrow> Response \<times> queue \<times> hook_stats" where
  "handleConn fault t req s =
     (case req of
        None \<Rightarrow> (\<lparr>rs_Status = ''error'', rs_Message = ''invalid request''\<rparr>, s)
      | Some paths \<Rightarrow>
          if paths = [] then (\<lparr>rs_Status = ''ok'', rs_Message = ''''\<rparr>, s)
          else (case queueFunc fault t paths s of
                  (Some (QueueError err), s) \<Rightarrow> (\<lparr>rs_Status = ''error'', rs_Message = err\<rparr>, s)
                | (None, s) \<Rightarrow> (\<lparr>rs_Status = ''ok'', rs_Message = ''''\<rparr>, s)))"

text \<open>One call of the hook with the connection handler at the other end; \<open>None\<close> is success.\<close>

definition SendPaths ::
  "conn \<Rightarrow> bool \<Rightarrow> int \<Rightarrow> string list \<Rightarrow> queue \<times> hook_stats \<Rightarrow> string option \<times> queue \<times> hook_stats" where
  "SendPaths c fault t paths s =
     (if paths = [] then (None, s)
      else if \<not> cn_dials c then (Some ''connecting to socket'', s)
      else (case handleConn fault t (if cn_request c then Some paths else None) s of
              (resp, s) \<Rightarrow>
                if \<not> cn_request c then (Some ''sending request'', s)
                else if \<not> cn_response c then (Some ''reading response'', s)
                else if rs_Status resp \<noteq> ''ok'' then (Some (''server error: '' @ rs_Message resp), s)
                else (None, s)))"

section \<open>Where every path is\<close>

definition arrived :: "hook_env \<Rightarrow> nat \<Rightarrow> nat \<Rightarrow> string set" where
  "arrived e m n = (\<Union>k \<in> {m..<n}. \<Union>paths \<in> set (he_arrivals e k). set paths)"

definition covered :: "hook_state \<Rightarrow> string \<Rightarrow> bool" where
  "covered s p \<longleftrightarrow> (\<exists>paths up. (paths, Some up) \<in> set (hs_calls s) \<and> p \<in> set paths \<union> set up)"

definition gone :: "hook_env \<Rightarrow> hook_state \<Rightarrow> string \<Rightarrow> bool" where
  "gone e s p \<longleftrightarrow> (\<exists>k < hs_ops s. \<not> he_stat e k p)"

text \<open>Of the paths \<open>given\<close> and those that arrived since operation \<open>m\<close>, every one is queued, uploaded or gone, and only they are queued.\<close>

definition accounted :: "hook_env \<Rightarrow> nat \<Rightarrow> string set \<Rightarrow> hook_state \<Rightarrow> bool" where
  "accounted e m given s \<longleftrightarrow> queue_ok (hs_queue s) \<and> m \<le> hs_ops s \<and>
     (\<forall>p \<in> given \<union> arrived e m (hs_ops s). p \<in> set (queued (hs_queue s)) \<or> covered s p \<or> gone e s p) \<and>
     set (queued (hs_queue s)) \<subseteq> given \<union> arrived e m (hs_ops s)"

lemma enqueue_all:
  assumes "queue_ok q"
  shows "queue_ok (fold (\<lambda>paths q. snd (Enqueue False t paths q)) pss q)"
    and "set (queued (fold (\<lambda>paths q. snd (Enqueue False t paths q)) pss q)) = set (queued q) \<union> (\<Union>paths \<in> set pss. set paths)"
    and "\<exists>ys. queued (fold (\<lambda>paths q. snd (Enqueue False t paths q)) pss q) = queued q @ ys"
  using assms
proof (induction pss arbitrary: q)
  case (Cons ps pss)
  have enq: "snd (Enqueue False t ps q) = fold (insert_or_ignore t) ps q" for q by (simp add: Enqueue_def)
  {
    case 1 then show ?case using Cons.IH(1) [OF hook_queue.enq_all(1)] by (simp add: enq)
  next
    case 2 then show ?case
      using Cons.IH(2) [OF hook_queue.enq_all(1) [of q t ps]] hook_queue.enq_all(2) [of q t ps]
      by (simp add: enq Un_assoc del: set_queued)
  next
    case 3 then show ?case
      using Cons.IH(3) [OF hook_queue.enq_all(1) [of q t ps]] hook_queue.enq_all(3) [of q t ps] by (auto simp: enq)
  }
qed simp_all

lemma arrive_frame [simp]: "hs_calls (arrive e s) = hs_calls s" "hs_ops (arrive e s) = Suc (hs_ops s)"
  by (simp_all add: arrive_def)

lemma arrive_queue:
  assumes "queue_ok (hs_queue s)"
  shows "queue_ok (hs_queue (arrive e s))"
    and "set (queued (hs_queue (arrive e s))) = set (queued (hs_queue s)) \<union> (\<Union>paths \<in> set (he_arrivals e (hs_ops s)). set paths)"
    and "\<exists>ys. queued (hs_queue (arrive e s)) = queued (hs_queue s) @ ys"
  using enqueue_all [OF assms] by (simp_all add: arrive_def del: set_queued)

lemma arrived_Suc: "m \<le> n \<Longrightarrow> arrived e m (Suc n) = arrived e m n \<union> (\<Union>paths \<in> set (he_arrivals e n). set paths)"
  by (auto simp: arrived_def atLeastLessThanSuc)

lemma covered_mono: "covered s p \<Longrightarrow> set (hs_calls s) \<subseteq> set (hs_calls s') \<Longrightarrow> covered s' p"
  by (auto simp: covered_def)

lemma gone_mono: "gone e s p \<Longrightarrow> hs_ops s \<le> hs_ops s' \<Longrightarrow> gone e s' p"
  by (meson gone_def less_le_trans)

lemma accounted_arrive:
  assumes "accounted e m given s"
  shows "accounted e m given (arrive e s)"
proof -
  have "covered (arrive e s) p = covered s p" "gone e s p \<Longrightarrow> gone e (arrive e s) p" for p
    by (auto simp: covered_def gone_def less_Suc_eq)
  then show ?thesis
    using assms arrive_queue(1,2) [of s e] arrived_Suc [of m "hs_ops s" e] unfolding accounted_def arrive_frame
    by (simp del: set_queued) blast
qed

text \<open>Taking away what was uploaded or is gone, and moving paths back.\<close>

lemma accounted_queue:
  assumes "accounted e m given s" and "queue_ok q" and "set (queued q) \<subseteq> set (queued (hs_queue s))"
    and "\<forall>p \<in> set (queued (hs_queue s)) - set (queued q). covered s p \<or> gone e s p"
  shows "accounted e m given (s\<lparr>hs_queue := q\<rparr>)"
proof -
  have "covered (s\<lparr>hs_queue := q\<rparr>) p = covered s p" "gone e (s\<lparr>hs_queue := q\<rparr>) p = gone e s p" for p
    by (simp_all add: covered_def gone_def)
  then show ?thesis using assms unfolding accounted_def by (simp del: set_queued) blast
qed

lemma worker_remove_queue:
  assumes "queue_ok (hs_queue s)"
  shows "queue_ok (hs_queue (worker_remove e paths s))"
    and "queued (hs_queue (worker_remove e paths s)) =
      (if he_fault e OpRemove (hs_ops s) then queued (hs_queue (arrive e s))
       else filter (\<lambda>p. p \<notin> set paths) (queued (hs_queue (arrive e s))))"
    and "hs_calls (worker_remove e paths s) = hs_calls s" "hs_ops (worker_remove e paths s) = Suc (hs_ops s)"
  using hook_queue.dequeue_ok [OF arrive_queue(1) [OF assms]] hook_queue.dequeue_content [OF arrive_queue(1) [OF assms]]
  by (auto simp: worker_remove_def Let_def Remove_def arrive_queue(1) assms)

lemma worker_retry_queue:
  assumes "queue_ok (hs_queue s)"
  shows "queue_ok (hs_queue (worker_retry e paths s))"
    and "set (queued (hs_queue (worker_retry e paths s))) = set (queued (hs_queue (arrive e s)))"
    and "length (queued (hs_queue (worker_retry e paths s))) = length (queued (hs_queue (arrive e s)))"
    and "hs_calls (worker_retry e paths s) = hs_calls s" "hs_ops (worker_retry e paths s) = Suc (hs_ops s)"
  using hook_queue.back_all(1,2) [OF arrive_queue(1) [OF assms]] hook_queue.back_length [OF arrive_queue(1) [OF assms]]
  by (auto simp: worker_retry_def Let_def Retry_def arrive_queue(1) assms simp del: set_queued length_queued)

lemma accounted_remove:
  assumes a: "accounted e m given s" and "\<forall>p \<in> set paths. covered s p \<or> gone e s p"
  shows "accounted e m given (worker_remove e paths s)"
proof -
  let ?q = "hs_queue (worker_remove e paths s)"
  have ok: "queue_ok (hs_queue s)" using a by (simp add: accounted_def)
  have "worker_remove e paths s = (arrive e s)\<lparr>hs_queue := ?q\<rparr>" by (simp add: worker_remove_def Let_def)
  moreover have "accounted e m given ((arrive e s)\<lparr>hs_queue := ?q\<rparr>)"
    using assms(2) worker_remove_queue(1,2) [OF ok, of e paths]
    by (intro accounted_queue accounted_arrive a) (auto simp: covered_def gone_def less_Suc_eq simp del: set_queued)
  ultimately show ?thesis by simp
qed

lemma accounted_retry:
  assumes a: "accounted e m given s"
  shows "accounted e m given (worker_retry e paths s)"
proof -
  let ?q = "hs_queue (worker_retry e paths s)"
  have ok: "queue_ok (hs_queue s)" using a by (simp add: accounted_def)
  have "worker_retry e paths s = (arrive e s)\<lparr>hs_queue := ?q\<rparr>" by (simp add: worker_retry_def Let_def)
  moreover have "accounted e m given ((arrive e s)\<lparr>hs_queue := ?q\<rparr>)"
    using worker_retry_queue(1,2) [OF ok, of e paths]
    by (intro accounted_queue accounted_arrive a) (auto simp del: set_queued)
  ultimately show ?thesis by simp
qed

lemma push_call_frame:
  assumes "push_call e paths s = (res, s')"
  shows "hs_queue s' = hs_queue s" "hs_ops s' = hs_ops s" "hs_calls s' = hs_calls s @ [(paths, res)]"
    "res = he_push e (length (hs_calls s)) paths"
  using assms by (auto simp: push_call_def Let_def)

lemma accounted_push:
  assumes "push_call e paths s = (res, s')" "accounted e m given s"
  shows "accounted e m given s'"
proof -
  note p = push_call_frame(1,2,3) [OF assms(1)]
  have "covered s x \<Longrightarrow> covered s' x" for x by (rule covered_mono) (auto simp: p)
  then show ?thesis using assms(2) unfolding accounted_def gone_def p by blast
qed

lemma accounted_settle:
  assumes "push_call e batch s = (Some up, s1)" "accounted e m given s" "settle e batch up s1 = (removed, s')"
  shows "accounted e m given s'"
proof -
  have "\<forall>p \<in> set batch \<union> set up. covered s1 p" using push_call_frame(3) [OF assms(1)] by (auto simp: covered_def)
  then show ?thesis
    using accounted_remove [OF accounted_push [OF assms(1,2)]] assms(3) by (auto simp: settle_def Let_def split: if_splits)
qed

lemma accounted_upload_each:
  "accounted e m given s \<Longrightarrow> accounted e m given (snd (upload_each e batch settled failures s))"
proof (induction batch arbitrary: settled failures s)
  case (Cons p batch)
  obtain res s1 where p: "push_call e [p] s = (res, s1)" by fastforce

  show ?case
  proof (cases res)
    case None
    have "accounted e m given (worker_retry e [p] s1)" by (intro accounted_retry accounted_push [OF p] Cons.prems)
    then show ?thesis using p None Cons.prems Cons.IH by simp
  next
    case (Some up)
    obtain rem s2 where r: "settle e [p] up s1 = (rem, s2)" by fastforce
    have "accounted e m given s2" using accounted_settle p r Some Cons.prems by blast
    then show ?thesis using p r Some Cons.prems Cons.IH by simp
  qed
qed simp

lemma accounted_upload:
  assumes "accounted e m given s"
  shows "accounted e m given (snd (upload e ctx batch s))"
proof -
  obtain res s1 where p: "push_call e batch s = (res, s1)" by fastforce
  have s1: "accounted e m given s1" using accounted_push [OF p assms] .
  show ?thesis
  proof (cases res)
    case None
    with p s1 show ?thesis by (simp add: upload_def accounted_retry accounted_upload_each)
  next
    case (Some up)
    obtain rem s2 where r: "settle e batch up s1 = (rem, s2)" by fastforce
    from accounted_settle [OF p [unfolded Some] assms r] p r Some show ?thesis by (simp add: upload_def)
  qed
qed

lemma accounted_step:
  assumes a: "accounted e m given s" and "step e n ctx s = (r, s')"
  shows "accounted e m given s'"
proof (cases "FetchBatch (he_fault e OpFetch (hs_ops s)) n (hs_queue (arrive e s))")
  case (Inr paths)
  let ?gced = "filter (\<lambda>p. \<not> he_stat e (hs_ops s) p) paths" and ?existing = "filter (he_stat e (hs_ops s)) paths"
  let ?s = "worker_remove e ?gced (arrive e s)"
  have "accounted e m given ?s"
    by (intro accounted_remove accounted_arrive a) (auto simp: gone_def)
  then show ?thesis
    using assms Inr accounted_upload [of e m given ?s ctx ?existing]
    by (auto simp: step_def Let_def accounted_arrive split: if_splits prod.splits)
qed (use assms in \<open>auto simp: step_def Let_def accounted_arrive\<close>)

lemma accounted_drain_loop:
  assumes "drain_loop e n ctx stalled s = Some s'" and "accounted e m given s"
  shows "accounted e m given s'"
proof -
  have "accounted e m given s \<longrightarrow> accounted e m given s'"
  proof (rule drain_loop.raw_induct [where P = "\<lambda>e n ctx stalled s s'. accounted e m given s \<longrightarrow> accounted e m given s'", OF _ assms(1)])
    fix loop e n ctx stalled s s'
    assume IH: "\<And>e n ctx stalled s s'. loop e n ctx stalled s = Some s' \<Longrightarrow> accounted e m given s \<longrightarrow> accounted e m given s'"
      and body: "(if stalled < isolationProbes \<and> \<not> ctx (length (hs_calls s))
        then (case step e n ctx s of
                ((batch, progress), s) \<Rightarrow>
                  if batch = [] then Some s else loop e n ctx (if progress then 0 else stalled + 1) s)
        else Some s) = Some s'"
    obtain batch progress s1 where st: "step e n ctx s = ((batch, progress), s1)" by (metis prod.collapse)
    show "accounted e m given s \<longrightarrow> accounted e m given s'"
      using body accounted_step [OF _ st] IH st by (auto split: if_splits)
  qed
  with assms(2) show ?thesis by blast
qed

text \<open>The waiting time stays within its bounds.\<close>

lemma nextBackoff_bounds: "0 \<le> b \<Longrightarrow> b \<le> maxBackoff \<Longrightarrow> 0 < nextBackoff b \<and> nextBackoff b \<le> maxBackoff"
  by (auto simp: nextBackoff_def initialBackoff_def maxBackoff_def Let_def)

lemma run_step_inv:
  assumes "run_step e n ctx timeout (ph, b, s) (ph', b', s')" "accounted e m given s" "0 \<le> b" "b \<le> maxBackoff"
  shows "accounted e m given s' \<and> 0 \<le> b' \<and> b' \<le> maxBackoff"
  using assms
  by (cases rule: run_step.cases)
     (auto simp: drain_def accounted_arrive maxBackoff_def dest: accounted_step accounted_drain_loop nextBackoff_bounds [unfolded maxBackoff_def])

definition hook_start :: "queue \<Rightarrow> hook_state" where
  "hook_start q = \<lparr>hs_queue = q, hs_ops = 0, hs_calls = []\<rparr>"

lemma run_accounted:
  assumes "(run_step e n ctx timeout)\<^sup>*\<^sup>* (Waiting, 0, hook_start q) (ph, b, s)" "queue_ok q"
  shows "accounted e 0 (set (queued q)) s \<and> 0 \<le> b \<and> b \<le> maxBackoff"
  using assms(1)
proof (induction "(ph, b, s)" arbitrary: ph b s rule: rtranclp_induct)
  case base
  then show ?case using assms(2) by (auto simp: accounted_def arrived_def hook_start_def maxBackoff_def simp del: set_queued)
next
  case (step c)
  then show ?case using run_step_inv by (metis prod_cases3)
qed

section \<open>The queue shrinks\<close>

definition shrinks :: "hook_state \<Rightarrow> hook_state \<Rightarrow> bool" where
  "shrinks s s' \<longleftrightarrow> queue_ok (hs_queue s') \<and> set (queued (hs_queue s')) \<subseteq> set (queued (hs_queue s)) \<and> hs_ops s \<le> hs_ops s'"

lemma shrinks_trans: "shrinks s s' \<Longrightarrow> shrinks s' s'' \<Longrightarrow> shrinks s s''"
  by (auto simp: shrinks_def simp del: set_queued)

lemma shrinks_refl: "queue_ok (hs_queue s) \<Longrightarrow> shrinks s s"
  by (simp add: shrinks_def)

lemma shrinks_length:
  assumes "shrinks s s'" "queue_ok (hs_queue s)"
  shows "length (hs_queue s') \<le> length (hs_queue s)"
    and "p \<in> set (queued (hs_queue s)) \<Longrightarrow> p \<notin> set (queued (hs_queue s')) \<Longrightarrow> length (hs_queue s') < length (hs_queue s)"
proof -
  have len: "card (set (queued q)) = length q" if "queue_ok q" for q
    using distinct_card [OF distinct_queued [OF that]] by (simp del: set_queued)
  have "card (set (queued (hs_queue s'))) \<le> card (set (queued (hs_queue s)))"
    using assms(1) by (intro card_mono) (auto simp: shrinks_def simp del: set_queued)
  then show "length (hs_queue s') \<le> length (hs_queue s)" using len assms by (simp add: shrinks_def del: set_queued)
  assume "p \<in> set (queued (hs_queue s))" "p \<notin> set (queued (hs_queue s'))"
  with assms(1) have "set (queued (hs_queue s')) \<subset> set (queued (hs_queue s))" by (auto simp: shrinks_def simp del: set_queued)
  from psubset_card_mono [OF _ this] show "length (hs_queue s') < length (hs_queue s)"
    using len assms by (simp add: shrinks_def del: set_queued)
qed

text \<open>
  From operation \<open>K\<close> on nothing arrives and removals do not fail, and a successful push that reports more
  paths than it was given reports one of those.
\<close>

definition calm :: "hook_env \<Rightarrow> nat \<Rightarrow> bool" where
  "calm e K \<longleftrightarrow> (\<forall>k \<ge> K. he_arrivals e k = [] \<and> \<not> he_fault e OpRemove k) \<and>
     (\<forall>k paths up. he_push e k paths = Some up \<longrightarrow> paths \<noteq> [] \<longrightarrow> length paths < length up \<longrightarrow> set paths \<inter> set up \<noteq> {})"

lemma arrive_calm: "he_arrivals e (hs_ops s) = [] \<Longrightarrow> hs_queue (arrive e s) = hs_queue s"
  by (simp add: arrive_def)

lemma remove_calm:
  assumes "calm e K" "K \<le> hs_ops s" "queue_ok (hs_queue s)"
  shows "shrinks s (worker_remove e paths s)"
    and "queued (hs_queue (worker_remove e paths s)) = filter (\<lambda>p. p \<notin> set paths) (queued (hs_queue s))"
proof -
  have "hs_queue (arrive e s) = hs_queue s" using assms by (simp add: calm_def arrive_calm)
  then show q: "queued (hs_queue (worker_remove e paths s)) = filter (\<lambda>p. p \<notin> set paths) (queued (hs_queue s))"
    using worker_remove_queue(2) [OF assms(3), of e paths] assms by (auto simp: calm_def)
  show "shrinks s (worker_remove e paths s)"
    using worker_remove_queue(1,4) [OF assms(3), of e paths] unfolding shrinks_def q by (auto simp del: set_queued)
qed

lemma retry_calm:
  assumes "calm e K" "K \<le> hs_ops s" "queue_ok (hs_queue s)"
  shows "shrinks s (worker_retry e paths s)" and "set (queued (hs_queue (worker_retry e paths s))) = set (queued (hs_queue s))"
proof -
  have "hs_queue (arrive e s) = hs_queue s" using assms by (simp add: calm_def arrive_calm)
  then show "shrinks s (worker_retry e paths s)" "set (queued (hs_queue (worker_retry e paths s))) = set (queued (hs_queue s))"
    using worker_retry_queue [OF assms(3), of e paths] by (simp_all add: shrinks_def del: set_queued)
qed

lemma settle_calm:
  assumes c: "calm e K" and "K \<le> hs_ops s" "queue_ok (hs_queue s)"
    and p: "push_call e batch s = (Some up, s1)" and r: "settle e batch up s1 = (removed, s')"
  shows "shrinks s s'" and "batch \<noteq> [] \<Longrightarrow> \<exists>p \<in> set batch. p \<notin> set (queued (hs_queue s'))"
proof -
  note f = push_call_frame [OF p]
  let ?rem = "if length up > length batch then up else batch"
  have sub: "batch \<noteq> [] \<Longrightarrow> \<exists>p \<in> set batch. p \<in> set ?rem"   proof (cases "length up > length batch")
    case True
    assume "batch \<noteq> []"
    with c f(4) True have "set batch \<inter> set up \<noteq> {}" unfolding calm_def by metis
    with True show ?thesis by auto
  next
    case False
    assume "batch \<noteq> []"
    then have "hd batch \<in> set batch" by simp
    with False show ?thesis by auto
  qed
  have s': "removed = ?rem" "s' = worker_remove e ?rem s1" using r by (auto simp: settle_def Let_def)
  note rc = remove_calm [OF c, of s1 ?rem, unfolded f(1,2), OF assms(2,3)]
  show "shrinks s s'" using rc(1) unfolding s'(2) shrinks_def f(1,2) .
  show "batch \<noteq> [] \<Longrightarrow> \<exists>p \<in> set batch. p \<notin> set (queued (hs_queue s'))" using sub unfolding s'(2) rc(2) by auto
qed

lemma upload_each_calm:
  assumes c: "calm e K" and "upload_each e batch settled failures s = (r, s')" "K \<le> hs_ops s" "queue_ok (hs_queue s)"
  shows "shrinks s s' \<and> (settled = [] \<and> r \<and> set batch \<subseteq> set (queued (hs_queue s)) \<longrightarrow>
    (\<exists>p \<in> set batch. p \<notin> set (queued (hs_queue s'))))"
  using assms(2-)
proof (induction batch arbitrary: settled failures s)
  case (Cons p batch)
  obtain res s1 where p: "push_call e [p] s = (res, s1)" by fastforce
  note f = push_call_frame [OF p]
  consider (skip) "p \<in> set settled" | (give_up) "settled = []" "isolationProbes \<le> failures" "p \<notin> set settled"
    | (go) "p \<notin> set settled" "\<not> (settled = [] \<and> isolationProbes \<le> failures)" by blast
  then show ?case
  proof cases
    case skip
    with Cons.prems Cons.IH [of settled failures s] show ?thesis by auto
  next
    case give_up
    with Cons.prems show ?thesis by (simp add: shrinks_refl)
  next
    case go
    show ?thesis
    proof (cases res)
      case None
      let ?s2 = "worker_retry e [p] s1"
      have rt: "shrinks s ?s2" "set (queued (hs_queue ?s2)) = set (queued (hs_queue s))"
        using retry_calm [OF c, of s1 "[p]"] f(1,2) Cons.prems(2,3) by (simp_all add: shrinks_def del: set_queued)
      have "upload_each e batch settled (failures + 1) ?s2 = (r, s')" using Cons.prems(1) go p None by simp
      from Cons.IH [OF this] rt Cons.prems(2) show ?thesis
        by (auto simp: shrinks_def simp del: set_queued intro: shrinks_trans)
    next
      case (Some up)
      obtain removed s2 where st: "settle e [p] up s1 = (removed, s2)" by fastforce
      note sc = settle_calm [OF c Cons.prems(2,3) p [unfolded Some] st]
      have "upload_each e batch (settled @ removed) failures s2 = (r, s')" using Cons.prems(1) go p Some st by simp
      from Cons.IH [OF this] sc Cons.prems(2) show ?thesis
        by (auto simp: shrinks_def simp del: set_queued)
    qed
  qed
qed (simp add: shrinks_refl)

lemma upload_calm:
  assumes c: "calm e K" and u: "upload e ctx batch s = (r, s')" and K: "K \<le> hs_ops s" and ok: "queue_ok (hs_queue s)"
  shows "shrinks s s'" and "r \<Longrightarrow> batch \<noteq> [] \<Longrightarrow> set batch \<subseteq> set (queued (hs_queue s)) \<Longrightarrow>
    \<exists>p \<in> set batch. p \<notin> set (queued (hs_queue s'))"
proof -
  obtain res s1 where p: "push_call e batch s = (res, s1)" by fastforce
  note f = push_call_frame [OF p]
  have "shrinks s s' \<and> (r \<and> batch \<noteq> [] \<and> set batch \<subseteq> set (queued (hs_queue s)) \<longrightarrow>
    (\<exists>p \<in> set batch. p \<notin> set (queued (hs_queue s'))))"
  proof (cases res)
    case None
    have s1: "shrinks s s1" "K \<le> hs_ops s1" "queue_ok (hs_queue s1)" using f K ok by (simp_all add: shrinks_def)
    show ?thesis
      using u p None s1 retry_calm(1) [OF c s1(2,3), of batch] upload_each_calm [OF c _ s1(2,3), of batch "[]" 0 r s'] f(1)
      by (auto simp: upload_def simp del: set_queued split: if_splits intro: shrinks_trans)
  next
    case (Some up)
    obtain removed s2 where st: "settle e batch up s1 = (removed, s2)" by fastforce
    from settle_calm [OF c K ok p [unfolded Some] st] u p Some st show ?thesis
      by (cases batch) (auto simp: upload_def simp del: set_queued)
  qed
  then show "shrinks s s'" "r \<Longrightarrow> batch \<noteq> [] \<Longrightarrow> set batch \<subseteq> set (queued (hs_queue s)) \<Longrightarrow>
    \<exists>p \<in> set batch. p \<notin> set (queued (hs_queue s'))" by blast+
qed

lemma step_calm:
  assumes c: "calm e K" and K: "K \<le> hs_ops s" and ok: "queue_ok (hs_queue s)"
    and st: "step e n ctx s = ((batch, progress), s')" and ne: "batch \<noteq> []"
  shows "shrinks s s'" and "progress \<Longrightarrow> length (hs_queue s') < length (hs_queue s)"
proof -
  have arr: "hs_queue (arrive e s) = hs_queue s" using c K by (simp add: calm_def arrive_calm)
  obtain paths where fetch: "FetchBatch (he_fault e OpFetch (hs_ops s)) n (hs_queue s) = Inr paths" "paths \<noteq> []"
    using st ne by (auto simp: step_def Let_def arr split: sum.splits if_splits)
  have sub: "set paths \<subseteq> set (queued (hs_queue s))"
    using fetch(1) set_take_subset [of "nat n" "queued (hs_queue s)"]
    by (auto simp: FetchBatch_def Let_def queued_def simp del: set_map split: if_splits)
  let ?gced = "filter (\<lambda>p. \<not> he_stat e (hs_ops s) p) paths" and ?existing = "filter (he_stat e (hs_ops s)) paths"
  let ?s1 = "worker_remove e ?gced (arrive e s)"
  have s0: "shrinks s (arrive e s)" "K \<le> hs_ops (arrive e s)" "queue_ok (hs_queue (arrive e s))"
    using arr ok K by (simp_all add: shrinks_def)
  note rm = remove_calm [OF c s0(2,3), of ?gced]
  have s1: "shrinks s ?s1" "K \<le> hs_ops ?s1" "queue_ok (hs_queue ?s1)"
    using shrinks_trans [OF s0(1) rm(1)] K by (auto simp: shrinks_def)
  have "shrinks s s' \<and> (progress \<longrightarrow> (\<exists>p \<in> set paths. p \<notin> set (queued (hs_queue s'))))"
  proof (cases "?existing = []")
    case True
    then have "hd paths \<in> set ?gced" using fetch(2) by (cases paths) (auto split: if_splits)
    moreover have "s' = ?s1" using st fetch True by (auto simp: step_def Let_def arr)
    ultimately show ?thesis using s1(1) fetch(2) rm(2) by (intro conjI impI bexI [of _ "hd paths"]) (auto simp del: set_queued)
  next
    case False
    obtain r where u: "upload e ctx ?existing ?s1 = (r, s')" "r = progress"
      using st fetch False by (auto simp: step_def Let_def arr split: prod.splits)
    have "set ?existing \<subseteq> set (queued (hs_queue ?s1))" using sub rm(2) arr by (auto simp del: set_queued)
    with upload_calm [OF c u(1) s1(2,3)] False u(2) s1(1) show ?thesis by (meson filter_is_subset shrinks_trans subsetD)
  qed
  then show "shrinks s s'" "progress \<Longrightarrow> length (hs_queue s') < length (hs_queue s)"
    using shrinks_length(2) [OF _ ok] sub by blast+
qed

lemma arrive_ops: "hs_ops s < hs_ops (arrive e s)"
  by simp

lemma upload_each_ops: "hs_ops s \<le> hs_ops (snd (upload_each e batch settled failures s))"
proof (induction e batch settled failures s rule: upload_each.induct)
  case (2 e p batch settled failures s)
  obtain res s1 where p: "push_call e [p] s = (res, s1)" by fastforce
  note f = push_call_frame(2) [OF p]
  show ?case
  proof (cases res)
    case None
    have "hs_ops (worker_retry e [p] s1) = Suc (hs_ops s)" by (simp add: worker_retry_def Let_def f)
    with 2 p None show ?thesis by auto
  next
    case (Some up)
    obtain removed s2 where st: "settle e [p] up s1 = (removed, s2)" by fastforce
    then have "hs_ops s2 = Suc (hs_ops s)" by (auto simp: settle_def worker_remove_def Let_def f)
    with 2 p Some st show ?thesis by (auto intro: Suc_leD)
  qed
qed simp

lemma upload_ops: "hs_ops s \<le> hs_ops (snd (upload e ctx batch s))"
proof -
  obtain res s1 where p: "push_call e batch s = (res, s1)" by fastforce
  show ?thesis
    using p upload_each_ops [of s1 e batch "[]" 0] push_call_frame(2) [OF p]
    by (cases res) (auto simp: upload_def settle_def worker_remove_def worker_retry_def Let_def)
qed

lemma step_ops: "hs_ops s < hs_ops (snd (step e n ctx s))"
proof (cases "FetchBatch (he_fault e OpFetch (hs_ops s)) n (hs_queue (arrive e s))")
  case (Inr paths)
  have "Suc (hs_ops s) \<le> hs_ops (snd (upload e ctx b (worker_remove e g (arrive e s))))" for b g
    using upload_ops [of "worker_remove e g (arrive e s)" e ctx b] by (simp add: worker_remove_def Let_def)
  with Inr show ?thesis
    by (auto simp: step_def Let_def worker_remove_def less_eq_Suc_le split: prod.splits) (metis snd_conv)+
qed (simp add: step_def Let_def)

lemma step_queue_ok:
  assumes "queue_ok (hs_queue s)" "step e n ctx s = (r, s')"
  shows "queue_ok (hs_queue s')"
proof -
  have "accounted e (hs_ops s) (set (queued (hs_queue s))) s" using assms(1) by (simp add: accounted_def arrived_def)
  from accounted_step [OF this assms(2)] show ?thesis by (simp add: accounted_def)
qed

lemma drain_loop_returns:
  assumes c: "calm e K" and "queue_ok (hs_queue s)"
  shows "\<exists>s'. drain_loop e n ctx stalled s = Some s'"
  using assms(2)
proof (induction "(stalled, s)" arbitrary: stalled s
    rule: wf_induct_rule [OF wf_measures [of "[\<lambda>(stalled, s). K - hs_ops s, \<lambda>(stalled, s). length (hs_queue s), \<lambda>(stalled, s). isolationProbes - stalled]"]])
  case (1 stalled s)
  obtain batch progress s1 where st: "step e n ctx s = ((batch, progress), s1)" by (metis prod.collapse)
  have ops: "hs_ops s < hs_ops s1" using step_ops [of s e n ctx] st by simp
  show ?case
  proof (cases "stalled < isolationProbes \<and> \<not> ctx (length (hs_calls s)) \<and> batch \<noteq> []")
    case True
    let ?next = "if progress then 0 else stalled + 1"
    have "((?next, s1), (stalled, s)) \<in> measures [\<lambda>(stalled, s). K - hs_ops s, \<lambda>(stalled, s). length (hs_queue s),
        \<lambda>(stalled, s). isolationProbes - stalled]"
      using ops True step_calm [OF c _ 1(2) st] shrinks_length(1) [OF _ 1(2), of s1]
      by (cases "K \<le> hs_ops s") (auto simp: le_less)
    with 1(1) step_queue_ok [OF 1(2) st] have "\<exists>s'. drain_loop e n ctx ?next s1 = Some s'" by blast
    with True st show ?thesis by (subst drain_loop.simps) simp
  qed (subst drain_loop.simps, auto simp: st)
qed

section \<open>Bad paths\<close>

text \<open>Pushes fail exactly when a bad path is among them, and nothing else fails or arrives.\<close>

definition only_bad_fail :: "hook_env \<Rightarrow> string list \<Rightarrow> bool" where
  "only_bad_fail e bad \<longleftrightarrow> (\<forall>k. he_arrivals e k = [] \<and> (\<forall>opr. \<not> he_fault e opr k)) \<and>
     (\<forall>k paths. case he_push e k paths of
        None \<Rightarrow> set paths \<inter> set bad \<noteq> {}
      | Some up \<Rightarrow> set paths \<inter> set bad = {} \<and>
          (paths \<noteq> [] \<longrightarrow> length paths < length up \<longrightarrow> set paths \<inter> set up \<noteq> {}))"

lemma only_bad_calm: "only_bad_fail e bad \<Longrightarrow> calm e 0"
  by (fastforce simp: only_bad_fail_def calm_def split: option.splits)

lemma only_bad_push:
  assumes "only_bad_fail e bad" "push_call e paths s = (res, s')"
  shows "res = None \<longleftrightarrow> set paths \<inter> set bad \<noteq> {}"
proof -
  have "case he_push e (length (hs_calls s)) paths of None \<Rightarrow> set paths \<inter> set bad \<noteq> {}
    | Some up \<Rightarrow> set paths \<inter> set bad = {} \<and>
        (paths \<noteq> [] \<longrightarrow> length paths < length up \<longrightarrow> set paths \<inter> set up \<noteq> {})"
    using assms(1) unfolding only_bad_fail_def by blast
  then show ?thesis unfolding push_call_frame(4) [OF assms(2)] by (auto split: option.splits)
qed

lemma upload_each_settled: "settled \<noteq> [] \<Longrightarrow> fst (upload_each e batch settled failures s)"
  by (induction e batch settled failures s rule: upload_each.induct) (auto split: prod.splits option.splits)

lemma retry_one:
  assumes "only_bad_fail e bad" "queue_ok (hs_queue s)" "p \<in> set (queued (hs_queue s))"
  shows "queued (hs_queue (worker_retry e [p] s)) = filter (\<lambda>x. x \<noteq> p) (queued (hs_queue s)) @ [p]"
  using assms queued_requeue(2) [OF assms(2), of p]
  by (simp add: worker_retry_def Let_def Retry_def only_bad_fail_def arrive_calm del: set_queued)

lemma card_bad: "distinct ps \<Longrightarrow> set ps \<subseteq> set bad \<Longrightarrow> length ps \<le> length bad"
  by (metis card_length card_mono distinct_card finite_set order_trans)

text \<open>Fewer than \<open>isolationProbes\<close> bad paths do not make the worker give up on a batch.\<close>

lemma upload_each_bad:
  assumes e: "only_bad_fail e bad" and "upload_each e batch [] failures s = (False, s')" "queue_ok (hs_queue s)"
    "set batch \<subseteq> set (queued (hs_queue s))" "distinct batch"
    "failures + card (set batch \<inter> set bad) < isolationProbes"
  shows "set batch \<subseteq> set bad \<and> queued (hs_queue s') = filter (\<lambda>p. p \<notin> set batch) (queued (hs_queue s)) @ batch"
  using assms(2-)
proof (induction batch arbitrary: failures s)
  case (Cons p batch)
  obtain res s1 where p: "push_call e [p] s = (res, s1)" by fastforce
  note f = push_call_frame [OF p]
  show ?case
  proof (cases res)
    case None
    let ?s2 = "worker_retry e [p] s1"
    have bad: "p \<in> set bad" using only_bad_push [OF e p] None by auto
    have q: "queued (hs_queue ?s2) = filter (\<lambda>x. x \<noteq> p) (queued (hs_queue s)) @ [p]"
      using retry_one [OF e, of s1 p] f(1) Cons.prems(2,3) by simp
    have ok: "queue_ok (hs_queue ?s2)" using worker_retry_queue(1) [of s1 e "[p]"] f(1) Cons.prems(2) by simp
    have "upload_each e batch [] (failures + 1) ?s2 = (False, s')"
      using Cons.prems(1,5) p None by (simp split: if_splits)
    moreover have "set batch \<subseteq> set (queued (hs_queue ?s2))" using Cons.prems(3) unfolding q by auto
    moreover have "failures + 1 + card (set batch \<inter> set bad) < isolationProbes"
      using Cons.prems(4,5) bad by simp
    ultimately have "set batch \<subseteq> set bad \<and> queued (hs_queue s') = filter (\<lambda>p. p \<notin> set batch) (queued (hs_queue ?s2)) @ batch"
      using Cons.IH [OF _ ok] Cons.prems(4) by simp
    then show ?thesis unfolding q using bad Cons.prems(4) by (auto intro: filter_cong)
  next
    case (Some up)
    obtain removed s2 where st: "settle e [p] up s1 = (removed, s2)" by fastforce
    have "removed \<noteq> []" using st by (auto simp: settle_def Let_def split: if_splits)
    from upload_each_settled [OF this, of e batch failures s2] Cons.prems(1,5) p Some st show ?thesis
      by (simp split: if_splits)
  qed
qed simp

lemma step_stalled_bad:
  assumes e: "only_bad_fail e bad" and few: "length bad < isolationProbes"
    and st: "step e n ctx s = ((batch, False), s')" and ctx: "\<forall>k. \<not> ctx k" and n: "0 < n"
    and ok: "queue_ok (hs_queue s)"
  obtains existing where "existing \<noteq> []" "set existing \<subseteq> set bad" "set existing \<subseteq> set (take (nat n) (queued (hs_queue s)))"
    "queued (hs_queue s') = filter (\<lambda>p. p \<notin> set (take (nat n) (queued (hs_queue s)))) (queued (hs_queue s)) @ existing"
proof -
  have arr: "hs_queue (arrive e s) = hs_queue s" using e by (simp add: only_bad_fail_def arrive_calm)
  define paths where "paths = take (nat n) (queued (hs_queue s))"
  have fetch: "FetchBatch (he_fault e OpFetch (hs_ops s)) n (hs_queue s) = Inr paths"
    using e n by (simp add: FetchBatch_def paths_def queued_def only_bad_fail_def)
  define gced where "gced = filter (\<lambda>p. \<not> he_stat e (hs_ops s) p) paths"
  define existing where "existing = filter (he_stat e (hs_ops s)) paths"
  define s1 where "s1 = worker_remove e gced (arrive e s)"
  have ne: "existing \<noteq> []" and u: "upload e ctx existing s1 = (False, s')"
    using st unfolding step_def Let_def arr fetch existing_def gced_def s1_def
    by (auto split: if_splits prod.splits)
  have q1: "queued (hs_queue s1) = filter (\<lambda>p. p \<notin> set gced) (queued (hs_queue s))" and ok1: "queue_ok (hs_queue s1)"
    using remove_calm [OF only_bad_calm [OF e], of "arrive e s" gced] ok unfolding arr s1_def shrinks_def by simp_all
  have dist: "distinct existing" "set existing \<subseteq> set paths"
    using distinct_queued [OF ok] by (auto simp: existing_def paths_def intro: distinct_take)
  have sub: "set existing \<subseteq> set (queued (hs_queue s1))"
    using set_take_subset [of "nat n" "queued (hs_queue s)"] unfolding q1 gced_def existing_def paths_def
    by (auto simp del: set_queued)
  obtain res s2 where p: "push_call e existing s1 = (res, s2)" by fastforce
  note f = push_call_frame [OF p]
  have res: "res = None" using u p by (cases res) (auto simp: upload_def)
  have "set existing \<subseteq> set bad \<and> queued (hs_queue s') = filter (\<lambda>p. p \<notin> set existing) (queued (hs_queue s1)) @ existing"
  proof (cases "length existing = 1")
    case True
    then obtain x where x: "existing = [x]" by (metis One_nat_def length_0_conv length_Suc_conv)
    have "x \<in> set bad" using only_bad_push [OF e p] res x by auto
    moreover have "s' = worker_retry e [x] s2" using u p res ctx True by (simp add: upload_def x)
    moreover have "queued (hs_queue (worker_retry e [x] s2)) = filter (\<lambda>y. y \<noteq> x) (queued (hs_queue s1)) @ [x]"
      using retry_one [OF e, of s2 x] f(1) ok1 sub x by simp
    ultimately show ?thesis by (simp add: x)
  next
    case False
    have "card (set existing \<inter> set bad) < isolationProbes"
      using few card_mono [of "set bad" "set existing \<inter> set bad"] card_length [of bad] by simp
    moreover have "upload_each e existing [] 0 s2 = (False, s')" using u p res ctx False by (simp add: upload_def)
    ultimately show ?thesis using upload_each_bad [OF e, of existing 0 s2 s'] f(1) ok1 sub dist(1) by simp
  qed
  moreover have "filter (\<lambda>p. p \<notin> set existing) (queued (hs_queue s1)) = filter (\<lambda>p. p \<notin> set paths) (queued (hs_queue s))"
    unfolding q1 filter_filter by (rule filter_cong) (auto simp: gced_def existing_def)
  ultimately show thesis using that [of existing] ne dist(2) unfolding paths_def by auto
qed

text \<open>Paths that were tried are behind the others, as many as steps made no progress in a row.\<close>

definition tried_behind :: "string list \<Rightarrow> nat \<Rightarrow> hook_state \<Rightarrow> bool" where
  "tried_behind bad stalled s \<longleftrightarrow> queue_ok (hs_queue s) \<and>
     (\<exists>xs ys. queued (hs_queue s) = xs @ ys \<and> set ys \<subseteq> set bad \<and> (set xs \<subseteq> set bad \<or> stalled \<le> length ys))"

lemma tried_behind_stalled:
  assumes inv: "tried_behind bad stalled s" and e: "only_bad_fail e bad" and few: "length bad < isolationProbes"
    and st: "step e n ctx s = ((batch, False), s')" and ctx: "\<forall>k. \<not> ctx k" and n: "0 < n"
  shows "tried_behind bad (stalled + 1) s'"
proof -
  obtain xs ys where q: "queued (hs_queue s) = xs @ ys" "set ys \<subseteq> set bad" "set xs \<subseteq> set bad \<or> stalled \<le> length ys"
    and ok: "queue_ok (hs_queue s)" using inv by (auto simp: tried_behind_def)
  obtain existing where ex: "existing \<noteq> []" "set existing \<subseteq> set bad"
    "queued (hs_queue s') = filter (\<lambda>p. p \<notin> set (take (nat n) (xs @ ys))) (xs @ ys) @ existing"
    using step_stalled_bad [OF e few st ctx n ok] unfolding q(1) by metis
  let ?keep = "\<lambda>zs. filter (\<lambda>p. p \<notin> set (take (nat n) (xs @ ys))) zs"
  have q': "queued (hs_queue s') = ?keep xs @ (?keep ys @ existing)" unfolding ex(3) by simp
  have "set (?keep xs) \<subseteq> set bad \<or> stalled + 1 \<le> length (?keep ys @ existing)"
  proof (cases "length xs \<le> nat n")
    case True
    then show ?thesis by auto
  next
    case False
    have "distinct (xs @ ys)" using distinct_queued [OF ok] q(1) by simp
    then have "?keep ys = ys" using False set_take_subset [of "nat n" xs] by (auto intro!: filter_True)
    with q(3) ex(1) show ?thesis by (cases existing) auto
  qed
  moreover have "set (?keep ys @ existing) \<subseteq> set bad" using q(2) ex(2) by auto
  ultimately show ?thesis unfolding tried_behind_def using q' step_queue_ok [OF ok st] by blast
qed

lemma drain_loop_good:
  assumes "drain_loop e n ctx stalled s = Some s'" and "tried_behind bad stalled s" "stalled \<le> isolationProbes"
    and e: "only_bad_fail e bad" and few: "length bad < isolationProbes" and ctx: "\<forall>k. \<not> ctx k" and n: "0 < n"
  shows "set (queued (hs_queue s')) \<subseteq> set bad"
proof -
  let ?P = "\<lambda>e n ctx stalled s s'. only_bad_fail e bad \<and> (\<forall>k. \<not> ctx k) \<and> 0 < n \<and> tried_behind bad stalled s \<and>
    stalled \<le> isolationProbes \<longrightarrow> set (queued (hs_queue s')) \<subseteq> set bad"
  have "?P e n ctx stalled s s'"
  proof (rule drain_loop.raw_induct [where P = ?P, OF _ assms(1)], intro impI, elim conjE)
    fix loop :: "hook_env \<Rightarrow> int \<Rightarrow> context_done \<Rightarrow> nat \<Rightarrow> hook_state \<Rightarrow> hook_state option"
      and e :: hook_env and n :: int and ctx :: context_done and stalled s s'
    assume IH: "\<And>e n ctx stalled s s'. loop e n ctx stalled s = Some s' \<Longrightarrow> ?P e n ctx stalled s s'"
      and body: "(if stalled < isolationProbes \<and> \<not> ctx (length (hs_calls s))
        then (case step e n ctx s of
                ((batch, progress), s) \<Rightarrow>
                  if batch = [] then Some s else loop e n ctx (if progress then 0 else stalled + 1) s)
        else Some s) = Some s'"
      and e: "only_bad_fail e bad" and ctx: "\<forall>k. \<not> ctx k" and n: "0 < n" and inv: "tried_behind bad stalled s"
      and le: "stalled \<le> isolationProbes"
    obtain batch progress s1 where st: "step e n ctx s = ((batch, progress), s1)" by (metis prod.collapse)
    have ok: "queue_ok (hs_queue s)" using inv by (simp add: tried_behind_def)
    show "set (queued (hs_queue s')) \<subseteq> set bad"
    proof (cases "stalled < isolationProbes")
      case False
      obtain xs ys where q: "queued (hs_queue s) = xs @ ys" "set ys \<subseteq> set bad" "set xs \<subseteq> set bad \<or> stalled \<le> length ys"
        using inv by (auto simp: tried_behind_def)
      have "distinct ys" using distinct_queued [OF ok] q(1) by simp
      from card_bad [OF this q(2)] q False few le body show ?thesis by (auto simp del: set_queued)
    next
      case True
      show ?thesis
      proof (cases "batch = []")
        case True
        have arr: "hs_queue (arrive e s) = hs_queue s" using e by (simp add: only_bad_fail_def arrive_calm)
        have empty: "sort_key qr_rowid q = [] \<longleftrightarrow> q = []" for q by (metis length_0_conv length_sort)
        have "hs_queue s = [] \<and> hs_queue s1 = hs_queue s"
          using st True e n arr by (auto simp: step_def Let_def FetchBatch_def only_bad_fail_def empty split: if_splits prod.splits)
        then show ?thesis
          using body \<open>stalled < isolationProbes\<close> ctx st True by simp
      next
        case False
        have "tried_behind bad (if progress then 0 else stalled + 1) s1"
        proof (cases progress)
          case True
          then show ?thesis using step_queue_ok [OF ok st] by (auto simp: tried_behind_def simp del: set_queued)
             (metis append_Nil2 empty_subsetI list.set(1))
        next
          case prog: False
          then show ?thesis using tried_behind_stalled [OF inv e few _ ctx n] st by simp
        qed
        moreover have "loop e n ctx (if progress then 0 else stalled + 1) s1 = Some s'"
          using body True ctx st False by simp
        moreover have "(if progress then 0 else stalled + 1) \<le> isolationProbes" using True by simp
        ultimately show ?thesis using IH e ctx n by blast
      qed
    qed
  qed
  with assms show ?thesis by blast
qed

section \<open>Properties\<close>

lemma SendPaths_ok:
  assumes "SendPaths c fault t paths (q, st) = (None, q', st')" "queue_ok q"
  shows "queue_ok q' \<and> set (queued q') = set (queued q) \<union> set paths"
  using assms hook_queue.enq_all(1,2) [OF assms(2), of t paths]
  by (auto simp: SendPaths_def handleConn_def queueFunc_def Enqueue_def simp del: set_queued
      split: if_splits option.splits prod.splits queue_error.splits)

text \<open>
  C7: An acknowledged path is not lost. When \<open>SendPaths\<close> reports success, then whatever the daemon does
  afterwards and whichever of its queue operations and pushes fail, each path is still queued, or was part
  of a push that succeeded, or was missing from the disk. The queue holds no path twice and none that was
  not handed in, and the waiting time stays within its bounds.
\<close>
theorem acknowledged_path_kept:
  assumes "SendPaths c fault t paths (q, st) = (None, q', st')" and "queue_ok q"
    and "(run_step e n ctx timeout)\<^sup>*\<^sup>* (Waiting, 0, hook_start q') (ph, b, s)"
  shows "(\<forall>p \<in> set paths. p \<in> set (queued (hs_queue s)) \<or> covered s p \<or> gone e s p) \<and>
    distinct (queued (hs_queue s)) \<and>
    set (queued (hs_queue s)) \<subseteq> set (queued q) \<union> set paths \<union> arrived e 0 (hs_ops s) \<and> 0 \<le> b \<and> b \<le> maxBackoff"
proof -
  note q = SendPaths_ok [OF assms(1,2)]
  have a: "accounted e 0 (set (queued q')) s \<and> 0 \<le> b \<and> b \<le> maxBackoff"
    by (rule run_accounted [OF assms(3)]) (use q in blast)
  then have "distinct (queued (hs_queue s))" using distinct_queued by (simp add: accounted_def)
  with a q show ?thesis unfolding accounted_def by (auto simp del: set_queued)
qed

definition hook_quiet :: "string list \<Rightarrow> hook_env" where
  "hook_quiet bad = \<lparr>he_fault = (\<lambda>opr k. False), he_arrivals = (\<lambda>k. []), he_time = (\<lambda>k. 0), he_stat = (\<lambda>k p. True),
     he_push = (\<lambda>k paths. if list_ex (\<lambda>p. p \<in> set bad) paths then None else Some paths)\<rparr>"

lemma hook_quiet_bad: "only_bad_fail (hook_quiet bad) bad"
  by (auto simp: only_bad_fail_def hook_quiet_def list_ex_iff)

definition idle_stats :: hook_stats where
  "idle_stats = \<lparr>st_received = 0, st_pushed = 0, st_failed = 0, st_lastError = ''''\<rparr>"

definition sent_queue :: queue where
  "sent_queue = fst (snd (SendPaths \<lparr>cn_dials = True, cn_request = True, cn_response = True\<rparr> False 0 [''a'', ''b''] ([], idle_stats)))"

theorem acknowledged_path_kept_witness:
  "\<exists>s. (run_step (hook_quiet [''b'']) 50 (\<lambda>k. False) (\<lambda>k. False))\<^sup>*\<^sup>* (Waiting, 0, hook_start sent_queue) (Working, 0, s) \<and>
     queued (hs_queue s) = [''b''] \<and> (covered s ''a'' \<or> gone (hook_quiet [''b'']) s ''a'')"
proof -
  let ?e = "hook_quiet [''b'']" and ?s = "snd (step (hook_quiet [''b'']) 50 (\<lambda>k. False) (hook_start sent_queue))"
  obtain st where sent: "SendPaths \<lparr>cn_dials = True, cn_request = True, cn_response = True\<rparr> False 0 [''a'', ''b''] ([], idle_stats)
      = (None, sent_queue, st)" unfolding sent_queue_def by (simp add: SendPaths_def handleConn_def queueFunc_def Enqueue_def)
  have "fst (step ?e 50 (\<lambda>k. False) (hook_start sent_queue)) = ([''a'', ''b''], True)" by code_simp
  then have "step ?e 50 (\<lambda>k. False) (hook_start sent_queue) = ((''a'' # [''b''], True), ?s)" by (metis prod.collapse)
  from run_step.more [OF this]
  have run: "(run_step ?e 50 (\<lambda>k. False) (\<lambda>k. False))\<^sup>*\<^sup>* (Waiting, 0, hook_start sent_queue) (Working, 0, ?s)"
    using run_step.woken by (metis (no_types) converse_rtranclp_into_rtranclp r_into_rtranclp)
  have "queue_ok []" by (simp add: queue_ok_def)
  moreover have q: "queued (hs_queue ?s) = [''b'']" by code_simp
  ultimately show ?thesis
    using acknowledged_path_kept [OF sent _ run] run by (intro exI [of _ ?s]) auto
qed



text \<open>
  C23: One bad path only costs itself. If fewer than \<open>isolationProbes\<close> paths make a push fail, and nothing
  else fails, the last pass leaves only them in the queue, in batches of any size and wherever they are
  queued: every other path was uploaded or is gone.
\<close>
theorem drain_uploads_good:
  assumes "only_bad_fail e bad" and "length bad < isolationProbes" and "0 < n" and "queue_ok q"
  shows "\<exists>s'. drain e n (\<lambda>k. False) (hook_start q) = Some s' \<and> set (queued (hs_queue s')) \<subseteq> set bad \<and>
    (\<forall>p \<in> set (queued q) - set bad. covered s' p \<or> gone e s' p)"
proof -
  obtain s' where d: "drain_loop e n (\<lambda>k. False) 0 (hook_start q) = Some s'"
    using drain_loop_returns [OF only_bad_calm [OF assms(1)], of "hook_start q" n "\<lambda>k. False" 0] assms(4)
    by (auto simp: hook_start_def)
  have "tried_behind bad 0 (hook_start q)" using assms(4) by (simp add: tried_behind_def hook_start_def) (metis append_Nil2 empty_subsetI list.set(1))
  from drain_loop_good [OF d this _ assms(1,2) _ assms(3)] have left: "set (queued (hs_queue s')) \<subseteq> set bad" by simp
  have "accounted e 0 (set (queued q)) (hook_start q)" using assms(4) by (simp add: accounted_def arrived_def hook_start_def)
  from accounted_drain_loop [OF d this] left d show ?thesis unfolding accounted_def drain_def by blast
qed

theorem drain_uploads_good_witness:
  "\<exists>s'. drain (hook_quiet [''a'']) 1 (\<lambda>k. False) (hook_start sent_queue) = Some s' \<and> set (queued (hs_queue s')) \<subseteq> {''a''}"
proof -
  have "queue_ok sent_queue" by code_simp
  from drain_uploads_good [OF hook_quiet_bad _ _ this, of "[''a'']" 1] show ?thesis by (auto simp: isolationProbes_def simp del: set_queued)
qed

text \<open>
  A queue that can be read and not written makes the worker spin. If removals fail and pushes succeed,
  every step counts as progress although the queue stays as it is, so \<open>drain\<close> never returns and the same
  batch is pushed again and again without a pause.
\<close>
theorem drain_spins:
  assumes "\<forall>k. he_fault e OpRemove k" and "\<forall>k. \<not> he_fault e OpFetch k" and "\<forall>k paths. he_push e k paths \<noteq> None"
    and "0 < n" and "queue_ok (hs_queue s)" and "hs_queue s \<noteq> []"
  shows "drain e n (\<lambda>k. False) s = None"
proof (rule ccontr)
  let ?P = "\<lambda>(e :: hook_env) (n :: int) (ctx :: context_done) (stalled :: nat) (s :: hook_state) (s' :: hook_state).
    (\<forall>k. he_fault e OpRemove k) \<and> (\<forall>k. \<not> he_fault e OpFetch k) \<and>
    (\<forall>k paths. he_push e k paths \<noteq> None) \<and> 0 < n \<and> (\<forall>k. \<not> ctx k) \<and> stalled = 0 \<and> queue_ok (hs_queue s) \<and>
    hs_queue s \<noteq> [] \<longrightarrow> False"
  assume "drain e n (\<lambda>k. False) s \<noteq> None"
  then obtain s' where d: "drain_loop e n (\<lambda>k. False) 0 s = Some s'" by (auto simp: drain_def)
  have "?P e n (\<lambda>k. False) 0 s s'"
  proof (rule drain_loop.raw_induct [where P = ?P, OF _ d], intro impI, elim conjE)
    fix loop :: "hook_env \<Rightarrow> int \<Rightarrow> context_done \<Rightarrow> nat \<Rightarrow> hook_state \<Rightarrow> hook_state option"
      and e :: hook_env and n :: int and ctx :: context_done and stalled :: nat and s s' :: hook_state
    assume IH: "\<And>e n ctx stalled s s'. loop e n ctx stalled s = Some s' \<Longrightarrow> ?P e n ctx stalled s s'"
      and body: "(if stalled < isolationProbes \<and> \<not> ctx (length (hs_calls s))
        then (case step e n ctx s of
                ((batch, progress), s) \<Rightarrow>
                  if batch = [] then Some s else loop e n ctx (if progress then 0 else stalled + 1) s)
        else Some s) = Some s'"
      and e: "\<forall>k. he_fault e OpRemove k" "\<forall>k. \<not> he_fault e OpFetch k" "\<forall>k paths. he_push e k paths \<noteq> None"
      and n: "0 < n" and ctx: "\<forall>k. \<not> ctx k" and stalled: "stalled = 0" and ok: "queue_ok (hs_queue s)" and ne: "hs_queue s \<noteq> []"
    obtain batch progress s1 where st: "step e n ctx s = ((batch, progress), s1)" by (metis prod.collapse)
    obtain y where y: "y \<in> set (queued (hs_queue s))" using ne by (cases "hs_queue s") auto
    have keep: "set (queued (hs_queue s)) \<subseteq> set (queued (hs_queue (worker_remove e ps s)))" if "queue_ok (hs_queue s)" for ps s
      using worker_remove_queue(2) [OF that, of e ps] arrive_queue(2) [OF that, of e] e(1) by (simp del: set_queued)
    have arr: "queue_ok (hs_queue (arrive e s))" "set (queued (hs_queue s)) \<subseteq> set (queued (hs_queue (arrive e s)))"
      using arrive_queue(1,2) [OF ok, of e] by auto
    let ?paths = "take (nat n) (queued (hs_queue (arrive e s)))"
    have fetch: "FetchBatch (he_fault e OpFetch (hs_ops s)) n (hs_queue (arrive e s)) = Inr ?paths"
      using e(2) n by (simp add: FetchBatch_def queued_def)
    have ne': "?paths \<noteq> []"
    proof -
      have "queued (hs_queue (arrive e s)) \<noteq> []" using y arr(2) by (metis empty_iff list.set(1) subsetD)
      then show ?thesis using n by simp
    qed
    let ?s = "worker_remove e (filter (\<lambda>p. \<not> he_stat e (hs_ops s) p) ?paths) (arrive e s)"
    have s: "queue_ok (hs_queue ?s)" "set (queued (hs_queue s)) \<subseteq> set (queued (hs_queue ?s))"
      using worker_remove_queue(1) [OF arr(1)] keep [OF arr(1)] arr(2) by blast+
    have up: "fst (upload e ctx b t) \<and> set (queued (hs_queue t)) \<subseteq> set (queued (hs_queue (snd (upload e ctx b t))))"
      if "queue_ok (hs_queue t)" for b t
    proof -
      obtain res t1 where p: "push_call e b t = (res, t1)" by fastforce
      note f = push_call_frame [OF p]
      have "res \<noteq> None" using f(4) e(3) by metis
      then obtain up where "res = Some up" by auto
      then show ?thesis using keep [of t1] f(1) that p by (simp add: upload_def settle_def Let_def del: set_queued)
    qed
    have "set (queued (hs_queue s)) \<subseteq> set (queued (hs_queue s1)) \<and> batch \<noteq> [] \<and> progress"
      using st fetch ne' s up [OF s(1), of "filter (he_stat e (hs_ops s)) ?paths"]
      by (auto simp: step_def Let_def simp del: set_queued split: if_splits prod.splits)
    moreover from this have "loop e n ctx 0 s1 = Some s'"
      using body ctx stalled st by (simp add: isolationProbes_def)
    moreover have "hs_queue s1 \<noteq> []" using calculation(1) y by auto
    ultimately show False using IH ctx e n stalled step_queue_ok [OF ok st] by blast
  qed
  with assms show False by simp
qed

definition read_only_disk :: hook_env where
  "read_only_disk = (hook_quiet [])\<lparr>he_fault := (\<lambda>opr k. opr = OpRemove)\<rparr>"

theorem drain_spins_witness: "drain read_only_disk 50 (\<lambda>k. False) (hook_start sent_queue) = None"
proof (rule drain_spins)
  show "queue_ok (hs_queue (hook_start sent_queue))" "hs_queue (hook_start sent_queue) \<noteq> []" by code_simp+
qed (simp_all add: read_only_disk_def hook_quiet_def list_ex_iff)

end
