(* ===== verification/Closures.thy ===== *)
theory Closures
  imports Uploads Nixbase32
begin

text \<open>
  What a client sends for a push: path information (\<open>src/client/nixstore.go\<close>), the closures of the pushed
  paths and the objects for each (\<open>src/client/upload.go\<close>), and the request (\<open>src/client/pending_closure.go\<close>).
  Go maps are association lists, in whatever order a loop goes through them.
\<close>

section \<open>Path information\<close>

record Hash =
  h_algorithm :: string
  h_format :: string
  h_hash :: string

definition Hash_String :: "Hash \<Rightarrow> string" where
  "Hash_String h =
     (if h_hash h = '''' then ''''
      else if contains_str (h_hash h) '':'' \<or> contains_str (h_hash h) ''-'' then h_hash h
      else if h_algorithm h \<noteq> '''' then h_algorithm h @ ''-'' @ h_hash h
      else h_hash h)"

record ContentAddress =
  ca_method :: string
  ca_hash :: Hash
  ca_raw :: string

definition ContentAddress_String :: "ContentAddress \<Rightarrow> string" where
  "ContentAddress_String ca =
     (if ca_raw ca \<noteq> '''' then ca_raw ca
      else if ca_method ca \<noteq> '''' then
        (let hashStr = Hash_String (ca_hash ca);
             nix32Hash = (case ConvertHashToNix32 hashStr of Inl err \<Rightarrow> hashStr | Inr h \<Rightarrow> h) in
         if ca_method ca = ''text'' then ''text:'' @ nix32Hash
         else if ca_method ca = ''flat'' then ''fixed:'' @ nix32Hash
         else if ca_method ca = ''nar'' then ''fixed:r:'' @ nix32Hash
         else if ca_method ca = ''git'' then ''fixed:git:'' @ nix32Hash
         else ca_method ca @ '':'' @ nix32Hash)
      else ca_raw ca)"

record PathInfo =
  pi_Path :: string
  pi_NarHash :: Hash
  pi_NarSize :: u64
  pi_References :: "string list"
  pi_Deriver :: "string option"
  pi_Signatures :: "string list"
  pi_CA :: "ContentAddress option"

type_synonym path_infos = "(string \<times> PathInfo) list"

text \<open>\<open>filepath.Base\<close>: the last element, without trailing slashes.\<close>

definition base_name :: "string \<Rightarrow> string" where
  "base_name path =
     (if path = '''' then ''.''
      else let s = rev (dropWhile (\<lambda>c. c = CHR ''/'') (rev path)) in
           if s = '''' then ''/'' else rev (takeWhile (\<lambda>c. c \<noteq> CHR ''/'') (rev s)))"

datatype client_error = ClientError string

definition GetStorePathHash :: "string \<Rightarrow> client_error + string" where
  "GetStorePathHash storePath =
     (case cut_str (base_name storePath) ''-'' of
        (hash, name, found) \<Rightarrow>
          if \<not> found then Inl (ClientError ''invalid store path format'')
          else if length hash \<noteq> 32 then Inl (ClientError ''invalid hash length'')
          else if \<not> list_all (\<lambda>c. c \<in> set NixBase32Alphabet) hash then Inl (ClientError ''invalid character'')
          else Inr hash)"

definition getNARKey :: "string \<Rightarrow> client_error + string" where
  "getNARKey narHash =
     (case ConvertHashToNix32 narHash of
        Inl err \<Rightarrow> Inl (ClientError ''converting nar hash'')
      | Inr nix32 \<Rightarrow> Inr (''nar/'' @ trim_prefix nix32 ''sha256:'' @ ''.nar.zst''))"

section \<open>Closures\<close>

definition path_refs :: "path_infos \<Rightarrow> string \<Rightarrow> string list" where
  "path_refs infos path = (case map_of infos path of None \<Rightarrow> [] | Some info \<Rightarrow> pi_References info)"

text \<open>The recursive \<open>visit\<close>, with the calls that are still to be made as a list.\<close>

function visit_all :: "path_infos \<Rightarrow> string list \<Rightarrow> string list \<Rightarrow> string list" where
  "visit_all infos [] seen = seen"
| "visit_all infos (path # todo) seen =
     (if path \<in> set seen then visit_all infos todo seen
      else visit_all infos (path_refs infos path @ todo) (path # seen))"
  by pat_completeness auto

text \<open>A path that is visited for the first time leaves fewer known paths to visit, or has no references.\<close>

termination
proof (relation "measures [\<lambda>(infos, todo, r). card (fst ` set infos - set r), \<lambda>(infos, todo, r). length todo]")
  fix infos :: path_infos and path todo and r :: "string list"
  assume new: "path \<notin> set r"
  show "((infos, path_refs infos path @ todo, path # r), infos, path # todo, r)
    \<in> measures [\<lambda>(infos, todo, r). card (fst ` set infos - set r), \<lambda>(infos, todo, r). length todo]"
  proof (cases "path \<in> fst ` set infos")
    case True
    have "fst ` set infos - set (path # r) \<subset> fst ` set infos - set r" using True new by auto
    then have "card (fst ` set infos - set (path # r)) < card (fst ` set infos - set r)"
      by (intro psubset_card_mono) auto
    then show ?thesis by simp
  next
    case False
    then have "path_refs infos path = []" by (simp add: path_refs_def map_of_eq_None_iff [THEN iffD2] split: option.split)
    moreover have "fst ` set infos - set (path # r) = fst ` set infos - set r" using False by auto
    ultimately show ?thesis by simp
  qed
qed auto

definition reachable_from :: "path_infos \<Rightarrow> string \<Rightarrow> string list" where
  "reachable_from infos path = visit_all infos [path] []"

definition computeClosureMembership :: "string list \<Rightarrow> path_infos \<Rightarrow> (string \<times> string list) list" where
  "computeClosureMembership topLevelPaths infos = map (\<lambda>path. (path, reachable_from infos path)) topLevelPaths"

definition members :: "(string \<times> string list) list \<Rightarrow> string \<Rightarrow> string list" where
  "members membership path = (case map_of membership path of None \<Rightarrow> [] | Some paths \<Rightarrow> paths)"

record skippedUploads =
  sk_Paths :: u64
  sk_NarBytes :: u64
  sk_Reasons :: "(string \<times> string) list"

definition oversized :: "path_infos \<Rightarrow> u64 \<Rightarrow> string list \<Rightarrow> string option" where
  "oversized infos maxNarSize paths =
     List.find (\<lambda>path. case map_of infos path of None \<Rightarrow> False | Some info \<Rightarrow> maxNarSize < pi_NarSize info) paths"

text \<open>The reason names the path that is too large; the message around it is left out.\<close>

definition filterOversizedClosures ::
  "string list \<Rightarrow> path_infos \<Rightarrow> u64 \<Rightarrow> string list \<times> path_infos \<times> skippedUploads" where
  "filterOversizedClosures topLevelPaths infos maxNarSize =
     (if maxNarSize = 0 then (topLevelPaths, infos, \<lparr>sk_Paths = 0, sk_NarBytes = 0, sk_Reasons = []\<rparr>)
      else let membership = computeClosureMembership topLevelPaths infos;
               too_big = (\<lambda>topPath. oversized infos maxNarSize (members membership topPath));
               kept = filter (\<lambda>topPath. too_big topPath = None) topLevelPaths;
               reasons = fold (\<lambda>topPath m. case too_big topPath of None \<Rightarrow> m | Some path \<Rightarrow> AList.update topPath path m) topLevelPaths []
           in if length kept = length topLevelPaths
              then (topLevelPaths, infos, \<lparr>sk_Paths = 0, sk_NarBytes = 0, sk_Reasons = []\<rparr>)
              else let keep = (\<lambda>path. list_ex (\<lambda>topPath. path \<in> set (members membership topPath)) kept);
                       pruned = filter (\<lambda>(path, info). keep path) infos;
                       dropped = filter (\<lambda>(path, info). \<not> keep path) infos
                   in (kept, pruned, \<lparr>sk_Paths = of_nat (length dropped),
                                      sk_NarBytes = sum_list (map (\<lambda>(path, info). pi_NarSize info) dropped),
                                      sk_Reasons = reasons\<rparr>))"

section \<open>Objects\<close>

text \<open>
  What \<open>PrepareClosures\<close> asks of the machine: the build log of a derivation, \<open>None\<close> when there is none or
  it cannot be looked up, and the realisations with their keys and output paths.
\<close>

record prepare_env =
  pe_log :: "string \<Rightarrow> string option"
  pe_realisations :: "(string \<times> string) list"

fun ref_keys :: "string list \<Rightarrow> client_error + string list" where
  "ref_keys [] = Inr []"
| "ref_keys (ref # refs) =
     (case GetStorePathHash ref of
        Inl err \<Rightarrow> Inl err
      | Inr hash \<Rightarrow> (case ref_keys refs of Inl err \<Rightarrow> Inl err | Inr keys \<Rightarrow> Inr ((hash @ ''.narinfo'') # keys)))"

definition realisation_keys :: "prepare_env \<Rightarrow> string \<Rightarrow> string list" where
  "realisation_keys pe storePath = map fst (filter (\<lambda>(key, outPath). outPath = storePath) (pe_realisations pe))"

definition log_object :: "prepare_env \<Rightarrow> PathInfo \<Rightarrow> (string \<times> string) option" where
  "log_object pe info =
     (case pi_Deriver info of
        None \<Rightarrow> None
      | Some drvPath \<Rightarrow>
          if drvPath = '''' then None
          else (case pe_log pe drvPath of None \<Rightarrow> None | Some logPath \<Rightarrow> Some (''log/'' @ base_name drvPath, logPath)))"

definition path_objects :: "prepare_env \<Rightarrow> string \<Rightarrow> PathInfo \<Rightarrow> client_error + string \<times> string \<times> objectWithRefs list" where
  "path_objects pe storePath info =
     (case GetStorePathHash storePath of
        Inl err \<Rightarrow> Inl err
      | Inr hash \<Rightarrow>
          (case ref_keys (pi_References info) of
             Inl err \<Rightarrow> Inl err
           | Inr references \<Rightarrow>
               (case getNARKey (Hash_String (pi_NarHash info)) of
                  Inl err \<Rightarrow> Inl err
                | Inr narKey \<Rightarrow>
                    (let lsKey = hash @ ''.ls''; realisationKeys = realisation_keys pe storePath in
                     Inr (hash, narKey,
                       [\<lparr>ow_key = hash @ ''.narinfo'', ow_type = ''narinfo'',
                         ow_refs = references @ [narKey, lsKey] @ realisationKeys, ow_nar_size = None\<rparr>,
                        \<lparr>ow_key = narKey, ow_type = ''nar'', ow_refs = [], ow_nar_size = Some (pi_NarSize info)\<rparr>,
                        \<lparr>ow_key = lsKey, ow_type = ''listing'', ow_refs = [], ow_nar_size = None\<rparr>] @
                       (case log_object pe info of
                          None \<Rightarrow> []
                        | Some (logKey, logPath) \<Rightarrow>
                            [\<lparr>ow_key = logKey, ow_type = ''build_log'', ow_refs = [], ow_nar_size = None\<rparr>]) @
                       map (\<lambda>key. \<lparr>ow_key = key, ow_type = ''realisation'', ow_refs = [], ow_nar_size = None\<rparr>)
                         realisationKeys)))))"

record PrepareClosuresResult =
  pr_Closures :: "(string \<times> objectWithRefs list) list"
  pr_PathInfoByHash :: "(string \<times> PathInfo) list"
  pr_NARKeyToHash :: "(string \<times> string) list"
  pr_LogPathsByKey :: "(string \<times> string) list"

text \<open>The first pass: the objects of every path, and the indexes for the upload.\<close>

fun collect_objects ::
  "prepare_env \<Rightarrow> path_infos \<Rightarrow> (string \<times> objectWithRefs list) list \<Rightarrow> PrepareClosuresResult \<Rightarrow>
   client_error + (string \<times> objectWithRefs list) list \<times> PrepareClosuresResult" where
  "collect_objects pe [] allObjects res = Inr (allObjects, res)"
| "collect_objects pe ((storePath, info) # infos) allObjects res =
     (case path_objects pe storePath info of
        Inl err \<Rightarrow> Inl err
      | Inr (hash, narKey, objs) \<Rightarrow>
          collect_objects pe infos (allObjects @ [(storePath, objs)])
            (res\<lparr>pr_PathInfoByHash := AList.update hash info (pr_PathInfoByHash res),
                 pr_NARKeyToHash := AList.update narKey hash (pr_NARKeyToHash res),
                 pr_LogPathsByKey := (case log_object pe info of
                                        None \<Rightarrow> pr_LogPathsByKey res
                                      | Some (logKey, logPath) \<Rightarrow> AList.update logKey logPath (pr_LogPathsByKey res))\<rparr>))"

text \<open>The third pass: a closure for each root.\<close>

fun collect_closures ::
  "(string \<times> objectWithRefs list) list \<Rightarrow> (string \<times> string list) list \<Rightarrow> string list \<Rightarrow>
   client_error + (string \<times> objectWithRefs list) list" where
  "collect_closures allObjects membership [] = Inr []"
| "collect_closures allObjects membership (topPath # topPaths) =
     (case GetStorePathHash topPath of
        Inl err \<Rightarrow> Inl err
      | Inr hash \<Rightarrow>
          (let objs = concat (map snd (filter (\<lambda>(path, os). path \<in> set (members membership topPath)) allObjects)) in
           case collect_closures allObjects membership topPaths of
             Inl err \<Rightarrow> Inl err
           | Inr cls \<Rightarrow> Inr ((hash @ ''.narinfo'', objs) # cls)))"

definition PrepareClosures :: "prepare_env \<Rightarrow> string list \<Rightarrow> path_infos \<Rightarrow> client_error + PrepareClosuresResult" where
  "PrepareClosures pe topLevelPaths infos =
     (case collect_objects pe infos [] \<lparr>pr_Closures = [], pr_PathInfoByHash = [], pr_NARKeyToHash = [],
                                        pr_LogPathsByKey = []\<rparr> of
        Inl err \<Rightarrow> Inl err
      | Inr (allObjects, res) \<Rightarrow>
          (case collect_closures allObjects (computeClosureMembership topLevelPaths infos) topLevelPaths of
             Inl err \<Rightarrow> Inl err
           | Inr cls \<Rightarrow> Inr (res\<lparr>pr_Closures := cls\<rparr>)))"

section \<open>The request\<close>

fun dedupe :: "string list \<Rightarrow> objectWithRefs list \<Rightarrow> objectWithRefs list" where
  "dedupe seen [] = []"
| "dedupe seen (obj # objs) =
     (if ow_key obj \<in> set seen then dedupe seen objs else obj # dedupe (ow_key obj # seen) objs)"

definition CreatePush :: "(string \<times> objectWithRefs list) list \<Rightarrow> bool \<Rightarrow> createPushRequest" where
  "CreatePush cls verifyS3 =
     \<lparr>cp_roots = map fst cls, cp_objects = dedupe [] (concat (map snd cls)), cp_verify_s3 = verifyS3\<rparr>"

section \<open>What is reachable\<close>

definition ref_rel :: "path_infos \<Rightarrow> (string \<times> string) set" where
  "ref_rel infos = {(p, q). q \<in> set (path_refs infos p)}"

lemma visit_all_sound: "set (visit_all infos todo seen) \<subseteq> set seen \<union> (ref_rel infos)\<^sup>* `` set todo"
proof (induction infos todo seen rule: visit_all.induct)
  case (2 infos path todo seen)
  have "(ref_rel infos)\<^sup>* `` set (path_refs infos path) \<subseteq> (ref_rel infos)\<^sup>* `` {path}"
    by (auto simp: ref_rel_def intro: converse_rtrancl_into_rtrancl)
  with 2 show ?case by (cases "path \<in> set seen") auto
qed simp

lemma visit_all_extends: "set seen \<union> set todo \<subseteq> set (visit_all infos todo seen)"
  by (induction infos todo seen rule: visit_all.induct) auto

lemma visit_all_closed:
  "\<forall>x \<in> set seen. set (path_refs infos x) \<subseteq> set seen \<union> set todo \<Longrightarrow>
   \<forall>x \<in> set (visit_all infos todo seen). set (path_refs infos x) \<subseteq> set (visit_all infos todo seen)"
proof (induction infos todo seen rule: visit_all.induct)
  case (2 infos path todo seen)
  show ?case
  proof (cases "path \<in> set seen")
    case True
    with "2.prems" have "\<forall>x \<in> set seen. set (path_refs infos x) \<subseteq> set seen \<union> set todo" by auto
    from "2.IH"(1) [OF True this] True show ?thesis by simp
  next
    case False
    with "2.prems" have "\<forall>x \<in> set (path # seen). set (path_refs infos x) \<subseteq> set (path # seen) \<union> set (path_refs infos path @ todo)"
      by auto
    from "2.IH"(2) [OF False this] False show ?thesis by simp
  qed
qed simp

lemma visit_all_distinct: "distinct seen \<Longrightarrow> distinct (visit_all infos todo seen)"
  by (induction infos todo seen rule: visit_all.induct) auto

lemma set_reachable_from: "set (reachable_from infos path) = (ref_rel infos)\<^sup>* `` {path}"
proof
  let ?r = "visit_all infos [path] []"
  have closed: "\<forall>x \<in> set ?r. set (path_refs infos x) \<subseteq> set ?r" by (rule visit_all_closed) simp
  have start: "path \<in> set ?r" using visit_all_extends [of "[]" "[path]" infos] by simp
  have "(path, q) \<in> (ref_rel infos)\<^sup>* \<Longrightarrow> q \<in> set ?r" for q
    by (induction rule: rtrancl_induct) (use start closed in \<open>auto simp: ref_rel_def\<close>)
  then show "(ref_rel infos)\<^sup>* `` {path} \<subseteq> set (reachable_from infos path)" by (auto simp: reachable_from_def)
  show "set (reachable_from infos path) \<subseteq> (ref_rel infos)\<^sup>* `` {path}"
    using visit_all_sound [of infos "[path]" "[]"] by (simp add: reachable_from_def)
qed

lemma members_computed:
  "members (computeClosureMembership topPaths infos) t = (if t \<in> set topPaths then reachable_from infos t else [])"
proof -
  have "map_of (map (\<lambda>path. (path, reachable_from infos path)) topPaths) t =
      (if t \<in> set topPaths then Some (reachable_from infos t) else None)"
    by (induction topPaths) auto
  then show ?thesis by (simp add: members_def computeClosureMembership_def)
qed

section \<open>Closures without large paths\<close>

definition has_oversized :: "path_infos \<Rightarrow> u64 \<Rightarrow> string \<Rightarrow> bool" where
  "has_oversized infos maxNarSize t \<longleftrightarrow> maxNarSize \<noteq> 0 \<and>
     (\<exists>p info. (t, p) \<in> (ref_rel infos)\<^sup>* \<and> map_of infos p = Some info \<and> maxNarSize < pi_NarSize info)"

lemma oversized_iff:
  "oversized infos maxNarSize paths = None \<longleftrightarrow>
   (\<forall>p \<in> set paths. \<forall>info. map_of infos p = Some info \<longrightarrow> \<not> maxNarSize < pi_NarSize info)"
  by (auto simp: oversized_def find_None_iff split: option.splits)

lemma too_big_iff:
  "t \<in> set topPaths \<Longrightarrow> maxNarSize \<noteq> 0 \<Longrightarrow>
   oversized infos maxNarSize (members (computeClosureMembership topPaths infos) t) = None \<longleftrightarrow>
   \<not> has_oversized infos maxNarSize t"
  unfolding oversized_iff members_computed has_oversized_def by (simp add: set_reachable_from) blast

text \<open>The result of the filter, with or without closures that were dropped.\<close>

lemma filter_result:
  assumes "filterOversizedClosures topPaths infos maxNarSize = (kept, infos', sk)"
  shows "kept = filter (\<lambda>t. \<not> has_oversized infos maxNarSize t) topPaths"
    and "infos' = (if kept = topPaths then infos
           else filter (\<lambda>(p, info). \<exists>t \<in> set kept. (t, p) \<in> (ref_rel infos)\<^sup>*) infos)"
    and "sk_Paths sk = of_nat (length (filter (\<lambda>(p, info). \<not> (kept = topPaths \<or> (\<exists>t \<in> set kept. (t, p) \<in> (ref_rel infos)\<^sup>*))) infos))"
    and "sk_NarBytes sk = sum_list (map (\<lambda>(p, info). pi_NarSize info)
           (filter (\<lambda>(p, info). \<not> (kept = topPaths \<or> (\<exists>t \<in> set kept. (t, p) \<in> (ref_rel infos)\<^sup>*))) infos))"
proof -
  let ?m = "computeClosureMembership topPaths infos"
  let ?kept = "filter (\<lambda>t. oversized infos maxNarSize (members ?m t) = None) topPaths"
  have kept: "?kept = filter (\<lambda>t. \<not> has_oversized infos maxNarSize t) topPaths" if "maxNarSize \<noteq> 0"
    using too_big_iff [OF _ that] by (rule filter_cong [OF refl])
  have full: "length (filter P topPaths) = length topPaths \<longleftrightarrow> filter P topPaths = topPaths" for P
    using length_filter_less [of _ topPaths P] by (metis filter_id_conv less_irrefl)
  have mem: "list_ex (\<lambda>t. p \<in> set (members ?m t)) ?kept \<longleftrightarrow> (\<exists>t \<in> set ?kept. (t, p) \<in> (ref_rel infos)\<^sup>*)" for p
    by (auto simp: list_ex_iff members_computed set_reachable_from)
  have "kept = filter (\<lambda>t. \<not> has_oversized infos maxNarSize t) topPaths \<and>
    infos' = (if kept = topPaths then infos
           else filter (\<lambda>(p, info). \<exists>t \<in> set kept. (t, p) \<in> (ref_rel infos)\<^sup>*) infos) \<and>
    sk_Paths sk = of_nat (length (filter (\<lambda>(p, info). \<not> (kept = topPaths \<or> (\<exists>t \<in> set kept. (t, p) \<in> (ref_rel infos)\<^sup>*))) infos)) \<and>
    sk_NarBytes sk = sum_list (map (\<lambda>(p, info). pi_NarSize info)
           (filter (\<lambda>(p, info). \<not> (kept = topPaths \<or> (\<exists>t \<in> set kept. (t, p) \<in> (ref_rel infos)\<^sup>*))) infos))"
  proof (cases "maxNarSize = 0")
    case True
    with assms show ?thesis by (auto simp: filterOversizedClosures_def has_oversized_def)
  next
    case False
    show ?thesis
    proof (cases "?kept = topPaths")
      case True
      with assms False have "kept = topPaths" "infos' = infos" "sk_Paths sk = 0" "sk_NarBytes sk = 0"
        by (auto simp: filterOversizedClosures_def Let_def)
      with True kept [OF False] show ?thesis by simp
    next
      case ne: False
      have "kept = ?kept \<and> infos' = filter (\<lambda>(p, info). list_ex (\<lambda>t. p \<in> set (members ?m t)) ?kept) infos \<and>
        sk_Paths sk = of_nat (length (filter (\<lambda>(p, info). \<not> list_ex (\<lambda>t. p \<in> set (members ?m t)) ?kept) infos)) \<and>
        sk_NarBytes sk = sum_list (map (\<lambda>(p, info). pi_NarSize info)
          (filter (\<lambda>(p, info). \<not> list_ex (\<lambda>t. p \<in> set (members ?m t)) ?kept) infos))"
        using assms False ne full [of "\<lambda>t. oversized infos maxNarSize (members ?m t) = None"]
        by (auto simp: filterOversizedClosures_def Let_def)
      then show ?thesis using ne kept [OF False] unfolding mem by auto
    qed
  qed
  then show "kept = filter (\<lambda>t. \<not> has_oversized infos maxNarSize t) topPaths"
    "infos' = (if kept = topPaths then infos
           else filter (\<lambda>(p, info). \<exists>t \<in> set kept. (t, p) \<in> (ref_rel infos)\<^sup>*) infos)"
    "sk_Paths sk = of_nat (length (filter (\<lambda>(p, info). \<not> (kept = topPaths \<or> (\<exists>t \<in> set kept. (t, p) \<in> (ref_rel infos)\<^sup>*))) infos))"
    "sk_NarBytes sk = sum_list (map (\<lambda>(p, info). pi_NarSize info)
           (filter (\<lambda>(p, info). \<not> (kept = topPaths \<or> (\<exists>t \<in> set kept. (t, p) \<in> (ref_rel infos)\<^sup>*))) infos))"
    by blast+
qed

lemma filter_parts:
  "length (filter (\<lambda>x. \<not> P x) xs) + length (filter P xs) = length xs"
  "sum_list (map f (filter (\<lambda>x. \<not> P x) xs)) + sum_list (map f (filter P xs)) = (sum_list (map f xs) :: 'a :: comm_monoid_add)"
  by (induction xs) (auto simp: ac_simps)

lemma filter_keeps_infos:
  assumes "filterOversizedClosures topPaths infos maxNarSize = (kept, infos', sk)"
    and "t \<in> set kept" "(t, p) \<in> (ref_rel infos)\<^sup>*"
  shows "map_of infos' p = map_of infos p"
proof -
  have "map_of (filter (\<lambda>(p, info). Q p) infos) p = (if Q p then map_of infos p else None)" for Q
    by (induction infos) auto
  then show ?thesis using assms(2,3) unfolding filter_result(2) [OF assms(1)] by auto
qed

text \<open>
  Exactly the roots whose closure has a path above the limit are dropped. For a kept root every path it
  reaches keeps its information, and none of them exceeds the limit; the counters and the rest of the
  information add up to what was given.
\<close>
theorem filterOversizedClosures_exact:
  assumes "filterOversizedClosures topPaths infos maxNarSize = (kept, infos', sk)"
  shows "kept = filter (\<lambda>t. \<not> has_oversized infos maxNarSize t) topPaths \<and>
    (\<forall>t \<in> set kept. \<forall>p. (t, p) \<in> (ref_rel infos)\<^sup>* \<longrightarrow> map_of infos' p = map_of infos p \<and>
       (\<forall>info. map_of infos p = Some info \<longrightarrow> maxNarSize = 0 \<or> pi_NarSize info \<le> maxNarSize)) \<and>
    sk_Paths sk + of_nat (length infos') = of_nat (length infos) \<and>
    sk_NarBytes sk + sum_list (map (\<lambda>(p, info). pi_NarSize info) infos') = sum_list (map (\<lambda>(p, info). pi_NarSize info) infos)"
proof -
  note r = filter_result [OF assms]
  let ?P = "\<lambda>(p, info). kept = topPaths \<or> (\<exists>t \<in> set kept. (t, p) \<in> (ref_rel infos)\<^sup>*)"
  have infos': "infos' = filter ?P infos" unfolding r(2) by (auto simp: filter_id_conv)
  have neg: "(\<lambda>(p, info). \<not> (kept = topPaths \<or> (\<exists>t \<in> set kept. (t, p) \<in> (ref_rel infos)\<^sup>*))) = (\<lambda>x :: string \<times> PathInfo. \<not> ?P x)"
    by (auto simp: fun_eq_iff)
  have "map_of infos' p = map_of infos p" if "t \<in> set kept" "(t, p) \<in> (ref_rel infos)\<^sup>*" for t p
    using filter_keeps_infos [OF assms that] .
  moreover have "maxNarSize = 0 \<or> pi_NarSize info \<le> maxNarSize"
    if "t \<in> set kept" "(t, p) \<in> (ref_rel infos)\<^sup>*" "map_of infos p = Some info" for t p info
    using that unfolding r(1) has_oversized_def by (auto simp: not_less)
  moreover have "sk_Paths sk + of_nat (length infos') = of_nat (length infos)"
    unfolding r(3) neg infos' of_nat_add [symmetric] filter_parts(1) ..
  moreover have "sk_NarBytes sk + sum_list (map (\<lambda>(p, info). pi_NarSize info) infos') = sum_list (map (\<lambda>(p, info). pi_NarSize info) infos)"
    unfolding r(4) neg infos' filter_parts(2) ..
  ultimately show ?thesis using r(1) by blast
qed

definition info_example :: "u64 \<Rightarrow> string list \<Rightarrow> PathInfo" where
  "info_example narSize refs = \<lparr>pi_Path = '''', pi_NarHash = \<lparr>h_algorithm = ''sha256'', h_format = ''base64'',
     h_hash = ''AAAAAAAAAAAAAAAAAAAAAAAAAAAAAAAAAAAAAAAAAAA=''\<rparr>, pi_NarSize = narSize, pi_References = refs,
     pi_Deriver = None, pi_Signatures = [], pi_CA = None\<rparr>"

definition infos_example :: path_infos where
  "infos_example = [(''/a'', info_example 1 [''/b'', ''/a'']), (''/b'', info_example 2 []), (''/c'', info_example 9 [''/b''])]"

theorem filterOversizedClosures_exact_witness:
  "\<exists>infos' sk. filterOversizedClosures [''/a'', ''/c''] infos_example 5 = ([''/a''], infos', sk) \<and>
     map_of infos' ''/b'' = Some (info_example 2 []) \<and> sk_NarBytes sk = 9"
proof -
  obtain infos' sk where run: "filterOversizedClosures [''/a'', ''/c''] infos_example 5 = ([''/a''], infos', sk)"
  proof -
    have "fst (filterOversizedClosures [''/a'', ''/c''] infos_example 5) = [''/a'']" by code_simp
    then show thesis using that by (metis prod.collapse)
  qed
  have "(''/a'', ''/b'') \<in> (ref_rel infos_example)\<^sup>*"
    by (rule r_into_rtrancl) (simp add: ref_rel_def path_refs_def infos_example_def info_example_def)
  with filterOversizedClosures_exact [OF run] have "map_of infos' ''/b'' = map_of infos_example ''/b''" by simp
  moreover have "map_of infos_example ''/b'' = Some (info_example 2 [])" by (simp add: infos_example_def)
  moreover have "sk_NarBytes (snd (snd (filterOversizedClosures [''/a'', ''/c''] infos_example 5))) = 9" by code_simp
  ultimately show ?thesis using run by auto
qed

section \<open>What the server accepts\<close>

definition hash_of :: "string \<Rightarrow> string" where
  "hash_of path = (case GetStorePathHash path of Inl err \<Rightarrow> '''' | Inr hash \<Rightarrow> hash)"

definition narinfo_key_of :: "string \<Rightarrow> string" where
  "narinfo_key_of path = hash_of path @ ''.narinfo''"

text \<open>
  What \<open>nix path-info\<close> answers: store paths with SHA-256 hashes of 32 bytes, closed under references.
  The names of derivations and realisations are such that the server takes them as keys.
\<close>

definition infos_ok :: "prepare_env \<Rightarrow> path_infos \<Rightarrow> bool" where
  "infos_ok pe infos \<longleftrightarrow> distinct (map fst infos) \<and>
     (\<forall>(p, info) \<in> set infos. \<not> isl (GetStorePathHash p) \<and> set (pi_References info) \<subseteq> fst ` set infos \<and>
        (\<exists>bs. length bs = 32 \<and> ConvertHashToNix32 (Hash_String (pi_NarHash info)) = Inr (''sha256:'' @ EncodeNixBase32 bs)) \<and>
        (case log_object pe info of None \<Rightarrow> True | Some (key, file) \<Rightarrow> IsValidUploadKey key ''build_log'') \<and>
        (\<forall>key \<in> set (realisation_keys pe p). IsValidUploadKey key ''realisation''))"

lemma GetStorePathHash_ok:
  assumes "\<not> isl (GetStorePathHash p)"
  shows "GetStorePathHash p = Inr (hash_of p)" "length (hash_of p) = 32" "set (hash_of p) \<subseteq> set NixBase32Alphabet"
  using assms by (auto simp: hash_of_def GetStorePathHash_def list_all_iff split: prod.splits if_splits)

lemma alphabet_plain: "c \<in> set NixBase32Alphabet \<Longrightarrow> c \<noteq> CHR ''/'' \<and> c \<noteq> CHR ''.''"
  by (auto simp: NixBase32Alphabet_def)

lemma no_slash_valid:
  assumes "CHR ''/'' \<notin> set k" "k \<noteq> ''''"
  shows "\<not> has_prefix k ''/'' \<and> \<not> has_prefix k ''../'' \<and> \<not> has_suffix k ''/..'' \<and> \<not> contains_str k ''/../''"
proof -
  have "has_suffix k ''/..'' \<Longrightarrow> CHR ''/'' \<in> set k"
    by (metis has_suffix_def in_set_dropD list.set_intros(1))
  then show ?thesis using assms by (auto simp: has_prefix_iff contains_str_iff)
qed

lemma path_keys_valid:
  assumes "length h = 32" "set h \<subseteq> set NixBase32Alphabet"
  shows "IsValidUploadKey (h @ ''.narinfo'') ''narinfo''" "IsValidUploadKey (h @ ''.ls'') ''listing''"
proof -
  have "CHR ''/'' \<notin> set (h @ ''.narinfo'')" "CHR ''/'' \<notin> set (h @ ''.ls'')" using assms(2) alphabet_no_slash by auto
  moreover have "MatchString narinfoRe (h @ ''.narinfo'')" "MatchString lsRe (h @ ''.ls'')"
    using assms unfolding narinfoRe_iff lsRe_iff by blast+
  ultimately show "IsValidUploadKey (h @ ''.narinfo'') ''narinfo''" "IsValidUploadKey (h @ ''.ls'') ''listing''"
    using no_slash_valid [of "h @ ''.narinfo''"] no_slash_valid [of "h @ ''.ls''"]
    by (auto simp: IsValidUploadKey_def simp del: MatchString.simps)
qed

lemma nar_key_valid:
  assumes "length h = 52" "set h \<subseteq> set NixBase32Alphabet"
  shows "IsValidUploadKey (''nar/'' @ h @ ''.nar.zst'') ''nar''"
proof -
  let ?k = "''nar/'' @ h @ ''.nar.zst''"
  have one: "count_list ?k (CHR ''/'') = 1"
    using assms(2) alphabet_no_slash by (auto simp: count_list_append intro!: count_notin)
  have "\<not> contains_str ?k ''/../''"
  proof
    assume "contains_str ?k ''/../''"
    then obtain a b where "?k = a @ ''/../'' @ b" by (auto simp: contains_str_iff)
    then have "count_list ?k (CHR ''/'') = count_list a (CHR ''/'') + 2 + count_list b (CHR ''/'')"
      by (simp add: count_list_append)
    with one show False by simp
  qed
  moreover have "\<not> has_suffix ?k ''/..''"
  proof -
    have "last ?k = CHR ''t''" by simp
    then show ?thesis by (auto simp: has_suffix_def)
  qed
  moreover have "MatchString narRe ?k" using assms unfolding narRe_iff by (intro exI [of _ h] exI [of _ "''.zst''"]) simp
  ultimately show ?thesis by (simp add: IsValidUploadKey_def has_prefix_def del: MatchString.simps)
qed

lemma ref_keys_ok: "\<forall>r \<in> set refs. \<not> isl (GetStorePathHash r) \<Longrightarrow> ref_keys refs = Inr (map narinfo_key_of refs)"
  by (induction refs) (auto simp: narinfo_key_of_def GetStorePathHash_ok(1))

lemma path_objects_ok:
  assumes ok: "infos_ok pe infos" and mem: "(p, info) \<in> set infos"
  shows "\<exists>narKey objs. path_objects pe p info = Inr (hash_of p, narKey, objs) \<and>
    narinfo_key_of p \<in> ow_key ` set objs \<and>
    (\<forall>obj \<in> set objs. IsValidUploadKey (ow_key obj) (ow_type obj) \<and>
       (ow_nar_size obj = None \<or> ow_nar_size obj = Some (pi_NarSize info)) \<and>
       set (ow_refs obj) \<subseteq> ow_key ` set objs \<union> narinfo_key_of ` set (pi_References info))"
proof -
  have all: "\<forall>(p, info) \<in> set infos. \<not> isl (GetStorePathHash p) \<and> set (pi_References info) \<subseteq> fst ` set infos \<and>
        (\<exists>bs. length bs = 32 \<and> ConvertHashToNix32 (Hash_String (pi_NarHash info)) = Inr (''sha256:'' @ EncodeNixBase32 bs)) \<and>
        (case log_object pe info of None \<Rightarrow> True | Some (key, file) \<Rightarrow> IsValidUploadKey key ''build_log'') \<and>
        (\<forall>key \<in> set (realisation_keys pe p). IsValidUploadKey key ''realisation'')"
    using ok by (simp add: infos_ok_def)
  note this_ok = bspec [OF all mem, unfolded prod.case]
  have refs: "\<forall>r \<in> set (pi_References info). \<not> isl (GetStorePathHash r)" using this_ok all by fastforce
  obtain bs where bs: "length bs = 32" "ConvertHashToNix32 (Hash_String (pi_NarHash info)) = Inr (''sha256:'' @ EncodeNixBase32 bs)"
    using this_ok by blast
  let ?nk = "''nar/'' @ EncodeNixBase32 bs @ ''.nar.zst''"
  have nar: "getNARKey (Hash_String (pi_NarHash info)) = Inr ?nk" using bs(2) unfolding getNARKey_def by (simp only: sum.case trim_prefix_append)
  have valid: "IsValidUploadKey ?nk ''nar''" using nar_key_valid [of "EncodeNixBase32 bs"] set_encode [of bs] bs(1) length_encode [of bs] by simp
  note hash = GetStorePathHash_ok [OF conjunct1 [OF this_ok]]
  note keys = path_keys_valid [OF hash(2,3)]
  have log: "case log_object pe info of None \<Rightarrow> True | Some (key, file) \<Rightarrow> IsValidUploadKey key ''build_log''"
    and real: "\<forall>key \<in> set (realisation_keys pe p). IsValidUploadKey key ''realisation''" using this_ok by blast+
  show ?thesis
    using log real valid keys
    by (auto simp: path_objects_def hash(1) ref_keys_ok [OF refs] nar Let_def narinfo_key_of_def image_image split: option.splits)
qed

definition objects_at :: "prepare_env \<Rightarrow> string \<times> PathInfo \<Rightarrow> objectWithRefs list" where
  "objects_at pe x = (case path_objects pe (fst x) (snd x) of Inl err \<Rightarrow> [] | Inr (hash, narKey, objs) \<Rightarrow> objs)"

lemma collect_objects_ok:
  "\<forall>(p, info) \<in> set infos. \<not> isl (path_objects pe p info) \<Longrightarrow>
   \<exists>res'. collect_objects pe infos acc res = Inr (acc @ map (\<lambda>x. (fst x, objects_at pe x)) infos, res')"
proof (induction infos arbitrary: acc res)
  case (Cons x infos)
  obtain p info where x: "x = (p, info)" by fastforce
  with Cons.prems obtain hash narKey objs where o: "path_objects pe p info = Inr (hash, narKey, objs)"
    by (cases "path_objects pe p info") auto
  have "objects_at pe x = objs" by (simp add: objects_at_def x o)
  with Cons.prems Cons.IH [of "acc @ [(p, objs)]"] show ?case by (simp add: x o)
qed simp

lemma collect_closures_ok:
  "\<forall>t \<in> set topPaths. \<not> isl (GetStorePathHash t) \<Longrightarrow>
   collect_closures allObjects membership topPaths =
   Inr (map (\<lambda>t. (narinfo_key_of t, concat (map snd (filter (\<lambda>(path, os). path \<in> set (members membership t)) allObjects)))) topPaths)"
  by (induction topPaths) (auto simp: narinfo_key_of_def GetStorePathHash_ok(1) Let_def)

lemma dedupe_set: "set (dedupe seen objs) \<subseteq> set objs" "ow_key ` set (dedupe seen objs) \<union> set seen = ow_key ` set objs \<union> set seen"
proof -
  show "set (dedupe seen objs) \<subseteq> set objs" by (induction seen objs rule: dedupe.induct) auto
  show "ow_key ` set (dedupe seen objs) \<union> set seen = ow_key ` set objs \<union> set seen"
  proof (induction seen objs rule: dedupe.induct)
    case (2 seen obj objs)
    then show ?case by (cases "ow_key obj \<in> set seen") (simp_all add: insert_absorb)
  qed simp
qed

lemma validateObjects_ok:
  "\<forall>obj \<in> set objs. IsValidUploadKey (ow_key obj) (ow_type obj) \<and>
     (maxNarSize = 0 \<or> ow_nar_size obj = None \<or> (\<exists>n. ow_nar_size obj = Some n \<and> n \<le> maxNarSize)) \<Longrightarrow>
   \<exists>m. validateObjects maxNarSize objs acc = Inr m \<and> fst ` set m = ow_key ` set objs \<union> fst ` set acc"
proof (induction objs arbitrary: acc)
  case (Cons obj objs)
  then have "validateObjects maxNarSize (obj # objs) acc = validateObjects maxNarSize objs (AList.update (ow_key obj) obj acc)"
    by (auto simp: not_less)
  moreover have "fst ` set (AList.update (ow_key obj) obj acc) = insert (ow_key obj) (fst ` set acc)"
    using dom_update [of "ow_key obj" obj acc] by simp
  moreover obtain m where "validateObjects maxNarSize objs (AList.update (ow_key obj) obj acc) = Inr m"
    "fst ` set m = ow_key ` set objs \<union> fst ` set (AList.update (ow_key obj) obj acc)"
    using Cons.prems Cons.IH [of "AList.update (ow_key obj) obj acc"] by auto
  ultimately show ?case by (intro exI [of _ m]) simp
qed simp

lemma check_roots_ok:
  "\<forall>k \<in> set ks. has_suffix k ''.narinfo'' \<and> k \<in> fst ` set m \<Longrightarrow> check_roots ks m = None"
proof (induction ks)
  case (Cons k ks)
  then have "map_of m k \<noteq> None" by (simp add: map_of_eq_None_iff)
  with Cons show ?case by auto
qed simp

lemma same_reach:
  assumes same: "\<forall>p. (t, p) \<in> (ref_rel infos)\<^sup>* \<longrightarrow> map_of infos' p = map_of infos p"
  shows "(t, p) \<in> (ref_rel infos')\<^sup>* \<longleftrightarrow> (t, p) \<in> (ref_rel infos)\<^sup>*"
proof -
  have refs: "path_refs infos' p = path_refs infos p" if "(t, p) \<in> (ref_rel infos)\<^sup>*" for p
    using same that by (simp add: path_refs_def)
  show ?thesis
  proof
    show "(t, p) \<in> (ref_rel infos')\<^sup>* \<Longrightarrow> (t, p) \<in> (ref_rel infos)\<^sup>*"
      by (induction rule: rtrancl_induct) (use refs in \<open>auto simp: ref_rel_def intro: rtrancl_into_rtrancl\<close>)
    show "(t, p) \<in> (ref_rel infos)\<^sup>* \<Longrightarrow> (t, p) \<in> (ref_rel infos')\<^sup>*"
    proof (induction rule: rtrancl_induct)
      case (step y z)
      then have "(y, z) \<in> ref_rel infos'" using refs [of y] by (simp add: ref_rel_def)
      with step show ?case by (simp add: rtrancl_into_rtrancl)
    qed simp
  qed
qed

text \<open>Information that answers for every reference still does when it is pruned to the kept roots.\<close>

lemma pruned_ok:
  assumes ok: "infos_ok pe infos" and f: "filterOversizedClosures topPaths infos maxNarSize = (kept, infos', sk)"
  shows "infos_ok pe infos'" and "set infos' \<subseteq> set infos"
    and "t \<in> set kept \<Longrightarrow> t \<in> fst ` set infos \<Longrightarrow> t \<in> fst ` set infos'"
proof -
  note r = filter_result [OF f]
  let ?P = "\<lambda>p. kept = topPaths \<or> (\<exists>t \<in> set kept. (t, p) \<in> (ref_rel infos)\<^sup>*)"
  have infos': "infos' = filter (\<lambda>(p, info). ?P p) infos" unfolding r(2) by (auto simp: filter_id_conv)
  show "set infos' \<subseteq> set infos" unfolding infos' by auto
  show "t \<in> set kept \<Longrightarrow> t \<in> fst ` set infos \<Longrightarrow> t \<in> fst ` set infos'" unfolding infos' by force
  have dist: "distinct (map fst infos)" using ok by (simp add: infos_ok_def)
  have step: "?P q" if "(p, info) \<in> set infos" "?P p" "q \<in> set (pi_References info)" for p info q
  proof -
    have "path_refs infos p = pi_References info" using that(1) dist by (simp add: path_refs_def)
    with that(3) have "(p, q) \<in> ref_rel infos" by (simp add: ref_rel_def)
    with that(2) show ?thesis by (meson rtrancl_into_rtrancl)
  qed
  show "infos_ok pe infos'"
    unfolding infos_ok_def
  proof (intro conjI ballI, goal_cases)
    case 1
    then show ?case using dist unfolding infos' by (simp add: distinct_map_filter)
  next
    case (2 x)
    obtain p info where x: "x = (p, info)" by fastforce
    have mem: "(p, info) \<in> set infos" "?P p" using 2 unfolding infos' x by auto
    have all: "case (p, info) of (p, info) \<Rightarrow> \<not> isl (GetStorePathHash p) \<and> set (pi_References info) \<subseteq> fst ` set infos \<and>
        (\<exists>bs. length bs = 32 \<and> ConvertHashToNix32 (Hash_String (pi_NarHash info)) = Inr (''sha256:'' @ EncodeNixBase32 bs)) \<and>
        (case log_object pe info of None \<Rightarrow> True | Some (key, file) \<Rightarrow> IsValidUploadKey key ''build_log'') \<and>
        (\<forall>key \<in> set (realisation_keys pe p). IsValidUploadKey key ''realisation'')"
      using ok mem(1) unfolding infos_ok_def by blast
    have "set (pi_References info) \<subseteq> fst ` set infos'"
    proof
      fix q assume q: "q \<in> set (pi_References info)"
      with all have "q \<in> fst ` set infos" by auto
      with step [OF mem q] show "q \<in> fst ` set infos'" unfolding infos' by force
    qed
    with all show ?case unfolding x by simp
  qed
qed

lemma prepared_closures:
  assumes ok: "infos_ok pe infos" and topPaths: "set topPaths \<subseteq> fst ` set infos"
  shows "\<exists>res. PrepareClosures pe topPaths infos = Inr res \<and>
    pr_Closures res = map (\<lambda>t. (narinfo_key_of t,
      concat (map (objects_at pe) (filter (\<lambda>(p, info). (t, p) \<in> (ref_rel infos)\<^sup>*) infos)))) topPaths"
proof -
  have "\<forall>(p, info) \<in> set infos. \<not> isl (path_objects pe p info)" using path_objects_ok [OF ok] by fastforce
  from collect_objects_ok [OF this, of "[]"] obtain res' where
    c: "collect_objects pe infos [] \<lparr>pr_Closures = [], pr_PathInfoByHash = [], pr_NARKeyToHash = [], pr_LogPathsByKey = []\<rparr> =
      Inr (map (\<lambda>x. (fst x, objects_at pe x)) infos, res')" by auto
  have hash: "\<forall>t \<in> set topPaths. \<not> isl (GetStorePathHash t)" using ok topPaths by (fastforce simp: infos_ok_def)
  have objs: "concat (map snd (filter (\<lambda>(path, os). path \<in> set (members (computeClosureMembership topPaths infos) t))
      (map (\<lambda>x. (fst x, objects_at pe x)) infos))) =
    concat (map (objects_at pe) (filter (\<lambda>(p, info). (t, p) \<in> (ref_rel infos)\<^sup>*) infos))" if "t \<in> set topPaths" for t
    using that by (simp add: filter_map comp_def split_def members_computed set_reachable_from)
  show ?thesis
    by (simp add: PrepareClosures_def c collect_closures_ok [OF hash] objs cong: map_cong)
qed

lemma has_suffix_append [simp]: "has_suffix (s @ p) p"
  by (simp add: has_suffix_def)

text \<open>
  The set the recursive walk collects for a root is exactly what the root reaches through references,
  each path once, whatever cycles the references have.
\<close>
theorem computeClosureMembership_reachable:
  "set (members (computeClosureMembership topPaths infos) t) = (if t \<in> set topPaths then {q. (t, q) \<in> (ref_rel infos)\<^sup>*} else {}) \<and>
   distinct (members (computeClosureMembership topPaths infos) t)"
proof -
  have "distinct (reachable_from infos t)" unfolding reachable_from_def by (rule visit_all_distinct) simp
  then show ?thesis by (auto simp: members_computed set_reachable_from)
qed


definition plain_machine :: prepare_env where
  "plain_machine = \<lparr>pe_log = (\<lambda>drv. None), pe_realisations = []\<rparr>"

definition push_infos :: path_infos where
  "push_infos =
     [(''/nix/store/00000000000000000000000000000000-a'', info_example 100 [''/nix/store/11111111111111111111111111111111-b'']),
      (''/nix/store/11111111111111111111111111111111-b'', info_example 200 []),
      (''/nix/store/22222222222222222222222222222222-c'', info_example 900 [''/nix/store/11111111111111111111111111111111-b''])]"

lemma push_infos_ok: "infos_ok plain_machine push_infos"
proof -
  have conv: "ConvertHashToNix32 (Hash_String (pi_NarHash (info_example n refs))) = Inr (''sha256:'' @ EncodeNixBase32 (replicate 32 0))"
    for n refs
  proof -
    have "ConvertHashToNix32 ''sha256-AAAAAAAAAAAAAAAAAAAAAAAAAAAAAAAAAAAAAAAAAAA='' = Inr (''sha256:'' @ EncodeNixBase32 (replicate 32 0))"
      by code_simp
    moreover have "Hash_String (pi_NarHash (info_example n refs)) = ''sha256-AAAAAAAAAAAAAAAAAAAAAAAAAAAAAAAAAAAAAAAAAAA=''"
      by (simp add: Hash_String_def info_example_def has_prefix_def)
    ultimately show ?thesis by (simp only:)
  qed
  have hash: "\<not> isl (GetStorePathHash ''/nix/store/00000000000000000000000000000000-a'')"
    "\<not> isl (GetStorePathHash ''/nix/store/11111111111111111111111111111111-b'')"
    "\<not> isl (GetStorePathHash ''/nix/store/22222222222222222222222222222222-c'')" by code_simp+
  have len: "length (replicate 32 (0 :: 8 word)) = 32" by simp
  have silent: "log_object plain_machine (info_example n refs) = None" "realisation_keys plain_machine p = []" for n refs p
    by (simp_all add: log_object_def info_example_def realisation_keys_def plain_machine_def)
  have refs: "pi_References (info_example n refs) = refs" for n refs by (simp add: info_example_def)
  have all: "\<forall>(p, info) \<in> set push_infos. \<not> isl (GetStorePathHash p) \<and> set (pi_References info) \<subseteq> fst ` set push_infos \<and>
    (\<exists>n refs. info = info_example n refs)"
    using hash by (auto simp: push_infos_def refs)
  show ?thesis
    unfolding infos_ok_def
  proof (intro conjI ballI)
    show "distinct (map fst push_infos)" by (simp add: push_infos_def)
    fix x
    assume "x \<in> set push_infos"
    with all obtain p n refs where x: "x = (p, info_example n refs)" and
      p: "\<not> isl (GetStorePathHash p)" "set (pi_References (info_example n refs)) \<subseteq> fst ` set push_infos" by blast
    show "case x of (p, info) \<Rightarrow> \<not> isl (GetStorePathHash p) \<and> set (pi_References info) \<subseteq> fst ` set push_infos \<and>
        (\<exists>bs. length bs = 32 \<and> ConvertHashToNix32 (Hash_String (pi_NarHash info)) = Inr (''sha256:'' @ EncodeNixBase32 bs)) \<and>
        (case log_object plain_machine info of None \<Rightarrow> True | Some (key, file) \<Rightarrow> IsValidUploadKey key ''build_log'') \<and>
        (\<forall>key \<in> set (realisation_keys plain_machine p). IsValidUploadKey key ''realisation'')"
      using p conv len unfolding x by (auto simp only: prod.case option.case silent list.set simp_thms)
  qed
qed


end
