(* ===== verification/ClientPush.thy ===== *)
theory ClientPush
  imports Closures Narinfo
begin

text \<open>
  A push on the client: \<open>PushPaths\<close> and what it calls in \<open>src/client/upload.go\<close>, the upload of the pending
  objects (\<open>src/client/parallel.go\<close>, \<open>src/client/nar_task.go\<close>, \<open>src/client/metadata_tasks.go\<close>) and the query
  for cached paths (\<open>src/client/present.go\<close>). Tasks that run side by side run one after the other here, in
  the order they are started, and none after one that failed. The answers of the machine, the server and
  S3 are \<open>push_env\<close>; what the client did is a log of events.
\<close>

section \<open>Paths\<close>

fun clean_segments :: "bool \<Rightarrow> string list \<Rightarrow> string list \<Rightarrow> string list" where
  "clean_segments rooted acc [] = rev acc"
| "clean_segments rooted acc (w # ws) =
     (if w = '''' \<or> w = ''.'' then clean_segments rooted acc ws
      else if w = ''..'' then
        (case acc of
           [] \<Rightarrow> clean_segments rooted (if rooted then [] else [w]) ws
         | a # acc' \<Rightarrow> clean_segments rooted (if a = ''..'' then w # acc else acc') ws)
      else clean_segments rooted (w # acc) ws)"

text \<open>\<open>filepath.Clean\<close>, \<open>filepath.Dir\<close> and \<open>filepath.Join\<close> of two elements.\<close>

definition path_clean :: "string \<Rightarrow> string" where
  "path_clean path =
     (let rooted = has_prefix path ''/''; s = join_str ''/'' (clean_segments rooted [] (split_char (CHR ''/'') path)) in
      if rooted then CHR ''/'' # s else if s = '''' then ''.'' else s)"

definition dir_name :: "string \<Rightarrow> string" where
  "dir_name path = path_clean (rev (dropWhile (\<lambda>c. c \<noteq> CHR ''/'') (rev path)))"

definition path_join :: "string \<Rightarrow> string \<Rightarrow> string" where
  "path_join a b = (if a = '''' then (if b = '''' then '''' else path_clean b)
                    else if b = '''' then path_clean a else path_clean (a @ ''/'' @ b))"

datatype link_answer = LinkMissing | NotALink | LinkTo string

text \<open>
  The loop over one path. Its counter never passes the limit inside the loop, so the error for too many
  links is never returned: after 255 links the path is used as it is.
\<close>

fun resolve_link :: "(string \<Rightarrow> link_answer) \<Rightarrow> string \<Rightarrow> nat \<Rightarrow> string \<Rightarrow> client_error + string" where
  "resolve_link readlink storeDirPrefix 0 currentPath = Inr currentPath"
| "resolve_link readlink storeDirPrefix (Suc n) currentPath =
     (if has_prefix currentPath storeDirPrefix then Inr currentPath
      else (case readlink currentPath of
              LinkMissing \<Rightarrow> Inl (ClientError ''path does not exist'')
            | NotALink \<Rightarrow> Inr currentPath
            | LinkTo target \<Rightarrow>
                resolve_link readlink storeDirPrefix n
                  (if has_prefix target ''/'' then target else path_join (dir_name currentPath) target)))"

definition maxSymlinkDepth :: nat where
  "maxSymlinkDepth = 255"

fun resolveSymlinks :: "(string \<Rightarrow> link_answer) \<Rightarrow> string \<Rightarrow> string list \<Rightarrow> client_error + string list" where
  "resolveSymlinks readlink storeDir [] = Inr []"
| "resolveSymlinks readlink storeDir (path # paths) =
     (case resolve_link readlink (storeDir @ ''/'') maxSymlinkDepth path of
        Inl err \<Rightarrow> Inl err
      | Inr p \<Rightarrow> (case resolveSymlinks readlink storeDir paths of Inl err \<Rightarrow> Inl err | Inr ps \<Rightarrow> Inr (p # ps)))"

text \<open>The build log of a derivation: plain or compressed, by what \<open>stat\<close> finds.\<close>

definition GetBuildLogPath :: "(string \<Rightarrow> bool) \<Rightarrow> string \<Rightarrow> client_error + string" where
  "GetBuildLogPath stat drvPath =
     (let drvName = base_name drvPath in
      if drvName = '''' \<or> drvName = ''.'' \<or> drvName = ''/'' then Inl (ClientError ''invalid derivation path'')
      else if length drvName < 2 then Inl (ClientError ''derivation name too short'')
      else let storeParent = dir_name (dir_name drvPath);
               logPath = path_join storeParent (''var/log/nix/drvs/'' @ take 2 drvName @ ''/'' @ drop 2 drvName) in
        if stat logPath then Inr logPath
        else if stat (logPath @ ''.bz2'') then Inr (logPath @ ''.bz2'')
        else Inr '''')"

definition machine_log :: "(string \<Rightarrow> bool) \<Rightarrow> string \<Rightarrow> string option" where
  "machine_log stat drvPath =
     (case GetBuildLogPath stat drvPath of Inl err \<Rightarrow> None | Inr p \<Rightarrow> if p = '''' then None else Some p)"

section \<open>State and environment\<close>

datatype push_event = PutEvent string | SignEvent string | CompleteEvent string

type_synonym pending = "(string \<times> PendingObject) list"

text \<open>How the upload of a NAR ends, and whether its listing was ready before.\<close>

datatype nar_answer = NarUploaded | NarSuperseded bool | NarFailed bool

datatype push_answer = PushFailed | PushStatus nat | PushCreated string pending

record push_env =
  pv_readlink :: "string \<Rightarrow> link_answer"
  pv_store_dir :: string
  pv_present :: "string list \<Rightarrow> string list option"
  pv_path_info :: "string list \<Rightarrow> path_infos option"
  pv_config :: "(u64 \<times> bool) option"
  pv_machine :: prepare_env
  pv_create_push :: "createPushRequest \<Rightarrow> push_answer"
  pv_create_closure :: "string \<Rightarrow> objectWithRefs list \<Rightarrow> (string \<times> pending) option"
  pv_verify_s3 :: bool
  pv_put :: "string \<Rightarrow> bool"
  pv_nar :: "string \<Rightarrow> nar_answer"
  pv_listing :: "string \<Rightarrow> bool"
  pv_compress_log :: "string \<Rightarrow> bool"
  pv_sign :: "string \<Rightarrow> (string \<times> NarinfoMetadata) list \<Rightarrow> (string \<times> string list) list option"
  pv_complete :: "string \<Rightarrow> bool"

record push_state =
  ps_events :: "push_event list"
  ps_signed :: "(string \<times> string list) list"
  ps_skipped :: "(string \<times> string) list"
  ps_narinfos :: "(string \<times> string) list"

definition note_event :: "push_event \<Rightarrow> push_state \<Rightarrow> push_state" where
  "note_event ev s = s\<lparr>ps_events := ps_events s @ [ev]\<rparr>"

definition put_object :: "push_env \<Rightarrow> string \<Rightarrow> push_state \<Rightarrow> client_error option \<times> push_state" where
  "put_object pv key s =
     (if pv_put pv key then (None, note_event (PutEvent key) s) else (Some (ClientError ''uploading''), s))"

section \<open>Uploading pending objects\<close>

definition upload_listing :: "push_env \<Rightarrow> string option \<Rightarrow> push_state \<Rightarrow> client_error option \<times> push_state" where
  "upload_listing pv lsTask s = (case lsTask of None \<Rightarrow> (None, s) | Some key \<Rightarrow> put_object pv key s)"

definition uploadMetadataOnly ::
  "push_env \<Rightarrow> string option \<Rightarrow> PathInfo option \<Rightarrow> push_state \<Rightarrow> client_error option \<times> push_state" where
  "uploadMetadataOnly pv lsTask pathInfo s =
     (case pathInfo of
        None \<Rightarrow> (Some (ClientError ''missing PathInfo for metadata-only upload''), s)
      | Some info \<Rightarrow>
          if \<not> pv_listing pv (pi_Path info) then (Some (ClientError ''generating listing''), s)
          else upload_listing pv lsTask s)"

definition uploadNARWithListing ::
  "push_env \<Rightarrow> string \<Rightarrow> string option \<Rightarrow> PathInfo option \<Rightarrow> push_state \<Rightarrow> client_error option \<times> push_state" where
  "uploadNARWithListing pv narKey lsTask pathInfo s =
     (case pathInfo of
        None \<Rightarrow> (Some (ClientError ''missing PathInfo for NAR''), s)
      | Some info \<Rightarrow>
          (case pv_nar pv narKey of
             NarUploaded \<Rightarrow> upload_listing pv lsTask (note_event (PutEvent narKey) s)
           | NarFailed started \<Rightarrow>
               (Some (ClientError ''uploading NAR''), if started then snd (upload_listing pv lsTask s) else s)
           | NarSuperseded started \<Rightarrow>
               if started then upload_listing pv lsTask s
               else if lsTask \<noteq> None then uploadMetadataOnly pv lsTask (Some info) s
               else (None, s)))"

definition uploadLog :: "push_env \<Rightarrow> (string \<times> string) list \<Rightarrow> string \<Rightarrow> push_state \<Rightarrow> client_error option \<times> push_state" where
  "uploadLog pv logPathsByKey key s =
     (case map_of logPathsByKey key of
        None \<Rightarrow> (None, s)
      | Some logPath \<Rightarrow> if pv_compress_log pv logPath then put_object pv key s else (None, s))"

definition uploadRealisation :: "push_env \<Rightarrow> string \<Rightarrow> push_state \<Rightarrow> client_error option \<times> push_state" where
  "uploadRealisation pv key s =
     (case map_of (pe_realisations (pv_machine pv)) key of None \<Rightarrow> (None, s) | Some r \<Rightarrow> put_object pv key s)"

record hash_entry =
  en_nar :: "string option"
  en_ls :: "string option"
  en_narinfo :: "string option"

definition entry_of :: "(string \<times> hash_entry) list \<Rightarrow> string \<Rightarrow> hash_entry" where
  "entry_of m hash = (case map_of m hash of None \<Rightarrow> \<lparr>en_nar = None, en_ls = None, en_narinfo = None\<rparr> | Some en \<Rightarrow> en)"

record pending_tasks =
  tk_hash :: "(string \<times> hash_entry) list"
  tk_logs :: "string list"
  tk_realisations :: "string list"

definition add_pending ::
  "(string \<times> string) list \<Rightarrow> string \<Rightarrow> string \<Rightarrow> pending_tasks \<Rightarrow> client_error + pending_tasks" where
  "add_pending narKeyToHash key typ t =
     (if typ = ''narinfo'' then
        (let hash = trim_suffix key ''.narinfo'' in
         Inr (t\<lparr>tk_hash := AList.update hash ((entry_of (tk_hash t) hash)\<lparr>en_narinfo := Some key\<rparr>) (tk_hash t)\<rparr>))
      else if typ = ''nar'' then
        (case map_of narKeyToHash key of
           None \<Rightarrow> Inl (ClientError ''NAR key not found in mapping'')
         | Some hash \<Rightarrow> Inr (t\<lparr>tk_hash := AList.update hash ((entry_of (tk_hash t) hash)\<lparr>en_nar := Some key\<rparr>) (tk_hash t)\<rparr>))
      else if typ = ''listing'' then
        (let hash = trim_suffix key ''.ls'' in
         Inr (t\<lparr>tk_hash := AList.update hash ((entry_of (tk_hash t) hash)\<lparr>en_ls := Some key\<rparr>) (tk_hash t)\<rparr>))
      else if typ = ''build_log'' then Inr (t\<lparr>tk_logs := tk_logs t @ [key]\<rparr>)
      else if typ = ''realisation'' then Inr (t\<lparr>tk_realisations := tk_realisations t @ [key]\<rparr>)
      else Inl (ClientError ''unknown object type''))"

fun group_pending :: "(string \<times> string) list \<Rightarrow> pending \<Rightarrow> pending_tasks \<Rightarrow> client_error + pending_tasks" where
  "group_pending narKeyToHash [] t = Inr t"
| "group_pending narKeyToHash ((key, obj) # objs) t =
     (case add_pending narKeyToHash key (po_type obj) t of
        Inl err \<Rightarrow> Inl err
      | Inr t \<Rightarrow> group_pending narKeyToHash objs t)"

fun run_tasks :: "('a \<Rightarrow> push_state \<Rightarrow> client_error option \<times> push_state) \<Rightarrow> 'a list \<Rightarrow> push_state \<Rightarrow>
    client_error option \<times> push_state" where
  "run_tasks task [] s = (None, s)"
| "run_tasks task (x # xs) s =
     (case task x s of (Some err, s) \<Rightarrow> (Some err, s) | (None, s) \<Rightarrow> run_tasks task xs s)"

definition upload_entry ::
  "push_env \<Rightarrow> (string \<times> PathInfo) list \<Rightarrow> string \<times> hash_entry \<Rightarrow> push_state \<Rightarrow> client_error option \<times> push_state" where
  "upload_entry pv pathInfoByHash x s =
     (let pathInfo = map_of pathInfoByHash (fst x) in
      case en_nar (snd x) of
        Some narKey \<Rightarrow> uploadNARWithListing pv narKey (en_ls (snd x)) pathInfo s
      | None \<Rightarrow> if en_narinfo (snd x) \<noteq> None then uploadMetadataOnly pv (en_ls (snd x)) pathInfo s else (None, s))"

definition narinfo_metadata :: "PathInfo \<Rightarrow> client_error + NarinfoMetadata" where
  "narinfo_metadata info =
     (let narHash = (case ConvertHashToNix32 (Hash_String (pi_NarHash info)) of
                       Inl err \<Rightarrow> Hash_String (pi_NarHash info) | Inr h \<Rightarrow> h) in
      case getNARKey (Hash_String (pi_NarHash info)) of
        Inl err \<Rightarrow> Inl err
      | Inr narURL \<Rightarrow>
          Inr \<lparr>StorePath = pi_Path info, NarHash = narHash, NarSize = pi_NarSize info, References = pi_References info,
               nm_URL = narURL, nm_Compression = ''zstd'', nm_Deriver = pi_Deriver info, nm_Signatures = pi_Signatures info,
               nm_CA = (case pi_CA info of None \<Rightarrow> None | Some ca \<Rightarrow> Some (ContentAddress_String ca))\<rparr>)"

fun collect_metadata ::
  "(string \<times> PathInfo) list \<Rightarrow> (string \<times> hash_entry) list \<Rightarrow> client_error + (string \<times> NarinfoMetadata) list" where
  "collect_metadata pathInfoByHash [] = Inr []"
| "collect_metadata pathInfoByHash ((hash, en) # ens) =
     (case (en_narinfo en, map_of pathInfoByHash hash) of
        (Some key, Some info) \<Rightarrow>
          (case narinfo_metadata info of
             Inl err \<Rightarrow> Inl err
           | Inr meta \<Rightarrow>
               (case collect_metadata pathInfoByHash ens of Inl err \<Rightarrow> Inl err | Inr m \<Rightarrow> Inr (AList.update key meta m)))
      | _ \<Rightarrow> collect_metadata pathInfoByHash ens)"

definition UploadPendingObjects ::
  "push_env \<Rightarrow> PrepareClosuresResult \<Rightarrow> pending \<Rightarrow> push_state \<Rightarrow>
   (client_error + (string \<times> NarinfoMetadata) list) \<times> push_state" where
  "UploadPendingObjects pv res objs s =
     (case group_pending (pr_NARKeyToHash res) objs \<lparr>tk_hash = [], tk_logs = [], tk_realisations = []\<rparr> of
        Inl err \<Rightarrow> (Inl err, s)
      | Inr t \<Rightarrow>
          (case run_tasks (uploadLog pv (pr_LogPathsByKey res)) (tk_logs t) s of
             (Some err, s) \<Rightarrow> (Inl err, s)
           | (None, s) \<Rightarrow>
               (case run_tasks (uploadRealisation pv) (tk_realisations t) s of
                  (Some err, s) \<Rightarrow> (Inl err, s)
                | (None, s) \<Rightarrow>
                    (case run_tasks (upload_entry pv (pr_PathInfoByHash res)) (tk_hash t) s of
                       (Some err, s) \<Rightarrow> (Inl err, s)
                     | (None, s) \<Rightarrow> (collect_metadata (pr_PathInfoByHash res) (tk_hash t), s)))))"

section \<open>Pushing paths\<close>

text \<open>The pairs of narinfo key and path \<open>Present\<close> asks for.\<close>

fun present_keys :: "string list \<Rightarrow> client_error + (string \<times> string) list" where
  "present_keys [] = Inr []"
| "present_keys (p # paths) =
     (case GetStorePathHash p of
        Inl err \<Rightarrow> Inl err
      | Inr hash \<Rightarrow> (case present_keys paths of Inl err \<Rightarrow> Inl err | Inr m \<Rightarrow> Inr ((hash @ ''.narinfo'', p) # m)))"

definition Present :: "push_env \<Rightarrow> string list \<Rightarrow> client_error + string list" where
  "Present pv paths =
     (case present_keys paths of
        Inl err \<Rightarrow> Inl err
      | Inr byKey \<Rightarrow>
          (case pv_present pv (map fst byKey) of
             None \<Rightarrow> Inl (ClientError ''querying present paths'')
           | Some keys \<Rightarrow> Inr (map (\<lambda>key. case map_of (rev byKey) key of None \<Rightarrow> '''' | Some p \<Rightarrow> p) keys)))"

definition missing_paths :: "push_env \<Rightarrow> string list \<Rightarrow> string list" where
  "missing_paths pv paths =
     (case Present pv paths of Inl err \<Rightarrow> paths | Inr present \<Rightarrow> filter (\<lambda>p. p \<notin> set present) paths)"

definition all_present :: "push_env \<Rightarrow> string list \<Rightarrow> bool" where
  "all_present pv paths =
     (case Present pv paths of
        Inl err \<Rightarrow> False
      | Inr present \<Rightarrow> present \<noteq> [] \<and> filter (\<lambda>p. p \<notin> set present) paths = [])"

fun create_closures ::
  "push_env \<Rightarrow> (string \<times> objectWithRefs list) list \<Rightarrow> (string \<times> pending) list \<Rightarrow> client_error + (string \<times> pending) list" where
  "create_closures pv [] acc = Inr acc"
| "create_closures pv ((narinfoKey, objs) # cls) acc =
     (case pv_create_closure pv narinfoKey objs of
        None \<Rightarrow> Inl (ClientError ''creating pending closure'')
      | Some (cid, todo) \<Rightarrow> create_closures pv cls (AList.update cid todo acc))"

definition create_each ::
  "push_env \<Rightarrow> (string \<times> objectWithRefs list) list \<Rightarrow> client_error + string \<times> (string \<times> pending) list" where
  "create_each pv cls =
     (case create_closures pv cls [] of Inl err \<Rightarrow> Inl err | Inr ps \<Rightarrow> Inr (''pending_closures'', ps))"

definition createPending ::
  "push_env \<Rightarrow> (string \<times> objectWithRefs list) list \<Rightarrow> client_error + string \<times> (string \<times> pending) list" where
  "createPending pv cls =
     (if (case pv_config pv of None \<Rightarrow> False | Some (maxNarSize, pushes) \<Rightarrow> pushes) then
        (case pv_create_push pv (CreatePush cls (pv_verify_s3 pv)) of
           PushCreated cid todo \<Rightarrow> Inr (''pushes'', [(cid, todo)])
         | PushStatus code \<Rightarrow> if code = 404 \<or> code = 405 then create_each pv cls else Inl (ClientError ''creating push'')
         | PushFailed \<Rightarrow> Inl (ClientError ''creating push''))
      else create_each pv cls)"

definition recordSignatures ::
  "(string \<times> NarinfoMetadata) list \<Rightarrow> (string \<times> string list) list \<Rightarrow> push_state \<Rightarrow> push_state" where
  "recordSignatures narinfos signatures s =
     s\<lparr>ps_signed := fold (\<lambda>(key, sigs) m.
         AList.update (case map_of narinfos key of None \<Rightarrow> '''' | Some meta \<Rightarrow> StorePath meta) sigs m)
       signatures (ps_signed s)\<rparr>"

fun sign_each ::
  "push_env \<Rightarrow> (string \<times> (string \<times> NarinfoMetadata) list) list \<Rightarrow> (string \<times> string list) list \<Rightarrow> push_state \<Rightarrow>
   (client_error + (string \<times> string list) list) \<times> push_state" where
  "sign_each pv [] sigsByKey s = (Inr sigsByKey, s)"
| "sign_each pv ((cid, narinfos) # rest) sigsByKey s =
     (case pv_sign pv cid narinfos of
        None \<Rightarrow> (Inl (ClientError ''signing narinfos''), s)
      | Some sigs \<Rightarrow>
          sign_each pv rest (fold (\<lambda>(key, sg). AList.update key sg) sigs sigsByKey)
            (recordSignatures narinfos sigs (note_event (SignEvent cid) s)))"

text \<open>What is sent for a narinfo is \<open>generateNarinfoContent\<close> of its metadata and signatures.\<close>

definition narinfo_body :: "NarinfoMetadata \<Rightarrow> (string \<times> string list) list \<Rightarrow> string \<Rightarrow> string" where
  "narinfo_body meta sigsByKey key =
     generateNarinfoContent meta (case map_of sigsByKey key of None \<Rightarrow> [] | Some sigs \<Rightarrow> sigs)"

definition put_narinfo ::
  "push_env \<Rightarrow> pending \<Rightarrow> (string \<times> string list) list \<Rightarrow> string \<times> NarinfoMetadata \<Rightarrow> push_state \<Rightarrow>
   client_error option \<times> push_state" where
  "put_narinfo pv objs sigsByKey x s =
     (if (case map_of objs (fst x) of None \<Rightarrow> True | Some obj \<Rightarrow> po_presigned_url obj = '''') then
        (Some (ClientError ''no presigned URL for narinfo''), s)
      else case put_object pv (fst x) s of
             (Some err, s) \<Rightarrow> (Some err, s)
           | (None, s) \<Rightarrow> (None, s\<lparr>ps_narinfos := (fst x, narinfo_body (snd x) sigsByKey (fst x)) # ps_narinfos s\<rparr>))"

definition SignAndUploadNarinfos ::
  "push_env \<Rightarrow> (string \<times> (string \<times> NarinfoMetadata) list) list \<Rightarrow> pending \<Rightarrow> push_state \<Rightarrow>
   client_error option \<times> push_state" where
  "SignAndUploadNarinfos pv narinfosById objs s =
     (let narinfosToSign = concat (map snd narinfosById) in
      if narinfosToSign = [] then (None, s)
      else case sign_each pv narinfosById [] s of
             (Inl err, s) \<Rightarrow> (Some err, s)
           | (Inr sigsByKey, s) \<Rightarrow> run_tasks (put_narinfo pv objs sigsByKey) narinfosToSign s)"

definition complete_one :: "push_env \<Rightarrow> string \<Rightarrow> push_state \<Rightarrow> client_error option \<times> push_state" where
  "complete_one pv cid s =
     (if pv_complete pv cid then (None, note_event (CompleteEvent cid) s)
      else (Some (ClientError ''completing pending closure''), s))"

definition merge_pending :: "(string \<times> pending) list \<Rightarrow> pending" where
  "merge_pending ps = fold (\<lambda>(cid, objs) m. fold (\<lambda>(key, obj). AList.update key obj) objs m) ps []"

definition narinfos_by_id ::
  "(string \<times> NarinfoMetadata) list \<Rightarrow> (string \<times> pending) list \<Rightarrow> (string \<times> (string \<times> NarinfoMetadata) list) list" where
  "narinfos_by_id metas ps = map (\<lambda>(cid, objs). (cid, filter (\<lambda>(key, meta). key \<in> fst ` set objs) metas)) ps"

text \<open>\<open>PushPaths\<close> from \<open>createPending\<close> on.\<close>

definition upload_push ::
  "push_env \<Rightarrow> PrepareClosuresResult \<Rightarrow> (string \<times> pending) list \<Rightarrow> push_state \<Rightarrow> client_error option \<times> push_state" where
  "upload_push pv res ps s =
     (let objs = merge_pending ps in
      case UploadPendingObjects pv res objs s of
        (Inl err, s) \<Rightarrow> (Some err, s)
      | (Inr metas, s) \<Rightarrow>
          (case SignAndUploadNarinfos pv (narinfos_by_id metas ps) objs s of
             (Some err, s) \<Rightarrow> (Some err, s)
           | (None, s) \<Rightarrow> run_tasks (complete_one pv) (map fst ps) s))"

definition note_skipped :: "string list \<Rightarrow> (string \<times> string) list \<Rightarrow> push_state \<Rightarrow> push_state" where
  "note_skipped kept reasons s =
     s\<lparr>ps_skipped := fold (\<lambda>(path, reason). AList.update path reason) reasons
         (filter (\<lambda>(path, reason). path \<notin> set kept) (ps_skipped s))\<rparr>"

definition PushPaths :: "push_env \<Rightarrow> string list \<Rightarrow> push_state \<Rightarrow> (client_error + string list) \<times> push_state" where
  "PushPaths pv paths s =
     (case resolveSymlinks (pv_readlink pv) (pv_store_dir pv) paths of
        Inl err \<Rightarrow> (Inl err, s)
      | Inr resolvedPaths \<Rightarrow>
          (let missing = missing_paths pv resolvedPaths in
           if all_present pv resolvedPaths then (Inr resolvedPaths, s)
           else case pv_path_info pv missing of
             None \<Rightarrow> (Inl (ClientError ''getting path info''), s)
           | Some infos \<Rightarrow>
               (let closurePaths = map fst infos;
                    maxNarSize = (case pv_config pv of None \<Rightarrow> 0 | Some (limit, pushes) \<Rightarrow> limit) in
                case filterOversizedClosures missing infos maxNarSize of
                  (kept, infos, skipped) \<Rightarrow>
                    (let s = note_skipped kept (sk_Reasons skipped) s in
                     if kept = [] then (Inr closurePaths, s)
                     else case PrepareClosures (pv_machine pv) kept infos of
                       Inl err \<Rightarrow> (Inl err, s)
                     | Inr res \<Rightarrow>
                         (case createPending pv (pr_Closures res) of
                            Inl err \<Rightarrow> (Inl err, s)
                          | Inr (route, ps) \<Rightarrow>
                              (case upload_push pv res ps s of
                                 (Some err, s) \<Rightarrow> (Inl err, s)
                               | (None, s) \<Rightarrow> (Inr closurePaths, s)))))))"

section \<open>Grouping\<close>

lemma update_mem: "x \<in> set (AList.update k v m) \<Longrightarrow> x = (k, v) \<or> x \<in> set m"
  by (induction m) (auto split: if_splits)

text \<open>Where an object is filed, by its type, and what is filed there.\<close>

definition filed_under :: "(string \<times> string) list \<Rightarrow> string \<Rightarrow> string \<Rightarrow> string option" where
  "filed_under narKeyToHash key typ =
     (if typ = ''narinfo'' then Some (trim_suffix key ''.narinfo'')
      else if typ = ''nar'' then map_of narKeyToHash key
      else if typ = ''listing'' then Some (trim_suffix key ''.ls'') else None)"

definition filed :: "string \<Rightarrow> hash_entry \<Rightarrow> string option" where
  "filed typ en = (if typ = ''narinfo'' then en_narinfo en else if typ = ''nar'' then en_nar en
                   else if typ = ''listing'' then en_ls en else None)"

lemma filed_simps [simp]:
  "filed ''narinfo'' en = en_narinfo en" "filed ''nar'' en = en_nar en" "filed ''listing'' en = en_ls en"
  by (simp_all add: filed_def)

lemma entry_of_update [simp]: "entry_of (AList.update h' en m) h = (if h = h' then en else entry_of m h)"
  by (simp add: entry_of_def update_conv)

lemma add_pending_filed:
  assumes "add_pending m key typ t = Inr t'"
  shows "filed ty (entry_of (tk_hash t') h) =
    (if typ = ty \<and> filed_under m key typ = Some h then Some key else filed ty (entry_of (tk_hash t) h))"
proof -
  consider "typ = ''narinfo''" | "typ = ''nar''" | "typ = ''listing''" | "typ \<noteq> ''narinfo''" "typ \<noteq> ''nar''" "typ \<noteq> ''listing''"
    by blast
  then show ?thesis
    using assms
    by cases (auto simp: add_pending_def filed_under_def filed_def entry_of_update Let_def split: if_splits option.splits)
qed

lemma add_pending_distinct:
  "add_pending m key typ t = Inr t' \<Longrightarrow> distinct (map fst (tk_hash t)) \<Longrightarrow> distinct (map fst (tk_hash t'))"
  by (auto simp: add_pending_def Let_def distinct_update split: if_splits option.splits)

lemma group_pending_distinct:
  "group_pending m objs t = Inr t' \<Longrightarrow> distinct (map fst (tk_hash t)) \<Longrightarrow> distinct (map fst (tk_hash t'))"
  by (induction m objs t rule: group_pending.induct) (auto split: sum.splits dest: add_pending_distinct)

text \<open>Everything filed was asked for, and an object keeps its place when no other has it.\<close>

lemma group_pending_from:
  assumes "group_pending m objs t = Inr t'" "filed ty (entry_of (tk_hash t') h) = Some key"
    and "filed ty (entry_of (tk_hash t) h) = None"
  shows "\<exists>obj. (key, obj) \<in> set objs \<and> po_type obj = ty \<and> filed_under m key ty = Some h"
proof -
  have "filed ty (entry_of (tk_hash t') h) = Some key \<Longrightarrow> filed ty (entry_of (tk_hash t) h) = Some key \<or>
      (\<exists>obj. (key, obj) \<in> set objs \<and> po_type obj = ty \<and> filed_under m key ty = Some h)"
    using assms(1)
  proof (induction objs arbitrary: t)
    case (Cons x objs)
    obtain k obj where x: "x = (k, obj)" by fastforce
    with Cons.prems(2) obtain t1 where a: "add_pending m k (po_type obj) t = Inr t1" "group_pending m objs t1 = Inr t'"
      by (auto split: sum.splits)
    from Cons.IH [OF Cons.prems(1) a(2)] add_pending_filed [OF a(1), of ty h] show ?case
      by (auto simp: x split: if_splits)
  qed simp
  with assms(2,3) show ?thesis by auto
qed

lemma group_pending_filed:
  assumes "group_pending m objs t = Inr t'" "(key, obj) \<in> set objs" "po_type obj = ty" "filed_under m key ty = Some h"
    and "\<forall>(k, o') \<in> set objs. po_type o' = ty \<longrightarrow> filed_under m k ty = Some h \<longrightarrow> k = key"
  shows "filed ty (entry_of (tk_hash t') h) = Some key"
proof -
  have "(filed ty (entry_of (tk_hash t) h) = Some key \<or> key \<in> fst ` {x \<in> set objs. po_type (snd x) = ty}) \<longrightarrow>
      filed ty (entry_of (tk_hash t') h) = Some key" using assms(1,5)
  proof (induction objs arbitrary: t)
    case (Cons x objs)
    obtain k o' where x: "x = (k, o')" by fastforce
    with Cons.prems(1) obtain t1 where a: "add_pending m k (po_type o') t = Inr t1" "group_pending m objs t1 = Inr t'"
      by (auto split: sum.splits)
    have "\<forall>(k, o') \<in> set objs. po_type o' = ty \<longrightarrow> filed_under m k ty = Some h \<longrightarrow> k = key" using Cons.prems(2) by simp
    from Cons.IH [OF a(2) this] add_pending_filed [OF a(1), of ty h] Cons.prems(2) assms(4) show ?case
      by (auto simp: x split: if_splits)
  qed simp
  moreover have "key \<in> fst ` {x \<in> set objs. po_type (snd x) = ty}" using assms(2,3) by force
  ultimately show ?thesis by blast
qed

section \<open>What a run leaves behind\<close>

text \<open>Two states of one run: the events of the second extend those of the first by puts and signatures.\<close>

definition only_puts :: "push_state \<Rightarrow> push_state \<Rightarrow> bool" where
  "only_puts s s' \<longleftrightarrow> (\<exists>evs. ps_events s' = ps_events s @ evs \<and> (\<forall>cid. CompleteEvent cid \<notin> set evs))"

lemma only_puts_refl [intro]: "ps_events s' = ps_events s \<Longrightarrow> only_puts s s'"
  by (simp add: only_puts_def)

lemma only_puts_trans [trans]: "only_puts s s1 \<Longrightarrow> only_puts s1 s2 \<Longrightarrow> only_puts s s2"
  by (fastforce simp: only_puts_def)

lemma only_puts_mono: "only_puts s s' \<Longrightarrow> ev \<in> set (ps_events s) \<Longrightarrow> ev \<in> set (ps_events s')"
  by (auto simp: only_puts_def)

lemma only_puts_note [simp]: "only_puts s (note_event (PutEvent k) s)" "only_puts s (note_event (SignEvent k) s)"
  by (simp_all add: only_puts_def note_event_def)

lemma put_object_run:
  assumes "put_object pv key s = (r, s')"
  shows "only_puts s s'" and "r = None \<Longrightarrow> PutEvent key \<in> set (ps_events s')"
  using assms by (auto simp: put_object_def note_event_def only_puts_def split: if_splits)

definition growing :: "('a \<Rightarrow> push_state \<Rightarrow> client_error option \<times> push_state) \<Rightarrow> bool" where
  "growing task \<longleftrightarrow> (\<forall>x s r s'. task x s = (r, s') \<longrightarrow> only_puts s s')"

lemma run_tasks_run:
  assumes step: "growing task" and run: "run_tasks task xs s = (r, s')"
  shows "only_puts s s' \<and> (r = None \<longrightarrow> (\<forall>x \<in> set xs. \<exists>s1 s2. task x s1 = (None, s2) \<and> only_puts s2 s'))"
  using run
proof (induction xs arbitrary: s)
  case (Cons x xs)
  obtain r1 s1 where t: "task x s = (r1, s1)" by fastforce
  have first: "only_puts s s1" using step t unfolding growing_def by blast
  show ?case
  proof (cases r1)
    case None
    with Cons.prems t have run: "run_tasks task xs s1 = (r, s')" by simp
    from Cons.IH [OF this] have ih: "only_puts s1 s'"
      "r = None \<Longrightarrow> \<forall>x \<in> set xs. \<exists>s1 s2. task x s1 = (None, s2) \<and> only_puts s2 s'" by blast+
    show ?thesis using only_puts_trans [OF first ih(1)] ih t None by auto
  next
    case (Some err)
    with Cons.prems t first show ?thesis by auto
  qed
qed auto

lemma upload_listing_run:
  assumes "upload_listing pv ls s = (r, s')"
  shows "only_puts s s'" and "r = None \<Longrightarrow> ls = Some key \<Longrightarrow> PutEvent key \<in> set (ps_events s')"
  using assms put_object_run by (auto simp: upload_listing_def split: option.splits)

lemma uploadMetadataOnly_run:
  assumes "uploadMetadataOnly pv ls pathInfo s = (r, s')"
  shows "only_puts s s'" and "r = None \<Longrightarrow> ls = Some key \<Longrightarrow> PutEvent key \<in> set (ps_events s')"
  using assms upload_listing_run by (auto simp: uploadMetadataOnly_def split: option.splits if_splits)

definition nar_superseded :: "push_env \<Rightarrow> string \<Rightarrow> bool" where
  "nar_superseded pv narKey = (case pv_nar pv narKey of NarSuperseded started \<Rightarrow> True | _ \<Rightarrow> False)"

lemma uploadNARWithListing_run:
  assumes "uploadNARWithListing pv narKey ls pathInfo s = (r, s')"
  shows "only_puts s s'"
    and "r = None \<Longrightarrow> PutEvent narKey \<in> set (ps_events s') \<or> nar_superseded pv narKey"
    and "r = None \<Longrightarrow> ls = Some key \<Longrightarrow> PutEvent key \<in> set (ps_events s')"
proof -
  have all: "only_puts s s' \<and> (r = None \<longrightarrow> (PutEvent narKey \<in> set (ps_events s') \<or> nar_superseded pv narKey) \<and>
      (ls = Some key \<longrightarrow> PutEvent key \<in> set (ps_events s')))"
  proof (cases pathInfo)
    case None
    with assms show ?thesis by (auto simp: uploadNARWithListing_def)
  next
    case (Some info)
    show ?thesis
    proof (cases "pv_nar pv narKey")
      case NarUploaded
      let ?s = "note_event (PutEvent narKey) s"
      have u: "upload_listing pv ls ?s = (r, s')" using assms NarUploaded Some by (simp add: uploadNARWithListing_def)
      note l = upload_listing_run [OF u]
      have "PutEvent narKey \<in> set (ps_events s')" by (rule only_puts_mono [OF l(1)]) (simp add: note_event_def)
      moreover have "only_puts s s'" using only_puts_trans [OF only_puts_note(1) l(1)] .
      ultimately show ?thesis using l(2) by blast
    next
      case (NarSuperseded started)
      then have "nar_superseded pv narKey" by (simp add: nar_superseded_def)
      moreover have "only_puts s s' \<and> (r = None \<longrightarrow> ls = Some key \<longrightarrow> PutEvent key \<in> set (ps_events s'))"
        using assms NarSuperseded Some upload_listing_run uploadMetadataOnly_run
        by (auto simp: uploadNARWithListing_def split: if_splits)
      ultimately show ?thesis by blast
    next
      case (NarFailed started)
      obtain r1 s1 where u: "upload_listing pv ls s = (r1, s1)" by fastforce
      with assms NarFailed Some upload_listing_run(1) [OF u] show ?thesis
        by (auto simp: uploadNARWithListing_def split: if_splits)
    qed
  qed
  then show "only_puts s s'" "r = None \<Longrightarrow> PutEvent narKey \<in> set (ps_events s') \<or> nar_superseded pv narKey"
    "r = None \<Longrightarrow> ls = Some key \<Longrightarrow> PutEvent key \<in> set (ps_events s')" by blast+
qed

lemma upload_entry_run:
  assumes "upload_entry pv infos x s = (r, s')"
  shows "only_puts s s'"
    and "r = None \<Longrightarrow> en_nar (snd x) = Some k \<Longrightarrow> PutEvent k \<in> set (ps_events s') \<or> nar_superseded pv k"
    and "r = None \<Longrightarrow> en_ls (snd x) = Some l \<Longrightarrow> en_nar (snd x) \<noteq> None \<or> en_narinfo (snd x) \<noteq> None \<Longrightarrow>
      PutEvent l \<in> set (ps_events s')"
  using assms uploadNARWithListing_run uploadMetadataOnly_run
  by (auto simp: upload_entry_def Let_def split: option.splits if_splits)

lemma growing_tasks:
  "growing (uploadLog pv logs)" "growing (uploadRealisation pv)" "growing (upload_entry pv infos)"
  using put_object_run(1) upload_entry_run(1)
  by (auto simp: growing_def uploadLog_def uploadRealisation_def split: option.splits if_splits)

lemma collect_metadata_keys:
  "collect_metadata infos ens = Inr metas \<Longrightarrow>
   fst ` set metas = {key. \<exists>h en. (h, en) \<in> set ens \<and> en_narinfo en = Some key \<and> map_of infos h \<noteq> None}"
proof (induction ens arbitrary: metas)
  case (Cons x ens)
  obtain h en where x: "x = (h, en)" by fastforce
  show ?case
  proof (cases "en_narinfo en = None \<or> map_of infos h = None")
    case True
    with Cons.prems have "collect_metadata infos ens = Inr metas" by (auto simp: x split: option.splits)
    from Cons.IH [OF this] True show ?thesis by (auto simp: x)
  next
    case False
    then obtain key info where k: "en_narinfo en = Some key" "map_of infos h = Some info" by auto
    with Cons.prems obtain meta m where m: "collect_metadata infos ens = Inr m" "metas = AList.update key meta m"
      by (auto simp: x split: sum.splits)
    from Cons.IH [OF m(1)] k show ?thesis by (auto simp: x m(2) dom_update)
  qed
qed auto

lemma UploadPendingObjects_run:
  assumes run: "UploadPendingObjects pv res objs s = (r, s')"
  shows "only_puts s s'"
    and "r = Inr metas \<Longrightarrow> \<exists>t. group_pending (pr_NARKeyToHash res) objs \<lparr>tk_hash = [], tk_logs = [], tk_realisations = []\<rparr> = Inr t \<and>
      collect_metadata (pr_PathInfoByHash res) (tk_hash t) = Inr metas \<and>
      (\<forall>x \<in> set (tk_hash t).
         (\<forall>k. en_nar (snd x) = Some k \<longrightarrow> PutEvent k \<in> set (ps_events s') \<or> nar_superseded pv k) \<and>
         (\<forall>l. en_ls (snd x) = Some l \<longrightarrow> en_nar (snd x) \<noteq> None \<or> en_narinfo (snd x) \<noteq> None \<longrightarrow> PutEvent l \<in> set (ps_events s')))"
proof -
  let ?g = "group_pending (pr_NARKeyToHash res) objs \<lparr>tk_hash = [], tk_logs = [], tk_realisations = []\<rparr>"
  have both: "only_puts s s' \<and> (r = Inr metas \<longrightarrow> (\<exists>t. ?g = Inr t \<and>
      collect_metadata (pr_PathInfoByHash res) (tk_hash t) = Inr metas \<and>
      (\<forall>x \<in> set (tk_hash t).
         (\<forall>k. en_nar (snd x) = Some k \<longrightarrow> PutEvent k \<in> set (ps_events s') \<or> nar_superseded pv k) \<and>
         (\<forall>l. en_ls (snd x) = Some l \<longrightarrow> en_nar (snd x) \<noteq> None \<or> en_narinfo (snd x) \<noteq> None \<longrightarrow> PutEvent l \<in> set (ps_events s')))))"
  proof (cases ?g)
    case (Inl err)
    with run show ?thesis by (auto simp: UploadPendingObjects_def)
  next
    case (Inr t)
    obtain r1 s1 where a: "run_tasks (uploadLog pv (pr_LogPathsByKey res)) (tk_logs t) s = (r1, s1)" by fastforce
    obtain r2 s2 where b: "run_tasks (uploadRealisation pv) (tk_realisations t) s1 = (r2, s2)" by fastforce
    obtain r3 s3 where c: "run_tasks (upload_entry pv (pr_PathInfoByHash res)) (tk_hash t) s2 = (r3, s3)" by fastforce
    note ra = conjunct1 [OF run_tasks_run [OF growing_tasks(1) a]]
    note rb = conjunct1 [OF run_tasks_run [OF growing_tasks(2) b]]
    note rc = run_tasks_run [OF growing_tasks(3) c]
    note grow = ra only_puts_trans [OF ra rb] only_puts_trans [OF only_puts_trans [OF ra rb] conjunct1 [OF rc]]
    show ?thesis
    proof (cases "r1 = None \<and> r2 = None \<and> r3 = None")
      case False
      with run Inr a b c grow show ?thesis by (auto simp: UploadPendingObjects_def split: option.splits)
    next
      case True
      with run Inr a b c have s': "s' = s3" "r = collect_metadata (pr_PathInfoByHash res) (tk_hash t)"
        by (auto simp: UploadPendingObjects_def)
      have "(\<forall>k. en_nar (snd x) = Some k \<longrightarrow> PutEvent k \<in> set (ps_events s3) \<or> nar_superseded pv k) \<and>
         (\<forall>l. en_ls (snd x) = Some l \<longrightarrow> en_nar (snd x) \<noteq> None \<or> en_narinfo (snd x) \<noteq> None \<longrightarrow> PutEvent l \<in> set (ps_events s3))"
        if "x \<in> set (tk_hash t)" for x
      proof -
        from rc True that obtain sa sb where u: "upload_entry pv (pr_PathInfoByHash res) x sa = (None, sb)" "only_puts sb s3"
          by blast
        show ?thesis using upload_entry_run(2,3) [OF u(1)] only_puts_mono [OF u(2)] by blast
      qed
      with Inr s' grow(3) show ?thesis by auto
    qed
  qed
  then show "only_puts s s'" by blast
  show "r = Inr metas \<Longrightarrow> \<exists>t. ?g = Inr t \<and>
      collect_metadata (pr_PathInfoByHash res) (tk_hash t) = Inr metas \<and>
      (\<forall>x \<in> set (tk_hash t).
         (\<forall>k. en_nar (snd x) = Some k \<longrightarrow> PutEvent k \<in> set (ps_events s') \<or> nar_superseded pv k) \<and>
         (\<forall>l. en_ls (snd x) = Some l \<longrightarrow> en_nar (snd x) \<noteq> None \<or> en_narinfo (snd x) \<noteq> None \<longrightarrow> PutEvent l \<in> set (ps_events s')))"
    using both by blast
qed

section \<open>Signing and completing\<close>

lemma sign_each_run:
  "sign_each pv xs sigs s = (r, s') \<Longrightarrow> only_puts s s'"
proof (induction pv xs sigs s rule: sign_each.induct)
  case (2 pv cid narinfos rest sigs s)
  show ?case
  proof (cases "pv_sign pv cid narinfos")
    case None
    with "2.prems" show ?thesis by auto
  next
    case (Some sg)
    let ?s = "recordSignatures narinfos sg (note_event (SignEvent cid) s)"
    have "only_puts s ?s" by (simp add: only_puts_def recordSignatures_def note_event_def)
    moreover have "only_puts ?s s'" using "2.IH" [OF Some] "2.prems" Some by simp
    ultimately show ?thesis by (rule only_puts_trans)
  qed
qed auto

lemma put_narinfo_run:
  assumes "put_narinfo pv objs sigs x s = (r, s')"
  shows "only_puts s s'" and "r = None \<Longrightarrow> PutEvent (fst x) \<in> set (ps_events s')"
proof -
  obtain r1 s1 where p: "put_object pv (fst x) s = (r1, s1)" by fastforce
  note run = put_object_run [OF p]
  show "only_puts s s'" "r = None \<Longrightarrow> PutEvent (fst x) \<in> set (ps_events s')"
    using assms p run by (auto simp: put_narinfo_def only_puts_def split: option.splits if_splits)
qed

lemma growing_narinfos: "growing (put_narinfo pv objs sigs)"
  using put_narinfo_run(1) by (auto simp: growing_def)

lemma SignAndUploadNarinfos_run:
  assumes "SignAndUploadNarinfos pv byId objs s = (r, s')"
  shows "only_puts s s'"
    and "r = None \<Longrightarrow> (cid, narinfos) \<in> set byId \<Longrightarrow> key \<in> fst ` set narinfos \<Longrightarrow> PutEvent key \<in> set (ps_events s')"
proof -
  have "only_puts s s' \<and> (r = None \<longrightarrow> (\<forall>x \<in> set (concat (map snd byId)). PutEvent (fst x) \<in> set (ps_events s')))"
  proof (cases "concat (map snd byId) = []")
    case True
    with assms have "s' = s" by (simp add: SignAndUploadNarinfos_def)
    with True show ?thesis by auto
  next
    case False
    obtain r1 s1 where a: "sign_each pv byId [] s = (r1, s1)" by fastforce
    note ra = sign_each_run [OF a]
    show ?thesis
    proof (cases r1)
      case (Inl err)
      with assms a False have "r = Some err" "s' = s1"
        by (simp_all add: SignAndUploadNarinfos_def Let_def del: concat_eq_Nil_conv)
      with ra show ?thesis by simp
    next
      case (Inr sigs)
      with assms a False have b: "run_tasks (put_narinfo pv objs sigs) (concat (map snd byId)) s1 = (r, s')"
        by (simp add: SignAndUploadNarinfos_def Let_def del: concat_eq_Nil_conv)
      note rb = run_tasks_run [OF growing_narinfos b]
      have "PutEvent (fst x) \<in> set (ps_events s')" if none: "r = None" and x: "x \<in> set (concat (map snd byId))" for x
      proof -
        from rb none x obtain sa sb where u: "put_narinfo pv objs sigs x sa = (None, sb)" "only_puts sb s'" by blast
        show ?thesis using put_narinfo_run(2) [OF u(1)] only_puts_mono [OF u(2)] by blast
      qed
      with only_puts_trans [OF ra conjunct1 [OF rb]] show ?thesis by blast
    qed
  qed
  then show "only_puts s s'"
    "r = None \<Longrightarrow> (cid, narinfos) \<in> set byId \<Longrightarrow> key \<in> fst ` set narinfos \<Longrightarrow> PutEvent key \<in> set (ps_events s')"
    by fastforce+
qed

lemma complete_run:
  "run_tasks (complete_one pv) cids s = (r, s') \<Longrightarrow>
   \<exists>done. ps_events s' = ps_events s @ map CompleteEvent done \<and> set done \<subseteq> set cids"
proof (induction cids arbitrary: s)
  case Nil
  then show ?case by (intro exI [of _ "[]"]) simp
next
  case (Cons cid cids)
  show ?case
  proof (cases "pv_complete pv cid")
    case True
    with Cons.prems have "run_tasks (complete_one pv) cids (note_event (CompleteEvent cid) s) = (r, s')"
      by (simp add: complete_one_def [of pv cid])
    from Cons.IH [OF this] obtain ds where "ps_events s' = ps_events (note_event (CompleteEvent cid) s) @ map CompleteEvent ds"
      "set ds \<subseteq> set cids" by blast
    then show ?thesis by (intro exI [of _ "cid # ds"]) (auto simp: note_event_def)
  next
    case False
    with Cons.prems show ?thesis by (intro exI [of _ "[]"]) (simp add: complete_one_def)
  qed
qed

lemma merge_pending_mem: "(key, obj) \<in> set (merge_pending ps) \<Longrightarrow> \<exists>cid objs. (cid, objs) \<in> set ps \<and> (key, obj) \<in> set objs"
  and merge_pending_keys: "fst ` set (merge_pending ps) = (\<Union>(cid, objs) \<in> set ps. fst ` set objs)"
proof -
  have upd: "set (fold (\<lambda>(key, obj). AList.update key obj) objs m) \<subseteq> set objs \<union> set m" for objs :: pending and m
  proof (induction objs arbitrary: m)
    case (Cons x objs)
    with update_mem show ?case by (cases x) fastforce
  qed simp
  have updk: "fst ` set (fold (\<lambda>(key, obj). AList.update key obj) objs m) = fst ` set objs \<union> fst ` set m" for objs :: pending and m
  proof (induction objs arbitrary: m)
    case (Cons x objs)
    then show ?case by (cases x) (simp add: dom_update)
  qed simp
  let ?f = "\<lambda>(cid :: string, objs) m. fold (\<lambda>(key, obj). AList.update key obj) objs m :: pending"
  have "(key, obj) \<in> set (fold ?f ps m) \<Longrightarrow> (key, obj) \<in> set m \<or> (\<exists>cid objs. (cid, objs) \<in> set ps \<and> (key, obj) \<in> set objs)" for m
  proof (induction ps arbitrary: m)
    case (Cons x ps)
    obtain cid objs where x: "x = (cid, objs)" by fastforce
    from Cons.IH [of "?f x m"] Cons.prems upd [of objs m] show ?case by (auto simp: x)
  qed simp
  then show "(key, obj) \<in> set (merge_pending ps) \<Longrightarrow> \<exists>cid objs. (cid, objs) \<in> set ps \<and> (key, obj) \<in> set objs"
    by (fastforce simp: merge_pending_def)
  have "fst ` set (fold ?f ps m) = (\<Union>(cid, objs) \<in> set ps. fst ` set objs) \<union> fst ` set m" for m
  proof (induction ps arbitrary: m)
    case (Cons x ps)
    then show ?case by (cases x) (simp add: updk Un_ac)
  qed simp
  then show "fst ` set (merge_pending ps) = (\<Union>(cid, objs) \<in> set ps. fst ` set objs)" by (simp add: merge_pending_def)
qed

section \<open>Commits\<close>

text \<open>What the pending objects and the indexes of a push have in common.\<close>

definition index_ok :: "PrepareClosuresResult \<Rightarrow> pending \<Rightarrow> bool" where
  "index_ok res objs \<longleftrightarrow>
     (\<forall>(key, obj) \<in> set objs.
        (po_type obj = ''narinfo'' \<longrightarrow> (\<exists>h info. key = h @ ''.narinfo'' \<and> map_of (pr_PathInfoByHash res) h = Some info)) \<and>
        (po_type obj = ''nar'' \<longrightarrow> (\<exists>h. map_of (pr_NARKeyToHash res) key = Some h \<and>
           (\<forall>(k, o') \<in> set objs. po_type o' = ''nar'' \<longrightarrow> map_of (pr_NARKeyToHash res) k = Some h \<longrightarrow> k = key))) \<and>
        (po_type obj = ''listing'' \<longrightarrow> (\<exists>h. key = h @ ''.ls'')))"

lemma index_ok_filed:
  assumes ok: "index_ok res objs" and g: "group_pending (pr_NARKeyToHash res) objs t = Inr t'" and mem: "(key, obj) \<in> set objs"
    and ty: "po_type obj \<in> {''narinfo'', ''nar'', ''listing''}"
  shows "\<exists>h. filed_under (pr_NARKeyToHash res) key (po_type obj) = Some h \<and> filed (po_type obj) (entry_of (tk_hash t') h) = Some key"
proof -
  let ?under = "\<lambda>k. filed_under (pr_NARKeyToHash res) k (po_type obj)"
  have o1: "\<forall>(k, o') \<in> set objs.
        (po_type o' = ''narinfo'' \<longrightarrow> (\<exists>h info. k = h @ ''.narinfo'' \<and> map_of (pr_PathInfoByHash res) h = Some info)) \<and>
        (po_type o' = ''listing'' \<longrightarrow> (\<exists>h. k = h @ ''.ls''))"
    using ok unfolding index_ok_def by blast
  have "\<exists>h. ?under key = Some h \<and> (\<forall>(k, o') \<in> set objs. po_type o' = po_type obj \<longrightarrow> ?under k = Some h \<longrightarrow> k = key)"
  proof (cases "po_type obj = ''nar''")
    case True
    from ok mem True obtain h where "map_of (pr_NARKeyToHash res) key = Some h"
      "\<forall>(k, o') \<in> set objs. po_type o' = ''nar'' \<longrightarrow> map_of (pr_NARKeyToHash res) k = Some h \<longrightarrow> k = key"
      unfolding index_ok_def by blast
    then show ?thesis by (intro exI [of _ h]) (simp add: filed_under_def True)
  next
    case False
    then consider "po_type obj = ''narinfo''" | "po_type obj = ''listing''" using ty by blast
    then show ?thesis
    proof cases
      case 1
      have suf: "\<exists>h. k = h @ ''.narinfo''" if "(k, o') \<in> set objs" "po_type o' = ''narinfo''" for k o' using o1 that by blast
      have "k = key" if "(k, o') \<in> set objs" "po_type o' = ''narinfo''" "trim_suffix k ''.narinfo'' = trim_suffix key ''.narinfo''" for k o'
        using suf [OF that(1,2)] suf [OF mem 1] that(3) by auto
      then show ?thesis by (intro exI [of _ "trim_suffix key ''.narinfo''"]) (auto simp: filed_under_def 1)
    next
      case 2
      have suf: "\<exists>h. k = h @ ''.ls''" if "(k, o') \<in> set objs" "po_type o' = ''listing''" for k o' using o1 that by blast
      have "k = key" if "(k, o') \<in> set objs" "po_type o' = ''listing''" "trim_suffix k ''.ls'' = trim_suffix key ''.ls''" for k o'
        using suf [OF that(1,2)] suf [OF mem 2] that(3) by auto
      then show ?thesis by (intro exI [of _ "trim_suffix key ''.ls''"]) (auto simp: filed_under_def 2)
    qed
  qed
  then obtain h where h: "?under key = Some h" "\<forall>(k, o') \<in> set objs. po_type o' = po_type obj \<longrightarrow> ?under k = Some h \<longrightarrow> k = key"
    by blast
  from group_pending_filed [OF g mem refl h] h(1) show ?thesis by blast
qed

lemma entry_of_mem:
  assumes "filed ty (entry_of m h) = Some key"
  shows "(h, entry_of m h) \<in> set m"
proof (cases "map_of m h")
  case None
  with assms show ?thesis by (simp add: entry_of_def filed_def split: if_splits)
next
  case (Some en)
  then show ?thesis by (simp add: entry_of_def map_of_SomeD)
qed

lemma UploadPendingObjects_complete:
  assumes run: "UploadPendingObjects pv res objs s = (Inr metas, s')" and ok: "index_ok res objs" and mem: "(key, obj) \<in> set objs"
  shows "po_type obj = ''nar'' \<Longrightarrow> PutEvent key \<in> set (ps_events s') \<or> nar_superseded pv key"
    and "po_type obj = ''narinfo'' \<Longrightarrow> key \<in> fst ` set metas"
    and "po_type obj = ''listing'' \<Longrightarrow> key = h @ ''.ls'' \<Longrightarrow> (h @ ''.narinfo'', narinfo) \<in> set objs \<Longrightarrow>
      po_type narinfo = ''narinfo'' \<Longrightarrow> PutEvent key \<in> set (ps_events s')"
proof -
  obtain t where g: "group_pending (pr_NARKeyToHash res) objs \<lparr>tk_hash = [], tk_logs = [], tk_realisations = []\<rparr> = Inr t"
    and c: "collect_metadata (pr_PathInfoByHash res) (tk_hash t) = Inr metas"
    and up: "\<And>x k. x \<in> set (tk_hash t) \<Longrightarrow> en_nar (snd x) = Some k \<Longrightarrow> PutEvent k \<in> set (ps_events s') \<or> nar_superseded pv k"
      "\<And>x l. x \<in> set (tk_hash t) \<Longrightarrow> en_ls (snd x) = Some l \<Longrightarrow> en_nar (snd x) \<noteq> None \<or> en_narinfo (snd x) \<noteq> None \<Longrightarrow>
        PutEvent l \<in> set (ps_events s')"
    using UploadPendingObjects_run(2) [OF run refl] by blast
  note fil = index_ok_filed [OF ok g]
  show "PutEvent key \<in> set (ps_events s') \<or> nar_superseded pv key" if ty: "po_type obj = ''nar''"
  proof -
    from fil [OF mem] ty obtain h where "filed ''nar'' (entry_of (tk_hash t) h) = Some key" by auto
    with up(1) [OF entry_of_mem [OF this]] show ?thesis by simp
  qed
  show "key \<in> fst ` set metas" if ty: "po_type obj = ''narinfo''"
  proof -
    from fil [OF mem] ty obtain h where h: "filed ''narinfo'' (entry_of (tk_hash t) h) = Some key"
      "filed_under (pr_NARKeyToHash res) key ''narinfo'' = Some h" by auto
    from bspec [OF ok [unfolded index_ok_def] mem] ty
    obtain h' info where "key = h' @ ''.narinfo''" "map_of (pr_PathInfoByHash res) h' = Some info" by auto
    with h(2) have "map_of (pr_PathInfoByHash res) h \<noteq> None" by (simp add: filed_under_def)
    with entry_of_mem [OF h(1)] h(1) show ?thesis unfolding collect_metadata_keys [OF c] by auto
  qed
  show "PutEvent key \<in> set (ps_events s')"
    if ty: "po_type obj = ''listing''" "key = h @ ''.ls''" "(h @ ''.narinfo'', narinfo) \<in> set objs" "po_type narinfo = ''narinfo''"
  proof -
    have under: "filed_under m (h @ ''.ls'') ''listing'' = Some h" "filed_under m (h @ ''.narinfo'') ''narinfo'' = Some h" for m
      by (simp_all add: filed_under_def)
    from fil [OF mem] ty(1,2) have l: "filed ''listing'' (entry_of (tk_hash t) h) = Some key" by (simp add: under)
    from fil [OF ty(3)] ty(4) have n: "filed ''narinfo'' (entry_of (tk_hash t) h) = Some (h @ ''.narinfo'')" by (simp add: under)
    from up(2) [OF entry_of_mem [OF l]] l n show ?thesis by simp
  qed
qed

lemma narinfos_by_id_mem:
  "(cid, objs) \<in> set ps \<Longrightarrow> key \<in> fst ` set objs \<Longrightarrow> key \<in> fst ` set metas \<Longrightarrow>
   \<exists>narinfos. (cid, narinfos) \<in> set (narinfos_by_id metas ps) \<and> key \<in> fst ` set narinfos"
  unfolding narinfos_by_id_def by (intro exI [of _ "filter (\<lambda>(key, meta). key \<in> fst ` set objs) metas"]) (auto, force)

text \<open>Types of keys are the same in every answer.\<close>

definition consistent :: "(string \<times> pending) list \<Rightarrow> bool" where
  "consistent ps \<longleftrightarrow> (\<forall>key o1 o2. (\<exists>c objs. (c, objs) \<in> set ps \<and> (key, o1) \<in> set objs) \<longrightarrow>
     (\<exists>c objs. (c, objs) \<in> set ps \<and> (key, o2) \<in> set objs) \<longrightarrow> po_type o1 = po_type o2)"

lemma upload_push_commits:
  assumes ok: "index_ok res (merge_pending ps)" and cons: "consistent ps"
    and run: "upload_push pv res ps s = (r, s')" and s: "ps_events s = []" and s': "ps_events s' = pre @ CompleteEvent cid # post"
  shows "cid \<in> fst ` set ps \<and> (\<forall>(c, objs) \<in> set ps. \<forall>(key, obj) \<in> set objs.
     (po_type obj = ''nar'' \<longrightarrow> PutEvent key \<in> set pre \<or> nar_superseded pv key) \<and>
     (po_type obj = ''narinfo'' \<longrightarrow> PutEvent key \<in> set pre) \<and>
     (po_type obj = ''listing'' \<longrightarrow> (\<forall>h narinfo. key = h @ ''.ls'' \<longrightarrow> (h @ ''.narinfo'', narinfo) \<in> set objs \<longrightarrow>
        po_type narinfo = ''narinfo'' \<longrightarrow> PutEvent key \<in> set pre)))"
proof -
  let ?m = "merge_pending ps"
  obtain r1 s1 where a: "UploadPendingObjects pv res ?m s = (r1, s1)" by fastforce
  note ga = UploadPendingObjects_run(1) [OF a]
  have no_commit: "only_puts s s2 \<Longrightarrow> ps_events s2 \<noteq> pre @ CompleteEvent cid # post" for s2
    using s unfolding only_puts_def by (metis append_Nil in_set_conv_decomp)
  obtain metas where r1: "r1 = Inr metas"
    using run a no_commit [OF ga] s' by (cases r1) (auto simp: upload_push_def Let_def)
  obtain r2 s2 where b: "SignAndUploadNarinfos pv (narinfos_by_id metas ps) ?m s1 = (r2, s2)" by fastforce
  note gb = SignAndUploadNarinfos_run(1) [OF b]
  have r2: "r2 = None"
    using run a b r1 no_commit [OF only_puts_trans [OF ga gb]] s' by (cases r2) (auto simp: upload_push_def Let_def)
  have c: "run_tasks (complete_one pv) (map fst ps) s2 = (r, s')" using run a b r1 r2 by (simp add: upload_push_def Let_def)
  from complete_run [OF c] obtain ds where ds: "ps_events s' = ps_events s2 @ map CompleteEvent ds" "set ds \<subseteq> fst ` set ps"
    by auto
  have none: "CompleteEvent c \<notin> set (ps_events s2)" for c
    using only_puts_trans [OF ga gb] s by (auto simp: only_puts_def)
  from ds(1) s' have split: "pre @ CompleteEvent cid # post = ps_events s2 @ map CompleteEvent ds" by simp
  then consider mid where "pre = ps_events s2 @ mid" | us where "pre @ CompleteEvent cid # us = ps_events s2"
    by (auto simp: append_eq_append_conv2 Cons_eq_append_conv append_eq_Cons_conv)
  then obtain mid where mid: "pre = ps_events s2 @ mid"
  proof cases
    case 2
    then have "CompleteEvent cid \<in> set (ps_events s2)" by (metis in_set_conv_decomp)
    with none show ?thesis by blast
  qed
  with split have "mid @ CompleteEvent cid # post = map CompleteEvent ds" by simp
  then have "CompleteEvent cid \<in> set (map CompleteEvent ds)" by (metis in_set_conv_decomp)
  then have cid: "cid \<in> fst ` set ps" using ds(2) by auto
  have later: "PutEvent k \<in> set (ps_events s1) \<Longrightarrow> PutEvent k \<in> set pre" "PutEvent k \<in> set (ps_events s2) \<Longrightarrow> PutEvent k \<in> set pre" for k
    using only_puts_mono [OF gb, of "PutEvent k"] by (auto simp: mid)
  have merged: "\<exists>o'. (key, o') \<in> set ?m \<and> po_type o' = po_type obj" if "(c, objs) \<in> set ps" "(key, obj) \<in> set objs" for c objs key obj
  proof -
    from that have "key \<in> fst ` set ?m" unfolding merge_pending_keys by force
    then obtain o' where o': "(key, o') \<in> set ?m" by auto
    from merge_pending_mem [OF this] that cons have "po_type o' = po_type obj" unfolding consistent_def by blast
    with o' show ?thesis by blast
  qed
  have "(po_type obj = ''nar'' \<longrightarrow> PutEvent key \<in> set pre \<or> nar_superseded pv key) \<and>
     (po_type obj = ''narinfo'' \<longrightarrow> PutEvent key \<in> set pre) \<and>
     (po_type obj = ''listing'' \<longrightarrow> (\<forall>h narinfo. key = h @ ''.ls'' \<longrightarrow> (h @ ''.narinfo'', narinfo) \<in> set objs \<longrightarrow>
        po_type narinfo = ''narinfo'' \<longrightarrow> PutEvent key \<in> set pre))" if m: "(c, objs) \<in> set ps" "(key, obj) \<in> set objs" for c objs key obj
  proof -
    from merged [OF m] obtain o' where o': "(key, o') \<in> set ?m" "po_type o' = po_type obj" by blast
    note up = UploadPendingObjects_complete [OF a [unfolded r1] ok o'(1), unfolded o'(2)]
    have "PutEvent key \<in> set pre" if ty: "po_type obj = ''narinfo''"
    proof -
      from m(2) have "key \<in> fst ` set objs" by force
      from narinfos_by_id_mem [OF m(1) this up(2) [OF ty]] obtain narinfos
        where "(c, narinfos) \<in> set (narinfos_by_id metas ps)" "key \<in> fst ` set narinfos" by blast
      from later(2) [OF SignAndUploadNarinfos_run(2) [OF b r2 this]] show ?thesis .
    qed
    moreover have "PutEvent key \<in> set pre" if ls: "po_type obj = ''listing''" "key = h @ ''.ls''"
      "(h @ ''.narinfo'', narinfo) \<in> set objs" "po_type narinfo = ''narinfo''" for h narinfo
    proof -
      from merged [OF m(1) ls(3)] obtain n' where "(h @ ''.narinfo'', n') \<in> set ?m" "po_type n' = ''narinfo''" using ls(4) by auto
      from later(1) [OF up(3) [OF ls(1,2) this]] show ?thesis .
    qed
    ultimately show ?thesis using up(1) later(1) by blast
  qed
  with cid show ?thesis by blast
qed

definition asked_in :: "objectWithRefs list \<Rightarrow> pending \<Rightarrow> bool" where
  "asked_in os objs \<longleftrightarrow> (\<forall>(key, obj) \<in> set objs. \<exists>o' \<in> set os. ow_key o' = key \<and> ow_type o' = po_type obj)"

definition answers :: "(string \<times> objectWithRefs list) list \<Rightarrow> (string \<times> pending) list \<Rightarrow> bool" where
  "answers cls ps \<longleftrightarrow> (\<forall>(cid, objs) \<in> set ps. asked_in (concat (map snd cls)) objs)"

lemma asked_mono: "asked_in os objs \<Longrightarrow> set os \<subseteq> set os' \<Longrightarrow> asked_in os' objs"
  by (fastforce simp: asked_in_def)

text \<open>The server answers with objects of the request, and \<open>nix\<close> with store paths whose hashes differ.\<close>

definition honest_server :: "push_env \<Rightarrow> bool" where
  "honest_server pv \<longleftrightarrow>
     (\<forall>req cid objs. pv_create_push pv req = PushCreated cid objs \<longrightarrow> asked_in (cp_objects req) objs) \<and>
     (\<forall>root os cid objs. pv_create_closure pv root os = Some (cid, objs) \<longrightarrow> asked_in os objs)"

definition honest_nix :: "push_env \<Rightarrow> bool" where
  "honest_nix pv \<longleftrightarrow> (\<forall>paths infos. pv_path_info pv paths = Some infos \<longrightarrow>
     infos_ok (pv_machine pv) infos \<and> set paths \<subseteq> fst ` set infos \<and> inj_on hash_of (fst ` set infos))"

lemma create_closures_answers:
  assumes "honest_server pv"
  shows "create_closures pv todo acc = Inr ps \<Longrightarrow> set todo \<subseteq> set cls \<Longrightarrow> answers cls acc \<Longrightarrow> answers cls ps"
proof (induction todo arbitrary: acc)
  case (Cons x rest)
  obtain root objs where x: "x = (root, objs)" by fastforce
  with Cons.prems obtain cid reply where c: "pv_create_closure pv root objs = Some (cid, reply)" by (auto split: option.splits)
  have mem: "set objs \<subseteq> set (concat (map snd cls))" using Cons.prems(2) x by force
  have new: "asked_in (concat (map snd cls)) reply"
    using assms c asked_mono [OF _ mem] unfolding honest_server_def by blast
  have "answers cls (AList.update cid reply acc)" using Cons.prems(3) new unfolding answers_def by (auto dest!: update_mem)
  with Cons x c show ?case by simp
qed simp

lemma createPending_answers:
  assumes server: "honest_server pv" and c: "createPending pv cls = Inr (route, ps)"
  shows "answers cls ps"
proof -
  have each: "answers cls ps" if "create_each pv cls = Inr (route, ps)"
    using that create_closures_answers [OF server, of cls "[]" ps cls]
    by (auto simp: create_each_def answers_def split: sum.splits)
  show ?thesis
  proof (cases "\<exists>cid todo. pv_create_push pv (CreatePush cls (pv_verify_s3 pv)) = PushCreated cid todo \<and> ps = [(cid, todo)]")
    case True
    then obtain cid todo where a: "pv_create_push pv (CreatePush cls (pv_verify_s3 pv)) = PushCreated cid todo" "ps = [(cid, todo)]"
      by blast
    then have "asked_in (cp_objects (CreatePush cls (pv_verify_s3 pv))) todo" using server unfolding honest_server_def by blast
    moreover have "set (cp_objects (CreatePush cls (pv_verify_s3 pv))) \<subseteq> set (concat (map snd cls))"
      using dedupe_set(1) [of "[]" "concat (map snd cls)"] unfolding CreatePush_def by simp
    ultimately show ?thesis using a(2) asked_mono by (auto simp: answers_def)
  next
    case False
    with c each show ?thesis by (auto simp: createPending_def split: if_splits push_answer.splits option.splits)
  qed
qed

section \<open>The indexes of a prepared push\<close>

lemma path_objects_shape:
  assumes "path_objects pe p info = Inr (h, k, os)" "obj \<in> set os"
  shows "ow_type obj = ''narinfo'' \<Longrightarrow> ow_key obj = h @ ''.narinfo''" "ow_type obj = ''nar'' \<Longrightarrow> ow_key obj = k"
    "ow_type obj = ''listing'' \<Longrightarrow> ow_key obj = h @ ''.ls''"
  using assms by (auto simp: path_objects_def Let_def split: sum.splits option.splits)

lemma collect_objects_info:
  "collect_objects pe infos acc res = Inr (all, res') \<Longrightarrow>
   map_of (pr_PathInfoByHash res) h \<noteq> None \<or> (\<exists>x \<in> set infos. \<exists>k os. path_objects pe (fst x) (snd x) = Inr (h, k, os)) \<Longrightarrow>
   map_of (pr_PathInfoByHash res') h \<noteq> None"
proof (induction infos arbitrary: acc res)
  case (Cons x infos)
  obtain p info where x: "x = (p, info)" by fastforce
  with Cons.prems(1) obtain h1 k1 os1 where o: "path_objects pe p info = Inr (h1, k1, os1)"
    by (auto split: sum.splits)
  have "map_of (AList.update h1 info (pr_PathInfoByHash res)) h \<noteq> None \<or>
      (\<exists>x \<in> set infos. \<exists>k os. path_objects pe (fst x) (snd x) = Inr (h, k, os))"
    using Cons.prems(2) o by (auto simp: x update_conv)
  with Cons.prems(1) Cons.IH show ?case by (auto simp: x o)
qed simp

lemma collect_objects_nar:
  "collect_objects pe infos acc res = Inr (all, res') \<Longrightarrow> map_of (pr_NARKeyToHash res') k = Some h \<Longrightarrow>
   map_of (pr_NARKeyToHash res) k = Some h \<or> (\<exists>x \<in> set infos. \<exists>os. path_objects pe (fst x) (snd x) = Inr (h, k, os))"
proof (induction infos arbitrary: acc res)
  case (Cons x infos)
  obtain p info where x: "x = (p, info)" by fastforce
  with Cons.prems(1) obtain h1 k1 os1 where o: "path_objects pe p info = Inr (h1, k1, os1)"
    by (auto split: sum.splits)
  let ?res = "res\<lparr>pr_PathInfoByHash := AList.update h1 info (pr_PathInfoByHash res),
                 pr_NARKeyToHash := AList.update k1 h1 (pr_NARKeyToHash res),
                 pr_LogPathsByKey := (case log_object pe info of
                                        None \<Rightarrow> pr_LogPathsByKey res
                                      | Some (logKey, logPath) \<Rightarrow> AList.update logKey logPath (pr_LogPathsByKey res))\<rparr>"
  have "collect_objects pe infos (acc @ [(p, os1)]) ?res = Inr (all, res')" using Cons.prems(1) by (simp add: x o)
  from Cons.IH [OF this Cons.prems(2)] o show ?case by (auto simp: x update_conv split: if_splits)
qed simp

lemma collect_objects_nar_known:
  "collect_objects pe infos acc res = Inr (all, res') \<Longrightarrow>
   map_of (pr_NARKeyToHash res) k \<noteq> None \<or> (\<exists>x \<in> set infos. \<exists>h os. path_objects pe (fst x) (snd x) = Inr (h, k, os)) \<Longrightarrow>
   map_of (pr_NARKeyToHash res') k \<noteq> None"
proof (induction infos arbitrary: acc res)
  case (Cons x infos)
  obtain p info where x: "x = (p, info)" by fastforce
  with Cons.prems(1) obtain h1 k1 os1 where o: "path_objects pe p info = Inr (h1, k1, os1)"
    by (auto split: sum.splits)
  have "map_of (AList.update k1 h1 (pr_NARKeyToHash res)) k \<noteq> None \<or>
      (\<exists>x \<in> set infos. \<exists>h os. path_objects pe (fst x) (snd x) = Inr (h, k, os))"
    using Cons.prems(2) o by (auto simp: x update_conv)
  with Cons.prems(1) Cons.IH show ?case by (auto simp: x o)
qed simp

lemma prepared_index:
  assumes ok: "infos_ok pe infos" and topPaths: "set topPaths \<subseteq> fst ` set infos" and inj: "inj_on hash_of (fst ` set infos)"
    and prep: "PrepareClosures pe topPaths infos = Inr res" and ans: "answers (pr_Closures res) ps"
  shows "index_ok res (merge_pending ps)" and "consistent ps"
proof -
  obtain all res0 where c: "collect_objects pe infos [] \<lparr>pr_Closures = [], pr_PathInfoByHash = [], pr_NARKeyToHash = [],
      pr_LogPathsByKey = []\<rparr> = Inr (all, res0)"
    and res: "pr_PathInfoByHash res = pr_PathInfoByHash res0" "pr_NARKeyToHash res = pr_NARKeyToHash res0"
    using prep by (auto simp: PrepareClosures_def split: sum.splits)
  have cl: "set (concat (map snd (pr_Closures res))) \<subseteq> (\<Union>x \<in> set infos. set (objects_at pe x))"
    using prepared_closures [OF ok topPaths] prep by auto
  have orig: "\<exists>x k os o'. x \<in> set infos \<and> path_objects pe (fst x) (snd x) = Inr (hash_of (fst x), k, os) \<and> o' \<in> set os \<and>
      ow_key o' = key \<and> ow_type o' = po_type obj \<and> IsValidUploadKey key (po_type obj)"
    if m: "(cid, objs) \<in> set ps" "(key, obj) \<in> set objs" for cid objs key obj
  proof -
    from ans m(1) have "asked_in (concat (map snd (pr_Closures res))) objs" unfolding answers_def by auto
    with m(2) obtain o' where o': "o' \<in> set (concat (map snd (pr_Closures res)))" "ow_key o' = key" "ow_type o' = po_type obj"
      unfolding asked_in_def by blast
    with cl obtain x where x: "x \<in> set infos" "o' \<in> set (objects_at pe x)" by blast
    from path_objects_ok [OF ok, of "fst x" "snd x"] x(1) obtain k os where
      p: "path_objects pe (fst x) (snd x) = Inr (hash_of (fst x), k, os)" "\<forall>obj \<in> set os. IsValidUploadKey (ow_key obj) (ow_type obj)"
      by auto
    have mem: "o' \<in> set os" using x(2) p(1) by (simp add: objects_at_def)
    with p(2) o'(2,3) have "IsValidUploadKey key (po_type obj)" by metis
    with x(1) p(1) mem o'(2,3) show ?thesis by blast
  qed
  show "consistent ps"
    unfolding consistent_def using orig IsValidUploadKey_type_unique by blast
  have shape: "(po_type obj = ''narinfo'' \<longrightarrow> (\<exists>h info. key = h @ ''.narinfo'' \<and> map_of (pr_PathInfoByHash res) h = Some info)) \<and>
      (po_type obj = ''nar'' \<longrightarrow> map_of (pr_NARKeyToHash res) key \<noteq> None) \<and>
      (po_type obj = ''listing'' \<longrightarrow> (\<exists>h. key = h @ ''.ls''))" if "(key, obj) \<in> set (merge_pending ps)" for key obj
  proof -
    from merge_pending_mem [OF that] orig obtain x k os o' where
      x: "x \<in> set infos" "path_objects pe (fst x) (snd x) = Inr (hash_of (fst x), k, os)" "o' \<in> set os"
        "ow_key o' = key" "ow_type o' = po_type obj" by blast
    note sh = path_objects_shape [OF x(2,3), unfolded x(4,5)]
    have "map_of (pr_PathInfoByHash res) (hash_of (fst x)) \<noteq> None" "map_of (pr_NARKeyToHash res) k \<noteq> None"
      unfolding res using collect_objects_info [OF c] collect_objects_nar_known [OF c] x(1,2) by blast+
    with sh show ?thesis by blast
  qed
  have nar: "k1 = k2" if k12: "map_of (pr_NARKeyToHash res) k1 = Some h" "map_of (pr_NARKeyToHash res) k2 = Some h" for k1 k2 h
  proof -
    have "\<exists>x \<in> set infos. \<exists>os. path_objects pe (fst x) (snd x) = Inr (h, k, os)" if "map_of (pr_NARKeyToHash res) k = Some h" for k
      using collect_objects_nar [OF c] that unfolding res by fastforce
    then obtain x1 x2 os1 os2 where x: "x1 \<in> set infos" "path_objects pe (fst x1) (snd x1) = Inr (h, k1, os1)"
      "x2 \<in> set infos" "path_objects pe (fst x2) (snd x2) = Inr (h, k2, os2)" using k12 by meson
    have hash: "hash_of (fst x1) = h" "hash_of (fst x2) = h"
      using path_objects_ok [OF ok, of "fst x1" "snd x1"] path_objects_ok [OF ok, of "fst x2" "snd x2"] x by auto
    then have "fst x1 = fst x2" using inj x(1,3) unfolding inj_on_def by auto
    moreover have "distinct (map fst infos)" using ok by (simp add: infos_ok_def)
    ultimately have "x1 = x2" using x(1,3) by (metis eq_key_imp_eq_value prod.collapse)
    with x show ?thesis by simp
  qed
  show "index_ok res (merge_pending ps)"
    unfolding index_ok_def
  proof (intro ballI, goal_cases)
    case (1 y)
    obtain key obj where y: "y = (key, obj)" by fastforce
    from shape [of key obj] 1 nar show ?case unfolding y prod.case by fastforce
  qed
qed

section \<open>Pushing\<close>

text \<open>
  C8: A client never commits a push before it has uploaded it. Whatever way a push ends, when the client
  sends the request that completes a push or closure, every NAR the server asked for was put to S3 before
  it, or another upload of the same NAR won; so was every narinfo, and every listing whose narinfo was asked
  for with it. A push that fails before sends no such request.
\<close>
theorem PushPaths_commits_uploaded:
  assumes nix: "honest_nix pv" and server: "honest_server pv"
    and run: "PushPaths pv paths s = (r, s')" and s: "ps_events s = []" and s': "ps_events s' = pre @ CompleteEvent cid # post"
  shows "\<exists>route cls ps. createPending pv cls = Inr (route, ps) \<and> cid \<in> fst ` set ps \<and>
    (\<forall>(c, objs) \<in> set ps. \<forall>(key, obj) \<in> set objs.
       (po_type obj = ''nar'' \<longrightarrow> PutEvent key \<in> set pre \<or> nar_superseded pv key) \<and>
       (po_type obj = ''narinfo'' \<longrightarrow> PutEvent key \<in> set pre) \<and>
       (po_type obj = ''listing'' \<longrightarrow> (\<forall>h narinfo. key = h @ ''.ls'' \<longrightarrow> (h @ ''.narinfo'', narinfo) \<in> set objs \<longrightarrow>
          po_type narinfo = ''narinfo'' \<longrightarrow> PutEvent key \<in> set pre)))"
proof -
  have skip [simp]: "ps_events (note_skipped kept reasons s) = ps_events s" for kept reasons by (simp add: note_skipped_def)
  have "ps_events s' \<noteq> []" using s' by simp
  with run s obtain resolvedPaths infos kept infos' sk res route ps where
    infos: "pv_path_info pv (missing_paths pv resolvedPaths) = Some infos"
    and f: "filterOversizedClosures (missing_paths pv resolvedPaths) infos
      (case pv_config pv of None \<Rightarrow> 0 | Some (limit, pushes) \<Rightarrow> limit) = (kept, infos', sk)"
    and p: "PrepareClosures (pv_machine pv) kept infos' = Inr res" and c: "createPending pv (pr_Closures res) = Inr (route, ps)"
    and u: "snd (upload_push pv res ps (note_skipped kept (sk_Reasons sk) s)) = s'"
    by (auto simp: PushPaths_def Let_def split: sum.splits if_splits option.splits prod.splits)
  have ok: "infos_ok (pv_machine pv) infos" "set (missing_paths pv resolvedPaths) \<subseteq> fst ` set infos" "inj_on hash_of (fst ` set infos)"
    using nix infos unfolding honest_nix_def by blast+
  note pr = pruned_ok [OF ok(1) f]
  have "set kept \<subseteq> set (missing_paths pv resolvedPaths)" unfolding filter_result(1) [OF f] by auto
  then have kept: "set kept \<subseteq> fst ` set infos'" using ok(2) pr(3) by blast
  have inj: "inj_on hash_of (fst ` set infos')" using ok(3) pr(2) by (meson image_mono inj_on_subset)
  note ix = prepared_index [OF pr(1) kept inj p createPending_answers [OF server c]]
  obtain r1 where "upload_push pv res ps (note_skipped kept (sk_Reasons sk) s) = (r1, s')" using u by (metis prod.collapse)
  from upload_push_commits [OF ix this _ s'] s c show ?thesis by auto
qed

definition single_info :: path_infos where
  "single_info = [(''/nix/store/11111111111111111111111111111111-b'', info_example 200 [])]"

lemma single_info_ok: "infos_ok plain_machine single_info"
proof -
  let ?tops = "[''/nix/store/11111111111111111111111111111111-b'', ''/nix/store/22222222222222222222222222222222-c'']"
  let ?f = "filterOversizedClosures ?tops push_infos 500"
  have "?f = (fst ?f, single_info, snd (snd ?f))"
  proof -
    have "fst (snd ?f) = single_info" by code_simp
    then show ?thesis by (metis prod.collapse)
  qed
  from pruned_ok(1) [OF push_infos_ok this] show ?thesis .
qed

definition plain_pending :: "string \<Rightarrow> PendingObject" where
  "plain_pending typ = \<lparr>po_type = typ, po_presigned_url = ''https://s3'', po_multipart = None\<rparr>"

definition push_example :: "(createPushRequest \<Rightarrow> push_answer) \<Rightarrow> push_env" where
  "push_example create =
     \<lparr>pv_readlink = (\<lambda>p. NotALink), pv_store_dir = ''/nix/store'', pv_present = (\<lambda>keys. None),
      pv_path_info = (\<lambda>paths. if list_all (\<lambda>p. p \<in> fst ` set single_info) paths then Some single_info else None),
      pv_config = Some (500, True), pv_machine = plain_machine, pv_create_push = create,
      pv_create_closure = (\<lambda>root os. None), pv_verify_s3 = True, pv_put = (\<lambda>key. True), pv_nar = (\<lambda>key. NarUploaded),
      pv_listing = (\<lambda>path. True), pv_compress_log = (\<lambda>path. True),
      pv_sign = (\<lambda>cid metas. Some (map (\<lambda>(key, meta). (key, [''sig''])) metas)), pv_complete = (\<lambda>cid. True)\<rparr>"

definition create_all :: "createPushRequest \<Rightarrow> push_answer" where
  "create_all req = PushCreated ''7'' (map (\<lambda>obj. (ow_key obj, plain_pending (ow_type obj))) (cp_objects req))"

definition fresh_push :: push_state where
  "fresh_push = \<lparr>ps_events = [], ps_signed = [], ps_skipped = [], ps_narinfos = []\<rparr>"

lemma push_example_simps [simp]:
  "pv_readlink (push_example c) = (\<lambda>p. NotALink)" "pv_machine (push_example c) = plain_machine"
  "pv_create_push (push_example c) = c" "pv_create_closure (push_example c) = (\<lambda>root os. None)"
  "pv_path_info (push_example c) = (\<lambda>paths. if list_all (\<lambda>p. p \<in> fst ` set single_info) paths then Some single_info else None)"
  "pv_complete (push_example c) = (\<lambda>cid. True)"
  by (simp_all add: push_example_def)

lemma push_example_nix: "honest_nix (push_example c)"
proof -
  have "set paths \<subseteq> fst ` set single_info" if "list_all (\<lambda>p. p \<in> fst ` set single_info) paths" for paths
    using that by (auto simp: list_all_iff)
  moreover have "inj_on hash_of (fst ` set single_info)" by (simp add: single_info_def)
  ultimately show ?thesis using single_info_ok unfolding honest_nix_def push_example_simps by (auto split: if_splits)
qed

lemma create_all_honest: "honest_server (push_example create_all)"
  unfolding honest_server_def asked_in_def by (auto simp: create_all_def plain_pending_def)

lemma push_example_run:
  "ps_events (snd (PushPaths (push_example create_all) [''/nix/store/11111111111111111111111111111111-b''] fresh_push)) =
   [PutEvent ''nar/0000000000000000000000000000000000000000000000000000.nar.zst'', PutEvent ''11111111111111111111111111111111.ls'',
    SignEvent ''7'', PutEvent ''11111111111111111111111111111111.narinfo''] @ [CompleteEvent ''7'']"
  by code_simp

theorem PushPaths_commits_uploaded_witness:
  "\<exists>route cls ps. createPending (push_example create_all) cls = Inr (route, ps) \<and> ''7'' \<in> fst ` set ps"
proof -
  let ?run = "PushPaths (push_example create_all) [''/nix/store/11111111111111111111111111111111-b''] fresh_push"
  have fresh: "ps_events fresh_push = []" by (simp add: fresh_push_def)
  have "?run = (fst ?run, snd ?run)" by simp
  from PushPaths_commits_uploaded [OF push_example_nix create_all_honest this fresh push_example_run] show ?thesis by blast
qed

text \<open>
  A listing the server asks for on its own is not uploaded. When the NAR and the narinfo of a path are
  in place and only its listing is missing, which is what a push that verifies S3 finds after the listing was
  lost there, the client starts no task for it and completes the push, so the listing stays lost.
\<close>
theorem lone_listing_lost:
  assumes lone: "\<forall>(key, obj) \<in> set objs. po_type obj = ''listing''" and dist: "distinct (map fst objs)" and c: "pv_complete pv cid"
  shows "upload_push pv res [(cid, objs)] s = (None, note_event (CompleteEvent cid) s)"
proof -
  have group: "\<exists>hs. group_pending m objs t = Inr (t\<lparr>tk_hash := hs\<rparr>) \<and> (\<forall>(h, en) \<in> set hs. en_nar en = None \<and> en_narinfo en = None)"
    if "\<forall>(key, obj) \<in> set objs. po_type obj = ''listing''" "\<forall>(h, en) \<in> set (tk_hash t). en_nar en = None \<and> en_narinfo en = None"
    for m t and objs :: pending
    using that
  proof (induction objs arbitrary: t)
    case Nil
    then show ?case by (intro exI [of _ "tk_hash t"]) simp
  next
    case (Cons x objs)
    obtain key obj where x: "x = (key, obj)" by fastforce
    let ?h = "trim_suffix key ''.ls''"
    let ?en = "(entry_of (tk_hash t) ?h)\<lparr>en_ls := Some key\<rparr>"
    have old: "en_nar (entry_of (tk_hash t) ?h) = None" "en_narinfo (entry_of (tk_hash t) ?h) = None"
      using Cons.prems(2) by (auto simp: entry_of_def dest!: map_of_SomeD split: option.split)
    have "\<forall>(h, en) \<in> set (AList.update ?h ?en (tk_hash t)). en_nar en = None \<and> en_narinfo en = None"
      using Cons.prems(2) old by (auto dest!: update_mem)
    with Cons.IH [of "t\<lparr>tk_hash := AList.update ?h ?en (tk_hash t)\<rparr>"] Cons.prems(1) show ?case
      by (auto simp: x add_pending_def Let_def)
  qed
  have tasks: "run_tasks (upload_entry pv infos) hs s = (None, s)" if "\<forall>(h, en) \<in> set hs. en_nar en = None \<and> en_narinfo en = None" for infos hs
    using that by (induction hs) (auto simp: upload_entry_def)
  have metas: "collect_metadata infos hs = Inr []" if "\<forall>(h, en) \<in> set hs. en_nar en = None \<and> en_narinfo en = None" for infos hs
    using that by (induction hs) auto
  have merge: "set (merge_pending [(cid, objs)]) \<subseteq> set objs" using merge_pending_mem by fastforce
  with lone have "\<forall>(key, obj) \<in> set (merge_pending [(cid, objs)]). po_type obj = ''listing''" by blast
  from group [OF this, of "\<lparr>tk_hash = [], tk_logs = [], tk_realisations = []\<rparr>" "pr_NARKeyToHash res"] tasks metas
  have "UploadPendingObjects pv res (merge_pending [(cid, objs)]) s = (Inr [], s)" by (auto simp: UploadPendingObjects_def)
  then show ?thesis using c by (simp add: upload_push_def Let_def SignAndUploadNarinfos_def narinfos_by_id_def complete_one_def)
qed

text \<open>The same from the start: the server asks for the one listing, and the push succeeds without it.\<close>

definition create_listing :: "createPushRequest \<Rightarrow> push_answer" where
  "create_listing req = PushCreated ''7'' [(''11111111111111111111111111111111.ls'', plain_pending ''listing'')]"

definition empty_result :: PrepareClosuresResult where
  "empty_result = \<lparr>pr_Closures = [], pr_PathInfoByHash = [], pr_NARKeyToHash = [], pr_LogPathsByKey = []\<rparr>"

theorem lone_listing_lost_witness:
  "upload_push (push_example create_listing) empty_result [(''7'', [(''11111111111111111111111111111111.ls'', plain_pending ''listing'')])] fresh_push =
     (None, note_event (CompleteEvent ''7'') fresh_push) \<and>
   ps_events (snd (PushPaths (push_example create_listing) [''/nix/store/11111111111111111111111111111111-b''] fresh_push)) =
     [CompleteEvent ''7'']"
proof
  show "upload_push (push_example create_listing) empty_result [(''7'', [(''11111111111111111111111111111111.ls'', plain_pending ''listing'')])] fresh_push =
     (None, note_event (CompleteEvent ''7'') fresh_push)"
    by (rule lone_listing_lost) (simp_all add: plain_pending_def)
qed code_simp

text \<open>
  What the hook's worker relies on: a push of store paths that succeeds reports one of them.
\<close>

lemma resolve_store_paths: "\<forall>p \<in> set paths. has_prefix p (storeDir @ ''/'') \<Longrightarrow> resolveSymlinks readlink storeDir paths = Inr paths"
  by (induction paths) (simp_all add: maxSymlinkDepth_def eval_nat_numeral)

lemma PushPaths_reports_pushed:
  assumes nix: "honest_nix pv" and store: "\<forall>p \<in> set paths. has_prefix p (pv_store_dir pv @ ''/'')" and ne: "paths \<noteq> []"
    and run: "PushPaths pv paths s = (Inr up, s')"
  shows "set paths \<inter> set up \<noteq> {}" and "p \<in> set paths \<Longrightarrow> p \<in> set up \<or> (\<exists>present. Present pv paths = Inr present \<and> p \<in> set present)"
proof -
  let ?m = "missing_paths pv paths"
  have "up = paths \<or> (?m \<noteq> [] \<and> set ?m \<subseteq> set up)"
  proof (cases "all_present pv paths")
    case True
    with run show ?thesis by (simp add: PushPaths_def resolve_store_paths [OF store] Let_def)
  next
    case False
    have "?m \<noteq> []" using False ne unfolding all_present_def missing_paths_def by (auto split: sum.splits)
    moreover obtain infos where infos: "pv_path_info pv ?m = Some infos" "up = map fst infos"
      using run False by (auto simp: PushPaths_def resolve_store_paths [OF store] Let_def split: option.splits prod.splits if_splits sum.splits)
    moreover have "set ?m \<subseteq> fst ` set infos" using nix infos(1) unfolding honest_nix_def by blast
    ultimately show ?thesis by simp
  qed
  moreover have "set ?m \<subseteq> set paths" "p \<in> set paths \<Longrightarrow> p \<in> set ?m \<or> (\<exists>present. Present pv paths = Inr present \<and> p \<in> set present)"
    by (auto simp: missing_paths_def split: sum.splits)
  ultimately show "set paths \<inter> set up \<noteq> {}" "p \<in> set paths \<Longrightarrow> p \<in> set up \<or> (\<exists>present. Present pv paths = Inr present \<and> p \<in> set present)"
    using ne by (auto simp: Int_absorb1, metis disjoint_iff hd_in_set subsetD)
qed

end
