(* ===== verification/ClientUpload.thy ===== *)
theory ClientUpload
  imports Multipart NarFormat
begin

text \<open>
  How a client uploads a NAR: the parts of a multipart upload (\<open>src/client/multipart.go\<close>) and the
  compressed archive that is cut into them (\<open>src/client/nar_upload.go\<close>). Parts are sent one after the
  other; \<open>zstd\<close> is a function, and the answers of S3 and of the server are \<open>upload_env\<close>.
\<close>

section \<open>Reading parts\<close>

text \<open>
  A stream ends, or breaks off with an error. Of that error the loop over the parts only asks, with
  \<open>errors.Is\<close>, whether \<open>io.EOF\<close> or \<open>io.ErrUnexpectedEOF\<close> is what it wraps. \<open>io.ReadFull\<close> makes these two of
  the plain end of the stream, and passes any other error on as it is, wrapped or not.
\<close>

datatype read_error = IsEOF | IsUnexpectedEOF | OtherReadError

record byte_stream =
  bs_bytes :: bytes
  bs_broken :: "read_error option"

definition ReadFull :: "nat \<Rightarrow> byte_stream \<Rightarrow> bytes \<times> read_error option" where
  "ReadFull n r =
     (let data = take n (bs_bytes r) in
      (data,
       if length data = n then None
       else (case bs_broken r of
               Some err \<Rightarrow> Some err
             | None \<Rightarrow> Some (if data = [] then IsEOF else IsUnexpectedEOF))))"

text \<open>One turn of the loop: the data of a part and whether it is the last one.\<close>

datatype part_read = PartRead bytes byte_stream bool | StreamEnd | ReadFailed

definition read_part :: "nat \<Rightarrow> byte_stream \<Rightarrow> part_read" where
  "read_part partSize r =
     (case ReadFull partSize r of
        (data, err) \<Rightarrow>
          if data = [] then (if err = Some IsEOF then StreamEnd else ReadFailed)
          else (let final = (err = Some IsUnexpectedEOF) in
                if err \<noteq> None \<and> \<not> final then ReadFailed
                else PartRead data (r\<lparr>bs_bytes := drop partSize (bs_bytes r)\<rparr>) final))"

section \<open>The multipart upload\<close>

datatype upload_error = StatusError nat | UploadError string

record upload_env =
  ue_more :: "string \<Rightarrow> string \<Rightarrow> nat \<Rightarrow> nat \<Rightarrow> upload_error + nat \<times> string list"
  ue_put :: "string \<Rightarrow> bytes \<Rightarrow> upload_error + string"
  ue_complete :: "string \<Rightarrow> string \<Rightarrow> (nat \<times> string) list \<Rightarrow> upload_error option"
  ue_head :: "string \<Rightarrow> upload_error + nat"
  ue_zstd :: "bytes \<Rightarrow> bytes"
  ue_partial :: bytes

definition additionalParts :: nat where
  "additionalParts = 100"

definition RequestMoreParts :: "upload_env \<Rightarrow> string \<Rightarrow> string \<Rightarrow> nat \<Rightarrow> nat \<Rightarrow> upload_error + string list" where
  "RequestMoreParts ue objectKey uploadID startPartNumber numParts =
     (case ue_more ue objectKey uploadID startPartNumber numParts of
        Inl err \<Rightarrow> Inl err
      | Inr (start, urls) \<Rightarrow>
          if start \<noteq> startPartNumber then Inl (UploadError ''server returned another start part'')
          else if urls = [] then Inl (UploadError ''server returned empty part URLs list'')
          else if list_ex (\<lambda>url. url = '''') urls then Inl (UploadError ''server returned empty URL'')
          else Inr urls)"

text \<open>\<open>strings.Trim(etag, "\"")\<close>.\<close>

definition trim_quotes :: "string \<Rightarrow> string" where
  "trim_quotes s = rev (dropWhile (\<lambda>c. c = CHR 0x22) (rev (dropWhile (\<lambda>c. c = CHR 0x22) s)))"

definition uploadPart :: "upload_env \<Rightarrow> string \<Rightarrow> bytes \<Rightarrow> upload_error + string" where
  "uploadPart ue partURL data =
     (case ue_put ue partURL data of
        Inl err \<Rightarrow> Inl err
      | Inr etag \<Rightarrow> if etag = '''' then Inl (UploadError ''no ETag in response'') else Inr (trim_quotes etag))"

definition ObjectExists :: "upload_env \<Rightarrow> string \<Rightarrow> upload_error + bool" where
  "ObjectExists ue objectKey =
     (case ue_head ue objectKey of
        Inl err \<Rightarrow> Inl err
      | Inr code \<Rightarrow> if code = 204 then Inr True else if code = 404 then Inr False else Inl (StatusError code))"

definition supersededByPeer :: "upload_env \<Rightarrow> string \<Rightarrow> upload_error \<Rightarrow> bool" where
  "supersededByPeer ue objectKey err \<longleftrightarrow> err = StatusError 404 \<and> ObjectExists ue objectKey = Inr True"

text \<open>
  How the loop over the parts ends: with the parts that were sent, with the error of a part, which
  \<open>g.Wait\<close> returns, or with an error of the loop itself, \<open>readErr\<close>.
\<close>

record sent_part =
  sp_number :: nat
  sp_url :: string
  sp_data :: bytes
  sp_etag :: string

datatype parts_end = PartsSent "sent_part list" | PartFailed upload_error | LoopFailed upload_error

lemma read_part_shorter: "read_part k r = PartRead data r' final \<Longrightarrow> length (bs_bytes r') < length (bs_bytes r)"
  by (auto simp: read_part_def ReadFull_def Let_def split: if_splits)

function upload_parts ::
  "upload_env \<Rightarrow> string \<Rightarrow> string \<Rightarrow> nat \<Rightarrow> nat \<Rightarrow> string list \<Rightarrow> byte_stream \<Rightarrow> sent_part list \<Rightarrow> parts_end" where
  "upload_parts ue objectKey uploadID partSize partNumber partURLs r done =
     (case (if length partURLs < partNumber
            then (case RequestMoreParts ue objectKey uploadID partNumber additionalParts of
                    Inl err \<Rightarrow> Inl err | Inr newURLs \<Rightarrow> Inr (partURLs @ newURLs))
            else Inr partURLs) of
        Inl err \<Rightarrow> LoopFailed err
      | Inr partURLs \<Rightarrow>
          (case read_part partSize r of
             StreamEnd \<Rightarrow> PartsSent done
           | ReadFailed \<Rightarrow> LoopFailed (UploadError ''reading part'')
           | PartRead data r final \<Rightarrow>
               (let url = partURLs ! (partNumber - 1) in
                case uploadPart ue url data of
                  Inl err \<Rightarrow> PartFailed err
                | Inr etag \<Rightarrow>
                    (let done = done @ [\<lparr>sp_number = partNumber, sp_url = url, sp_data = data, sp_etag = etag\<rparr>] in
                     if final then PartsSent done
                     else upload_parts ue objectKey uploadID partSize (partNumber + 1) partURLs r done))))"
  by pat_completeness auto

termination
  by (relation "measure (\<lambda>(ue, objectKey, uploadID, partSize, partNumber, partURLs, r, done). length (bs_bytes r))")
    (auto dest: read_part_shorter)

declare upload_parts.simps [simp del]

text \<open>
  What the caller gets: no error, \<open>ErrUploadSuperseded\<close>, or an error. An error that comes after the server
  has completed the upload is told apart, with the parts that it put together.
\<close>

datatype upload_result =
  Uploaded "sent_part list" | UploadSuperseded | UploadFailed upload_error | CompletedThenFailed "sent_part list" nar_error

definition completed_parts :: "sent_part list \<Rightarrow> (nat \<times> string) list" where
  "completed_parts ps = sort_key fst (map (\<lambda>p. (sp_number p, sp_etag p)) ps)"

definition uploadMultipart ::
  "upload_env \<Rightarrow> byte_stream \<Rightarrow> MultipartUploadInfo \<Rightarrow> string \<Rightarrow> nat \<Rightarrow> upload_result" where
  "uploadMultipart ue r info objectKey partSize =
     (case upload_parts ue objectKey (mi_upload_id info) partSize 1 (mi_part_urls info) r [] of
        PartFailed err \<Rightarrow> if supersededByPeer ue objectKey err then UploadSuperseded else UploadFailed err
      | LoopFailed err \<Rightarrow> UploadFailed err
      | PartsSent ps \<Rightarrow>
          (case ue_complete ue objectKey (mi_upload_id info) (completed_parts ps) of
             None \<Rightarrow> Uploaded ps
           | Some err \<Rightarrow> if supersededByPeer ue objectKey err then UploadSuperseded else UploadFailed err))"

section \<open>NARs\<close>

text \<open>
  What the compressor writes to the pipe and sends over the error channel: the compressed archive and its
  listing, or the start of the archive, after which the pipe is closed with the error wrapped, and that
  error. A file that is shorter than it was at the walk is a short \<open>io.ReadFull\<close>, whose error is wrapped:
  \<open>io.EOF\<close> if not a byte was left, else \<open>io.ErrUnexpectedEOF\<close>.
\<close>

fun nar_read_error :: "nar_error \<Rightarrow> read_error" where
  "nar_read_error (ShortRead path n) = (if n = 0 then IsEOF else IsUnexpectedEOF)"
| "nar_read_error err = OtherReadError"

definition nar_stream ::
  "upload_env \<Rightarrow> fs_contents \<Rightarrow> bool \<Rightarrow> string \<Rightarrow> fs_node \<Rightarrow> byte_stream \<times> (nar_error + NarListing)" where
  "nar_stream ue contents hack path f =
     (case DumpPathWithListing all_writes contents hack path f of
        Inl err \<Rightarrow> (\<lparr>bs_bytes = ue_partial ue, bs_broken = Some (nar_read_error err)\<rparr>, Inl err)
      | Inr (listing, nar) \<Rightarrow> (\<lparr>bs_bytes = ue_zstd ue nar, bs_broken = None\<rparr>, Inr listing))"

text \<open>
  The error of the compressor is looked at only after the upload has succeeded, \<open>return <-errChan\<close>. The
  listing is handed over as soon as the archive is written, here whether or not the upload fails later.
\<close>

definition compressAndMultipartUploadNAR ::
  "upload_env \<Rightarrow> fs_contents \<Rightarrow> bool \<Rightarrow> string \<Rightarrow> fs_node \<Rightarrow> u64 \<Rightarrow> MultipartUploadInfo \<Rightarrow> string \<Rightarrow>
   upload_result \<times> NarListing option" where
  "compressAndMultipartUploadNAR ue contents hack path f narSize info objectKey =
     (case nar_stream ue contents hack path f of
        (r, compressed) \<Rightarrow>
          (case uploadMultipart ue r info objectKey (nat (partSizeForNAR narSize)) of
             Uploaded ps \<Rightarrow>
               (case compressed of
                  Inl err \<Rightarrow> (CompletedThenFailed ps err, None)
                | Inr listing \<Rightarrow> (Uploaded ps, Some listing))
           | failed \<Rightarrow> (failed, (case compressed of Inl err \<Rightarrow> None | Inr listing \<Rightarrow> Some listing))))"

definition compressAndSimpleUploadNAR ::
  "upload_env \<Rightarrow> fs_contents \<Rightarrow> bool \<Rightarrow> string \<Rightarrow> fs_node \<Rightarrow> string \<Rightarrow> upload_result \<times> NarListing option" where
  "compressAndSimpleUploadNAR ue contents hack path f presignedURL =
     (case DumpPathWithListing all_writes contents hack path f of
        Inl err \<Rightarrow> (UploadFailed (UploadError ''serializing NAR''), None)
      | Inr (listing, nar) \<Rightarrow>
          ((case ue_put ue presignedURL (ue_zstd ue nar) of
              Inl err \<Rightarrow> UploadFailed err
            | Inr etag \<Rightarrow>
                Uploaded [\<lparr>sp_number = 1, sp_url = presignedURL, sp_data = ue_zstd ue nar, sp_etag = etag\<rparr>]),
           Some listing))"

definition CompressAndUploadNAR ::
  "upload_env \<Rightarrow> fs_contents \<Rightarrow> bool \<Rightarrow> string \<Rightarrow> fs_node \<Rightarrow> u64 \<Rightarrow> PendingObject \<Rightarrow> string \<Rightarrow>
   upload_result \<times> NarListing option" where
  "CompressAndUploadNAR ue contents hack path f narSize obj objectKey =
     (case po_multipart obj of
        Some info \<Rightarrow> compressAndMultipartUploadNAR ue contents hack path f narSize info objectKey
      | None \<Rightarrow> compressAndSimpleUploadNAR ue contents hack path f (po_presigned_url obj))"

section \<open>The parts of a finished upload\<close>

text \<open>Parts that make up a stream: numbered in order, full but for the last, and each one accepted.\<close>

definition parts_of :: "upload_env \<Rightarrow> nat \<Rightarrow> nat \<Rightarrow> sent_part list \<Rightarrow> bytes \<Rightarrow> bool" where
  "parts_of ue partSize n ps data \<longleftrightarrow>
     concat (map sp_data ps) = data \<and> map sp_number ps = [n..<n + length ps] \<and>
     (\<forall>p \<in> set ps. sp_data p \<noteq> [] \<and> length (sp_data p) \<le> partSize \<and> uploadPart ue (sp_url p) (sp_data p) = Inr (sp_etag p)) \<and>
     (\<forall>p \<in> set (butlast ps). length (sp_data p) = partSize)"

lemma parts_of_Nil [simp]: "parts_of ue k n [] data \<longleftrightarrow> data = []"
  by (auto simp: parts_of_def)

lemma parts_of_Cons:
  assumes "parts_of ue k (Suc n) ps rest" "data \<noteq> []" "length data = k" "uploadPart ue url data = Inr etag"
  shows "parts_of ue k n (\<lparr>sp_number = n, sp_url = url, sp_data = data, sp_etag = etag\<rparr> # ps) (data @ rest)"
  using assms by (auto simp: parts_of_def upt_conv_Cons)

lemma read_part_parts:
  assumes "read_part k r = PartRead data r' final" "0 < k"
  shows "data \<noteq> []" "data @ bs_bytes r' = bs_bytes r" "bs_broken r' = bs_broken r" "\<not> final \<Longrightarrow> length data = k"
    "final \<Longrightarrow> bs_broken r \<in> {None, Some IsUnexpectedEOF} \<and> bs_bytes r' = []" "length data \<le> k"
  using assms by (auto simp: read_part_def ReadFull_def Let_def split: if_splits option.splits)

lemma upload_parts_sent:
  "upload_parts ue key uid k n urls r done = PartsSent ps \<Longrightarrow> 0 < k \<Longrightarrow>
   bs_broken r \<noteq> Some OtherReadError \<and> (\<exists>new. ps = done @ new \<and> parts_of ue k n new (bs_bytes r))"
proof (induction ue key uid k n urls r "done" rule: upload_parts.induct)
  case (1 ue key uid k n urls r "done")
  from "1.prems" obtain urls' where urls: "(if length urls < n
            then (case RequestMoreParts ue key uid n additionalParts of
                    Inl err \<Rightarrow> Inl err | Inr newURLs \<Rightarrow> Inr (urls @ newURLs))
            else Inr urls) = Inr urls'"
    by (simp add: upload_parts.simps [of ue key uid k n urls r "done"] split: sum.splits)
  show ?case
  proof (cases "read_part k r")
    case (PartRead data r' final)
    note rp = read_part_parts [OF PartRead \<open>0 < k\<close>]
    from "1.prems" urls PartRead obtain etag where e: "uploadPart ue (urls' ! (n - 1)) data = Inr etag"
      by (auto simp: upload_parts.simps [of ue key uid k n urls r "done"] Let_def split: sum.splits)
    let ?p = "\<lparr>sp_number = n, sp_url = urls' ! (n - 1), sp_data = data, sp_etag = etag\<rparr>"
    show ?thesis
    proof (cases final)
      case True
      with "1.prems" urls PartRead e have "ps = done @ [?p]"
        by (simp add: upload_parts.simps [of ue key uid k n urls r "done"] Let_def)
      moreover have "parts_of ue k n [?p] (bs_bytes r)" using rp True e by (auto simp: parts_of_def)
      moreover have "bs_broken r \<noteq> Some OtherReadError" using rp(5) True by auto
      ultimately show ?thesis by blast
    next
      case False
      with "1.prems" urls PartRead e have run: "upload_parts ue key uid k (n + 1) urls' r' (done @ [?p]) = PartsSent ps"
        by (simp add: upload_parts.simps [of ue key uid k n urls r "done"] Let_def)
      from "1.IH" [OF urls PartRead refl e refl False run \<open>0 < k\<close>] obtain new where
        new: "bs_broken r' \<noteq> Some OtherReadError" "ps = done @ ?p # new" "parts_of ue k (Suc n) new (bs_bytes r')" by auto
      with parts_of_Cons [OF new(3) rp(1) rp(4) [OF False] e] rp(2,3) show ?thesis by auto
    qed
  next
    case StreamEnd
    with "1.prems" urls have "ps = done" by (simp add: upload_parts.simps [of ue key uid k n urls r "done"])
    moreover have "bs_bytes r = []" "bs_broken r \<noteq> Some OtherReadError"
      using StreamEnd \<open>0 < k\<close> by (auto simp: read_part_def ReadFull_def Let_def split: if_splits)
    ultimately show ?thesis by simp
  next
    case ReadFailed
    with "1.prems" urls show ?thesis by (simp add: upload_parts.simps [of ue key uid k n urls r "done"])
  qed
qed

lemma parts_of_count:
  assumes "parts_of ue k n ps data" "ps \<noteq> []"
  shows "(length ps - 1) * k < length data"
proof -
  have split: "ps = butlast ps @ [last ps]" using assms(2) by simp
  have "length (concat (map sp_data (butlast ps))) = length (butlast ps) * k"
  proof -
    have "length (concat (map sp_data xs)) = length xs * k" if "\<forall>p \<in> set xs. length (sp_data p) = k" for xs
      using that by (induction xs) auto
    then show ?thesis using assms(1) unfolding parts_of_def by blast
  qed
  moreover have "data = concat (map sp_data (butlast ps)) @ sp_data (last ps)"
    using assms(1) by (subst (asm) split) (auto simp: parts_of_def)
  moreover have "sp_data (last ps) \<noteq> []" using assms by (auto simp: parts_of_def)
  ultimately show ?thesis by simp
qed

section \<open>Properties\<close>

lemma ceiling_div_le:
  fixes a b p :: int
  assumes "(a + p - 1) div p \<le> b" "0 < p"
  shows "a \<le> b * p"
proof -
  let ?x = "a + p - 1"
  have "?x = ?x div p * p + ?x mod p" by simp
  moreover have "?x mod p < p" using assms(2) by simp
  moreover have "?x div p * p \<le> b * p" using assms by (intro mult_right_mono) auto
  ultimately show ?thesis by linarith
qed

lemma part_count:
  fixes k :: nat and n :: u64
  assumes "uint n \<le> 9000 * int k" "(m - 1) * k < l" "9 * l \<le> 10 * unat n"
  shows "m \<le> 10000"
proof -
  have "int (unat n) = uint n" by simp
  with assms(1) have "unat n \<le> 9000 * k" by linarith
  with assms(3) have "l \<le> 10000 * k" by linarith
  with assms(2) have "(m - 1) * k < 10000 * k" by linarith
  then have "m - 1 < 10000" by (metis mult_less_cancel2)
  then show ?thesis by linarith
qed

lemma upload_sent:
  assumes "uploadMultipart ue r info key k = Uploaded ps" "0 < k"
  shows "bs_broken r \<noteq> Some OtherReadError" "parts_of ue k 1 ps (bs_bytes r)"
    "ue_complete ue key (mi_upload_id info) (map (\<lambda>p. (sp_number p, sp_etag p)) ps) = None"
proof -
  obtain ps' where p: "upload_parts ue key (mi_upload_id info) k 1 (mi_part_urls info) r [] = PartsSent ps'"
    and c: "ps' = ps" "ue_complete ue key (mi_upload_id info) (completed_parts ps) = None"
    using assms(1) by (auto simp: uploadMultipart_def split: parts_end.splits option.splits if_splits)
  from upload_parts_sent [OF p assms(2)] c show *: "bs_broken r \<noteq> Some OtherReadError" "parts_of ue k 1 ps (bs_bytes r)" by auto
  let ?xs = "map (\<lambda>p. (sp_number p, sp_etag p)) ps"
  have "map fst ?xs = [1..<1 + length ps]" using *(2) by (simp add: parts_of_def comp_def)
  then have "sorted (map fst ?xs)" by (metis sorted_upt)
  then have "completed_parts ps = ?xs" unfolding completed_parts_def by (rule sort_key_id_if_sorted)
  with c show "ue_complete ue key (mi_upload_id info) (map (\<lambda>p. (sp_number p, sp_etag p)) ps) = None" by simp
qed

lemma multipart_uploaded:
  assumes "compressAndMultipartUploadNAR ue contents hack path f narSize info key = (Uploaded ps, listing)"
  obtains listing' nar where "DumpPathWithListing all_writes contents hack path f = Inr (listing', nar)"
    "uploadMultipart ue \<lparr>bs_bytes = ue_zstd ue nar, bs_broken = None\<rparr> info key (nat (partSizeForNAR narSize)) = Uploaded ps"
proof (cases "DumpPathWithListing all_writes contents hack path f")
  case (Inl err)
  with assms show ?thesis
    by (simp add: compressAndMultipartUploadNAR_def nar_stream_def split: upload_result.splits)
next
  case (Inr res)
  then obtain listing' nar where d: "DumpPathWithListing all_writes contents hack path f = Inr (listing', nar)"
    by (cases res) auto
  moreover have "uploadMultipart ue \<lparr>bs_bytes = ue_zstd ue nar, bs_broken = None\<rparr> info key (nat (partSizeForNAR narSize)) =
      Uploaded ps"
    using assms d by (simp add: compressAndMultipartUploadNAR_def nar_stream_def split: upload_result.splits)
  ultimately show ?thesis by (rule that)
qed

lemma uploadMultipart_range: "uploadMultipart ue r info key k \<noteq> CompletedThenFailed ps err"
  by (simp add: uploadMultipart_def split: parts_end.splits option.splits)

lemma multipart_broken:
  assumes "compressAndMultipartUploadNAR ue contents hack path f narSize info key = (CompletedThenFailed ps err, listing)"
  shows "DumpPathWithListing all_writes contents hack path f = Inl err"
    "uploadMultipart ue \<lparr>bs_bytes = ue_partial ue, bs_broken = Some (nar_read_error err)\<rparr> info key
       (nat (partSizeForNAR narSize)) = Uploaded ps"
proof -
  have "DumpPathWithListing all_writes contents hack path f = Inl err \<and>
    uploadMultipart ue \<lparr>bs_bytes = ue_partial ue, bs_broken = Some (nar_read_error err)\<rparr> info key
       (nat (partSizeForNAR narSize)) = Uploaded ps"
    using assms uploadMultipart_range
    by (cases "DumpPathWithListing all_writes contents hack path f")
      (auto simp: compressAndMultipartUploadNAR_def nar_stream_def split: upload_result.splits prod.splits)
  then show "DumpPathWithListing all_writes contents hack path f = Inl err"
    "uploadMultipart ue \<lparr>bs_bytes = ue_partial ue, bs_broken = Some (nar_read_error err)\<rparr> info key
       (nat (partSizeForNAR narSize)) = Uploaded ps" by auto
qed

lemma nar_read_error_short: "nar_read_error err \<noteq> OtherReadError \<longleftrightarrow> (\<exists>p n. err = ShortRead p n)"
  by (cases err) auto

text \<open>The parts of a multipart upload of an archive are few enough for S3.\<close>

lemma multipart_few:
  assumes size: "uint narSize \<le> 9000 * 5368709120"
    and up: "uploadMultipart ue r info key (nat (partSizeForNAR narSize)) = Uploaded ps"
    and small: "9 * length (bs_bytes r) \<le> 10 * unat narSize"
  shows "length ps \<le> 10000"
proof (cases "ps = []")
  case False
  let ?k = "nat (partSizeForNAR narSize)"
  note fits = partSizeForNAR_fits [OF size]
  have k: "0 < ?k" "int ?k = partSizeForNAR narSize" using fits by auto
  have "uint narSize \<le> 9000 * int ?k" by (rule ceiling_div_le) (use fits k in auto)
  moreover have "(length ps - 1) * ?k < length (bs_bytes r)"
    using parts_of_count [OF upload_sent(2) [OF up k(1)] False] .
  ultimately show ?thesis using small by (intro part_count)
qed simp

text \<open>
  C35: What a client stores without an error is the archive of the path. When an upload of a NAR
  succeeds, the parts it sent, put together in the order of their numbers, decompress to an archive that
  decodes to the tree at the path; the parts are numbered from 1, and the request that completes the
  upload names all of them with the tags S3 gave. There are at most 10000 of them if compression does not
  make the archive larger by more than a ninth. The archive is assumed to be shorter than \<open>2 ^ 64\<close> bytes, its
  announced size to be at most 9000 parts of 5 GiB, and \<open>zstd\<close> to be undone by a decompressor. An archive
  that could not be serialized to its end is completed on the server in one case only, when a file was
  shorter than it had been at the walk, and then the client reports that error.
\<close>
theorem CompressAndUploadNAR_stores:
  assumes zstd: "\<forall>nar. unzstd (ue_zstd ue nar) = nar" and size: "uint narSize \<le> 9000 * 5368709120"
    and nar: "\<forall>listing nar. DumpPathWithListing all_writes contents hack path f = Inr (listing, nar) \<longrightarrow> length nar < 2 ^ 64"
    and run: "CompressAndUploadNAR ue contents hack path f narSize obj key = (res, listing)"
  shows "(\<forall>ps. res = Uploaded ps \<longrightarrow>
      nar_decode (unzstd (concat (map sp_data ps))) = Some (fs_tree contents hack path f) \<and>
      map sp_number ps = [1..<1 + length ps] \<and>
      (9 * length (concat (map sp_data ps)) \<le> 10 * unat narSize \<longrightarrow> length ps \<le> 10000) \<and>
      (\<forall>info. po_multipart obj = Some info \<longrightarrow>
         ue_complete ue key (mi_upload_id info) (map (\<lambda>p. (sp_number p, sp_etag p)) ps) = None)) \<and>
    (\<forall>ps err. res = CompletedThenFailed ps err \<longrightarrow>
      DumpPathWithListing all_writes contents hack path f = Inl err \<and> (\<exists>p n. err = ShortRead p n) \<and>
      concat (map sp_data ps) = ue_partial ue)"
proof (cases "po_multipart obj")
  case None
  then have simple: "compressAndSimpleUploadNAR ue contents hack path f (po_presigned_url obj) = (res, listing)"
    using run by (simp add: CompressAndUploadNAR_def)
  have "nar_decode (unzstd (concat (map sp_data ps))) = Some (fs_tree contents hack path f) \<and>
      map sp_number ps = [1..<1 + length ps] \<and> length ps \<le> 10000" if up: "res = Uploaded ps" for ps
  proof -
    obtain listing' nar0 etag where d: "DumpPathWithListing all_writes contents hack path f = Inr (listing', nar0)"
      and ps: "ps = [\<lparr>sp_number = 1, sp_url = po_presigned_url obj, sp_data = ue_zstd ue nar0, sp_etag = etag\<rparr>]"
      using simple up by (auto simp: compressAndSimpleUploadNAR_def split: sum.splits)
    have "nar_decode (unzstd (ue_zstd ue nar0)) = Some (fs_tree contents hack path f)"
      using DumpPathWithListing_correct [OF d] nar d zstd by simp
    with ps show ?thesis by simp
  qed
  moreover have "res \<noteq> CompletedThenFailed ps err" for ps err
    using simple by (auto simp: compressAndSimpleUploadNAR_def split: sum.splits)
  ultimately show ?thesis using None by simp
next
  case (Some info)
  let ?k = "nat (partSizeForNAR narSize)"
  have k: "0 < ?k" using partSizeForNAR_fits [OF size] by auto
  have multi: "compressAndMultipartUploadNAR ue contents hack path f narSize info key = (res, listing)"
    using run Some by (simp add: CompressAndUploadNAR_def)
  have "nar_decode (unzstd (concat (map sp_data ps))) = Some (fs_tree contents hack path f) \<and>
      map sp_number ps = [1..<1 + length ps] \<and>
      (9 * length (concat (map sp_data ps)) \<le> 10 * unat narSize \<longrightarrow> length ps \<le> 10000) \<and>
      ue_complete ue key (mi_upload_id info) (map (\<lambda>p. (sp_number p, sp_etag p)) ps) = None"
    if up: "res = Uploaded ps" for ps
  proof -
    obtain listing' nar0 where d: "DumpPathWithListing all_writes contents hack path f = Inr (listing', nar0)"
      and sent: "uploadMultipart ue \<lparr>bs_bytes = ue_zstd ue nar0, bs_broken = None\<rparr> info key ?k = Uploaded ps"
      using multipart_uploaded [OF multi [unfolded up]] .
    note parts = upload_sent [OF sent k]
    have data: "concat (map sp_data ps) = ue_zstd ue nar0" "map sp_number ps = [1..<1 + length ps]"
      using parts(2) by (simp_all add: parts_of_def)
    have "nar_decode (unzstd (ue_zstd ue nar0)) = Some (fs_tree contents hack path f)"
      using DumpPathWithListing_correct [OF d] nar d zstd by simp
    then show ?thesis using data parts(3) multipart_few [OF size sent] by simp
  qed
  moreover have "DumpPathWithListing all_writes contents hack path f = Inl err \<and> (\<exists>p n. err = ShortRead p n) \<and>
      concat (map sp_data ps) = ue_partial ue" if up: "res = CompletedThenFailed ps err" for ps err
  proof -
    note broken = multipart_broken [OF multi [unfolded up]]
    from upload_sent [OF broken(2) k] have "nar_read_error err \<noteq> OtherReadError" "concat (map sp_data ps) = ue_partial ue"
      by (simp_all add: parts_of_def)
    with broken(1) show ?thesis by (simp add: nar_read_error_short)
  qed
  ultimately show ?thesis using Some by simp
qed

definition accepting :: upload_env where
  "accepting = \<lparr>ue_more = (\<lambda>key uid n m. Inr (n, [''https://s3/more''])), ue_put = (\<lambda>url data. Inr ''x''),
     ue_complete = (\<lambda>key uid parts. None), ue_head = (\<lambda>key. Inr 404), ue_zstd = (\<lambda>data. data), ue_partial = []\<rparr>"

lemma accepting_simps [simp]:
  "ue_put accepting url data = Inr ''x''" "ue_complete accepting key uid parts = None" "ue_zstd accepting data = data"
  by (simp_all add: accepting_def)

definition multipart_object :: PendingObject where
  "multipart_object = \<lparr>po_type = ''nar'', po_presigned_url = '''',
     po_multipart = Some \<lparr>mi_upload_id = ''u'', mi_part_urls = [''https://s3/1'']\<rparr>\<rparr>"

theorem CompressAndUploadNAR_stores_witness:
  "\<exists>ps listing. CompressAndUploadNAR accepting nar_example_contents False ''/s'' nar_example 1000 multipart_object ''nar/x'' =
       (Uploaded ps, listing) \<and> nar_decode (concat (map sp_data ps)) = Some nar_example_tree \<and> length ps \<le> 10000"
proof -
  obtain listing nar where d: "DumpPathWithListing all_writes nar_example_contents False ''/s'' nar_example = Inr (listing, nar)"
    using Dump_total [OF nar_example_dumpable] by auto
  have len: "length nar = 848" by (rule Dump_ok [OF d]) (simp add: nar_example_tree nar_example_length)
  have small: "uint (1000 :: u64) \<le> 9000 * 5368709120" by simp
  let ?k = "nat (partSizeForNAR 1000)"
  have k: "848 < ?k" using partSizeForNAR_fits [OF small] by linarith
  let ?r = "\<lparr>bs_bytes = nar, bs_broken = None\<rparr>"
  have ne: "nar \<noteq> []" using len by auto
  have "read_part ?k ?r = PartRead nar (?r\<lparr>bs_bytes := []\<rparr>) True" using k len ne by (simp add: read_part_def ReadFull_def)
  then have "\<exists>ps. upload_parts accepting ''nar/x'' ''u'' ?k 1 [''https://s3/1''] ?r [] = PartsSent ps"
    by (subst upload_parts.simps) (simp add: uploadPart_def)
  then obtain ps where sent: "upload_parts accepting ''nar/x'' ''u'' ?k 1 [''https://s3/1''] ?r [] = PartsSent ps" by blast
  then have run: "CompressAndUploadNAR accepting nar_example_contents False ''/s'' nar_example 1000 multipart_object ''nar/x'' =
      (Uploaded ps, Some listing)"
    using d by (simp add: CompressAndUploadNAR_def compressAndMultipartUploadNAR_def multipart_object_def nar_stream_def
      uploadMultipart_def)
  have short: "\<forall>listing' nar'. DumpPathWithListing all_writes nar_example_contents False ''/s'' nar_example = Inr (listing', nar') \<longrightarrow>
      length nar' < 2 ^ 64"
    using d len by simp
  have "\<forall>nar. (\<lambda>x. x) (ue_zstd accepting nar) = nar" by simp
  from CompressAndUploadNAR_stores [OF this small short run]
  have decoded: "nar_decode (concat (map sp_data ps)) = Some nar_example_tree" and ten: "9 * length (concat (map sp_data ps)) \<le> 10000 \<Longrightarrow> length ps \<le> 10000"
    unfolding nar_example_tree by simp_all
  have "concat (map sp_data ps) = nar"
    using upload_parts_sent [OF sent] k by (auto simp: parts_of_def)
  with decoded ten run len show ?thesis by auto
qed

text \<open>
  The case in which a broken archive is completed does occur: a file that is cut to two of its five bytes
  between the walk and the read ends the archive with a wrapped \<open>io.ErrUnexpectedEOF\<close>, which the loop over
  the parts takes for the end of the stream. The server is told to complete what there is under the key of
  the NAR, and the client fails afterwards.
\<close>

lemma short_read_completes:
  assumes "DumpPathWithListing all_writes contents hack path f = Inl (ShortRead p n)" "0 < n"
    and "ue_partial ue \<noteq> []" "length (ue_partial ue) < nat (partSizeForNAR narSize)"
    and "po_multipart obj = Some info" "mi_part_urls info = url # urls"
    and "uploadPart ue url (ue_partial ue) = Inr etag" "ue_complete ue key (mi_upload_id info) [(1, etag)] = None"
  shows "CompressAndUploadNAR ue contents hack path f narSize obj key =
    (CompletedThenFailed [\<lparr>sp_number = 1, sp_url = url, sp_data = ue_partial ue, sp_etag = etag\<rparr>] (ShortRead p n), None)"
proof -
  let ?k = "nat (partSizeForNAR narSize)" and ?r = "\<lparr>bs_bytes = ue_partial ue, bs_broken = Some IsUnexpectedEOF\<rparr>"
  have "read_part ?k ?r = PartRead (ue_partial ue) (?r\<lparr>bs_bytes := []\<rparr>) True"
    using assms(3,4) by (simp add: read_part_def ReadFull_def)
  then have "upload_parts ue key (mi_upload_id info) ?k 1 (mi_part_urls info) ?r [] =
      PartsSent [\<lparr>sp_number = 1, sp_url = url, sp_data = ue_partial ue, sp_etag = etag\<rparr>]"
    using assms(6,7) by (subst upload_parts.simps) simp
  then show ?thesis
    using assms by (simp add: CompressAndUploadNAR_def compressAndMultipartUploadNAR_def nar_stream_def uploadMultipart_def
      completed_parts_def)
qed

lemma cut_file_short: "DumpPathWithListing all_writes (\<lambda>path. Some [1, 2]) False ''/s'' (FsRegular 5 False) = Inl (ShortRead ''/s'' 2)"
  by code_simp

text \<open>
  An upload that another one has overtaken is not always recognized. When the server has aborted the
  upload because the NAR is there already, and the part URLs the client has run out, the request for more
  of them is answered with 404; unlike a 404 for a part or for the completion, that one makes the upload
  fail, and with it the push, although the check for a finished upload would say that the NAR is there.
\<close>
theorem superseded_request_fails:
  assumes put: "\<forall>url data. ue_put ue url data = Inr ''x''" and gone: "\<forall>n m. ue_more ue key (mi_upload_id info) n m = Inl (StatusError 404)"
    and there: "ue_head ue key = Inr 204" and k: "0 < k" and long: "length (mi_part_urls info) * k \<le> length (bs_bytes r)"
  shows "supersededByPeer ue key (StatusError 404) \<and> uploadMultipart ue r info key k = UploadFailed (StatusError 404)"
proof
  show "supersededByPeer ue key (StatusError 404)" using there by (simp add: supersededByPeer_def ObjectExists_def)
  have more: "RequestMoreParts ue key (mi_upload_id info) n additionalParts = Inl (StatusError 404)" for n
    using gone by (simp add: RequestMoreParts_def)
  have up: "uploadPart ue url data = Inr ''x''" for url data using put by (simp add: uploadPart_def trim_quotes_def)
  have "upload_parts ue key (mi_upload_id info) k (length urls - m + 1) urls r done = LoopFailed (StatusError 404)"
    if "m \<le> length urls" "m * k \<le> length (bs_bytes r)" for m urls r "done"
    using that
  proof (induction m arbitrary: r "done")
    case 0
    then show ?case by (subst upload_parts.simps) (simp add: more)
  next
    case (Suc m)
    let ?r = "r\<lparr>bs_bytes := drop k (bs_bytes r)\<rparr>"
    define n where "n = length urls - Suc m + 1"
    have n: "n \<le> length urls" "length urls - m + 1 = n + 1" using Suc.prems(1) by (auto simp: n_def)
    have "read_part k r = PartRead (take k (bs_bytes r)) ?r False"
      using Suc.prems(2) k by (auto simp: read_part_def ReadFull_def Let_def min_def)
    moreover have "m * k \<le> length (bs_bytes ?r)" using Suc.prems(2) by simp
    ultimately show ?case
      using Suc.IH [of ?r] Suc.prems(1) unfolding n_def [symmetric] n(2)
      by (subst upload_parts.simps) (use n(1) in \<open>simp add: up Let_def\<close>)
  qed
  from this [OF le_refl, of "mi_part_urls info"] long show "uploadMultipart ue r info key k = UploadFailed (StatusError 404)"
    by (simp add: uploadMultipart_def)
qed

theorem superseded_request_fails_witness:
  "uploadMultipart (accepting\<lparr>ue_more := (\<lambda>key uid n m. Inl (StatusError 404)), ue_head := (\<lambda>key. Inr 204)\<rparr>)
     \<lparr>bs_bytes = [1, 2, 3, 4], bs_broken = None\<rparr> \<lparr>mi_upload_id = ''u'', mi_part_urls = [''https://s3/1'']\<rparr> ''nar/x'' 2 =
   UploadFailed (StatusError 404)"
  by (rule conjunct2 [OF superseded_request_fails]) (simp_all add: accepting_def)

end
