(* ===== verification/Retry.thy ===== *)
theory Retry
  imports RateLimit
begin

text \<open>
  Requests of a client with retries: \<open>src/client/retry.go\<close>. Durations are int64 nanoseconds that wrap;
  the rounding of float64 arithmetic, \<open>math.Pow\<close>, the random numbers, the clock, the parser of HTTP dates
  and the answers to the requests are parameters. What one call did is the list of its attempts.
\<close>

section \<open>What is retried\<close>

definition isRetryableStatus :: "nat \<Rightarrow> bool" where
  "isRetryableStatus code \<longleftrightarrow> code \<in> {500, 502, 503, 504, 507, 408, 429}"

text \<open>An error of the transport, and whether it is \<open>context.Canceled\<close>.\<close>

datatype transport_error = TransportError bool

fun isRetryableError :: "transport_error option \<Rightarrow> bool" where
  "isRetryableError None \<longleftrightarrow> False"
| "isRetryableError (Some (TransportError canceled)) \<longleftrightarrow> \<not> canceled"

record server_response =
  sr_status :: nat
  sr_retry_after :: string

section \<open>How long to wait\<close>

record float_env =
  fe_round :: "rat \<Rightarrow> rat"
  fe_pow :: "rat \<Rightarrow> nat \<Rightarrow> rat"
  fe_rand :: "nat \<Rightarrow> rat"

record RetryConfig =
  rc_MaxRetries :: int
  rc_Timeout :: int
  rc_InitialBackoff :: int
  rc_MaxBackoff :: int
  rc_Multiplier :: rat
  rc_Jitter :: rat

definition DefaultRetryConfig :: RetryConfig where
  "DefaultRetryConfig = \<lparr>rc_MaxRetries = 5, rc_Timeout = 0, rc_InitialBackoff = 100000000,
     rc_MaxBackoff = 30000000000, rc_Multiplier = 2, rc_Jitter = 3602879701896397 / 2 ^ 55\<rparr>"

text \<open>\<open>time.Duration\<close> of a float64 drops the fraction.\<close>

definition truncate_rat :: "rat \<Rightarrow> int" where
  "truncate_rat x = (if 0 \<le> x then \<lfloor>x\<rfloor> else \<lceil>x\<rceil>)"

definition calculateBackoff :: "float_env \<Rightarrow> RetryConfig \<Rightarrow> nat \<Rightarrow> int" where
  "calculateBackoff fe c attempt =
     (if attempt = 0 then rc_InitialBackoff c
      else (let maxBackoff = fe_round fe (of_int (rc_MaxBackoff c));
                backoff = fe_round fe (fe_round fe (of_int (rc_InitialBackoff c)) * fe_pow fe (rc_Multiplier c) attempt);
                backoff = (if maxBackoff < backoff then maxBackoff else backoff);
                backoff = (if 0 < rc_Jitter c
                           then fe_round fe (backoff + fe_round fe (fe_round fe (backoff * rc_Jitter c) *
                                  fe_round fe (fe_round fe (fe_rand fe attempt * 2) - 1)))
                           else backoff)
            in truncate_rat backoff))"

definition retryAfterDuration :: "(string \<Rightarrow> int option) \<Rightarrow> int \<Rightarrow> server_response option \<Rightarrow> int" where
  "retryAfterDuration parse_time t resp =
     (case resp of
        None \<Rightarrow> 0
      | Some resp \<Rightarrow>
          if sr_retry_after resp = '''' then 0
          else (case parse_int 64 (trim_space (sr_retry_after resp)) of
                  Some secs \<Rightarrow> if 0 < secs then to_i64 (secs * 1000000000) else 0
                | None \<Rightarrow>
                    (case parse_time (sr_retry_after resp) of
                       Some retryTime \<Rightarrow> if 0 < retryTime - t then retryTime - t else 0
                     | None \<Rightarrow> 0)))"

definition is_throttle :: "nat \<Rightarrow> bool" where
  "is_throttle code \<longleftrightarrow> code = 429 \<or> code = 503"

definition retryBackoff ::
  "float_env \<Rightarrow> (string \<Rightarrow> int option) \<Rightarrow> RetryConfig \<Rightarrow> int \<Rightarrow> nat \<Rightarrow> server_response option \<Rightarrow>
   AdaptiveRateLimiter option \<Rightarrow> int" where
  "retryBackoff fe parse_time c t attempt resp lm =
     (let isThrottle = (case resp of None \<Rightarrow> False | Some resp \<Rightarrow> is_throttle (sr_status resp)) in
      if isThrottle \<and> (case lm of None \<Rightarrow> False | Some a \<Rightarrow> enabled a) then retryAfterDuration parse_time t resp
      else (let backoff = calculateBackoff fe c attempt; ra = retryAfterDuration parse_time t resp in
            if backoff < ra then ra else backoff))"

definition recordLimiterFeedback :: "AdaptiveRateLimiter option \<Rightarrow> nat \<Rightarrow> AdaptiveRateLimiter option" where
  "recordLimiterFeedback lm code =
     (case lm of
        None \<Rightarrow> None
      | Some a \<Rightarrow> Some (if is_throttle code then RecordThrottle a
                        else if 200 \<le> code \<and> code < 300 then RecordSuccess a else a))"

section \<open>The loop\<close>

text \<open>
  The answers to one call, by attempt: the limiter's, the transport's, the clock after the attempt, and
  whether the context is cancelled while the client waits for the next one.
\<close>

record retry_env =
  re_wait :: "nat \<Rightarrow> rate_limiter \<Rightarrow> string option"
  re_has_body :: bool
  re_get_body :: "(nat \<Rightarrow> bool) option"
  re_do :: "nat \<Rightarrow> transport_error + server_response"
  re_start :: int
  re_now :: "nat \<Rightarrow> int"
  re_cancelled :: "nat \<Rightarrow> bool"
  re_float :: float_env
  re_parse_time :: "string \<Rightarrow> int option"

record retry_attempt =
  at_answer :: "transport_error + server_response"
  at_backoff :: "int option"

datatype request_result = Answered server_response | RequestFailed string

definition waitForLimiter :: "retry_env \<Rightarrow> nat \<Rightarrow> AdaptiveRateLimiter option \<Rightarrow> string option" where
  "waitForLimiter re attempt lm = (case lm of None \<Rightarrow> None | Some a \<Rightarrow> Wait (re_wait re attempt) a)"

definition doOnce ::
  "retry_env \<Rightarrow> AdaptiveRateLimiter option \<Rightarrow> request_result \<times> AdaptiveRateLimiter option \<times> retry_attempt list" where
  "doOnce re lm =
     (case waitForLimiter re 0 lm of
        Some err \<Rightarrow> (RequestFailed err, lm, [])
      | None \<Rightarrow>
          (case re_do re 0 of
             Inl err \<Rightarrow> (RequestFailed ''executing request'', lm, [\<lparr>at_answer = Inl err, at_backoff = None\<rparr>])
           | Inr resp \<Rightarrow> (Answered resp, recordLimiterFeedback lm (sr_status resp),
                         [\<lparr>at_answer = Inr resp, at_backoff = None\<rparr>])))"

text \<open>The loop need not end: with a clock that stands still before the deadline \<open>None\<close> is all there is.\<close>

partial_function (option) retry_loop ::
  "retry_env \<Rightarrow> RetryConfig \<Rightarrow> nat \<Rightarrow> AdaptiveRateLimiter option \<Rightarrow> retry_attempt list \<Rightarrow>
   (request_result \<times> AdaptiveRateLimiter option \<times> retry_attempt list) option" where
  "retry_loop re c attempt lm done =
     (case waitForLimiter re attempt lm of
        Some err \<Rightarrow> Some (RequestFailed err, lm, done)
      | None \<Rightarrow>
          if (case re_get_body re of None \<Rightarrow> False | Some ok \<Rightarrow> \<not> ok attempt)
          then Some (RequestFailed ''getting request body for retry'', lm, done)
          else (let answer = re_do re attempt;
                    lm = (case answer of Inl err \<Rightarrow> lm | Inr resp \<Rightarrow> recordLimiterFeedback lm (sr_status resp));
                    resp = (case answer of Inl err \<Rightarrow> None | Inr resp \<Rightarrow> Some resp);
                    log = done @ [\<lparr>at_answer = answer, at_backoff = None\<rparr>]
                in if (case answer of Inl err \<Rightarrow> False | Inr resp \<Rightarrow> \<not> isRetryableStatus (sr_status resp))
                   then Some (Answered (projr answer), lm, log)
                   else if (case answer of Inl err \<Rightarrow> \<not> isRetryableError (Some err) | Inr resp \<Rightarrow> False) \<or>
                           (rc_MaxRetries c \<le> int attempt \<and> re_start re + rc_Timeout c \<le> re_now re attempt)
                   then Some (case answer of Inl err \<Rightarrow> RequestFailed ''request failed after retries'' | Inr resp \<Rightarrow> Answered resp,
                              lm, log)
                   else (let backoff = retryBackoff (re_float re) (re_parse_time re) c (re_now re attempt) attempt resp lm;
                             done = done @ [\<lparr>at_answer = answer, at_backoff = Some backoff\<rparr>]
                         in if 0 < backoff \<and> re_cancelled re attempt
                            then Some (RequestFailed ''context canceled during retry'', lm, done)
                            else retry_loop re c (attempt + 1) lm done)))"

definition doWithRetry ::
  "retry_env \<Rightarrow> RetryConfig \<Rightarrow> AdaptiveRateLimiter option \<Rightarrow>
   (request_result \<times> AdaptiveRateLimiter option \<times> retry_attempt list) option" where
  "doWithRetry re c lm =
     (if rc_MaxRetries c \<le> 0 then Some (doOnce re lm)
      else if re_has_body re \<and> re_get_body re = None
      then Some (RequestFailed ''request with body must have GetBody set'', lm, [])
      else retry_loop re c 0 lm [])"

section \<open>Properties\<close>

text \<open>An answer the loop goes on after.\<close>

definition retryable :: "transport_error + server_response \<Rightarrow> bool" where
  "retryable answer = (case answer of Inl err \<Rightarrow> isRetryableError (Some err) | Inr resp \<Rightarrow> isRetryableStatus (sr_status resp))"

definition given_up :: "retry_env \<Rightarrow> RetryConfig \<Rightarrow> nat \<Rightarrow> bool" where
  "given_up re c k \<longleftrightarrow> rc_MaxRetries c \<le> int k \<and> re_start re + rc_Timeout c \<le> re_now re k"

text \<open>What a call did: its requests in order, all but the last one answered with something to retry.\<close>

definition call_ok :: "retry_env \<Rightarrow> RetryConfig \<Rightarrow> request_result \<Rightarrow> retry_attempt list \<Rightarrow> bool" where
  "call_ok re c r ats \<longleftrightarrow>
     map at_answer ats = map (re_do re) [0..<length ats] \<and>
     (\<forall>a \<in> set (butlast ats). retryable (at_answer a)) \<and>
     (\<forall>resp. r = Answered resp \<longrightarrow> ats \<noteq> [] \<and> at_answer (last ats) = Inr resp \<and>
        (isRetryableStatus (sr_status resp) \<longrightarrow> given_up re c (length ats - 1)))"

lemma retry_loop_step:
  assumes prev: "map at_answer done = map (re_do re) [0..<n]" "\<forall>a \<in> set done. retryable (at_answer a)"
  shows "(\<exists>r lm' ats. retry_loop re c n lm done = Some (r, lm', ats) \<and> length ats \<le> Suc n \<and> call_ok re c r ats) \<or>
    (\<not> given_up re c n \<and> retryable (re_do re n) \<and>
     (\<exists>lm' b. retry_loop re c n lm done = retry_loop re c (n + 1) lm' (done @ [\<lparr>at_answer = re_do re n, at_backoff = b\<rparr>])))"
proof -
  have len: "length done = n" using arg_cong [OF prev(1), of length] by simp
  have early: "call_ok re c (RequestFailed msg) done" for msg
    using prev len by (auto simp: call_ok_def dest: in_set_butlastD)
  have step: "call_ok re c r (done @ [\<lparr>at_answer = re_do re n, at_backoff = b\<rparr>])"
    if "\<And>resp. r = Answered resp \<Longrightarrow> re_do re n = Inr resp \<and> (isRetryableStatus (sr_status resp) \<longrightarrow> given_up re c n)" for r b
    using prev len that by (auto simp: call_ok_def)
  show ?thesis
  proof (cases "waitForLimiter re n lm")
    case (Some err)
    then have "retry_loop re c n lm done = Some (RequestFailed err, lm, done)" by (subst retry_loop.simps) simp
    with early len show ?thesis by (intro disjI1 exI) auto
  next
    case None
    show ?thesis
    proof (cases "case re_get_body re of None \<Rightarrow> False | Some ok \<Rightarrow> \<not> ok n")
      case True
      with None have "retry_loop re c n lm done = Some (RequestFailed ''getting request body for retry'', lm, done)"
        by (subst retry_loop.simps) simp
      with early len show ?thesis by (intro disjI1 exI) auto
    next
      case False
      note go = retry_loop.simps [of re c n lm "done"] None False
      show ?thesis
      proof (cases "re_do re n")
        case (Inl err)
        let ?a = "\<lambda>b. done @ [\<lparr>at_answer = Inl err, at_backoff = b\<rparr>]"
        note s = step [unfolded Inl]
        have fin: "call_ok re c (RequestFailed msg) (?a b)" "length (?a b) \<le> Suc n" for msg b using s len by auto
        show ?thesis
        proof (cases "\<not> isRetryableError (Some err) \<or> given_up re c n")
          case True
          then have "retry_loop re c n lm done = Some (RequestFailed ''request failed after retries'', lm, ?a None)"
            unfolding given_up_def by (auto simp: go Inl Let_def)
          with fin show ?thesis by blast
        next
          case not_yet: False
          let ?b = "retryBackoff (re_float re) (re_parse_time re) c (re_now re n) n None lm"
          have run: "retry_loop re c n lm done = (if 0 < ?b \<and> re_cancelled re n
              then Some (RequestFailed ''context canceled during retry'', lm, ?a (Some ?b)) else retry_loop re c (n + 1) lm (?a (Some ?b)))"
            using not_yet unfolding given_up_def by (auto simp: go Inl Let_def)
          have "retryable (re_do re n)" using not_yet by (simp add: retryable_def Inl)
          with run fin not_yet show ?thesis by (cases "0 < ?b \<and> re_cancelled re n") (auto simp: Inl)
        qed
      next
        case (Inr resp)
        let ?a = "\<lambda>b. done @ [\<lparr>at_answer = Inr resp, at_backoff = b\<rparr>]"
        let ?lm = "recordLimiterFeedback lm (sr_status resp)"
        note s = step [unfolded Inr]
        have fin: "call_ok re c (RequestFailed msg) (?a b)" "length (?a b) \<le> Suc n" for msg b using s len by auto
        show ?thesis
        proof (cases "\<not> isRetryableStatus (sr_status resp) \<or> given_up re c n")
          case True
          then have "retry_loop re c n lm done = Some (Answered resp, ?lm, ?a None)"
            unfolding given_up_def by (auto simp: go Inr Let_def)
          moreover have "call_ok re c (Answered resp) (?a None)" using s True by auto
          ultimately show ?thesis using fin(2) by blast
        next
          case not_yet: False
          let ?b = "retryBackoff (re_float re) (re_parse_time re) c (re_now re n) n (Some resp) ?lm"
          have run: "retry_loop re c n lm done = (if 0 < ?b \<and> re_cancelled re n
              then Some (RequestFailed ''context canceled during retry'', ?lm, ?a (Some ?b)) else retry_loop re c (n + 1) ?lm (?a (Some ?b)))"
            using not_yet unfolding given_up_def by (auto simp: go Inr Let_def)
          have "retryable (re_do re n)" using not_yet by (simp add: retryable_def Inr)
          with run fin not_yet show ?thesis by (cases "0 < ?b \<and> re_cancelled re n") (auto simp: Inr)
        qed
      qed
    qed
  qed
qed

lemma retry_loop_returns:
  assumes limit: "\<forall>k \<ge> K. given_up re c k" and "n \<le> K"
    and "map at_answer done = map (re_do re) [0..<n]" "\<forall>a \<in> set done. retryable (at_answer a)"
  shows "\<exists>r lm' ats. retry_loop re c n lm done = Some (r, lm', ats) \<and> length ats \<le> Suc K \<and> call_ok re c r ats"
  using assms(2-)
proof (induction "K - n" arbitrary: n lm "done" rule: less_induct)
  case less
  from retry_loop_step [OF less.prems(2,3), of c lm]
  show ?case
  proof (elim disjE exE conjE, goal_cases)
    case (1 r lm' ats)
    with less.prems(1) show ?case by (intro exI [of _ r] exI [of _ lm'] exI [of _ ats]) auto
  next
    case (2 lm' b)
    with limit have "n < K" by (meson leI)
    moreover have "map at_answer (done @ [\<lparr>at_answer = re_do re n, at_backoff = b\<rparr>]) = map (re_do re) [0..<n + 1]"
      "\<forall>a \<in> set (done @ [\<lparr>at_answer = re_do re n, at_backoff = b\<rparr>]). retryable (at_answer a)"
      using less.prems(2,3) 2 by auto
    ultimately show ?case using less.hyps [of "n + 1" "done @ [\<lparr>at_answer = re_do re n, at_backoff = b\<rparr>]" lm'] 2 by auto
  qed
qed

text \<open>
  C36: A request is not repeated for ever, and never after an answer that settles it. Let \<open>K\<close> be at least
  the number of retries of the configuration, and such that from attempt \<open>K\<close> on the clock has passed the timeout. Then
  the call returns after at most \<open>K + 1\<close> requests; both limits have to be passed, so that with the default of 5
  retries up to 6 requests are sent even when the timeout is over at once. All of them but the last were answered with an
  error or a status that is to be retried; an answer that is handed on is that of the last request, and it is one that
  would be retried only when the retries and the timeout are used up.
\<close>
theorem doWithRetry_returns:
  assumes limit: "\<forall>k \<ge> K. re_start re + rc_Timeout c \<le> re_now re k" and K: "rc_MaxRetries c \<le> int K"
  shows "\<exists>r lm' ats. doWithRetry re c lm = Some (r, lm', ats) \<and> length ats \<le> Suc K \<and>
    map at_answer ats = map (re_do re) [0..<length ats] \<and>
    (\<forall>a \<in> set (butlast ats). retryable (at_answer a)) \<and>
    (\<forall>resp. r = Answered resp \<longrightarrow> ats \<noteq> [] \<and> at_answer (last ats) = Inr resp \<and>
       (0 < rc_MaxRetries c \<and> isRetryableStatus (sr_status resp) \<longrightarrow> given_up re c (length ats - 1)))"
proof (cases "rc_MaxRetries c \<le> 0")
  case True
  then show ?thesis
    by (cases "waitForLimiter re 0 lm"; cases "re_do re 0") (auto simp: doWithRetry_def doOnce_def)
next
  case False
  have "given_up re c k" if "K \<le> k" for k using limit K that by (auto simp: given_up_def)
  then have "\<exists>r lm' ats. retry_loop re c 0 lm [] = Some (r, lm', ats) \<and> length ats \<le> Suc K \<and> call_ok re c r ats"
    by (intro retry_loop_returns) auto
  with False show ?thesis by (auto simp: doWithRetry_def call_ok_def)
qed

definition busy_server :: retry_env where
  "busy_server = \<lparr>re_wait = (\<lambda>k l. None), re_has_body = False, re_get_body = None,
     re_do = (\<lambda>k. Inr \<lparr>sr_status = (if k < 2 then 503 else 200), sr_retry_after = ''''\<rparr>), re_start = 7, re_now = (\<lambda>k. 7),
     re_cancelled = (\<lambda>k. False), re_float = \<lparr>fe_round = (\<lambda>x. x), fe_pow = power, fe_rand = (\<lambda>k. 1 / 2)\<rparr>,
     re_parse_time = (\<lambda>s. None)\<rparr>"

theorem doWithRetry_returns_witness:
  "\<exists>r lm' ats. doWithRetry busy_server DefaultRetryConfig None = Some (r, lm', ats) \<and> length ats \<le> 6"
proof -
  have "\<forall>k \<ge> 5. re_start busy_server + rc_Timeout DefaultRetryConfig \<le> re_now busy_server k"
    "rc_MaxRetries DefaultRetryConfig \<le> int 5"
    by (simp_all add: busy_server_def DefaultRetryConfig_def)
  moreover have "Suc 5 = 6" by simp
  ultimately show ?thesis using doWithRetry_returns [of 5 busy_server DefaultRetryConfig None] by metis
qed

lemma wrapped_product:
  assumes "9223372037 \<le> s" "s \<le> 18446744073"
  shows "to_i64 (s * 1000000000) = s * 1000000000 - 2 ^ 64"
proof -
  have "to_i64 (s * 1000000000) = to_i64 (s * 1000000000 - 2 ^ 64)"
    unfolding to_i64_def by (rule signed_take_bit_eq_iff_take_bit_eq [THEN iffD2]) (simp add: take_bit_eq_mod)
  also have "\<dots> = s * 1000000000 - 2 ^ 64" using assms by (intro to_i64_id) auto
  finally show ?thesis .
qed

text \<open>
  A server that asks for a long pause gets none. Seconds of \<open>Retry-After\<close> are multiplied in an int64; from
  9223372037 on the product wraps and is negative. When the rate limiter is active the client
  relies on that header alone after 429 and 503, so it sends the next request without waiting, whereas any
  number of seconds that fits is the pause in nanoseconds.
\<close>
theorem retry_after_wraps:
  assumes resp: "is_throttle (sr_status resp)" "parse_int 64 (trim_space (sr_retry_after resp)) = Some s" and lm: "enabled a"
  shows "(9223372037 \<le> s \<and> s \<le> 18446744073 \<longrightarrow> retryBackoff fe parse_time c t k (Some resp) (Some a) < 0) \<and>
    (0 < s \<and> s \<le> 9223372036 \<longrightarrow> retryBackoff fe parse_time c t k (Some resp) (Some a) = s * 1000000000)"
proof -
  have "sr_retry_after resp \<noteq> ''''" using resp(2) by (auto simp: trim_space_def parse_int_def)
  then have b: "retryBackoff fe parse_time c t k (Some resp) (Some a) = (if 0 < s then to_i64 (s * 1000000000) else 0)"
    using resp lm by (simp add: retryBackoff_def retryAfterDuration_def)
  have "to_i64 (s * 1000000000) = s * 1000000000" if "0 < s" "s \<le> 9223372036" using that by (intro to_i64_id) auto
  with wrapped_product [of s] show ?thesis unfolding b by auto
qed

definition long_pause :: server_response where
  "long_pause = \<lparr>sr_status = 429, sr_retry_after = ''10000000000''\<rparr>"

theorem retry_after_wraps_witness:
  "retryBackoff (re_float busy_server) (re_parse_time busy_server) DefaultRetryConfig 0 0 (Some long_pause)
     (Some (NewAdaptiveRateLimiter 100)) < 0"
proof -
  have "is_throttle (sr_status long_pause)" by (simp add: is_throttle_def long_pause_def)
  moreover have "parse_int 64 (trim_space (sr_retry_after long_pause)) = Some 10000000000"
    by (simp add: long_pause_def parse_int_def trim_space_def is_space_def digit_val_def is_digit_def)
  moreover have "enabled (NewAdaptiveRateLimiter 100)" by (simp add: NewAdaptiveRateLimiter_def Let_def)
  ultimately show ?thesis using retry_after_wraps [of long_pause 10000000000 "NewAdaptiveRateLimiter 100"] by simp
qed

end
