(* ===== verification/StreamPush.thy ===== *)
theory StreamPush
  imports Prelude "HOL-Library.Multiset"
begin

text \<open>
  Pushing paths as they arrive: \<open>src/client/streampush.go\<close>. What one job does is a function of the answers
  to its pushes; the loop that makes jobs of the input lines, with its goroutines for the input and the
  jobs, is a step relation.
\<close>

section \<open>Results\<close>

record StreamResult =
  sr_ID :: u64
  sr_Path :: string
  sr_ok :: bool
  sr_Message :: string
  sr_Skipped :: string
  sr_Signatures :: "string list"

definition streamIsolationProbes :: nat where
  "streamIsolationProbes = 3"

definition streamSkippedMaxNarSize :: string where
  "streamSkippedMaxNarSize = ''max-nar-size''"

text \<open>
  What the pusher asks: the error of the k-th push of a job, whether the context has ended by then, the
  signatures of a path and why it was skipped, and the request in a line.
\<close>

record stream_env =
  se_push :: "nat \<Rightarrow> string list \<Rightarrow> string option"
  se_ended :: "nat \<Rightarrow> bool"
  se_Signatures :: "string \<Rightarrow> string list"
  se_Skipped :: "string \<Rightarrow> string"
  se_parse :: "string \<Rightarrow> (u64 \<times> string list) option"

definition failed_result :: "string \<Rightarrow> string \<Rightarrow> StreamResult" where
  "failed_result p msg = \<lparr>sr_ID = 0, sr_Path = p, sr_ok = False, sr_Message = msg, sr_Skipped = '''', sr_Signatures = []\<rparr>"

definition stream_result :: "stream_env \<Rightarrow> u64 \<Rightarrow> string \<Rightarrow> bool \<Rightarrow> string \<Rightarrow> StreamResult" where
  "stream_result se i path ok msg =
     (let res = \<lparr>sr_ID = i, sr_Path = path, sr_ok = ok, sr_Message = msg, sr_Skipped = '''', sr_Signatures = []\<rparr>;
          res = (if ok then res\<lparr>sr_Signatures := se_Signatures se path\<rparr> else res);
          why = se_Skipped se path
      in if ok \<and> why \<noteq> '''' then res\<lparr>sr_Skipped := streamSkippedMaxNarSize, sr_Message := why\<rparr> else res)"

definition uploadRequest :: "stream_env \<Rightarrow> string \<Rightarrow> StreamResult list" where
  "uploadRequest se line =
     (case se_parse se line of
        None \<Rightarrow> [failed_result line ''bad request line'']
      | Some (i, paths) \<Rightarrow>
          if paths = [] then [failed_result line ''bad request line'']
          else (let (ok, msg) = (case se_push se 0 paths of None \<Rightarrow> (True, '''') | Some err \<Rightarrow> (False, err)) in
                map (\<lambda>p. stream_result se i p ok msg) paths))"

fun probe_paths :: "stream_env \<Rightarrow> string \<Rightarrow> nat \<Rightarrow> nat \<Rightarrow> nat \<Rightarrow> string list \<Rightarrow> StreamResult list" where
  "probe_paths se err k succeeded failures [] = []"
| "probe_paths se err k succeeded failures (p # ps) =
     (if succeeded = 0 \<and> streamIsolationProbes \<le> failures then map (\<lambda>p. failed_result p err) (p # ps)
      else (case se_push se k [p] of
              Some perr \<Rightarrow> failed_result p perr # probe_paths se err (k + 1) succeeded (failures + 1) ps
            | None \<Rightarrow> stream_result se 0 p True '''' # probe_paths se err (k + 1) (succeeded + 1) failures ps))"

definition upload_batch :: "stream_env \<Rightarrow> string list \<Rightarrow> StreamResult list" where
  "upload_batch se batch =
     (case se_push se 0 batch of
        None \<Rightarrow> map (\<lambda>p. stream_result se 0 p True '''') batch
      | Some err \<Rightarrow>
          if length batch = 1 \<or> se_ended se 1 then map (\<lambda>p. failed_result p err) batch
          else probe_paths se err 1 0 0 batch)"

lemma result_paths [simp]:
  "sr_Path (failed_result p msg) = p" "\<not> sr_ok (failed_result p msg)"
  "sr_Path (stream_result se i p ok msg) = p" "sr_ok (stream_result se i p ok msg) = ok"
  by (simp_all add: failed_result_def stream_result_def Let_def)

lemma probe_paths_path: "map sr_Path (probe_paths se err k m n ps) = ps"
  by (induction se err k m n ps rule: probe_paths.induct) (auto split: option.splits simp: comp_def)

section \<open>The loop\<close>

datatype job = Batch "string list" | Request string

definition job_results :: "stream_env \<Rightarrow> job \<Rightarrow> StreamResult list" where
  "job_results se j = (case j of Batch ps \<Rightarrow> upload_batch se ps | Request line \<Rightarrow> uploadRequest se line)"

text \<open>
  The lines not yet read, those in the channel and those the loop took, the batch that is collected, the
  jobs that run, the results, and whether the loop has ended; \<open>ss_cancelled\<close> when its context did.
\<close>

record stream_state =
  ss_source :: "string list"
  ss_lines :: "string list"
  ss_taken :: "string list"
  ss_batch :: "string list"
  ss_running :: "job list"
  ss_out :: "StreamResult list"
  ss_ended :: bool
  ss_cancelled :: bool

definition stream_start :: "string list \<Rightarrow> stream_state" where
  "stream_start input = \<lparr>ss_source = input, ss_lines = [], ss_taken = [], ss_batch = [], ss_running = [], ss_out = [],
     ss_ended = False, ss_cancelled = False\<rparr>"

definition is_request :: "string \<Rightarrow> bool" where
  "is_request line \<longleftrightarrow> has_prefix line ''{''"

text \<open>
  One step of the pusher with \<open>parallel\<close> slots and batches of \<open>batchSize\<close>: the reader passes a line on
  (\<open>read\<close>), the loop takes one into the batch, starts the batch or a request when there is a slot, and ends
  with the input or the context; a job reports and frees its slot. What a job finds is left open.
\<close>

inductive stream_step :: "nat \<Rightarrow> nat \<Rightarrow> (string \<Rightarrow> (u64 \<times> string list) option) \<Rightarrow> stream_state \<Rightarrow> stream_state \<Rightarrow> bool"
  for parallel batchSize parse where
  read: "ss_source s = line # rest \<Longrightarrow> length (ss_lines s) < batchSize * parallel \<Longrightarrow>
    stream_step parallel batchSize parse s
      (if trim_space line = '''' then s\<lparr>ss_source := rest\<rparr>
       else s\<lparr>ss_source := rest, ss_lines := ss_lines s @ [trim_space line]\<rparr>)"
| take_path: "\<not> ss_ended s \<Longrightarrow> ss_lines s = line # rest \<Longrightarrow> \<not> is_request line \<Longrightarrow> length (ss_batch s) + 1 < batchSize \<Longrightarrow>
    stream_step parallel batchSize parse s
      (s\<lparr>ss_lines := rest, ss_taken := ss_taken s @ [line], ss_batch := ss_batch s @ [line]\<rparr>)"
| take_full: "\<not> ss_ended s \<Longrightarrow> ss_lines s = line # rest \<Longrightarrow> \<not> is_request line \<Longrightarrow> batchSize \<le> length (ss_batch s) + 1 \<Longrightarrow>
    length (ss_running s) < parallel \<Longrightarrow>
    stream_step parallel batchSize parse s
      (s\<lparr>ss_lines := rest, ss_taken := ss_taken s @ [line], ss_batch := [],
         ss_running := ss_running s @ [Batch (ss_batch s @ [line])]\<rparr>)"
| take_request: "\<not> ss_ended s \<Longrightarrow> ss_lines s = line # rest \<Longrightarrow> is_request line \<Longrightarrow> ss_batch s = [] \<Longrightarrow>
    length (ss_running s) < parallel \<Longrightarrow>
    stream_step parallel batchSize parse s
      (s\<lparr>ss_lines := rest, ss_taken := ss_taken s @ [line], ss_running := ss_running s @ [Request line]\<rparr>)"
| start_batch: "ss_batch s \<noteq> [] \<Longrightarrow> length (ss_running s) < parallel \<Longrightarrow>
    stream_step parallel batchSize parse s (s\<lparr>ss_batch := [], ss_running := ss_running s @ [Batch (ss_batch s)]\<rparr>)"
| end_input: "\<not> ss_ended s \<Longrightarrow> ss_source s = [] \<Longrightarrow> ss_lines s = [] \<Longrightarrow>
    stream_step parallel batchSize parse s (s\<lparr>ss_ended := True\<rparr>)"
| cancel: "\<not> ss_ended s \<Longrightarrow> stream_step parallel batchSize parse s (s\<lparr>ss_ended := True, ss_cancelled := True\<rparr>)"
| report: "ss_running s = js1 @ j # js2 \<Longrightarrow> se_parse se = parse \<Longrightarrow>
    stream_step parallel batchSize parse s (s\<lparr>ss_running := js1 @ js2, ss_out := ss_out s @ job_results se j\<rparr>)"

definition stream_done :: "stream_state \<Rightarrow> bool" where
  "stream_done s \<longleftrightarrow> ss_ended s \<and> ss_batch s = [] \<and> ss_running s = []"

section \<open>Every path is reported\<close>

definition paths_of :: "(string \<Rightarrow> (u64 \<times> string list) option) \<Rightarrow> string \<Rightarrow> string list" where
  "paths_of parse line =
     (if is_request line
      then (case parse line of None \<Rightarrow> [line] | Some (i, ps) \<Rightarrow> if ps = [] then [line] else ps)
      else [line])"

definition job_paths :: "(string \<Rightarrow> (u64 \<times> string list) option) \<Rightarrow> job \<Rightarrow> string list" where
  "job_paths parse j = (case j of Batch ps \<Rightarrow> ps | Request line \<Rightarrow> paths_of parse line)"

definition nonblank :: "string list \<Rightarrow> string list" where
  "nonblank input = filter (\<lambda>line. line \<noteq> '''') (map trim_space input)"

lemma upload_batch_paths: "map sr_Path (upload_batch se batch) = batch"
  by (auto simp: upload_batch_def probe_paths_path comp_def split: option.split)

lemma job_results_paths:
  "(case j of Batch ps \<Rightarrow> True | Request line \<Rightarrow> is_request line) \<Longrightarrow> se_parse se = parse \<Longrightarrow>
   map sr_Path (job_results se j) = job_paths parse j"
  by (auto simp: job_results_def job_paths_def upload_batch_paths uploadRequest_def paths_of_def comp_def split: job.splits option.splits)

definition stream_inv :: "nat \<Rightarrow> nat \<Rightarrow> (string \<Rightarrow> (u64 \<times> string list) option) \<Rightarrow> string list \<Rightarrow> stream_state \<Rightarrow> bool" where
  "stream_inv parallel batchSize parse input s \<longleftrightarrow>
     ss_taken s @ ss_lines s @ nonblank (ss_source s) = nonblank input \<and>
     mset (concat (map (paths_of parse) (ss_taken s))) =
       mset (map sr_Path (ss_out s)) + mset (concat (map (job_paths parse) (ss_running s))) + mset (ss_batch s) \<and>
     (\<forall>j \<in> set (ss_running s). case j of Batch ps \<Rightarrow> length ps \<le> batchSize | Request line \<Rightarrow> is_request line) \<and>
     length (ss_running s) \<le> parallel \<and> length (ss_batch s) < batchSize \<and>
     (ss_ended s \<and> \<not> ss_cancelled s \<longrightarrow> ss_source s = [] \<and> ss_lines s = [])"

lemma stream_inv_start: "0 < batchSize \<Longrightarrow> stream_inv parallel batchSize parse input (stream_start input)"
  by (simp add: stream_inv_def stream_start_def)

lemma stream_inv_step:
  assumes "stream_step parallel batchSize parse s s'" "stream_inv parallel batchSize parse input s"
  shows "stream_inv parallel batchSize parse input s'"
  using assms
proof (induction rule: stream_step.induct)
  case (read s line rest)
  then show ?case by (auto simp: stream_inv_def nonblank_def)
next
  case (take_path s line rest)
  then show ?case by (auto simp: stream_inv_def paths_of_def)
next
  case (take_full s line rest)
  then show ?case by (auto simp: stream_inv_def paths_of_def job_paths_def)
next
  case (take_request s line rest)
  then show ?case by (auto simp: stream_inv_def job_paths_def)
next
  case (start_batch s)
  then show ?case by (auto simp: stream_inv_def job_paths_def)
next
  case (report s js1 j js2 se)
  have "mset (map sr_Path (job_results se j)) = mset (job_paths parse j)"
    using report by (subst job_results_paths) (auto simp: stream_inv_def split: job.splits)
  then have "mset (map sr_Path (ss_out s @ job_results se j)) + mset (concat (map (job_paths parse) (js1 @ js2))) =
      mset (map sr_Path (ss_out s)) + mset (concat (map (job_paths parse) (ss_running s)))"
    using report(1) by simp
  with report show ?case by (simp add: stream_inv_def)
qed (auto simp: stream_inv_def)

text \<open>Nothing goes on for ever: every step uses up some of what there is to do.\<close>

definition stream_work :: "stream_state \<Rightarrow> nat" where
  "stream_work s = 5 * length (ss_source s) + 4 * length (ss_lines s) + 2 * length (ss_batch s) + length (ss_running s) +
     (if ss_ended s then 0 else 1)"

lemma stream_step_work: "stream_step parallel batchSize parse s s' \<Longrightarrow> stream_work s' < stream_work s"
  by (induction rule: stream_step.induct) (auto simp: stream_work_def neq_Nil_conv)

lemma stream_stuck:
  assumes inv: "stream_inv parallel batchSize parse input s" and p: "0 < parallel" "0 < batchSize"
    and stuck: "\<And>s'. \<not> stream_step parallel batchSize parse s s'"
  shows "stream_done s"
proof -
  have run: "ss_running s = []"
  proof (rule ccontr)
    assume "ss_running s \<noteq> []"
    then obtain j js where j: "ss_running s = [] @ j # js" by (cases "ss_running s") auto
    let ?se = "\<lparr>se_push = (\<lambda>k ps. None), se_ended = (\<lambda>k. False), se_Signatures = (\<lambda>p. []), se_Skipped = (\<lambda>p. ''''), se_parse = parse\<rparr>"
    have "se_parse ?se = parse" by simp
    from stuck stream_step.report [OF j this] show False by blast
  qed
  have batch: "ss_batch s = []" using stuck stream_step.start_batch [of s parallel batchSize parse] run p by auto
  have ended: "ss_ended s" using stuck stream_step.cancel by blast
  with run batch show ?thesis by (simp add: stream_done_def)
qed


definition no_request :: "string \<Rightarrow> (u64 \<times> string list) option" where
  "no_request line = None"


lemma probe_paths_results:
  assumes single: "\<And>k p. 0 < k \<Longrightarrow> se_push se k [p] = None \<longleftrightarrow> p \<notin> bad"
  shows "0 < k \<Longrightarrow> 0 < succeeded \<or> failures + length (filter (\<lambda>p. p \<in> bad) ps) \<le> streamIsolationProbes - 1 \<Longrightarrow>
    map (\<lambda>r. (sr_Path r, sr_ok r)) (probe_paths se err k succeeded failures ps) = map (\<lambda>p. (p, p \<notin> bad)) ps"
proof (induction ps arbitrary: k succeeded failures)
  case (Cons p ps)
  have go: "\<not> (succeeded = 0 \<and> streamIsolationProbes \<le> failures)"
    using Cons.prems(2) by (auto simp: streamIsolationProbes_def)
  show ?case
  proof (cases "se_push se k [p]")
    case None
    with single Cons.prems(1) have "p \<notin> bad" by blast
    with Cons.IH [of "k + 1" "succeeded + 1" failures] go None show ?thesis by simp
  next
    case (Some perr)
    with single [OF Cons.prems(1), of p] have "p \<in> bad" by auto
    with Cons.IH [of "k + 1" succeeded "failures + 1"] Cons.prems go Some show ?thesis by auto
  qed
qed simp

lemma probe_paths_honest:
  "r \<in> set (probe_paths se err k succeeded failures ps) \<Longrightarrow> sr_ok r \<Longrightarrow> \<exists>k. se_push se k [sr_Path r] = None"
  by (induction se err k succeeded failures ps rule: probe_paths.induct) (auto split: if_splits option.splits)

text \<open>
  A bad path only costs itself. A path is reported as cached only after a push of its batch or of the
  path alone succeeded; and when a batch fails because of fewer than three paths, whose pushes fail, every
  other path of it is pushed and reported as cached, in the order of the batch.
\<close>
theorem upload_batch_isolates:
  assumes single: "\<And>k p. 0 < k \<Longrightarrow> se_push se k [p] = None \<longleftrightarrow> p \<notin> bad"
    and batch: "se_push se 0 batch = None \<longleftrightarrow> set batch \<inter> bad = {}" and few: "length (filter (\<lambda>p. p \<in> bad) batch) < 3"
    and live: "\<not> se_ended se 1"
  shows "map (\<lambda>r. (sr_Path r, sr_ok r)) (upload_batch se batch) = map (\<lambda>p. (p, p \<notin> bad)) batch \<and>
    (\<forall>r \<in> set (upload_batch se batch). sr_ok r \<longrightarrow> se_push se 0 batch = None \<or> (\<exists>k. se_push se k [sr_Path r] = None))"
proof (cases "se_push se 0 batch")
  case None
  with batch have "\<forall>p \<in> set batch. p \<notin> bad" by auto
  with None show ?thesis by (simp add: upload_batch_def comp_def)
next
  case (Some err)
  with batch obtain b where b: "b \<in> set batch" "b \<in> bad" by auto
  show ?thesis
  proof (cases "length batch = 1")
    case True
    with b have "batch = [b]" by (cases batch) auto
    with Some b show ?thesis by (simp add: upload_batch_def)
  next
    case False
    with Some live have run: "upload_batch se batch = probe_paths se err 1 0 0 batch" by (simp add: upload_batch_def)
    have "map (\<lambda>r. (sr_Path r, sr_ok r)) (probe_paths se err 1 0 0 batch) = map (\<lambda>p. (p, p \<notin> bad)) batch"
      by (rule probe_paths_results [OF single]) (use few in \<open>auto simp: streamIsolationProbes_def\<close>)
    then show ?thesis unfolding run using probe_paths_honest by blast
  qed
qed

theorem upload_batch_isolates_witness:
  "map (\<lambda>r. (sr_Path r, sr_ok r)) (upload_batch
     \<lparr>se_push = (\<lambda>k ps. if ''/b'' \<in> set ps then Some ''unreadable'' else None), se_ended = (\<lambda>k. False), se_Signatures = (\<lambda>p. []),
      se_Skipped = (\<lambda>p. ''''), se_parse = no_request\<rparr> [''/a'', ''/b'', ''/c'']) =
   [(''/a'', True), (''/b'', False), (''/c'', True)]"
  by (subst conjunct1 [OF upload_batch_isolates [where bad = "{''/b''}"]]) auto

end
