(* ===== verification/Tokens.thy ===== *)
theory Tokens
  imports Startup ClientPush RateLimit
begin

text \<open>
  Where a client gets its bearer token from: the sources and their caches (\<open>src/client/token.go\<close>), the
  splitting of the command of a token script (\<open>src/client/shellsplit.go\<close>), and the choice of the source
  from flags and environment (\<open>src/cmdutil/cmdutil.go\<close>).
\<close>

section \<open>Splitting a command\<close>

datatype quoting = Unquoted | Single | Double

record splitting =
  sp_words :: "string list"
  sp_cur :: string
  sp_started :: bool
  sp_state :: quoting
  sp_escaped :: bool

abbreviation quote :: char where "quote \<equiv> CHR 0x27"
abbreviation dquote :: char where "dquote \<equiv> CHR 0x22"
abbreviation backslash :: char where "backslash \<equiv> CHR 0x5C"

definition blank :: "char \<Rightarrow> bool" where
  "blank c \<longleftrightarrow> c \<in> {CHR '' '', CHR 0x09, CHR 0x0A}"

definition split_init :: splitting where
  "split_init = \<lparr>sp_words = [], sp_cur = '''', sp_started = False, sp_state = Unquoted, sp_escaped = False\<rparr>"

text \<open>
  One character. The source goes over the code points of a command in UTF-8; the characters it looks for
  are ASCII, so bytes come to the same.
\<close>

definition split_step :: "char \<Rightarrow> splitting \<Rightarrow> splitting" where
  "split_step r s =
     (let add = s\<lparr>sp_cur := sp_cur s @ [r]\<rparr> in
      if sp_escaped s then add\<lparr>sp_started := True, sp_escaped := False\<rparr>
      else (case sp_state s of
              Unquoted \<Rightarrow>
                if r = backslash then s\<lparr>sp_escaped := True, sp_started := True\<rparr>
                else if r = quote then s\<lparr>sp_state := Single, sp_started := True\<rparr>
                else if r = dquote then s\<lparr>sp_state := Double, sp_started := True\<rparr>
                else if blank r then (if sp_started s then s\<lparr>sp_words := sp_words s @ [sp_cur s], sp_cur := '''', sp_started := False\<rparr> else s)
                else add\<lparr>sp_started := True\<rparr>
            | Single \<Rightarrow> if r = quote then s\<lparr>sp_state := Unquoted\<rparr> else add
            | Double \<Rightarrow>
                if r = backslash then s\<lparr>sp_escaped := True\<rparr>
                else if r = dquote then s\<lparr>sp_state := Unquoted\<rparr>
                else add))"

definition shellSplit :: "string \<Rightarrow> string + string list" where
  "shellSplit str =
     (let s = fold split_step str split_init in
      if sp_escaped s then Inl ''trailing backslash''
      else if sp_state s \<noteq> Unquoted then Inl ''unterminated quote''
      else Inr (sp_words s @ (if sp_started s then [sp_cur s] else [])))"

section \<open>Token sources\<close>

text \<open>
  A call of a source: the readings of the clock in its course, in nanoseconds, the files as they are
  at the time, and what the commands print, parsed: a token and when it expires. No output is a command
  that failed or printed no such document.
\<close>

record token_call =
  tc_now :: int
  tc_mid :: int
  tc_done :: int
  tc_file :: "string \<Rightarrow> string option"
  tc_script :: "string list \<Rightarrow> (string \<times> int option) option"

record file_cache =
  fc_cached :: string
  fc_read_at :: int

record script_cache =
  sc_cached :: string
  sc_refresh_at :: "int option"

datatype TokenSource = NoToken | StaticToken string | FileToken string file_cache | ScriptToken string script_cache

definition fileRereadInterval :: int where
  "fileRereadInterval = 60 * second"

definition new_file_token :: "string \<Rightarrow> TokenSource" where
  "new_file_token path = FileToken path \<lparr>fc_cached = '''', fc_read_at = 0\<rparr>"

definition new_script_token :: "string \<Rightarrow> TokenSource" where
  "new_script_token script = ScriptToken script \<lparr>sc_cached = '''', sc_refresh_at = None\<rparr>"

definition file_token :: "token_call \<Rightarrow> string \<Rightarrow> file_cache \<Rightarrow> (string + string) \<times> file_cache" where
  "file_token c path s =
     (if fc_cached s \<noteq> '''' \<and> tc_now c - fc_read_at s < fileRereadInterval then (Inr (fc_cached s), s)
      else (case tc_file c path of
              None \<Rightarrow> (Inl ''reading auth token file'', s)
            | Some content \<Rightarrow>
                (let tok = trim_space content in
                 if tok = '''' then (Inl ''auth token file is empty'', s)
                 else (Inr tok, \<lparr>fc_cached = tok, fc_read_at = tc_done c\<rparr>))))"

definition runTokenScript :: "token_call \<Rightarrow> string \<Rightarrow> string + (string \<times> int option)" where
  "runTokenScript c script =
     (case shellSplit script of
        Inl err \<Rightarrow> Inl err
      | Inr argv \<Rightarrow>
          if argv = [] then Inl ''auth token script is empty''
          else (case tc_script c argv of None \<Rightarrow> Inl ''running auth token script'' | Some out \<Rightarrow> Inr out))"

definition scriptRefreshFraction :: rat where
  "scriptRefreshFraction = 3 / 4"

text \<open>The difference of two times saturates, and is multiplied in floating point.\<close>

definition time_sub :: "int \<Rightarrow> int \<Rightarrow> int" where
  "time_sub a b = max (- (2 ^ 63)) (min (2 ^ 63 - 1) (a - b))"

definition refresh_after :: "int \<Rightarrow> int" where
  "refresh_after lifetime = \<lfloor>f64_mul (f64_round (of_int lifetime)) scriptRefreshFraction\<rfloor>"

definition script_token :: "token_call \<Rightarrow> string \<Rightarrow> script_cache \<Rightarrow> (string + string) \<times> script_cache" where
  "script_token c script s =
     (if sc_cached s \<noteq> '''' \<and> (case sc_refresh_at s of None \<Rightarrow> False | Some t \<Rightarrow> tc_now c < t) then (Inr (sc_cached s), s)
      else (case runTokenScript c script of
              Inl err \<Rightarrow> (Inl err, s)
            | Inr (tok, expires) \<Rightarrow>
                if tok = '''' then (Inl ''auth token script returned empty token'', s)
                else (Inr tok, \<lparr>sc_cached = tok, sc_refresh_at =
                        (case expires of
                           None \<Rightarrow> None
                         | Some e \<Rightarrow> (let lifetime = time_sub e (tc_mid c) in
                                      if 0 < lifetime then Some (tc_done c + refresh_after lifetime) else None))\<rparr>)))"

definition Token :: "token_call \<Rightarrow> TokenSource \<Rightarrow> (string + string) \<times> TokenSource" where
  "Token c src =
     (case src of
        NoToken \<Rightarrow> (Inr '''', src)
      | StaticToken tok \<Rightarrow> (Inr tok, src)
      | FileToken path s \<Rightarrow> (case file_token c path s of (r, s) \<Rightarrow> (r, FileToken path s))
      | ScriptToken script s \<Rightarrow> (case script_token c script s of (r, s) \<Rightarrow> (r, ScriptToken script s)))"

section \<open>The choice of a source\<close>

text \<open>\<open>os.UserHomeDir\<close> is \<open>$HOME\<close>; \<open>exists\<close> is what \<open>os.Stat\<close> says.\<close>

definition DefaultAuthTokenPath :: "host \<Rightarrow> string" where
  "DefaultAuthTokenPath h =
     (let configDir = getEnvOrDefault h ''XDG_CONFIG_HOME'' '''';
          home = getEnvOrDefault h ''HOME'' ''''
      in if configDir \<noteq> '''' then path_join (path_join configDir ''niks3'') ''auth-token''
         else if home = '''' then ''''
         else path_join (path_join (path_join home ''.config'') ''niks3'') ''auth-token'')"

definition envAuthTokenPath :: "host \<Rightarrow> (string \<Rightarrow> bool) \<Rightarrow> string" where
  "envAuthTokenPath h exists =
     (let p = getEnvOrDefault h ''NIKS3_AUTH_TOKEN_FILE'' '''' in
      if p \<noteq> '''' then p
      else (let p = DefaultAuthTokenPath h in if p = '''' \<or> \<not> exists p then '''' else p))"

definition ResolveTokenSource ::
  "host \<Rightarrow> (string \<Rightarrow> bool) \<Rightarrow> string \<Rightarrow> string \<Rightarrow> string \<Rightarrow> bool \<Rightarrow> string + TokenSource" where
  "ResolveTokenSource h exists flagToken flagTokenPath flagTokenScript hasMTLS =
     (if flagTokenScript \<noteq> '''' then Inr (new_script_token flagTokenScript)
      else if flagTokenPath \<noteq> '''' then Inr (new_file_token flagTokenPath)
      else if flagToken \<noteq> '''' then Inr (StaticToken flagToken)
      else if envAuthTokenPath h exists \<noteq> '''' then Inr (new_file_token (envAuthTokenPath h exists))
      else if hasMTLS then Inr NoToken
      else Inl ''auth token is required'')"

section \<open>What a command means\<close>

text \<open>
  The grammar of the comment of \<open>shellSplit\<close>: pieces stand for characters, adjacent pieces make a word,
  blanks separate words.
\<close>

inductive dquoted :: "string \<Rightarrow> string \<Rightarrow> bool" where
  empty: "dquoted [] []"
| char: "dquoted s w \<Longrightarrow> c \<noteq> backslash \<Longrightarrow> c \<noteq> dquote \<Longrightarrow> dquoted (s @ [c]) (w @ [c])"
| escape: "dquoted s w \<Longrightarrow> dquoted (s @ [backslash, c]) (w @ [c])"

inductive piece :: "string \<Rightarrow> string \<Rightarrow> bool" where
  plain: "c \<notin> {backslash, quote, dquote} \<Longrightarrow> \<not> blank c \<Longrightarrow> piece [c] [c]"
| escaped: "piece [backslash, c] [c]"
| single: "quote \<notin> set w \<Longrightarrow> piece (quote # w @ [quote]) w"
| double: "dquoted s w \<Longrightarrow> piece (dquote # s @ [dquote]) w"

inductive spelled :: "string \<Rightarrow> string \<Rightarrow> bool" where
  empty: "spelled [] []"
| more: "spelled s w \<Longrightarrow> piece p v \<Longrightarrow> spelled (s @ p) (w @ v)"

inductive sentence :: "string \<Rightarrow> string list \<Rightarrow> bool" where
  empty: "sentence [] []"
| blank: "sentence s ws \<Longrightarrow> blank c \<Longrightarrow> sentence (s @ [c]) ws"
| word: "sentence s ws \<Longrightarrow> spelled b w \<Longrightarrow> b \<noteq> [] \<Longrightarrow> blank c \<Longrightarrow> sentence (s @ b @ [c]) (ws @ [w])"

definition shell_words :: "string \<Rightarrow> string list \<Rightarrow> bool" where
  "shell_words str ws \<longleftrightarrow> (\<exists>a b vs w. str = a @ b \<and> sentence a vs \<and> spelled b w \<and> ws = vs @ (if b = [] then [] else [w]))"

text \<open>Reading what was spelled.\<close>

abbreviation reading :: "string list \<Rightarrow> string \<Rightarrow> bool \<Rightarrow> quoting \<Rightarrow> bool \<Rightarrow> splitting" where
  "reading ws cur st q esc \<equiv> \<lparr>sp_words = ws, sp_cur = cur, sp_started = st, sp_state = q, sp_escaped = esc\<rparr>"

lemma split_step_reading [simp]:
  "split_step r (reading ws cur st q True) = reading ws (cur @ [r]) True q False"
  "split_step backslash (reading ws cur st Unquoted False) = reading ws cur True Unquoted True"
  "split_step quote (reading ws cur st Unquoted False) = reading ws cur True Single False"
  "split_step dquote (reading ws cur st Unquoted False) = reading ws cur True Double False"
  "blank r \<Longrightarrow> split_step r (reading ws cur st Unquoted False) =
     (if st then reading (ws @ [cur]) [] False Unquoted False else reading ws cur st Unquoted False)"
  "r \<notin> {backslash, quote, dquote} \<Longrightarrow> \<not> blank r \<Longrightarrow>
     split_step r (reading ws cur st Unquoted False) = reading ws (cur @ [r]) True Unquoted False"
  "split_step quote (reading ws cur st Single False) = reading ws cur st Unquoted False"
  "r \<noteq> quote \<Longrightarrow> split_step r (reading ws cur st Single False) = reading ws (cur @ [r]) st Single False"
  "split_step backslash (reading ws cur st Double False) = reading ws cur st Double True"
  "split_step dquote (reading ws cur st Double False) = reading ws cur st Unquoted False"
  "r \<noteq> backslash \<Longrightarrow> r \<noteq> dquote \<Longrightarrow> split_step r (reading ws cur st Double False) = reading ws (cur @ [r]) st Double False"
  by (auto simp: split_step_def Let_def blank_def)

lemma read_dquoted [simp]:
  "dquoted s w \<Longrightarrow> fold split_step s (reading ws cur True Double False) = reading ws (cur @ w) True Double False"
  by (induction rule: dquoted.induct) simp_all

lemma read_single [simp]:
  "quote \<notin> set w \<Longrightarrow> fold split_step w (reading ws cur True Single False) = reading ws (cur @ w) True Single False"
  by (induction w arbitrary: cur) (simp_all add: eq_commute [of quote])

lemma read_piece [simp]: "piece p v \<Longrightarrow> fold split_step p (reading ws cur st Unquoted False) = reading ws (cur @ v) True Unquoted False"
  by (induction rule: piece.induct) simp_all

lemma piece_nonempty: "piece p v \<Longrightarrow> p \<noteq> []"
  by (induction rule: piece.induct) simp_all

lemma read_spelled [simp]:
  "spelled b w \<Longrightarrow> fold split_step b (reading ws [] False Unquoted False) = reading ws w (b \<noteq> []) Unquoted False"
  by (induction rule: spelled.induct) (simp_all add: piece_nonempty)

lemma read_sentence: "sentence s ws \<Longrightarrow> fold split_step s split_init = reading ws [] False Unquoted False"
  by (induction rule: sentence.induct) (simp_all add: split_init_def)

lemma shellSplit_complete: "shell_words str ws \<Longrightarrow> shellSplit str = Inr ws"
  by (auto simp: shell_words_def shellSplit_def Let_def read_sentence elim: spelled.cases)

text \<open>What was read up to some point: whole words, then pieces of one, then perhaps an open quotation.\<close>

fun open_piece :: "quoting \<Rightarrow> bool \<Rightarrow> string \<Rightarrow> string \<Rightarrow> bool" where
  "open_piece Unquoted False q v \<longleftrightarrow> q = [] \<and> v = []"
| "open_piece Unquoted True q v \<longleftrightarrow> q = [backslash] \<and> v = []"
| "open_piece Single False q v \<longleftrightarrow> (\<exists>x. q = quote # x \<and> v = x \<and> quote \<notin> set x)"
| "open_piece Single True q v \<longleftrightarrow> False"
| "open_piece Double False q v \<longleftrightarrow> (\<exists>x. q = dquote # x \<and> dquoted x v)"
| "open_piece Double True q v \<longleftrightarrow> (\<exists>x. q = dquote # x @ [backslash] \<and> dquoted x v)"

definition read_so_far :: "string \<Rightarrow> splitting \<Rightarrow> bool" where
  "read_so_far str s \<longleftrightarrow> (\<exists>a b q w v. str = a @ b @ q \<and> sentence a (sp_words s) \<and> spelled b w \<and>
     open_piece (sp_state s) (sp_escaped s) q v \<and> sp_cur s = w @ v \<and> (sp_started s \<longleftrightarrow> b @ q \<noteq> []))"

lemma spelled_piece: "spelled b w \<Longrightarrow> piece (q @ [r]) v \<Longrightarrow> spelled (b @ q @ [r]) (w @ v)"
  by (rule spelled.more)

lemma read_so_farI:
  assumes "str = a @ b @ q" "sentence a ws" "spelled b w" "open_piece st e q v" "cur = w @ v" "started = (b @ q \<noteq> [])"
  shows "read_so_far str (reading ws cur started st e)"
  unfolding read_so_far_def
  by (rule exI [of _ a], rule exI [of _ b], rule exI [of _ q], rule exI [of _ w], rule exI [of _ v]) (simp add: assms)

lemma spelled_Nil: "spelled [] w \<Longrightarrow> w = []"
  by (erule spelled.cases) (auto dest: piece_nonempty)

lemma read_step:
  assumes "read_so_far str s"
  shows "read_so_far (str @ [r]) (split_step r s)"
proof -
  obtain ws cur st q0 e where s: "s = reading ws cur st q0 e" by (cases s) auto
  obtain a b q w v where d: "str = a @ b @ q" "sentence a ws" "spelled b w" "open_piece q0 e q v" "cur = w @ v" "st = (b @ q \<noteq> [])"
    using assms unfolding s read_so_far_def by (elim exE conjE) (rule that, simp_all)
  have close: "read_so_far (str @ [r]) (reading ws cur' True Unquoted False)" if "piece (q @ [r]) v'" "cur' = w @ v'" for v' cur'
    by (rule read_so_farI [where a = a and b = "b @ q @ [r]" and q = "[]" and v = "[]"])
      (use d that spelled_piece in auto)
  have keep: "read_so_far (str @ [r]) (reading ws cur' True st' e')" if "open_piece st' e' (q @ [r]) v'" "cur' = w @ v'" for v' cur' st' e'
    by (rule read_so_farI [where a = a and b = b and q = "q @ [r]" and v = v']) (use d that in auto)
  show ?thesis
  proof (cases e)
    case True
    show ?thesis
    proof (cases q0)
      case Unquoted
      with d(4) True have "q = [backslash]" "v = []" by simp_all
      then have "read_so_far (str @ [r]) (reading ws (cur @ [r]) True Unquoted False)"
        by (intro close [of "[r]"]) (simp_all add: piece.escaped d(5))
      then show ?thesis by (simp add: s Unquoted True)
    next
      case Double
      with d(4) True obtain x where "q = dquote # x @ [backslash]" "dquoted x v" by auto
      then have "read_so_far (str @ [r]) (reading ws (cur @ [r]) True Double False)"
        by (intro keep [of _ _ "v @ [r]"]) (auto intro: dquoted.escape simp: d(5))
      then show ?thesis by (simp add: s Double True)
    qed (use d(4) True in simp)
  next
    case False
    show ?thesis
    proof (cases q0)
      case Unquoted
      with d(4) False have q: "q = []" "v = []" by simp_all
      consider "r = backslash" | "r = quote" | "r = dquote" | "blank r" | "r \<notin> {backslash, quote, dquote}" "\<not> blank r" by blast
      then show ?thesis
      proof cases
        case 4
        have "read_so_far (str @ [r]) (reading (if st then ws @ [w] else ws) [] False Unquoted False)"
        proof (cases "b = []")
          case True
          then show ?thesis using d q 4
            by (intro read_so_farI [where a = "a @ [r]" and b = "[]" and w = "[]" and q = "[]" and v = "[]"])
              (auto intro: sentence.blank spelled.empty)
        next
          case False
          then show ?thesis using d q 4
            by (intro read_so_farI [where a = "a @ b @ [r]" and b = "[]" and w = "[]" and q = "[]" and v = "[]"])
              (auto intro: sentence.word spelled.empty)
        qed
        then show ?thesis using 4 d q by (auto simp: s Unquoted False dest: spelled_Nil)
      next
        case 1
        have "read_so_far (str @ [r]) (reading ws cur True Unquoted True)" by (rule keep [of _ _ "[]"]) (simp_all add: d(5) q 1)
        with 1 show ?thesis by (simp add: s Unquoted False)
      next
        case 2
        have "read_so_far (str @ [r]) (reading ws cur True Single False)" by (rule keep [of _ _ "[]"]) (simp_all add: d(5) q 2)
        with 2 show ?thesis by (simp add: s Unquoted False)
      next
        case 3
        have "read_so_far (str @ [r]) (reading ws cur True Double False)"
          by (rule keep [of _ _ "[]"]) (simp_all add: d(5) q 3 dquoted.empty)
        with 3 show ?thesis by (simp add: s Unquoted False)
      next
        case 5
        have "read_so_far (str @ [r]) (reading ws (cur @ [r]) True Unquoted False)"
          by (rule close [of "[r]"]) (use d(5) q 5 piece.plain in simp_all)
        with 5 show ?thesis by (simp add: s Unquoted False)
      qed
    next
      case Single
      with d(4) False have q: "q = quote # v" "quote \<notin> set v" by auto
      then have "st" using d(6) by simp
      have "read_so_far (str @ [r]) (if r = quote then reading ws cur True Unquoted False else reading ws (cur @ [r]) True Single False)"
        using close [of v cur] keep [of Single False "v @ [r]" "cur @ [r]"] q d(5) piece.single [of v] by (cases "r = quote") simp_all
      with \<open>st\<close> show ?thesis by (cases "r = quote") (simp_all add: s Single False)
    next
      case Double
      with d(4) False obtain x where q: "q = dquote # x" "dquoted x v" by auto
      then have "st" using d(6) by simp
      have "read_so_far (str @ [r]) (if r = dquote then reading ws cur True Unquoted False
          else if r = backslash then reading ws cur True Double True else reading ws (cur @ [r]) True Double False)"
        using close [of v cur] keep [of Double True v cur] keep [of Double False "v @ [r]" "cur @ [r]"] q d(5)
          piece.double [OF q(2)] dquoted.char [OF q(2), of r] by (cases "r = dquote"; cases "r = backslash") simp_all
      with \<open>st\<close> show ?thesis by (cases "r = dquote"; cases "r = backslash") (simp_all add: s Double False)
    qed
  qed
qed

lemma read_all: "read_so_far str (fold split_step str split_init)"
proof (induction str rule: rev_induct)
  case Nil
  show ?case unfolding split_init_def by (simp, rule read_so_farI [where a = "[]" and b = "[]" and w = "[]"])
    (auto intro: sentence.empty spelled.empty)
qed (simp add: read_step)

lemma shellSplit_sound:
  assumes "shellSplit str = Inr ws"
  shows "shell_words str ws"
proof -
  let ?s = "fold split_step str split_init"
  have e: "sp_state ?s = Unquoted" "sp_escaped ?s = False" "ws = sp_words ?s @ (if sp_started ?s then [sp_cur ?s] else [])"
    using assms by (auto simp: shellSplit_def Let_def split: if_splits)
  obtain a b q w v where d: "str = a @ b @ q" "sentence a (sp_words ?s)" "spelled b w"
    "open_piece (sp_state ?s) (sp_escaped ?s) q v" "sp_cur ?s = w @ v" "sp_started ?s \<longleftrightarrow> b @ q \<noteq> []"
    using read_all [of str] unfolding read_so_far_def by blast
  from d(4) e(1,2) have "q = []" "v = []" by simp_all
  with d e(3) show ?thesis unfolding shell_words_def
    by (intro exI [of _ a] exI [of _ b] exI [of _ "sp_words ?s"] exI [of _ w]) simp
qed

lemma shellSplit_example:
  "shellSplit (''sh  -c '' @ [quote] @ ''a  b'' @ [quote, dquote, backslash, dquote] @ ''c'' @ [dquote, CHR '' '', dquote, dquote]) =
     Inr [''sh'', ''-c'', ''a  b'' @ [dquote] @ ''c'', '''']"
  "shellSplit (''a'' @ [backslash]) = Inl ''trailing backslash''" "shellSplit [quote] = Inl ''unterminated quote''"
  by code_simp+

section \<open>Calls over time\<close>

text \<open>The calls of a source so far, the last one first; a source is locked during a call.\<close>

inductive token_step :: "TokenSource \<times> token_call list \<Rightarrow> TokenSource \<times> token_call list \<Rightarrow> bool" where
  call: "Token c src = (r, src') \<Longrightarrow> token_step (src, hist) (src', c # hist)"

inductive_cases token_stepE: "token_step (src, hist) s'"

text \<open>What is cached was obtained by a call, and is kept no longer than that call allows.\<close>

definition read_from :: "string \<Rightarrow> string \<Rightarrow> token_call \<Rightarrow> bool" where
  "read_from path tok c \<longleftrightarrow> (\<exists>content. tc_file c path = Some content \<and> trim_space content = tok)"

definition token_inv :: "TokenSource \<times> token_call list \<Rightarrow> bool" where
  "token_inv s = (case s of (src, hist) \<Rightarrow>
     (case src of
        FileToken path s \<Rightarrow> fc_cached s = '''' \<or> (\<exists>c \<in> set hist. fc_read_at s = tc_done c \<and> read_from path (fc_cached s) c)
      | ScriptToken script s \<Rightarrow> sc_cached s = '''' \<or>
          (\<exists>c \<in> set hist. \<exists>e. runTokenScript c script = Inr (sc_cached s, e) \<and>
             (case sc_refresh_at s of
                None \<Rightarrow> True
              | Some t \<Rightarrow> \<exists>x. e = Some x \<and> 0 < time_sub x (tc_mid c) \<and> t = tc_done c + refresh_after (time_sub x (tc_mid c))))
      | _ \<Rightarrow> True))"

lemma file_token_cases:
  assumes "file_token c path s = (r, s')"
  obtains (cached) "r = Inr (fc_cached s)" "s' = s" "fc_cached s \<noteq> ''''" "tc_now c - fc_read_at s < fileRereadInterval"
  | (failed) err where "r = Inl err" "s' = s"
  | (read) tok where "r = Inr tok" "tok \<noteq> ''''" "read_from path tok c" "s' = \<lparr>fc_cached = tok, fc_read_at = tc_done c\<rparr>"
proof (cases "fc_cached s \<noteq> '''' \<and> tc_now c - fc_read_at s < fileRereadInterval")
  case True
  with assms show ?thesis by (intro cached) (auto simp: file_token_def)
next
  case no_cache: False
  show ?thesis
  proof (cases "tc_file c path")
    case None
    with no_cache assms show ?thesis unfolding file_token_def by (intro failed) auto
  next
    case (Some content)
    show ?thesis
    proof (cases "trim_space content = ''''")
      case True
      with no_cache assms Some show ?thesis unfolding file_token_def by (intro failed) auto
    next
      case False
      with no_cache assms Some show ?thesis
        unfolding file_token_def by (intro read [of "trim_space content"]) (auto simp: read_from_def Let_def)
    qed
  qed
qed

lemma script_token_cases:
  assumes "script_token c script s = (r, s')"
  obtains (cached) t where "r = Inr (sc_cached s)" "s' = s" "sc_cached s \<noteq> ''''" "sc_refresh_at s = Some t" "tc_now c < t"
  | (failed) err where "r = Inl err" "s' = s"
  | (ran) tok e where "r = Inr tok" "tok \<noteq> ''''" "runTokenScript c script = Inr (tok, e)" "sc_cached s' = tok"
      "case sc_refresh_at s' of None \<Rightarrow> True
       | Some t \<Rightarrow> \<exists>x. e = Some x \<and> 0 < time_sub x (tc_mid c) \<and> t = tc_done c + refresh_after (time_sub x (tc_mid c))"
proof (cases "sc_cached s \<noteq> '''' \<and> (case sc_refresh_at s of None \<Rightarrow> False | Some t \<Rightarrow> tc_now c < t)")
  case True
  then obtain t where "sc_refresh_at s = Some t" "tc_now c < t" by (auto split: option.splits)
  with True assms show ?thesis by (intro cached [of t]) (auto simp: script_token_def)
next
  case no_cache: False
  show ?thesis
  proof (cases "runTokenScript c script")
    case (Inl err)
    with no_cache assms show ?thesis unfolding script_token_def by (intro failed) auto
  next
    case (Inr out)
    obtain tok e where out: "out = (tok, e)" by (cases out)
    show ?thesis
    proof (cases "tok = ''''")
      case True
      with no_cache assms Inr out show ?thesis unfolding script_token_def by (intro failed) auto
    next
      case False
      with no_cache assms Inr out have "r = Inr tok" "s' = \<lparr>sc_cached = tok, sc_refresh_at =
          (case e of None \<Rightarrow> None
           | Some e \<Rightarrow> (let lifetime = time_sub e (tc_mid c) in
                        if 0 < lifetime then Some (tc_done c + refresh_after lifetime) else None))\<rparr>"
        unfolding script_token_def by auto
      with False Inr out show ?thesis by (intro ran [of tok e]) (simp_all add: Let_def split: option.split)
    qed
  qed
qed

lemma Token_inv:
  assumes "Token c src = (r, src')" and "token_inv (src, hist)"
  shows "token_inv (src', c # hist)"
proof (cases src)
  case (FileToken path s)
  obtain s' where f: "file_token c path s = (r, s')" "src' = FileToken path s'"
    using assms(1) FileToken by (auto simp: Token_def split: prod.splits)
  show ?thesis using f(1)
    by (cases rule: file_token_cases) (use assms(2) in \<open>auto simp: token_inv_def FileToken f(2)\<close>)
next
  case (ScriptToken script s)
  obtain s' where f: "script_token c script s = (r, s')" "src' = ScriptToken script s'"
    using assms(1) ScriptToken by (auto simp: Token_def split: prod.splits)
  show ?thesis using f(1)
    by (cases rule: script_token_cases) (use assms(2) in \<open>auto simp: token_inv_def ScriptToken f(2)\<close>)
qed (use assms(1) in \<open>auto simp: Token_def token_inv_def\<close>)

interpretation token_calls: step_invariant token_step
  "\<lambda>s. \<exists>h exists tok path script mtls. ResolveTokenSource h exists tok path script mtls = Inr (fst s) \<and> snd s = []" token_inv
proof unfold_locales
  fix s :: "TokenSource \<times> token_call list"
  assume "\<exists>h exists tok path script mtls. ResolveTokenSource h exists tok path script mtls = Inr (fst s) \<and> snd s = []"
  then show "token_inv s"
    by (cases s) (auto simp: ResolveTokenSource_def token_inv_def new_file_token_def new_script_token_def split: if_splits)
next
  fix s s'
  assume "token_step s s'" "token_inv s"
  then show "token_inv s'" by (cases s) (auto elim!: token_stepE intro: Token_inv)
qed

lemma refresh_bound:
  assumes "0 < l" "l < 2 ^ 63"
  shows "100 * refresh_after l \<le> 76 * l"
proof (cases "l = 1")
  case True
  have "refresh_after 1 \<le> 0" by code_simp
  with True show ?thesis by simp
next
  case False
  let ?x = "of_int l :: rat" and ?a = "f64_round (of_int l)"
  have x: "2 \<le> ?x" using assms(1) False by simp
  with f64_round_error [of ?x] have a: "?x - ?x / 2 ^ 53 \<le> ?a" "?a \<le> ?x + ?x / 2 ^ 53" by linarith+
  with x have "1 \<le> ?a * scriptRefreshFraction" by (simp add: scriptRefreshFraction_def)
  from f64.mul_error [OF this] have "f64_mul ?a scriptRefreshFraction \<le> ?a * (3 / 4) + ?a * (3 / 4) / 2 ^ 53"
    unfolding scriptRefreshFraction_def by linarith
  with a(2) x have "f64_mul ?a scriptRefreshFraction \<le> 76 / 100 * ?x" by simp
  then have "of_int (refresh_after l) \<le> 76 / 100 * ?x" unfolding refresh_after_def by (rule order.trans [OF of_int_floor_le])
  then have "of_int (100 * refresh_after l) \<le> (of_int (76 * l) :: rat)" by simp
  then show ?thesis by (simp only: of_int_le_iff)
qed

section \<open>Properties\<close>

text \<open>
  C40: the command of a token script is split as a shell would: \<open>shellSplit\<close> returns exactly the words that
  the command spells, in quotes, with escapes or plain, and fails when there is no such reading.
\<close>
theorem shellSplit_words: "shellSplit str = Inr ws \<longleftrightarrow> shell_words str ws"
  using shellSplit_sound shellSplit_complete by blast

text \<open>
  C16: a token is never stale. Whatever calls came before, a token from a file was in the file at this call
  or at one that ended less than a minute before; a token from a script was printed at this call, or at
  one since which less than 76 percent of the token's remaining lifetime have passed; a token without
  an expiry is never given out twice without asking again. Neither is ever empty.
\<close>
theorem token_is_fresh:
  assumes "ResolveTokenSource h exists flagToken flagPath flagScript mtls = Inr src0"
    and "token_step\<^sup>*\<^sup>* (src0, []) (src, hist)" and "Token c src = (Inr tok, src')"
  shows "case src of
      NoToken \<Rightarrow> tok = ''''
    | StaticToken t \<Rightarrow> tok = t
    | FileToken path s \<Rightarrow> tok \<noteq> '''' \<and> (read_from path tok c \<or>
        (\<exists>c' \<in> set hist. read_from path tok c' \<and> tc_now c - tc_done c' < 60 * second))
    | ScriptToken script s \<Rightarrow> tok \<noteq> '''' \<and> ((\<exists>e. runTokenScript c script = Inr (tok, e)) \<or>
        (\<exists>c' \<in> set hist. \<exists>x. runTokenScript c' script = Inr (tok, Some x) \<and> 100 * (tc_now c - tc_done c') < 76 * (x - tc_mid c')))"
proof -
  have inv: "token_inv (src, hist)"
    by (rule token_calls.reachable_inv [OF _ assms(2)]) (use assms(1) in \<open>simp, blast\<close>)
  show ?thesis
  proof (cases src)
    case (FileToken path s)
    obtain s' where "file_token c path s = (Inr tok, s')" using assms(3) FileToken by (auto simp: Token_def split: prod.splits)
    then show ?thesis
      by (cases rule: file_token_cases) (use inv in \<open>auto simp: FileToken token_inv_def fileRereadInterval_def\<close>)
  next
    case (ScriptToken script s)
    obtain s' where "script_token c script s = (Inr tok, s')" using assms(3) ScriptToken by (auto simp: Token_def split: prod.splits)
    then show ?thesis
    proof (cases rule: script_token_cases)
      case (cached t)
      with inv obtain c' x where c': "c' \<in> set hist" "runTokenScript c' script = Inr (tok, Some x)"
        "0 < time_sub x (tc_mid c')" "t = tc_done c' + refresh_after (time_sub x (tc_mid c'))"
        by (auto simp: ScriptToken token_inv_def)
      have lt: "time_sub x (tc_mid c') < 2 ^ 63" and le: "time_sub x (tc_mid c') \<le> x - tc_mid c'"
        using c'(3) by (auto simp: time_sub_def)
      from refresh_bound [OF c'(3) lt] le c'(4) cached(5) have "100 * (tc_now c - tc_done c') < 76 * (x - tc_mid c')" by (simp add: algebra_simps)
      with c'(1,2) cached(1,3) show ?thesis by (auto simp: ScriptToken)
    qed (auto simp: ScriptToken)
  qed (use assms(3) in \<open>auto simp: Token_def\<close>)
qed

text \<open>A script whose token is good for 1000 nanoseconds, asked again after 700 of them.\<close>

definition call_at :: "int \<Rightarrow> (string \<times> int option) option \<Rightarrow> token_call" where
  "call_at t out = \<lparr>tc_now = t, tc_mid = t, tc_done = t, tc_file = (\<lambda>_. None),
     tc_script = (\<lambda>argv. if argv = [''get token''] then out else None)\<rparr>"

theorem token_is_fresh_witness:
  "\<exists>src src' c x. Token (call_at 0 (Some (''t'', Some 1000))) (new_script_token ([quote] @ ''get token'' @ [quote])) = (Inr ''t'', src) \<and>
     Token (call_at 700 None) src = (Inr ''t'', src') \<and>
     runTokenScript c ([quote] @ ''get token'' @ [quote]) = Inr (''t'', Some x) \<and>
     100 * (tc_now (call_at 700 None) - tc_done c) < 76 * (x - tc_mid c)"
proof -
  let ?c = "call_at 0 (Some (''t'', Some 1000))" and ?script = "[quote] @ ''get token'' @ [quote]"
  define src where "src = ScriptToken ?script \<lparr>sc_cached = ''t'', sc_refresh_at = Some 750\<rparr>"
  have r: "ResolveTokenSource bare_host (\<lambda>_. True) '''' '''' ?script False = Inr (new_script_token ?script)" by code_simp
  have argv: "shellSplit ?script = Inr [''get token'']" by code_simp
  have "refresh_after 1000 = 750" by code_simp
  then have 1: "Token ?c (new_script_token ?script) = (Inr ''t'', src)"
    unfolding src_def
    by (simp add: Token_def script_token_def new_script_token_def runTokenScript_def argv call_at_def time_sub_def del: append.simps)
  have 2: "Token (call_at 700 None) src = (Inr ''t'', src)" unfolding src_def by code_simp
  have no: "runTokenScript (call_at 700 None) ?script \<noteq> Inr (''t'', e)" for e
  proof -
    have "runTokenScript (call_at 700 None) ?script = Inl ''running auth token script''" by code_simp
    then show ?thesis by simp
  qed
  have "token_step\<^sup>*\<^sup>* (new_script_token ?script, []) (src, [?c])" by (rule r_into_rtranclp) (rule token_step.call [OF 1])
  from token_is_fresh [OF r this 2] no 1 2 show ?thesis unfolding src_def by auto
qed

end
