(* ===== verification/ClientGc.thy ===== *)
theory ClientGc
  imports Startup
begin

text \<open>
  The client's side of a garbage collection: the request that starts it and the loop that polls for its
  end (\<open>src/client/gc.go\<close>), against the handlers of \<open>Gc\<close> and the tasks of \<open>GcTasks\<close>.
\<close>

section \<open>Requests\<close>

text \<open>
  What a request comes back with: an error of the transport, or a status with what its body decodes
  to. Parameters of the query keep the order in which they are set.
\<close>

record gc_http_answer =
  gr_status :: nat
  gr_task :: "GCTaskStatus option"
  gr_conflict :: "(GCTaskStatus \<times> string) option"
  gr_body :: string

datatype gc_client_error =
    GcTransport string
  | GcConflictError GCTaskStatus string
  | GcStatusError nat string
  | GcUnreadable
  | GcCanceled
  | GcRunFailed string

definition gc_query_params :: "string \<Rightarrow> string \<Rightarrow> bool \<Rightarrow> (string \<times> string) list" where
  "gc_query_params olderThan failedUploadsOlderThan force =
     [(''older-than'', olderThan)] @
     (if failedUploadsOlderThan \<noteq> '''' then [(''failed-uploads-older-than'', failedUploadsOlderThan)] else []) @
     (if force then [(''force'', ''true'')] else [])"

definition StartGarbageCollection :: "string + gc_http_answer \<Rightarrow> gc_client_error + GCTaskStatus" where
  "StartGarbageCollection answer =
     (case answer of
        Inl err \<Rightarrow> Inl (GcTransport err)
      | Inr r \<Rightarrow>
          if gr_status r = 409
          then (case gr_conflict r of None \<Rightarrow> Inl GcUnreadable | Some (task, msg) \<Rightarrow> Inl (GcConflictError task msg))
          else if gr_status r \<noteq> 202 then Inl (GcStatusError (gr_status r) (gr_body r))
          else (case gr_task r of None \<Rightarrow> Inl GcUnreadable | Some status \<Rightarrow> Inr status))"

definition GetGCStatus :: "string + gc_http_answer \<Rightarrow> gc_client_error + GCTaskStatus" where
  "GetGCStatus answer =
     (case answer of
        Inl err \<Rightarrow> Inl (GcTransport err)
      | Inr r \<Rightarrow>
          if gr_status r \<noteq> 200 then Inl (GcStatusError (gr_status r) (gr_body r))
          else (case gr_task r of None \<Rightarrow> Inl GcUnreadable | Some status \<Rightarrow> Inr status))"

section \<open>The loop\<close>

definition not_found :: "gc_client_error \<Rightarrow> bool" where
  "not_found err = (case err of GcStatusError status body \<Rightarrow> status = 404 | _ \<Rightarrow> False)"

text \<open>The statistics of the last status, and an error if the run failed.\<close>

definition gc_outcome :: "GCTaskStatus \<Rightarrow> GCStats option \<times> gc_client_error option" where
  "gc_outcome status =
     (if ts_state status = GCTaskState.Failed then (Some (ts_stats status), Some (GcRunFailed (ts_error status)))
      else (Some (ts_stats status), None))"

text \<open>
  Polls are numbered; \<open>canceled\<close> says before which the context ends. The last phase is that of the last
  status: it is only set where it differs.
\<close>

partial_function (option) gc_poll ::
  "(nat \<Rightarrow> bool) \<Rightarrow> (nat \<Rightarrow> string + gc_http_answer) \<Rightarrow> nat \<Rightarrow> GCTaskStatus \<Rightarrow> (GCStats option \<times> gc_client_error option) option" where
  "gc_poll canceled answers n status =
     (if ts_state status \<noteq> Running then Some (gc_outcome status)
      else if canceled n then Some (None, Some GcCanceled)
      else (case GetGCStatus (answers n) of
              Inl err \<Rightarrow>
                if ts_phase status = OtherReplica \<and> not_found err then Some (Some zero_stats, None)
                else Some (None, Some err)
            | Inr status \<Rightarrow> gc_poll canceled answers (n + 1) status))"

declare gc_poll.simps [code]

definition RunGarbageCollection ::
  "string + gc_http_answer \<Rightarrow> (nat \<Rightarrow> bool) \<Rightarrow> (nat \<Rightarrow> string + gc_http_answer) \<Rightarrow> (GCStats option \<times> gc_client_error option) option" where
  "RunGarbageCollection start canceled answers =
     (case StartGarbageCollection start of
        Inl err \<Rightarrow> Some (None, Some err)
      | Inr status \<Rightarrow> gc_poll canceled answers 0 status)"

definition defaultGCPollInterval :: int where
  "defaultGCPollInterval = 2 * second"

definition gcPollInterval :: "int \<Rightarrow> int" where
  "gcPollInterval configured = (if 0 < configured then configured else defaultGCPollInterval)"

section \<open>The answers of the server\<close>

definition status_answer :: "GCTaskStatus reply \<Rightarrow> string + gc_http_answer" where
  "status_answer r = Inr
     (case r of
        HttpOk st status \<Rightarrow> \<lparr>gr_status = st, gr_task = Some status, gr_conflict = None, gr_body = ''''\<rparr>
      | HttpError st msg \<Rightarrow> \<lparr>gr_status = st, gr_task = None, gr_conflict = None, gr_body = msg\<rparr>)"

definition start_answer :: "gc_answer \<Rightarrow> string + gc_http_answer" where
  "start_answer a = Inr
     (case a of
        GcBadRequest msg \<Rightarrow> \<lparr>gr_status = 400, gr_task = None, gr_conflict = None, gr_body = msg\<rparr>
      | GcConflict status \<Rightarrow>
          \<lparr>gr_status = 409, gr_task = None,
           gr_conflict = Some (status, ''a different garbage collection is already running''), gr_body = ''''\<rparr>
      | GcAccepted status run \<Rightarrow> \<lparr>gr_status = 202, gr_task = Some status, gr_conflict = None, gr_body = ''''\<rparr>)"

text \<open>The goroutine of a new run is one of the running ones.\<close>

definition after_request :: "gc_answer \<Rightarrow> GCTaskStore \<Rightarrow> gc_server \<Rightarrow> gc_server" where
  "after_request a store s =
     \<lparr>gs_store = store, gs_running = (case a of GcAccepted status (Some (i, _)) \<Rightarrow> [i] | _ \<Rightarrow> []) @ gs_running s\<rparr>"

section \<open>Polling\<close>

lemma gc_poll_until:
  assumes "\<And>m. n \<le> m \<Longrightarrow> m < k \<Longrightarrow> \<exists>st. GetGCStatus (answers m) = Inr st \<and> ts_state st = Running"
    and "GetGCStatus (answers k) = Inr fin" "ts_state fin \<noteq> Running" "n \<le> k" "ts_state status = Running"
  shows "gc_poll (\<lambda>_. False) answers n status = Some (gc_outcome fin)"
  using assms(1,4,5)
proof (induction "k - n" arbitrary: n status)
  case 0
  then have "n = k" by simp
  with 0 assms(2,3) show ?case by (simp add: gc_poll.simps [of "\<lambda>_. False" answers k status] gc_poll.simps [of "\<lambda>_. False" answers "Suc k" fin])
next
  case (Suc d)
  then have "n < k" by simp
  with Suc.prems(1) [of n] obtain st where st: "GetGCStatus (answers n) = Inr st" "ts_state st = Running" by auto
  have "gc_poll (\<lambda>_. False) answers (Suc n) st = Some (gc_outcome fin)"
    by (rule Suc.hyps(1)) (use Suc.hyps(2) Suc.prems(1) \<open>n < k\<close> st(2) in auto)
  with st Suc.prems(3) show ?case by (simp add: gc_poll.simps [of "\<lambda>_. False" answers n status])
qed

text \<open>The loop ends with the first answer that is no running task, or when it is canceled.\<close>

lemma gc_poll_returns:
  assumes "canceled k \<or> (case GetGCStatus (answers k) of Inl err \<Rightarrow> True | Inr st \<Rightarrow> ts_state st \<noteq> Running)" and "n \<le> k"
  shows "\<exists>res. gc_poll canceled answers n status = Some res"
  using assms(2)
proof (induction "k - n" arbitrary: n status)
  case 0
  then have "n = k" by simp
  with assms(1) show ?case
    by (auto simp: gc_poll.simps [of canceled answers k] gc_poll.simps [of canceled answers "Suc k"] split: sum.splits)
next
  case (Suc d)
  then have "\<exists>res. gc_poll canceled answers (Suc n) st = Some res" for st by simp
  then show ?case by (auto simp: gc_poll.simps [of canceled answers n status] split: sum.split)
qed

lemma gc_step_params:
  assumes "gc_step s s'" "i < length (tasks (gs_store s))"
  shows "i < length (tasks (gs_store s')) \<and> ts_params (tasks (gs_store s') ! i) = ts_params (tasks (gs_store s) ! i)"
  using assms(1)
proof cases
  case (request t params r store')
  then show ?thesis using assms(2) by (auto elim!: Start_cases simp: new_task_def Let_def nth_append)
next
  case (progress j t u)
  then show ?thesis using assms(2)
    by (cases "j = i") (auto simp: on_task_def update_task_def setPhase_def updateStats_def split: task_change.split)
next
  case (ending j t v)
  then show ?thesis using assms(2)
    by (cases "j = i") (auto simp: on_task_def end_task_def succeed_def fail_task_def split: task_outcome.split)
qed

lemma gc_steps_params:
  "gc_step\<^sup>*\<^sup>* s s' \<Longrightarrow> i < length (tasks (gs_store s)) \<Longrightarrow>
   i < length (tasks (gs_store s')) \<and> ts_params (tasks (gs_store s') ! i) = ts_params (tasks (gs_store s) ! i)"
  by (induction rule: rtranclp_induct) (auto dest: gc_step_params)

section \<open>The request and the task it polls\<close>

lemma gc_query_of_params:
  "gc_query_of (gc_query_params olderThan failed force) =
     \<lparr>gq_older_than = olderThan, gq_failed_uploads_older_than = failed, gq_pending_older_than = '''',
      gq_force = (if force then ''true'' else '''')\<rparr>"
  by (cases "failed = ''''") (simp_all add: gc_query_of_def gc_query_params_def assoc_get_def)

definition requested :: "string \<Rightarrow> string \<Rightarrow> bool \<Rightarrow> GCTaskParams" where
  "requested olderThan failed force =
     \<lparr>gp_older_than = olderThan, gp_failed_uploads_older_than = (if failed = '''' then ''6h'' else failed), gp_force = force\<rparr>"

lemma accepted:
  assumes "CleanupClosuresOlder dur t (gc_query_of (gc_query_params olderThan failed force)) s = (GcAccepted status run, s')"
  obtains r where "Start t (requested olderThan failed force) s = (r, s')" "\<not> sr_conflict r" "status = sr_status r"
    "(case run of Some (i, _) \<Rightarrow> [i] | None \<Rightarrow> []) = (if sr_is_new r then [the (sr_task r)] else [])"
proof -
  obtain r s1 where st: "Start t (requested olderThan failed force) s = (r, s1)" by fastforce
  show ?thesis
    using assms st
    by (intro that [of r])
       (auto simp: CleanupClosuresOlder_def gc_query_of_params requested_def Let_def split: if_splits option.splits)
qed

lemma last_index: "Suc i = length xs \<Longrightarrow> xs \<noteq> [] \<and> last xs = xs ! i"
  by (cases xs rule: rev_cases) (auto simp: nth_append)

lemma Start_params:
  assumes "Start t params (gs_store s) = (r, store')" "\<not> sr_conflict r" "gc_inv s"
  shows "tasks store' \<noteq> [] \<and> ts_params (last (tasks store')) = params \<and> ts_state (sr_status r) = Running"
  using assms(1)
proof (cases rule: Start_cases)
  case fresh
  then show ?thesis by (auto simp: new_task_def Let_def)
next
  case (busy i)
  have "Suc i = length (tasks (gs_store s))" using assms(3) busy(1) by (simp add: gc_inv_def)
  from last_index [OF this] busy assms(2) show ?thesis by simp
qed

lemma poll_status:
  assumes "gc_inv s" "tasks (gs_store s) \<noteq> []"
  shows "GetGCStatus (status_answer (GCStatusHandler t lock (gs_store s))) = Inr (last (tasks (gs_store s)))"
    and "gs_running s = [] \<longleftrightarrow> ts_state (last (tasks (gs_store s))) \<noteq> Running"
proof -
  obtain i where i: "current (gs_store s) = Some i" "Suc i = length (tasks (gs_store s))"
    using assms by (auto simp: gc_inv_def split: option.splits)
  then have "last (tasks (gs_store s)) = tasks (gs_store s) ! i" using last_index by blast
  with i assms(1) show "GetGCStatus (status_answer (GCStatusHandler t lock (gs_store s))) = Inr (last (tasks (gs_store s)))"
    "gs_running s = [] \<longleftrightarrow> ts_state (last (tasks (gs_store s))) \<noteq> Running"
    by (simp_all add: GetGCStatus_def status_answer_def GCStatusHandler_def Get_def gc_inv_def)
qed

section \<open>Properties\<close>

text \<open>
  C19: the client of a collection reports what became of it, under these conditions: while the client polls,
  the server starts no run besides the one the request started or found in progress, that run comes to an end,
  every poll gets the answer of the status handler, and the client is not cancelled. Then \<open>RunGarbageCollection\<close> returns: the reason for which the request was refused, or how a run with the
  requested parameters ended, with its statistics, its own run or one that was already in progress. If another run
  is started meanwhile it may report that one instead, which \<open>another_run_reported\<close> shows.
\<close>
theorem gc_client_reports:
  assumes "gc_step\<^sup>*\<^sup>* gc_start s0"
    and "CleanupClosuresOlder dur t (gc_query_of (gc_query_params olderThan failed force)) (gs_store s0) = (a, store0)"
    and "S 0 = after_request a store0 s0" and "\<And>n. gc_step\<^sup>*\<^sup>* (S n) (S (Suc n))"
    and "\<And>n. length (tasks (gs_store (S n))) = length (tasks store0)" and "gs_running (S k) = []"
  shows "\<exists>res. RunGarbageCollection (start_answer a) (\<lambda>_. False)
      (\<lambda>n. status_answer (GCStatusHandler (ts n) (lock n) (gs_store (S n)))) = Some res \<and>
    (case a of
       GcBadRequest msg \<Rightarrow> res = (None, Some (GcStatusError 400 msg))
     | GcConflict status \<Rightarrow> \<exists>msg. res = (None, Some (GcConflictError status msg))
     | GcAccepted status run \<Rightarrow> \<exists>n. let fin = last (tasks (gs_store (S n))) in
         ts_state fin \<noteq> Running \<and> ts_params fin = requested olderThan failed force \<and> res = gc_outcome fin)"
proof (cases a)
  case (GcAccepted status run)
  from accepted [OF assms(2) [unfolded GcAccepted]] obtain r
    where r: "Start t (requested olderThan failed force) (gs_store s0) = (r, store0)" "\<not> sr_conflict r" "status = sr_status r"
      "(case run of Some (i, _) \<Rightarrow> [i] | None \<Rightarrow> []) = (if sr_is_new r then [the (sr_task r)] else [])" .
  have inv0: "gc_inv s0" by (rule gc_tasks.reachable_inv [OF refl assms(1)])
  have first: "gc_step s0 (S 0)"
    using gc_step.request [OF r(1)] r(4) by (simp add: assms(3) after_request_def GcAccepted split: option.splits prod.splits)
  have reach: "gc_step\<^sup>*\<^sup>* (S 0) (S n)" for n
    by (induction n) (auto intro: rtranclp_trans assms(4))
  have inv: "gc_inv (S n)" for n using gc_tasks.steps_inv [OF reach gc_step_inv [OF first inv0]] .
  have st: "tasks store0 \<noteq> []" "ts_params (last (tasks store0)) = requested olderThan failed force" "ts_state status = Running"
    using Start_params [OF r(1,2) inv0] r(3) by simp_all
  have store: "gs_store (S 0) = store0" by (simp add: assms(3) after_request_def)
  have ne: "tasks (gs_store (S n)) \<noteq> []" for n using assms(5) [of n] st by auto
  have params: "ts_params (last (tasks (gs_store (S n)))) = requested olderThan failed force" for n
    using gc_steps_params [OF reach, of "length (tasks store0) - 1" n] st ne [of n] assms(5) [of n]
    last_conv_nth [of "tasks store0"]
    by (simp add: store last_conv_nth)
  note poll = poll_status [OF inv ne]
  define fin where "fin = (LEAST n. gs_running (S n) = [])"
  have end': "gs_running (S fin) = []" unfolding fin_def using assms(6) by (rule LeastI)
  have "gc_poll (\<lambda>_. False) (\<lambda>n. status_answer (GCStatusHandler (ts n) (lock n) (gs_store (S n)))) 0 status =
      Some (gc_outcome (last (tasks (gs_store (S fin)))))"
  proof (rule gc_poll_until)
    fix m assume "m < fin"
    then have "gs_running (S m) \<noteq> []" unfolding fin_def by (rule not_less_Least)
    then show "\<exists>st. GetGCStatus (status_answer (GCStatusHandler (ts m) (lock m) (gs_store (S m)))) = Inr st \<and> ts_state st = Running"
      using poll by blast
  qed (use poll end' st in auto)
  moreover have "ts_state (last (tasks (gs_store (S fin)))) \<noteq> Running" using poll(2) end' by blast
  ultimately show ?thesis
    by (auto simp: GcAccepted RunGarbageCollection_def StartGarbageCollection_def start_answer_def Let_def params intro!: exI [of _ fin])
qed (simp_all add: RunGarbageCollection_def StartGarbageCollection_def start_answer_def)

text \<open>A run that succeeds at the first poll.\<close>

definition asked :: gc_answer where
  "asked = fst (CleanupClosuresOlder (\<lambda>_. Some 5) 1 (gc_query_of (gc_query_params ''720h'' '''' False)) NewGCTaskStore)"

definition after_asking :: gc_server where
  "after_asking = after_request asked
     (snd (CleanupClosuresOlder (\<lambda>_. Some 5) 1 (gc_query_of (gc_query_params ''720h'' '''' False)) NewGCTaskStore)) gc_start"

definition ended_with :: "task_outcome \<Rightarrow> gc_server" where
  "ended_with v = \<lparr>gs_store = on_task 0 (end_task 9 v) (gs_store after_asking), gs_running = []\<rparr>"

lemma asking:
  "CleanupClosuresOlder (\<lambda>_. Some 5) 1 (gc_query_of (gc_query_params ''720h'' '''' False)) NewGCTaskStore = (asked, gs_store after_asking)"
  by (simp add: asked_def after_asking_def after_request_def)

lemma asking_step: "gc_step after_asking (ended_with v)"
proof -
  have "gs_running after_asking = [0]" by code_simp
  then have "0 \<in> set (gs_running after_asking)"
    and "after_asking\<lparr>gs_store := on_task 0 (end_task 9 v) (gs_store after_asking),
      gs_running := remove1 0 (gs_running after_asking)\<rparr> = ended_with v"
    by (simp_all add: ended_with_def)
  with gc_step.ending [of 0 after_asking 9 v] show ?thesis by metis
qed

theorem gc_client_reports_witness:
  "RunGarbageCollection (start_answer asked) (\<lambda>_. False)
     (\<lambda>n. status_answer (GCStatusHandler 0 (Inr False) (gs_store (if n = 0 then after_asking else ended_with (Succeed zero_stats))))) =
   Some (Some zero_stats, None)"
proof -
  let ?S = "\<lambda>n :: nat. if n = 0 then after_asking else ended_with (Succeed zero_stats)"
  have len: "length (tasks (gs_store (ended_with v))) = length (tasks (gs_store after_asking))" for v
    by (simp add: ended_with_def on_task_def)
  have a: "\<exists>status run. asked = GcAccepted status run"
    by (simp add: asked_def CleanupClosuresOlder_def gc_query_of_params Start_def NewGCTaskStore_def new_task_def Let_def)
  have "CleanupClosuresOlder (\<lambda>_. Some 5) 1 (gc_query_of (gc_query_params ''720h'' '''' False)) (gs_store gc_start) =
      (asked, gs_store after_asking)"
    using asking by (simp add: gc_start_def)
  moreover have "?S 0 = after_request asked (gs_store after_asking) gc_start"
    by (simp add: after_asking_def after_request_def)
  moreover have "gc_step\<^sup>*\<^sup>* (?S n) (?S (Suc n))" for n using asking_step by auto
  moreover have "length (tasks (gs_store (?S n))) = length (tasks (gs_store after_asking))" for n using len by simp
  moreover have "gs_running (?S 1) = []" by (simp add: ended_with_def)
  ultimately have "\<exists>res. RunGarbageCollection (start_answer asked) (\<lambda>_. False)
      (\<lambda>n. status_answer (GCStatusHandler 0 (Inr False) (gs_store (?S n)))) = Some res \<and>
    (case asked of
       GcBadRequest msg \<Rightarrow> res = (None, Some (GcStatusError 400 msg))
     | GcConflict status \<Rightarrow> \<exists>msg. res = (None, Some (GcConflictError status msg))
     | GcAccepted status run \<Rightarrow> \<exists>n. let fin = last (tasks (gs_store (?S n))) in
         ts_state fin \<noteq> Running \<and> ts_params fin = requested ''720h'' '''' False \<and> res = gc_outcome fin)"
    by (rule gc_client_reports [OF rtranclp.rtrancl_refl])
  then obtain res where res0: "RunGarbageCollection (start_answer asked) (\<lambda>_. False)
      (\<lambda>n. status_answer (GCStatusHandler 0 (Inr False) (gs_store (?S n)))) = Some res"
    and acc: "case asked of
       GcBadRequest msg \<Rightarrow> res = (None, Some (GcStatusError 400 msg))
     | GcConflict status \<Rightarrow> \<exists>msg. res = (None, Some (GcConflictError status msg))
     | GcAccepted status run \<Rightarrow> \<exists>n. let fin = last (tasks (gs_store (?S n))) in
         ts_state fin \<noteq> Running \<and> ts_params fin = requested ''720h'' '''' False \<and> res = gc_outcome fin" by (elim exE conjE)
  obtain status run where "asked = GcAccepted status run" using a by blast
  from acc [unfolded this gc_answer.case Let_def] res0 obtain n where res: "RunGarbageCollection (start_answer asked) (\<lambda>_. False)
      (\<lambda>n. status_answer (GCStatusHandler 0 (Inr False) (gs_store (?S n)))) = Some res"
    "ts_state (last (tasks (gs_store (?S n)))) \<noteq> Running" "res = gc_outcome (last (tasks (gs_store (?S n))))"
    by blast
  have "ts_state (last (tasks (gs_store after_asking))) = Running"
    "gc_outcome (last (tasks (gs_store (ended_with (Succeed zero_stats))))) = (Some zero_stats, None)" by code_simp+
  with res show ?thesis by (cases "n = 0") simp_all
qed

text \<open>
  The proviso on other runs is needed: the status is that of the latest run. The client's own run failed,
  another one was started between two polls and succeeded, and the client reports a success.
\<close>

definition other_run :: gc_server where
  "other_run =
     (let store = snd (Start 10 (requested ''1h'' '''' True) (gs_store (ended_with (Fail zero_stats ''no database''))))
      in \<lparr>gs_store = on_task 1 (end_task 12 (Succeed zero_stats)) store, gs_running = []\<rparr>)"

theorem another_run_reported:
  "RunGarbageCollection (start_answer asked) (\<lambda>_. False) (\<lambda>n. status_answer (GCStatusHandler 0 (Inr False) (gs_store other_run))) =
     Some (Some zero_stats, None) \<and> ts_state (tasks (gs_store other_run) ! 0) = GCTaskState.Failed"
proof -
  have "StartGarbageCollection (start_answer asked) = Inr (the (Get (gs_store after_asking)))" by code_simp
  moreover have "ts_state (the (Get (gs_store after_asking))) = Running" by code_simp
  moreover have "GetGCStatus (status_answer (GCStatusHandler 0 (Inr False) (gs_store other_run))) = Inr (tasks (gs_store other_run) ! 1)"
    by code_simp
  moreover have "ts_state (tasks (gs_store other_run) ! 1) \<noteq> Running" "gc_outcome (tasks (gs_store other_run) ! 1) = (Some zero_stats, None)"
    "ts_state (tasks (gs_store other_run) ! 0) = GCTaskState.Failed" by code_simp+
  ultimately show ?thesis
    by (simp add: RunGarbageCollection_def gc_poll.simps [of _ _ 0] gc_poll.simps [of _ _ "Suc 0"])
qed

end
