(* ===== verification/Cli.thy ===== *)
theory Cli
  imports Tokens
begin

text \<open>
  The command lines: flags (package \<open>flag\<close>), the options the commands share (\<open>src/cmdutil/cmdutil.go\<close>),
  the commands of \<open>src/cmd/niks3/main.go\<close> and of \<open>src/cmd/niks3-hook/main.go\<close>, and the transport of the
  client they build (\<open>src/client/client.go\<close>).
\<close>

section \<open>Flags\<close>

datatype flag_kind = BoolFlag | StringFlag | IntFlag | DurationFlag

type_synonym flag_set = "(string \<times> flag_kind) list"

definition flag_value_ok :: "host \<Rightarrow> flag_kind \<Rightarrow> string \<Rightarrow> bool" where
  "flag_value_ok h kind v =
     (case kind of
        BoolFlag \<Rightarrow> parse_bool v \<noteq> None
      | StringFlag \<Rightarrow> True
      | IntFlag \<Rightarrow> ho_flag_int h v \<noteq> None
      | DurationFlag \<Rightarrow> ho_duration h v \<noteq> None)"

text \<open>
  \<open>FlagSet.Parse\<close>: what it sets in the order in which it does, and the arguments it leaves. The name and
  the value of an argument are separated by the first equals sign behind its first character.
\<close>

definition name_value :: "string \<Rightarrow> string \<times> string option" where
  "name_value s =
     (case cut_str (drop 1 s) ''='' of
        (name, val, found) \<Rightarrow> if found then (take 1 s @ name, Some val) else (s, None))"

fun parse_flags :: "host \<Rightarrow> flag_set \<Rightarrow> flags \<Rightarrow> string list \<Rightarrow> string + (flags \<times> string list)" where
  "parse_flags h spec fl [] = Inr (fl, [])"
| "parse_flags h spec fl (s # args) =
     (if length s < 2 \<or> hd s \<noteq> CHR ''-'' then Inr (fl, s # args)
      else if s = ''--'' then Inr (fl, args)
      else (let name = (if s ! 1 = CHR ''-'' then drop 2 s else drop 1 s) in
            if name = '''' \<or> hd name = CHR ''-'' \<or> hd name = CHR ''='' then Inl ''bad flag syntax''
            else (case name_value name of (name, val) \<Rightarrow>
              (case map_of spec name of
                 None \<Rightarrow> Inl (if name = ''help'' \<or> name = ''h'' then ''flag: help requested'' else ''flag provided but not defined'')
               | Some BoolFlag \<Rightarrow>
                   (let v = (case val of Some v \<Rightarrow> v | None \<Rightarrow> ''true'') in
                    if flag_value_ok h BoolFlag v then parse_flags h spec (fl @ [(name, v)]) args else Inl ''invalid boolean value'')
               | Some kind \<Rightarrow>
                   (case val of
                      Some v \<Rightarrow> if flag_value_ok h kind v then parse_flags h spec (fl @ [(name, v)]) args else Inl ''invalid value''
                    | None \<Rightarrow>
                        (case args of
                           [] \<Rightarrow> Inl ''flag needs an argument''
                         | v # args \<Rightarrow>
                             if flag_value_ok h kind v then parse_flags h spec (fl @ [(name, v)]) args else Inl ''invalid value''))))))"

definition flag_str :: "flags \<Rightarrow> string \<Rightarrow> string \<Rightarrow> string" where
  "flag_str fl name d = (case flag_last fl name of Some v \<Rightarrow> v | None \<Rightarrow> d)"

definition flag_bool :: "flags \<Rightarrow> string \<Rightarrow> bool" where
  "flag_bool fl name = (case flag_last fl name of Some v \<Rightarrow> parse_bool v = Some True | None \<Rightarrow> False)"

definition flag_int :: "host \<Rightarrow> flags \<Rightarrow> string \<Rightarrow> int \<Rightarrow> int" where
  "flag_int h fl name d = (case flag_last fl name of Some v \<Rightarrow> the (ho_flag_int h v) | None \<Rightarrow> d)"

definition flag_duration :: "host \<Rightarrow> flags \<Rightarrow> string \<Rightarrow> int \<Rightarrow> int" where
  "flag_duration h fl name d = (case flag_last fl name of Some v \<Rightarrow> the (ho_duration h v) | None \<Rightarrow> d)"

section \<open>What the commands share\<close>

definition common_flags :: flag_set where
  "common_flags = [(''server-url'', StringFlag), (''auth-token'', StringFlag), (''auth-token-path'', StringFlag),
     (''auth-token-script'', StringFlag), (''debug'', BoolFlag), (''help'', BoolFlag), (''h'', BoolFlag)]"

definition tls_flags :: flag_set where
  "tls_flags = [(''client-cert'', StringFlag), (''client-key'', StringFlag), (''ca-cert'', StringFlag)]"

record client_options =
  co_server_url :: string
  co_token :: TokenSource
  co_client_cert :: string
  co_client_key :: string
  co_ca_cert :: string
  co_debug :: bool

datatype 'a command_line = ShowsHelp | UsageError string | Runs 'a

text \<open>\<open>-h\<close> and \<open>-help\<close> set one variable, so the one that comes last counts.\<close>

definition wants_help :: "flags \<Rightarrow> bool" where
  "wants_help fl = (case rev (filter (\<lambda>(n, v). n = ''h'' \<or> n = ''help'') fl) of [] \<Rightarrow> False | (n, v) # _ \<Rightarrow> parse_bool v = Some True)"

definition ParseCommand ::
  "host \<Rightarrow> (string \<Rightarrow> bool) \<Rightarrow> flag_set \<Rightarrow> string list \<Rightarrow> (client_options \<times> flags \<times> string list) command_line" where
  "ParseCommand h exists spec args =
     (case parse_flags h (common_flags @ tls_flags @ spec) [] args of
        Inl err \<Rightarrow> UsageError (''parsing flags: '' @ err)
      | Inr (fl, rest) \<Rightarrow>
          if wants_help fl then ShowsHelp
          else (let serverURL = flag_str fl ''server-url'' (getEnvOrDefault h ''NIKS3_SERVER_URL'' '''') in
                if serverURL = '''' then UsageError ''server URL is required''
                else (case ResolveTokenSource h exists (flag_str fl ''auth-token'' '''') (flag_str fl ''auth-token-path'' '''')
                             (flag_str fl ''auth-token-script'' '''') (flag_str fl ''client-cert'' '''' \<noteq> '''') of
                        Inl err \<Rightarrow> UsageError err
                      | Inr ts \<Rightarrow>
                          Runs (\<lparr>co_server_url = serverURL, co_token = ts, co_client_cert = flag_str fl ''client-cert'' '''',
                                 co_client_key = flag_str fl ''client-key'' '''', co_ca_cert = flag_str fl ''ca-cert'' '''',
                                 co_debug = flag_bool fl ''debug''\<rparr>, fl, rest))))"

section \<open>The transport of a client\<close>

text \<open>A TLS configuration: a certificate with its key, and a bundle of authorities, where they are set.\<close>

record tls_config =
  tl_cert :: "(string \<times> string) option"
  tl_ca :: "string option"

datatype transport = Plain "tls_config option" | Logging "tls_config option"

definition newHTTPClient :: transport where
  "newHTTPClient = Plain None"

definition SetDebugHTTP :: "bool \<Rightarrow> transport \<Rightarrow> transport" where
  "SetDebugHTTP on t =
     (if on then (case t of Plain cfg \<Rightarrow> Logging cfg | Logging cfg \<Rightarrow> Logging cfg)
      else (case t of Logging cfg \<Rightarrow> Plain cfg | Plain cfg \<Rightarrow> Plain cfg))"

definition SetClientTLS ::
  "host \<Rightarrow> run_host \<Rightarrow> string \<Rightarrow> string \<Rightarrow> string \<Rightarrow> transport \<Rightarrow> string option \<times> transport" where
  "SetClientTLS h rh certFile keyFile caFile t =
     (let withCert = certFile \<noteq> '''' \<or> keyFile \<noteq> '''' in
      if withCert \<and> \<not> rh_keypair rh certFile keyFile then (Some ''loading client certificate'', t)
      else (let cfg = \<lparr>tl_cert = (if withCert then Some (certFile, keyFile) else None),
                       tl_ca = (if caFile \<noteq> '''' then Some caFile else None)\<rparr>;
                set = (None, case t of Logging _ \<Rightarrow> Logging (Some cfg) | Plain _ \<Rightarrow> Plain (Some cfg))
            in if caFile = '''' then set
               else (case ho_file h caFile of
                       None \<Rightarrow> (Some ''loading CA certificate'', t)
                     | Some pem \<Rightarrow> if rh_pem rh pem then set else (Some ''parsing CA certificate'', t))))"

definition Configure :: "host \<Rightarrow> run_host \<Rightarrow> string \<Rightarrow> string \<Rightarrow> string \<Rightarrow> transport \<Rightarrow> string option \<times> transport" where
  "Configure h rh certFile keyFile caFile t =
     (if certFile = '''' \<and> keyFile = '''' \<and> caFile = '''' then (None, t)
      else if (certFile = '''') \<noteq> (keyFile = '''') then (Some ''both --client-cert and --client-key must be provided for mTLS'', t)
      else SetClientTLS h rh certFile keyFile caFile t)"

text \<open>A client needs a URL that parses and the store directory, which nix is asked for.\<close>

definition NewClient :: "host \<Rightarrow> run_host \<Rightarrow> (string \<Rightarrow> bool) \<Rightarrow> bool \<Rightarrow> client_options \<Rightarrow> string + transport" where
  "NewClient h rh url_ok store_ok co =
     (if \<not> url_ok (co_server_url co) then Inl ''parsing server URL''
      else if \<not> store_ok then Inl ''getting store directory''
      else (case Configure h rh (co_client_cert co) (co_client_key co) (co_ca_cert co) newHTTPClient of
              (Some err, t) \<Rightarrow> Inl err
            | (None, t) \<Rightarrow> Inr (if co_debug co then SetDebugHTTP True t else t)))"

section \<open>The command niks3\<close>

datatype niks3_command =
    PushStdin client_options int int int int bool
  | Push client_options "string list" int bool string
  | GcCommand client_options string string bool
  | PinsCreate client_options string string
  | PinsList client_options bool bool
  | PinsDelete client_options string

definition DefaultStreamBatchSize :: int where "DefaultStreamBatchSize = 50"
definition DefaultStreamParallel :: int where "DefaultStreamParallel = 4"

definition push_flags :: flag_set where
  "push_flags = [(''max-concurrent-uploads'', IntFlag), (''verify-s3-integrity'', BoolFlag), (''pin'', StringFlag), (''stdin'', BoolFlag),
     (''batch-size'', IntFlag), (''parallel-pushes'', IntFlag), (''retry-timeout'', DurationFlag)]"

definition gc_flags :: flag_set where
  "gc_flags = [(''older-than'', StringFlag), (''failed-uploads-older-than'', StringFlag), (''force'', BoolFlag)]"

definition pins_flags :: flag_set where
  "pins_flags = [(''names-only'', BoolFlag), (''json'', BoolFlag)]"

text \<open>\<open>maxConcurrent\<close> below one is one.\<close>

definition push_command_line :: "host \<Rightarrow> client_options \<Rightarrow> flags \<Rightarrow> string list \<Rightarrow> niks3_command command_line" where
  "push_command_line h co fl paths =
     (let pin = flag_str fl ''pin'' ''''; workers = max 1 (flag_int h fl ''max-concurrent-uploads'' 30);
          verify = flag_bool fl ''verify-s3-integrity''
      in if flag_bool fl ''stdin''
         then (if paths \<noteq> [] \<or> pin \<noteq> '''' then UsageError ''--stdin takes no store path arguments and no --pin''
               else Runs (PushStdin co workers (flag_int h fl ''parallel-pushes'' DefaultStreamParallel)
                            (flag_int h fl ''batch-size'' DefaultStreamBatchSize) (flag_duration h fl ''retry-timeout'' 0) verify))
         else if paths = [] then UsageError ''at least one store path is required''
         else if pin \<noteq> '''' \<and> 1 < length paths then UsageError ''--pin requires exactly one store path''
         else Runs (Push co paths workers verify pin))"

definition pins_command_line :: "string \<Rightarrow> client_options \<Rightarrow> flags \<Rightarrow> string list \<Rightarrow> niks3_command command_line" where
  "pins_command_line subcommand co fl args =
     (if subcommand = ''create''
      then (case args of name # path # _ \<Rightarrow> Runs (PinsCreate co name path) | _ \<Rightarrow> UsageError ''create requires a pin name and store path'')
      else if subcommand = ''list'' then Runs (PinsList co (flag_bool fl ''names-only'') (flag_bool fl ''json''))
      else if subcommand = ''delete''
      then (case args of name # _ \<Rightarrow> Runs (PinsDelete co name) | [] \<Rightarrow> UsageError ''delete requires a pin name'')
      else UsageError ''unknown pins subcommand'')"

definition run_niks3 :: "host \<Rightarrow> (string \<Rightarrow> bool) \<Rightarrow> string list \<Rightarrow> niks3_command command_line" where
  "run_niks3 h exists args =
     (case args of
        [] \<Rightarrow> UsageError ''no command provided''
      | cmd # rest \<Rightarrow>
          if cmd = ''--help'' \<or> cmd = ''-h'' \<or> cmd = ''help'' then ShowsHelp
          else if cmd = ''push''
          then (case ParseCommand h exists push_flags rest of
                  Runs (co, fl, paths) \<Rightarrow> push_command_line h co fl paths
                | UsageError err \<Rightarrow> UsageError err | ShowsHelp \<Rightarrow> ShowsHelp)
          else if cmd = ''gc''
          then (case ParseCommand h exists gc_flags rest of
                  Runs (co, fl, others) \<Rightarrow>
                    Runs (GcCommand co (flag_str fl ''older-than'' ''720h'') (flag_str fl ''failed-uploads-older-than'' ''6h'') (flag_bool fl ''force''))
                | UsageError err \<Rightarrow> UsageError err | ShowsHelp \<Rightarrow> ShowsHelp)
          else if cmd = ''pins''
          then (case rest of
                  [] \<Rightarrow> UsageError ''missing subcommand (create, list, or delete)''
                | sub # rest \<Rightarrow>
                    (case ParseCommand h exists pins_flags rest of
                       Runs (co, fl, others) \<Rightarrow> pins_command_line sub co fl others
                     | UsageError err \<Rightarrow> UsageError err | ShowsHelp \<Rightarrow> ShowsHelp))
          else UsageError ''unknown command'')"

text \<open>
  \<open>pushCommand\<close>: the pushes and the pins it makes, in order. \<open>pin_ok\<close> is whether the server accepts the pin;
  the links are read again after the push, and may have changed (\<open>readlink\<close>).
\<close>

datatype cli_event = Pushed "string list" | PinCreated string string

definition ResolveStorePath :: "(string \<Rightarrow> link_answer) \<Rightarrow> string \<Rightarrow> string \<Rightarrow> client_error + string" where
  "ResolveStorePath readlink storeDir path =
     (case resolveSymlinks readlink storeDir [path] of Inl err \<Rightarrow> Inl err | Inr resolved \<Rightarrow> Inr (hd resolved))"

definition pushCommand ::
  "(string + transport) \<Rightarrow> push_env \<Rightarrow> (string \<Rightarrow> link_answer) \<Rightarrow> (string \<Rightarrow> string \<Rightarrow> bool) \<Rightarrow> string list \<Rightarrow> string \<Rightarrow> push_state \<Rightarrow>
   string option \<times> cli_event list \<times> push_state" where
  "pushCommand client pv readlink pin_ok paths pinName s =
     (case client of
        Inl err \<Rightarrow> (Some err, [], s)
      | Inr t \<Rightarrow>
          (case PushPaths pv paths s of
             (Inl err, s) \<Rightarrow> (Some ''pushing paths'', [], s)
           | (Inr ps, s) \<Rightarrow>
               if pinName = '''' then (None, [Pushed paths], s)
               else (case ResolveStorePath readlink (pv_store_dir pv) (hd paths) of
                       Inl err \<Rightarrow> (Some ''resolving store path for pin'', [Pushed paths], s)
                     | Inr storePath \<Rightarrow>
                         if \<not> pin_ok pinName storePath then (Some ''creating pin'', [Pushed paths], s)
                         else (None, [Pushed paths, PinCreated pinName storePath], s))))"

definition pinsCreateCommand ::
  "(string + transport) \<Rightarrow> (string \<Rightarrow> link_answer) \<Rightarrow> string \<Rightarrow> (string \<Rightarrow> string \<Rightarrow> bool) \<Rightarrow> string \<Rightarrow> string \<Rightarrow> string option \<times> cli_event list" where
  "pinsCreateCommand client readlink storeDir pin_ok name path =
     (case client of
        Inl err \<Rightarrow> (Some err, [])
      | Inr t \<Rightarrow>
          (case ResolveStorePath readlink storeDir path of
             Inl err \<Rightarrow> (Some ''resolving store path'', [])
           | Inr storePath \<Rightarrow> if pin_ok name storePath then (None, [PinCreated name storePath]) else (Some ''creating pin'', [])))"

section \<open>The command niks3-hook\<close>

record serve_options =
  so_client :: client_options
  so_socket :: string
  so_db_path :: string
  so_batch_size :: int
  so_idle_exit :: int
  so_drain_timeout :: int
  so_workers :: int
  so_verify_s3 :: bool
  so_stats_file :: string

datatype hook_command = HookSend string "string list" | HookServe serve_options | HookNothing

definition DefaultSocketPath :: string where
  "DefaultSocketPath = ''/run/niks3/upload-to-cache.sock''"

definition send_flags :: flag_set where
  "send_flags = [(''socket'', StringFlag), (''help'', BoolFlag), (''h'', BoolFlag)]"

definition serve_flags :: flag_set where
  "serve_flags = [(''socket'', StringFlag), (''db-path'', StringFlag), (''batch-size'', IntFlag), (''idle-exit-timeout'', StringFlag),
     (''drain-timeout'', DurationFlag), (''max-concurrent-uploads'', IntFlag), (''verify-s3-integrity'', BoolFlag), (''stats-file'', StringFlag)]"

definition runSend :: "host \<Rightarrow> string list \<Rightarrow> hook_command command_line" where
  "runSend h args =
     (case parse_flags h send_flags [] args of
        Inl err \<Rightarrow> UsageError (''parsing flags: '' @ err)
      | Inr (fl, rest) \<Rightarrow>
          if wants_help fl then ShowsHelp
          else (let paths = fields_str (getEnvOrDefault h ''OUT_PATHS'' '''') in
                if paths = [] then Runs HookNothing
                else Runs (HookSend (flag_str fl ''socket'' DefaultSocketPath) paths)))"

definition serve_command :: "host \<Rightarrow> (string \<Rightarrow> bool) \<Rightarrow> string list \<Rightarrow> hook_command command_line" where
  "serve_command h exists args =
     (case ParseCommand h exists serve_flags args of
        ShowsHelp \<Rightarrow> ShowsHelp
      | UsageError err \<Rightarrow> UsageError err
      | Runs (co, fl, rest) \<Rightarrow>
          (let idle = flag_str fl ''idle-exit-timeout'' ''60s'' in
           case (if idle = ''0'' then Some 0 else ho_duration h idle) of
             None \<Rightarrow> UsageError ''parsing --idle-exit-timeout''
           | Some idleTimeout \<Rightarrow>
               Runs (HookServe \<lparr>so_client = co, so_socket = flag_str fl ''socket'' DefaultSocketPath,
                 so_db_path = flag_str fl ''db-path'' ''/var/lib/niks3-hook/upload-queue.db'',
                 so_batch_size = flag_int h fl ''batch-size'' 50, so_idle_exit = idleTimeout,
                 so_drain_timeout = flag_duration h fl ''drain-timeout'' 0,
                 so_workers = max 1 (flag_int h fl ''max-concurrent-uploads'' 30),
                 so_verify_s3 = flag_bool fl ''verify-s3-integrity'', so_stats_file = flag_str fl ''stats-file'' ''''\<rparr>)))"

definition run_hook :: "host \<Rightarrow> (string \<Rightarrow> bool) \<Rightarrow> string list \<Rightarrow> hook_command command_line" where
  "run_hook h exists args =
     (case args of
        [] \<Rightarrow> UsageError ''no command provided''
      | cmd # rest \<Rightarrow>
          if cmd = ''--help'' \<or> cmd = ''-h'' \<or> cmd = ''help'' then ShowsHelp
          else if cmd = ''send'' then runSend h rest
          else if cmd = ''serve'' then serve_command h exists rest
          else UsageError ''unknown command'')"

text \<open>
  The goroutine that ends an idle daemon: what its \<open>select\<close> receives, in order; its result is whether it
  stopped the daemon. A timer that fires is asked whether the queue is empty.
\<close>

datatype idle_event = ContextDone | PathsArrived | TimerFired bool

fun idle_exit :: "idle_event list \<Rightarrow> bool" where
  "idle_exit [] = False"
| "idle_exit (ContextDone # evs) = False"
| "idle_exit (PathsArrived # evs) = idle_exit evs"
| "idle_exit (TimerFired queue_empty # evs) = (queue_empty \<or> idle_exit evs)"

section \<open>What a command line can ask for\<close>

definition client_ok :: "host \<Rightarrow> (string \<Rightarrow> bool) \<Rightarrow> client_options \<Rightarrow> bool" where
  "client_ok h exists co \<longleftrightarrow> co_server_url co \<noteq> '''' \<and>
     (\<exists>tok path script. ResolveTokenSource h exists tok path script (co_client_cert co \<noteq> '''') = Inr (co_token co)) \<and>
     (co_token co = NoToken \<longrightarrow> co_client_cert co \<noteq> '''')"

fun command_ok :: "(client_options \<Rightarrow> bool) \<Rightarrow> niks3_command \<Rightarrow> bool" where
  "command_ok ok (PushStdin co workers parallel batch timeout verify) \<longleftrightarrow> ok co \<and> 1 \<le> workers"
| "command_ok ok (Push co paths workers verify pin) \<longleftrightarrow> ok co \<and> 1 \<le> workers \<and> paths \<noteq> [] \<and> (pin = '''' \<or> length paths = 1)"
| "command_ok ok (GcCommand co older pending force) \<longleftrightarrow> ok co"
| "command_ok ok (PinsCreate co name path) \<longleftrightarrow> ok co"
| "command_ok ok (PinsList co names json) \<longleftrightarrow> ok co"
| "command_ok ok (PinsDelete co name) \<longleftrightarrow> ok co"

lemma ResolveTokenSource_NoToken: "ResolveTokenSource h exists tok path script mtls = Inr NoToken \<Longrightarrow> mtls"
  by (auto simp: ResolveTokenSource_def new_file_token_def new_script_token_def split: if_splits)

lemma ParseCommand_ok: "ParseCommand h exists spec args = Runs (co, fl, rest) \<Longrightarrow> client_ok h exists co"
  by (auto simp: ParseCommand_def Let_def client_ok_def dest: ResolveTokenSource_NoToken split: sum.splits prod.splits if_splits)
    blast

lemma push_command_line_ok: "ok co \<Longrightarrow> push_command_line h co fl paths = Runs cmd \<Longrightarrow> command_ok ok cmd"
  by (cases paths) (auto simp: push_command_line_def Let_def split: if_splits)

lemma pins_command_line_ok: "ok co \<Longrightarrow> pins_command_line sub co fl args = Runs cmd \<Longrightarrow> command_ok ok cmd"
  by (auto simp: pins_command_line_def split: if_splits list.splits)

section \<open>Pushing and pinning\<close>

lemma complete_all:
  "run_tasks (complete_one pv) cids s = (None, s') \<Longrightarrow>
   set (ps_events s) \<subseteq> set (ps_events s') \<and> (\<forall>cid \<in> set cids. CompleteEvent cid \<in> set (ps_events s'))"
proof (induction cids arbitrary: s)
  case (Cons cid cids)
  then have c: "pv_complete pv cid" "run_tasks (complete_one pv) cids (note_event (CompleteEvent cid) s) = (None, s')"
    by (auto simp: complete_one_def [of pv cid] split: if_splits)
  from Cons.IH [OF c(2)] show ?case by (auto simp: note_event_def)
qed simp

lemma upload_push_completes:
  assumes "upload_push pv res ps s = (None, s')"
  shows "\<forall>(cid, objs) \<in> set ps. CompleteEvent cid \<in> set (ps_events s')"
proof -
  obtain s2 where "run_tasks (complete_one pv) (map fst ps) s2 = (None, s')"
    using assms by (auto simp: upload_push_def Let_def split: prod.splits sum.splits option.splits)
  from complete_all [OF this] show ?thesis by force
qed

lemma one_missing: "\<not> all_present pv [p] \<Longrightarrow> missing_paths pv [p] = [p]"
  by (auto simp: all_present_def missing_paths_def split: sum.splits)

text \<open>A push of one path that ends well: there already, left out for its size, or completed.\<close>

lemma pushed_one:
  assumes nix: "honest_nix pv" and resolved: "resolveSymlinks (pv_readlink pv) (pv_store_dir pv) paths = Inr [p]"
    and run: "PushPaths pv paths s = (Inr ps, s')"
  shows "all_present pv [p] \<or>
    (\<exists>infos limit pushes. pv_path_info pv [p] = Some infos \<and> pv_config pv = Some (limit, pushes) \<and> has_oversized infos limit p) \<or>
    (\<exists>cls route pend. narinfo_key_of p \<in> fst ` set cls \<and> createPending pv cls = Inr (route, pend) \<and>
       (\<forall>(cid, objs) \<in> set pend. CompleteEvent cid \<in> set (ps_events s')))"
proof (cases "all_present pv [p]")
  case False
  let ?limit = "case pv_config pv of None \<Rightarrow> 0 | Some (limit, pushes) \<Rightarrow> limit"
  note m = one_missing [OF False]
  obtain infos where infos: "pv_path_info pv [p] = Some infos"
    using run resolved False by (auto simp: PushPaths_def m Let_def split: option.splits)
  obtain kept infos' sk where f: "filterOversizedClosures [p] infos ?limit = (kept, infos', sk)" by (metis prod_cases3)
  note kept = filter_result(1) [OF f]
  show ?thesis
  proof (cases "kept = []")
    case True
    then have big: "has_oversized infos ?limit p" using kept by (auto split: if_splits)
    then have "pv_config pv \<noteq> None" by (cases "pv_config pv") (auto simp: has_oversized_def)
    with big infos show ?thesis by fastforce
  next
    case nonempty: False
    then have k: "kept = [p]" using kept by (auto split: if_splits)
    obtain res route pend where r: "PrepareClosures (pv_machine pv) kept infos' = Inr res" "createPending pv (pr_Closures res) = Inr (route, pend)"
      and u: "upload_push pv res pend (note_skipped kept (sk_Reasons sk) s) = (None, s')"
      using run resolved False infos f nonempty
      by (auto simp: PushPaths_def m Let_def split: sum.splits prod.splits option.splits)
    have "infos_ok (pv_machine pv) infos \<and> set [p] \<subseteq> fst ` set infos" using nix infos unfolding honest_nix_def by blast
    then have ok: "infos_ok (pv_machine pv) infos" "p \<in> fst ` set infos" by simp_all
    then have "infos_ok (pv_machine pv) infos'" "p \<in> fst ` set infos'"
      using pruned_ok(1,3) [OF ok(1) f] ok(2) k by simp_all
    then have "pr_Closures res = map (\<lambda>t. (narinfo_key_of t,
        concat (map (objects_at (pv_machine pv)) (filter (\<lambda>(q, info). (t, q) \<in> (ref_rel infos')\<^sup>*) infos')))) [p]"
      using prepared_closures [of "pv_machine pv" infos' "[p]"] r(1) k by auto
    then have "narinfo_key_of p \<in> fst ` set (pr_Closures res)" by simp
    with r(2) upload_push_completes [OF u] show ?thesis by blast
  qed
qed simp

section \<open>Transports and idle daemons\<close>

fun tls_of :: "transport \<Rightarrow> tls_config option" where
  "tls_of (Plain cfg) = cfg"
| "tls_of (Logging cfg) = cfg"

text \<open>Logging and TLS are set independently of each other, in either order.\<close>

lemma SetDebugHTTP_tls: "tls_of (SetDebugHTTP on t) = tls_of t" "SetDebugHTTP on (SetDebugHTTP on' t) = SetDebugHTTP on t"
  by (cases t; simp add: SetDebugHTTP_def)+

lemma SetClientTLS_debug:
  assumes "SetClientTLS h rh cert key ca t = (err, t')"
  shows "SetClientTLS h rh cert key ca (SetDebugHTTP on t) = (err, SetDebugHTTP on t')"
  using assms by (cases t) (auto simp: SetClientTLS_def SetDebugHTTP_def Let_def split: if_splits option.splits)

lemma idle_exit_iff: "idle_exit evs \<longleftrightarrow> TimerFired True \<in> set (takeWhile (\<lambda>ev. ev \<noteq> ContextDone) evs)"
  by (induction evs rule: idle_exit.induct) auto

section \<open>Properties\<close>

text \<open>
  What niks3 runs is well formed: a command that is not refused has a server, and a token source that was
  chosen as documented, without a token only where a client certificate stands in for it; a push
  has a worker and paths, and one that pins has exactly one.
\<close>
theorem run_niks3_ok:
  assumes "run_niks3 h exists args = Runs cmd"
  shows "command_ok (client_ok h exists) cmd"
  using assms unfolding run_niks3_def
  by (auto split: list.splits if_splits command_line.splits dest!: ParseCommand_ok
      intro: push_command_line_ok pins_command_line_ok)


theorem run_niks3_ok_witness:
  "\<exists>co. run_niks3 bare_host (\<lambda>_. False) [''push'', ''--server-url=http://cache'', ''-auth-token'', ''t'', ''--pin'', ''v1'', ''result''] =
     Runs (Push co [''result''] 30 False ''v1'') \<and> client_ok bare_host (\<lambda>_. False) co"
proof -
  have "run_niks3 bare_host (\<lambda>_. False) [''push'', ''--server-url=http://cache'', ''-auth-token'', ''t'', ''--pin'', ''v1'', ''result''] =
     Runs (Push \<lparr>co_server_url = ''http://cache'', co_token = StaticToken ''t'', co_client_cert = '''', co_client_key = '''',
       co_ca_cert = '''', co_debug = False\<rparr> [''result''] 30 False ''v1'')"
    by code_simp
  from run_niks3_ok [OF this] this show ?thesis by auto
qed


end
